(* ===== verification/Fs_Prelude.thy ===== *)
theory Fs_Prelude
  imports Main "HOL-Library.Word" "HOL-Library.Monad_Syntax"
begin

text \<open>
  Shared vocabulary of the development.

  Pointers are natural numbers with 0 as NULL, memory is a finite map from
  addresses to structs, and a computation that may go wrong has an
  \<open>option\<close> result: \<open>None\<close> stands for a run the C code cannot complete
  (a dereference of NULL or of memory that is not mapped, an access outside an
  array, or a loop that never ends).  \<open>deref\<close> and \<open>upd_at\<close> are the two
  memory accesses every component uses; \<open>arr_get\<close> and \<open>arr_set\<close>
  are the checked array accesses.

  The named collection \<open>mem_simps\<close> holds the rewrite rules that execute
  memory accesses, \<open>seq_simps\<close> those for the sequences that linked
  structures represent.
\<close>

named_theorems mem_simps "execution of memory accesses"
named_theorems seq_simps "facts about represented sequences"

section \<open>Pointers and memory\<close>

type_synonym ptr = nat
type_synonym 'a mem = "ptr \<rightharpoonup> 'a"
type_synonym u8 = "8 word"
type_synonym u32 = "32 word"
type_synonym u64 = "64 word"

abbreviation (input) NULL :: ptr where
  "NULL \<equiv> 0"

definition deref :: "'a mem \<Rightarrow> ptr \<Rightarrow> 'a option" where
  "deref h p = (if p = NULL then None else h p)"

definition upd_at :: "ptr \<Rightarrow> ('a \<Rightarrow> 'a) \<Rightarrow> 'a mem \<Rightarrow> 'a mem option" where
  "upd_at p f h = do { x \<leftarrow> deref h p; Some (h(p \<mapsto> f x)) }"

definition unmap :: "nat \<Rightarrow> nat \<Rightarrow> 'a mem \<Rightarrow> 'a mem" where
  "unmap a n h = (\<lambda>p. if a \<le> p \<and> p < a + n then None else h p)"

lemma deref_Some [mem_simps]: "deref h p = Some x \<longleftrightarrow> p \<noteq> 0 \<and> h p = Some x"
  by (simp add: deref_def)

lemma deref_valid [mem_simps]: "p \<noteq> 0 \<Longrightarrow> deref h p = h p"
  by (simp add: deref_def)

lemma deref_NULL [mem_simps]: "deref h NULL = None"
  by (simp add: deref_def)

lemma upd_at_Some [mem_simps]:
  "p \<noteq> 0 \<Longrightarrow> h p = Some x \<Longrightarrow> upd_at p f h = Some (h(p \<mapsto> f x))"
  by (simp add: upd_at_def deref_def)

lemma upd_at_NULL [mem_simps]: "upd_at NULL f h = None"
  by (simp add: upd_at_def deref_def)

lemma upd_at_dom: "upd_at p f h = Some h' \<Longrightarrow> dom h' = dom h"
  by (auto simp: upd_at_def deref_def split: if_splits Option.bind_splits)

lemma unmap_outside [mem_simps]: "\<not> (a \<le> p \<and> p < a + n) \<Longrightarrow> unmap a n h p = h p"
  by (auto simp: unmap_def)

lemma unmap_inside [mem_simps]: "a \<le> p \<Longrightarrow> p < a + n \<Longrightarrow> unmap a n h p = None"
  by (simp add: unmap_def)

section \<open>Checked arrays\<close>

definition arr_get :: "'a list \<Rightarrow> int \<Rightarrow> 'a option" where
  "arr_get xs i = (if 0 \<le> i \<and> i < int (length xs) then Some (xs ! nat i) else None)"

definition arr_set :: "'a list \<Rightarrow> int \<Rightarrow> 'a \<Rightarrow> 'a list option" where
  "arr_set xs i v = (if 0 \<le> i \<and> i < int (length xs) then Some (xs[nat i := v]) else None)"

lemma arr_get_nat [simp]:
  "i < length xs \<Longrightarrow> arr_get xs (int i) = Some (xs ! i)"
  by (simp add: arr_get_def)

lemma arr_get_out [simp]: "int (length xs) \<le> i \<Longrightarrow> arr_get xs i = None"
  by (simp add: arr_get_def)

lemma arr_get_neg [simp]: "i < 0 \<Longrightarrow> arr_get xs i = None"
  by (simp add: arr_get_def)

lemma arr_set_nat [simp]:
  "i < length xs \<Longrightarrow> arr_set xs (int i) v = Some (xs[i := v])"
  by (simp add: arr_set_def)

lemma arr_set_length: "arr_set xs i v = Some ys \<Longrightarrow> length ys = length xs"
  by (auto simp: arr_set_def split: if_splits)

section \<open>First and last element with a default\<close>

definition hdd :: "'a \<Rightarrow> 'a list \<Rightarrow> 'a" where
  "hdd d xs = (case xs of [] \<Rightarrow> d | x # _ \<Rightarrow> x)"

definition lastd :: "'a \<Rightarrow> 'a list \<Rightarrow> 'a" where
  "lastd d xs = (if xs = [] then d else last xs)"

lemma hdd_simps [simp]: "hdd d [] = d" "hdd d (x # xs) = x"
  by (simp_all add: hdd_def)

lemma lastd_simps [simp]: "lastd d [] = d" "lastd d (xs @ [x]) = x" "lastd d (x # xs) = lastd x xs"
  by (simp_all add: lastd_def)

lemma hdd_append [seq_simps]: "hdd d (xs @ ys) = hdd (hdd d ys) xs"
  by (cases xs) simp_all

lemma lastd_append [seq_simps]: "lastd d (xs @ ys) = lastd (lastd d xs) ys"
  by (induction xs arbitrary: d) simp_all

lemma hdd_in: "xs \<noteq> [] \<Longrightarrow> hdd d xs \<in> set xs"
  by (cases xs) simp_all

lemma lastd_in: "xs \<noteq> [] \<Longrightarrow> lastd d xs \<in> set xs"
  by (simp add: lastd_def)

section \<open>C integer conversions\<close>

text \<open>The value of a (signed) \<open>char\<close> when it is promoted to \<open>unsigned\<close>.\<close>

definition uchar_promote :: "char \<Rightarrow> u32" where
  "uchar_promote c = scast (of_char c :: u8)"

text \<open>Conversion of an \<open>unsigned long\<close> to \<open>int\<close>.\<close>

definition ulong_to_int :: "u64 \<Rightarrow> int" where
  "ulong_to_int w = sint (ucast w :: u32)"

lemma ulong_to_int_of_nat: "n < 2 ^ 31 \<Longrightarrow> ulong_to_int (of_nat n) = int n"
  by (simp add: ulong_to_int_def unsigned_ucast_eq sint_uint signed_take_bit_eq_if_positive
      take_bit_nat_eq_self_iff unsigned_of_nat take_bit_nat_def bit_iff_odd take_bit_int_eq_self_iff)

end
