(* ===== verification/Dlink.thy ===== *)
theory Dlink
  imports Fs_Prelude
begin

text \<open>
  The doubly linked list library of \<open>src/dlink.c\<close>, at the level of its
  pointers: nodes live in a memory \<open>dheap\<close>, a list is a struct with
  \<open>head\<close>, \<open>tail\<close> and \<open>length\<close>.  \<open>dlist h l ns\<close> says that
  the struct \<open>l\<close> represents the sequence of node addresses \<open>ns\<close>.
  Each operation is proved to run without a bad dereference on represented
  lists and to perform the corresponding operation on the sequence.  The node
  pool (\<open>dlink_create\<close>, \<open>dlink_free\<close>) needs the block allocator and
  is in theory \<open>Dlink_Pool\<close>.
\<close>

section \<open>Data\<close>

record dlink_node =
  nd_data :: ptr
  nd_next :: ptr
  nd_prev :: ptr

record dlink_list =
  ll_head :: ptr
  ll_tail :: ptr
  ll_length :: u64

type_synonym dheap = "dlink_node mem"

definition empty_list :: dlink_list where
  "empty_list = \<lparr>ll_head = NULL, ll_tail = NULL, ll_length = 0\<rparr>"

section \<open>Operations\<close>

definition dlink_add :: "ptr \<Rightarrow> ptr \<Rightarrow> dheap \<Rightarrow> dlink_list \<Rightarrow> (dheap \<times> dlink_list) option" where
  "dlink_add d m h l = do {
     h \<leftarrow> upd_at m (\<lambda>n. n\<lparr>nd_data := d, nd_next := ll_head l, nd_prev := NULL\<rparr>) h;
     (h, l) \<leftarrow>
       (if ll_head l \<noteq> NULL then do {
          h \<leftarrow> upd_at (ll_head l) (\<lambda>n. n\<lparr>nd_prev := m\<rparr>) h;
          Some (h, l) }
        else if ll_tail l = NULL then Some (h, l\<lparr>ll_tail := m\<rparr>)
        else Some (h, l));
     Some (h, l\<lparr>ll_head := m, ll_length := ll_length l + 1\<rparr>) }"

definition dlink_add_before ::
  "ptr \<Rightarrow> ptr \<Rightarrow> ptr \<Rightarrow> dheap \<Rightarrow> dlink_list \<Rightarrow> (dheap \<times> dlink_list) option" where
  "dlink_add_before b d m h l =
     (if b = ll_head l then dlink_add d m h l
      else do {
        h \<leftarrow> upd_at m (\<lambda>n. n\<lparr>nd_data := d\<rparr>) h;
        bn \<leftarrow> deref h b;
        h \<leftarrow> upd_at (nd_prev bn) (\<lambda>n. n\<lparr>nd_next := m\<rparr>) h;
        bn \<leftarrow> deref h b;
        h \<leftarrow> upd_at m (\<lambda>n. n\<lparr>nd_prev := nd_prev bn\<rparr>) h;
        h \<leftarrow> upd_at b (\<lambda>n. n\<lparr>nd_prev := m\<rparr>) h;
        h \<leftarrow> upd_at m (\<lambda>n. n\<lparr>nd_next := b\<rparr>) h;
        Some (h, l\<lparr>ll_length := ll_length l + 1\<rparr>) })"

definition dlink_add_tail ::
  "ptr \<Rightarrow> ptr \<Rightarrow> dheap \<Rightarrow> dlink_list \<Rightarrow> (dheap \<times> dlink_list) option" where
  "dlink_add_tail d m h l = do {
     h \<leftarrow> upd_at m (\<lambda>n. n\<lparr>nd_data := d, nd_next := NULL, nd_prev := ll_tail l\<rparr>) h;
     (h, l) \<leftarrow>
       (if ll_head l = NULL then Some (h, l\<lparr>ll_head := m\<rparr>)
        else if ll_tail l \<noteq> NULL then do {
          h \<leftarrow> upd_at (ll_tail l) (\<lambda>n. n\<lparr>nd_next := m\<rparr>) h;
          Some (h, l) }
        else Some (h, l));
     Some (h, l\<lparr>ll_tail := m, ll_length := ll_length l + 1\<rparr>) }"

definition dlink_delete :: "ptr \<Rightarrow> dheap \<Rightarrow> dlink_list \<Rightarrow> (dheap \<times> dlink_list) option" where
  "dlink_delete m h l = do {
     n \<leftarrow> deref h m;
     (h, l) \<leftarrow>
       (if nd_prev n = NULL then Some (h, l\<lparr>ll_head := nd_next n\<rparr>)
        else do {
          h \<leftarrow> upd_at (nd_prev n) (\<lambda>x. x\<lparr>nd_next := nd_next n\<rparr>) h;
          Some (h, l) });
     n \<leftarrow> deref h m;
     (h, l) \<leftarrow>
       (if nd_next n = NULL then Some (h, l\<lparr>ll_tail := nd_prev n\<rparr>)
        else do {
          h \<leftarrow> upd_at (nd_next n) (\<lambda>x. x\<lparr>nd_prev := nd_prev n\<rparr>) h;
          Some (h, l) });
     Some (h, l\<lparr>ll_length := ll_length l - 1\<rparr>) }"

text \<open>
  The traversal of \<open>DLINK_FOREACH\<close>: the walk from a node to the first node
  that satisfies a test.  \<open>None\<close> is a walk through unmapped memory or around
  a cycle.
\<close>

partial_function (option) dlink_walk :: "(dlink_node \<Rightarrow> bool) \<Rightarrow> dheap \<Rightarrow> ptr \<Rightarrow> ptr option" where
  "dlink_walk P h p =
     (if p = NULL then Some NULL
      else do {
        n \<leftarrow> deref h p;
        if P n then Some p else dlink_walk P h (nd_next n) })"

definition dlink_find :: "ptr \<Rightarrow> dheap \<Rightarrow> dlink_list \<Rightarrow> ptr option" where
  "dlink_find d h l = dlink_walk (\<lambda>n. nd_data n = d) h (ll_head l)"

definition dlink_find_delete ::
  "ptr \<Rightarrow> dheap \<Rightarrow> dlink_list \<Rightarrow> (ptr \<times> dheap \<times> dlink_list) option" where
  "dlink_find_delete d h l = do {
     p \<leftarrow> dlink_walk (\<lambda>n. nd_data n = d) h (ll_head l);
     if p = NULL then Some (NULL, h, l)
     else do {
       n \<leftarrow> deref h p;
       (h, l) \<leftarrow>
         (if nd_next n \<noteq> NULL then do {
            h \<leftarrow> upd_at (nd_next n) (\<lambda>x. x\<lparr>nd_prev := nd_prev n\<rparr>) h;
            Some (h, l) }
          else Some (h, l\<lparr>ll_tail := nd_prev n\<rparr>));
       n \<leftarrow> deref h p;
       (h, l) \<leftarrow>
         (if nd_prev n \<noteq> NULL then do {
            h \<leftarrow> upd_at (nd_prev n) (\<lambda>x. x\<lparr>nd_next := nd_next n\<rparr>) h;
            Some (h, l) }
          else Some (h, l\<lparr>ll_head := nd_next n\<rparr>));
       h \<leftarrow> upd_at p (\<lambda>x. x\<lparr>nd_next := NULL, nd_prev := NULL\<rparr>) h;
       Some (p, h, l\<lparr>ll_length := ll_length l - 1\<rparr>) } }"

definition dlink_length :: "dlink_list \<Rightarrow> int" where
  "dlink_length l = ulong_to_int (ll_length l)"

text \<open>
  The two list arguments are the addresses of two different structs (in
  \<open>src/balloc.c\<close> the free and the used list of one block), so neither is
  NULL and they do not alias.
\<close>

definition dlink_move ::
  "ptr \<Rightarrow> dheap \<Rightarrow> dlink_list \<Rightarrow> dlink_list \<Rightarrow> (dheap \<times> dlink_list \<times> dlink_list) option" where
  "dlink_move m h ol nl =
     (if m = NULL then Some (h, ol, nl)
      else do {
        n \<leftarrow> deref h m;
        (h, ol) \<leftarrow>
          (if nd_next n \<noteq> NULL then do {
             h \<leftarrow> upd_at (nd_next n) (\<lambda>x. x\<lparr>nd_prev := nd_prev n\<rparr>) h;
             Some (h, ol) }
           else Some (h, ol\<lparr>ll_tail := nd_prev n\<rparr>));
        n \<leftarrow> deref h m;
        (h, ol) \<leftarrow>
          (if nd_prev n \<noteq> NULL then do {
             h \<leftarrow> upd_at (nd_prev n) (\<lambda>x. x\<lparr>nd_next := nd_next n\<rparr>) h;
             Some (h, ol) }
           else Some (h, ol\<lparr>ll_head := nd_next n\<rparr>));
        h \<leftarrow> upd_at m (\<lambda>x. x\<lparr>nd_prev := NULL, nd_next := ll_head nl\<rparr>) h;
        (h, nl) \<leftarrow>
          (if ll_head nl \<noteq> NULL then do {
             h \<leftarrow> upd_at (ll_head nl) (\<lambda>x. x\<lparr>nd_prev := m\<rparr>) h;
             Some (h, nl) }
           else if ll_tail nl = NULL then Some (h, nl\<lparr>ll_tail := m\<rparr>)
           else Some (h, nl));
        Some (h, ol\<lparr>ll_length := ll_length ol - 1\<rparr>,
              nl\<lparr>ll_head := m, ll_length := ll_length nl + 1\<rparr>) })"

section \<open>Represented sequences\<close>

text \<open>
  \<open>dseg h p ns q\<close>: the nodes \<open>ns\<close> form a segment of a list; the
  first one points back to \<open>p\<close>, the last one forward to \<open>q\<close>.
\<close>

fun dseg :: "dheap \<Rightarrow> ptr \<Rightarrow> ptr list \<Rightarrow> ptr \<Rightarrow> bool" where
  "dseg h p [] q = True"
| "dseg h p (a # as) q =
     (a \<noteq> NULL \<and> (\<exists>n. h a = Some n \<and> nd_next n = hdd q as \<and> nd_prev n = p) \<and> dseg h a as q)"

definition dlist :: "dheap \<Rightarrow> dlink_list \<Rightarrow> ptr list \<Rightarrow> bool" where
  "dlist h l ns \<longleftrightarrow>
     distinct ns \<and> dseg h NULL ns NULL \<and>
     ll_head l = hdd NULL ns \<and> ll_tail l = lastd NULL ns \<and> ll_length l = of_nat (length ns)"

text \<open>What an operation leaves alone: the nodes outside \<open>S\<close> and every data field but that of \<open>D\<close>.\<close>

definition dframe :: "ptr set \<Rightarrow> ptr set \<Rightarrow> dheap \<Rightarrow> dheap \<Rightarrow> bool" where
  "dframe S D h h' \<longleftrightarrow>
     dom h' = dom h \<and> (\<forall>p. p \<notin> S \<longrightarrow> h' p = h p) \<and>
     (\<forall>p. p \<notin> D \<longrightarrow> map_option nd_data (h' p) = map_option nd_data (h p))"

lemma dseg_append [seq_simps]:
  "dseg h p (xs @ ys) q \<longleftrightarrow> dseg h p xs (hdd q ys) \<and> dseg h (lastd p xs) ys q"
  by (induction xs arbitrary: p) (auto simp: hdd_append)

lemma dseg_cong:
  "dseg h p ns q \<Longrightarrow> (\<And>a. a \<in> set ns \<Longrightarrow> h' a = h a) \<Longrightarrow> dseg h' p ns q"
  by (induction ns arbitrary: p) auto

lemma dseg_upd [simp]: "a \<notin> set ns \<Longrightarrow> dseg (h(a := v)) p ns q = dseg h p ns q"
  by (induction ns arbitrary: p) auto

lemma dseg_nonnull: "dseg h p ns q \<Longrightarrow> NULL \<notin> set ns"
  by (induction ns arbitrary: p) auto

lemma dseg_dom: "dseg h p ns q \<Longrightarrow> set ns \<subseteq> dom h"
  by (induction ns arbitrary: p) auto

lemma dseg_split_front:
  assumes "dseg h p ns q" and "ns \<noteq> []"
  obtains a as n where "ns = a # as" "a \<noteq> NULL" "dseg h a as q"
    "h a = Some n" "nd_next n = hdd q as" "nd_prev n = p"
  using assms by (cases ns) auto

lemma dseg_split_back:
  assumes "dseg h p ns q" and "ns \<noteq> []"
  obtains as a n where "ns = as @ [a]" "a \<noteq> NULL" "dseg h p as a"
    "h a = Some n" "nd_next n = q" "nd_prev n = lastd p as"
  using assms by (cases ns rule: rev_cases) (auto simp: dseg_append)

lemma dlist_nonnull: "dlist h l ns \<Longrightarrow> NULL \<notin> set ns"
  by (auto simp: dlist_def dest: dseg_nonnull)

lemma dlist_dom: "dlist h l ns \<Longrightarrow> set ns \<subseteq> dom h"
  by (auto simp: dlist_def dest: dseg_dom)

lemma dlist_distinct: "dlist h l ns \<Longrightarrow> distinct ns"
  by (simp add: dlist_def)

lemma dlist_cong:
  "dlist h l ns \<Longrightarrow> (\<And>a. a \<in> set ns \<Longrightarrow> h' a = h a) \<Longrightarrow> dlist h' l ns"
  by (auto simp: dlist_def intro: dseg_cong)

lemma dlist_frame: "dlist h l ns \<Longrightarrow> dframe S D h h' \<Longrightarrow> set ns \<inter> S = {} \<Longrightarrow> dlist h' l ns"
  by (erule dlist_cong) (auto simp: dframe_def)

lemma dlist_empty [simp]: "dlist h empty_list []"
  by (simp add: dlist_def empty_list_def)

lemma dlist_head: "dlist h l ns \<Longrightarrow> ll_head l = hdd NULL ns"
  by (simp add: dlist_def)

lemma dlist_length: "dlist h l ns \<Longrightarrow> ll_length l = of_nat (length ns)"
  by (simp add: dlist_def)

lemma dframe_mono: "dframe S D h h' \<Longrightarrow> S \<subseteq> S' \<Longrightarrow> D \<subseteq> D' \<Longrightarrow> dframe S' D' h h'"
  by (auto simp: dframe_def)

lemma dframe_trans:
  "dframe S D h h' \<Longrightarrow> dframe S' D' h' h'' \<Longrightarrow> dframe (S \<union> S') (D \<union> D') h h''"
  by (auto simp: dframe_def)

lemma dframe_refl [simp]: "dframe S D h h"
  by (simp add: dframe_def)

lemma dframe_data: "dframe S D h h' \<Longrightarrow> p \<notin> D \<Longrightarrow> map_option nd_data (h' p) = map_option nd_data (h p)"
  by (simp add: dframe_def)

lemma dframe_dom: "dframe S D h h' \<Longrightarrow> dom h' = dom h"
  by (simp add: dframe_def)

section \<open>Each operation performs the list operation\<close>

lemma dlink_add_spec:
  assumes l: "dlist h l ns" and m: "m \<noteq> NULL" "m \<in> dom h" "m \<notin> set ns"
  shows "\<exists>h' l'. dlink_add d m h l = Some (h', l') \<and> dlist h' l' (m # ns) \<and>
    map_option nd_data (h' m) = Some d \<and> dframe (insert m (set ns)) {m} h h'"
  using assms by (cases ns) (auto simp: dlink_add_def dlist_def mem_simps dframe_def)

lemma dlink_add_tail_spec:
  assumes l: "dlist h l ns" and m: "m \<noteq> NULL" "m \<in> dom h" "m \<notin> set ns"
  shows "\<exists>h' l'. dlink_add_tail d m h l = Some (h', l') \<and> dlist h' l' (ns @ [m]) \<and>
    map_option nd_data (h' m) = Some d \<and> dframe (insert m (set ns)) {m} h h'"
proof (cases ns rule: rev_cases)
  case Nil
  with l m show ?thesis
    by (auto simp: dlink_add_tail_def dlist_def mem_simps dframe_def)
next
  case (snoc as a)
  with l m show ?thesis
    by (cases as) (auto simp: dlink_add_tail_def dlist_def mem_simps dframe_def seq_simps)
qed

lemma dlist_split_nodes:
  assumes "dlist h l (xs @ m # ys)"
  shows "m \<noteq> NULL" "\<exists>n. h m = Some n \<and> nd_next n = hdd NULL ys \<and> nd_prev n = lastd NULL xs"
  using assms by (auto simp: dlist_def seq_simps)

lemma dlink_delete_spec:
  assumes l: "dlist h l (xs @ m # ys)"
  shows "\<exists>h' l'. dlink_delete m h l = Some (h', l') \<and> dlist h' l' (xs @ ys) \<and>
    h' m = h m \<and> dframe (set (xs @ ys)) {} h h'"
proof (cases xs rule: rev_cases)
  case Nil
  with l show ?thesis
    by (cases ys) (auto simp: dlink_delete_def dlist_def mem_simps dframe_def)
next
  case (snoc as a)
  with l show ?thesis
    by (cases ys) (auto simp: dlink_delete_def dlist_def mem_simps dframe_def seq_simps)
qed

lemma dlink_add_before_spec:
  assumes l: "dlist h l (xs @ b # ys)" and m: "m \<noteq> NULL" "m \<in> dom h" "m \<notin> set (xs @ b # ys)"
  shows "\<exists>h' l'. dlink_add_before b d m h l = Some (h', l') \<and> dlist h' l' (xs @ m # b # ys) \<and>
    map_option nd_data (h' m) = Some d \<and> dframe (insert m (set (xs @ b # ys))) {m} h h'"
proof (cases xs rule: rev_cases)
  case Nil
  with l have "b = ll_head l" by (simp add: dlist_def)
  with Nil l m dlink_add_spec[OF l m, of d] show ?thesis
    by (auto simp: dlink_add_before_def)
next
  case (snoc as a)
  with l have "b \<noteq> ll_head l" by (cases as) (auto simp: dlist_def)
  with snoc l m show ?thesis
    by (cases as)
      (auto simp: dlink_add_before_def dlist_def mem_simps dframe_def seq_simps)
qed

lemma dlink_walk_NULL [simp]: "dlink_walk P h NULL = Some NULL"
  by (simp add: dlink_walk.simps)

lemma dlink_walk_step [mem_simps]:
  "p \<noteq> NULL \<Longrightarrow> h p = Some n \<Longrightarrow>
   dlink_walk P h p = (if P n then Some p else dlink_walk P h (nd_next n))"
  by (subst dlink_walk.simps) (simp add: mem_simps)

text \<open>A walk over a segment finds the first node that passes the test, or walks off its end.\<close>

definition passes :: "(dlink_node \<Rightarrow> bool) \<Rightarrow> dheap \<Rightarrow> ptr \<Rightarrow> bool" where
  "passes P h a = (case h a of None \<Rightarrow> False | Some n \<Rightarrow> P n)"

lemma dlink_walk_dseg:
  "dseg h p ns q \<Longrightarrow>
   dlink_walk P h (hdd q ns) =
     (case find (passes P h) ns of Some a \<Rightarrow> Some a | None \<Rightarrow> dlink_walk P h q)"
proof (induction ns arbitrary: p)
  case (Cons a as)
  then obtain n where n: "a \<noteq> NULL" "h a = Some n" "nd_next n = hdd q as" by auto
  with Cons show ?case by (auto simp: dlink_walk_step passes_def)
qed simp

lemma dlink_walk_dlist:
  assumes "dlist h l ns"
  shows "dlink_walk P h (ll_head l) = Some (case find (passes P h) ns of Some a \<Rightarrow> a | None \<Rightarrow> NULL)"
  using assms dlink_walk_dseg[of h NULL ns NULL P]
  by (simp add: dlist_def split: option.splits)

lemma find_first_split:
  assumes "find P xs = Some x"
  obtains ys zs where "xs = ys @ x # zs" "P x" "\<forall>y \<in> set ys. \<not> P y"
  using assms
proof (induction xs arbitrary: thesis)
  case (Cons a xs)
  show ?case
  proof (cases "P a")
    case True
    with Cons.prems show ?thesis by (intro Cons.prems(1)[of "[]" xs]) auto
  next
    case False
    with Cons.prems(2) have "find P xs = Some x" by simp
    then obtain ys zs where "xs = ys @ x # zs" "P x" "\<forall>y \<in> set ys. \<not> P y"
      using Cons.IH by blast
    with False show ?thesis by (intro Cons.prems(1)[of "a # ys" zs]) auto
  qed
qed simp

lemma dlink_find_spec:
  assumes "dlist h l ns"
  shows "dlink_find d h l =
    Some (case find (\<lambda>a. map_option nd_data (h a) = Some d) ns of Some a \<Rightarrow> a | None \<Rightarrow> NULL)"
proof -
  have "passes (\<lambda>n. nd_data n = d) h = (\<lambda>a. map_option nd_data (h a) = Some d)"
    by (auto simp: passes_def fun_eq_iff split: option.splits)
  with dlink_walk_dlist[OF assms, of "\<lambda>n. nd_data n = d"] show ?thesis
    by (simp add: dlink_find_def)
qed

lemma dlink_find_delete_spec:
  assumes l: "dlist h l (xs @ m # ys)" and d: "map_option nd_data (h m) = Some d"
    and first: "\<forall>a \<in> set xs. map_option nd_data (h a) \<noteq> Some d"
  shows "\<exists>h' l'. dlink_find_delete d h l = Some (m, h', l') \<and> dlist h' l' (xs @ ys) \<and>
    dframe (set (xs @ m # ys)) {} h h'"
proof -
  have "find (\<lambda>a. map_option nd_data (h a) = Some d) (xs @ m # ys) = Some m"
    using d first by (induction xs) auto
  then have w: "dlink_walk (\<lambda>n. nd_data n = d) h (ll_head l) = Some m"
    using dlink_find_spec[OF l, of d] by (simp add: dlink_find_def)
  show ?thesis
  proof (cases xs rule: rev_cases)
    case Nil
    with l w show ?thesis
      by (cases ys) (auto simp: dlink_find_delete_def dlist_def mem_simps dframe_def)
  next
    case (snoc as a)
    with l w show ?thesis
      by (cases ys) (auto simp: dlink_find_delete_def dlist_def mem_simps dframe_def seq_simps)
  qed
qed

lemma dlink_find_delete_absent:
  assumes l: "dlist h l ns" and "\<forall>a \<in> set ns. map_option nd_data (h a) \<noteq> Some d"
  shows "dlink_find_delete d h l = Some (NULL, h, l)"
proof -
  have "find (\<lambda>a. map_option nd_data (h a) = Some d) ns = None"
    using assms(2) by (simp add: find_None_iff)
  then show ?thesis
    using dlink_find_spec[OF l, of d] by (simp add: dlink_find_delete_def dlink_find_def)
qed

text \<open>
  \<open>dlink_move\<close> is the unlink step of \<open>dlink_find_delete\<close> followed by the
  relink step of \<open>dlink_add\<close>; the data of the moved node stays.
\<close>

lemma dlink_move_spec:
  assumes o: "dlist h ol (xs @ m # ys)" and n: "dlist h nl ns"
    and dis: "set (xs @ m # ys) \<inter> set ns = {}"
  shows "\<exists>h' ol' nl'. dlink_move m h ol nl = Some (h', ol', nl') \<and> dlist h' ol' (xs @ ys) \<and>
    dlist h' nl' (m # ns) \<and> dframe (set (xs @ m # ys) \<union> set ns) {} h h'"
proof (cases xs rule: rev_cases)
  case Nil
  with o n dis show ?thesis
    by (cases ys; cases ns) (auto simp: dlink_move_def dlist_def mem_simps dframe_def)
next
  case (snoc as a)
  with o n dis show ?thesis
    by (cases ys; cases ns) (auto simp: dlink_move_def dlist_def mem_simps dframe_def seq_simps)
qed

section \<open>The contract of a list of nodes\<close>

text \<open>
  What the other components rely on: a representation predicate, the data a node
  carries, and the laws of adding a node at either end, of deleting a node and of
  searching for data.  \<open>avail\<close> says that a node is allocated memory.
\<close>

locale node_list =
  fixes repr :: "'h \<Rightarrow> 'l \<Rightarrow> ptr list \<Rightarrow> bool"
    and avail :: "'h \<Rightarrow> ptr \<Rightarrow> bool"
    and item :: "'h \<Rightarrow> ptr \<Rightarrow> ptr option"
    and push :: "ptr \<Rightarrow> ptr \<Rightarrow> 'h \<Rightarrow> 'l \<Rightarrow> ('h \<times> 'l) option"
    and append :: "ptr \<Rightarrow> ptr \<Rightarrow> 'h \<Rightarrow> 'l \<Rightarrow> ('h \<times> 'l) option"
    and del :: "ptr \<Rightarrow> 'h \<Rightarrow> 'l \<Rightarrow> ('h \<times> 'l) option"
    and find_del :: "ptr \<Rightarrow> 'h \<Rightarrow> 'l \<Rightarrow> (ptr \<times> 'h \<times> 'l) option"
  assumes repr_distinct: "repr h l ns \<Longrightarrow> distinct ns"
    and push: "repr h l ns \<Longrightarrow> avail h m \<Longrightarrow> m \<notin> set ns \<Longrightarrow>
      \<exists>h' l'. push d m h l = Some (h', l') \<and> repr h' l' (m # ns) \<and>
        avail h' = avail h \<and> item h' = (item h)(m \<mapsto> d)"
    and append: "repr h l ns \<Longrightarrow> avail h m \<Longrightarrow> m \<notin> set ns \<Longrightarrow>
      \<exists>h' l'. append d m h l = Some (h', l') \<and> repr h' l' (ns @ [m]) \<and>
        avail h' = avail h \<and> item h' = (item h)(m \<mapsto> d)"
    and del: "repr h l (xs @ m # ys) \<Longrightarrow>
      \<exists>h' l'. del m h l = Some (h', l') \<and> repr h' l' (xs @ ys) \<and> avail h' = avail h \<and> item h' = item h"
    and find_del: "repr h l (xs @ m # ys) \<Longrightarrow> item h m = Some d \<Longrightarrow> \<forall>a \<in> set xs. item h a \<noteq> Some d \<Longrightarrow>
      \<exists>h' l'. find_del d h l = Some (m, h', l') \<and> repr h' l' (xs @ ys) \<and> avail h' = avail h \<and> item h' = item h"
    and find_del_none: "repr h l ns \<Longrightarrow> \<forall>a \<in> set ns. item h a \<noteq> Some d \<Longrightarrow>
      find_del d h l = Some (NULL, h, l)"
begin

text \<open>The data on a list, in list order.\<close>

definition contents :: "'h \<Rightarrow> ptr list \<Rightarrow> ptr option list" where
  "contents h ns = map (item h) ns"

lemma push_contents:
  assumes "repr h l ns" "avail h m" "m \<notin> set ns"
  shows "\<exists>h' l'. push d m h l = Some (h', l') \<and> repr h' l' (m # ns) \<and> avail h' = avail h \<and>
    contents h' (m # ns) = Some d # contents h ns"
  using push[OF assms, of d] assms(3) by (auto simp: contents_def)

lemma append_contents:
  assumes "repr h l ns" "avail h m" "m \<notin> set ns"
  shows "\<exists>h' l'. append d m h l = Some (h', l') \<and> repr h' l' (ns @ [m]) \<and> avail h' = avail h \<and>
    contents h' (ns @ [m]) = contents h ns @ [Some d]"
  using append[OF assms, of d] assms(3) by (auto simp: contents_def)

lemma push_del:
  assumes "repr h l ns" "avail h m" "m \<notin> set ns"
  shows "\<exists>h' l' h'' l''. push d m h l = Some (h', l') \<and> del m h' l' = Some (h'', l'') \<and>
    repr h'' l'' ns \<and> contents h'' ns = contents h ns"
proof -
  obtain h' l' where p: "push d m h l = Some (h', l')" "repr h' l' ([] @ m # ns)" "item h' = (item h)(m \<mapsto> d)"
    using push[OF assms] by fastforce
  from del[OF p(2)] p assms(3) show ?thesis by (fastforce simp: contents_def)
qed

lemma push_find_del:
  assumes "repr h l ns" "avail h m" "m \<notin> set ns"
  shows "\<exists>h' l' h'' l''. push d m h l = Some (h', l') \<and> find_del d h' l' = Some (m, h'', l'') \<and>
    repr h'' l'' ns \<and> contents h'' ns = contents h ns"
proof -
  obtain h' l' where p: "push d m h l = Some (h', l')" "repr h' l' ([] @ m # ns)" "item h' = (item h)(m \<mapsto> d)"
    using push[OF assms] by fastforce
  then have "item h' m = Some d" by simp
  from find_del[OF p(2) this] p assms(3) show ?thesis by (fastforce simp: contents_def)
qed

text \<open>Removing data that is on the list once takes exactly that entry off.\<close>

lemma find_del_contents:
  assumes l: "repr h l ns" and m: "m \<in> set ns" "item h m = Some d"
    and once: "\<forall>a \<in> set ns. item h a = Some d \<longrightarrow> a = m"
  shows "\<exists>h' l'. find_del d h l = Some (m, h', l') \<and> repr h' l' (remove1 m ns) \<and> avail h' = avail h \<and>
    item h' = item h"
proof -
  obtain xs ys where ns: "ns = xs @ m # ys" using m(1) by (meson split_list)
  have mx: "m \<notin> set xs" using repr_distinct[OF l] ns by auto
  have "item h a \<noteq> Some d" if "a \<in> set xs" for a
  proof
    assume "item h a = Some d"
    then have "a = m" using once that by (simp add: ns)
    with mx that show False by simp
  qed
  then have "\<forall>a \<in> set xs. item h a \<noteq> Some d" by blast
  note fd = find_del[OF l[unfolded ns] m(2) this]
  have "remove1 m (xs @ m # ys) = xs @ ys" using mx by (simp add: remove1_append)
  then have "remove1 m ns = xs @ ys" by (simp only: ns)
  with fd show ?thesis by presburger
qed

end

lemma dlist_avail: "dlist h l ns \<Longrightarrow> m \<in> set ns \<Longrightarrow> m \<noteq> NULL \<and> m \<in> dom h"
  using dlist_nonnull[of h l ns] dlist_dom[of h l ns] by (metis subsetD)

lemma dframe_item:
  "dframe S D h h' \<Longrightarrow> D \<subseteq> {m} \<Longrightarrow> map_option nd_data (h' m) = v \<Longrightarrow>
   (\<lambda>p. map_option nd_data (h' p)) = (\<lambda>p. map_option nd_data (h p))(m := v)"
  by (auto simp: dframe_def fun_eq_iff)

lemma dframe_item_same:
  "dframe S {} h h' \<Longrightarrow> (\<lambda>p. map_option nd_data (h' p)) = (\<lambda>p. map_option nd_data (h p))"
  by (auto simp: dframe_def fun_eq_iff)

interpretation dl: node_list dlist "\<lambda>h m. m \<noteq> NULL \<and> m \<in> dom h" "\<lambda>h p. map_option nd_data (h p)"
  dlink_add dlink_add_tail dlink_delete dlink_find_delete
proof (unfold_locales, goal_cases)
  case (1 h l ns)
  then show ?case by (rule dlist_distinct)
next
  case (2 h l ns m d)
  with dlink_add_spec[of h l ns m d] show ?case
    by (metis (no_types, lifting) dframe_dom dframe_item subset_refl)
next
  case (3 h l ns m d)
  with dlink_add_tail_spec[of h l ns m d] show ?case
    by (metis (no_types, lifting) dframe_dom dframe_item subset_refl)
next
  case (4 h l xs m ys)
  from dlink_delete_spec[OF 4] show ?case
    by (metis (no_types, lifting) dframe_dom dframe_item_same)
next
  case (5 h l xs m ys d)
  from dlink_find_delete_spec[OF 5] show ?case
    by (metis (no_types, lifting) dframe_dom dframe_item_same)
next
  case (6 h l ns d)
  then show ?case by (rule dlink_find_delete_absent)
qed

section \<open>Properties\<close>

text \<open>A list of three nodes 1, 2, 3 that carry the data 10, 20, 10, and a list of one node 4.\<close>

definition demo_nodes :: dheap where
  "demo_nodes = [1 \<mapsto> \<lparr>nd_data = 10, nd_next = 2, nd_prev = NULL\<rparr>,
                 2 \<mapsto> \<lparr>nd_data = 20, nd_next = 3, nd_prev = 1\<rparr>,
                 3 \<mapsto> \<lparr>nd_data = 10, nd_next = NULL, nd_prev = 2\<rparr>,
                 4 \<mapsto> \<lparr>nd_data = 40, nd_next = NULL, nd_prev = NULL\<rparr>,
                 5 \<mapsto> \<lparr>nd_data = NULL, nd_next = NULL, nd_prev = NULL\<rparr>]"

definition demo_list :: dlink_list where
  "demo_list = \<lparr>ll_head = 1, ll_tail = 3, ll_length = 3\<rparr>"

definition demo_list1 :: dlink_list where
  "demo_list1 = \<lparr>ll_head = 4, ll_tail = 4, ll_length = 1\<rparr>"

lemma demo_lists: "dlist demo_nodes demo_list [1, 2, 3]" "dlist demo_nodes demo_list1 [4]"
  by (simp_all add: dlist_def demo_nodes_def demo_list_def demo_list1_def)

text \<open>
  C26.  \<open>dlink_move\<close> takes a node from any position of one list and puts it at the front
  of another: it never dereferences NULL or memory outside the lists, both structs
  represent the right sequences afterwards (links, head, tail and length), every node
  keeps its data and no other node changes.
\<close>

theorem dlink_move_refines:
  assumes "dlist h ol (xs @ m # ys)" and "dlist h nl ns" and "set (xs @ m # ys) \<inter> set ns = {}"
  shows "\<exists>h' ol' nl'. dlink_move m h ol nl = Some (h', ol', nl') \<and>
    dlist h' ol' (xs @ ys) \<and> dlist h' nl' (m # ns) \<and>
    (\<forall>p. map_option nd_data (h' p) = map_option nd_data (h p)) \<and>
    (\<forall>p. p \<notin> set (xs @ m # ys) \<union> set ns \<longrightarrow> h' p = h p)"
  using dlink_move_spec[OF assms] by (auto simp: dframe_def)

theorem dlink_move_refines_witness:
  "dlist demo_nodes demo_list ([1] @ 2 # [3]) \<and> dlist demo_nodes demo_list1 [4] \<and>
   (\<exists>h' ol' nl'. dlink_move 2 demo_nodes demo_list demo_list1 = Some (h', ol', nl') \<and>
      dlist h' ol' [1, 3] \<and> dlist h' nl' [2, 4])"
  using dlink_move_refines[of demo_nodes demo_list "[1]" 2 "[3]" demo_list1 "[4]"] demo_lists by auto

text \<open>
  C35.  \<open>dlink_find_delete\<close> unlinks the first node that carries the data, returns it,
  leaves the order of the other nodes, and returns NULL with the list unchanged when
  no node carries the data.
\<close>

theorem dlink_find_delete_first:
  assumes "dlist h l ns"
  shows "case find (\<lambda>a. map_option nd_data (h a) = Some d) ns of
      None \<Rightarrow> dlink_find_delete d h l = Some (NULL, h, l)
    | Some m \<Rightarrow> \<exists>h' l'. dlink_find_delete d h l = Some (m, h', l') \<and> dlist h' l' (remove1 m ns) \<and>
        (\<forall>p. map_option nd_data (h' p) = map_option nd_data (h p))"
proof (cases "find (\<lambda>a. map_option nd_data (h a) = Some d) ns")
  case None
  then have "\<forall>a \<in> set ns. map_option nd_data (h a) \<noteq> Some d" unfolding find_None_iff by blast
  from dlink_find_delete_absent[OF assms this] None show ?thesis by (simp only: option.case)
next
  case (Some m)
  then obtain xs ys where ns: "ns = xs @ m # ys" "map_option nd_data (h m) = Some d"
      "\<forall>a \<in> set xs. map_option nd_data (h a) \<noteq> Some d"
    by (rule find_first_split)
  have "m \<notin> set xs" using ns by auto
  then have "remove1 m ns = xs @ ys" by (simp add: ns(1) remove1_append)
  with dlink_find_delete_spec[OF assms[unfolded ns(1)] ns(2,3)]
  show ?thesis unfolding Some option.case by (auto simp: dframe_def)
qed

theorem dlink_find_delete_first_witness:
  "dlist demo_nodes demo_list [1, 2, 3] \<and>
   (\<exists>h' l'. dlink_find_delete 20 demo_nodes demo_list = Some (2, h', l') \<and> dlist h' l' [1, 3]) \<and>
   dlink_find_delete 77 demo_nodes demo_list = Some (NULL, demo_nodes, demo_list)"
proof -
  have "find (\<lambda>a. map_option nd_data (demo_nodes a) = Some 20) [1, 2, 3] = Some 2"
    "find (\<lambda>a. map_option nd_data (demo_nodes a) = Some 77) [1, 2, 3] = None"
    by (simp_all add: demo_nodes_def)
  with dlink_find_delete_first[OF demo_lists(1), of 20] dlink_find_delete_first[OF demo_lists(1), of 77]
  show ?thesis using demo_lists(1) by auto
qed

text \<open>
  C6.  \<open>dlink_add_before\<close> inserts a node with its data directly before a given node,
  also when that is the head of the list.
\<close>

theorem dlink_add_before_inserts:
  assumes "dlist h l (xs @ b # ys)" and "m \<noteq> NULL" "m \<in> dom h" "m \<notin> set (xs @ b # ys)"
  shows "\<exists>h' l'. dlink_add_before b d m h l = Some (h', l') \<and> dlist h' l' (xs @ m # b # ys) \<and>
    (\<forall>p. map_option nd_data (h' p) = (if p = m then Some d else map_option nd_data (h p)))"
  using dlink_add_before_spec[OF assms, of d] by (auto simp: dframe_def)

theorem dlink_add_before_inserts_witness:
  "dlist demo_nodes demo_list ([1] @ 2 # [3]) \<and>
   (\<exists>h' l'. dlink_add_before 2 99 5 demo_nodes demo_list = Some (h', l') \<and> dlist h' l' [1, 5, 2, 3] \<and>
      map_option nd_data (h' 5) = Some 99)"
proof -
  have "5 \<in> dom demo_nodes" by (simp add: demo_nodes_def)
  then obtain h' l' where "dlink_add_before 2 99 5 demo_nodes demo_list = Some (h', l')"
      "dlist h' l' ([1] @ 5 # 2 # [3])" "\<forall>p. map_option nd_data (h' p) =
        (if p = 5 then Some 99 else map_option nd_data (demo_nodes p))"
    using dlink_add_before_inserts[of demo_nodes demo_list "[1]" 2 "[3]" 5 99] demo_lists by auto
  then show ?thesis using demo_lists by (simp del: map_option_eq_Some)
qed

end
