(* ===== verification/Balloc_Inv.thy ===== *)
theory Balloc_Inv
  imports Balloc
begin

text \<open>
  The representation invariant of a block heap (\<open>heap_inv\<close>) and the effect of each
  operation of \<open>src/balloc.c\<close> on the blocks it describes: making a block, taking
  and releasing an element, collecting unused blocks.  \<open>bframe\<close> states what an
  operation leaves unchanged.
\<close>

section \<open>The representation invariant\<close>

text \<open>
  A block is described by its address, the address of its mapping, and the lists of
  the \<open>MemBlock\<close> addresses of its free and its used elements.
\<close>

type_synonym binfo = "ptr \<times> ptr \<times> ptr list \<times> ptr list"

definition stride :: "nat \<Rightarrow> nat" where
  "stride sz = sz + sizeof_MemBlock"

definition slots :: "ptr \<Rightarrow> nat \<Rightarrow> nat \<Rightarrow> ptr list" where
  "slots e sz n = map (\<lambda>i. e + i * stride sz) [0..<n]"

definition blk_ok ::
  "'a bstate_scheme \<Rightarrow> nat \<Rightarrow> nat \<Rightarrow> ptr \<Rightarrow> ptr \<Rightarrow> ptr list \<Rightarrow> ptr list \<Rightarrow> ptr \<Rightarrow> bool" where
  "blk_ok s sz n b e fs us nx \<longleftrightarrow>
     b \<noteq> NULL \<and> e \<noteq> NULL \<and> distinct (fs @ us) \<and> set (fs @ us) = set (slots e sz n) \<and>
     (\<forall>m \<in> set (slots e sz n). b_owner s m = Some b \<and>
        map_option nd_data (b_nodes s m) = Some (m + sizeof_MemBlock)) \<and>
     (\<exists>blk. b_blocks s b = Some blk \<and> blk_elems blk = e \<and> blk_next blk = nx \<and>
        unat (blk_alloc_size blk) = Suc n * stride sz \<and>
        dlist (b_nodes s) (blk_free_list blk) fs \<and> dlist (b_nodes s) (blk_used_list blk) us)"

fun chain :: "'a bstate_scheme \<Rightarrow> nat \<Rightarrow> nat \<Rightarrow> binfo list \<Rightarrow> ptr \<Rightarrow> bool" where
  "chain s sz n [] q = True"
| "chain s sz n ((b, e, fs, us) # xs) q =
     (blk_ok s sz n b e fs us (hdd q (map fst xs)) \<and> chain s sz n xs q)"

definition apart :: "nat \<Rightarrow> nat \<Rightarrow> binfo \<Rightarrow> binfo \<Rightarrow> bool" where
  "apart sz n x y \<longleftrightarrow> fst x \<noteq> fst y \<and>
     (fst (snd x) + Suc n * stride sz \<le> fst (snd y) \<or> fst (snd y) + Suc n * stride sz \<le> fst (snd x))"

definition total_free :: "binfo list \<Rightarrow> nat" where
  "total_free xs = (\<Sum>(b, e, fs, us) \<leftarrow> xs. length fs)"

definition total_used :: "binfo list \<Rightarrow> nat" where
  "total_used xs = (\<Sum>(b, e, fs, us) \<leftarrow> xs. length us)"

definition used_elems :: "binfo list \<Rightarrow> ptr set" where
  "used_elems xs = (\<Union>x \<in> set xs. (\<lambda>m. m + sizeof_MemBlock) ` set (snd (snd (snd x))))"

definition heap_inv :: "'a bstate_scheme \<Rightarrow> ptr \<Rightarrow> nat \<Rightarrow> nat \<Rightarrow> binfo list \<Rightarrow> bool" where
  "heap_inv s bhp sz n xs \<longleftrightarrow>
     bhp \<noteq> NULL \<and> 0 < n \<and> length xs * n < 2 ^ 64 \<and>
     chain s sz n xs NULL \<and> sorted_wrt (apart sz n) xs \<and>
     (\<exists>bh. b_heaps s bhp = Some bh \<and> unat (bh_elemSize bh) = sz \<and> unat (bh_elemsPerBlock bh) = n \<and>
        bh_base bh = hdd NULL (map fst xs) \<and> bh_blocksAllocated bh = of_nat (length xs) \<and>
        bh_freeElems bh = of_nat (total_free xs))"

text \<open>
  What an operation changes: the cells in \<open>C\<close>, the block headers in \<open>B\<close>, the
  heap headers in \<open>H\<close>, and nothing else of the state.
\<close>

definition bframe ::
  "ptr set \<Rightarrow> ptr set \<Rightarrow> ptr set \<Rightarrow> 'a bstate_scheme \<Rightarrow> 'a bstate_scheme \<Rightarrow> bool" where
  "bframe C B H s s' \<longleftrightarrow>
     (\<forall>p. p \<notin> C \<longrightarrow> b_nodes s' p = b_nodes s p \<and> b_owner s' p = b_owner s p \<and> b_bytes s' p = b_bytes s p) \<and>
     (\<forall>p. p \<notin> B \<longrightarrow> b_blocks s' p = b_blocks s p) \<and>
     (\<forall>p. p \<notin> H \<longrightarrow> b_heaps s' p = b_heaps s p) \<and>
     b_heap_lists s' = b_heap_lists s \<and> b_dying s' = b_dying s \<and> bstate.more s' = bstate.more s"

definition elem_area :: "nat \<Rightarrow> ptr \<Rightarrow> ptr set" where
  "elem_area sz p = {q. in_range p sz q}"

definition block_area :: "nat \<Rightarrow> nat \<Rightarrow> ptr \<Rightarrow> ptr set" where
  "block_area sz n e = {q. in_range e (Suc n * stride sz) q}"

definition headers :: "nat \<Rightarrow> nat \<Rightarrow> binfo list \<Rightarrow> ptr set" where
  "headers sz n xs = (\<Union>x \<in> set xs. set (slots (fst (snd x)) sz n))"

lemma bframe_mono: "bframe C B H s s' \<Longrightarrow> C \<subseteq> C' \<Longrightarrow> B \<subseteq> B' \<Longrightarrow> H \<subseteq> H' \<Longrightarrow> bframe C' B' H' s s'"
  by (auto simp: bframe_def)

lemma bframe_trans: "bframe C B H s s' \<Longrightarrow> bframe C B H s' s'' \<Longrightarrow> bframe C B H s s''"
  by (auto simp: bframe_def)

lemma bframe_refl [simp]: "bframe C B H s s"
  by (simp add: bframe_def)

subsection \<open>Chains and slots\<close>

lemma total_simps [simp]:
  "total_free [] = 0" "total_free ((b, e, fs, us) # xs) = length fs + total_free xs"
  "total_used [] = 0" "total_used ((b, e, fs, us) # xs) = length us + total_used xs"
  "total_free (xs @ ys) = total_free xs + total_free ys"
  "total_used (xs @ ys) = total_used xs + total_used ys"
  by (simp_all add: total_free_def total_used_def)

lemma chain_append [seq_simps]:
  "chain s sz n (xs @ ys) q \<longleftrightarrow> chain s sz n xs (hdd q (map fst ys)) \<and> chain s sz n ys q"
  by (induction s sz n xs "hdd q (map fst ys)" rule: chain.induct) (auto simp: hdd_append)

lemma slots_length [simp]: "length (slots e sz n) = n"
  by (simp add: slots_def)

lemma stride_pos: "0 < stride sz"
  by (simp add: stride_def sizeof_MemBlock_def)

lemma slots_distinct: "distinct (slots e sz n)"
  using stride_pos[of sz] by (auto simp: slots_def distinct_map inj_on_def)

lemma slot_nonnull: "m \<in> set (slots e sz n) \<Longrightarrow> e \<noteq> NULL \<Longrightarrow> m \<noteq> NULL"
  by (auto simp: slots_def)

lemma slot_bounds:
  assumes "m \<in> set (slots e sz n)"
  shows "e \<le> m" "m + stride sz \<le> e + n * stride sz"
proof -
  obtain i where i: "i < n" "m = e + i * stride sz" using assms by (auto simp: slots_def)
  then have "Suc i * stride sz \<le> n * stride sz" by (intro mult_le_mono1) simp
  with i show "e \<le> m" "m + stride sz \<le> e + n * stride sz" by (simp_all add: algebra_simps)
qed

lemma slot_not_in_element:
  assumes "m \<in> set (slots e sz n)" "m' \<in> set (slots e sz n)"
  shows "\<not> in_range (m + sizeof_MemBlock) sz m'"
proof
  assume r: "in_range (m + sizeof_MemBlock) sz m'"
  obtain i j where ij: "m = e + i * stride sz" "m' = e + j * stride sz"
    using assms by (auto simp: slots_def)
  have "0 < sizeof_MemBlock" by (simp add: sizeof_MemBlock_def)
  with r ij have "i * stride sz < j * stride sz" "j * stride sz < i * stride sz + stride sz"
    unfolding in_range_def by (linarith, simp add: stride_def)
  then have "i * stride sz < j * stride sz" "j * stride sz < Suc i * stride sz" by simp_all
  then show False by (metis less_Suc_eq_le mult_less_cancel2 not_less)
qed

lemma blk_ok_length:
  assumes "blk_ok s sz n b e fs us q"
  shows "length fs + length us = n"
proof -
  have "card (set (fs @ us)) = card (set (slots e sz n))" using assms by (simp add: blk_ok_def)
  moreover have "card (set (fs @ us)) = length (fs @ us)"
    using assms by (intro distinct_card) (simp add: blk_ok_def)
  ultimately show ?thesis by (simp add: distinct_card[OF slots_distinct])
qed

lemma blk_ok_cong:
  fixes s :: "'a bstate_scheme" and s' :: "'b bstate_scheme"
  assumes "blk_ok s sz n b e fs us q" "b_blocks s' b = b_blocks s b"
    "\<And>m. m \<in> set (slots e sz n) \<Longrightarrow> b_nodes s' m = b_nodes s m \<and> b_owner s' m = b_owner s m"
  shows "blk_ok s' sz n b e fs us q"
proof -
  have sub: "set fs \<subseteq> set (slots e sz n)" "set us \<subseteq> set (slots e sz n)"
    using assms(1) by (auto simp: blk_ok_def)
  have "dlist (b_nodes s') l ns" if "dlist (b_nodes s) l ns" "set ns \<subseteq> set (slots e sz n)" for l ns
    using that assms(3) by (auto intro: dlist_cong)
  with assms sub show ?thesis by (auto simp: blk_ok_def)
qed

text \<open>Two states agree on the cells that describe a block.\<close>

definition same_blk :: "nat \<Rightarrow> nat \<Rightarrow> 'a bstate_scheme \<Rightarrow> 'b bstate_scheme \<Rightarrow> binfo \<Rightarrow> bool" where
  "same_blk sz n s s' x \<longleftrightarrow> b_blocks s' (fst x) = b_blocks s (fst x) \<and>
     (\<forall>m \<in> set (slots (fst (snd x)) sz n). b_nodes s' m = b_nodes s m \<and> b_owner s' m = b_owner s m)"

lemma chain_cong:
  "chain s sz n xs q \<Longrightarrow> \<forall>x \<in> set xs. same_blk sz n s s' x \<Longrightarrow> chain s' sz n xs q"
proof (induction s sz n xs q rule: chain.induct)
  case (2 s sz n b e fs us xs q)
  have "blk_ok s' sz n b e fs us (hdd q (map fst xs))"
    by (rule blk_ok_cong[of s]) (use "2.prems" in \<open>auto simp: same_blk_def\<close>)
  with 2 show ?case by simp
qed simp

lemma apart_slots:
  assumes "apart sz n (b, e, fs, us) (b', e', fs', us')" "m \<in> set (slots e sz n)"
  shows "\<not> in_range e' (Suc n * stride sz) m"
  using assms(1) slot_bounds[OF assms(2)] stride_pos[of sz]
  by (auto simp: apart_def in_range_def)

lemma apart_sym: "apart sz n x y \<Longrightarrow> apart sz n y x"
  by (auto simp: apart_def)

lemma total_free_bound: "chain s sz n xs q \<Longrightarrow> total_free xs \<le> length xs * n"
proof (induction s sz n xs q rule: chain.induct)
  case (2 s sz n b e fs us xs q)
  then have "length fs \<le> n" using blk_ok_length by fastforce
  with 2 show ?case by simp
qed simp

subsection \<open>Allocation\<close>

lemma find_free_block_step [mem_simps]:
  "w \<noteq> NULL \<Longrightarrow> bs w = Some blk \<Longrightarrow> find_free_block bs w =
     (if ll_length (blk_free_list blk) > 0 then Some w else find_free_block bs (blk_next blk))"
  by (subst find_free_block.simps) (simp add: mem_simps)

lemma find_free_block_NULL [simp]: "find_free_block bs NULL = Some NULL"
  by (simp add: find_free_block.simps)

lemma of_nat_pos_iff: "k < 2 ^ 64 \<Longrightarrow> (0 < (of_nat k :: u64)) \<longleftrightarrow> 0 < k"
  by (simp add: word_less_nat_alt unat_of_nat take_bit_nat_eq_self)

lemma find_free_block_chain:
  "chain s sz n xs NULL \<Longrightarrow> n < 2 ^ 64 \<Longrightarrow>
   find_free_block (b_blocks s) (hdd NULL (map fst xs)) =
     Some (case find (\<lambda>(b, e, fs, us). fs \<noteq> []) xs of Some x \<Rightarrow> fst x | None \<Rightarrow> NULL)"
proof (induction xs)
  case (Cons x xs)
  obtain b e fs us where x: "x = (b, e, fs, us)" by (cases x)
  with Cons.prems have ok: "blk_ok s sz n b e fs us (hdd NULL (map fst xs))" by simp
  then obtain blk where blk: "b \<noteq> NULL" "b_blocks s b = Some blk"
      "blk_next blk = hdd NULL (map fst xs)" "dlist (b_nodes s) (blk_free_list blk) fs"
    by (auto simp: blk_ok_def)
  have "length fs < 2 ^ 64" using blk_ok_length[OF ok] Cons.prems(2) by simp
  then have "0 < ll_length (blk_free_list blk) \<longleftrightarrow> fs \<noteq> []"
    using dlist_length[OF blk(4)] of_nat_pos_iff by auto
  with Cons x blk show ?case by (auto simp: mem_simps)
qed simp

lemma total_free_zero: "total_free xs = 0 \<longleftrightarrow> find (\<lambda>(b, e, fs, us). fs \<noteq> []) xs = None"
  by (induction xs) auto

lemma find_free_split:
  assumes "total_free xs \<noteq> 0"
  obtains ys b e m fs us zs where "xs = ys @ (b, e, m # fs, us) # zs" "total_free ys = 0"
proof -
  obtain x where "find (\<lambda>(b, e, fs, us). fs \<noteq> []) xs = Some x"
    using assms total_free_zero[of xs] by auto
  then obtain ys zs where xs: "xs = ys @ x # zs" "case x of (b, e, fs, us) \<Rightarrow> fs \<noteq> []"
      "\<forall>y \<in> set ys. \<not> (case y of (b, e, fs, us) \<Rightarrow> fs \<noteq> [])"
    by (rule find_first_split)
  have "total_free ys = 0" using xs(3) by (induction ys) auto
  moreover obtain b e fs us where x: "x = (b, e, fs, us)" by (cases x)
  ultimately show thesis using that xs(1,2) by (cases fs) auto
qed

lemma elem_in_block:
  "m \<in> set (slots e sz n) \<Longrightarrow> in_range (m + sizeof_MemBlock) sz p \<Longrightarrow> in_range e (Suc n * stride sz) p"
  using slot_bounds[of m e sz n] stride_pos[of sz] by (auto simp: in_range_def stride_def)

lemma mem_zero_outside [mem_simps]:
  "\<not> in_range a k p \<Longrightarrow> b_nodes (mem_zero a k s) p = b_nodes s p"
  "\<not> in_range a k p \<Longrightarrow> b_owner (mem_zero a k s) p = b_owner s p"
  by (simp_all add: mem_zero_def)

lemma mem_zero_fields [simp]:
  "b_blocks (mem_zero a k s) = b_blocks s" "b_heaps (mem_zero a k s) = b_heaps s"
  "b_heap_lists (mem_zero a k s) = b_heap_lists s" "b_dying (mem_zero a k s) = b_dying s"
  by (simp_all add: mem_zero_def)

lemma mem_zero_dom: "dom (b_nodes (mem_zero a k s)) = dom (b_nodes s)"
  by (auto simp: mem_zero_def dom_def)

lemma mem_zero_bytes: "in_range a k p \<Longrightarrow> b_bytes (mem_zero a k s) p = 0"
  by (simp add: mem_zero_def)

text \<open>
  Zeroing one element, and relinking the nodes of one block, leave the cells of all
  other blocks alone.
\<close>

lemma apart_disjoint:
  assumes "apart sz n (b, e, fs, us) (b', e', fs', us')" "p \<in> set (slots e sz n)"
  shows "p \<notin> set (slots e' sz n)" "\<not> in_range e' (Suc n * stride sz) p"
  using apart_slots[OF assms] slot_bounds[of p e' sz n] stride_pos[of sz]
  by (auto simp: in_range_def)

lemma chain_mem_zero:
  assumes c: "chain s sz n xs q" and sw: "sorted_wrt (apart sz n) xs"
    and x: "(b, e, fs, us) \<in> set xs" and m: "m \<in> set (slots e sz n)"
  shows "chain (mem_zero (m + sizeof_MemBlock) sz s) sz n xs q"
proof (rule chain_cong[OF c], rule ballI)
  fix y assume y: "y \<in> set xs"
  obtain b1 e1 f1 u1 where ye: "y = (b1, e1, f1, u1)" by (cases y)
  have "\<not> in_range (m + sizeof_MemBlock) sz p" if p: "p \<in> set (slots e1 sz n)" for p
  proof (cases "y = (b, e, fs, us)")
    case True
    with m p ye slot_not_in_element show ?thesis by auto
  next
    case False
    have "apart sz n y (b, e, fs, us)"
      using sw x y False by (induction xs) (auto intro: apart_sym)
    then show ?thesis using apart_slots p ye elem_in_block[OF m] by blast
  qed
  then show "same_blk sz n s (mem_zero (m + sizeof_MemBlock) sz s) y"
    by (simp add: same_blk_def ye mem_simps)
qed

lemma chain_update_block:
  assumes c: "chain s sz n (ys @ (b, e, fs, us) # zs) q"
    and sw: "sorted_wrt (apart sz n) (ys @ (b, e, fs, us) # zs)"
    and fr: "dframe (set (slots e sz n)) {} (b_nodes s) h"
    and bl: "b_blocks s b = Some blk"
    and l: "dlist h fl fs'" "dlist h ul us'"
    and set': "distinct (fs' @ us')" "set (fs' @ us') = set (fs @ us)"
    and s': "s' = s\<lparr>b_heaps := hs, b_nodes := h,
               b_blocks := (b_blocks s)(b \<mapsto> blk\<lparr>blk_free_list := fl, blk_used_list := ul\<rparr>)\<rparr>"
  shows "chain s' sz n (ys @ (b, e, fs', us') # zs) q"
    and "sorted_wrt (apart sz n) (ys @ (b, e, fs', us') # zs)"
proof -
  have ok: "blk_ok s sz n b e fs us (hdd q (map fst zs))" using c by (simp add: seq_simps)
  have others: "same_blk sz n s s' x" if "x \<in> set ys \<union> set zs" for x
  proof -
    obtain b1 e1 f1 u1 where x: "x = (b1, e1, f1, u1)" by (cases x)
    have ap: "apart sz n (b1, e1, f1, u1) (b, e, fs, us)"
      using that sw x by (auto simp: sorted_wrt_append intro: apart_sym)
    with apart_disjoint(1)[OF ap] fr x show ?thesis
      by (auto simp: same_blk_def dframe_def apart_def s')
  qed
  have "blk_ok s' sz n b e fs' us' (hdd q (map fst zs))"
    using ok l set' bl dframe_data[OF fr] by (auto simp: blk_ok_def s')
  with others c show "chain s' sz n (ys @ (b, e, fs', us') # zs) q"
    by (auto simp: seq_simps intro: chain_cong)
  from sw show "sorted_wrt (apart sz n) (ys @ (b, e, fs', us') # zs)"
    by (simp add: sorted_wrt_append apart_def)
qed

lemma dlist_Cons_head: "dlist h l (m # ns) \<Longrightarrow> ll_head l = m"
  by (simp add: dlist_def)

lemma unat_bound: "unat (w :: u64) < 2 ^ 64"
  using unsigned_less[of w] by simp

lemma blockheap_take_ok:
  assumes inv: "heap_inv s bhp sz n (ys @ (b, e, m # fs, us) # zs)" and ys: "total_free ys = 0"
  shows "\<exists>s'. blockheap_take bhp s = Some (m + sizeof_MemBlock, s') \<and>
    heap_inv s' bhp sz n (ys @ (b, e, fs, m # us) # zs) \<and>
    (\<forall>p. in_range (m + sizeof_MemBlock) sz p \<longrightarrow> b_bytes s' p = 0) \<and>
    bframe (set (slots e sz n) \<union> elem_area sz (m + sizeof_MemBlock)) {b} {bhp} s s' \<and>
    dom (b_nodes s') = dom (b_nodes s)"
proof -
  let ?xs = "ys @ (b, e, m # fs, us) # zs"
  obtain bh where bh: "bhp \<noteq> NULL" "b_heaps s bhp = Some bh" "unat (bh_elemSize bh) = sz"
      "unat (bh_elemsPerBlock bh) = n" "bh_base bh = hdd NULL (map fst ?xs)"
      "bh_blocksAllocated bh = of_nat (length ?xs)" "bh_freeElems bh = of_nat (total_free ?xs)"
    and c: "chain s sz n ?xs NULL" and sw: "sorted_wrt (apart sz n) ?xs"
    and n: "0 < n" "length ?xs * n < 2 ^ 64"
    using inv by (auto simp: heap_inv_def)
  have ok: "blk_ok s sz n b e (m # fs) us (hdd NULL (map fst zs))" using c by (simp add: seq_simps)
  then have m: "m \<in> set (slots e sz n)" by (auto simp: blk_ok_def)
  with ok obtain blk where blk: "b \<noteq> NULL" "b_blocks s b = Some blk"
      "dlist (b_nodes s) (blk_free_list blk) (m # fs)" "dlist (b_nodes s) (blk_used_list blk) us"
      "map_option nd_data (b_nodes s m) = Some (m + sizeof_MemBlock)" "set (m # fs @ us) = set (slots e sz n)"
      "distinct (m # fs @ us)"
    by (auto simp: blk_ok_def)
  have ffb: "find_free_block (b_blocks s) (bh_base bh) = Some b"
  proof -
    have "find (\<lambda>(b, e, fs, us). fs \<noteq> []) ys = None" using ys total_free_zero by simp
    then have "find (\<lambda>(b, e, fs, us). fs \<noteq> []) ?xs = Some (b, e, m # fs, us)"
      by (induction ys) (auto split: if_splits)
    then show ?thesis using find_free_block_chain[OF c] bh(4,5) unat_bound[of "bh_elemsPerBlock bh"] by simp
  qed
  obtain h fl ul where mv: "dlink_move m (b_nodes s) (blk_free_list blk) (blk_used_list blk) = Some (h, fl, ul)"
      "dlist h fl fs" "dlist h ul (m # us)" "dframe (set (m # fs) \<union> set us) {} (b_nodes s) h"
    using dlink_move_spec[of "b_nodes s" "blk_free_list blk" "[]" m fs "blk_used_list blk" us] blk(3,4,7)
    by (auto simp del: dlist_empty)
  have fr: "dframe (set (slots e sz n)) {} (b_nodes s) h" using mv(4) blk(6) by simp
  have dm: "\<exists>nd. h m = Some nd \<and> nd_data nd = m + sizeof_MemBlock"
    using dframe_data[OF fr, of m] blk(5) by auto
  have m0: "m \<noteq> NULL" using dlist_nonnull[OF blk(3)] by simp
  let ?hs = "(b_heaps s)(bhp \<mapsto> bh\<lparr>bh_freeElems := bh_freeElems bh - 1\<rparr>)"
  let ?blk = "blk\<lparr>blk_free_list := fl, blk_used_list := ul\<rparr>"
  let ?s' = "mem_zero (m + sizeof_MemBlock) sz
               (s\<lparr>b_heaps := ?hs, b_nodes := h, b_blocks := (b_blocks s)(b \<mapsto> ?blk)\<rparr>)"
  have run: "blockheap_take bhp s = Some (m + sizeof_MemBlock, ?s')"
    using bh blk ffb mv(1) dm m0 dlist_Cons_head[OF blk(3)]
    by (auto simp: blockheap_take_def upd_heap_def upd_block_def mem_simps sizeof_MemBlock_def)
  let ?s1 = "s\<lparr>b_heaps := ?hs, b_nodes := h, b_blocks := (b_blocks s)(b \<mapsto> ?blk)\<rparr>"
  have c1: "chain ?s1 sz n (ys @ (b, e, fs, m # us) # zs) NULL"
    and sw1: "sorted_wrt (apart sz n) (ys @ (b, e, fs, m # us) # zs)"
    using chain_update_block[OF c sw fr blk(2) mv(2,3) _ _ refl] blk(7) by auto
  have "chain ?s' sz n (ys @ (b, e, fs, m # us) # zs) NULL"
    by (rule chain_mem_zero[OF c1 sw1 _ m, of b fs "m # us"]) simp
  then have "heap_inv ?s' bhp sz n (ys @ (b, e, fs, m # us) # zs)"
    using bh n sw1 by (auto simp: heap_inv_def seq_simps)
  moreover have "bframe (set (slots e sz n) \<union> elem_area sz (m + sizeof_MemBlock)) {b} {bhp} s ?s'"
    using fr by (auto simp: bframe_def dframe_def elem_area_def mem_zero_def)
  moreover have "dom (b_nodes ?s') = dom (b_nodes s)"
    using dframe_dom[OF fr] by (simp add: mem_zero_dom)
  ultimately show ?thesis using run by (auto simp: mem_zero_bytes)
qed

subsection \<open>Release\<close>

lemma blockheap_free_ok:
  assumes inv: "heap_inv s bhp sz n (ys @ (b, e, fs, us1 @ m # us2) # zs)"
  shows "\<exists>s'. blockheap_free bhp (m + sizeof_MemBlock) s = Some (0, s') \<and>
    heap_inv s' bhp sz n (ys @ (b, e, m # fs, us1 @ us2) # zs) \<and>
    (\<forall>p. in_range (m + sizeof_MemBlock) sz p \<longrightarrow> b_bytes s' p = 0) \<and>
    bframe (set (slots e sz n) \<union> elem_area sz (m + sizeof_MemBlock)) {b} {bhp} s s' \<and>
    dom (b_nodes s') = dom (b_nodes s)"
proof -
  let ?us = "us1 @ m # us2"
  let ?xs = "ys @ (b, e, fs, ?us) # zs"
  obtain bh where bh: "bhp \<noteq> NULL" "b_heaps s bhp = Some bh" "unat (bh_elemSize bh) = sz"
      "unat (bh_elemsPerBlock bh) = n" "bh_base bh = hdd NULL (map fst ?xs)"
      "bh_blocksAllocated bh = of_nat (length ?xs)" "bh_freeElems bh = of_nat (total_free ?xs)"
    and c: "chain s sz n ?xs NULL" and sw: "sorted_wrt (apart sz n) ?xs"
    and n: "0 < n" "length ?xs * n < 2 ^ 64"
    using inv by (auto simp: heap_inv_def)
  have "blk_ok s sz n b e fs ?us (hdd NULL (map fst zs))" using c by (simp add: seq_simps)
  then have m: "m \<in> set (slots e sz n)" by (auto simp: blk_ok_def)
  let ?s0 = "mem_zero (m + sizeof_MemBlock) sz s"
  have c0: "chain ?s0 sz n ?xs NULL"
    by (rule chain_mem_zero[OF c sw _ m, of b fs ?us]) simp
  then have ok0: "blk_ok ?s0 sz n b e fs ?us (hdd NULL (map fst zs))" by (simp add: seq_simps)
  with m have own: "b_owner s m = Some b" "b \<noteq> NULL"
    using slot_not_in_element[OF m m] by (auto simp: blk_ok_def mem_simps)
  obtain blk where blk: "b_blocks ?s0 b = Some blk"
      "dlist (b_nodes ?s0) (blk_free_list blk) fs" "dlist (b_nodes ?s0) (blk_used_list blk) ?us"
      "set (fs @ ?us) = set (slots e sz n)" "distinct (fs @ ?us)"
    using ok0 by (auto simp: blk_ok_def)
  obtain h fl ul where mv: "dlink_move m (b_nodes ?s0) (blk_used_list blk) (blk_free_list blk) = Some (h, ul, fl)"
      "dlist h ul (us1 @ us2)" "dlist h fl (m # fs)" "dframe (set ?us \<union> set fs) {} (b_nodes ?s0) h"
  proof -
    have "set ?us \<inter> set fs = {}" using blk(5) by auto
    then show thesis using dlink_move_spec[OF blk(3,2)] that by blast
  qed
  have fr: "dframe (set (slots e sz n)) {} (b_nodes ?s0) h"
    using mv(4) blk(4) by (simp add: Un_commute)
  have m0: "m \<noteq> NULL" using dlist_nonnull[OF blk(3)] by auto
  let ?hs = "(b_heaps s)(bhp \<mapsto> bh\<lparr>bh_freeElems := bh_freeElems bh + 1\<rparr>)"
  let ?s' = "?s0\<lparr>b_heaps := ?hs, b_nodes := h,
     b_blocks := (b_blocks ?s0)(b \<mapsto> blk\<lparr>blk_free_list := fl, blk_used_list := ul\<rparr>)\<rparr>"
  have run: "blockheap_free bhp (m + sizeof_MemBlock) s = Some (0, ?s')"
    using bh own m0 blk(1) mv(1)
    by (simp add: blockheap_free_def Let_def mem_simps upd_heap_def upd_block_def)
  have "chain ?s' sz n (ys @ (b, e, m # fs, us1 @ us2) # zs) NULL"
    "sorted_wrt (apart sz n) (ys @ (b, e, m # fs, us1 @ us2) # zs)"
    using chain_update_block[OF c0 sw fr blk(1) mv(3,2) _ _ refl] blk(5) by auto
  then have "heap_inv ?s' bhp sz n (ys @ (b, e, m # fs, us1 @ us2) # zs)"
    using bh n by (auto simp: heap_inv_def)
  moreover have "bframe (set (slots e sz n) \<union> elem_area sz (m + sizeof_MemBlock)) {b} {bhp} s ?s'"
    using fr by (auto simp: bframe_def dframe_def elem_area_def mem_zero_def)
  moreover have "dom (b_nodes ?s') = dom (b_nodes s)"
    using dframe_dom[OF fr] by (simp add: mem_zero_dom)
  ultimately show ?thesis using run by (auto simp: mem_zero_bytes)
qed

subsection \<open>A new block\<close>

lemma slots_Suc: "slots e sz (Suc n) = e # slots (e + stride sz) sz n"
proof -
  have "[0..<Suc n] = 0 # map Suc [0..<n]" by (simp add: map_Suc_upt upt_conv_Cons del: upt_Suc)
  then show ?thesis by (simp add: slots_def comp_def add.assoc del: upt_Suc)
qed

lemma carve_ok:
  assumes "b \<noteq> NULL" "b_blocks s b = Some blk" "dlist (b_nodes s) (blk_free_list blk) fs"
    "off \<noteq> NULL" "set (slots off sz k) \<subseteq> dom (b_owner s) \<inter> dom (b_nodes s)"
    "set (slots off sz k) \<inter> set fs = {}"
  shows "\<exists>h ow fl. carve k b off sz s = Some (s\<lparr>b_nodes := h, b_owner := ow,
        b_blocks := (b_blocks s)(b \<mapsto> blk\<lparr>blk_free_list := fl\<rparr>)\<rparr>) \<and>
      dlist h fl (rev (slots off sz k) @ fs) \<and>
      (\<forall>m \<in> set (slots off sz k). ow m = Some b \<and> map_option nd_data (h m) = Some (m + sizeof_MemBlock)) \<and>
      (\<forall>p. p \<notin> set (slots off sz k) \<longrightarrow> ow p = b_owner s p) \<and>
      dframe (set (slots off sz k) \<union> set fs) (set (slots off sz k)) (b_nodes s) h"
  using assms
proof (induction k arbitrary: off s blk fs)
  case 0
  then show ?case
    by (intro exI[of _ "b_nodes s"] exI[of _ "b_owner s"] exI[of _ "blk_free_list blk"])
      (auto simp: slots_def map_upd_triv)
next
  case (Suc k)
  let ?off' = "off + stride sz"
  have off: "off \<in> dom (b_owner s)" "off \<in> dom (b_nodes s)" "off \<notin> set fs"
    using Suc.prems by (auto simp: slots_Suc)
  have fresh: "off \<notin> set (slots ?off' sz k)"
    using slots_distinct[of off sz "Suc k"] by (simp add: slots_Suc)
  obtain h1 fl1 where add: "dlink_add (off + sizeof_MemBlock) off (b_nodes s) (blk_free_list blk) = Some (h1, fl1)"
      "dlist h1 fl1 (off # fs)" "map_option nd_data (h1 off) = Some (off + sizeof_MemBlock)"
      "dframe (insert off (set fs)) {off} (b_nodes s) h1"
    using dlink_add_spec[OF Suc.prems(3,4) off(2,3)] by blast
  let ?ow1 = "(b_owner s)(off \<mapsto> b)"
  let ?s1 = "s\<lparr>b_owner := ?ow1, b_nodes := h1, b_blocks := (b_blocks s)(b \<mapsto> blk\<lparr>blk_free_list := fl1\<rparr>)\<rparr>"
  have step: "carve (Suc k) b off sz s = carve k b ?off' sz ?s1"
    using Suc.prems(1,2,4) off(1) add(1)
    by (auto simp: mem_simps upd_block_def stride_def add.assoc)
  have dom1: "dom h1 = dom (b_nodes s)" using add(4) by (rule dframe_dom)
  have "\<exists>h ow fl. carve k b ?off' sz ?s1 = Some (?s1\<lparr>b_nodes := h, b_owner := ow,
        b_blocks := (b_blocks ?s1)(b \<mapsto> (blk\<lparr>blk_free_list := fl1\<rparr>)\<lparr>blk_free_list := fl\<rparr>)\<rparr>) \<and>
      dlist h fl (rev (slots ?off' sz k) @ off # fs) \<and>
      (\<forall>m \<in> set (slots ?off' sz k). ow m = Some b \<and> map_option nd_data (h m) = Some (m + sizeof_MemBlock)) \<and>
      (\<forall>p. p \<notin> set (slots ?off' sz k) \<longrightarrow> ow p = b_owner ?s1 p) \<and>
      dframe (set (slots ?off' sz k) \<union> set (off # fs)) (set (slots ?off' sz k)) (b_nodes ?s1) h"
    by (rule Suc.IH) (use Suc.prems add(2) dom1 fresh in \<open>auto simp: slots_Suc\<close>)
  then obtain h ow fl where IH: "carve k b ?off' sz ?s1 = Some (?s1\<lparr>b_nodes := h, b_owner := ow,
        b_blocks := (b_blocks ?s1)(b \<mapsto> (blk\<lparr>blk_free_list := fl1\<rparr>)\<lparr>blk_free_list := fl\<rparr>)\<rparr>)"
      "dlist h fl (rev (slots ?off' sz k) @ off # fs)"
      "\<forall>m \<in> set (slots ?off' sz k). ow m = Some b \<and> map_option nd_data (h m) = Some (m + sizeof_MemBlock)"
      "\<forall>p. p \<notin> set (slots ?off' sz k) \<longrightarrow> ow p = b_owner ?s1 p"
      "dframe (set (slots ?off' sz k) \<union> set (off # fs)) (set (slots ?off' sz k)) h1 h"
    by auto
  have data: "map_option nd_data (h off) = Some (off + sizeof_MemBlock)"
    using dframe_data[OF IH(5) fresh] add(3) by simp
  have fr: "dframe (set (slots off sz (Suc k)) \<union> set fs) (set (slots off sz (Suc k))) (b_nodes s) h"
    by (rule dframe_mono[OF dframe_trans[OF add(4) IH(5)]]) (auto simp: slots_Suc)
  have run: "carve (Suc k) b off sz s = Some (s\<lparr>b_nodes := h, b_owner := ow,
        b_blocks := (b_blocks s)(b \<mapsto> blk\<lparr>blk_free_list := fl\<rparr>)\<rparr>)"
    unfolding step IH(1) by simp
  show ?case
    unfolding run using IH(2-4) data fr fresh
    by (intro exI[of _ h] exI[of _ ow] exI[of _ fl] conjI refl) (auto simp: slots_Suc)
qed

lemma mem_map_fields [simp]:
  "b_blocks (mem_map a k s) = b_blocks s" "b_heaps (mem_map a k s) = b_heaps s"
  "b_heap_lists (mem_map a k s) = b_heap_lists s" "b_dying (mem_map a k s) = b_dying s"
  by (simp_all add: mem_map_def)

lemma mem_map_cells [mem_simps]:
  "in_range a k p \<Longrightarrow> b_nodes (mem_map a k s) p = Some zero_node"
  "in_range a k p \<Longrightarrow> b_owner (mem_map a k s) p = Some NULL"
  "\<not> in_range a k p \<Longrightarrow> b_nodes (mem_map a k s) p = b_nodes s p"
  "\<not> in_range a k p \<Longrightarrow> b_owner (mem_map a k s) p = b_owner s p"
  by (simp_all add: mem_map_def)

lemma slot_in_block: "m \<in> set (slots e sz n) \<Longrightarrow> in_range e (Suc n * stride sz) m"
  using slot_bounds[of m e sz n] stride_pos[of sz] by (auto simp: in_range_def)

text \<open>
  What the code relies on from \<open>calloc\<close> and \<open>mmap\<close>: the block header and the
  mapping are new memory, apart from every block of the heap, and the size of the
  mapping did not wrap around.
\<close>

definition fresh_block :: "ptr \<Rightarrow> ptr \<Rightarrow> nat \<Rightarrow> nat \<Rightarrow> binfo list \<Rightarrow> bool" where
  "fresh_block cb me sz n xs \<longleftrightarrow>
     cb \<noteq> NULL \<and> me \<noteq> NULL \<and> Suc n * stride sz < 2 ^ 64 \<and> Suc (length xs) * n < 2 ^ 64 \<and>
     (\<forall>x \<in> set xs. apart sz n (cb, me, [], []) x)"

lemma alloc_size_unat:
  assumes "Suc (unat n) * stride (unat z) < 2 ^ 64"
  shows "unat ((n + 1) * (z + of_nat sizeof_MemBlock) :: u64) = Suc (unat n) * stride (unat z)"
proof -
  have pos: "1 \<le> stride (unat z)" using stride_pos[of "unat z"] by simp
  have "1 * stride (unat z) < 2 ^ 64"
    by (rule le_less_trans[OF mult_le_mono1 assms]) simp
  moreover have "Suc (unat n) * 1 < 2 ^ 64"
    by (rule le_less_trans[OF mult_le_mono2[OF pos] assms])
  ultimately have "stride (unat z) < 2 ^ 64" "Suc (unat n) < 2 ^ 64" by simp_all
  then have "unat (n + 1) = Suc (unat n)" "unat (z + of_nat sizeof_MemBlock) = stride (unat z)"
    by (simp_all add: unat_word_ariths stride_def sizeof_MemBlock_def)
  then show ?thesis using assms by (simp add: unat_word_ariths)
qed

lemma blockheap_block_new_ok:
  assumes inv: "heap_inv s bhp sz n xs" and fresh: "fresh_block cb me sz n xs"
  shows "\<exists>s'. blockheap_block_new cb me bhp s = Some (0, s') \<and>
    heap_inv s' bhp sz n ((cb, me, rev (slots me sz n), []) # xs) \<and>
    bframe (block_area sz n me) {cb} {bhp} s s' \<and>
    dom (b_nodes s') = dom (b_nodes s) \<union> block_area sz n me"
proof -
  obtain bh where bh: "bhp \<noteq> NULL" "b_heaps s bhp = Some bh" "unat (bh_elemSize bh) = sz"
      "unat (bh_elemsPerBlock bh) = n" "bh_base bh = hdd NULL (map fst xs)"
      "bh_blocksAllocated bh = of_nat (length xs)" "bh_freeElems bh = of_nat (total_free xs)"
    and c: "chain s sz n xs NULL" and sw: "sorted_wrt (apart sz n) xs"
    and n: "0 < n" "length xs * n < 2 ^ 64"
    using inv by (auto simp: heap_inv_def)
  have fr: "cb \<noteq> NULL" "me \<noteq> NULL" "Suc n * stride sz < 2 ^ 64" "Suc (length xs) * n < 2 ^ 64"
      "\<And>x. x \<in> set xs \<Longrightarrow> apart sz n (cb, me, [], []) x"
    using fresh by (auto simp: fresh_block_def)
  let ?asz = "(bh_elemsPerBlock bh + 1) * (bh_elemSize bh + of_nat sizeof_MemBlock)"
  have asz: "unat ?asz = Suc n * stride sz" using alloc_size_unat fr(3) bh(3,4) by simp
  let ?blk = "\<lparr>blk_alloc_size = ?asz, blk_next = bh_base bh, blk_elems = me,
           blk_free_list = empty_list, blk_used_list = empty_list\<rparr>"
  let ?s1 = "mem_map me (unat ?asz) (s\<lparr>b_blocks := (b_blocks s)(cb \<mapsto> ?blk)\<rparr>)"
  have "\<exists>h ow fl. carve n cb me sz ?s1 = Some (?s1\<lparr>b_nodes := h, b_owner := ow,
        b_blocks := (b_blocks ?s1)(cb \<mapsto> ?blk\<lparr>blk_free_list := fl\<rparr>)\<rparr>) \<and>
      dlist h fl (rev (slots me sz n) @ []) \<and>
      (\<forall>m \<in> set (slots me sz n). ow m = Some cb \<and> map_option nd_data (h m) = Some (m + sizeof_MemBlock)) \<and>
      (\<forall>p. p \<notin> set (slots me sz n) \<longrightarrow> ow p = b_owner ?s1 p) \<and>
      dframe (set (slots me sz n) \<union> set []) (set (slots me sz n)) (b_nodes ?s1) h"
    by (rule carve_ok) (use fr slot_in_block in \<open>auto simp: asz mem_simps\<close>)
  then obtain h ow fl where cv: "carve n cb me sz ?s1 = Some (?s1\<lparr>b_nodes := h, b_owner := ow,
        b_blocks := (b_blocks ?s1)(cb \<mapsto> ?blk\<lparr>blk_free_list := fl\<rparr>)\<rparr>)"
      "dlist h fl (rev (slots me sz n))"
      "\<forall>m \<in> set (slots me sz n). ow m = Some cb \<and> map_option nd_data (h m) = Some (m + sizeof_MemBlock)"
      "\<forall>p. p \<notin> set (slots me sz n) \<longrightarrow> ow p = b_owner ?s1 p"
      "dframe (set (slots me sz n)) (set (slots me sz n)) (b_nodes ?s1) h"
    by auto
  let ?bh = "bh\<lparr>bh_blocksAllocated := bh_blocksAllocated bh + 1,
              bh_freeElems := bh_freeElems bh + bh_elemsPerBlock bh, bh_base := cb\<rparr>"
  let ?s2 = "?s1\<lparr>b_nodes := h, b_owner := ow,
        b_blocks := (b_blocks ?s1)(cb \<mapsto> ?blk\<lparr>blk_free_list := fl\<rparr>),
        b_heaps := (b_heaps s)(bhp \<mapsto> ?bh)\<rparr>"
  have run: "blockheap_block_new cb me bhp s = Some (0, ?s2)"
    using bh fr(1,2) cv(1) by (simp add: blockheap_block_new_def Let_def mem_simps upd_heap_def)
  have same: "same_blk sz n s ?s2 x" if x: "x \<in> set xs" for x
  proof -
    obtain b1 e1 f1 u1 where xe: "x = (b1, e1, f1, u1)" by (cases x)
    have ap: "apart sz n x (cb, me, [], [])" using fr(5)[OF x] by (rule apart_sym)
    have "p \<notin> set (slots me sz n) \<and> \<not> in_range me (Suc n * stride sz) p"
      if "p \<in> set (slots e1 sz n)" for p
      using apart_slots[OF ap[unfolded xe] that] slot_in_block by blast
    with cv(4,5) ap xe show ?thesis
      by (auto simp: same_blk_def dframe_def apart_def asz mem_simps)
  qed
  have "blk_ok ?s2 sz n cb me (rev (slots me sz n)) [] (hdd NULL (map fst xs))"
    using fr(1,2) cv(2,3) asz bh(5) slots_distinct by (auto simp: blk_ok_def)
  moreover have "chain ?s2 sz n xs NULL" using c same by (blast intro: chain_cong)
  moreover have "of_nat n = bh_elemsPerBlock bh" using bh(4) by auto
  ultimately have "heap_inv ?s2 bhp sz n ((cb, me, rev (slots me sz n), []) # xs)"
    using bh n fr sw by (auto simp: heap_inv_def apart_def algebra_simps)
  moreover have "h p = b_nodes s p \<and> ow p = b_owner s p \<and> b_bytes ?s1 p = b_bytes s p"
    if p: "p \<notin> block_area sz n me" for p
  proof -
    have r: "p \<notin> set (slots me sz n)" "\<not> in_range me (Suc n * stride sz) p"
      using p slot_in_block[of p me sz n] by (auto simp: block_area_def)
    then have "h p = b_nodes ?s1 p" "ow p = b_owner ?s1 p" using cv(4,5) by (simp_all add: dframe_def)
    with r show ?thesis by (simp only: asz) (simp add: mem_map_def)
  qed
  then have "bframe (block_area sz n me) {cb} {bhp} s ?s2" by (simp add: bframe_def mem_map_def)
  moreover have "dom (b_nodes ?s2) = dom (b_nodes s) \<union> block_area sz n me"
    using dframe_dom[OF cv(5)] asz by (auto simp: mem_map_def block_area_def)
  ultimately show ?thesis using run by blast
qed

subsection \<open>Garbage collection\<close>

text \<open>The blocks a collection keeps: those with a used element.\<close>

definition gc_keep :: "binfo list \<Rightarrow> binfo list" where
  "gc_keep xs = filter (\<lambda>(b, e, fs, us). us \<noteq> []) xs"

lemma gc_keep_simps [simp]:
  "gc_keep [] = []"
  "gc_keep ((b, e, fs, us) # xs) = (if us = [] then gc_keep xs else (b, e, fs, us) # gc_keep xs)"
  by (simp_all add: gc_keep_def)

lemma used_elems_simps [simp]:
  "used_elems [] = {}"
  "used_elems ((b, e, fs, us) # xs) = (\<lambda>m. m + sizeof_MemBlock) ` set us \<union> used_elems xs"
  "used_elems (xs @ ys) = used_elems xs \<union> used_elems ys"
  by (auto simp: used_elems_def)

lemma gc_keep_used: "used_elems (gc_keep xs) = used_elems xs" "total_used (gc_keep xs) = total_used xs"
  by (induction xs) (auto split: if_splits)

lemma gc_loop_NULL [simp]: "gc_loop bhp prv NULL s = Some s"
  by (subst gc_loop.simps) simp

text \<open>Unlinking a block whose elements are all free.\<close>

lemma blk_ok_relink:
  fixes s s' :: "'a bstate_scheme"
  assumes ok: "blk_ok s sz n b e fs us q" and blk: "b_blocks s b = Some blk"
    and blk': "b_blocks s' b = Some (blk\<lparr>blk_next := q'\<rparr>)"
    and same: "\<And>m. m \<in> set (slots e sz n) \<Longrightarrow> b_nodes s' m = b_nodes s m \<and> b_owner s' m = b_owner s m"
  shows "blk_ok s' sz n b e fs us q'"
proof -
  let ?s1 = "s\<lparr>b_blocks := (b_blocks s)(b \<mapsto> blk\<lparr>blk_next := q'\<rparr>)\<rparr>"
  have "blk_ok ?s1 sz n b e fs us q'" using ok blk by (auto simp: blk_ok_def)
  then show ?thesis by (rule blk_ok_cong) (use blk' same in auto)
qed

definition unlink_block :: "ptr \<Rightarrow> ptr \<Rightarrow> ptr \<Rightarrow> Block \<Rightarrow> 'a bstate_scheme \<Rightarrow> 'a bstate_scheme option" where
  "unlink_block bhp prv w blk s = do {
     let s = blockheap_block_free (blk_elems blk) (unat (blk_alloc_size blk)) s;
     s \<leftarrow> (if prv \<noteq> NULL then upd_block prv (\<lambda>x. x\<lparr>blk_next := blk_next blk\<rparr>) s
           else upd_heap bhp (\<lambda>x. x\<lparr>bh_base := blk_next blk\<rparr>) s);
     Some (s\<lparr>b_blocks := (b_blocks s)(w := None)\<rparr>) }"

lemma unmapped_same:
  assumes "apart sz n (b1, e1, f1, u1) (b, e, fs, us)" "m \<in> set (slots e1 sz n)"
  shows "unmap e (Suc n * stride sz) h m = h m"
  using apart_disjoint(2)[OF assms] by (auto simp: unmap_def in_range_def)

lemma unlink_block_ok:
  assumes c: "chain s sz n (ds @ (b, e, fs, []) # ts) NULL"
    and sw: "sorted_wrt (apart sz n) (ds @ (b, e, fs, []) # ts)"
    and bh: "bhp \<noteq> NULL" "b_heaps s bhp = Some bh" "bh_base bh = hdd NULL (map fst (ds @ (b, e, fs, []) # ts))"
    and blk: "b_blocks s b = Some blk"
  shows "\<exists>s'. unlink_block bhp (lastd NULL (map fst ds)) b blk s = Some s' \<and>
    chain s' sz n (ds @ ts) NULL \<and>
    bframe (block_area sz n e) (insert b (fst ` set ds)) {bhp} s s' \<and>
    (if ds \<noteq> [] then map_option blk_next (deref (b_blocks s') (lastd NULL (map fst ds))) = Some (blk_next blk)
     else map_option bh_base (deref (b_heaps s') bhp) = Some (blk_next blk)) \<and>
    b_heaps s' = (b_heaps s)(bhp \<mapsto> bh\<lparr>bh_base := hdd NULL (map fst (ds @ ts))\<rparr>)"
proof -
  have ok: "blk_ok s sz n b e fs [] (hdd NULL (map fst ts))" using c by (simp add: seq_simps)
  then have blkf: "blk_elems blk = e" "unat (blk_alloc_size blk) = Suc n * stride sz"
      "blk_next blk = hdd NULL (map fst ts)"
    using blk by (auto simp: blk_ok_def)
  let ?f = "blockheap_block_free e (Suc n * stride sz) s"
  have ap: "apart sz n (b1, e1, f1, u1) (b, e, fs, [])"
    if "(b1, e1, f1, u1) \<in> set ds \<union> set ts" for b1 e1 f1 u1
    using that sw by (auto simp: sorted_wrt_append intro: apart_sym)
  have neb: "fst x \<noteq> b" if "x \<in> set ds \<union> set ts" for x
    using that sw by (auto simp: sorted_wrt_append apart_def)
  have cells: "same_blk sz n s s' x"
    if "x \<in> set ds \<union> set ts" "b_blocks s' (fst x) = b_blocks s (fst x)"
      "b_nodes s' = b_nodes ?f" "b_owner s' = b_owner ?f" for x and s' :: "'a bstate_scheme"
  proof -
    obtain b1 e1 f1 u1 where x: "x = (b1, e1, f1, u1)" by (cases x)
    then have apx: "apart sz n (b1, e1, f1, u1) (b, e, fs, [])" using ap that(1) by simp
    then show ?thesis using that(2-4) x unmapped_same[OF apx, of _ "b_nodes s"] unmapped_same[OF apx, of _ "b_owner s"]
      by (simp add: same_blk_def blockheap_block_free_def)
  qed
  show ?thesis
  proof (cases ds rule: rev_cases)
    case Nil
    let ?s' = "?f\<lparr>b_heaps := (b_heaps s)(bhp \<mapsto> bh\<lparr>bh_base := blk_next blk\<rparr>),
                  b_blocks := (b_blocks s)(b := None)\<rparr>"
    have run: "unlink_block bhp (lastd NULL (map fst ds)) b blk s = Some ?s'"
      using bh blkf Nil by (simp add: unlink_block_def upd_heap_def mem_simps blockheap_block_free_def)
    have "chain s sz n ts NULL" using c Nil by simp
    moreover have "\<forall>x \<in> set ts. same_blk sz n s ?s' x"
      using neb by (intro ballI cells) auto
    ultimately have "chain ?s' sz n ts NULL" by (rule chain_cong)
    moreover have "bframe (block_area sz n e) (insert b (fst ` set ds)) {bhp} s ?s'"
      by (auto simp: bframe_def block_area_def in_range_def blockheap_block_free_def unmap_def)
    ultimately show ?thesis using run bh blkf Nil by (simp add: mem_simps blockheap_block_free_def)
  next
    case (snoc as y)
    obtain b1 e1 f1 u1 where y: "y = (b1, e1, f1, u1)" by (cases y)
    have okY: "blk_ok s sz n b1 e1 f1 u1 b" using c by (simp add: seq_simps snoc y)
    then obtain blk1 where blk1: "b1 \<noteq> NULL" "b_blocks s b1 = Some blk1" by (auto simp: blk_ok_def)
    have apY: "apart sz n (b1, e1, f1, u1) (b, e, fs, [])" using ap snoc y by simp
    let ?s' = "?f\<lparr>b_blocks := (b_blocks s)(b1 \<mapsto> blk1\<lparr>blk_next := blk_next blk\<rparr>, b := None)\<rparr>"
    have run: "unlink_block bhp (lastd NULL (map fst ds)) b blk s = Some ?s'"
      using blk1 blkf snoc y
      by (simp add: unlink_block_def upd_block_def mem_simps blockheap_block_free_def)
    have same: "same_blk sz n s ?s' x" if x: "x \<in> set as \<union> set ts" for x
    proof (rule cells)
      have "fst x \<noteq> b1" using x sw snoc y by (auto simp: sorted_wrt_append apart_def)
      moreover have "fst x \<noteq> b" using neb[of x] x snoc by auto
      ultimately show "b_blocks ?s' (fst x) = b_blocks s (fst x)" by simp
    qed (use x snoc in auto)
    have before: "chain s sz n as b1" "chain s sz n ts NULL" using c by (simp_all add: seq_simps snoc y)
    have parts: "chain ?s' sz n as b1" by (rule chain_cong[OF before(1)]) (use same in blast)
    have parts': "chain ?s' sz n ts NULL" by (rule chain_cong[OF before(2)]) (use same in blast)
    have "blk_ok ?s' sz n b1 e1 f1 u1 (hdd NULL (map fst ts))"
      by (rule blk_ok_relink[OF okY blk1(2)])
        (use apY blkf unmapped_same[OF apY, of _ "b_nodes s"] unmapped_same[OF apY, of _ "b_owner s"] in \<open>auto simp: apart_def blockheap_block_free_def\<close>)
    with parts parts' have "chain ?s' sz n (ds @ ts) NULL" by (simp add: seq_simps snoc y)
    moreover have "bh\<lparr>bh_base := hdd NULL (map fst (ds @ ts))\<rparr> = bh"
      using bh(3) snoc by (cases as) auto
    moreover have "bframe (block_area sz n e) (insert b (fst ` set ds)) {bhp} s ?s'"
      using snoc y by (auto simp: bframe_def block_area_def in_range_def blockheap_block_free_def unmap_def)
    ultimately show ?thesis using run bh blk1 apY snoc y
      by (auto simp: mem_simps apart_def blockheap_block_free_def)
  qed
qed

lemma gc_loop_step:
  assumes "w \<noteq> NULL" "bhp \<noteq> NULL" "b_heaps s bhp = Some bh" "b_blocks s w = Some blk"
  shows "gc_loop bhp prv w s =
    (if ll_length (blk_free_list blk) = bh_elemsPerBlock bh then do {
       s \<leftarrow> unlink_block bhp prv w blk s;
       w \<leftarrow> (if prv \<noteq> NULL then map_option blk_next (deref (b_blocks s) prv)
             else map_option bh_base (deref (b_heaps s) bhp));
       s \<leftarrow> upd_heap bhp (\<lambda>x. x\<lparr>bh_blocksAllocated := bh_blocksAllocated x - 1,
              bh_freeElems := bh_freeElems x - bh_elemsPerBlock x\<rparr>) s;
       gc_loop bhp prv w s }
     else gc_loop bhp w (blk_next blk) s)"
  using assms by (subst gc_loop.simps) (simp add: mem_simps unlink_block_def Let_def)

lemma of_nat_u64_inj: "a < 2 ^ 64 \<Longrightarrow> b < 2 ^ 64 \<Longrightarrow> (of_nat a :: u64) = of_nat b \<longleftrightarrow> a = b"
  by (simp add: word_unat_eq_iff unat_of_nat take_bit_nat_eq_self)

text \<open>The mappings a collection releases: those of the blocks without a used element.\<close>

definition free_areas :: "nat \<Rightarrow> nat \<Rightarrow> binfo list \<Rightarrow> ptr set" where
  "free_areas sz n xs = (\<Union>x \<in> {x \<in> set xs. snd (snd (snd x)) = []}. block_area sz n (fst (snd x)))"

lemma free_areas_simps [simp]:
  "free_areas sz n [] = {}"
  "free_areas sz n ((b, e, fs, us) # xs) =
     (if us = [] then block_area sz n e \<union> free_areas sz n xs else free_areas sz n xs)"
  by (auto simp: free_areas_def)

lemma gc_loop_ok:
  "heap_inv s bhp sz n (ds @ ts) \<Longrightarrow>
   \<exists>s'. gc_loop bhp (lastd NULL (map fst ds)) (hdd NULL (map fst ts)) s = Some s' \<and>
     heap_inv s' bhp sz n (ds @ gc_keep ts) \<and>
     bframe (free_areas sz n ts) (fst ` set (ds @ ts)) {bhp} s s'"
proof (induction ts arbitrary: ds s)
  case (Cons t ts)
  obtain b e fs us where t: "t = (b, e, fs, us)" by (cases t)
  let ?xs = "ds @ t # ts"
  obtain bh where bh: "bhp \<noteq> NULL" "b_heaps s bhp = Some bh" "unat (bh_elemSize bh) = sz"
      "unat (bh_elemsPerBlock bh) = n" "bh_base bh = hdd NULL (map fst ?xs)"
      "bh_blocksAllocated bh = of_nat (length ?xs)" "bh_freeElems bh = of_nat (total_free ?xs)"
    and c: "chain s sz n ?xs NULL" and sw: "sorted_wrt (apart sz n) ?xs"
    and n: "0 < n" "length ?xs * n < 2 ^ 64"
    using Cons.prems by (auto simp: heap_inv_def)
  have ok: "blk_ok s sz n b e fs us (hdd NULL (map fst ts))" using c t by (simp add: seq_simps)
  then obtain blk where blk: "b \<noteq> NULL" "b_blocks s b = Some blk" "blk_next blk = hdd NULL (map fst ts)"
      "dlist (b_nodes s) (blk_free_list blk) fs"
    by (auto simp: blk_ok_def)
  have len: "length fs + length us = n" using ok by (rule blk_ok_length)
  have n64: "n < 2 ^ 64" using bh(4) unat_bound[of "bh_elemsPerBlock bh"] by simp
  have epb: "bh_elemsPerBlock bh = of_nat n" using bh(4) by auto
  have full: "ll_length (blk_free_list blk) = bh_elemsPerBlock bh \<longleftrightarrow> us = []"
  proof -
    have "length fs < 2 ^ 64" using len n64 by simp
    then have "ll_length (blk_free_list blk) = bh_elemsPerBlock bh \<longleftrightarrow> length fs = n"
      unfolding dlist_length[OF blk(4)] epb using n64 by (rule of_nat_u64_inj)
    also have "\<dots> \<longleftrightarrow> us = []" using len by auto
    finally show ?thesis .
  qed
  note step = gc_loop_step[OF blk(1) bh(1,2) blk(2)]
  show ?case
  proof (cases "us = []")
    case True
    note ct = c[unfolded t True] and swt = sw[unfolded t True] and bt = bh(5)[unfolded t True]
    obtain s1 where s1: "unlink_block bhp (lastd NULL (map fst ds)) b blk s = Some s1"
        "chain s1 sz n (ds @ ts) NULL"
        "bframe (block_area sz n e) (insert b (fst ` set ds)) {bhp} s s1"
        "if ds \<noteq> [] then map_option blk_next (deref (b_blocks s1) (lastd NULL (map fst ds))) = Some (blk_next blk)
         else map_option bh_base (deref (b_heaps s1) bhp) = Some (blk_next blk)"
        "b_heaps s1 = (b_heaps s)(bhp \<mapsto> bh\<lparr>bh_base := hdd NULL (map fst (ds @ ts))\<rparr>)"
      using unlink_block_ok[OF ct swt bh(1,2) bt blk(2)] by blast
    let ?bh = "bh\<lparr>bh_base := hdd NULL (map fst (ds @ ts)), bh_blocksAllocated := bh_blocksAllocated bh - 1,
                  bh_freeElems := bh_freeElems bh - bh_elemsPerBlock bh\<rparr>"
    let ?s2 = "s1\<lparr>b_heaps := (b_heaps s)(bhp \<mapsto> ?bh)\<rparr>"
    have last0: "lastd NULL (map fst ds) = NULL \<longleftrightarrow> ds = []"
      using c by (cases ds rule: rev_cases) (auto simp: seq_simps blk_ok_def)
    have run: "gc_loop bhp (lastd NULL (map fst ds)) b s =
        gc_loop bhp (lastd NULL (map fst ds)) (hdd NULL (map fst ts)) ?s2"
      using s1 bh(1) last0 True full blk(3)
      by (cases "ds = []") (auto simp: step upd_heap_def mem_simps)
    have "chain ?s2 sz n (ds @ ts) NULL"
      by (rule chain_cong[OF s1(2)]) (simp add: same_blk_def)
    then have "heap_inv ?s2 bhp sz n (ds @ ts)"
      using bh n swt len True t epb by (auto simp: heap_inv_def sorted_wrt_append)
    from Cons.IH[OF this] obtain s' where s': "gc_loop bhp (lastd NULL (map fst ds)) (hdd NULL (map fst ts)) ?s2 = Some s'"
        "heap_inv s' bhp sz n (ds @ gc_keep ts)" "bframe (free_areas sz n ts) (fst ` set (ds @ ts)) {bhp} ?s2 s'"
      by blast
    have "bframe (block_area sz n e) (insert b (fst ` set ds)) {bhp} s ?s2"
      using s1(3) by (auto simp: bframe_def)
    then have "bframe (free_areas sz n (t # ts)) (fst ` set (ds @ t # ts)) {bhp} s s'"
      by (rule bframe_trans[OF bframe_mono bframe_mono[OF s'(3)]]) (auto simp: t True)
    with s' run t True show ?thesis by auto
  next
    case False
    have run: "gc_loop bhp (lastd NULL (map fst ds)) b s = gc_loop bhp b (hdd NULL (map fst ts)) s"
      using False full blk(3) by (simp add: step)
    have "heap_inv s bhp sz n ((ds @ [t]) @ ts)" using Cons.prems by simp
    from Cons.IH[OF this] show ?thesis using run t False by auto
  qed
qed auto

lemma gc_keep_id: "total_free xs < n \<Longrightarrow> chain s sz n xs q \<Longrightarrow> gc_keep xs = xs"
proof (induction s sz n xs q rule: chain.induct)
  case (2 s sz n b e fs us xs q)
  then have "length fs + length us = n" using blk_ok_length by fastforce
  with 2 show ?case by auto
qed simp

lemma heap_inv_words:
  assumes "heap_inv s bhp sz n xs" "b_heaps s bhp = Some bh"
  shows "bh_freeElems bh = 0 \<longleftrightarrow> total_free xs = 0"
    "bh_freeElems bh < bh_elemsPerBlock bh \<longleftrightarrow> total_free xs < n"
    "bh_blocksAllocated bh = 1 \<longleftrightarrow> length xs = 1"
proof -
  have h: "bh_freeElems bh = of_nat (total_free xs)" "unat (bh_elemsPerBlock bh) = n"
      "bh_blocksAllocated bh = of_nat (length xs)" "chain s sz n xs NULL" "0 < n" "length xs * n < 2 ^ 64"
    using assms by (auto simp: heap_inv_def)
  have tf: "total_free xs < 2 ^ 64" using total_free_bound[OF h(4)] h(6) by simp
  have "1 \<le> n" using h(5) by simp
  from mult_le_mono2[OF this, of "length xs"] have lx: "length xs < 2 ^ 64"
    unfolding mult_1_right using h(6) by (rule le_less_trans)
  show "bh_freeElems bh = 0 \<longleftrightarrow> total_free xs = 0"
    using of_nat_u64_inj[OF tf, of 0] h(1) by simp
  show "bh_freeElems bh < bh_elemsPerBlock bh \<longleftrightarrow> total_free xs < n"
    using tf h(1,2) by (simp add: word_less_nat_alt unat_of_nat take_bit_nat_eq_self)
  show "bh_blocksAllocated bh = 1 \<longleftrightarrow> length xs = 1"
    using of_nat_u64_inj[OF lx, of 1] h(3) by simp
qed

lemma blockheap_garbagecollect_ok:
  assumes inv: "heap_inv s bhp sz n xs"
  shows "\<exists>s'. blockheap_garbagecollect bhp s = Some (0, s') \<and>
    heap_inv s' bhp sz n (if length xs = 1 then xs else gc_keep xs) \<and>
    bframe (free_areas sz n xs) (fst ` set xs) {bhp} s s'"
proof -
  obtain bh where bh: "bhp \<noteq> NULL" "b_heaps s bhp = Some bh" "bh_base bh = hdd NULL (map fst xs)"
    and c: "chain s sz n xs NULL"
    using inv by (auto simp: heap_inv_def)
  note w = heap_inv_words[OF inv bh(2)]
  have loop: "\<exists>s'. gc_loop bhp NULL (bh_base bh) s = Some s' \<and> heap_inv s' bhp sz n (gc_keep xs) \<and>
      bframe (free_areas sz n xs) (fst ` set xs) {bhp} s s'"
    using gc_loop_ok[of s bhp sz n "[]" xs] inv bh(3) by simp
  show ?thesis
    using bh w loop gc_keep_id[OF _ c] inv
    by (auto simp: blockheap_garbagecollect_def mem_simps)
qed

end
