(* ===== verification/Balloc_Pool.thy ===== *)
theory Balloc_Pool
  imports Balloc_Inv
begin

text \<open>
  Creation, destruction, usage figures and the periodic collection of the heaps of
  \<open>src/balloc.c\<close>, and the contract its clients use: the locale
  \<open>elem_pool\<close> speaks only of the set of elements handed out and of their contents,
  and is interpreted on \<open>blockheap_alloc\<close>, \<open>blockheap_free\<close> and
  \<open>blockheap_garbagecollect\<close>.
\<close>

subsection \<open>The contract of an element pool\<close>

lemma used_elems_iff:
  "p \<in> used_elems xs \<longleftrightarrow> (\<exists>b e fs us m. (b, e, fs, us) \<in> set xs \<and> m \<in> set us \<and> p = m + sizeof_MemBlock)"
  by (force simp: used_elems_def)

lemma chain_blk: "chain s sz n xs q \<Longrightarrow> (b, e, fs, us) \<in> set xs \<Longrightarrow> \<exists>nx. blk_ok s sz n b e fs us nx"
  by (induction s sz n xs q rule: chain.induct) auto

lemma free_elem_not_used:
  assumes inv: "heap_inv s bhp sz n (ys @ (b, e, fs, us) # zs)" and m: "m \<in> set fs"
  shows "m + sizeof_MemBlock \<notin> used_elems (ys @ (b, e, fs, us) # zs)"
proof
  assume "m + sizeof_MemBlock \<in> used_elems (ys @ (b, e, fs, us) # zs)"
  then obtain b1 e1 f1 u1 where x: "(b1, e1, f1, u1) \<in> set (ys @ (b, e, fs, us) # zs)" "m \<in> set u1"
    unfolding used_elems_iff by auto
  have c: "chain s sz n (ys @ (b, e, fs, us) # zs) NULL" and
    sw: "sorted_wrt (apart sz n) (ys @ (b, e, fs, us) # zs)"
    using inv by (auto simp: heap_inv_def)
  have ok: "\<exists>q. blk_ok s sz n b1 e1 f1 u1 q" "\<exists>q. blk_ok s sz n b e fs us q"
    using chain_blk[OF c] x(1) by auto
  have m1: "m \<in> set (slots e1 sz n)" "m \<in> set (slots e sz n)"
    using ok x(2) m by (auto simp: blk_ok_def)
  show False
  proof (cases "(b1, e1, f1, u1) = (b, e, fs, us)")
    case True
    with ok x(2) m show False by (auto simp: blk_ok_def)
  next
    case False
    then have "apart sz n (b1, e1, f1, u1) (b, e, fs, us)"
      using sw x(1) by (auto simp: sorted_wrt_append intro: apart_sym)
    with m1 show False by (meson apart_disjoint(1))
  qed
qed

text \<open>
  \<open>live_same sz U s s'\<close>: the contents of the elements \<open>U\<close> are the same in
  both states.  An operation that only changes headers, unmapped blocks and elements
  that are not in use keeps the contents of the elements in use.
\<close>

definition live_same :: "nat \<Rightarrow> ptr set \<Rightarrow> 'a bstate_scheme \<Rightarrow> 'b bstate_scheme \<Rightarrow> bool" where
  "live_same sz U s s' \<longleftrightarrow> (\<forall>p \<in> U. \<forall>q \<in> elem_area sz p.
     b_nodes s' q = b_nodes s q \<and> b_owner s' q = b_owner s q \<and> b_bytes s' q = b_bytes s q)"

definition pool_area :: "nat \<Rightarrow> nat \<Rightarrow> binfo list \<Rightarrow> ptr set" where
  "pool_area sz n xs = (\<Union>x \<in> set xs. block_area sz n (fst (snd x)))"

lemma pool_area_simps [simp]:
  "pool_area sz n [] = {}"
  "pool_area sz n ((b, e, fs, us) # xs) = block_area sz n e \<union> pool_area sz n xs"
  "pool_area sz n (xs @ ys) = pool_area sz n xs \<union> pool_area sz n ys"
  by (auto simp: pool_area_def)

lemma live_same_trans: "live_same sz U s s' \<Longrightarrow> live_same sz U s' s'' \<Longrightarrow> live_same sz U s s''"
  by (simp add: live_same_def)

lemma live_same_refl [simp]: "live_same sz U s s"
  by (simp add: live_same_def)

lemma bframe_live: "bframe C B H s s' \<Longrightarrow> (\<And>p. p \<in> U \<Longrightarrow> elem_area sz p \<inter> C = {}) \<Longrightarrow> live_same sz U s s'"
  unfolding bframe_def live_same_def by blast

lemma used_in_block:
  assumes "chain s sz n xs q" "p \<in> used_elems xs"
  obtains b e fs us m where "(b, e, fs, us) \<in> set xs" "m \<in> set (slots e sz n)" "p = m + sizeof_MemBlock" "m \<in> set us"
proof -
  obtain b e fs us m where x: "(b, e, fs, us) \<in> set xs" "m \<in> set us" "p = m + sizeof_MemBlock"
    using assms(2) unfolding used_elems_iff by blast
  with chain_blk[OF assms(1) x(1)] have "m \<in> set (slots e sz n)" by (auto simp: blk_ok_def)
  with x that show thesis by blast
qed

lemma elem_in_block_area: "m \<in> set (slots e sz n) \<Longrightarrow> elem_area sz (m + sizeof_MemBlock) \<subseteq> block_area sz n e"
  using elem_in_block by (auto simp: elem_area_def block_area_def)

lemma slots_in_block_area: "set (slots e sz n) \<subseteq> block_area sz n e"
  using slot_in_block by (auto simp: block_area_def)

lemma apart_areas:
  "apart sz n (b, e, fs, us) (b', e', fs', us') \<Longrightarrow> block_area sz n e \<inter> block_area sz n e' = {}"
  by (auto simp: apart_def block_area_def in_range_def)

lemma same_block_elems:
  assumes "m \<in> set (slots e sz n)" "m' \<in> set (slots e sz n)" "m \<noteq> m'"
  shows "elem_area sz (m + sizeof_MemBlock) \<inter> elem_area sz (m' + sizeof_MemBlock) = {}"
proof -
  obtain i j where ij: "m = e + i * stride sz" "m' = e + j * stride sz"
    using assms(1,2) by (auto simp: slots_def)
  with assms(3) have "i \<noteq> j" by auto
  then have "Suc i \<le> j \<or> Suc j \<le> i" by auto
  then have "Suc i * stride sz \<le> j * stride sz \<or> Suc j * stride sz \<le> i * stride sz"
    using mult_le_mono1 by blast
  then show ?thesis using ij by (auto simp: elem_area_def in_range_def stride_def)
qed

lemma used_area_disjoint:
  assumes inv: "heap_inv s bhp sz n xs" and p: "p \<in> used_elems xs"
    and x: "(b, e, fs, us) \<in> set xs" and m: "m \<in> set (slots e sz n)" "p \<noteq> m + sizeof_MemBlock"
  shows "elem_area sz p \<inter> (set (slots e sz n) \<union> elem_area sz (m + sizeof_MemBlock)) = {}"
proof -
  have c: "chain s sz n xs NULL" and sw: "sorted_wrt (apart sz n) xs" using inv by (auto simp: heap_inv_def)
  obtain b1 e1 f1 u1 m1 where y: "(b1, e1, f1, u1) \<in> set xs" "m1 \<in> set (slots e1 sz n)"
      "p = m1 + sizeof_MemBlock" "m1 \<in> set u1"
    by (rule used_in_block[OF c p])
  show ?thesis
  proof (cases "(b1, e1, f1, u1) = (b, e, fs, us)")
    case True
    then have e: "e1 = e" by simp
    have "elem_area sz p \<inter> set (slots e sz n) = {}"
      using slot_not_in_element[OF y(2)[unfolded e]] y(3) by (auto simp: elem_area_def)
    moreover have "elem_area sz p \<inter> elem_area sz (m + sizeof_MemBlock) = {}"
      using same_block_elems[OF y(2)[unfolded e] m(1)] y(3) m(2) by auto
    ultimately show ?thesis by blast
  next
    case False
    then have "apart sz n (b1, e1, f1, u1) (b, e, fs, us)"
      using sw x y(1) by (induction xs) (auto intro: apart_sym)
    from apart_areas[OF this] elem_in_block_area[OF y(2)] elem_in_block_area[OF m(1)]
      slots_in_block_area[of e sz n] y(3)
    show ?thesis by blast
  qed
qed

lemma used_area_apart:
  assumes "chain s sz n xs q" "p \<in> used_elems xs" "\<forall>x \<in> set xs. apart sz n (b, e, fs, us) x"
  shows "elem_area sz p \<inter> block_area sz n e = {}"
proof -
  obtain b1 e1 f1 u1 m1 where y: "(b1, e1, f1, u1) \<in> set xs" "m1 \<in> set (slots e1 sz n)" "p = m1 + sizeof_MemBlock"
      "m1 \<in> set u1"
    by (rule used_in_block[OF assms(1,2)])
  have "apart sz n (b, e, fs, us) (b1, e1, f1, u1)" using assms(3) y(1) by blast
  from apart_areas[OF this] elem_in_block_area[OF y(2)] y(3) show ?thesis by blast
qed

lemma used_area_free_areas:
  assumes inv: "heap_inv s bhp sz n xs" and p: "p \<in> used_elems xs"
  shows "elem_area sz p \<inter> free_areas sz n xs = {}"
proof -
  have c: "chain s sz n xs NULL" and sw: "sorted_wrt (apart sz n) xs" using inv by (auto simp: heap_inv_def)
  obtain b1 e1 f1 u1 m1 where y: "(b1, e1, f1, u1) \<in> set xs" "m1 \<in> set (slots e1 sz n)"
      "p = m1 + sizeof_MemBlock" "m1 \<in> set u1"
    by (rule used_in_block[OF c p])
  have "elem_area sz p \<inter> block_area sz n e = {}" if x: "(b, e, fs, []) \<in> set xs" for b e fs
  proof -
    have "(b1, e1, f1, u1) \<noteq> (b, e, fs, [])" using y(4) by auto
    then have "apart sz n (b1, e1, f1, u1) (b, e, fs, [])"
      using sw x y(1) by (induction xs) (auto intro: apart_sym)
    from apart_areas[OF this] elem_in_block_area[OF y(2)] y(3) show ?thesis by blast
  qed
  then have "elem_area sz p \<inter> block_area sz n (fst (snd x)) = {}"
    if "x \<in> set xs" "snd (snd (snd x)) = []" for x
    using that by (metis prod.collapse)
  then show ?thesis unfolding free_areas_def by blast
qed

lemma blockheap_gc_live:
  assumes inv: "heap_inv s bhp sz n xs"
  shows "\<exists>s' xs'. blockheap_garbagecollect bhp s = Some (0, s') \<and> heap_inv s' bhp sz n xs' \<and>
    used_elems xs' = used_elems xs \<and> total_used xs' = total_used xs \<and>
    live_same sz (used_elems xs) s s' \<and> bframe (pool_area sz n xs) (fst ` set xs) {bhp} s s'"
proof -
  obtain s' where s': "blockheap_garbagecollect bhp s = Some (0, s')"
      "heap_inv s' bhp sz n (if length xs = 1 then xs else gc_keep xs)"
      "bframe (free_areas sz n xs) (fst ` set xs) {bhp} s s'"
    using blockheap_garbagecollect_ok[OF inv] by blast
  have "live_same sz (used_elems xs) s s'" by (rule bframe_live[OF s'(3) used_area_free_areas[OF inv]])
  moreover have "bframe (pool_area sz n xs) (fst ` set xs) {bhp} s s'"
    by (rule bframe_mono[OF s'(3)]) (auto simp: free_areas_def pool_area_def)
  ultimately show ?thesis using s'(1,2) gc_keep_used[of xs] by (cases "length xs = 1") auto
qed

lemma blockheap_alloc_ok:
  assumes inv: "heap_inv s bhp sz n xs" and fresh: "total_free xs = 0 \<longrightarrow> fresh_block cb me sz n xs"
  shows "\<exists>p s' xs'. blockheap_alloc cb me bhp s = Some (p, s') \<and> heap_inv s' bhp sz n xs' \<and>
    p \<noteq> NULL \<and> p \<notin> used_elems xs \<and> used_elems xs' = insert p (used_elems xs) \<and>
    total_used xs' = Suc (total_used xs) \<and>
    (\<forall>q. in_range p sz q \<longrightarrow> b_bytes s' q = 0) \<and> live_same sz (used_elems xs) s s' \<and>
    bframe (pool_area sz n xs \<union> (if total_free xs = 0 then block_area sz n me else {}))
      (fst ` set xs \<union> (if total_free xs = 0 then {cb} else {})) {bhp} s s' \<and>
    dom (b_nodes s') = dom (b_nodes s) \<union> (if total_free xs = 0 then block_area sz n me else {}) \<and>
    pool_area sz n xs' = pool_area sz n xs \<union> (if total_free xs = 0 then block_area sz n me else {}) \<and>
    fst ` set xs' = fst ` set xs \<union> (if total_free xs = 0 then {cb} else {})"
    (is "\<exists>p s' xs'. _ p s' \<and> _ s' xs' \<and> _ p \<and> _ p \<and> _ p xs' \<and> _ xs' \<and> _ p s' \<and> _ s' \<and> bframe ?C ?B _ s s' \<and>
      _ s' = _ \<union> ?N \<and> _ \<and> _")
proof -
  obtain bh where bh: "bhp \<noteq> NULL" "b_heaps s bhp = Some bh" "0 < n" using inv by (auto simp: heap_inv_def)
  have c: "chain s sz n xs NULL" using inv by (simp add: heap_inv_def)
  note w = heap_inv_words(1)[OF inv bh(2)]
  have "\<exists>s1 xs1. blockheap_alloc cb me bhp s = blockheap_take bhp s1 \<and> heap_inv s1 bhp sz n xs1 \<and>
      total_free xs1 \<noteq> 0 \<and> used_elems xs1 = used_elems xs \<and> total_used xs1 = total_used xs \<and>
      live_same sz (used_elems xs) s s1 \<and> bframe ?C ?B {bhp} s s1 \<and>
      pool_area sz n xs1 = ?C \<and> fst ` set xs1 = ?B \<and> dom (b_nodes s1) = dom (b_nodes s) \<union> ?N"
  proof (cases "total_free xs = 0")
    case True
    obtain s1 where s1: "blockheap_block_new cb me bhp s = Some (0, s1)"
        "heap_inv s1 bhp sz n ((cb, me, rev (slots me sz n), []) # xs)"
        "bframe (block_area sz n me) {cb} {bhp} s s1" "dom (b_nodes s1) = dom (b_nodes s) \<union> block_area sz n me"
      using blockheap_block_new_ok[OF inv mp[OF fresh True]] by blast
    have ap: "\<forall>x \<in> set xs. apart sz n (cb, me, [], []) x" using mp[OF fresh True] by (simp add: fresh_block_def)
    have "live_same sz (used_elems xs) s s1"
      by (rule bframe_live[OF s1(3) used_area_apart[OF c _ ap]])
    moreover have "bframe ?C ?B {bhp} s s1" by (rule bframe_mono[OF s1(3)]) (auto simp: True)
    moreover have "blockheap_alloc cb me bhp s = blockheap_take bhp s1"
      using bh w True s1(1) by (simp add: blockheap_alloc_def mem_simps)
    ultimately show ?thesis using s1(2,4) bh(3) True
      by (intro exI[of _ s1] exI[of _ "(cb, me, rev (slots me sz n), []) # xs"] conjI) auto
  next
    case False
    with bh w inv have "blockheap_alloc cb me bhp s = blockheap_take bhp s"
      by (simp add: blockheap_alloc_def mem_simps)
    with inv False show ?thesis by (intro exI[of _ s] exI[of _ xs] conjI) auto
  qed
  then obtain s1 xs1 where s1: "blockheap_alloc cb me bhp s = blockheap_take bhp s1" "heap_inv s1 bhp sz n xs1"
      "total_free xs1 \<noteq> 0" "used_elems xs1 = used_elems xs" "total_used xs1 = total_used xs"
      "live_same sz (used_elems xs) s s1" "bframe ?C ?B {bhp} s s1"
      "pool_area sz n xs1 = ?C" "fst ` set xs1 = ?B" "dom (b_nodes s1) = dom (b_nodes s) \<union> ?N"
    by (elim exE conjE) (rule that)
  obtain ys b e m fs us zs where sp: "xs1 = ys @ (b, e, m # fs, us) # zs" "total_free ys = 0"
    using find_free_split[OF s1(3)] by blast
  note inv1 = s1(2)[unfolded sp(1)]
  let ?p = "m + sizeof_MemBlock" and ?xs' = "ys @ (b, e, fs, m # us) # zs"
  have new: "?p \<notin> used_elems xs1"
    unfolding sp(1) by (rule free_elem_not_used[OF inv1]) simp
  obtain s' where s': "blockheap_take bhp s1 = Some (?p, s')" "heap_inv s' bhp sz n ?xs'"
      "\<forall>q. in_range ?p sz q \<longrightarrow> b_bytes s' q = 0"
      "bframe (set (slots e sz n) \<union> elem_area sz ?p) {b} {bhp} s1 s'" "dom (b_nodes s') = dom (b_nodes s1)"
    using blockheap_take_ok[OF inv1 sp(2)] by blast
  have "blk_ok s1 sz n b e (m # fs) us (hdd NULL (map fst zs))" using inv1 by (simp add: heap_inv_def seq_simps)
  then have m: "m \<in> set (slots e sz n)" by (auto simp: blk_ok_def)
  have xin: "(b, e, m # fs, us) \<in> set xs1" using sp(1) by simp
  have "live_same sz (used_elems xs1) s1 s'"
  proof (rule bframe_live[OF s'(4)])
    fix p assume p: "p \<in> used_elems xs1"
    then have "p \<noteq> ?p" using new by auto
    then show "elem_area sz p \<inter> (set (slots e sz n) \<union> elem_area sz ?p) = {}"
      by (rule used_area_disjoint[OF s1(2) p xin m])
  qed
  then have live: "live_same sz (used_elems xs) s s'" using s1(4,6) live_same_trans by metis
  have "bframe ?C ?B {bhp} s1 s'"
  proof (rule bframe_mono[OF s'(4)])
    have "block_area sz n e \<subseteq> pool_area sz n xs1" using sp(1) by auto
    then show "set (slots e sz n) \<union> elem_area sz ?p \<subseteq> ?C"
      using s1(8) slots_in_block_area[of e sz n] elem_in_block_area[OF m] by blast
    show "{b} \<subseteq> ?B" using s1(9) xin by force
  qed simp
  with s1(7) have fr: "bframe ?C ?B {bhp} s s'" by (rule bframe_trans)
  have sets: "used_elems ?xs' = insert ?p (used_elems xs)" "total_used ?xs' = Suc (total_used xs)"
    using s1(4,5) sp(1) by auto
  have areas: "pool_area sz n ?xs' = ?C" "fst ` set ?xs' = ?B" "dom (b_nodes s') = dom (b_nodes s) \<union> ?N"
    using s1(8-10) s'(5) sp(1) by auto
  show ?thesis
    by (intro exI[of _ ?p] exI[of _ s'] exI[of _ ?xs'] conjI)
      (use s1(1,4) s'(1,2,3) new sets live fr areas in \<open>simp_all add: sizeof_MemBlock_def\<close>)
qed

lemma blockheap_free_used:
  assumes inv: "heap_inv s bhp sz n xs" and p: "p \<in> used_elems xs"
  shows "\<exists>s' xs'. blockheap_free bhp p s = Some (0, s') \<and> heap_inv s' bhp sz n xs' \<and>
    used_elems xs' = used_elems xs - {p} \<and> Suc (total_used xs') = total_used xs \<and>
    live_same sz (used_elems xs - {p}) s s' \<and> bframe (pool_area sz n xs) (fst ` set xs) {bhp} s s' \<and>
    pool_area sz n xs' = pool_area sz n xs \<and> fst ` set xs' = fst ` set xs \<and>
    dom (b_nodes s') = dom (b_nodes s)"
proof -
  have c: "chain s sz n xs NULL" using inv by (simp add: heap_inv_def)
  obtain b e fs us m where x: "(b, e, fs, us) \<in> set xs" "m \<in> set (slots e sz n)" "p = m + sizeof_MemBlock" "m \<in> set us"
    by (rule used_in_block[OF c p])
  obtain ys zs where ys: "xs = ys @ (b, e, fs, us) # zs" using x(1) by (meson split_list)
  obtain us1 us2 where us: "us = us1 @ m # us2" using x(4) by (meson split_list)
  let ?xs' = "ys @ (b, e, m # fs, us1 @ us2) # zs"
  obtain s' where s': "blockheap_free bhp p s = Some (0, s')" "heap_inv s' bhp sz n ?xs'"
      "bframe (set (slots e sz n) \<union> elem_area sz p) {b} {bhp} s s'" "dom (b_nodes s') = dom (b_nodes s)"
    using blockheap_free_ok[OF inv[unfolded ys us]] unfolding x(3) by blast
  have "p \<notin> used_elems ?xs'" using free_elem_not_used[OF s'(2), of m] x(3) by simp
  moreover have "used_elems xs = insert p (used_elems ?xs')"
    by (simp add: ys us x(3) Un_left_commute Un_insert_left)
  ultimately have U: "used_elems ?xs' = used_elems xs - {p}" by simp
  have "live_same sz (used_elems xs - {p}) s s'"
    by (rule bframe_live[OF s'(3)]) (use used_area_disjoint[OF inv _ x(1,2)] x(3) in auto)
  moreover have "bframe (pool_area sz n xs) (fst ` set xs) {bhp} s s'"
  proof (rule bframe_mono[OF s'(3)])
    have "block_area sz n e \<subseteq> pool_area sz n xs" using ys by auto
    then show "set (slots e sz n) \<union> elem_area sz p \<subseteq> pool_area sz n xs"
      using slots_in_block_area[of e sz n] elem_in_block_area[OF x(2)] x(3) by blast
  qed (use x(1) in force)+
  moreover have "Suc (total_used ?xs') = total_used xs" "pool_area sz n ?xs' = pool_area sz n xs"
      "fst ` set ?xs' = fst ` set xs"
    by (simp_all add: ys us)
  ultimately show ?thesis using s'(1,2,4) U by blast
qed

text \<open>
  When no memory can be had and every element is in use, \<open>blockheap_alloc\<close> returns
  NULL and marks the program as dying.
\<close>

lemma blockheap_alloc_exhausted:
  assumes inv: "heap_inv s bhp sz n xs" and full: "total_free xs = 0" and oom: "cb = NULL \<or> me = NULL"
    and new: "cb \<notin> fst ` set xs"
  shows "\<exists>s'. blockheap_alloc cb me bhp s = Some (NULL, s') \<and> b_dying s' \<and> heap_inv s' bhp sz n xs"
proof -
  obtain bh where bh: "bhp \<noteq> NULL" "b_heaps s bhp = Some bh" "0 < n" using inv by (auto simp: heap_inv_def)
  obtain s1 where s1: "blockheap_block_new cb me bhp s = Some (1, s1)" "b_heaps s1 = b_heaps s"
      "heap_inv s1 bhp sz n xs"
  proof (cases "cb = NULL")
    case True
    with inv show thesis by (intro that[of s]) (auto simp: blockheap_block_new_def)
  next
    case False
    then obtain s1 where s1: "blockheap_block_new cb me bhp s = Some (1, s1)"
        "b_heaps s1 = b_heaps s" "b_nodes s1 = b_nodes s" "b_owner s1 = b_owner s"
        "\<forall>p. p \<noteq> cb \<longrightarrow> b_blocks s1 p = b_blocks s p"
      using oom bh by (auto simp: blockheap_block_new_def mem_simps)
    have "chain s1 sz n xs NULL"
    proof (rule chain_cong)
      show "chain s sz n xs NULL" using inv by (simp add: heap_inv_def)
      show "\<forall>x \<in> set xs. same_blk sz n s s1 x" using s1 new by (auto simp: same_blk_def)
    qed
    with inv s1 show thesis by (intro that[of s1]) (auto simp: heap_inv_def)
  qed
  note w = heap_inv_words[OF s1(3), unfolded s1(2), OF bh(2)]
  have ffb: "find_free_block (b_blocks s1) (bh_base bh) = Some NULL"
  proof -
    have "bh_base bh = hdd NULL (map fst xs)" "chain s1 sz n xs NULL" "n < 2 ^ 64"
      using s1 bh(2) unat_bound by (auto simp: heap_inv_def)
    with full find_free_block_chain[of s1 sz n xs] total_free_zero[of xs] show ?thesis by simp
  qed
  let ?s2 = "s1\<lparr>b_dying := True\<rparr>"
  have c2: "chain ?s2 sz n xs NULL"
    using s1(3) by (auto simp: heap_inv_def same_blk_def intro!: chain_cong[of s1])
  have "blockheap_alloc cb me bhp s = Some (NULL, blockheap_fail ?s2)"
    using bh s1 w full ffb
    by (simp add: blockheap_alloc_def blockheap_garbagecollect_def blockheap_take_def mem_simps)
  moreover have "heap_inv (blockheap_fail ?s2) bhp sz n xs"
    using s1(3) c2 by (simp add: heap_inv_def blockheap_fail_def)
  ultimately show ?thesis by (auto simp: blockheap_fail_def)
qed

subsection \<open>Creation and destruction\<close>

lemma unat_and_not_7: "unat (and w (not (8 - 1)) :: u64) = unat w div 8 * 8"
proof -
  have "and w (not (8 - 1)) = push_bit 3 (drop_bit 3 w)"
    by (rule bit_word_eqI) (auto simp: bit_simps, auto simp: numeral_eq_Suc bit_Suc bit_1_iff less_Suc_eq)
  then have "and w (not (8 - 1)) = drop_bit 3 w * 8" by (simp add: push_bit_eq_mult)
  moreover have "unat (drop_bit 3 w) = unat w div 8" by (simp add: drop_bit_eq_div unat_div)
  moreover have "unat w div 8 * 8 < 2 ^ 64"
    by (rule le_less_trans[of _ "unat w"]) (use unat_bound[of w] in auto)
  ultimately show ?thesis by (simp add: unat_word_ariths)
qed

text \<open>
  The element size is rounded up to a multiple of 8 that leaves room for the element.
\<close>

lemma pad_elemsize_bounds:
  assumes "unat z + 8 < 2 ^ 64"
  shows "unat (pad_elemsize z) mod 8 = 0" "unat z \<le> unat (pad_elemsize z)"
    "unat (pad_elemsize z) < unat z + 8"
proof -
  have m: "z mod 8 \<noteq> 0 \<longleftrightarrow> unat z mod 8 \<noteq> 0"
    by (simp add: word_unat_eq_iff unat_mod)
  have a: "unat (z + 8) = unat z + 8" using assms by (simp add: unat_word_ariths)
  have p: "unat (pad_elemsize z) = (if unat z mod 8 \<noteq> 0 then (unat z + 8) div 8 * 8 else unat z)"
  proof (cases "z mod 8 = 0")
    case True
    with m show ?thesis by (simp add: pad_elemsize_def)
  next
    case False
    with m unat_and_not_7[of "z + 8"] show ?thesis unfolding pad_elemsize_def a by simp
  qed
  have "(unat z + 8) div 8 * 8 + unat z mod 8 = unat z + 8" by presburger
  moreover have "unat z mod 8 < 8" by simp
  ultimately show "unat (pad_elemsize z) mod 8 = 0" "unat z \<le> unat (pad_elemsize z)"
    "unat (pad_elemsize z) < unat z + 8" unfolding p by (auto split: if_splits simp del: mod_less_divisor)
qed

text \<open>The heap as \<open>blockheap_create\<close> fills it in before the first block is made.\<close>

lemma heap_inv_new:
  assumes "hb \<noteq> NULL" "unat (bh_elemsPerBlock bh) \<noteq> 0" "bh_blocksAllocated bh = 0" "bh_freeElems bh = 0"
    "bh_base bh = NULL" "b_heaps s hb = Some bh"
  shows "heap_inv s hb (unat (bh_elemSize bh)) (unat (bh_elemsPerBlock bh)) []"
  using assms by (simp add: heap_inv_def)

lemma heap_inv_cong:
  assumes inv: "heap_inv s bhp sz n xs" and same: "\<forall>x \<in> set xs. same_blk sz n s s' x"
    and bh: "b_heaps s bhp = Some bh" "b_heaps s' bhp = Some (bh\<lparr>bh_name := nm\<rparr>)"
  shows "heap_inv s' bhp sz n xs"
proof -
  have "chain s' sz n xs NULL"
    by (rule chain_cong[OF _ same]) (use inv in \<open>simp add: heap_inv_def\<close>)
  with inv bh show ?thesis by (simp add: heap_inv_def)
qed

lemma heap_inv_frame:
  assumes inv: "heap_inv s bhp sz n xs" and fr: "bframe C B H s s'"
    and dis: "pool_area sz n xs \<inter> C = {}" "fst ` set xs \<inter> B = {}" "bhp \<notin> H"
  shows "heap_inv s' bhp sz n xs"
proof -
  obtain bh where bh: "b_heaps s bhp = Some bh" using inv by (auto simp: heap_inv_def)
  have "same_blk sz n s s' x" if x: "x \<in> set xs" for x
  proof -
    have "set (slots (fst (snd x)) sz n) \<inter> C = {}" "fst x \<notin> B"
      using x dis slots_in_block_area[of "fst (snd x)" sz n] by (auto simp: pool_area_def)
    with fr show ?thesis unfolding bframe_def same_blk_def by blast
  qed
  moreover have "b_heaps s' bhp = Some (bh\<lparr>bh_name := bh_name bh\<rparr>)" using fr dis(3) bh by (simp add: bframe_def)
  ultimately show ?thesis using heap_inv_cong[OF inv _ bh] by blast
qed

lemma blockheap_create_full:
  fixes s :: "'a bstate_scheme"
  assumes hb: "hb \<noteq> NULL" "hb \<notin> set hs" "hb \<notin> block_area sz n me"
    and sz: "elemsize \<noteq> 0" "unat (pad_elemsize elemsize) = sz"
    and n: "0 < epb" "epb < 2 ^ 31" "n = nat epb"
    and fresh: "fresh_block cb me sz n []"
    and hl: "dlist (b_nodes s) (b_heap_lists s) hs" "set hs \<inter> block_area sz n me = {}"
  shows "\<exists>s'. blockheap_create hb cb me elemsize epb name s = Some (hb, s') \<and>
    heap_inv s' hb sz n [(cb, me, rev (slots me sz n), [])] \<and>
    dlist (b_nodes s') (b_heap_lists s') (hb # hs) \<and> map_option nd_data (b_nodes s' hb) = Some hb \<and>
    (\<forall>nm. name = Some nm \<longrightarrow> map_option bh_name (b_heaps s' hb) = Some (take 63 nm)) \<and>
    b_dying s' = b_dying s \<and> block_area sz n me \<subseteq> dom (b_nodes s') \<and> bstate.more s' = bstate.more s \<and>
    (\<forall>p. p \<notin> insert hb (set hs) \<union> block_area sz n me \<longrightarrow>
      b_nodes s' p = b_nodes s p \<and> b_owner s' p = b_owner s p \<and> b_bytes s' p = b_bytes s p) \<and>
    (\<forall>p. p \<noteq> cb \<longrightarrow> b_blocks s' p = b_blocks s p) \<and> (\<forall>p. p \<noteq> hb \<longrightarrow> b_heaps s' p = b_heaps s p) \<and>
    dom (b_nodes s) \<subseteq> dom (b_nodes s')"
proof -
  let ?bh = "\<lparr>bh_name = [], bh_elemSize = pad_elemsize elemsize, bh_elemsPerBlock = word_of_int epb,
              bh_blocksAllocated = 0, bh_freeElems = 0, bh_base = NULL\<rparr>"
  let ?s1 = "s\<lparr>b_nodes := (b_nodes s)(hb \<mapsto> zero_node), b_heaps := (b_heaps s)(hb \<mapsto> ?bh)\<rparr>"
  have un: "unat (word_of_int epb :: u64) = n"
    using n by (simp add: unat_eq_nat_uint uint_word_of_int)
  have "heap_inv ?s1 hb sz n []"
    using heap_inv_new[of hb ?bh ?s1] hb(1) un n sz(2) by simp
  from blockheap_block_new_ok[OF this fresh] obtain s2 where
    s2: "blockheap_block_new cb me hb ?s1 = Some (0, s2)"
      "heap_inv s2 hb sz n [(cb, me, rev (slots me sz n), [])]"
      "bframe (block_area sz n me) {cb} {hb} ?s1 s2" "dom (b_nodes s2) = dom (b_nodes ?s1) \<union> block_area sz n me"
    by blast
  have nd: "b_nodes s2 p = b_nodes s p" if "p \<in> set hs" for p
    using s2(3) hb(2) hl(2) that by (auto simp: bframe_def)
  have hbn: "b_nodes s2 hb = Some zero_node" "b_heap_lists s2 = b_heap_lists s" "b_dying s2 = b_dying s"
    using s2(3) hb(3) by (auto simp: bframe_def)
  obtain bh where bh: "b_heaps s2 hb = Some bh" using s2(2) by (auto simp: heap_inv_def)
  let ?nm = "case name of None \<Rightarrow> bh_name bh | Some nm \<Rightarrow> take 63 nm"
  let ?s3 = "s2\<lparr>b_heaps := (b_heaps s2)(hb \<mapsto> bh\<lparr>bh_name := ?nm\<rparr>)\<rparr>"
  have hl2: "dlist (b_nodes s2) (b_heap_lists s) hs" using dlist_cong[OF hl(1) nd] by blast
  obtain h l where add: "dlink_add hb hb (b_nodes s2) (b_heap_lists s) = Some (h, l)" "dlist h l (hb # hs)"
      "map_option nd_data (h hb) = Some hb" "dframe (insert hb (set hs)) {hb} (b_nodes s2) h"
    using dlink_add_spec[OF hl2 hb(1) _ hb(2), of hb] hbn(1) by blast
  let ?s' = "?s3\<lparr>b_nodes := h, b_heap_lists := l\<rparr>"
  have nameupd: "(case name of None \<Rightarrow> Some s2
       | Some nm \<Rightarrow> upd_heap hb (\<lambda>x. x\<lparr>bh_name := take 63 nm\<rparr>) s2) = Some ?s3"
    using hb(1) bh by (cases name) (simp_all add: upd_heap_def mem_simps map_upd_triv)
  have "blockheap_create hb cb me elemsize epb name s = Some (hb, ?s')"
    unfolding blockheap_create_def using hb(1) sz(1) n(1) s2(1) nameupd add(1) hbn(2)
    by (simp add: Let_def upd_heap_def mem_simps)
  moreover have "heap_inv ?s' hb sz n [(cb, me, rev (slots me sz n), [])]"
  proof (rule heap_inv_cong[OF s2(2) _ bh])
    have "set (slots me sz n) \<inter> insert hb (set hs) = {}"
      using hb(3) hl(2) slots_in_block_area[of me sz n] by blast
    then have "\<forall>m \<in> set (slots me sz n). h m = b_nodes s2 m"
      using add(4) unfolding dframe_def by blast
    then show "\<forall>x \<in> set [(cb, me, rev (slots me sz n), [])]. same_blk sz n s2 ?s' x"
      by (simp add: same_blk_def)
  qed simp
  moreover have "block_area sz n me \<subseteq> dom h" using s2(4) dframe_dom[OF add(4)] by auto
  moreover have "bstate.more ?s' = bstate.more s" using s2(3) by (simp add: bframe_def)
  moreover have "\<forall>p. p \<notin> insert hb (set hs) \<union> block_area sz n me \<longrightarrow>
      b_nodes ?s' p = b_nodes s p \<and> b_owner ?s' p = b_owner s p \<and> b_bytes ?s' p = b_bytes s p"
    using s2(3) add(4) by (auto simp: bframe_def dframe_def)
  moreover have "\<forall>p. p \<noteq> cb \<longrightarrow> b_blocks ?s' p = b_blocks s p" "\<forall>p. p \<noteq> hb \<longrightarrow> b_heaps ?s' p = b_heaps s p"
    using s2(3) by (auto simp: bframe_def)
  moreover have "dom (b_nodes s) \<subseteq> dom h" using s2(4) dframe_dom[OF add(4)] by auto
  ultimately show ?thesis using add(2,3) hbn(3) by (intro exI[of _ ?s'] conjI) (assumption | simp)+
qed

lemma blockheap_create_ok:
  fixes s :: "'a bstate_scheme"
  assumes hb: "hb \<noteq> NULL" "hb \<notin> set hs" "hb \<notin> block_area sz n me"
    and sz: "elemsize \<noteq> 0" "unat (pad_elemsize elemsize) = sz"
    and n: "0 < epb" "epb < 2 ^ 31" "n = nat epb"
    and fresh: "fresh_block cb me sz n []"
    and hl: "dlist (b_nodes s) (b_heap_lists s) hs" "set hs \<inter> block_area sz n me = {}"
  shows "\<exists>s'. blockheap_create hb cb me elemsize epb name s = Some (hb, s') \<and>
    heap_inv s' hb sz n [(cb, me, rev (slots me sz n), [])] \<and>
    dlist (b_nodes s') (b_heap_lists s') (hb # hs) \<and> map_option nd_data (b_nodes s' hb) = Some hb \<and>
    (\<forall>nm. name = Some nm \<longrightarrow> map_option bh_name (b_heaps s' hb) = Some (take 63 nm)) \<and>
    b_dying s' = b_dying s \<and> block_area sz n me \<subseteq> dom (b_nodes s') \<and> bstate.more s' = bstate.more s"
  using blockheap_create_full[OF assms, of name] by (elim exE conjE) (intro exI conjI; assumption)

lemma destroy_loop_NULL [simp]: "destroy_loop NULL s = Some s"
  by (subst destroy_loop.simps) simp

lemma destroy_loop_step [mem_simps]:
  "w \<noteq> NULL \<Longrightarrow> b_blocks s w = Some blk \<Longrightarrow> destroy_loop w s =
     destroy_loop (blk_next blk) ((blockheap_block_free (blk_elems blk) (unat (blk_alloc_size blk)) s)
       \<lparr>b_blocks := (b_blocks s)(w := None)\<rparr>)"
  by (subst destroy_loop.simps) (simp add: mem_simps Let_def blockheap_block_free_def)

lemma unmap_pool:
  "(\<lambda>p. if p \<in> pool_area sz n xs then None else unmap e (Suc n * stride sz) h p) =
   (\<lambda>p. if p \<in> pool_area sz n ((b, e, fs, us) # xs) then None else h p)"
  by (auto simp: block_area_def in_range_def unmap_def fun_eq_iff)

lemma destroy_loop_ok:
  "chain s sz n xs NULL \<Longrightarrow> sorted_wrt (apart sz n) xs \<Longrightarrow>
   destroy_loop (hdd NULL (map fst xs)) s =
     Some (s\<lparr>b_nodes := (\<lambda>p. if p \<in> pool_area sz n xs then None else b_nodes s p),
             b_owner := (\<lambda>p. if p \<in> pool_area sz n xs then None else b_owner s p),
             b_blocks := (\<lambda>p. if p \<in> fst ` set xs then None else b_blocks s p)\<rparr>)"
proof (induction xs arbitrary: s)
  case (Cons x xs)
  obtain b e fs us where x: "x = (b, e, fs, us)" by (cases x)
  obtain blk where blk: "b \<noteq> NULL" "b_blocks s b = Some blk" "blk_elems blk = e"
      "blk_next blk = hdd NULL (map fst xs)" "unat (blk_alloc_size blk) = Suc n * stride sz"
    using Cons.prems(1) x by (auto simp: blk_ok_def)
  let ?s1 = "(blockheap_block_free e (Suc n * stride sz) s)\<lparr>b_blocks := (b_blocks s)(b := None)\<rparr>"
  have "same_blk sz n s ?s1 y" if y: "y \<in> set xs" for y
  proof -
    obtain b1 e1 f1 u1 where ye: "y = (b1, e1, f1, u1)" by (cases y)
    have "apart sz n (b1, e1, f1, u1) (b, e, fs, us)" using Cons.prems(2) x y ye by (auto intro: apart_sym)
    note this unmapped_same[OF this, of _ "b_nodes s"] unmapped_same[OF this, of _ "b_owner s"]
    then show ?thesis by (simp add: same_blk_def ye blockheap_block_free_def apart_def)
  qed
  then have "chain ?s1 sz n xs NULL" using Cons.prems(1) x by (auto intro!: chain_cong[of s])
  note IH = Cons.IH[OF this]
  have "destroy_loop b s = destroy_loop (hdd NULL (map fst xs)) ?s1"
    using blk by (simp add: mem_simps)
  also have "\<dots> = Some (?s1\<lparr>b_nodes := (\<lambda>p. if p \<in> pool_area sz n xs then None else b_nodes ?s1 p),
             b_owner := (\<lambda>p. if p \<in> pool_area sz n xs then None else b_owner ?s1 p),
             b_blocks := (\<lambda>p. if p \<in> fst ` set xs then None else b_blocks ?s1 p)\<rparr>)"
    by (rule IH) (use Cons.prems(2) in simp)
  also have "\<dots> = Some (s\<lparr>b_nodes := (\<lambda>p. if p \<in> pool_area sz n (x # xs) then None else b_nodes s p),
             b_owner := (\<lambda>p. if p \<in> pool_area sz n (x # xs) then None else b_owner s p),
             b_blocks := (\<lambda>p. if p \<in> fst ` set (x # xs) then None else b_blocks s p)\<rparr>)"
  proof -
    have "(\<lambda>p. if p \<in> fst ` set xs then None else ((b_blocks s)(b := None)) p) =
        (\<lambda>p. if p \<in> fst ` set (x # xs) then None else b_blocks s p)"
      by (auto simp: x fun_eq_iff)
    then show ?thesis
      using unmap_pool[of sz n xs e "b_nodes s" b fs us] unmap_pool[of sz n xs e "b_owner s" b fs us]
      by (simp add: blockheap_block_free_def x cong del: if_weak_cong)
  qed
  finally show ?case by (simp add: x)
qed simp

lemma blockheap_destroy_ok:
  assumes inv: "heap_inv s bhp sz n xs"
    and hl: "dlist (b_nodes s) (b_heap_lists s) (hs1 @ bhp # hs2)"
      "set (hs1 @ bhp # hs2) \<inter> pool_area sz n xs = {}"
  shows "\<exists>s'. blockheap_destroy bhp s = Some (0, s') \<and>
    dlist (b_nodes s') (b_heap_lists s') (hs1 @ hs2) \<and> b_heaps s' = (b_heaps s)(bhp := None) \<and>
    (\<forall>p \<in> pool_area sz n xs. b_nodes s' p = None \<and> b_owner s' p = None) \<and>
    (\<forall>b \<in> fst ` set xs. b_blocks s' b = None) \<and> b_nodes s' bhp = None \<and>
    (\<forall>p. p \<notin> fst ` set xs \<longrightarrow> b_blocks s' p = b_blocks s p)"
proof -
  obtain bh where bh: "bhp \<noteq> NULL" "b_heaps s bhp = Some bh" "bh_base bh = hdd NULL (map fst xs)"
    and c: "chain s sz n xs NULL" and sw: "sorted_wrt (apart sz n) xs"
    using inv by (auto simp: heap_inv_def)
  let ?h = "\<lambda>p. if p \<in> pool_area sz n xs then None else b_nodes s p"
  have "dlist ?h (b_heap_lists s) (hs1 @ bhp # hs2)"
    by (rule dlist_cong[OF hl(1)]) (use hl(2) in auto)
  from dlink_delete_spec[OF this] obtain h l where del: "dlink_delete bhp ?h (b_heap_lists s) = Some (h, l)"
      "dlist h l (hs1 @ hs2)" "dframe (set (hs1 @ hs2)) {} ?h h"
    by blast
  have "bhp \<notin> set (hs1 @ hs2)" using dlist_distinct[OF hl(1)] by auto
  then have l': "dlist (h(bhp := None)) l (hs1 @ hs2)" by (auto intro: dlist_cong[OF del(2)])
  have un: "h p = None" if "p \<in> pool_area sz n xs" for p
    using dframe_dom[OF del(3)] that by (metis (mono_tags, lifting) domIff)
  show ?thesis
    using bh del(1) l' un by (simp add: blockheap_destroy_def mem_simps destroy_loop_ok[OF c sw])
qed

subsection \<open>Usage figures\<close>

lemma total_sum: "chain s sz n xs q \<Longrightarrow> total_free xs + total_used xs = length xs * n"
proof (induction s sz n xs q rule: chain.induct)
  case (2 s sz n b e fs us xs q)
  then have "length fs + length us = n" using blk_ok_length by fastforce
  with 2 show ?case by simp
qed simp

lemma blockheap_usage_ok:
  assumes inv: "heap_inv s bhp sz n xs" and small: "total_used xs * stride sz < 2 ^ 64"
  shows "\<exists>u f m. blockheap_usage bhp s = Some (Some (u, f, m)) \<and>
    unat u = total_used xs \<and> unat f = total_free xs \<and> unat m = total_used xs * stride sz"
proof -
  obtain bh where bh: "bhp \<noteq> NULL" "b_heaps s bhp = Some bh" "unat (bh_elemSize bh) = sz"
      "unat (bh_elemsPerBlock bh) = n" "bh_blocksAllocated bh = of_nat (length xs)"
      "bh_freeElems bh = of_nat (total_free xs)" and c: "chain s sz n xs NULL" and n: "length xs * n < 2 ^ 64"
    using inv by (auto simp: heap_inv_def)
  have epb: "bh_elemsPerBlock bh = of_nat n" "bh_elemSize bh = of_nat sz" using bh(3,4) by auto
  have "bh_blocksAllocated bh * bh_elemsPerBlock bh - bh_freeElems bh = of_nat (total_used xs)"
    unfolding bh(5,6) epb(1) of_nat_mult[symmetric] total_sum[OF c, symmetric] by simp
  moreover have "of_nat (total_used xs) * (bh_elemSize bh + of_nat sizeof_MemBlock) = (of_nat (total_used xs * stride sz) :: u64)"
    by (simp add: epb stride_def)
  ultimately have run: "blockheap_usage bhp s =
      Some (Some (of_nat (total_used xs), of_nat (total_free xs), of_nat (total_used xs * stride sz)))"
    using bh by (simp add: blockheap_usage_def mem_simps Let_def)
  have un: "unat (of_nat k :: u64) = k" if "k < 2 ^ 64" for k
    using that by (simp add: unat_of_nat take_bit_nat_eq_self)
  have "total_used xs < 2 ^ 64" "total_free xs < 2 ^ 64" using total_sum[OF c] n by simp_all
  then show ?thesis unfolding run using un small by blast
qed

subsection \<open>The collector removes every unused block, the first one included\<close>

lemma gc_keep_none: "total_used xs = 0 \<Longrightarrow> gc_keep xs = []"
  by (induction xs) auto

lemma blockheap_gc_removes_root:
  assumes inv: "heap_inv s bhp sz n xs" and xs: "2 \<le> length xs" "total_used xs = 0"
  shows "\<exists>s'. blockheap_garbagecollect bhp s = Some (0, s') \<and>
    map_option bh_base (b_heaps s' bhp) = Some NULL \<and> map_option bh_blocksAllocated (b_heaps s' bhp) = Some 0"
proof -
  have "gc_keep xs = []" "length xs \<noteq> 1" using gc_keep_none xs by auto
  with blockheap_garbagecollect_ok[OF inv] show ?thesis by (auto simp: heap_inv_def)
qed

subsection \<open>The periodic collection of all heaps\<close>

text \<open>A heap with its parameters and block description.\<close>

type_synonym hinfo = "ptr \<times> nat \<times> nat \<times> binfo list"

definition heap_ok :: "'a bstate_scheme \<Rightarrow> hinfo \<Rightarrow> bool" where
  "heap_ok s x = (case x of (bhp, sz, n, xs) \<Rightarrow> heap_inv s bhp sz n xs)"

definition heap_cells :: "hinfo \<Rightarrow> ptr set" where
  "heap_cells x = (case x of (bhp, sz, n, xs) \<Rightarrow> pool_area sz n xs)"

definition heap_blocks :: "hinfo \<Rightarrow> ptr set" where
  "heap_blocks x = (case x of (bhp, sz, n, xs) \<Rightarrow> fst ` set xs)"

definition heaps_apart :: "hinfo \<Rightarrow> hinfo \<Rightarrow> bool" where
  "heaps_apart x y \<longleftrightarrow> fst x \<noteq> fst y \<and> heap_cells x \<inter> heap_cells y = {} \<and> heap_blocks x \<inter> heap_blocks y = {}"

definition collected :: "hinfo \<Rightarrow> hinfo" where
  "collected x = (case x of (bhp, sz, n, xs) \<Rightarrow> (bhp, sz, n, if length xs = 1 then xs else gc_keep xs))"

definition heap_bframe :: "hinfo \<Rightarrow> 'a bstate_scheme \<Rightarrow> 'a bstate_scheme \<Rightarrow> bool" where
  "heap_bframe x = bframe (heap_cells x) (heap_blocks x) {fst x}"

lemma heap_ok_apart:
  assumes "heap_ok s y" "heap_bframe x s s'" "heaps_apart x y"
  shows "heap_ok s' y"
proof -
  obtain bhp sz n xs where y: "y = (bhp, sz, n, xs)" by (cases y)
  have "heap_inv s' bhp sz n xs"
    by (rule heap_inv_frame[of s bhp sz n xs "heap_cells x" "heap_blocks x" "{fst x}"])
      (use assms y in \<open>auto simp: heap_ok_def heap_bframe_def heaps_apart_def heap_cells_def heap_blocks_def\<close>)
  then show ?thesis by (simp add: y heap_ok_def)
qed

lemma heaps_apart_sym: "heaps_apart x y \<Longrightarrow> heaps_apart y x"
  by (auto simp: heaps_apart_def)

lemma garbagecollect_heap_ok:
  assumes "heap_ok s x"
  shows "\<exists>s'. blockheap_garbagecollect (fst x) s = Some (0, s') \<and> heap_ok s' (collected x) \<and> heap_bframe x s s'"
proof -
  obtain bhp sz n xs where x: "x = (bhp, sz, n, xs)" by (cases x)
  have "free_areas sz n xs \<subseteq> pool_area sz n xs" by (auto simp: free_areas_def pool_area_def)
  with blockheap_garbagecollect_ok[of s bhp sz n xs] assms show ?thesis
    by (auto simp: x heap_ok_def collected_def heap_bframe_def heap_cells_def heap_blocks_def
        intro: bframe_mono)
qed

lemma heaps_apart_collected: "heaps_apart x y \<Longrightarrow> heaps_apart (collected x) y"
  by (cases x, cases y) (auto simp: heaps_apart_def collected_def heap_cells_def heap_blocks_def
      pool_area_def gc_keep_def)

text \<open>The heaps already visited are \<open>ds\<close>, those still ahead \<open>ts\<close>.\<close>

lemma blockheap_gc_from_ok:
  "dseg (b_nodes s) p (map fst ts) NULL \<Longrightarrow>
   \<forall>x \<in> set ts. map_option nd_data (b_nodes s (fst x)) = Some (fst x) \<Longrightarrow>
   \<forall>x \<in> set (ds @ ts). heap_ok s x \<Longrightarrow> sorted_wrt heaps_apart (ds @ ts) \<Longrightarrow>
   \<forall>x \<in> set ts. \<forall>y \<in> set ts. fst x \<notin> heap_cells y \<Longrightarrow>
   \<exists>s'. blockheap_gc_from (hdd NULL (map fst ts)) s = Some s' \<and>
     (\<forall>x \<in> set (ds @ map collected ts). heap_ok s' x)"
proof (induction ts arbitrary: s ds p)
  case Nil
  then show ?case by (auto simp: blockheap_gc_from.simps)
next
  case (Cons x ts)
  have hx: "heap_ok s x" using Cons.prems(3) by simp
  obtain s1 where s1: "blockheap_garbagecollect (fst x) s = Some (0, s1)" "heap_ok s1 (collected x)"
      "heap_bframe x s s1"
    using garbagecollect_heap_ok[OF hx] by blast
  obtain nd where nd: "fst x \<noteq> NULL" "b_nodes s (fst x) = Some nd" "nd_data nd = fst x"
      "nd_next nd = hdd NULL (map fst ts)" "dseg (b_nodes s) (fst x) (map fst ts) NULL"
    using Cons.prems(1,2) by auto
  have step: "blockheap_gc_from (fst x) s = blockheap_gc_from (hdd NULL (map fst ts)) s1"
    using nd s1(1) by (subst blockheap_gc_from.simps) (simp add: mem_simps)
  have nodes: "b_nodes s1 (fst y) = b_nodes s (fst y)" if "y \<in> set ts" for y
    using s1(3) Cons.prems(5) that by (simp add: heap_bframe_def bframe_def)
  have ap: "heaps_apart x y" if "y \<in> set ds \<union> set ts" for y
    using Cons.prems(4) that by (auto simp: sorted_wrt_append intro: heaps_apart_sym)
  have others: "heap_ok s1 y" if "y \<in> set ds \<union> set ts" for y
    using heap_ok_apart[OF _ s1(3) ap[OF that]] Cons.prems(3) that by auto
  have "\<exists>s'. blockheap_gc_from (hdd NULL (map fst ts)) s1 = Some s' \<and>
     (\<forall>x \<in> set ((ds @ [collected x]) @ map collected ts). heap_ok s' x)"
  proof (rule Cons.IH)
    show "dseg (b_nodes s1) (fst x) (map fst ts) NULL"
      by (rule dseg_cong[OF nd(5)]) (use nodes in auto)
    show "sorted_wrt heaps_apart ((ds @ [collected x]) @ ts)"
      using Cons.prems(4) ap heaps_apart_collected[of x]
      by (auto simp: sorted_wrt_append intro: heaps_apart_sym)
  qed (use Cons.prems nodes others s1(2) in auto)
  with step show ?case by simp
qed

lemma blockheap_gc_ok:
  assumes "dlist (b_nodes s) (b_heap_lists s) (map fst hs)"
    "\<forall>x \<in> set hs. map_option nd_data (b_nodes s (fst x)) = Some (fst x)"
    "\<forall>x \<in> set hs. heap_ok s x" "sorted_wrt heaps_apart hs"
    "\<forall>x \<in> set hs. \<forall>y \<in> set hs. fst x \<notin> heap_cells y"
  shows "\<exists>s'. blockheap_gc s = Some s' \<and> (\<forall>x \<in> set hs. heap_ok s' (collected x))"
  using blockheap_gc_from_ok[of s NULL hs "[]"] assms by (auto simp: blockheap_gc_def dlist_def)

section \<open>The contract of a pool of elements\<close>

text \<open>
  \<open>inv s U\<close>: the pool is well formed and exactly the elements \<open>U\<close> are handed
  out.  An argument \<open>e\<close> stands for the memory the operating system offers, which is
  \<open>ready\<close> when it can serve as a new block.  \<open>keeps U s s'\<close>: the contents
  of the elements \<open>U\<close> did not change.
\<close>

locale elem_pool =
  fixes inv :: "'s \<Rightarrow> ptr set \<Rightarrow> bool"
    and ready :: "'e \<Rightarrow> 's \<Rightarrow> bool"
    and keeps :: "ptr set \<Rightarrow> 's \<Rightarrow> 's \<Rightarrow> bool"
    and alloc :: "'e \<Rightarrow> 's \<Rightarrow> (ptr \<times> 's) option"
    and release :: "ptr \<Rightarrow> 's \<Rightarrow> (int \<times> 's) option"
    and collect :: "'s \<Rightarrow> (int \<times> 's) option"
  assumes alloc: "inv s U \<Longrightarrow> ready e s \<Longrightarrow>
      \<exists>p s'. alloc e s = Some (p, s') \<and> p \<noteq> NULL \<and> p \<notin> U \<and> inv s' (insert p U) \<and> keeps U s s'"
    and release: "inv s U \<Longrightarrow> p \<in> U \<Longrightarrow>
      \<exists>s'. release p s = Some (0, s') \<and> inv s' (U - {p}) \<and> keeps (U - {p}) s s'"
    and collect: "inv s U \<Longrightarrow> \<exists>s'. collect s = Some (0, s') \<and> inv s' U \<and> keeps U s s'"
    and keeps_trans: "keeps U s s' \<Longrightarrow> keeps U s' s'' \<Longrightarrow> keeps U s s''"
    and keeps_mono: "keeps U s s' \<Longrightarrow> V \<subseteq> U \<Longrightarrow> keeps V s s'"
begin

lemma alloc_release:
  assumes "inv s U" "ready e s"
  shows "\<exists>p s' s''. alloc e s = Some (p, s') \<and> release p s' = Some (0, s'') \<and> inv s'' U \<and> keeps U s s''"
proof -
  obtain p s' where a: "alloc e s = Some (p, s')" "p \<notin> U" "inv s' (insert p U)" "keeps U s s'"
    using alloc[OF assms] by blast
  obtain s'' where r: "release p s' = Some (0, s'')" "inv s'' (insert p U - {p})"
      "keeps (insert p U - {p}) s' s''"
    using release[OF a(3), of p] by blast
  have "insert p U - {p} = U" using a(2) by simp
  with a r show ?thesis using keeps_trans by metis
qed

lemma alloc_distinct:
  assumes "inv s U" "ready e s" "alloc e s = Some (p, s')" "ready e' s'" "alloc e' s' = Some (p', s'')"
  shows "p' \<noteq> p" "inv s'' (insert p' (insert p U))" "keeps U s s''"
proof -
  have a: "inv s' (insert p U)" "keeps U s s'" using alloc[OF assms(1,2)] assms(3) by auto
  have b: "p' \<notin> insert p U" "inv s'' (insert p' (insert p U))" "keeps (insert p U) s' s''"
    using alloc[OF a(1) assms(4)] assms(5) by auto
  then show "p' \<noteq> p" "inv s'' (insert p' (insert p U))" by auto
  show "keeps U s s''" by (rule keeps_trans[OF a(2) keeps_mono[OF b(3)]]) auto
qed

lemma collect_anytime:
  assumes "inv s U" "p \<in> U"
  shows "\<exists>s' s''. collect s = Some (0, s') \<and> release p s' = Some (0, s'') \<and> inv s'' (U - {p}) \<and>
    keeps (U - {p}) s s''"
proof -
  obtain s' where c: "collect s = Some (0, s')" "inv s' U" "keeps U s s'" using collect[OF assms(1)] by blast
  obtain s'' where r: "release p s' = Some (0, s'')" "inv s'' (U - {p})" "keeps (U - {p}) s' s''"
    using release[OF c(2) assms(2)] by blast
  have "keeps (U - {p}) s s''" by (rule keeps_trans[OF keeps_mono[OF c(3)] r(3)]) auto
  with c(1) r(1,2) show ?thesis by blast
qed

end

definition pool_inv :: "ptr \<Rightarrow> nat \<Rightarrow> nat \<Rightarrow> 'a bstate_scheme \<Rightarrow> ptr set \<Rightarrow> bool" where
  "pool_inv bhp sz n s U \<longleftrightarrow> (\<exists>xs. heap_inv s bhp sz n xs \<and> used_elems xs = U)"

definition pool_ready :: "ptr \<Rightarrow> nat \<Rightarrow> nat \<Rightarrow> ptr \<times> ptr \<Rightarrow> 'a bstate_scheme \<Rightarrow> bool" where
  "pool_ready bhp sz n e s \<longleftrightarrow>
     (\<forall>xs. heap_inv s bhp sz n xs \<longrightarrow> total_free xs = 0 \<longrightarrow> fresh_block (fst e) (snd e) sz n xs)"

interpretation bp: elem_pool "pool_inv bhp sz n" "pool_ready bhp sz n" "live_same sz"
  "\<lambda>e. blockheap_alloc (fst e) (snd e) bhp" "blockheap_free bhp" "blockheap_garbagecollect bhp"
  for bhp sz n
proof (unfold_locales, goal_cases)
  case (1 s U e)
  then obtain xs where xs: "heap_inv s bhp sz n xs" "used_elems xs = U" by (auto simp: pool_inv_def)
  with 1(2) have "total_free xs = 0 \<longrightarrow> fresh_block (fst e) (snd e) sz n xs" by (simp add: pool_ready_def)
  from blockheap_alloc_ok[OF xs(1) this] xs(2) show ?case unfolding pool_inv_def by metis
next
  case (2 s U p)
  then obtain xs where xs: "heap_inv s bhp sz n xs" "used_elems xs = U" by (auto simp: pool_inv_def)
  with 2(2) have "p \<in> used_elems xs" by simp
  from blockheap_free_used[OF xs(1) this] xs(2) show ?case unfolding pool_inv_def by metis
next
  case (3 s U)
  then obtain xs where xs: "heap_inv s bhp sz n xs" "used_elems xs = U" by (auto simp: pool_inv_def)
  from blockheap_gc_live[OF xs(1)] xs(2) show ?case unfolding pool_inv_def by metis
next
  case (4 U s s' s'')
  then show ?case by (rule live_same_trans)
next
  case (5 U s s' V)
  then show ?case by (auto simp: live_same_def)
qed

section \<open>Properties\<close>

text \<open>A heap of two 24 byte elements (20 rounded up) made by \<open>blockheap_create\<close> in empty memory.\<close>

definition boot_state :: bstate where
  "boot_state = \<lparr>b_nodes = Map.empty, b_owner = Map.empty, b_blocks = Map.empty, b_heaps = Map.empty,
     b_bytes = (\<lambda>_. 0), b_heap_lists = empty_list, b_dying = False\<rparr>"

definition demo_heap :: bstate where
  "demo_heap = snd (the (blockheap_create 8 16 1000 20 2 (Some ''nodes'') boot_state))"

definition demo_blocks :: "binfo list" where
  "demo_blocks = [(16, 1000, [1056, 1000], [])]"

lemma pad_20: "pad_elemsize 20 = 24"
  by (simp add: pad_elemsize_def)

lemma slots_demo: "rev (slots 1000 24 2) = [1056, 1000]"
  by (simp add: slots_def stride_def sizeof_MemBlock_def numeral_2_eq_2)

lemma demo_fresh: "fresh_block 16 1000 24 2 []"
  by (simp add: fresh_block_def stride_def sizeof_MemBlock_def)

lemma demo_area: "8 \<notin> block_area 24 2 1000"
  by (simp add: block_area_def in_range_def)

text \<open>
  C36.  \<open>blockheap_create\<close> with fresh memory gives a heap whose elements are all free:
  the element size is rounded up to a multiple of 8, the first block is cut into
  \<open>elemsperblock\<close> elements, and the heap is put at the front of the list of all heaps.
\<close>

theorem blockheap_create_makes_heap:
  fixes s :: "'a bstate_scheme"
  assumes "hb \<noteq> NULL" "hb \<notin> set hs" "hb \<notin> block_area sz n me"
    and "elemsize \<noteq> 0" "unat (pad_elemsize elemsize) = sz"
    and "0 < epb" "epb < 2 ^ 31" "n = nat epb" and "fresh_block cb me sz n []"
    and "dlist (b_nodes s) (b_heap_lists s) hs" "set hs \<inter> block_area sz n me = {}"
  shows "\<exists>s'. blockheap_create hb cb me elemsize epb name s = Some (hb, s') \<and>
    heap_inv s' hb sz n [(cb, me, rev (slots me sz n), [])] \<and>
    dlist (b_nodes s') (b_heap_lists s') (hb # hs) \<and>
    (\<forall>nm. name = Some nm \<longrightarrow> map_option bh_name (b_heaps s' hb) = Some (take 63 nm)) \<and>
    b_dying s' = b_dying s"
  using blockheap_create_ok[OF assms, of name] by blast

theorem blockheap_create_makes_heap_witness:
  "\<exists>s'. blockheap_create 8 16 1000 20 2 (Some ''nodes'') boot_state = Some (8, s') \<and>
    heap_inv s' 8 24 2 [(16, 1000, [1056, 1000], [])] \<and> dlist (b_nodes s') (b_heap_lists s') [8] \<and>
    map_option bh_name (b_heaps s' 8) = Some ''nodes'' \<and> b_dying s' = False"
proof -
  have "\<exists>s'. blockheap_create 8 16 1000 20 2 (Some ''nodes'') boot_state = Some (8, s') \<and>
    heap_inv s' 8 24 2 [(16, 1000, rev (slots 1000 24 2), [])] \<and>
    dlist (b_nodes s') (b_heap_lists s') [8] \<and>
    (\<forall>nm. Some ''nodes'' = Some nm \<longrightarrow> map_option bh_name (b_heaps s' 8) = Some (take 63 nm)) \<and>
    b_dying s' = b_dying boot_state"
    by (rule blockheap_create_makes_heap) (simp_all add: pad_20 demo_fresh demo_area, simp add: boot_state_def)
  then obtain s' where "blockheap_create 8 16 1000 20 2 (Some ''nodes'') boot_state = Some (8, s')"
    "heap_inv s' 8 24 2 [(16, 1000, rev (slots 1000 24 2), [])]" "dlist (b_nodes s') (b_heap_lists s') [8]"
    "map_option bh_name (b_heaps s' 8) = Some (take 63 ''nodes'')" "b_dying s' = b_dying boot_state"
    by blast
  moreover have "take 63 ''nodes'' = ''nodes''" "b_dying boot_state = False" by (simp_all add: boot_state_def)
  ultimately show ?thesis unfolding slots_demo by metis
qed

lemma demo_heap_inv: "heap_inv demo_heap 8 24 2 demo_blocks"
  and demo_heap_list: "dlist (b_nodes demo_heap) (b_heap_lists demo_heap) [8]"
proof -
  have "\<exists>s'. blockheap_create 8 16 1000 20 2 (Some ''nodes'') boot_state = Some (8, s') \<and>
    heap_inv s' 8 24 2 [(16, 1000, rev (slots 1000 24 2), [])] \<and> dlist (b_nodes s') (b_heap_lists s') [8]"
  proof -
    have "\<exists>s'. blockheap_create 8 16 1000 20 2 (Some ''nodes'') boot_state = Some (8, s') \<and>
      heap_inv s' 8 24 2 [(16, 1000, rev (slots 1000 24 2), [])] \<and>
      dlist (b_nodes s') (b_heap_lists s') [8] \<and> map_option nd_data (b_nodes s' 8) = Some 8 \<and>
      (\<forall>nm. Some ''nodes'' = Some nm \<longrightarrow> map_option bh_name (b_heaps s' 8) = Some (take 63 nm)) \<and>
      b_dying s' = b_dying boot_state \<and> block_area 24 2 1000 \<subseteq> dom (b_nodes s') \<and>
      bstate.more s' = bstate.more boot_state"
      by (rule blockheap_create_ok) (simp_all add: pad_20 demo_fresh demo_area, simp add: boot_state_def)
    then show ?thesis by blast
  qed
  then show "heap_inv demo_heap 8 24 2 demo_blocks" "dlist (b_nodes demo_heap) (b_heap_lists demo_heap) [8]"
    by (auto simp: demo_heap_def demo_blocks_def slots_demo)
qed

text \<open>
  C7.  \<open>blockheap_alloc\<close> on a well-formed heap, with a fresh block at hand when no
  element is free, returns an element that was not in use, zeroed, counts it as used, and
  leaves the contents of all elements in use alone.
\<close>

theorem blockheap_alloc_fresh:
  assumes "heap_inv s bhp sz n xs" and "total_free xs = 0 \<longrightarrow> fresh_block cb me sz n xs"
  shows "\<exists>p s' xs'. blockheap_alloc cb me bhp s = Some (p, s') \<and> heap_inv s' bhp sz n xs' \<and>
    p \<noteq> NULL \<and> p \<notin> used_elems xs \<and> used_elems xs' = insert p (used_elems xs) \<and>
    total_used xs' = Suc (total_used xs) \<and> (\<forall>q. in_range p sz q \<longrightarrow> b_bytes s' q = 0) \<and>
    live_same sz (used_elems xs) s s'"
proof -
  from blockheap_alloc_ok[OF assms] show ?thesis
    by (elim exE conjE) (intro exI conjI, assumption+)
qed

theorem blockheap_alloc_fresh_witness:
  "heap_inv demo_heap 8 24 2 demo_blocks \<and> total_free demo_blocks = 2 \<and>
   (\<exists>p s' xs'. blockheap_alloc NULL NULL 8 demo_heap = Some (p, s') \<and> heap_inv s' 8 24 2 xs' \<and>
      p \<noteq> NULL \<and> used_elems xs' = {p} \<and> total_used xs' = 1)"
proof -
  have d: "total_free demo_blocks = 2" "used_elems demo_blocks = {}" "total_used demo_blocks = 0"
    by (simp_all add: demo_blocks_def)
  have "total_free demo_blocks = 0 \<longrightarrow> fresh_block NULL NULL 24 2 demo_blocks" using d by simp
  from blockheap_alloc_fresh[OF demo_heap_inv this] show ?thesis
    using demo_heap_inv by (simp add: d) blast
qed

text \<open>
  C27.  Giving back an element just allocated restores the set of elements in use and
  keeps the contents of all of them.
\<close>

theorem blockheap_alloc_free_roundtrip:
  assumes "pool_inv bhp sz n s U" and "pool_ready bhp sz n (cb, me) s"
  shows "\<exists>p s' s''. blockheap_alloc cb me bhp s = Some (p, s') \<and> blockheap_free bhp p s' = Some (0, s'') \<and>
    pool_inv bhp sz n s'' U \<and> live_same sz U s s''"
  using bp.alloc_release[OF assms] by simp

lemma demo_pool: "pool_inv 8 24 2 demo_heap {}" "pool_ready 8 24 2 (NULL, NULL) demo_heap"
proof -
  show "pool_inv 8 24 2 demo_heap {}"
    using demo_heap_inv by (auto simp: pool_inv_def demo_blocks_def)
  have "map_option bh_freeElems (b_heaps demo_heap 8) = Some 2"
    using demo_heap_inv by (auto simp: heap_inv_def demo_blocks_def)
  then have "total_free xs \<noteq> 0" if "heap_inv demo_heap 8 24 2 xs" for xs
    using heap_inv_words(1)[OF that] by auto
  then show "pool_ready 8 24 2 (NULL, NULL) demo_heap" unfolding pool_ready_def by blast
qed

theorem blockheap_alloc_free_roundtrip_witness:
  "pool_inv 8 24 2 demo_heap {} \<and> pool_ready 8 24 2 (NULL, NULL) demo_heap \<and>
   (\<exists>p s' s''. blockheap_alloc NULL NULL 8 demo_heap = Some (p, s') \<and>
      blockheap_free 8 p s' = Some (0, s'') \<and> pool_inv 8 24 2 s'' {})"
  using blockheap_alloc_free_roundtrip[OF demo_pool] demo_pool by blast

text \<open>
  C8.  Garbage collection of a heap unmaps exactly the blocks none of whose elements is in
  use (a single block is never collected), keeps the order of the others, and leaves the
  contents of every element in use alone.
\<close>

theorem blockheap_garbagecollect_exact:
  assumes "heap_inv s bhp sz n xs"
  shows "\<exists>s'. blockheap_garbagecollect bhp s = Some (0, s') \<and>
    heap_inv s' bhp sz n (if length xs = 1 then xs else filter (\<lambda>(b, e, fs, us). us \<noteq> []) xs) \<and>
    live_same sz (used_elems xs) s s'"
proof -
  obtain s' where s': "blockheap_garbagecollect bhp s = Some (0, s')"
      "heap_inv s' bhp sz n (if length xs = 1 then xs else gc_keep xs)"
      "bframe (free_areas sz n xs) (fst ` set xs) {bhp} s s'"
    using blockheap_garbagecollect_ok[OF assms] by blast
  have "live_same sz (used_elems xs) s s'" by (rule bframe_live[OF s'(3) used_area_free_areas[OF assms]])
  with s'(1,2) show ?thesis unfolding gc_keep_def by blast
qed

definition demo_heap2 :: bstate where
  "demo_heap2 = snd (the (blockheap_block_new 24 2000 8 demo_heap))"

definition demo_blocks2 :: "binfo list" where
  "demo_blocks2 = (24, 2000, rev (slots 2000 24 2), []) # demo_blocks"

lemma demo_heap2_inv: "heap_inv demo_heap2 8 24 2 demo_blocks2"
proof -
  have "fresh_block 24 2000 24 2 demo_blocks"
    by (simp add: fresh_block_def demo_blocks_def apart_def stride_def sizeof_MemBlock_def)
  from blockheap_block_new_ok[OF demo_heap_inv this] show ?thesis
    by (auto simp: demo_heap2_def demo_blocks2_def)
qed

theorem blockheap_garbagecollect_exact_witness:
  "heap_inv demo_heap2 8 24 2 demo_blocks2 \<and>
   (\<exists>s'. blockheap_garbagecollect 8 demo_heap2 = Some (0, s') \<and> heap_inv s' 8 24 2 [])"
proof -
  have "(if length demo_blocks2 = 1 then demo_blocks2 else filter (\<lambda>(b, e, fs, us). us \<noteq> []) demo_blocks2) = []"
    by (simp add: demo_blocks2_def demo_blocks_def)
  with blockheap_garbagecollect_exact[OF demo_heap2_inv] show ?thesis using demo_heap2_inv by fastforce
qed

text \<open>
  The comment of the collector says that the root block is never removed; in fact a
  heap of two or more unused blocks loses all of them, its base becoming NULL.
\<close>

theorem blockheap_gc_unmaps_root:
  assumes "heap_inv s bhp sz n xs" and "2 \<le> length xs" "total_used xs = 0"
  shows "\<exists>s'. blockheap_garbagecollect bhp s = Some (0, s') \<and>
    map_option bh_base (b_heaps s' bhp) = Some NULL \<and> map_option bh_blocksAllocated (b_heaps s' bhp) = Some 0"
  by (rule blockheap_gc_removes_root[OF assms])

theorem blockheap_gc_unmaps_root_witness:
  "heap_inv demo_heap2 8 24 2 demo_blocks2 \<and> map_option bh_base (b_heaps demo_heap2 8) = Some 24 \<and>
   (\<exists>s'. blockheap_garbagecollect 8 demo_heap2 = Some (0, s') \<and>
      map_option bh_base (b_heaps s' 8) = Some NULL)"
proof -
  have "2 \<le> length demo_blocks2" "total_used demo_blocks2 = 0"
    by (simp_all add: demo_blocks2_def demo_blocks_def)
  moreover have "map_option bh_base (b_heaps demo_heap2 8) = Some 24"
    using demo_heap2_inv by (auto simp: heap_inv_def demo_blocks2_def)
  ultimately show ?thesis using blockheap_gc_unmaps_root[OF demo_heap2_inv] demo_heap2_inv by blast
qed

text \<open>
  C9.  When every element is in use and the system gives no memory, \<open>blockheap_alloc\<close>
  returns NULL with the process marked as dying, and the heap is unharmed.
\<close>

theorem blockheap_alloc_out_of_memory:
  assumes "heap_inv s bhp sz n xs" and "total_free xs = 0" and "cb = NULL \<or> me = NULL" and "cb \<notin> fst ` set xs"
  shows "\<exists>s'. blockheap_alloc cb me bhp s = Some (NULL, s') \<and> b_dying s' \<and> heap_inv s' bhp sz n xs"
  by (rule blockheap_alloc_exhausted[OF assms])

theorem blockheap_alloc_out_of_memory_witness:
  "\<exists>s :: bstate. heap_inv s 8 24 2 [] \<and>
     (\<exists>s'. blockheap_alloc NULL NULL 8 s = Some (NULL, s') \<and> b_dying s' \<and> heap_inv s' 8 24 2 [])"
proof -
  have "filter (\<lambda>(b, e, fs, us). us \<noteq> []) demo_blocks2 = []" "length demo_blocks2 = 2"
    by (simp_all add: demo_blocks2_def demo_blocks_def)
  then have "\<exists>s. heap_inv s 8 24 2 ([] :: binfo list) \<and> bstate.more s = ()"
    using blockheap_garbagecollect_ok[OF demo_heap2_inv] by (auto simp: gc_keep_def)
  then obtain s :: bstate where s: "heap_inv s 8 24 2 []" by blast
  with blockheap_alloc_out_of_memory[OF s, of NULL NULL] show ?thesis by auto
qed

text \<open>
  C31.  \<open>blockheap_destroy\<close> unmaps every block of the heap, frees every block header and
  the heap itself, and takes the heap off the list of all heaps.
\<close>

theorem blockheap_destroy_releases_all:
  assumes "heap_inv s bhp sz n xs"
    and "dlist (b_nodes s) (b_heap_lists s) (hs1 @ bhp # hs2)"
      "set (hs1 @ bhp # hs2) \<inter> pool_area sz n xs = {}"
  shows "\<exists>s'. blockheap_destroy bhp s = Some (0, s') \<and>
    dlist (b_nodes s') (b_heap_lists s') (hs1 @ hs2) \<and> b_heaps s' = (b_heaps s)(bhp := None) \<and>
    (\<forall>p. p \<in> pool_area sz n xs \<longrightarrow> b_nodes s' p = None \<and> b_owner s' p = None) \<and>
    (\<forall>b. b_blocks s' b = (if b \<in> fst ` set xs then None else b_blocks s b))"
  using blockheap_destroy_ok[OF assms] by metis

theorem blockheap_destroy_releases_all_witness:
  "heap_inv demo_heap 8 24 2 demo_blocks \<and>
   (\<exists>s'. blockheap_destroy 8 demo_heap = Some (0, s') \<and> dlist (b_nodes s') (b_heap_lists s') [] \<and>
      b_heaps s' 8 = None \<and> b_blocks s' 16 = None)"
proof -
  have "set ([] @ 8 # []) \<inter> pool_area 24 2 demo_blocks = {}" "16 \<in> fst ` set demo_blocks"
    by (simp_all add: demo_blocks_def block_area_def in_range_def)
  with blockheap_destroy_releases_all[OF demo_heap_inv, of "[]" "[]"] demo_heap_list
  obtain s' where "blockheap_destroy 8 demo_heap = Some (0, s')" "dlist (b_nodes s') (b_heap_lists s') []"
    "b_heaps s' = (b_heaps demo_heap)(8 := None)"
    "\<forall>b. b_blocks s' b = (if b \<in> fst ` set demo_blocks then None else b_blocks demo_heap b)"
    by auto
  with \<open>16 \<in> fst ` set demo_blocks\<close> show ?thesis using demo_heap_inv by (metis fun_upd_same)
qed

end
