(* ===== verification/Dictionary.thy ===== *)
theory Dictionary
  imports Fs_Prelude
begin

text \<open>
  The string dictionary of \<open>src/dictionary.c\<close>: three parallel arrays with
  open slots, a hash per key, and doubling when the arrays are full.  An array is an
  \<open>option\<close>, because a failed reallocation leaves a NULL array behind.  Strings are
  C strings, so they hold no NUL character; copying a string (\<open>str_dup\<close>) is assumed
  to succeed, the results of the three calls that double an array are arguments.

  \<open>dict_map\<close> is the map a dictionary represents; every operation is proved to
  perform the map operation and to keep \<open>dict_inv\<close>.
\<close>

section \<open>Data\<close>

record dictionary =
  d_n :: int
  d_size :: int
  d_val :: "string option list option"
  d_key :: "string option list option"
  d_hash :: "u32 list option"

definition DICTMINSZ :: int where
  "DICTMINSZ = 128"

section \<open>Operations\<close>

text \<open>One round of the hash loop, and the final mixing.\<close>

definition hash_round :: "u32 \<Rightarrow> char \<Rightarrow> u32" where
  "hash_round h c = (let h = h + uchar_promote c; h = h + push_bit 10 h in xor h (drop_bit 6 h))"

definition dictionary_hash :: "string \<Rightarrow> u32" where
  "dictionary_hash key =
     (let h = foldl hash_round 0 key; h = h + push_bit 3 h; h = xor h (drop_bit 11 h)
      in h + push_bit 15 h)"

text \<open>
  \<open>mem_double\<close> on an array of \<open>k\<close> slots of \<open>w\<close> bytes: the byte count is an
  \<open>int\<close>, and doubling it past \<open>INT_MAX\<close> is undefined.
\<close>

definition mem_double :: "bool \<Rightarrow> int \<Rightarrow> 'a \<Rightarrow> 'a list \<Rightarrow> 'a list option option" where
  "mem_double ok w z xs =
     (if 2 * (w * int (length xs)) \<ge> 2 ^ 31 then None
      else Some (if ok then Some (xs @ replicate (length xs) z) else None))"

definition dictionary_new :: "int \<Rightarrow> dictionary" where
  "dictionary_new sz =
     (let sz = (if sz < DICTMINSZ then DICTMINSZ else sz)
      in \<lparr>d_n = 0, d_size = sz, d_val = Some (replicate (nat sz) None),
          d_key = Some (replicate (nat sz) None), d_hash = Some (replicate (nat sz) 0)\<rparr>)"

text \<open>
  The search loop of \<open>dictionary_get\<close>, \<open>dictionary_set\<close> and
  \<open>dictionary_unset\<close>: the index of the key, or \<open>size\<close>.
\<close>

fun find_key :: "dictionary \<Rightarrow> u32 \<Rightarrow> string \<Rightarrow> nat \<Rightarrow> nat \<Rightarrow> nat option" where
  "find_key d h key 0 i = Some i"
| "find_key d h key (Suc k) i = do {
     ks \<leftarrow> d_key d;
     x \<leftarrow> arr_get ks (int i);
     case x of
       None \<Rightarrow> find_key d h key k (Suc i)
     | Some s \<Rightarrow> do {
         hs \<leftarrow> d_hash d;
         hv \<leftarrow> arr_get hs (int i);
         if h = hv \<and> key = s then Some i else find_key d h key k (Suc i) } }"

fun find_slot :: "string option list \<Rightarrow> nat \<Rightarrow> nat \<Rightarrow> nat option" where
  "find_slot ks 0 i = Some i"
| "find_slot ks (Suc k) i = do {
     x \<leftarrow> arr_get ks (int i);
     if x = None then Some i else find_slot ks k (Suc i) }"

definition dictionary_get :: "dictionary \<Rightarrow> string \<Rightarrow> string option \<Rightarrow> string option option" where
  "dictionary_get d key def = do {
     i \<leftarrow> find_key d (dictionary_hash key) key (nat (d_size d)) 0;
     if int i < d_size d then do { vs \<leftarrow> d_val d; arr_get vs (int i) }
     else Some def }"

text \<open>The insertion at the end of \<open>dictionary_set\<close>.\<close>

definition dict_insert :: "dictionary \<Rightarrow> u32 \<Rightarrow> string \<Rightarrow> string option \<Rightarrow> dictionary option" where
  "dict_insert d h key v = do {
     ks \<leftarrow> d_key d;
     i \<leftarrow> find_slot ks (nat (d_size d)) 0;
     ks \<leftarrow> arr_set ks (int i) (Some key);
     vs \<leftarrow> d_val d;
     vs \<leftarrow> arr_set vs (int i) v;
     hs \<leftarrow> d_hash d;
     hs \<leftarrow> arr_set hs (int i) h;
     Some (d\<lparr>d_key := Some ks, d_val := Some vs, d_hash := Some hs, d_n := d_n d + 1\<rparr>) }"

text \<open>The growth step of \<open>dictionary_set\<close>; \<open>False\<close> when it failed.\<close>

definition dict_grow :: "bool \<times> bool \<times> bool \<Rightarrow> dictionary \<Rightarrow> (bool \<times> dictionary) option" where
  "dict_grow oks d = do {
     vs \<leftarrow> d_val d; vs' \<leftarrow> mem_double (fst oks) 8 None vs;
     ks \<leftarrow> d_key d; ks' \<leftarrow> mem_double (fst (snd oks)) 8 None ks;
     hs \<leftarrow> d_hash d; hs' \<leftarrow> mem_double (snd (snd oks)) 4 0 hs;
     let d = d\<lparr>d_val := vs', d_key := ks', d_hash := hs'\<rparr>;
     if vs' = None \<or> ks' = None \<or> hs' = None then Some (False, d)
     else Some (True, d\<lparr>d_size := 2 * d_size d\<rparr>) }"

text \<open>\<open>dictionary_set\<close> behind its check for NULL arguments.\<close>

definition dict_set ::
  "bool \<times> bool \<times> bool \<Rightarrow> dictionary \<Rightarrow> string \<Rightarrow> string option \<Rightarrow> (int \<times> dictionary) option" where
  "dict_set oks d key v = do {
     let h = dictionary_hash key;
     i \<leftarrow> (if d_n d > 0 then find_key d h key (nat (d_size d)) 0 else Some (nat (d_size d)));
     if int i < d_size d then do {
       vs \<leftarrow> d_val d;
       vs \<leftarrow> arr_set vs (int i) v;
       Some (0, d\<lparr>d_val := Some vs\<rparr>) }
     else do {
       (ok, d) \<leftarrow> (if d_n d = d_size d then dict_grow oks d else Some (True, d));
       if \<not> ok then Some (- 1, d)
       else do { d \<leftarrow> dict_insert d h key v; Some (0, d) } } }"

definition dictionary_set ::
  "bool \<times> bool \<times> bool \<Rightarrow> dictionary option \<Rightarrow> string option \<Rightarrow> string option \<Rightarrow>
   (int \<times> dictionary option) option" where
  "dictionary_set oks d key v =
     (case (d, key) of
        (Some d, Some key) \<Rightarrow> map_option (\<lambda>(r, d). (r, Some d)) (dict_set oks d key v)
      | _ \<Rightarrow> Some (- 1, d))"

text \<open>\<open>dictionary_unset\<close> behind its check for a NULL key.\<close>

definition dict_unset :: "dictionary \<Rightarrow> string \<Rightarrow> dictionary option" where
  "dict_unset d key = do {
     i \<leftarrow> find_key d (dictionary_hash key) key (nat (d_size d)) 0;
     if int i \<ge> d_size d then Some d
     else do {
       ks \<leftarrow> d_key d;
       ks \<leftarrow> arr_set ks (int i) None;
       vs \<leftarrow> d_val d;
       vs \<leftarrow> arr_set vs (int i) None;
       hs \<leftarrow> d_hash d;
       hs \<leftarrow> arr_set hs (int i) 0;
       Some (d\<lparr>d_key := Some ks, d_val := Some vs, d_hash := Some hs, d_n := d_n d - 1\<rparr>) } }"

definition dictionary_unset :: "dictionary \<Rightarrow> string option \<Rightarrow> dictionary option" where
  "dictionary_unset d key = (case key of None \<Rightarrow> Some d | Some key \<Rightarrow> dict_unset d key)"

text \<open>
  \<open>dictionary_del\<close>: the strings given back, in the order of the calls of
  \<open>mem_free\<close>, before the arrays and the struct itself.
\<close>

fun del_from :: "string option list \<Rightarrow> string option list \<Rightarrow> nat \<Rightarrow> nat \<Rightarrow> string list option" where
  "del_from ks vs 0 i = Some []"
| "del_from ks vs (Suc k) i = do {
     x \<leftarrow> arr_get ks (int i);
     v \<leftarrow> arr_get vs (int i);
     r \<leftarrow> del_from ks vs k (Suc i);
     Some ((case x of None \<Rightarrow> [] | Some s \<Rightarrow> [s]) @ (case v of None \<Rightarrow> [] | Some s \<Rightarrow> [s]) @ r) }"

definition dictionary_del :: "dictionary option \<Rightarrow> string list option" where
  "dictionary_del d =
     (case d of None \<Rightarrow> Some []
      | Some d \<Rightarrow> do { ks \<leftarrow> d_key d; vs \<leftarrow> d_val d; del_from ks vs (nat (d_size d)) 0 })"

text \<open>\<open>fprintf(out, "%20s\t[%s]\n", ...)\<close>.\<close>

definition dump_line :: "string \<Rightarrow> string option \<Rightarrow> string" where
  "dump_line k v = replicate (20 - length k) CHR '' '' @ k @ [CHR 0x09] @ ''['' @
     (case v of None \<Rightarrow> ''UNDEF'' | Some s \<Rightarrow> s) @ '']'' @ [CHR 0x0A]"

fun dump_from :: "dictionary \<Rightarrow> nat \<Rightarrow> nat \<Rightarrow> string option" where
  "dump_from d 0 i = Some []"
| "dump_from d (Suc k) i = do {
     ks \<leftarrow> d_key d;
     x \<leftarrow> arr_get ks (int i);
     l \<leftarrow> (case x of None \<Rightarrow> Some [] | Some s \<Rightarrow> do {
       vs \<leftarrow> d_val d; v \<leftarrow> arr_get vs (int i); Some (dump_line s v) });
     r \<leftarrow> dump_from d k (Suc i);
     Some (l @ r) }"

definition dictionary_dump :: "dictionary \<Rightarrow> string option" where
  "dictionary_dump d =
     (if d_n d < 1 then Some (''empty dictionary'' @ [CHR 0x0A])
      else dump_from d (nat (d_size d)) 0)"

section \<open>The represented map\<close>

definition key_slot :: "string option list \<Rightarrow> string \<Rightarrow> nat option" where
  "key_slot ks k = find (\<lambda>i. ks ! i = Some k) [0..<length ks]"

text \<open>A key is present with a value that may be NULL (\<open>None\<close>).\<close>

definition dict_map :: "dictionary \<Rightarrow> string \<rightharpoonup> string option" where
  "dict_map d k = (case (d_key d, d_val d) of
     (Some ks, Some vs) \<Rightarrow> map_option (\<lambda>i. vs ! i) (key_slot ks k)
   | _ \<Rightarrow> None)"

definition distinct_keys :: "string option list \<Rightarrow> bool" where
  "distinct_keys ks = distinct (filter (\<lambda>x. x \<noteq> None) ks)"

definition dict_rep ::
  "dictionary \<Rightarrow> string option list \<Rightarrow> string option list \<Rightarrow> u32 list \<Rightarrow> bool" where
  "dict_rep d ks vs hs \<longleftrightarrow>
     d_key d = Some ks \<and> d_val d = Some vs \<and> d_hash d = Some hs \<and>
     d_size d = int (length ks) \<and> length vs = length ks \<and> length hs = length ks \<and> 0 < length ks \<and>
     d_n d = int (length (filter (\<lambda>x. x \<noteq> None) ks)) \<and> distinct_keys ks \<and>
     (\<forall>i < length ks. \<forall>k. ks ! i = Some k \<longrightarrow> hs ! i = dictionary_hash k)"

definition dict_inv :: "dictionary \<Rightarrow> bool" where
  "dict_inv d \<longleftrightarrow> (\<exists>ks vs hs. dict_rep d ks vs hs)"

section \<open>Search\<close>

lemma find_key_spec:
  assumes "dict_rep d ks vs hs"
  shows "i + k = length ks \<Longrightarrow>
    find_key d (dictionary_hash key) key k i =
      Some (case find (\<lambda>j. ks ! j = Some key) [i..<length ks] of Some j \<Rightarrow> j | None \<Rightarrow> length ks)"
proof (induction k arbitrary: i)
  case (Suc k)
  have d: "d_key d = Some ks" "d_hash d = Some hs" "length hs = length ks"
      "\<And>k. ks ! i = Some k \<Longrightarrow> hs ! i = dictionary_hash k"
    using assms Suc.prems by (auto simp: dict_rep_def)
  have "[i..<length ks] = i # [Suc i..<length ks]" using Suc.prems by (simp add: upt_conv_Cons)
  with Suc d show ?case by (auto split: option.splits)
qed simp

lemma key_slot_Some: "key_slot ks k = Some i \<Longrightarrow> i < length ks \<and> ks ! i = Some k"
  by (auto simp: key_slot_def find_Some_iff)

lemma key_slot_None: "key_slot ks k = None \<longleftrightarrow> Some k \<notin> set ks"
  by (auto simp: key_slot_def find_None_iff in_set_conv_nth)

lemma distinct_keys_nth:
  assumes "distinct_keys ks" "i < length ks" "j < length ks" "ks ! i = ks ! j" "ks ! i \<noteq> None"
  shows "i = j"
  using assms
proof (induction ks arbitrary: i j)
  case (Cons x ks)
  have "x \<notin> set ks \<or> x = None" using Cons.prems(1) by (auto simp: distinct_keys_def split: if_splits)
  with Cons show ?case
    by (cases i; cases j) (auto simp: distinct_keys_def in_set_conv_nth split: if_splits)
qed simp

lemma key_slot_unique:
  assumes "distinct_keys ks" "i < length ks" "ks ! i = Some k"
  shows "key_slot ks k = Some i"
proof (cases "key_slot ks k")
  case None
  with assms show ?thesis by (auto simp: key_slot_None in_set_conv_nth)
next
  case (Some j)
  with key_slot_Some[OF Some] distinct_keys_nth[OF assms(1), of i j] assms show ?thesis by auto
qed

lemma dict_map_rep: "dict_rep d ks vs hs \<Longrightarrow> dict_map d k = map_option (\<lambda>i. vs ! i) (key_slot ks k)"
  by (simp add: dict_map_def dict_rep_def)

lemma find_key_slot:
  "dict_rep d ks vs hs \<Longrightarrow> find_key d (dictionary_hash key) key (length ks) 0 =
     Some (case key_slot ks key of Some j \<Rightarrow> j | None \<Rightarrow> length ks)"
  using find_key_spec[of d ks vs hs 0 "length ks" key] by (simp add: dict_rep_def key_slot_def)

lemma find_slot_spec:
  "i + k = length ks \<Longrightarrow>
    find_slot ks k i = Some (case find (\<lambda>j. ks ! j = None) [i..<length ks] of Some j \<Rightarrow> j | None \<Rightarrow> length ks)"
proof (induction k arbitrary: i)
  case (Suc k)
  have "[i..<length ks] = i # [Suc i..<length ks]" using Suc.prems by (simp add: upt_conv_Cons)
  with Suc show ?case by auto
qed simp

section \<open>Lookup\<close>

lemma dictionary_get_ok:
  assumes "dict_inv d"
  shows "dictionary_get d key def = Some (case dict_map d key of None \<Rightarrow> def | Some v \<Rightarrow> v)"
proof -
  obtain ks vs hs where r: "dict_rep d ks vs hs" using assms by (auto simp: dict_inv_def)
  then have "d_size d = int (length ks)" "d_val d = Some vs" "length vs = length ks"
    by (auto simp: dict_rep_def)
  with key_slot_Some[of ks key] show ?thesis
    by (auto simp: dictionary_get_def find_key_slot[OF r] dict_map_rep[OF r] split: option.splits)
qed

section \<open>Updates of the key array\<close>

lemma length_filter_set:
  "i < length xs \<Longrightarrow> xs ! i = None \<Longrightarrow>
   length (filter (\<lambda>x. x \<noteq> None) (xs[i := Some y])) = Suc (length (filter (\<lambda>x. x \<noteq> None) xs))"
  by (induction xs arbitrary: i) (auto split: nat.splits)

lemma length_filter_unset:
  "i < length xs \<Longrightarrow> xs ! i \<noteq> None \<Longrightarrow>
   Suc (length (filter (\<lambda>x. x \<noteq> None) (xs[i := None]))) = length (filter (\<lambda>x. x \<noteq> None) xs)"
  by (induction xs arbitrary: i) (auto split: nat.splits)

lemma distinct_keys_iff:
  "distinct_keys ks \<longleftrightarrow>
   (\<forall>i < length ks. \<forall>j < length ks. ks ! i = ks ! j \<longrightarrow> ks ! i \<noteq> None \<longrightarrow> i = j)"
proof
  assume r: "\<forall>i < length ks. \<forall>j < length ks. ks ! i = ks ! j \<longrightarrow> ks ! i \<noteq> None \<longrightarrow> i = j"
  then show "distinct_keys ks"
  proof (induction ks)
    case (Cons x ks)
    have "\<forall>i < length ks. \<forall>j < length ks. ks ! i = ks ! j \<longrightarrow> ks ! i \<noteq> None \<longrightarrow> i = j"
      using Cons.prems by fastforce
    moreover have "x \<notin> set ks \<or> x = None" using Cons.prems by (fastforce simp: in_set_conv_nth)
    ultimately show ?case using Cons.IH by (auto simp: distinct_keys_def)
  qed (simp add: distinct_keys_def)
qed (blast intro: distinct_keys_nth)

lemma key_slot_set:
  assumes "distinct_keys ks" "i < length ks" "ks ! i = None" "Some k \<notin> set ks"
  shows "distinct_keys (ks[i := Some k])"
    "key_slot (ks[i := Some k]) k' = (if k' = k then Some i else key_slot ks k')"
proof -
  show d: "distinct_keys (ks[i := Some k])"
    using assms by (auto simp: distinct_keys_iff nth_list_update in_set_conv_nth)
  show "key_slot (ks[i := Some k]) k' = (if k' = k then Some i else key_slot ks k')"
  proof (cases "k' = k")
    case True
    with key_slot_unique[OF d, of i k] assms(2) show ?thesis by simp
  next
    case False
    show ?thesis
    proof (cases "key_slot ks k'")
      case None
      then have "key_slot (ks[i := Some k]) k' = None"
        using False set_update_subset_insert[of ks i "Some k"] unfolding key_slot_None by auto
      with None False show ?thesis by simp
    next
      case (Some j)
      from key_slot_Some[OF this] assms(3) have "j < length ks" "ks ! j = Some k'" "j \<noteq> i" by auto
      with key_slot_unique[OF d, of j k'] False Some show ?thesis by simp
    qed
  qed
qed

lemma key_slot_unset:
  assumes "distinct_keys ks" "i < length ks" "ks ! i = Some k"
  shows "distinct_keys (ks[i := None])"
    "key_slot (ks[i := None]) k' = (if k' = k then None else key_slot ks k')"
proof -
  show d: "distinct_keys (ks[i := None])"
    unfolding distinct_keys_iff
  proof (intro allI impI)
    fix a b assume ab: "a < length (ks[i := None])" "b < length (ks[i := None])"
      "ks[i := None] ! a = ks[i := None] ! b" "ks[i := None] ! a \<noteq> None"
    then have "a \<noteq> i" "b \<noteq> i" by (auto simp: nth_list_update split: if_splits)
    with ab show "a = b" using distinct_keys_nth[OF assms(1), of a b] by simp
  qed
  have gone: "Some k \<notin> set (ks[i := None])"
    using distinct_keys_nth[OF assms(1)] assms(2,3)
    by (auto simp: in_set_conv_nth nth_list_update split: if_splits)
  show "key_slot (ks[i := None]) k' = (if k' = k then None else key_slot ks k')"
  proof (cases "key_slot ks k'")
    case None
    then have "key_slot (ks[i := None]) k' = None"
      using set_update_subset_insert[of ks i None] unfolding key_slot_None by auto
    with None show ?thesis by simp
  next
    case (Some j)
    note j = key_slot_Some[OF Some]
    show ?thesis
    proof (cases "k' = k")
      case True
      with gone show ?thesis by (simp add: key_slot_None)
    next
      case False
      then have "j \<noteq> i" using j assms(3) by auto
      with key_slot_unique[OF d, of j k'] j Some False show ?thesis by simp
    qed
  qed
qed

section \<open>Insertion and growth\<close>

lemma hashes_set:
  assumes "\<And>i k. i < length ks \<Longrightarrow> ks ! i = Some k \<Longrightarrow> hs ! i = dictionary_hash k" "length hs = length ks"
    "j < length ks" "ks[i := Some k] ! j = Some k'"
  shows "hs[i := dictionary_hash k] ! j = dictionary_hash k'"
  using assms by (cases "j = i") auto

lemma hashes_unset:
  assumes "\<And>i k. i < length ks \<Longrightarrow> ks ! i = Some k \<Longrightarrow> hs ! i = dictionary_hash k"
    "j < length ks" "ks[i := None] ! j = Some k'"
  shows "hs[i := 0] ! j = dictionary_hash k'"
  using assms by (cases "j = i") auto

lemma dict_insert_ok:
  assumes r: "dict_rep d ks vs hs" and new: "Some k \<notin> set ks" and room: "None \<in> set ks"
  shows "\<exists>d'. dict_insert d (dictionary_hash k) k v = Some d' \<and> dict_inv d' \<and>
    dict_map d' = (dict_map d)(k \<mapsto> v) \<and> d_n d' = d_n d + 1"
proof -
  have d: "d_key d = Some ks" "d_val d = Some vs" "d_hash d = Some hs" "d_size d = int (length ks)"
      "length vs = length ks" "length hs = length ks" "0 < length ks"
      "d_n d = int (length (filter (\<lambda>x. x \<noteq> None) ks))" "distinct_keys ks"
      "\<And>i k. i < length ks \<Longrightarrow> ks ! i = Some k \<Longrightarrow> hs ! i = dictionary_hash k"
    using r by (auto simp: dict_rep_def)
  obtain i where i: "find (\<lambda>j. ks ! j = None) [0..<length ks] = Some i"
    using room by (cases "find (\<lambda>j. ks ! j = None) [0..<length ks]") (auto simp: find_None_iff in_set_conv_nth)
  then have ii: "i < length ks" "ks ! i = None" by (auto simp: find_Some_iff)
  let ?d' = "d\<lparr>d_key := Some (ks[i := Some k]), d_val := Some (vs[i := v]),
               d_hash := Some (hs[i := dictionary_hash k]), d_n := d_n d + 1\<rparr>"
  have run: "dict_insert d (dictionary_hash k) k v = Some ?d'"
    using d ii find_slot_spec[of 0 "length ks" ks] i by (simp add: dict_insert_def)
  note ks = key_slot_set[OF d(9) ii new]
  have r': "dict_rep ?d' (ks[i := Some k]) (vs[i := v]) (hs[i := dictionary_hash k])"
    unfolding dict_rep_def using d(1-8) ks(1) length_filter_set[OF ii, of k] hashes_set[OF d(10,6)]
    by auto
  have "dict_map ?d' k' = ((dict_map d)(k \<mapsto> v)) k'" for k'
    using key_slot_Some[of ks k'] d(5) ii
    unfolding dict_map_rep[OF r'] dict_map_rep[OF r] by (cases "key_slot ks k'") (auto simp: ks(2) nth_list_update)
  moreover have "d_n ?d' = d_n d + 1" by simp
  ultimately show ?thesis using run r' unfolding dict_inv_def by blast
qed

lemma distinct_keys_append: "distinct_keys ks \<Longrightarrow> distinct_keys (ks @ replicate m None)"
  by (simp add: distinct_keys_def)

lemma key_slot_append:
  assumes "distinct_keys ks"
  shows "key_slot (ks @ replicate m None) k = key_slot ks k"
proof (cases "key_slot ks k")
  case None
  moreover from this have "key_slot (ks @ replicate m None) k = None" unfolding key_slot_None by auto
  ultimately show ?thesis by simp
next
  case (Some i)
  from key_slot_unique[OF distinct_keys_append[OF assms], of i m k] key_slot_Some[OF Some] Some
  show ?thesis by (simp add: nth_append)
qed

lemma dict_grow_ok:
  assumes r: "dict_rep d ks vs hs" and small: "16 * d_size d < 2 ^ 31"
  shows "\<exists>d'. dict_grow (True, True, True) d = Some (True, d') \<and>
    dict_rep d' (ks @ replicate (length ks) None) (vs @ replicate (length vs) None) (hs @ replicate (length hs) 0) \<and>
    dict_map d' = dict_map d \<and> d_n d' = d_n d"
proof -
  have d: "d_key d = Some ks" "d_val d = Some vs" "d_hash d = Some hs" "d_size d = int (length ks)"
      "length vs = length ks" "length hs = length ks" "0 < length ks"
      "d_n d = int (length (filter (\<lambda>x. x \<noteq> None) ks))" "distinct_keys ks"
      "\<And>i k. i < length ks \<Longrightarrow> ks ! i = Some k \<Longrightarrow> hs ! i = dictionary_hash k"
    using r by (auto simp: dict_rep_def)
  let ?ks = "ks @ replicate (length ks) None" and ?vs = "vs @ replicate (length vs) None"
    and ?hs = "hs @ replicate (length hs) 0"
  let ?d' = "d\<lparr>d_val := Some ?vs, d_key := Some ?ks, d_hash := Some ?hs, d_size := 2 * d_size d\<rparr>"
  have "dict_grow (True, True, True) d = Some (True, ?d')"
    using d(1-6) small by (simp add: dict_grow_def mem_double_def Let_def)
  moreover have r': "dict_rep ?d' ?ks ?vs ?hs"
    unfolding dict_rep_def using d by (auto simp: distinct_keys_def nth_append split: if_splits)
  moreover have "dict_map ?d' k = dict_map d k" for k
    using key_slot_Some[of ks k] d(5)
    unfolding dict_map_rep[OF r'] dict_map_rep[OF r] by (cases "key_slot ks k") (auto simp: key_slot_append[OF d(9)] nth_append)
  moreover have "d_n ?d' = d_n d" by simp
  ultimately show ?thesis by blast
qed

lemma full_iff: "length (filter P xs) = length xs \<longleftrightarrow> (\<forall>x \<in> set xs. P x)"
  using length_filter_less[of _ xs P] by (auto simp: filter_id_conv) (metis filter_id_conv length_filter_less less_irrefl)

lemma dict_set_ok:
  assumes inv: "dict_inv d"
    and grow: "d_n d = d_size d \<Longrightarrow> oks = (True, True, True) \<and> 16 * d_size d < 2 ^ 31"
  shows "\<exists>d'. dict_set oks d k v = Some (0, d') \<and> dict_inv d' \<and> dict_map d' = (dict_map d)(k \<mapsto> v) \<and>
    d_n d' \<le> d_n d + 1"
proof -
  obtain ks vs hs where r: "dict_rep d ks vs hs" using inv by (auto simp: dict_inv_def)
  then have d: "d_key d = Some ks" "d_val d = Some vs" "d_hash d = Some hs" "d_size d = int (length ks)"
      "length vs = length ks" "length hs = length ks" "0 < length ks"
      "d_n d = int (length (filter (\<lambda>x. x \<noteq> None) ks))" "distinct_keys ks"
    by (auto simp: dict_rep_def)
  have search: "(if d_n d > 0 then find_key d (dictionary_hash k) k (nat (d_size d)) 0 else Some (nat (d_size d))) =
      Some (case key_slot ks k of Some j \<Rightarrow> j | None \<Rightarrow> length ks)"
  proof (cases "d_n d > 0")
    case True
    with find_key_slot[OF r, of k] d(4) show ?thesis by simp
  next
    case False
    then have "\<forall>x \<in> set ks. x = None" using d(8) by (simp add: filter_empty_conv)
    then have "key_slot ks k = None" unfolding key_slot_None by auto
    with False d(4) show ?thesis by simp
  qed
  show ?thesis
  proof (cases "key_slot ks k")
    case (Some i)
    note i = key_slot_Some[OF Some]
    let ?d' = "d\<lparr>d_val := Some (vs[i := v])\<rparr>"
    have run: "dict_set oks d k v = Some (0, ?d')"
      using search i d by (simp add: dict_set_def Let_def Some)
    have r': "dict_rep ?d' ks (vs[i := v]) hs" using r by (simp add: dict_rep_def)
    have "dict_map ?d' k' = ((dict_map d)(k \<mapsto> v)) k'" for k'
    proof (cases "key_slot ks k'")
      case None
      with Some show ?thesis unfolding dict_map_rep[OF r'] dict_map_rep[OF r] by auto
    next
      case (Some j)
      then have "j = i \<longleftrightarrow> k' = k" using key_slot_Some[OF Some] i \<open>key_slot ks k = Some i\<close> by auto
      with Some i d(5) key_slot_Some[OF Some] show ?thesis
        unfolding dict_map_rep[OF r'] dict_map_rep[OF r] by (auto simp: nth_list_update)
    qed
    then have "dict_map ?d' = (dict_map d)(k \<mapsto> v)" by (rule ext)
    moreover have "d_n ?d' \<le> d_n d + 1" by simp
    ultimately show ?thesis using run r' unfolding dict_inv_def by blast
  next
    case None
    then have new: "Some k \<notin> set ks" by (simp add: key_slot_None)
    show ?thesis
    proof (cases "d_n d = d_size d")
      case True
      obtain d1 where d1: "dict_grow (True, True, True) d = Some (True, d1)"
          "dict_rep d1 (ks @ replicate (length ks) None) (vs @ replicate (length vs) None) (hs @ replicate (length hs) 0)"
          "dict_map d1 = dict_map d" "d_n d1 = d_n d"
        using dict_grow_ok[OF r] grow[OF True] by blast
      have "\<exists>d'. dict_insert d1 (dictionary_hash k) k v = Some d' \<and> dict_inv d' \<and> dict_map d' = (dict_map d1)(k \<mapsto> v) \<and>
          d_n d' = d_n d1 + 1"
        by (rule dict_insert_ok[OF d1(2)]) (use new d(7) in auto)
      with d1 grow[OF True] True search None d(4) show ?thesis by (auto simp: dict_set_def Let_def)
    next
      case False
      then have "\<not> (\<forall>x \<in> set ks. x \<noteq> None)" using d(4,8) full_iff[of "\<lambda>x. x \<noteq> None" ks] by simp
      then have "None \<in> set ks" by auto
      from dict_insert_ok[OF r new this, of v] False search None d(4) show ?thesis
        by (auto simp: dict_set_def Let_def)
    qed
  qed
qed

lemma dict_unset_ok:
  assumes inv: "dict_inv d"
  shows "\<exists>d'. dict_unset d k = Some d' \<and> dict_inv d' \<and> dict_map d' = (dict_map d)(k := None)"
proof -
  obtain ks vs hs where r: "dict_rep d ks vs hs" using inv by (auto simp: dict_inv_def)
  then have d: "d_key d = Some ks" "d_val d = Some vs" "d_hash d = Some hs" "d_size d = int (length ks)"
      "length vs = length ks" "length hs = length ks" "0 < length ks"
      "d_n d = int (length (filter (\<lambda>x. x \<noteq> None) ks))" "distinct_keys ks"
      "\<And>i k. i < length ks \<Longrightarrow> ks ! i = Some k \<Longrightarrow> hs ! i = dictionary_hash k"
    by (auto simp: dict_rep_def)
  show ?thesis
  proof (cases "key_slot ks k")
    case None
    then have "dict_map d k = None" by (simp add: dict_map_rep[OF r])
    then have "(dict_map d)(k := None) = dict_map d" by auto
    with None inv find_key_slot[OF r, of k] d(4) show ?thesis by (simp add: dict_unset_def)
  next
    case (Some i)
    note i = key_slot_Some[OF Some]
    let ?d' = "d\<lparr>d_key := Some (ks[i := None]), d_val := Some (vs[i := None]),
                 d_hash := Some (hs[i := 0]), d_n := d_n d - 1\<rparr>"
    have run: "dict_unset d k = Some ?d'"
      using find_key_slot[OF r, of k] i d by (simp add: dict_unset_def Some)
    note ks = key_slot_unset[OF d(9), of i k]
    have r': "dict_rep ?d' (ks[i := None]) (vs[i := None]) (hs[i := 0])"
      unfolding dict_rep_def using d(1-8) ks(1) i length_filter_unset[of i ks] hashes_unset[OF d(10)]
      by auto
    have "dict_map ?d' k' = ((dict_map d)(k := None)) k'" for k'
      using key_slot_Some[of ks k'] d(5) i ks(2)[of k']
      unfolding dict_map_rep[OF r'] dict_map_rep[OF r] by (cases "key_slot ks k'") (auto simp: nth_list_update)
    with run r' show ?thesis unfolding dict_inv_def by blast
  qed
qed

lemma dictionary_new_ok: "dict_inv (dictionary_new sz) \<and> dict_map (dictionary_new sz) = Map.empty"
proof -
  define m where "m = nat (if sz < DICTMINSZ then DICTMINSZ else sz)"
  have m: "0 < m" "dictionary_new sz = \<lparr>d_n = 0, d_size = int m, d_val = Some (replicate m None),
      d_key = Some (replicate m None), d_hash = Some (replicate m 0)\<rparr>"
    by (auto simp: m_def dictionary_new_def DICTMINSZ_def Let_def)
  have "dict_rep (dictionary_new sz) (replicate m None) (replicate m None) (replicate m 0)"
    using m by (auto simp: dict_rep_def distinct_keys_def)
  moreover from this have "dict_map (dictionary_new sz) k = None" for k
    using key_slot_None[of "replicate m None" k] by (simp add: dict_map_rep)
  ultimately show ?thesis unfolding dict_inv_def by blast
qed

text \<open>
  When one of the three arrays cannot be doubled the entry is refused, and the
  dictionary has lost an array: every later lookup dereferences NULL.
\<close>

lemma dict_set_no_memory:
  assumes inv: "dict_inv d" and full: "d_n d = d_size d" "16 * d_size d < 2 ^ 31" and new: "dict_map d k = None"
  shows "\<exists>d'. dict_set (True, False, True) d k v = Some (- 1, d') \<and> dictionary_get d' k' def = None"
proof -
  obtain ks vs hs where r: "dict_rep d ks vs hs" using inv by (auto simp: dict_inv_def)
  then have d: "d_key d = Some ks" "d_val d = Some vs" "d_hash d = Some hs" "d_size d = int (length ks)"
      "length vs = length ks" "length hs = length ks" "0 < length ks"
    by (auto simp: dict_rep_def)
  have none: "key_slot ks k = None" using new by (simp add: dict_map_rep[OF r])
  let ?d' = "d\<lparr>d_val := Some (vs @ replicate (length vs) None), d_key := None,
               d_hash := Some (hs @ replicate (length hs) 0)\<rparr>"
  have "dict_set (True, False, True) d k v = Some (- 1, ?d')"
    using find_key_slot[OF r, of k] none d full by (simp add: dict_set_def dict_grow_def mem_double_def Let_def)
  moreover obtain m where "nat (d_size d) = Suc m" using d(4,7) by (cases "nat (d_size d)") auto
  then have "dictionary_get ?d' k' def = None" by (simp add: dictionary_get_def)
  ultimately show ?thesis by blast
qed

section \<open>The contract of a string map\<close>

text \<open>
  What the configuration relies on.  \<open>room m d\<close>: the map can take \<open>m\<close> more
  insertions.
\<close>

locale string_map =
  fixes inv :: "'d \<Rightarrow> bool"
    and room :: "nat \<Rightarrow> 'd \<Rightarrow> bool"
    and abs :: "'d \<Rightarrow> 'k \<rightharpoonup> 'v"
    and lookup :: "'d \<Rightarrow> 'k \<Rightarrow> 'v \<Rightarrow> 'v option"
    and update :: "'d \<Rightarrow> 'k \<Rightarrow> 'v \<Rightarrow> (int \<times> 'd) option"
    and remove :: "'d \<Rightarrow> 'k \<Rightarrow> 'd option"
  assumes lookup: "inv d \<Longrightarrow> lookup d k v = Some (case abs d k of None \<Rightarrow> v | Some w \<Rightarrow> w)"
    and update: "inv d \<Longrightarrow> room (Suc m) d \<Longrightarrow>
      \<exists>d'. update d k v = Some (0, d') \<and> inv d' \<and> abs d' = (abs d)(k \<mapsto> v) \<and> room m d'"
    and remove: "inv d \<Longrightarrow> \<exists>d'. remove d k = Some d' \<and> inv d' \<and> abs d' = (abs d)(k := None)"
begin

lemma lookup_update:
  assumes "inv d" "room (Suc m) d" "update d k v = Some (r, d')"
  shows "lookup d' k' w = (if k' = k then Some v else lookup d k' w)"
proof -
  have "inv d'" "abs d' = (abs d)(k \<mapsto> v)" using update[OF assms(1,2), of k v] assms(3) by auto
  with assms(1) show ?thesis by (simp add: lookup)
qed

lemma lookup_remove:
  assumes "inv d" "remove d k = Some d'"
  shows "lookup d' k' w = (if k' = k then Some w else lookup d k' w)"
proof -
  have "inv d'" "abs d' = (abs d)(k := None)" using remove[OF assms(1), of k] assms(2) by auto
  with assms(1) show ?thesis by (simp add: lookup)
qed

text \<open>Storing a list of pairs, later pairs overriding earlier ones.\<close>

fun store :: "('k \<times> 'v) list \<Rightarrow> 'd \<Rightarrow> 'd option" where
  "store [] d = Some d"
| "store ((k, v) # kvs) d = do { (_, d) \<leftarrow> update d k v; store kvs d }"

lemma store_map:
  "inv d \<Longrightarrow> room (length kvs) d \<Longrightarrow>
   \<exists>d'. store kvs d = Some d' \<and> inv d' \<and> abs d' = abs d ++ map_of (rev kvs) \<and> room 0 d'"
proof (induction kvs arbitrary: d)
  case (Cons x kvs)
  obtain k v where x: "x = (k, v)" by (cases x)
  obtain d1 where d1: "update d k v = Some (0, d1)" "inv d1" "abs d1 = (abs d)(k \<mapsto> v)" "room (length kvs) d1"
    using update[OF Cons.prems(1), of "length kvs" k v] Cons.prems(2) by auto
  from Cons.IH[OF d1(2,4)] obtain d' where d': "store kvs d1 = Some d'" "inv d'"
      "abs d' = abs d1 ++ map_of (rev kvs)" "room 0 d'"
    by blast
  have "(abs d)(k \<mapsto> v) ++ map_of (rev kvs) = abs d ++ map_of (rev (x # kvs))"
    unfolding x by (rule ext) (simp add: map_add_def split: option.splits)
  then have "abs d' = abs d ++ map_of (rev (x # kvs))" by (simp only: d'(3) d1(3))
  moreover have "store (x # kvs) d = Some d'" using d1(1) d'(1) by (simp add: x)
  ultimately show ?case using d'(2,4) by blast
qed auto

end

text \<open>
  With at most \<open>2 ^ 27\<close> entries the byte counts of the arrays stay below
  \<open>INT_MAX\<close> when they are doubled.
\<close>

definition dict_room :: "nat \<Rightarrow> dictionary \<Rightarrow> bool" where
  "dict_room m d \<longleftrightarrow> d_n d + int m \<le> 2 ^ 27"

interpretation dm: string_map dict_inv dict_room dict_map dictionary_get "dict_set (True, True, True)" dict_unset
proof (unfold_locales, goal_cases)
  case (1 d k v)
  then show ?case by (rule dictionary_get_ok)
next
  case (2 d m k v)
  then have "d_n d = d_size d \<Longrightarrow> (True, True, True) = (True, True, True) \<and> 16 * d_size d < 2 ^ 31"
    by (simp add: dict_room_def)
  from dict_set_ok[OF 2(1) this, of k v] 2(2) show ?case by (auto simp: dict_room_def)
next
  case (3 d k)
  then show ?case by (rule dict_unset_ok)
qed

section \<open>Properties\<close>

text \<open>
  C9.  \<open>dictionary_set\<close> is map update: on a well-formed dictionary, with memory to
  grow when it is full, it returns 0 and the dictionary represents the updated map, in
  every case (key present, free slot, growth).
\<close>

theorem dictionary_set_refines:
  assumes "dict_inv d"
    and "d_n d = d_size d \<longrightarrow> oks = (True, True, True) \<and> 16 * d_size d < 2 ^ 31"
  shows "\<exists>d'. dictionary_set oks (Some d) (Some k) v = Some (0, Some d') \<and> dict_inv d' \<and>
    dict_map d' = (dict_map d)(k \<mapsto> v)"
proof -
  have "d_n d = d_size d \<Longrightarrow> oks = (True, True, True) \<and> 16 * d_size d < 2 ^ 31" using assms(2) by blast
  from dict_set_ok[OF assms(1) this, of k v] show ?thesis by (auto simp: dictionary_set_def)
qed

theorem dictionary_set_refines_witness:
  "dict_inv (dictionary_new 0) \<and>
   (\<exists>d'. dictionary_set (False, False, False) (Some (dictionary_new 0)) (Some ''log.level'') (Some ''debug'')
       = Some (0, Some d') \<and> dict_inv d' \<and> dict_map d' = [''log.level'' \<mapsto> Some ''debug''])"
proof -
  have "d_n (dictionary_new 0) \<noteq> d_size (dictionary_new 0)" by (simp add: dictionary_new_def DICTMINSZ_def)
  with dictionary_set_refines[of "dictionary_new 0" "(False, False, False)"] dictionary_new_ok[of 0]
  show ?thesis by auto
qed

text \<open>
  C27.  \<open>dictionary_get\<close> returns the value the represented map has for the key, and the
  default exactly for absent keys; hash collisions cannot confuse two keys.
\<close>

theorem dictionary_get_refines:
  assumes "dict_inv d"
  shows "dictionary_get d key def = Some (case dict_map d key of None \<Rightarrow> def | Some v \<Rightarrow> v)"
  by (rule dictionary_get_ok[OF assms])

theorem dictionary_get_refines_witness:
  "dict_inv (dictionary_new 7) \<and> dictionary_get (dictionary_new 7) ''log'' (Some ''x'') = Some (Some ''x'')"
  using dictionary_get_refines[of "dictionary_new 7" "''log''" "Some ''x''"] dictionary_new_ok[of 7] by simp

text \<open>
  C34.  \<open>dictionary_unset\<close> removes exactly the given key; the order of the slots it leaves
  does not matter for later lookups.
\<close>

theorem dictionary_unset_refines:
  assumes "dict_inv d"
  shows "\<exists>d'. dictionary_unset d (Some k) = Some d' \<and> dict_inv d' \<and> dict_map d' = (dict_map d)(k := None)"
  using dict_unset_ok[OF assms, of k] by (simp add: dictionary_unset_def)

theorem dictionary_unset_refines_witness:
  "dict_inv (dictionary_new 0) \<and>
   (\<exists>d'. dictionary_unset (dictionary_new 0) (Some ''a'') = Some d' \<and> dict_map d' = Map.empty)"
  using dictionary_unset_refines[of "dictionary_new 0" "''a''"] dictionary_new_ok[of 0] by auto

text \<open>
  C14.  When the key array of a full dictionary cannot be doubled, \<open>dictionary_set\<close>
  reports the failure but has already lost the array: every later lookup, of any key,
  dereferences NULL.
\<close>

theorem dictionary_set_failed_growth:
  assumes "dict_inv d" and "d_n d = d_size d" "16 * d_size d < 2 ^ 31" and "dict_map d k = None"
  shows "\<exists>d'. dictionary_set (True, False, True) (Some d) (Some k) v = Some (- 1, Some d') \<and>
    (\<forall>k' def. dictionary_get d' k' def = None)"
proof -
  have "\<exists>d'. dict_set (True, False, True) d k v = Some (- 1, d') \<and> (\<forall>k' def. dictionary_get d' k' def = None)"
  proof -
    obtain d' where d': "dict_set (True, False, True) d k v = Some (- 1, d')"
      using dict_set_no_memory[OF assms] by blast
    have "dictionary_get d' k' def = None" for k' def
      using dict_set_no_memory[OF assms, of v k' def] d' by auto
    with d' show ?thesis by blast
  qed
  then show ?thesis by (auto simp: dictionary_set_def)
qed

definition demo_full_dict :: dictionary where
  "demo_full_dict = \<lparr>d_n = 1, d_size = 1, d_val = Some [Some ''1''], d_key = Some [Some ''a''],
     d_hash = Some [dictionary_hash ''a'']\<rparr>"

lemma demo_full_inv: "dict_inv demo_full_dict"
  unfolding dict_inv_def
  by (intro exI[of _ "[Some ''a'']"] exI[of _ "[Some ''1'']"] exI[of _ "[dictionary_hash ''a'']"])
    (simp add: dict_rep_def demo_full_dict_def distinct_keys_def)

theorem dictionary_set_failed_growth_witness:
  "dict_inv demo_full_dict \<and>
   (\<exists>d'. dictionary_set (True, False, True) (Some demo_full_dict) (Some ''b'') None = Some (- 1, Some d') \<and>
      dictionary_get d' ''a'' None = None)"
proof -
  have "dict_map demo_full_dict ''b'' = None" by (simp add: dict_map_def demo_full_dict_def key_slot_def)
  with dictionary_set_failed_growth[OF demo_full_inv, of "''b''" None] demo_full_inv show ?thesis
    by (auto simp: demo_full_dict_def)
qed

end
