(* ===== verification/Str.thy ===== *)
theory Str
  imports Fs_Prelude
begin

text \<open>
  The string functions of \<open>src/str.c\<close> and \<open>src/support.c\<close> on character
  buffers.  A buffer is a list of characters, a pointer into it an index; reading or
  writing outside the buffer has the result \<open>None\<close>.  \<open>str_at b i s\<close> says that
  the C string at index \<open>i\<close> is \<open>s\<close>, terminated inside the buffer.
\<close>

type_synonym buf = "char list"

abbreviation (input) NUL :: char where
  "NUL \<equiv> CHR 0x00"

definition str_at :: "buf \<Rightarrow> nat \<Rightarrow> string \<Rightarrow> bool" where
  "str_at b i s \<longleftrightarrow> NUL \<notin> set s \<and> (\<exists>r. i \<le> length b \<and> drop i b = s @ NUL # r)"

section \<open>The C library on buffers\<close>

text \<open>\<open>strchr\<close> and \<open>strlen\<close>, on the tail of a buffer with the index of its first character.\<close>

fun strchr_l :: "char \<Rightarrow> nat \<Rightarrow> buf \<Rightarrow> nat option option" where
  "strchr_l c i [] = None"
| "strchr_l c i (x # xs) =
     (if x = c then Some (Some i) else if x = NUL then Some None else strchr_l c (Suc i) xs)"

definition c_strchr :: "buf \<Rightarrow> nat \<Rightarrow> char \<Rightarrow> nat option option" where
  "c_strchr b i c = (if i \<le> length b then strchr_l c i (drop i b) else None)"

fun strlen_l :: "nat \<Rightarrow> buf \<Rightarrow> nat option" where
  "strlen_l n [] = None"
| "strlen_l n (x # xs) = (if x = NUL then Some n else strlen_l (Suc n) xs)"

definition c_strlen :: "buf \<Rightarrow> nat \<Rightarrow> nat option" where
  "c_strlen b i = (if i \<le> length b then strlen_l 0 (drop i b) else None)"

text \<open>\<open>tolower\<close> and \<open>islower\<close> of the C locale.\<close>

definition c_tolower :: "char \<Rightarrow> char" where
  "c_tolower c = (let n = (of_char c :: nat) in if 65 \<le> n \<and> n \<le> 90 then char_of (n + 32) else c)"

definition c_islower :: "char \<Rightarrow> bool" where
  "c_islower c = (let n = (of_char c :: nat) in 97 \<le> n \<and> n \<le> 122)"

section \<open>Bounded copies (\<open>src/support.c\<close>)\<close>

text \<open>The copying loop of \<open>strlcpy\<close>, entered with \<open>n > 0\<close>: the remaining count, the buffer and both indices.\<close>

fun lcpy_loop :: "nat \<Rightarrow> buf \<Rightarrow> buf \<Rightarrow> nat \<Rightarrow> nat \<Rightarrow> (nat \<times> buf \<times> nat \<times> nat) option" where
  "lcpy_loop 0 dst src d s = Some (0, dst, d, s)"
| "lcpy_loop (Suc n) dst src d s = do {
     c \<leftarrow> arr_get src (int s);
     dst \<leftarrow> arr_set dst (int d) c;
     if c = NUL then Some (Suc n, dst, Suc d, Suc s)
     else lcpy_loop n dst src (Suc d) (Suc s) }"

text \<open>\<open>while (*s++);\<close>\<close>

definition skip_nul :: "buf \<Rightarrow> nat \<Rightarrow> nat option" where
  "skip_nul src s = map_option (\<lambda>n. s + n + 1) (c_strlen src s)"

definition strlcpy :: "buf \<Rightarrow> buf \<Rightarrow> nat \<Rightarrow> (nat \<times> buf) option" where
  "strlcpy dst src siz = do {
     (n, dst, d, s) \<leftarrow> (if siz \<noteq> 0 \<and> siz - 1 \<noteq> 0 then lcpy_loop (siz - 1) dst src 0 0 else Some (0, dst, 0, 0));
     if n = 0 then do {
       dst \<leftarrow> (if siz \<noteq> 0 then arr_set dst (int d) NUL else Some dst);
       s \<leftarrow> skip_nul src s;
       Some (s - 1, dst) }
     else Some (s - 1, dst) }"

text \<open>The scan of \<open>strlcat\<close> for the end of \<open>dst\<close>, at most \<open>n\<close> characters.\<close>

fun lcat_scan :: "nat \<Rightarrow> buf \<Rightarrow> nat \<Rightarrow> nat option" where
  "lcat_scan 0 dst d = Some d"
| "lcat_scan (Suc n) dst d = do {
     c \<leftarrow> arr_get dst (int d);
     if c = NUL then Some d else lcat_scan n dst (Suc d) }"

fun lcat_loop :: "nat \<Rightarrow> buf \<Rightarrow> nat \<Rightarrow> buf \<Rightarrow> nat \<Rightarrow> (buf \<times> nat \<times> nat) option" where
  "lcat_loop n dst d [] s = None"
| "lcat_loop n dst d (c # cs) s =
     (if c = NUL then Some (dst, d, s)
      else if n \<noteq> 1 then do {
        dst \<leftarrow> arr_set dst (int d) c;
        lcat_loop (n - 1) dst (Suc d) cs (Suc s) }
      else lcat_loop n dst d cs (Suc s))"

definition strlcat :: "buf \<Rightarrow> buf \<Rightarrow> nat \<Rightarrow> (nat \<times> buf) option" where
  "strlcat dst src siz = do {
     dlen \<leftarrow> lcat_scan siz dst 0;
     let n = siz - dlen;
     if n = 0 then do { l \<leftarrow> c_strlen src 0; Some (dlen + l, dst) }
     else do {
       (dst, d, s) \<leftarrow> lcat_loop n dst dlen src 0;
       dst \<leftarrow> arr_set dst (int d) NUL;
       Some (dlen + s, dst) } }"

section \<open>String operations (\<open>src/str.c\<close>)\<close>

definition hex_digit :: "nat \<Rightarrow> char" where
  "hex_digit n = (''0123456789abcdef'' @ [NUL]) ! n"

fun tohex_loop :: "nat \<Rightarrow> nat \<Rightarrow> buf \<Rightarrow> buf \<Rightarrow> buf option" where
  "tohex_loop 0 i dst src = Some dst"
| "tohex_loop (Suc k) i dst src = do {
     c \<leftarrow> arr_get src (int i);
     dst \<leftarrow> arr_set dst (int (2 * i)) (hex_digit (of_char c div 16));
     dst \<leftarrow> arr_set dst (int (2 * i + 1)) (hex_digit (of_char c mod 16));
     tohex_loop k (Suc i) dst src }"

definition str_tohex :: "buf \<Rightarrow> buf \<Rightarrow> nat \<Rightarrow> buf option" where
  "str_tohex dst src len = do {
     dst \<leftarrow> tohex_loop len 0 dst src;
     arr_set dst (int (2 * len)) NUL }"

definition MAXPARA :: nat where
  "MAXPARA = 15"

text \<open>\<open>while (*next == delim) next++;\<close>\<close>

fun eat :: "char \<Rightarrow> nat \<Rightarrow> buf \<Rightarrow> nat option" where
  "eat c i [] = None"
| "eat c i (x # xs) = (if x = c then eat c (Suc i) xs else Some i)"

text \<open>
  The splitting loop of both tokenizers: \<open>limit\<close> is \<open>size\<close> or
  \<open>MAXPARA - 1\<close>, the flag of the result says that the limit was reached.
\<close>

partial_function (option) tok_loop ::
  "char \<Rightarrow> int \<Rightarrow> buf \<Rightarrow> nat \<Rightarrow> nat list \<Rightarrow> (bool \<times> buf \<times> nat list) option" where
  "tok_loop delim limit b nxt parv = do {
     c \<leftarrow> arr_get b (int nxt);
     if c = NUL then Some (False, b, parv)
     else if int (length parv) = limit then Some (True, b, parv)
     else if c = delim then do {
       b \<leftarrow> arr_set b (int nxt) NUL;
       nxt \<leftarrow> eat delim (Suc nxt) (drop (Suc nxt) b);
       c \<leftarrow> arr_get b (int nxt);
       if c = NUL then Some (False, b, parv)
       else tok_loop delim limit b nxt (parv @ [nxt]) }
     else tok_loop delim limit b (Suc nxt) parv }"

definition str_tokenize_generic ::
  "char \<Rightarrow> int \<Rightarrow> buf \<Rightarrow> nat \<Rightarrow> (buf \<times> nat list) option" where
  "str_tokenize_generic delim sz b msg = map_option snd (tok_loop delim sz b msg [msg])"

text \<open>The search of \<open>str_tokenize\<close> for a space followed by a colon; reading \<open>message[-1]\<close> is a fault.\<close>

partial_function (option) find_trailing :: "buf \<Rightarrow> nat \<Rightarrow> nat option option" where
  "find_trailing b pos = do {
     p \<leftarrow> c_strchr b pos CHR '':'';
     case p of
       None \<Rightarrow> Some None
     | Some p \<Rightarrow> do {
         c \<leftarrow> arr_get b (int p - 1);
         if c \<noteq> CHR '' '' then find_trailing b (Suc p) else Some (Some (p - 1)) } }"

definition str_tokenize :: "buf \<Rightarrow> nat \<Rightarrow> (buf \<times> nat list) option" where
  "str_tokenize b msg = do {
     t \<leftarrow> find_trailing b msg;
     (b, tr) \<leftarrow> (case t of
         None \<Rightarrow> Some (b, [])
       | Some p \<Rightarrow> do {
           b \<leftarrow> arr_set b (int p) NUL;
           b \<leftarrow> arr_set b (int p + 1) NUL;
           Some (b, [p + 2]) });
     (full, b, parv) \<leftarrow> tok_loop CHR '' '' (int MAXPARA - 1) b msg [msg];
     Some (b, if full then parv else parv @ tr) }"

text \<open>The arguments of \<open>str_parv_expand\<close> are buffers that hold one string each.\<close>

fun parv_cat :: "buf \<Rightarrow> nat \<Rightarrow> buf list \<Rightarrow> buf option" where
  "parv_cat dst mx [] = Some dst"
| "parv_cat dst mx (p # ps) = do {
     (_, dst) \<leftarrow> strlcat dst ('' '' @ [NUL]) mx;
     (_, dst) \<leftarrow> strlcat dst p mx;
     parv_cat dst mx ps }"

definition str_parv_expand :: "buf \<Rightarrow> nat \<Rightarrow> nat \<Rightarrow> buf option list \<Rightarrow> buf option" where
  "str_parv_expand dst mx initial parv = do {
     p \<leftarrow> arr_get parv (int initial);
     dst \<leftarrow> (case p of None \<Rightarrow> Some dst | Some s \<Rightarrow> map_option snd (strlcpy dst s mx));
     ps \<leftarrow> those (drop (Suc initial) parv);
     parv_cat dst mx ps }"

fun tolower_l :: "buf \<Rightarrow> buf option" where
  "tolower_l [] = None"
| "tolower_l (x # xs) = (if x = NUL then Some (x # xs) else map_option ((#) (c_tolower x)) (tolower_l xs))"

definition str_tolower :: "buf \<Rightarrow> nat \<Rightarrow> buf option" where
  "str_tolower b i = (if i \<le> length b then map_option ((@) (take i b)) (tolower_l (drop i b)) else None)"

fun islower_l :: "buf \<Rightarrow> bool option" where
  "islower_l [] = None"
| "islower_l (x # xs) = (if x = NUL then Some True else if \<not> c_islower x then Some False else islower_l xs)"

definition stris_lower :: "buf option \<Rightarrow> bool option" where
  "stris_lower s = (case s of None \<Rightarrow> Some True | Some b \<Rightarrow> islower_l b)"

definition str_strip :: "buf \<Rightarrow> nat \<Rightarrow> buf option" where
  "str_strip b i = do {
     p \<leftarrow> c_strchr b i CHR 0x0D;
     case p of
       Some c \<Rightarrow> arr_set b (int c) NUL
     | None \<Rightarrow> do {
         p \<leftarrow> c_strchr b i CHR 0x0A;
         case p of Some c \<Rightarrow> arr_set b (int c) NUL | None \<Rightarrow> Some b } }"

text \<open>A NULL argument passes the first test of \<open>str_unquote\<close> and crashes in \<open>index\<close>.\<close>

definition str_unquote :: "buf \<Rightarrow> nat option \<Rightarrow> (buf \<times> nat) option" where
  "str_unquote b str = do {
     i \<leftarrow> str;
     c \<leftarrow> arr_get b (int i);
     let i = (if c = CHR 0x22 then Suc i else i);
     p \<leftarrow> c_strchr b i CHR 0x22;
     case p of
       Some t \<Rightarrow> do { b \<leftarrow> arr_set b (int t) NUL; Some (b, i) }
     | None \<Rightarrow> Some (b, i) }"

fun ws_skip_l :: "nat \<Rightarrow> buf \<Rightarrow> nat option" where
  "ws_skip_l i [] = None"
| "ws_skip_l i (x # xs) =
     (if x \<noteq> NUL \<and> (x = CHR '' '' \<or> x = CHR 0x09) then ws_skip_l (Suc i) xs else Some i)"

definition str_whitespace_skip :: "buf \<Rightarrow> nat \<Rightarrow> nat option" where
  "str_whitespace_skip b i = (if i \<le> length b then ws_skip_l i (drop i b) else None)"

section \<open>Strings in buffers\<close>

text \<open>A buffer with \<open>t\<close> written at index \<open>d\<close>.\<close>

definition wr :: "buf \<Rightarrow> nat \<Rightarrow> string \<Rightarrow> buf" where
  "wr b d t = take d b @ t @ drop (d + length t) b"

lemma arr_set_wr: "d < length b \<Longrightarrow> arr_set b (int d) c = Some (wr b d [c])"
  by (simp add: wr_def upd_conv_take_nth_drop)

lemma wr_nil [simp]: "wr b d [] = b"
  by (simp add: wr_def)

lemma length_wr [simp]: "d + length t \<le> length b \<Longrightarrow> length (wr b d t) = length b"
  by (simp add: wr_def)

lemma wr_append:
  "d + length t + length u \<le> length b \<Longrightarrow> wr (wr b d t) (d + length t) u = wr b d (t @ u)"
  by (simp add: wr_def ac_simps)

lemma wr_Cons: "d + Suc (length t) \<le> length b \<Longrightarrow> wr (wr b d [c]) (Suc d) t = wr b d (c # t)"
  using wr_append[of d "[c]" t b] by simp

lemma strlen_l_append: "NUL \<notin> set s \<Longrightarrow> strlen_l n (s @ NUL # r) = Some (n + length s)"
  by (induction s arbitrary: n) auto

lemma c_strlen_at: "str_at b i s \<Longrightarrow> c_strlen b i = Some (length s)"
  by (auto simp: str_at_def c_strlen_def strlen_l_append)

lemma str_at_app: "NUL \<notin> set s \<Longrightarrow> str_at (x @ s @ NUL # r) (length x) s"
  by (auto simp: str_at_def)

lemma str_at_zero: "NUL \<notin> set s \<Longrightarrow> str_at (s @ NUL # r) 0 s"
  using str_at_app[of s "[]" r] by simp

lemma str_at_drop: "str_at b i (s @ t) \<Longrightarrow> str_at b (i + length s) t"
proof -
  assume "str_at b i (s @ t)"
  then obtain r where r: "NUL \<notin> set (s @ t)" "i \<le> length b" "drop i b = s @ t @ NUL # r"
    by (auto simp: str_at_def)
  have "drop (i + length s) b = drop (length s) (drop i b)" by (simp add: add.commute)
  then have "drop (i + length s) b = t @ NUL # r" by (simp add: r(3))
  moreover have "length (drop i b) = length s + length t + Suc (length r)" by (simp add: r(3))
  then have "i + length s \<le> length b" using r(2) by simp
  ultimately show ?thesis using r(1) by (auto simp: str_at_def)
qed

lemma str_at_bound: "str_at b i s \<Longrightarrow> i + length s < length b"
proof -
  assume "str_at b i s"
  then obtain r where r: "i \<le> length b" "drop i b = s @ NUL # r" by (auto simp: str_at_def)
  have "length (drop i b) = length s + Suc (length r)" by (simp add: r(2))
  with r(1) show ?thesis by simp
qed

lemma str_at_nth: "str_at b i s \<Longrightarrow> j < length s \<Longrightarrow> b ! (i + j) = s ! j"
proof -
  assume a: "str_at b i s" "j < length s"
  then obtain r where r: "i \<le> length b" "drop i b = s @ NUL # r" by (auto simp: str_at_def)
  have "b ! (i + j) = drop i b ! j" using r(1) by simp
  with a(2) show ?thesis by (simp add: r(2) nth_append)
qed

lemma str_at_end: "str_at b i s \<Longrightarrow> b ! (i + length s) = NUL"
  by (auto simp: str_at_def) (metis nth_append_length nth_drop)

section \<open>Bounded copies\<close>

lemma lcpy_loop_spec:
  assumes "NUL \<notin> set t"
  shows "drop s src = t @ NUL # r \<Longrightarrow> s \<le> length src \<Longrightarrow> d + n \<le> length dst \<Longrightarrow>
    lcpy_loop n dst src d s =
      (if length t < n then Some (n - length t, wr dst d (t @ [NUL]), d + length t + 1, s + length t + 1)
       else Some (0, wr dst d (take n t), d + n, s + n))"
  using assms
proof (induction n arbitrary: t s d dst)
  case (Suc n)
  have sl: "s < length src" using Suc.prems(1) by (cases "s < length src") auto
  then have hd: "src ! s # drop (Suc s) src = t @ NUL # r"
    using Suc.prems(1) by (simp add: Cons_nth_drop_Suc)
  show ?case
  proof (cases t)
    case Nil
    with hd have "src ! s = NUL" by simp
    with sl Suc.prems(3) Nil show ?thesis by (simp add: arr_set_wr del: arr_set_nat)
  next
    case (Cons c u)
    with hd Suc.prems(4) have c: "src ! s = c" "drop (Suc s) src = u @ NUL # r" "c \<noteq> NUL" "NUL \<notin> set u" by auto
    have "lcpy_loop (Suc n) dst src d s = lcpy_loop n (wr dst d [c]) src (Suc d) (Suc s)"
      using sl Suc.prems(3) c by (simp add: arr_set_wr del: arr_set_nat)
    moreover have "Suc d + n \<le> length (wr dst d [c])" using Suc.prems(3) by simp
    moreover note Suc.IH[OF c(2) _ this c(4)]
    moreover have "wr (wr dst d [c]) (Suc d) (take n u) = wr dst d (take (Suc n) t)"
      using Suc.prems(3) Cons by (simp add: wr_Cons)
    moreover have "wr (wr dst d [c]) (Suc d) (u @ [NUL]) = wr dst d (t @ [NUL])" if "length u < n"
      using Suc.prems(3) Cons that by (simp add: wr_Cons)
    ultimately show ?thesis using sl Cons by auto
  qed
qed (simp add: wr_def)

lemma skip_nul_spec: "str_at src s t \<Longrightarrow> skip_nul src s = Some (s + length t + 1)"
  by (simp add: skip_nul_def c_strlen_at)

lemma strlcpy_ok:
  assumes "str_at src 0 s" "siz \<le> length dst"
  shows "strlcpy dst src siz =
    Some (length s, if siz = 0 then dst else wr dst 0 (take (siz - 1) s @ [NUL]))"
proof -
  obtain r where r: "src = s @ NUL # r" and n: "NUL \<notin> set s" using assms(1) by (auto simp: str_at_def)
  show ?thesis
  proof (cases "siz \<le> 1")
    case True
    then have "siz = 0 \<or> siz = 1" by auto
    moreover have "arr_set dst 0 NUL = Some (wr dst 0 [NUL])" if "siz = 1"
      using arr_set_wr[of 0 dst NUL] assms(2) that by (cases dst) auto
    ultimately show ?thesis using skip_nul_spec[OF assms(1)] by (auto simp: strlcpy_def)
  next
    case False
    have loop: "lcpy_loop (siz - 1) dst src 0 0 =
       (if length s < siz - 1 then Some (siz - 1 - length s, wr dst 0 (s @ [NUL]), length s + 1, length s + 1)
        else Some (0, wr dst 0 (take (siz - 1) s), siz - 1, siz - 1))"
      using lcpy_loop_spec[OF n, of 0 src r 0 "siz - 1" dst] r assms(2) by simp
    show ?thesis
    proof (cases "length s < siz - 1")
      case True
      then have "\<not> siz \<le> Suc (length s)" by simp
      with True False loop show ?thesis by (simp add: strlcpy_def)
    next
      case ge: False
      let ?t = "take (siz - 1) s"
      have "str_at src (siz - 1) (drop (siz - 1) s)"
        using str_at_drop[of src 0 ?t "drop (siz - 1) s"] assms(1) ge by (simp add: min.absorb2)
      note sk = skip_nul_spec[OF this]
      have "arr_set (wr dst 0 ?t) (int (siz - 1)) NUL = Some (wr dst 0 (?t @ [NUL]))"
      proof -
        have "siz - 1 < length (wr dst 0 ?t)" using assms(2) ge False by simp
        moreover have "wr (wr dst 0 ?t) (siz - 1) [NUL] = wr dst 0 (?t @ [NUL])"
          using wr_append[of 0 ?t "[NUL]" dst] assms(2) ge False by (simp add: min.absorb2)
        ultimately show ?thesis by (simp only: arr_set_wr)
      qed
      with False ge loop sk show ?thesis by (simp add: strlcpy_def)
    qed
  qed
qed

lemma lcat_scan_spec:
  "str_at dst d t \<Longrightarrow> lcat_scan n dst d = Some (d + min n (length t))"
proof (induction n arbitrary: d t)
  case (Suc n)
  note b = str_at_bound[OF Suc.prems]
  show ?case
  proof (cases t)
    case Nil
    with str_at_end[OF Suc.prems] b show ?thesis by simp
  next
    case (Cons c u)
    have "dst ! d = c" using str_at_nth[OF Suc.prems, of 0] Cons by simp
    moreover have "c \<noteq> NUL" using Suc.prems Cons by (auto simp: str_at_def)
    moreover have "str_at dst (Suc d) u" using str_at_drop[of dst d "[c]" u] Suc.prems Cons by simp
    ultimately show ?thesis using Suc.IH b Cons by simp
  qed
qed simp

lemma lcat_loop_spec:
  "NUL \<notin> set s \<Longrightarrow> 0 < n \<Longrightarrow> d + n \<le> length dst \<Longrightarrow>
   lcat_loop n dst d (s @ NUL # r) k = Some (wr dst d (take (n - 1) s), d + min (n - 1) (length s), k + length s)"
proof (induction s arbitrary: n d dst k)
  case (Cons c s)
  show ?case
  proof (cases "n = 1")
    case True
    with Cons show ?thesis by auto
  next
    case False
    have "lcat_loop n dst d ((c # s) @ NUL # r) k = lcat_loop (n - 1) (wr dst d [c]) (Suc d) (s @ NUL # r) (Suc k)"
      using False Cons.prems by (auto simp: arr_set_wr simp del: arr_set_nat)
    also have "\<dots> = Some (wr (wr dst d [c]) (Suc d) (take (n - 2) s), Suc d + min (n - 2) (length s), Suc k + length s)"
      using Cons.IH[of "n - 1" "Suc d" "wr dst d [c]" "Suc k"] Cons.prems False by (simp add: numeral_2_eq_2)
    also have "wr (wr dst d [c]) (Suc d) (take (n - 2) s) = wr dst d (take (n - 1) (c # s))"
    proof -
      have "take (n - 1) (c # s) = c # take (n - 2) s" using False Cons.prems(2) by (cases n) (auto simp: take_Cons' numeral_2_eq_2)
      then show ?thesis using wr_Cons[of d "take (n - 2) s" dst c] Cons.prems False by simp
    qed
    finally show ?thesis using False Cons.prems(2) by simp
  qed
qed simp

text \<open>\<open>strlcat\<close> on a terminated destination.\<close>

lemma strlcat_ok:
  assumes dst: "str_at dst 0 t" "length t < siz" "siz \<le> length dst" and src: "str_at src 0 s"
  shows "strlcat dst src siz = Some (length t + length s, wr dst (length t) (take (siz - length t - 1) s @ [NUL]))"
proof -
  obtain r where r: "src = s @ NUL # r" "NUL \<notin> set s" using src by (auto simp: str_at_def)
  let ?k = "siz - length t - 1"
  have l: "lcat_loop (siz - length t) dst (length t) src 0 =
      Some (wr dst (length t) (take ?k s), length t + min ?k (length s), length s)"
    using lcat_loop_spec[OF r(2), of "siz - length t" "length t" dst r 0] dst r(1) by simp
  have b: "length t + min ?k (length s) < length dst" using dst(2,3) by linarith
  have "arr_set (wr dst (length t) (take ?k s)) (int (length t + min ?k (length s))) NUL =
      Some (wr (wr dst (length t) (take ?k s)) (length t + min ?k (length s)) [NUL])"
    by (rule arr_set_wr) (use b in simp)
  also have "wr (wr dst (length t) (take ?k s)) (length t + min ?k (length s)) [NUL] = wr dst (length t) (take ?k s @ [NUL])"
    using wr_append[of "length t" "take ?k s" "[NUL]" dst] b by (simp add: min.commute)
  finally have st: "arr_set (wr dst (length t) (take ?k s)) (int (length t + min ?k (length s))) NUL =
      Some (wr dst (length t) (take ?k s @ [NUL]))" .
  show ?thesis
    using lcat_scan_spec[OF dst(1), of siz] dst(2) l st unfolding strlcat_def by (simp add: Let_def del: of_nat_add)
qed

lemma strlcat_full:
  assumes dst: "str_at dst 0 t" "siz \<le> length t" and src: "str_at src 0 s"
  shows "strlcat dst src siz = Some (siz + length s, dst)"
  using lcat_scan_spec[OF dst(1), of siz] dst(2) c_strlen_at[OF src] by (simp add: strlcat_def Let_def)

lemma str_at_wr:
  assumes "NUL \<notin> set t" "length t < length b"
  shows "str_at (wr b 0 (t @ [NUL])) 0 t"
  using assms by (auto simp: str_at_def wr_def)

lemma wr_extend:
  assumes "str_at b 0 t" "NUL \<notin> set u" "length t + length u < length b"
  shows "str_at (wr b (length t) (u @ [NUL])) 0 (t @ u)"
proof -
  obtain r where "b = t @ NUL # r" "NUL \<notin> set t" using assms(1) by (auto simp: str_at_def)
  with assms(2) show ?thesis by (auto simp: str_at_def wr_def)
qed

text \<open>
  Joining arguments: the destination holds the arguments joined by spaces, cut off after
  \<open>max - 1\<close> characters.
\<close>

fun joined :: "string list \<Rightarrow> string" where
  "joined [] = []"
| "joined (p # ps) = CHR '' '' # p @ joined ps"

lemma strlcat_cut:
  assumes t: "str_at dst 0 (take (mx - 1) t)" and mx: "0 < mx" "mx \<le> length dst" and src: "str_at src 0 s"
  shows "\<exists>n dst'. strlcat dst src mx = Some (n, dst') \<and> str_at dst' 0 (take (mx - 1) (t @ s)) \<and> length dst' = length dst"
proof -
  have s: "NUL \<notin> set s" using src by (auto simp: str_at_def)
  have lt: "length (take (mx - 1) t) < mx" using mx by auto
  let ?k = "mx - length (take (mx - 1) t) - 1"
  have run: "strlcat dst src mx = Some (length (take (mx - 1) t) + length s,
      wr dst (length (take (mx - 1) t)) (take ?k s @ [NUL]))"
    by (rule strlcat_ok[OF t lt mx(2) src])
  have "length (take (mx - 1) t) + length (take ?k s) < length dst" using mx by auto
  then have "str_at (wr dst (length (take (mx - 1) t)) (take ?k s @ [NUL])) 0 (take (mx - 1) t @ take ?k s)"
    using s by (intro wr_extend[OF t]) (auto dest: in_set_takeD)
  moreover have "take (mx - 1) t @ take ?k s = take (mx - 1) (t @ s)" using mx by (cases "length t < mx") auto
  moreover have "length (wr dst (length (take (mx - 1) t)) (take ?k s @ [NUL])) = length dst"
    using mx by (intro length_wr) auto
  ultimately show ?thesis using run by auto
qed

lemma parv_cat_ok:
  "str_at dst 0 (take (mx - 1) t) \<Longrightarrow> 0 < mx \<Longrightarrow> mx \<le> length dst \<Longrightarrow> list_all2 (\<lambda>b s. str_at b 0 s) ps ss \<Longrightarrow>
   \<exists>dst'. parv_cat dst mx ps = Some dst' \<and> str_at dst' 0 (take (mx - 1) (t @ joined ss)) \<and> length dst' = length dst"
proof (induction ps arbitrary: dst t ss)
  case (Cons p ps)
  then obtain s ss' where ss: "ss = s # ss'" "str_at p 0 s" "list_all2 (\<lambda>b s. str_at b 0 s) ps ss'"
    by (cases ss) auto
  have sp: "str_at ('' '' @ [NUL]) 0 '' ''" using str_at_zero[of "'' ''" "[]"] by simp
  obtain n1 d1 where d1: "strlcat dst ('' '' @ [NUL]) mx = Some (n1, d1)" "str_at d1 0 (take (mx - 1) (t @ '' ''))"
      "length d1 = length dst"
    using strlcat_cut[OF Cons.prems(1-3) sp] by blast
  obtain n2 d2 where d2: "strlcat d1 p mx = Some (n2, d2)" "str_at d2 0 (take (mx - 1) ((t @ '' '') @ s))"
      "length d2 = length d1"
    using strlcat_cut[OF d1(2) Cons.prems(2) _ ss(2)] Cons.prems(3) d1(3) by auto
  from Cons.IH[OF d2(2) Cons.prems(2) _ ss(3)] obtain d' where
    d': "parv_cat d2 mx ps = Some d'" "str_at d' 0 (take (mx - 1) (((t @ '' '') @ s) @ joined ss'))" "length d' = length d2"
    using Cons.prems(3) d1(3) d2(3) by auto
  have "((t @ '' '') @ s) @ joined ss' = t @ joined ss" by (simp add: ss(1))
  with d' d1 d2 show ?case by simp
qed auto

lemma those_map_Some: "those (map Some xs) = Some xs"
  by (induction xs) auto

lemma str_parv_expand_ok:
  assumes bs: "list_all2 (\<lambda>b s. str_at b 0 s) bs ss" and i: "i < length bs" and mx: "0 < mx" "mx \<le> length dst"
  shows "\<exists>dst'. str_parv_expand dst mx i (map Some bs) = Some dst' \<and>
    str_at dst' 0 (take (mx - 1) (ss ! i @ joined (drop (Suc i) ss))) \<and> length dst' = length dst"
proof -
  have si: "str_at (bs ! i) 0 (ss ! i)" using list_all2_nthD[OF bs i] .
  then have s: "NUL \<notin> set (ss ! i)" by (simp add: str_at_def)
  let ?d1 = "wr dst 0 (take (mx - 1) (ss ! i) @ [NUL])"
  have c: "strlcpy dst (bs ! i) mx = Some (length (ss ! i), ?d1)" using strlcpy_ok[OF si mx(2)] mx(1) by simp
  have d1: "str_at ?d1 0 (take (mx - 1) (ss ! i))" using s mx by (intro str_at_wr) (auto dest: in_set_takeD)
  have len: "length ?d1 = length dst" using mx by (intro length_wr) auto
  have "list_all2 (\<lambda>b s. str_at b 0 s) (drop (Suc i) bs) (drop (Suc i) ss)" using bs by (rule list_all2_dropI)
  from parv_cat_ok[OF d1 mx(1) _ this] len mx(2) obtain d' where
    "parv_cat ?d1 mx (drop (Suc i) bs) = Some d'" "str_at d' 0 (take (mx - 1) (ss ! i @ joined (drop (Suc i) ss)))"
    "length d' = length dst"
    by auto
  with c i show ?thesis by (simp add: str_parv_expand_def drop_map those_map_Some)
qed

section \<open>Tokenizers\<close>

text \<open>
  Splitting at a delimiter, runs of it counting once, into at most \<open>k\<close> words; the
  last of \<open>k\<close> words is what remains, unsplit.
\<close>

fun toks :: "char \<Rightarrow> nat \<Rightarrow> string \<Rightarrow> string list" where
  "toks d 0 s = [s]"
| "toks d (Suc k) s =
     (if k = 0 then [s]
      else let rest = dropWhile (\<lambda>c. c = d) (dropWhile (\<lambda>c. c \<noteq> d) s)
           in takeWhile (\<lambda>c. c \<noteq> d) s # (if rest = [] then [] else toks d k rest))"

declare toks.simps(2) [simp del]

lemma toks_one [simp]: "toks d (Suc 0) s = [s]"
  by (simp add: toks.simps)

lemma toks_nonempty: "toks d k s \<noteq> []"
  by (cases k) (auto simp: toks.simps(2) Let_def)

lemma toks_Cons_other:
  "c \<noteq> d \<Longrightarrow> 0 < k \<Longrightarrow> toks d (Suc k) (c # s) = (c # hd (toks d (Suc k) s)) # tl (toks d (Suc k) s)"
  by (simp add: toks.simps(2) Let_def)

lemma toks_Cons_delim:
  "0 < k \<Longrightarrow> toks d (Suc k) (d # s) =
     [] # (if dropWhile (\<lambda>c. c = d) s = [] then [] else toks d k (dropWhile (\<lambda>c. c = d) s))"
  by (simp add: toks.simps(2) Let_def)

lemma eat_spec:
  "d \<noteq> NUL \<Longrightarrow> NUL \<notin> set s \<Longrightarrow> eat d i (s @ NUL # r) = Some (i + length (takeWhile (\<lambda>c. c = d) s))"
  by (induction s arbitrary: i) auto

lemma str_at_cong:
  assumes "str_at b i s" "length b' = length b" "\<And>j. i \<le> j \<Longrightarrow> j \<le> i + length s \<Longrightarrow> b' ! j = b ! j"
  shows "str_at b' i s"
proof -
  note bd = str_at_bound[OF assms(1)]
  have n: "NUL \<notin> set s" using assms(1) by (simp add: str_at_def)
  have "take (length s) (drop i b') = s"
  proof (rule nth_equalityI)
    fix j assume "j < length (take (length s) (drop i b'))"
    then have "j < length s" by simp
    then show "take (length s) (drop i b') ! j = s ! j"
      using assms(2,3) bd str_at_nth[OF assms(1), of j] by simp
  qed (use bd assms(2) in simp)
  moreover have "drop (length s) (drop i b') = NUL # drop (Suc (i + length s)) b'"
  proof -
    have "b' ! (i + length s) = NUL" using str_at_end[OF assms(1)] assms(3)[of "i + length s"] by simp
    moreover have "drop (length s) (drop i b') = drop (i + length s) b'" by (simp add: add.commute)
    ultimately show ?thesis using Cons_nth_drop_Suc[of "i + length s" b'] bd assms(2) by simp
  qed
  ultimately have "drop i b' = s @ NUL # drop (Suc (i + length s)) b'"
    by (metis append_take_drop_id)
  with n bd assms(2) show ?thesis by (auto simp: str_at_def)
qed

lemma str_at_Cons: "i < length b \<Longrightarrow> b ! i = c \<Longrightarrow> c \<noteq> NUL \<Longrightarrow> str_at b (Suc i) s \<Longrightarrow> str_at b i (c # s)"
  by (auto simp: str_at_def Cons_nth_drop_Suc[symmetric])

lemma str_at_Nil: "i < length b \<Longrightarrow> b ! i = NUL \<Longrightarrow> str_at b i []"
  by (auto simp: str_at_def Cons_nth_drop_Suc[symmetric])

text \<open>What the splitting loop leaves behind, seen from the position it starts at.\<close>

definition tok_post :: "char \<Rightarrow> nat \<Rightarrow> buf \<Rightarrow> nat \<Rightarrow> string \<Rightarrow> buf \<Rightarrow> nat list \<Rightarrow> bool" where
  "tok_post d k b nxt s b' ps \<longleftrightarrow>
     length b' = length b \<and> (\<forall>j. j < nxt \<or> nxt + length s \<le> j \<longrightarrow> b' ! j = b ! j) \<and>
     str_at b' nxt (hd (toks d (Suc k) s)) \<and> list_all2 (str_at b') ps (tl (toks d (Suc k) s))"

lemma tok_loop_spec:
  assumes d: "d \<noteq> NUL"
  shows "str_at b nxt s \<Longrightarrow> int (length parv) + int k = limit \<Longrightarrow> s \<noteq> [] \<or> 0 < k \<Longrightarrow>
   \<exists>b' ps. tok_loop d limit b nxt parv = Some (int (length (parv @ ps)) = limit, b', parv @ ps) \<and>
     tok_post d k b nxt s b' ps"
proof (induction s arbitrary: b nxt parv k rule: length_induct)
  case (1 s)
  note bd = str_at_bound[OF "1.prems"(1)]
  have n: "NUL \<notin> set s" using "1.prems"(1) by (simp add: str_at_def)
  show ?case
  proof (cases s)
    case Nil
    with 1 bd str_at_end[OF "1.prems"(1)] show ?thesis
      by (subst tok_loop.simps) (auto simp: tok_post_def toks.simps(2) intro!: exI[of _ "[]"])
  next
    case (Cons c u)
    have c: "b ! nxt = c" "c \<noteq> NUL" using str_at_nth[OF "1.prems"(1), of 0] n Cons by auto
    have u: "str_at b (Suc nxt) u" using str_at_drop[of b nxt "[c]" u] "1.prems"(1) Cons by simp
    consider "k = 0" | "0 < k" "c = d" | "0 < k" "c \<noteq> d" by auto
    then show ?thesis
    proof cases
      case 1
      with "1.prems" bd c Cons show ?thesis
        by (subst tok_loop.simps) (auto simp: tok_post_def intro!: exI[of _ "[]"])
    next
      case 3
      obtain b' ps where IH: "tok_loop d limit b (Suc nxt) parv = Some (int (length (parv @ ps)) = limit, b', parv @ ps)"
          "tok_post d k b (Suc nxt) u b' ps"
        using "1.IH"[rule_format, of u b "Suc nxt" parv k] u "1.prems"(2) 3(1) Cons by auto
      have "tok_loop d limit b nxt parv = tok_loop d limit b (Suc nxt) parv"
        using c bd 3 "1.prems"(2) Cons by (subst tok_loop.simps) auto
      moreover have "tok_post d k b nxt s b' ps"
      proof -
        have "b' ! nxt = c" "length b' = length b" using IH(2) c(1) by (auto simp: tok_post_def)
        with IH(2) c(2) bd show ?thesis
          unfolding tok_post_def Cons toks_Cons_other[OF 3(2,1)] by (auto intro!: str_at_Cons)
      qed
      ultimately show ?thesis using IH(1) by (intro exI[of _ b'] exI[of _ ps] conjI) simp_all
    next
      case 2
      let ?b1 = "b[nxt := NUL]" and ?rest = "dropWhile (\<lambda>x. x = d) u"
      define nx where "nx = Suc nxt + length (takeWhile (\<lambda>x. x = d) u)"
      have u1: "str_at ?b1 (Suc nxt) u" by (rule str_at_cong[OF u]) auto
      then obtain r where r: "drop (Suc nxt) ?b1 = u @ NUL # r" "NUL \<notin> set u" by (auto simp: str_at_def)
      have rest: "str_at ?b1 nx ?rest"
        using str_at_drop[of ?b1 "Suc nxt" "takeWhile (\<lambda>x. x = d) u" ?rest] u1 by (simp add: nx_def)
      note bd1 = str_at_bound[OF rest]
      have e: "eat d (Suc nxt) (drop (Suc nxt) ?b1) = Some nx"
        unfolding r(1) nx_def by (rule eat_spec[OF d r(2)])
      have lt: "length ?rest \<le> length u" by (simp add: length_dropWhile_le)
      have tl: "length (takeWhile (\<lambda>x. x = d) u) + length ?rest = length u"
        by (metis length_append takeWhile_dropWhile_id)
      have step: "tok_loop d limit b nxt parv =
          (if ?rest = [] then Some (False, ?b1, parv) else tok_loop d limit ?b1 nx (parv @ [nx]))"
      proof (cases ?rest)
        case Nil
        with str_at_end[OF rest] have "?b1 ! nx = NUL" by simp
        with Nil show ?thesis using c bd 2 "1.prems"(2) Cons e bd1 by (subst tok_loop.simps) simp
      next
        case (Cons y ys)
        have "NUL \<notin> set ?rest" using rest by (simp add: str_at_def)
        then have "?b1 ! nx \<noteq> NUL" using str_at_nth[OF rest, of 0] Cons by auto
        with Cons show ?thesis using c bd 2 "1.prems"(2) \<open>s = c # u\<close> e bd1 by (subst tok_loop.simps) simp
      qed
      show ?thesis
      proof (cases "?rest = []")
        case True
        have "str_at ?b1 nxt []" using bd by (intro str_at_Nil) auto
        then have "tok_post d k b nxt s ?b1 []"
          unfolding tok_post_def Cons 2(2) toks_Cons_delim[OF 2(1)] using True by auto
        moreover have "(int (length parv) = limit) = False" using "1.prems"(2) 2(1) by auto
        ultimately show ?thesis using step True by (intro exI[of _ ?b1] exI[of _ "[]"]) auto
      next
        case False
        obtain b' ps where IH: "tok_loop d limit ?b1 nx (parv @ [nx]) =
              Some (int (length ((parv @ [nx]) @ ps)) = limit, b', (parv @ [nx]) @ ps)"
            "tok_post d (k - 1) ?b1 nx ?rest b' ps"
          using "1.IH"[rule_format, of ?rest ?b1 nx "parv @ [nx]" "k - 1"] rest "1.prems"(2) 2(1) Cons False lt
          by auto
        have "b' ! nxt = NUL" using IH(2) bd by (auto simp: tok_post_def nx_def)
        moreover have "length b' = length b" using IH(2) by (auto simp: tok_post_def)
        ultimately have "str_at b' nxt []" using bd by (intro str_at_Nil) auto
        moreover have "Suc (k - 1) = k" using 2(1) by simp
        moreover have ne: "toks d k ?rest \<noteq> []" by (rule toks_nonempty)
        ultimately have "tok_post d k b nxt s b' (nx # ps)"
          using IH(2) False tl nx_def unfolding tok_post_def Cons 2(2) toks_Cons_delim[OF 2(1)]
          by (auto simp: list_all2_Cons1 intro!: exI[of _ "hd (toks d k ?rest)"] exI[of _ "tl (toks d k ?rest)"])
        with step False IH(1) show ?thesis by (intro exI[of _ b'] exI[of _ "nx # ps"]) auto
      qed
    qed
  qed
qed

lemma str_tokenize_generic_ok:
  assumes "d \<noteq> NUL" "str_at b msg s" "0 < sz" "s \<noteq> [] \<or> 1 < sz"
  shows "\<exists>b' ps. str_tokenize_generic d sz b msg = Some (b', ps) \<and>
    list_all2 (str_at b') ps (toks d (nat sz) s)"
proof -
  have sz: "Suc (nat sz - 1) = nat sz" using assms(3) by simp
  obtain b' ps where *: "tok_loop d sz b msg [msg] = Some (int (length ([msg] @ ps)) = sz, b', [msg] @ ps)"
      "tok_post d (nat sz - 1) b msg s b' ps"
    using tok_loop_spec[OF assms(1,2), of "[msg]" "nat sz - 1" sz] assms(3,4) by auto
  have "toks d (nat sz) s = hd (toks d (nat sz) s) # tl (toks d (nat sz) s)"
    using toks_nonempty[of d "nat sz" s] by simp
  with *(2) sz have "list_all2 (str_at b') ([msg] @ ps) (toks d (nat sz) s)"
    unfolding tok_post_def by (metis append_Cons append_Nil list_all2_Cons)
  with *(1) show ?thesis by (auto simp: str_tokenize_generic_def)
qed

lemma takeWhile_first: "c \<notin> set p \<Longrightarrow> takeWhile (\<lambda>x. x \<noteq> c) (p @ c # q) = p"
  by (induction p) auto

lemma strchr_l_absent: "NUL \<notin> set s \<Longrightarrow> c \<notin> set s \<Longrightarrow> c \<noteq> NUL \<Longrightarrow> strchr_l c i (s @ NUL # r) = Some None"
  by (induction s arbitrary: i) auto

lemma strchr_l_first: "NUL \<notin> set p \<Longrightarrow> c \<notin> set p \<Longrightarrow> strchr_l c i (p @ c # r) = Some (Some (i + length p))"
  by (induction p arbitrary: i) auto

lemma c_strchr_absent: "str_at b i s \<Longrightarrow> c \<notin> set s \<Longrightarrow> c \<noteq> NUL \<Longrightarrow> c_strchr b i c = Some None"
  by (auto simp: str_at_def c_strchr_def strchr_l_absent)

lemma c_strchr_first: "str_at b i (p @ c # q) \<Longrightarrow> c \<notin> set p \<Longrightarrow> c_strchr b i c = Some (Some (i + length p))"
  by (auto simp: str_at_def c_strchr_def strchr_l_first)

text \<open>Cutting a string in two at a character.\<close>

lemma str_at_cut:
  assumes "str_at b i (p @ c # q)"
  shows "str_at (b[i + length p := NUL]) i p" "str_at (b[i + length p := NUL]) (Suc (i + length p)) q"
proof -
  note bd = str_at_bound[OF assms]
  obtain r where r: "NUL \<notin> set (p @ c # q)" "i \<le> length b" "drop i b = p @ c # q @ NUL # r"
    using assms by (auto simp: str_at_def)
  have "drop i (b[i + length p := NUL]) = (drop i b)[length p := NUL]" by (simp add: drop_update_swap)
  also have "\<dots> = p @ NUL # q @ NUL # r" by (simp add: r(3))
  finally have d: "drop i (b[i + length p := NUL]) = p @ NUL # q @ NUL # r" .
  with r(1,2) show "str_at (b[i + length p := NUL]) i p" by (auto simp: str_at_def)
  have "drop (Suc (i + length p)) (b[i + length p := NUL]) = drop (Suc (length p)) (drop i (b[i + length p := NUL]))"
    by (simp add: add.commute)
  then have "drop (Suc (i + length p)) (b[i + length p := NUL]) = q @ NUL # r" unfolding d by simp
  with r(1) bd show "str_at (b[i + length p := NUL]) (Suc (i + length p)) q" by (auto simp: str_at_def)
qed

lemma find_trailing_none: "str_at b i s \<Longrightarrow> CHR '':'' \<notin> set s \<Longrightarrow> find_trailing b i = Some None"
  by (subst find_trailing.simps) (simp add: c_strchr_absent)

lemma find_trailing_some:
  assumes "str_at b i (p @ '' :'' @ q)" "CHR '':'' \<notin> set p"
  shows "find_trailing b i = Some (Some (i + length p))"
proof -
  have a: "str_at b i ((p @ '' '') @ CHR '':'' # q)" using assms(1) by simp
  have "CHR '':'' \<notin> set (p @ '' '')" using assms(2) by simp
  note f = c_strchr_first[OF a this]
  have "b ! (i + length p) = CHR '' ''" using str_at_nth[OF assms(1), of "length p"] by simp
  moreover have "i + length p < length b" using str_at_bound[OF assms(1)] by simp
  moreover have "int (i + length (p @ '' '')) - 1 = int (i + length p)" by simp
  ultimately have "arr_get b (int (i + length (p @ '' '')) - 1) = Some (CHR '' '')"
    by (simp only: arr_get_nat)
  then show ?thesis using f by (subst find_trailing.simps) simp
qed

lemma str_tokenize_plain:
  assumes "str_at b msg s" "CHR '':'' \<notin> set s"
  shows "\<exists>b' ps. str_tokenize b msg = Some (b', ps) \<and> list_all2 (str_at b') ps (toks CHR '' '' 14 s)"
proof -
  obtain b' ps where *: "tok_loop CHR '' '' 14 b msg [msg] = Some (int (length ([msg] @ ps)) = 14, b', [msg] @ ps)"
      "tok_post CHR '' '' 13 b msg s b' ps"
    using tok_loop_spec[OF _ assms(1), of "CHR '' ''" "[msg]" 13 14] by auto
  have "list_all2 (str_at b') ([msg] @ ps) (toks CHR '' '' 14 s)"
    using *(2) toks_nonempty[of "CHR '' ''" 14 s] unfolding tok_post_def
    by (cases "toks CHR '' '' 14 s") (auto simp: numeral_eq_Suc)
  with *(1) show ?thesis
    using find_trailing_none[OF assms] by (auto simp: str_tokenize_def MAXPARA_def)
qed

lemma str_tokenize_trailing_ok:
  assumes s: "str_at b msg (p @ '' :'' @ q)" and p: "CHR '':'' \<notin> set p"
  shows "\<exists>b' ps. str_tokenize b msg = Some (b', ps) \<and>
    list_all2 (str_at b') ps
      (toks CHR '' '' 14 p @ (if length (toks CHR '' '' 14 p) = 14 then [] else [q]))"
proof -
  note bd = str_at_bound[OF s]
  let ?i = "msg + length p"
  let ?b1 = "b[?i := NUL]" and ?b2 = "b[?i := NUL, Suc ?i := NUL]"
  have c1: "str_at ?b1 msg p" "str_at ?b1 (Suc ?i) (CHR '':'' # q)" using str_at_cut[of b msg p "CHR '' ''" "CHR '':'' # q"] s by auto
  have q: "str_at ?b2 (Suc (Suc ?i)) q" using str_at_cut(2)[of ?b1 "Suc ?i" "[]" "CHR '':''" q] c1(2) by simp
  have p2: "str_at ?b2 msg p" by (rule str_at_cong[OF c1(1)]) auto
  obtain b' ps where *: "tok_loop CHR '' '' 14 ?b2 msg [msg] = Some (int (length ([msg] @ ps)) = 14, b', [msg] @ ps)"
      "tok_post CHR '' '' 13 ?b2 msg p b' ps"
    using tok_loop_spec[OF _ p2, of "CHR '' ''" "[msg]" 13 14] by auto
  have tk: "list_all2 (str_at b') ([msg] @ ps) (toks CHR '' '' 14 p)"
    using *(2) toks_nonempty[of "CHR '' ''" 14 p] unfolding tok_post_def
    by (cases "toks CHR '' '' 14 p") (auto simp: numeral_eq_Suc)
  then have len: "length ([msg] @ ps) = length (toks CHR '' '' 14 p)" by (rule list_all2_lengthD)
  have "str_at b' (Suc (Suc ?i)) q"
    by (rule str_at_cong[OF q]) (use *(2) in \<open>auto simp: tok_post_def\<close>)
  then have "list_all2 (str_at b') (([msg] @ ps) @ [Suc (Suc ?i)]) (toks CHR '' '' 14 p @ [q])"
    using tk by (intro list_all2_appendI) auto
  moreover have "arr_set ?b1 (int ?i + 1) NUL = Some ?b2"
  proof -
    have "int ?i + 1 = int (Suc ?i)" by simp
    moreover have "Suc ?i < length ?b1" using bd by simp
    ultimately show ?thesis by (simp only: arr_set_nat)
  qed
  moreover have "arr_set b (int ?i) NUL = Some ?b1" using bd by (intro arr_set_nat) simp
  ultimately show ?thesis
    using find_trailing_some[OF s p] *(1) tk len
    by (auto simp: str_tokenize_def MAXPARA_def simp del: of_nat_add)
qed

lemma str_tokenize_colon_first_fault:
  assumes "str_at b 0 (CHR '':'' # q)"
  shows "str_tokenize b 0 = None"
proof -
  have "c_strchr b 0 CHR '':'' = Some (Some 0)" using c_strchr_first[of b 0 "[]" "CHR '':''" q] assms by simp
  then have "find_trailing b 0 = None" by (subst find_trailing.simps) simp
  then show ?thesis by (simp add: str_tokenize_def)
qed

section \<open>The small helpers\<close>

lemma str_strip_ok:
  assumes "str_at b i s"
  shows "\<exists>b'. str_strip b i = Some b' \<and>
    str_at b' i (if CHR 0x0D \<in> set s then takeWhile (\<lambda>c. c \<noteq> CHR 0x0D) s else takeWhile (\<lambda>c. c \<noteq> CHR 0x0A) s)"
proof -
  have cut: "\<exists>b'. arr_set b (int (i + length p)) NUL = Some b' \<and> str_at b' i p" if "s = p @ c # q" for p c q
    using str_at_cut(1)[of b i p c q] assms str_at_bound[OF assms] that by (auto simp del: of_nat_add)
  have sp: "\<exists>p q. s = p @ c # q \<and> c \<notin> set p \<and> takeWhile (\<lambda>x. x \<noteq> c) s = p" if "c \<in> set s" for c
  proof -
    from split_list_first[OF that] obtain p q where "s = p @ c # q" "c \<notin> set p" by blast
    then show ?thesis using takeWhile_first[of c p q] by blast
  qed
  show ?thesis
  proof (cases "CHR 0x0D \<in> set s")
    case True
    then obtain p q where p: "s = p @ CHR 0x0D # q" "CHR 0x0D \<notin> set p" "takeWhile (\<lambda>x. x \<noteq> CHR 0x0D) s = p" using sp by blast
    with True cut[OF p(1)] c_strchr_first[of b i p "CHR 0x0D" q] assms show ?thesis by (auto simp: str_strip_def)
  next
    case cr: False
    show ?thesis
    proof (cases "CHR 0x0A \<in> set s")
      case True
      then obtain p q where p: "s = p @ CHR 0x0A # q" "CHR 0x0A \<notin> set p" "takeWhile (\<lambda>x. x \<noteq> CHR 0x0A) s = p" using sp by blast
      with cr cut[OF p(1)] c_strchr_first[of b i p "CHR 0x0A" q] c_strchr_absent[OF assms cr] assms show ?thesis
        by (auto simp: str_strip_def)
    next
      case False
      then have tw: "takeWhile (\<lambda>x. x \<noteq> CHR 0x0A) s = s" unfolding takeWhile_eq_all_conv by blast
      have "str_strip b i = Some b"
        using c_strchr_absent[OF assms cr] c_strchr_absent[OF assms False] by (simp add: str_strip_def)
      then show ?thesis unfolding tw using cr assms by simp
    qed
  qed
qed

lemma str_unquote_ok:
  assumes "str_at b i s"
  shows "\<exists>b' j. str_unquote b (Some i) = Some (b', j) \<and>
    str_at b' j (takeWhile (\<lambda>c. c \<noteq> CHR 0x22) (case s of c # cs \<Rightarrow> if c = CHR 0x22 then cs else s | [] \<Rightarrow> []))"
proof -
  let ?q = "CHR 0x22"
  have main: "\<exists>b'. (do { p \<leftarrow> c_strchr b j ?q;
        case p of Some t \<Rightarrow> do { b \<leftarrow> arr_set b (int t) NUL; Some (b, j) } | None \<Rightarrow> Some (b, j) }) = Some (b', j) \<and>
      str_at b' j (takeWhile (\<lambda>c. c \<noteq> ?q) t)" if t: "str_at b j t" for j t
  proof (cases "?q \<in> set t")
    case True
    from split_list_first[OF this] obtain p r where p: "t = p @ ?q # r" "?q \<notin> set p" by blast
    then have "takeWhile (\<lambda>c. c \<noteq> ?q) t = p" using takeWhile_first by simp
    with p t c_strchr_first[of b j p ?q r] str_at_cut(1)[of b j p ?q r] str_at_bound[OF t] show ?thesis
      by (auto simp del: of_nat_add)
  next
    case False
    then have tw: "takeWhile (\<lambda>c. c \<noteq> ?q) t = t" unfolding takeWhile_eq_all_conv by blast
    show ?thesis unfolding tw using c_strchr_absent[OF t False] t by simp
  qed
  have bd: "i < length b" using str_at_bound[OF assms] by simp
  show ?thesis
  proof (cases s)
    case Nil
    with str_at_end[OF assms] have "b ! i = NUL" by simp
    with main[OF assms] bd Nil show ?thesis by (auto simp: str_unquote_def Let_def)
  next
    case (Cons c cs)
    have c: "b ! i = c" using str_at_nth[OF assms, of 0] Cons by simp
    have cs: "str_at b (Suc i) cs" using str_at_drop[of b i "[c]" cs] assms Cons by simp
    show ?thesis using c bd main[OF assms] main[OF cs] Cons by (auto simp: str_unquote_def Let_def)
  qed
qed

lemma ws_skip_l_spec:
  "NUL \<notin> set s \<Longrightarrow> ws_skip_l i (s @ NUL # r) = Some (i + length (takeWhile (\<lambda>c. c = CHR '' '' \<or> c = CHR 0x09) s))"
  by (induction s arbitrary: i) auto

lemma str_whitespace_skip_ok:
  assumes "str_at b i s"
  shows "\<exists>j. str_whitespace_skip b i = Some j \<and> str_at b j (dropWhile (\<lambda>c. c = CHR '' '' \<or> c = CHR 0x09) s)"
proof -
  obtain r where r: "i \<le> length b" "drop i b = s @ NUL # r" "NUL \<notin> set s" using assms by (auto simp: str_at_def)
  have "str_at b (i + length (takeWhile (\<lambda>c. c = CHR '' '' \<or> c = CHR 0x09) s)) (dropWhile (\<lambda>c. c = CHR '' '' \<or> c = CHR 0x09) s)"
    by (rule str_at_drop) (simp add: assms)
  with r show ?thesis by (simp add: str_whitespace_skip_def ws_skip_l_spec)
qed

lemma drop_wr: "d + length t \<le> n \<Longrightarrow> d \<le> length b \<Longrightarrow> drop n (wr b d t) = drop n b"
  by (simp add: wr_def)

lemma tohex_loop_spec:
  "i + k \<le> length src \<Longrightarrow> 2 * (i + k) \<le> length dst \<Longrightarrow>
   tohex_loop k i dst src = Some (wr dst (2 * i)
     (concat (map (\<lambda>c. [hex_digit (of_char c div 16), hex_digit (of_char c mod 16)]) (take k (drop i src)))))"
proof (induction k arbitrary: i dst)
  case (Suc k)
  let ?c = "src ! i" and ?h = "\<lambda>c. [hex_digit (of_char c div 16), hex_digit (of_char c mod 16)]"
  have a: "arr_set dst (int (2 * i)) x = Some (wr dst (2 * i) [x])" for x
    using Suc.prems by (intro arr_set_wr) simp
  have b: "arr_set (wr dst (2 * i) [x]) (int (2 * i + 1)) y = Some (wr dst (2 * i) [x, y])" for x y
  proof -
    have "2 * i + 1 < length (wr dst (2 * i) [x])" using Suc.prems by simp
    then have "arr_set (wr dst (2 * i) [x]) (int (2 * i + 1)) y = Some (wr (wr dst (2 * i) [x]) (2 * i + 1) [y])"
      by (rule arr_set_wr)
    then show ?thesis using wr_Cons[of "2 * i" "[y]" dst x] Suc.prems by simp
  qed
  have "tohex_loop (Suc k) i dst src = tohex_loop k (Suc i) (wr dst (2 * i) (?h ?c)) src"
    using Suc.prems by (simp only: tohex_loop.simps a b arr_get_nat Option.bind.simps)
  also have "\<dots> = Some (wr (wr dst (2 * i) (?h ?c)) (2 * Suc i) (concat (map ?h (take k (drop (Suc i) src)))))"
    using Suc.prems by (intro Suc.IH) simp_all
  also have "\<dots> = Some (wr dst (2 * i) (concat (map ?h (take (Suc k) (drop i src)))))"
  proof -
    have "length (concat (map ?h xs)) = 2 * length xs" for xs by (induction xs) auto
    then have "2 * i + length (?h ?c) + length (concat (map ?h (take k (drop (Suc i) src)))) \<le> length dst"
      using Suc.prems by simp
    note w = wr_append[OF this]
    have "take (Suc k) (drop i src) = ?c # take k (drop (Suc i) src)"
      using Suc.prems by (simp add: Cons_nth_drop_Suc[symmetric])
    then show ?thesis using w by simp
  qed
  finally show ?case .
qed simp

section \<open>Properties\<close>

text \<open>
  C18.  \<open>strlcpy\<close> never writes outside the first \<open>siz\<close> characters of the
  destination, copies as much of the source as fits, terminates the copy whenever
  \<open>siz > 0\<close>, and returns the length of the source.
\<close>

theorem strlcpy_spec:
  assumes "str_at src 0 s" "siz \<le> length dst"
  shows "\<exists>dst'. strlcpy dst src siz = Some (length s, dst') \<and> length dst' = length dst \<and>
    drop siz dst' = drop siz dst \<and> (0 < siz \<longrightarrow> str_at dst' 0 (take (siz - 1) s))"
proof (cases "siz = 0")
  case True
  with strlcpy_ok[OF assms] show ?thesis by simp
next
  case False
  let ?d = "wr dst 0 (take (siz - 1) s @ [NUL])"
  have "NUL \<notin> set s" using assms(1) by (simp add: str_at_def)
  then have "str_at ?d 0 (take (siz - 1) s)"
    using assms(2) False by (intro str_at_wr) (auto dest: in_set_takeD)
  moreover have "length ?d = length dst" using assms(2) False by (intro length_wr) auto
  moreover have "drop siz ?d = drop siz dst" using False by (intro drop_wr) auto
  ultimately show ?thesis using strlcpy_ok[OF assms] False by simp
qed

theorem strlcpy_spec_witness:
  "str_at (''hello'' @ [NUL]) 0 ''hello'' \<and>
   (\<exists>d. strlcpy ''xxxxxxxx'' (''hello'' @ [NUL]) 4 = Some (5, d) \<and> str_at d 0 ''hel'')"
proof -
  have a: "str_at (''hello'' @ [NUL]) 0 ''hello''" using str_at_zero[of "''hello''" "[]"] by simp
  from strlcpy_spec[OF a, of 4 "''xxxxxxxx''"] a show ?thesis by auto
qed

text \<open>
  C36.  \<open>str_parv_expand\<close> joins the arguments from \<open>initial\<close> on with single
  spaces; the destination holds the first \<open>max - 1\<close> characters of the result, always
  terminated, for arguments of any length.
\<close>

theorem str_parv_expand_joins:
  assumes "list_all2 (\<lambda>b s. str_at b 0 s) bs ss" and "i < length bs" and "0 < mx" "mx \<le> length dst"
  shows "\<exists>dst'. str_parv_expand dst mx i (map Some bs) = Some dst' \<and>
    str_at dst' 0 (take (mx - 1) (ss ! i @ joined (drop (Suc i) ss)))"
  using str_parv_expand_ok[OF assms] by blast

theorem str_parv_expand_joins_witness:
  "\<exists>d. str_parv_expand ''zzzzzzzz'' 6 0 [Some (''ab'' @ [NUL]), Some (''cd'' @ [NUL]), Some (''ef'' @ [NUL])] = Some d \<and>
     str_at d 0 ''ab cd''"
proof -
  have "list_all2 (\<lambda>b s. str_at b 0 s) [''ab'' @ [NUL], ''cd'' @ [NUL], ''ef'' @ [NUL]] [''ab'', ''cd'', ''ef'']"
    using str_at_zero[of "''ab''" "[]"] str_at_zero[of "''cd''" "[]"] str_at_zero[of "''ef''" "[]"] by simp
  from str_parv_expand_joins[OF this, of 0 6 "''zzzzzzzz''"] show ?thesis by simp
qed

text \<open>
  C29.  \<open>str_tokenize_generic\<close> splits a terminated string in place into at most
  \<open>size\<close> words separated by runs of the delimiter: the pointers it returns point to
  exactly those words.
\<close>

theorem str_tokenize_generic_splits:
  assumes "d \<noteq> NUL" "str_at b msg s" "0 < sz" "s \<noteq> [] \<or> 1 < sz"
  shows "\<exists>b' ps. str_tokenize_generic d sz b msg = Some (b', ps) \<and>
    list_all2 (str_at b') ps (toks d (nat sz) s)"
  by (rule str_tokenize_generic_ok[OF assms])

theorem str_tokenize_generic_splits_witness:
  "\<exists>b' ps. str_tokenize_generic CHR '','' 3 (''a,,bc,d,e'' @ [NUL]) 0 = Some (b', ps) \<and>
     list_all2 (str_at b') ps [''a'', ''bc'', ''d,e'']"
proof -
  have "toks CHR '','' 3 ''a,,bc,d,e'' = [''a'', ''bc'', ''d,e'']" by (simp add: toks.simps numeral_eq_Suc)
  moreover have "nat 3 = 3" by simp
  ultimately show ?thesis
    using str_tokenize_generic_splits[of "CHR '',''" "''a,,bc,d,e'' @ [NUL]" 0 "''a,,bc,d,e''" 3]
      str_at_zero[of "''a,,bc,d,e''" "[]"] by simp
qed

text \<open>
  C33.  \<open>str_tokenize\<close> on a message with a trailing parameter: the words before
  the first space-colon, at most 14 of them, followed by the trailing text unsplit, which is
  dropped when there are already 14 words.
\<close>

theorem str_tokenize_trailing:
  assumes "str_at b msg (p @ '' :'' @ q)" and "CHR '':'' \<notin> set p"
  shows "\<exists>b' ps. str_tokenize b msg = Some (b', ps) \<and>
    list_all2 (str_at b') ps
      (toks CHR '' '' 14 p @ (if length (toks CHR '' '' 14 p) = 14 then [] else [q]))"
  by (rule str_tokenize_trailing_ok[OF assms])

theorem str_tokenize_trailing_witness:
  "\<exists>b' ps. str_tokenize (''PRIVMSG  x :hi there'' @ [NUL]) 0 = Some (b', ps) \<and>
     list_all2 (str_at b') ps [''PRIVMSG'', ''x'', ''hi there'']"
proof -
  have t: "toks CHR '' '' 14 ''PRIVMSG  x'' = [''PRIVMSG'', ''x'']" by (simp add: toks.simps numeral_eq_Suc)
  have "str_at (''PRIVMSG  x :hi there'' @ [NUL]) 0 (''PRIVMSG  x'' @ '' :'' @ ''hi there'')"
    using str_at_zero[of "''PRIVMSG  x :hi there''" "[]"] by simp
  from str_tokenize_trailing[OF this] show ?thesis unfolding t by simp
qed

text \<open>
  C19.  A message that starts with a colon makes \<open>str_tokenize\<close> read the
  character before the buffer.
\<close>

theorem str_tokenize_colon_first:
  assumes "str_at b 0 (CHR '':'' # q)"
  shows "str_tokenize b 0 = None"
  by (rule str_tokenize_colon_first_fault[OF assms])

theorem str_tokenize_colon_first_witness: "str_tokenize ('':x'' @ [NUL]) 0 = None"
  using str_tokenize_colon_first[of "'':x'' @ [NUL]" "''x''"] str_at_zero[of "'':x''" "[]"] by simp

text \<open>
  C6.  \<open>str_tohex\<close> writes two lower-case digits per byte and a terminator, and nothing
  else of the destination.
\<close>

theorem str_tohex_digits:
  assumes "len \<le> length src" "2 * len < length dst"
  shows "str_tohex dst src len =
    Some (wr dst 0 (concat (map (\<lambda>c. [hex_digit (of_char c div 16), hex_digit (of_char c mod 16)]) (take len src)) @ [NUL]))"
proof -
  let ?x = "concat (map (\<lambda>c. [hex_digit (of_char c div 16), hex_digit (of_char c mod 16)]) (take len src))"
  have l: "length ?x = 2 * len"
  proof -
    have "length (concat (map (\<lambda>c. [hex_digit (of_char c div 16), hex_digit (of_char c mod 16)]) xs)) = 2 * length xs" for xs
      by (induction xs) auto
    then show ?thesis using assms(1) by simp
  qed
  have "tohex_loop len 0 dst src = Some (wr dst 0 ?x)"
    using tohex_loop_spec[of 0 len src dst] assms by simp
  moreover have "arr_set (wr dst 0 ?x) (int (2 * len)) NUL = Some (wr dst 0 (?x @ [NUL]))"
  proof -
    have "2 * len < length (wr dst 0 ?x)" using assms l by simp
    then have "arr_set (wr dst 0 ?x) (int (2 * len)) NUL = Some (wr (wr dst 0 ?x) (2 * len) [NUL])" by (rule arr_set_wr)
    then show ?thesis using wr_append[of 0 ?x "[NUL]" dst] assms l by simp
  qed
  ultimately show ?thesis by (simp add: str_tohex_def)
qed

theorem str_tohex_digits_witness:
  "str_tohex ''.....'' [CHR 0x1F, CHR 0xA0] 2 = Some (''1fa0'' @ [NUL])"
  using str_tohex_digits[of 2 "[CHR 0x1F, CHR 0xA0]" "''.....''"]
  by (simp add: wr_def hex_digit_def numeral_2_eq_2)

end
