(* ===== verification/Timestr.thy ===== *)
theory Timestr
  imports Str "HOL-Library.Signed_Division"
begin

text \<open>
  Durations as text, \<open>src/timestr.c\<close>: \<open>nn2_timestr_to_time\<close> reads
  strings such as \<open>1d2h30m5s\<close>, \<open>nn2_time_to_timestr\<close> writes them.
  \<open>strtol0\<close> is \<open>strtol(s, NULL, 0)\<close> of the C library: leading white space, a
  sign, decimal, octal or hexadecimal digits, and saturation at the ends of
  \<open>long\<close>.  A sum that leaves the range of \<open>time_t\<close> is undefined in C and is
  \<open>None\<close> here.  The main theorem is the round trip, for negative durations too.
\<close>

section \<open>Reading and writing integers\<close>

definition c_isspace :: "char \<Rightarrow> bool" where
  "c_isspace c = (c = CHR '' '' \<or> (let n = (of_char c :: nat) in 9 \<le> n \<and> n \<le> 13))"

text \<open>The value of a digit, 36 for other characters.\<close>

definition digit_val :: "char \<Rightarrow> nat" where
  "digit_val c = (let n = of_char c in
     if 48 \<le> n \<and> n \<le> 57 then n - 48
     else if 97 \<le> n \<and> n \<le> 122 then n - 87
     else if 65 \<le> n \<and> n \<le> 90 then n - 55 else 36)"

definition digits_value :: "nat \<Rightarrow> string \<Rightarrow> nat" where
  "digits_value base s = foldl (\<lambda>a c. a * base + digit_val c) 0 (takeWhile (\<lambda>c. digit_val c < base) s)"

definition long_clamp :: "int \<Rightarrow> int" where
  "long_clamp x = max (- (2 ^ 63)) (min (2 ^ 63 - 1) x)"

definition strtol0_abs :: "string \<Rightarrow> nat" where
  "strtol0_abs s =
     (case s of
        c # s' \<Rightarrow>
          if c = CHR ''0'' then
            (case s' of
               x # h # _ \<Rightarrow> if (x = CHR ''x'' \<or> x = CHR ''X'') \<and> digit_val h < 16
                           then digits_value 16 (tl s') else digits_value 8 s
             | _ \<Rightarrow> digits_value 8 s)
          else digits_value 10 s
      | [] \<Rightarrow> 0)"

definition strtol0 :: "string \<Rightarrow> int" where
  "strtol0 s =
     (case dropWhile c_isspace s of
        [] \<Rightarrow> 0
      | c # s' \<Rightarrow> long_clamp
          (if c = CHR ''-'' then - int (strtol0_abs s')
           else if c = CHR ''+'' then int (strtol0_abs s')
           else int (strtol0_abs (c # s'))))"

fun nat_str :: "nat \<Rightarrow> string" where
  "nat_str n = (if n < 10 then [char_of (48 + n)] else nat_str (n div 10) @ [char_of (48 + n mod 10)])"

declare nat_str.simps [simp del]

definition int_str :: "int \<Rightarrow> string" where
  "int_str i = (if i < 0 then ''-'' @ nat_str (nat (- i)) else nat_str (nat i))"

section \<open>Durations\<close>

definition time_chk :: "int \<Rightarrow> int option" where
  "time_chk x = (if - (2 ^ 63) \<le> x \<and> x < 2 ^ 63 then Some x else None)"

text \<open>One unit: the text up to the letter is a count of \<open>m\<close> seconds.\<close>

definition time_unit :: "char \<Rightarrow> int \<Rightarrow> string \<times> int \<Rightarrow> (string \<times> int) option" where
  "time_unit c m x =
     (let (s, ret) = x in
      if c \<in> set s then do {
        p \<leftarrow> time_chk (strtol0 (takeWhile (\<lambda>y. y \<noteq> c) s) * m);
        ret \<leftarrow> time_chk (ret + p);
        Some (tl (dropWhile (\<lambda>y. y \<noteq> c) s), ret) }
      else Some (s, ret))"

definition nn2_timestr_to_time :: "string option \<Rightarrow> int \<Rightarrow> int option" where
  "nn2_timestr_to_time str def =
     (case str of
        None \<Rightarrow> Some def
      | Some str \<Rightarrow> do {
          x \<leftarrow> time_unit CHR ''d'' 86400 (map c_tolower str, 0);
          x \<leftarrow> time_unit CHR ''h'' 3600 x;
          (s, ret) \<leftarrow> time_unit CHR ''m'' 60 x;
          time_chk (ret + strtol0 s) })"

definition to_int32 :: "int \<Rightarrow> int" where
  "to_int32 x = sint (word_of_int x :: u32)"

definition unit_text :: "int \<Rightarrow> char \<Rightarrow> string" where
  "unit_text v c = (if v \<noteq> 0 then int_str v @ [c] else [])"

definition nn2_time_to_timestr :: "int \<Rightarrow> string" where
  "nn2_time_to_timestr itime =
     (let d = to_int32 (itime sdiv 86400);
          itime = itime smod 86400;
          h = to_int32 (itime sdiv 3600);
          itime = itime smod 3600;
          m = to_int32 (itime sdiv 60);
          s = to_int32 (itime smod 60);
          r = unit_text d CHR ''d'' @ unit_text h CHR ''h'' @ unit_text m CHR ''m'' @ unit_text s CHR ''s''
      in if r = [] then ''0s'' else r)"

section \<open>Printed integers are read back\<close>

lemma digit_val_char: "n < 10 \<Longrightarrow> digit_val (char_of (48 + n)) = n"
  by (simp add: digit_val_def Let_def)

lemma nat_str_digits: "c \<in> set (nat_str n) \<Longrightarrow> digit_val c < 10 \<and> (\<exists>k < (10 :: nat). c = char_of (48 + k))"
proof (induction n rule: nat_str.induct)
  case (1 n)
  show ?case
  proof (cases "n < 10")
    case True
    with "1.prems" digit_val_char[of n] show ?thesis by (subst (asm) nat_str.simps) auto
  next
    case False
    have m: "n mod 10 < 10" by simp
    have "c \<in> set (nat_str (n div 10)) \<or> c = char_of (48 + n mod 10)"
      using "1.prems" False by (subst (asm) nat_str.simps) auto
    then show ?thesis
    proof
      assume "c \<in> set (nat_str (n div 10))"
      with "1.IH" False show ?thesis by blast
    next
      assume "c = char_of (48 + n mod 10)"
      with digit_val_char[OF m] m show ?thesis by (intro conjI exI[of _ "n mod 10"]) simp_all
    qed
  qed
qed

lemma nat_str_value: "foldl (\<lambda>a c. a * 10 + digit_val c) 0 (nat_str n) = n"
proof (induction n rule: nat_str.induct)
  case (1 n)
  then show ?case using digit_val_char[of n] digit_val_char[of "n mod 10"]
    by (subst nat_str.simps) auto
qed

lemma nat_str_nonempty: "nat_str n \<noteq> []"
  by (subst nat_str.simps) simp

lemma nat_str_hd: "0 < n \<Longrightarrow> hd (nat_str n) \<noteq> CHR ''0''"
proof (induction n rule: nat_str.induct)
  case (1 n)
  show ?case
  proof (cases "n < 10")
    case True
    then have "char_of (48 + n) \<noteq> CHR ''0''" using "1.prems" digit_val_char[of n]
      by (auto simp: digit_val_def dest: arg_cong[of _ _ digit_val])
    with True show ?thesis by (subst nat_str.simps) simp
  next
    case False
    with 1 show ?thesis by (subst nat_str.simps) (simp add: nat_str_nonempty)
  qed
qed

text \<open>A rest that does not start with a decimal digit.\<close>

definition stops :: "string \<Rightarrow> bool" where
  "stops r = (case r of [] \<Rightarrow> True | c # _ \<Rightarrow> \<not> digit_val c < 10)"

lemma digits_value_nat_str: "stops r \<Longrightarrow> digits_value 10 (nat_str n @ r) = n"
proof -
  assume r: "stops r"
  have "takeWhile (\<lambda>c. digit_val c < 10) (nat_str n @ r) = nat_str n"
    using nat_str_digits[of _ n] r by (cases r) (auto simp: stops_def takeWhile_append)
  then show ?thesis by (simp add: digits_value_def nat_str_value)
qed

lemma strtol0_abs_nat_str: "0 < n \<Longrightarrow> stops r \<Longrightarrow> strtol0_abs (nat_str n @ r) = n"
  using nat_str_hd[of n] nat_str_nonempty[of n] digits_value_nat_str[of r n]
  by (cases "nat_str n") (auto simp: strtol0_abs_def)

lemma strtol0_int_str:
  assumes "i \<noteq> 0" "stops r" "- (2 ^ 63) \<le> i" "i < 2 ^ 63"
  shows "strtol0 (int_str i @ r) = i"
proof -
  have n: "\<not> c_isspace c \<and> c \<noteq> CHR ''-'' \<and> c \<noteq> CHR ''+''" if ck: "c \<in> set (nat_str k)" for c k
  proof -
    obtain j :: nat where j: "j < 10" "c = char_of (48 + j)" using nat_str_digits[OF ck] by blast
    then have c: "(of_char c :: nat) = 48 + j" by simp
    have "(of_char CHR ''-'' :: nat) = 45" "(of_char CHR ''+'' :: nat) = 43" "(of_char CHR '' '' :: nat) = 32" by simp_all
    with c have "c \<noteq> CHR ''-''" "c \<noteq> CHR ''+''" "c \<noteq> CHR '' ''" by auto
    with c show ?thesis by (simp add: c_isspace_def)
  qed
  show ?thesis
  proof (cases "i < 0")
    case True
    have "int_str i @ r = CHR ''-'' # nat_str (nat (- i)) @ r" using True by (simp add: int_str_def)
    moreover have "\<not> c_isspace CHR ''-''" by (simp add: c_isspace_def)
    ultimately show ?thesis
      using strtol0_abs_nat_str[of "nat (- i)" r] assms True by (simp add: strtol0_def long_clamp_def)
  next
    case False
    obtain c cs where c: "nat_str (nat i) = c # cs" using nat_str_nonempty by (cases "nat_str (nat i)") auto
    then have "\<not> c_isspace c" "c \<noteq> CHR ''-''" "c \<noteq> CHR ''+''" using n[of c "nat i"] by auto
    moreover have "int_str i @ r = c # cs @ r" using False c by (simp add: int_str_def)
    moreover have "strtol0_abs (c # cs @ r) = nat i" using strtol0_abs_nat_str[of "nat i" r] assms c False by simp
    ultimately show ?thesis using assms False by (simp add: strtol0_def long_clamp_def)
  qed
qed

section \<open>The round trip\<close>

lemma int_str_chars: "c \<in> set (int_str i) \<Longrightarrow> c = CHR ''-'' \<or> (\<exists>k < (10 :: nat). c = char_of (48 + k))"
  using nat_str_digits by (auto simp: int_str_def split: if_splits)

lemma int_str_char_code: "c \<in> set (int_str i) \<Longrightarrow> (of_char c :: nat) \<le> 57"
  using int_str_chars by fastforce

lemma int_str_no_letter: "57 < (of_char c :: nat) \<Longrightarrow> c \<notin> set (int_str i)"
  using int_str_char_code[of c i] by auto

definition is_unit :: "char \<Rightarrow> bool" where
  "is_unit c \<longleftrightarrow> c \<in> set ''dhms''"

lemma is_unit_code: "is_unit c \<Longrightarrow> 57 < (of_char c :: nat) \<and> c_tolower c = c"
  by (auto simp: is_unit_def c_tolower_def)

lemma unit_text_lower: "is_unit c \<Longrightarrow> map c_tolower (unit_text v c) = unit_text v c"
  using int_str_char_code is_unit_code[of c]
  by (fastforce simp: unit_text_def c_tolower_def Let_def intro!: map_idI)

lemma unit_text_other: "is_unit c \<Longrightarrow> is_unit c' \<Longrightarrow> c \<noteq> c' \<Longrightarrow> c' \<notin> set (unit_text v c)"
  using int_str_no_letter is_unit_code by (auto simp: unit_text_def)

lemma takeWhile_unit: "is_unit c \<Longrightarrow> takeWhile (\<lambda>y. y \<noteq> c) (int_str v @ c # r) = int_str v"
  by (rule takeWhile_first) (simp add: int_str_no_letter is_unit_code)

lemma dropWhile_unit: "is_unit c \<Longrightarrow> dropWhile (\<lambda>y. y \<noteq> c) (int_str v @ c # r) = c # r"
  using int_str_no_letter[of c v] is_unit_code[of c] by (auto simp: dropWhile_append3 dropWhile_append2)

lemma time_unit_text:
  assumes c: "is_unit c" "c \<notin> set rest" and v: "- (2 ^ 63) \<le> v" "v < 2 ^ 63"
    and b: "time_chk (v * m) \<noteq> None" "time_chk (ret + v * m) \<noteq> None"
  shows "time_unit c m (unit_text v c @ rest, ret) = Some (rest, ret + v * m)"
proof (cases "v = 0")
  case True
  with c show ?thesis by (simp add: time_unit_def unit_text_def)
next
  case False
  have s: "strtol0 (int_str v) = v" using strtol0_int_str[OF False, of "[]"] v by (simp add: stops_def)
  have t: "time_chk (v * m) = Some (v * m)" "time_chk (ret + v * m) = Some (ret + v * m)"
    using b by (auto simp: time_chk_def split: if_splits)
  show ?thesis using False c(1)
    by (simp add: time_unit_def unit_text_def takeWhile_unit dropWhile_unit s t)
qed

lemma strtol0_unit_text:
  assumes "- (2 ^ 63) \<le> v" "v < 2 ^ 63"
  shows "strtol0 (unit_text v CHR ''s'') = v"
proof (cases "v = 0")
  case True
  then show ?thesis by (simp add: unit_text_def strtol0_def)
next
  case False
  have "stops ''s''" by (simp add: stops_def digit_val_def)
  from strtol0_int_str[OF False this] assms False show ?thesis by (simp add: unit_text_def)
qed

text \<open>Reading the text of four counts.\<close>

lemma read_units:
  assumes b: "\<bar>d\<bar> < 2 ^ 31" "\<bar>h\<bar> < 2 ^ 31" "\<bar>m\<bar> < 2 ^ 31" "\<bar>s\<bar> < 2 ^ 31"
  shows "nn2_timestr_to_time (Some (unit_text d CHR ''d'' @ unit_text h CHR ''h'' @ unit_text m CHR ''m'' @ unit_text s CHR ''s'')) def
    = Some (d * 86400 + h * 3600 + m * 60 + s)"
proof -
  have u: "is_unit CHR ''d''" "is_unit CHR ''h''" "is_unit CHR ''m''" "is_unit CHR ''s''" by (simp_all add: is_unit_def)
  let ?s3 = "unit_text s CHR ''s''"
  let ?s2 = "unit_text m CHR ''m'' @ ?s3"
  let ?s1 = "unit_text h CHR ''h'' @ ?s2"
  have low: "map c_tolower (unit_text d CHR ''d'' @ ?s1) = unit_text d CHR ''d'' @ ?s1"
    using u by (simp add: unit_text_lower)
  have t1: "time_unit CHR ''d'' 86400 (unit_text d CHR ''d'' @ ?s1, 0) = Some (?s1, 0 + d * 86400)"
    by (rule time_unit_text) (use u b in \<open>auto simp: unit_text_other time_chk_def\<close>)
  have t2: "time_unit CHR ''h'' 3600 (?s1, 0 + d * 86400) = Some (?s2, 0 + d * 86400 + h * 3600)"
    by (rule time_unit_text) (use u b in \<open>auto simp: unit_text_other time_chk_def\<close>)
  have t3: "time_unit CHR ''m'' 60 (?s2, 0 + d * 86400 + h * 3600) = Some (?s3, 0 + d * 86400 + h * 3600 + m * 60)"
    by (rule time_unit_text) (use u b in \<open>auto simp: unit_text_other time_chk_def\<close>)
  have s: "strtol0 ?s3 = s" using b by (intro strtol0_unit_text) auto
  show ?thesis unfolding nn2_timestr_to_time_def option.case low t1 t2 t3 Option.bind.simps s prod.case
    using b by (auto simp: time_chk_def)
qed

lemma sdiv_parts:
  fixes t a :: int assumes "0 < a"
  shows "t sdiv a * a + t smod a = t" "\<bar>t smod a\<bar> < a" "\<bar>t sdiv a\<bar> * a \<le> \<bar>t\<bar>"
proof -
  show "t sdiv a * a + t smod a = t" by (rule sdiv_mult_smod_eq)
  show "\<bar>t smod a\<bar> < a" using assms by (auto simp: signed_modulo_int_def abs_mult sgn_if)
  have "\<bar>t\<bar> div a * a + \<bar>t\<bar> mod a = \<bar>t\<bar>" "0 \<le> \<bar>t\<bar> mod a" using assms by simp_all
  then have "\<bar>t\<bar> div a * a \<le> \<bar>t\<bar>" by linarith
  moreover have "0 \<le> \<bar>t\<bar> div a" using assms by (simp add: pos_imp_zdiv_nonneg_iff)
  ultimately show "\<bar>t sdiv a\<bar> * a \<le> \<bar>t\<bar>" using assms by (auto simp: signed_divide_int_def abs_mult sgn_if)
qed

lemma to_int32_id: "- (2 ^ 31) \<le> x \<Longrightarrow> x < 2 ^ 31 \<Longrightarrow> to_int32 x = x"
  by (simp add: to_int32_def sint_sbintrunc' signed_take_bit_int_eq_self)

lemma timestr_roundtrip:
  assumes t: "\<bar>t\<bar> < 2 ^ 31 * 86400"
  shows "nn2_timestr_to_time (Some (nn2_time_to_timestr t)) def = Some t"
proof -
  define d where "d = t sdiv 86400"
  define t1 where "t1 = t smod 86400"
  define h where "h = t1 sdiv 3600"
  define t2 where "t2 = t1 smod 3600"
  define m where "m = t2 sdiv 60"
  define s where "s = t2 smod 60"
  note p1 = sdiv_parts[of 86400 t, folded d_def t1_def] and p2 = sdiv_parts[of 3600 t1, folded h_def t2_def]
    and p3 = sdiv_parts[of 60 t2, folded m_def s_def]
  have b: "\<bar>d\<bar> < 2 ^ 31" "\<bar>h\<bar> < 2 ^ 31" "\<bar>m\<bar> < 2 ^ 31" "\<bar>s\<bar> < 2 ^ 31"
    using p1 p2 p3 t by auto
  have sum: "d * 86400 + h * 3600 + m * 60 + s = t" using p1(1) p2(1) p3(1) by simp
  have i: "to_int32 d = d" "to_int32 h = h" "to_int32 m = m" "to_int32 s = s"
    using b by (auto intro!: to_int32_id)
  let ?r = "unit_text d CHR ''d'' @ unit_text h CHR ''h'' @ unit_text m CHR ''m'' @ unit_text s CHR ''s''"
  have tx: "nn2_time_to_timestr t = (if ?r = [] then ''0s'' else ?r)"
    using i unfolding nn2_time_to_timestr_def Let_def d_def h_def m_def s_def t1_def t2_def by simp
  show ?thesis
  proof (cases "?r = []")
    case True
    then have "d = 0" "h = 0" "m = 0" "s = 0" by (auto simp: unit_text_def split: if_splits)
    then have "t = 0" using sum by simp
    moreover have "nn2_timestr_to_time (Some ''0s'') def = Some 0"
      by (simp add: nn2_timestr_to_time_def time_unit_def c_tolower_def strtol0_def c_isspace_def
          strtol0_abs_def digits_value_def digit_val_def long_clamp_def time_chk_def)
    ultimately show ?thesis using tx True by simp
  next
    case False
    then have "nn2_time_to_timestr t = ?r" unfolding tx by (simp only: if_False)
    with read_units[OF b, of def] sum show ?thesis by simp
  qed
qed

lemma nat_str_length: "n < 10 ^ k \<Longrightarrow> 0 < k \<Longrightarrow> length (nat_str n) \<le> k"
proof (induction k arbitrary: n)
  case (Suc k)
  show ?case
  proof (cases "n < 10")
    case True
    then show ?thesis by (subst nat_str.simps) simp
  next
    case False
    then have "k \<noteq> 0" using Suc.prems(1) by (cases k) auto
    moreover have "n div 10 < 10 ^ k" using Suc.prems(1) by (simp add: less_mult_imp_div_less mult.commute)
    ultimately have "length (nat_str (n div 10)) \<le> k" using Suc.IH by simp
    with False show ?thesis by (subst nat_str.simps) simp
  qed
qed simp

lemma unit_text_length: "\<bar>v\<bar> < 10 ^ k \<Longrightarrow> 0 < k \<Longrightarrow> length (unit_text v c) \<le> k + 2"
proof -
  assume v: "\<bar>v\<bar> < 10 ^ k" "0 < k"
  have "nat \<bar>v\<bar> < 10 ^ k" using v(1) by (simp add: nat_less_iff)
  from nat_str_length[OF this v(2)] show ?thesis by (auto simp: unit_text_def int_str_def)
qed

section \<open>Properties\<close>

text \<open>
  C30.  Reading back the text of a duration gives the duration, for every number of seconds,
  negative ones included, whose number of days fits an \<open>int\<close>.
\<close>

theorem timestr_round_trip:
  assumes "\<bar>t\<bar> < 2 ^ 31 * 86400"
  shows "nn2_timestr_to_time (Some (nn2_time_to_timestr t)) def = Some t"
  by (rule timestr_roundtrip[OF assms])

theorem timestr_round_trip_witness:
  "nn2_time_to_timestr (- 93784) = ''-1d-2h-3m-4s'' \<and>
   nn2_timestr_to_time (Some (nn2_time_to_timestr (- 93784))) 60 = Some (- 93784)"
proof -
  have "nn2_time_to_timestr (- 93784) = ''-1d-2h-3m-4s''"
    by (simp add: nn2_time_to_timestr_def signed_divide_int_def signed_modulo_int_def to_int32_id
        unit_text_def int_str_def nat_str.simps char_of_def bit_0)
  moreover have "nn2_timestr_to_time (Some (nn2_time_to_timestr (- 93784))) 60 = Some (- 93784)"
    by (rule timestr_round_trip) simp
  ultimately show ?thesis by simp
qed

text \<open>
  C21.  The text of a duration fits the static buffer of 64 characters with its
  terminator, although each \<open>snprintf\<close> is told that 64 characters are left.
\<close>

theorem timestr_fits_buffer: "length (nn2_time_to_timestr t) < 64"
proof -
  have i: "\<bar>to_int32 x\<bar> < 10 ^ 10" for x
    using sint_range_size[of "word_of_int x :: u32"] by (auto simp: to_int32_def word_size)
  have "length (unit_text (to_int32 x) c) \<le> 12" for x c
    using unit_text_length[OF i, of x c] by simp
  note l = this
  show ?thesis
    using l[of "t sdiv 86400" "CHR ''d''"] l[of "t smod 86400 sdiv 3600" "CHR ''h''"]
      l[of "t smod 86400 smod 3600 sdiv 60" "CHR ''m''"] l[of "t smod 86400 smod 3600 smod 60" "CHR ''s''"]
    by (simp add: nn2_time_to_timestr_def Let_def)
qed

end
