(* ===== verification/Conf.thy ===== *)
theory Conf
  imports Dictionary Timestr
begin

text \<open>
  The configuration of \<open>src/conf.c\<close> and the logger of \<open>src/logger.c\<close>.
  \<open>dconf_init\<close> reads a file in chunks of \<open>fgets\<close> and enters each
  \<open>key=value\<close> line into the dictionary; the line is processed on the 512 character
  buffer with the functions of \<open>Str\<close>.  The content of the file is an argument,
  \<open>None\<close> when it cannot be opened; the three flags are the results of the
  allocations by which the dictionary grows.
\<close>

datatype log_priority = LOG_DEBUG | LOG_INFO | LOG_HACK | LOG_WARNING | LOG_ERROR | LOG_FATAL

definition level_num :: "log_priority \<Rightarrow> nat" where
  "level_num p = (case p of LOG_DEBUG \<Rightarrow> 0 | LOG_INFO \<Rightarrow> 1 | LOG_HACK \<Rightarrow> 2 | LOG_WARNING \<Rightarrow> 3
     | LOG_ERROR \<Rightarrow> 4 | LOG_FATAL \<Rightarrow> 5)"

text \<open>Priorities are ordered as the C enumeration is.\<close>

instantiation log_priority :: linorder
begin

definition less_eq_log_priority :: "log_priority \<Rightarrow> log_priority \<Rightarrow> bool" where
  "less_eq_log_priority a b \<longleftrightarrow> level_num a \<le> level_num b"

definition less_log_priority :: "log_priority \<Rightarrow> log_priority \<Rightarrow> bool" where
  "less_log_priority a b \<longleftrightarrow> level_num a < level_num b"

instance
  by standard (auto simp: less_eq_log_priority_def less_log_priority_def level_num_def split: log_priority.splits)

end

record conf =
  cf_log_level :: log_priority
  cf_dying :: bool
  cf_dict :: "dictionary option"

section \<open>Reading the file\<close>

definition BUFSZ :: nat where
  "BUFSZ = 512"

text \<open>
  \<open>fgets\<close> with a buffer of 512 characters: the characters read, the rest of the file,
  and whether the end of the file was seen.
\<close>

definition fgets :: "string \<Rightarrow> string \<times> string \<times> bool" where
  "fgets s =
     (let t = take (BUFSZ - 1) s in
      if CHR 0x0A \<in> set t
      then (let n = Suc (length (takeWhile (\<lambda>c. c \<noteq> CHR 0x0A) t)) in (take n s, drop n s, False))
      else (t, drop (BUFSZ - 1) s, length t < BUFSZ - 1))"

definition c_str :: "buf \<Rightarrow> nat \<Rightarrow> string" where
  "c_str b i = takeWhile (\<lambda>c. c \<noteq> NUL) (drop i b)"

text \<open>The part of a line that is neither empty nor a comment.\<close>

definition conf_entry :: "bool \<times> bool \<times> bool \<Rightarrow> buf \<Rightarrow> nat \<Rightarrow> dictionary \<Rightarrow> dictionary option" where
  "conf_entry oks b p d = do {
     v \<leftarrow> c_strchr b p CHR ''='';
     (b, v) \<leftarrow> (case v of
         None \<Rightarrow> Some (b, None)
       | Some i \<Rightarrow> do { b \<leftarrow> arr_set b (int i) NUL; Some (b, Some (Suc i)) });
     (b, v) \<leftarrow> str_unquote b v;
     (r, d) \<leftarrow> dictionary_set oks (Some d) (Some (c_str b p)) (Some (c_str b v));
     d }"

text \<open>The body of the loop of \<open>dconf_init\<close>; the flag is \<open>in_comment\<close>.\<close>

definition conf_line ::
  "bool \<times> bool \<times> bool \<Rightarrow> buf \<Rightarrow> bool \<Rightarrow> dictionary \<Rightarrow> (bool \<times> dictionary) option" where
  "conf_line oks b inc d = do {
     b \<leftarrow> str_strip b 0;
     p \<leftarrow> str_whitespace_skip b 0;
     l \<leftarrow> c_strlen b p;
     if l = 0 then Some (inc, d)
     else do {
       c0 \<leftarrow> arr_get b (int p);
       c1 \<leftarrow> arr_get b (int (Suc p));
       if c0 = CHR ''*'' \<and> c1 = CHR ''/'' then Some (False, d)
       else if c0 = CHR '';'' \<or> c0 = CHR ''#'' \<or> (c0 = CHR ''/'' \<and> c1 = CHR ''/'') then Some (inc, d)
       else do {
         let inc = (if c0 = CHR ''/'' \<and> c1 = CHR ''*'' then True else inc);
         if inc then Some (inc, d)
         else do { d \<leftarrow> conf_entry oks b p d; Some (inc, d) } } } }"

definition line_buf :: "string \<Rightarrow> buf" where
  "line_buf s = s @ replicate (BUFSZ - length s) NUL"

function conf_loop ::
  "bool \<times> bool \<times> bool \<Rightarrow> string \<Rightarrow> bool \<Rightarrow> dictionary \<Rightarrow> dictionary option" where
  "conf_loop oks s inc d =
     (case fgets s of (chunk, rest, eof) \<Rightarrow>
        (case conf_line oks (line_buf chunk) inc d of
           None \<Rightarrow> None
         | Some (inc, d) \<Rightarrow> if eof then Some d else conf_loop oks rest inc d))"
  by pat_completeness auto

lemma fgets_progress: "fgets s = (chunk, rest, False) \<Longrightarrow> length rest < length s"
proof -
  assume f: "fgets s = (chunk, rest, False)"
  have "s \<noteq> []" using f by (auto simp: fgets_def BUFSZ_def Let_def)
  then show ?thesis using f by (auto simp: fgets_def BUFSZ_def Let_def split: if_splits)
qed

termination conf_loop
  by (relation "measure (\<lambda>(oks, s, inc, d). length s)") (auto dest!: fgets_progress[OF sym])

declare conf_loop.simps [simp del]

text \<open>
  \<open>dconf_init\<close>: for a file that cannot be opened it raises SIGTERM, for which no handler is
  ever started, so the process ends.
\<close>

definition dconf_init :: "bool \<times> bool \<times> bool \<Rightarrow> string option \<Rightarrow> conf \<Rightarrow> conf option" where
  "dconf_init oks file cf = do {
     s \<leftarrow> file;
     d \<leftarrow> conf_loop oks s False (dictionary_new 0);
     Some (cf\<lparr>cf_dict := Some d\<rparr>) }"

section \<open>Access\<close>

definition dconf_fini :: "conf \<Rightarrow> conf option" where
  "dconf_fini cf = do { _ \<leftarrow> dictionary_del (cf_dict cf); Some (cf\<lparr>cf_dict := None\<rparr>) }"

definition dconf_get_str :: "conf \<Rightarrow> string option \<Rightarrow> string option \<Rightarrow> string option option" where
  "dconf_get_str cf key def =
     (case (cf_dict cf, key) of
        (Some d, Some key) \<Rightarrow> dictionary_get d key def
      | _ \<Rightarrow> Some None)"

definition strcasecmp_eq :: "string \<Rightarrow> string \<Rightarrow> bool" where
  "strcasecmp_eq a b \<longleftrightarrow> map c_tolower a = map c_tolower b"

definition dconf_get_bool :: "conf \<Rightarrow> string option \<Rightarrow> int \<Rightarrow> int option" where
  "dconf_get_bool cf key def = do {
     tmp \<leftarrow> dconf_get_str cf key None;
     case tmp of
       None \<Rightarrow> Some def
     | Some s \<Rightarrow>
         Some (if strcasecmp_eq s ''true'' \<or> strcasecmp_eq s ''on'' \<or> strcasecmp_eq s ''yes''
                  \<or> to_int32 (strtol0 s) = 1 then 1
               else if strcasecmp_eq s ''false'' \<or> strcasecmp_eq s ''off'' \<or> strcasecmp_eq s ''no''
                  \<or> to_int32 (strtol0 s) = 0 then 0
               else 0) }"

definition dconf_get_int :: "conf \<Rightarrow> string option \<Rightarrow> int \<Rightarrow> int option" where
  "dconf_get_int cf key def = do {
     tmp \<leftarrow> dconf_get_str cf key None;
     case tmp of None \<Rightarrow> Some def | Some s \<Rightarrow> Some (to_int32 (strtol0 s)) }"

text \<open>\<open>atof\<close> and its floating point values are parameters.\<close>

definition dconf_get_double :: "(string \<Rightarrow> 'f) \<Rightarrow> conf \<Rightarrow> string option \<Rightarrow> 'f \<Rightarrow> 'f option" where
  "dconf_get_double atof cf key def = do {
     tmp \<leftarrow> dconf_get_str cf key None;
     case tmp of None \<Rightarrow> Some def | Some s \<Rightarrow> Some (atof s) }"

definition dconf_get_time :: "conf \<Rightarrow> string option \<Rightarrow> int \<Rightarrow> int option" where
  "dconf_get_time cf key def = do {
     tmp \<leftarrow> dconf_get_str cf key None;
     nn2_timestr_to_time tmp def }"

definition dconf_set ::
  "bool \<times> bool \<times> bool \<Rightarrow> conf \<Rightarrow> string option \<Rightarrow> string option \<Rightarrow> (int \<times> conf) option" where
  "dconf_set oks cf key val = do {
     (r, d) \<leftarrow> dictionary_set oks (cf_dict cf) key val;
     Some (r, cf\<lparr>cf_dict := d\<rparr>) }"

definition dconf_unset :: "conf \<Rightarrow> string option \<Rightarrow> conf option" where
  "dconf_unset cf key =
     (case key of
        None \<Rightarrow> Some cf
      | Some k \<Rightarrow> do {
          d \<leftarrow> cf_dict cf;
          d \<leftarrow> dictionary_unset d (Some k);
          Some (cf\<lparr>cf_dict := Some d\<rparr>) })"

section \<open>The logger\<close>

definition parse_level :: "string \<Rightarrow> log_priority \<Rightarrow> log_priority" where
  "parse_level lvl old =
     (if strcasecmp_eq lvl ''debug'' then LOG_DEBUG
      else if strcasecmp_eq lvl ''info'' then LOG_INFO
      else if strcasecmp_eq lvl ''hack'' then LOG_HACK
      else if strcasecmp_eq lvl ''warning'' then LOG_WARNING
      else if strcasecmp_eq lvl ''error'' then LOG_ERROR
      else if strcasecmp_eq lvl ''fatal'' then LOG_FATAL
      else old)"

text \<open>\<open>log_open\<close>: without a level in the configuration \<open>strcasecmp\<close> gets NULL.\<close>

definition log_open :: "conf \<Rightarrow> conf option" where
  "log_open cf = do {
     lvl \<leftarrow> dconf_get_str cf (Some ''log.level'') None;
     lvl \<leftarrow> lvl;
     Some (cf\<lparr>cf_log_level := parse_level lvl (cf_log_level cf)\<rparr>) }"

definition level_name :: "log_priority \<Rightarrow> string" where
  "level_name p = (case p of LOG_DEBUG \<Rightarrow> ''debug'' | LOG_INFO \<Rightarrow> ''info'' | LOG_WARNING \<Rightarrow> ''warning''
     | LOG_ERROR \<Rightarrow> ''error'' | LOG_FATAL \<Rightarrow> ''critical'' | LOG_HACK \<Rightarrow> ''hack'')"

text \<open>What \<open>Log\<close> appends to the log; the timestamp and the formatted message are arguments.\<close>

definition Log :: "conf \<Rightarrow> log_priority \<Rightarrow> string \<Rightarrow> string \<Rightarrow> string" where
  "Log cf priority timestamp msg =
     (if priority < cf_log_level cf then []
      else ''['' @ timestamp @ ''] '' @ level_name priority @ '': '' @ msg @ [CHR 0x0A])"

section \<open>Lines\<close>

lemma c_str_at: "str_at b i s \<Longrightarrow> c_str b i = s"
  using takeWhile_first[of NUL s] by (auto simp: str_at_def c_str_def)

lemma strchr_l_ge: "strchr_l c i xs = Some (Some t) \<Longrightarrow> i \<le> t"
proof (induction xs arbitrary: i)
  case (Cons x xs)
  then show ?case by (cases "x = c"; cases "x = NUL") (auto dest: Suc_leD)
qed simp

lemma str_unquote_frame:
  "str_unquote b (Some i) = Some (b', j) \<Longrightarrow> length b' = length b \<and> (\<forall>q < i. b' ! q = b ! q)"
  by (auto simp: str_unquote_def c_strchr_def arr_set_def Let_def split: if_splits Option.bind_splits option.splits
      dest!: strchr_l_ge)

lemma fgets_line:
  assumes "CHR 0x0A \<notin> set l" "length l < BUFSZ - 1"
  shows "fgets (l @ CHR 0x0A # rest) = (l @ [CHR 0x0A], rest, False)"
proof -
  have t: "take (BUFSZ - 1) (l @ CHR 0x0A # rest) = l @ CHR 0x0A # take (BUFSZ - 2 - length l) rest"
    using assms(2) by (simp add: take_Cons' BUFSZ_def)
  have "takeWhile (\<lambda>c. c \<noteq> CHR 0x0A) (l @ CHR 0x0A # take (BUFSZ - 2 - length l) rest) = l"
    by (rule takeWhile_first[OF assms(1)])
  then show ?thesis unfolding fgets_def Let_def t by simp
qed

lemma fgets_end: "fgets [] = ([], [], True)"
  by (simp add: fgets_def BUFSZ_def Let_def)

lemma line_buf_at: "NUL \<notin> set s \<Longrightarrow> length s < BUFSZ \<Longrightarrow> str_at (line_buf s) 0 s"
  by (cases "BUFSZ - length s") (auto simp: str_at_def line_buf_def)

text \<open>The text of a line after the end of line and the leading white space are removed.\<close>

definition line_text :: "string \<Rightarrow> string" where
  "line_text s = dropWhile (\<lambda>c. c = CHR '' '' \<or> c = CHR 0x09)
     (if CHR 0x0D \<in> set s then takeWhile (\<lambda>c. c \<noteq> CHR 0x0D) s else takeWhile (\<lambda>c. c \<noteq> CHR 0x0A) s)"

lemma conf_line_text:
  assumes "str_at b 0 s"
  obtains b' p where "str_strip b 0 = Some b'" "str_whitespace_skip b' 0 = Some p" "str_at b' p (line_text s)"
proof -
  let ?t = "if CHR 0x0D \<in> set s then takeWhile (\<lambda>c. c \<noteq> CHR 0x0D) s else takeWhile (\<lambda>c. c \<noteq> CHR 0x0A) s"
  obtain b' where b': "str_strip b 0 = Some b'" "str_at b' 0 ?t" using str_strip_ok[OF assms] by blast
  obtain p where "str_whitespace_skip b' 0 = Some p" "str_at b' p (dropWhile (\<lambda>c. c = CHR '' '' \<or> c = CHR 0x09) ?t)"
    using str_whitespace_skip_ok[OF b'(2)] by blast
  with b' that show thesis unfolding line_text_def by blast
qed

text \<open>The first two characters of a string and its terminator.\<close>

definition lead :: "string \<Rightarrow> nat \<Rightarrow> char" where
  "lead t k = (t @ [NUL]) ! k"

lemma str_at_lead: "str_at b p t \<Longrightarrow> k \<le> length t \<Longrightarrow> arr_get b (int (p + k)) = Some (lead t k)"
  using str_at_nth[of b p t k] str_at_end[of b p t] str_at_bound[of b p t]
  by (cases "k < length t") (auto simp: lead_def nth_append simp del: of_nat_add)

lemma conf_line_step:
  assumes b: "str_at b 0 s" and t: "line_text s = t"
  shows "conf_line oks b inc d =
    (if t = [] then Some (inc, d)
     else if lead t 0 = CHR ''*'' \<and> lead t 1 = CHR ''/'' then Some (False, d)
     else if lead t 0 = CHR '';'' \<or> lead t 0 = CHR ''#'' \<or> (lead t 0 = CHR ''/'' \<and> lead t 1 = CHR ''/'') then Some (inc, d)
     else if inc \<or> lead t 0 = CHR ''/'' \<and> lead t 1 = CHR ''*'' then Some (True, d)
     else map_option (Pair False)
       (conf_entry oks (the (str_strip b 0)) (the (str_whitespace_skip (the (str_strip b 0)) 0)) d))"
proof -
  obtain b' p where bp: "str_strip b 0 = Some b'" "str_whitespace_skip b' 0 = Some p" "str_at b' p t"
    using conf_line_text[OF b] t by blast
  have l: "c_strlen b' p = Some (length t)" by (rule c_strlen_at[OF bp(3)])
  show ?thesis
  proof (cases "t = []")
    case True
    with bp l show ?thesis by (simp add: conf_line_def)
  next
    case False
    then have "arr_get b' (int p) = Some (lead t 0)" "arr_get b' (int (Suc p)) = Some (lead t 1)"
      using str_at_lead[OF bp(3), of 0] str_at_lead[OF bp(3), of 1] by (cases t; simp)+
    with False bp l show ?thesis
      by (cases "conf_entry oks b' p d") (simp_all add: conf_line_def Let_def del: of_nat_Suc)
  qed
qed

lemma conf_entry_ok:
  assumes b: "str_at b p (key @ ''='' @ v)" and k: "CHR ''='' \<notin> set key"
    and d: "dict_inv d" "dict_room (Suc m) d"
    and w: "w = takeWhile (\<lambda>c. c \<noteq> CHR 0x22) (case v of c # cs \<Rightarrow> if c = CHR 0x22 then cs else v | [] \<Rightarrow> [])"
  shows "\<exists>d'. conf_entry (True, True, True) b p d = Some d' \<and> dict_inv d' \<and>
    dict_set (True, True, True) d key (Some w) = Some (0, d') \<and> dict_room m d'"
proof -
  have b1: "str_at b p (key @ CHR ''='' # v)" using b by simp
  note cut = str_at_cut[OF b1]
  let ?i = "p + length key" let ?b1 = "b[?i := NUL]"
  have f: "c_strchr b p CHR ''='' = Some (Some ?i)" by (rule c_strchr_first[OF b1 k])
  have set1: "arr_set b (int ?i) NUL = Some ?b1" using str_at_bound[OF b1] by (intro arr_set_nat) simp
  obtain b2 j where u: "str_unquote ?b1 (Some (Suc ?i)) = Some (b2, j)" "str_at b2 j w"
    using str_unquote_ok[OF cut(2)] w by blast
  have "str_at b2 p key"
  proof (rule str_at_cong[OF cut(1)])
    have e: "length b2 = length ?b1 \<and> (\<forall>q < Suc ?i. b2 ! q = ?b1 ! q)"
      by (rule str_unquote_frame[OF u(1)])
    then show "length b2 = length ?b1" by blast
    fix q assume "q \<le> p + length key"
    with e show "b2 ! q = ?b1 ! q" by (metis le_imp_less_Suc)
  qed
  then have "c_str b2 p = key" "c_str b2 j = w" using u(2) by (auto simp: c_str_at)
  moreover obtain d' where "dict_set (True, True, True) d key (Some w) = Some (0, d')" "dict_inv d'"
      "dict_room m d'"
    using dm.update[OF d, of key "Some w"] by blast
  ultimately show ?thesis using f set1 u(1)
    by (simp add: conf_entry_def dictionary_set_def del: of_nat_add)
qed

section \<open>Files\<close>

abbreviation (input) LF :: char where
  "LF \<equiv> CHR 0x0A"

text \<open>A line that fits the buffer and holds no character with a meaning of its own.\<close>

definition plain_line :: "string \<Rightarrow> bool" where
  "plain_line l \<longleftrightarrow> NUL \<notin> set l \<and> CHR 0x0D \<notin> set l \<and> LF \<notin> set l \<and> length l < BUFSZ - 1"

lemma conf_loop_line:
  assumes "plain_line l"
  shows "conf_loop oks (l @ LF # rest) inc d =
    (case conf_line oks (line_buf (l @ [LF])) inc d of
       None \<Rightarrow> None | Some (inc, d) \<Rightarrow> conf_loop oks rest inc d)"
  using assms by (subst conf_loop.simps) (simp add: fgets_line plain_line_def cong: option.case_cong)

lemma plain_line_at: "plain_line l \<Longrightarrow> str_at (line_buf (l @ [LF])) 0 (l @ [LF])"
  by (rule line_buf_at) (auto simp: plain_line_def BUFSZ_def)

lemma plain_line_text: "plain_line l \<Longrightarrow> line_text (l @ [LF]) = dropWhile (\<lambda>c. c = CHR '' '' \<or> c = CHR 0x09) l"
proof -
  assume l: "plain_line l"
  then have "takeWhile (\<lambda>c. c \<noteq> LF) (l @ [LF]) = l" by (intro takeWhile_first) (simp add: plain_line_def)
  moreover have "CHR 0x0D \<notin> set (l @ [LF])" using l by (auto simp: plain_line_def)
  ultimately show ?thesis unfolding line_text_def by (simp only: if_False)
qed

lemma conf_loop_end: "conf_loop oks [] inc d = Some d"
proof -
  have "str_at (line_buf []) 0 []" by (rule line_buf_at) (simp_all add: BUFSZ_def)
  moreover have "line_text [] = []" by (simp add: line_text_def)
  ultimately have "conf_line oks (line_buf []) inc d = Some (inc, d)" by (simp add: conf_line_step)
  then show ?thesis by (subst conf_loop.simps) (simp add: fgets_end)
qed

text \<open>A configuration file as its author thinks of it: entries with quoted values, and remarks.\<close>

datatype conf_item = Entry string string | Remark string

fun item_line :: "conf_item \<Rightarrow> string" where
  "item_line (Entry k v) = k @ ''='' @ [CHR 0x22] @ v @ [CHR 0x22]"
| "item_line (Remark r) = ''#'' @ r"

fun item_ok :: "conf_item \<Rightarrow> bool" where
  "item_ok (Entry k v) =
     (k \<noteq> [] \<and> hd k \<notin> set '' ;#*/'' \<and> hd k \<noteq> CHR 0x09 \<and> CHR ''='' \<notin> set k \<and> CHR 0x22 \<notin> set v \<and>
      plain_line (item_line (Entry k v)))"
| "item_ok (Remark r) = plain_line (item_line (Remark r))"

fun item_pairs :: "conf_item list \<Rightarrow> (string \<times> string option) list" where
  "item_pairs [] = []"
| "item_pairs (Entry k v # xs) = (k, Some v) # item_pairs xs"
| "item_pairs (Remark r # xs) = item_pairs xs"

definition file_text :: "conf_item list \<Rightarrow> string" where
  "file_text xs = concat (map (\<lambda>x. item_line x @ [LF]) xs)"

lemma conf_line_entry:
  assumes ok: "item_ok (Entry k v)" and d: "dict_inv d" "dict_room (Suc m) d"
  shows "\<exists>d'. conf_line (True, True, True) (line_buf (item_line (Entry k v) @ [LF])) False d = Some (False, d') \<and>
    dict_inv d' \<and> dict_set (True, True, True) d k (Some v) = Some (0, d') \<and> dict_room m d'"
proof -
  let ?l = "item_line (Entry k v)"
  have l: "plain_line ?l" using ok by simp
  obtain c k' where k: "k = c # k'" using ok by (cases k) auto
  have c: "c \<notin> set '' ;#*/''" "c \<noteq> CHR 0x09" using ok k by auto
  note at = plain_line_at[OF l]
  have t: "line_text (?l @ [LF]) = ?l" using plain_line_text[OF l] c by (simp add: k)
  obtain b p where bp: "str_strip (line_buf (?l @ [LF])) 0 = Some b" "str_whitespace_skip b 0 = Some p" "str_at b p ?l"
    using conf_line_text[OF at] t by metis
  have w: "v = takeWhile (\<lambda>c. c \<noteq> CHR 0x22)
      (case [CHR 0x22] @ v @ [CHR 0x22] of c # cs \<Rightarrow> if c = CHR 0x22 then cs else [CHR 0x22] @ v @ [CHR 0x22] | [] \<Rightarrow> [])"
    using takeWhile_first[of "CHR 0x22" v "[]"] ok by simp
  have "\<exists>d'. conf_entry (True, True, True) b p d = Some d' \<and> dict_inv d' \<and>
      dict_set (True, True, True) d k (Some v) = Some (0, d') \<and> dict_room m d'"
    by (rule conf_entry_ok[OF _ _ d w]) (use bp(3) ok in simp_all)
  then obtain d' where d': "conf_entry (True, True, True) b p d = Some d'" "dict_inv d'"
      "dict_set (True, True, True) d k (Some v) = Some (0, d')" "dict_room m d'"
    by blast
  have lead: "lead ?l 0 = c" by (simp add: lead_def k)
  have "conf_line (True, True, True) (line_buf (?l @ [LF])) False d = map_option (Pair False) (conf_entry (True, True, True) b p d)"
    unfolding conf_line_step[OF at t] lead using c bp(1,2) by (simp add: k)
  with d' show ?thesis by simp
qed

lemma conf_line_remark:
  assumes "plain_line (item_line (Remark r))"
  shows "conf_line oks (line_buf (item_line (Remark r) @ [LF])) inc d = Some (inc, d)"
proof -
  have "line_text (item_line (Remark r) @ [LF]) = ''#'' @ r" using plain_line_text[OF assms] by simp
  from conf_line_step[OF plain_line_at[OF assms] this] show ?thesis by (simp add: lead_def)
qed

lemma conf_loop_file:
  "\<forall>x \<in> set xs. item_ok x \<Longrightarrow> dict_inv d \<Longrightarrow> dict_room (length (item_pairs xs)) d \<Longrightarrow>
   conf_loop (True, True, True) (file_text xs) False d = dm.store (item_pairs xs) d"
proof (induction xs arbitrary: d)
  case Nil
  then show ?case by (simp add: file_text_def conf_loop_end)
next
  case (Cons x xs)
  have pl: "plain_line (item_line x)" using Cons.prems(1) by (cases x) auto
  have ft: "file_text (x # xs) = item_line x @ LF # file_text xs" by (simp add: file_text_def)
  show ?case
  proof (cases x)
    case (Entry k v)
    with Cons.prems have "item_ok (Entry k v)" "dict_room (Suc (length (item_pairs xs))) d" by auto
    from conf_line_entry[OF this(1) Cons.prems(2) this(2)] obtain d' where
      d': "conf_line (True, True, True) (line_buf (item_line x @ [LF])) False d = Some (False, d')"
        "dict_inv d'" "dict_set (True, True, True) d k (Some v) = Some (0, d')" "dict_room (length (item_pairs xs)) d'"
      unfolding Entry by blast
    have "conf_loop (True, True, True) (file_text xs) False d' = dm.store (item_pairs xs) d'"
      using Cons.IH[OF _ d'(2,4)] Cons.prems(1) by simp
    with d' show ?thesis unfolding ft conf_loop_line[OF pl] by (simp add: Entry)
  next
    case (Remark r)
    have "conf_line (True, True, True) (line_buf (item_line x @ [LF])) False d = Some (False, d)"
      using conf_line_remark pl unfolding Remark by blast
    with Cons Remark show ?thesis unfolding ft conf_loop_line[OF pl] by simp
  qed
qed

text \<open>Inside a block comment nothing is entered.\<close>

lemma conf_loop_comment:
  "\<forall>l \<in> set ls. plain_line l \<and> take 2 (dropWhile (\<lambda>c. c = CHR '' '' \<or> c = CHR 0x09) l) \<noteq> ''*/'' \<Longrightarrow>
   conf_loop oks (concat (map (\<lambda>l. l @ [LF]) ls)) True d = Some d"
proof (induction ls)
  case Nil
  then show ?case by (simp add: conf_loop_end)
next
  case (Cons l ls)
  let ?t = "dropWhile (\<lambda>c. c = CHR '' '' \<or> c = CHR 0x09) l"
  have l: "plain_line l" "take 2 ?t \<noteq> ''*/''" using Cons.prems by auto
  have "\<not> (?t \<noteq> [] \<and> lead ?t 0 = CHR ''*'' \<and> lead ?t 1 = CHR ''/'')"
  proof (cases ?t)
    case (Cons a u)
    with l(2) show ?thesis by (cases u) (auto simp: lead_def)
  qed simp
  then have "conf_line oks (line_buf (l @ [LF])) True d = Some (True, d)"
    unfolding conf_line_step[OF plain_line_at[OF l(1)] plain_line_text[OF l(1)]] by auto
  with Cons show ?case by (simp add: conf_loop_line[OF l(1)])
qed

section \<open>Properties\<close>

text \<open>
  C15.  Reading a configuration file gives back what was written: after \<open>dconf_init\<close>
  on the text of any list of quoted entries and remarks, every key has the value of its
  last entry, and every other key the default of the query.
\<close>

theorem dconf_init_round_trip:
  assumes "\<forall>x \<in> set xs. item_ok x" and "length (item_pairs xs) \<le> 2 ^ 27"
  shows "\<exists>cf'. dconf_init (True, True, True) (Some (file_text xs)) cf = Some cf' \<and>
    (\<forall>key def. dconf_get_str cf' (Some key) def =
      Some (case map_of (rev (item_pairs xs)) key of None \<Rightarrow> def | Some v \<Rightarrow> v))"
proof -
  let ?d = "dictionary_new 0"
  have new: "dict_inv ?d" "dict_map ?d = Map.empty" "dict_room (length (item_pairs xs)) ?d"
    using dictionary_new_ok[of 0] assms(2) by (auto simp: dict_room_def dictionary_new_def Let_def)
  obtain d where d: "dm.store (item_pairs xs) ?d = Some d" "dict_inv d"
      "dict_map d = dict_map ?d ++ map_of (rev (item_pairs xs))"
    using dm.store_map[OF new(1,3)] by blast
  have "conf_loop (True, True, True) (file_text xs) False ?d = Some d"
    using conf_loop_file[OF assms(1) new(1,3)] d(1) by simp
  with d new(2) show ?thesis by (auto simp: dconf_init_def dconf_get_str_def dm.lookup)
qed

definition conf0 :: conf where
  "conf0 = \<lparr>cf_log_level = LOG_DEBUG, cf_dying = False, cf_dict = None\<rparr>"

theorem dconf_init_round_trip_witness:
  "\<exists>cf'. dconf_init (True, True, True)
      (Some (file_text [Entry ''log.level'' ''info'', Remark '' note'', Entry ''log.level'' ''debug''])) conf0 = Some cf' \<and>
    dconf_get_str cf' (Some ''log.level'') None = Some (Some ''debug'') \<and>
    dconf_get_str cf' (Some ''path'') (Some ''/'') = Some (Some ''/'')"
proof -
  let ?xs = "[Entry ''log.level'' ''info'', Remark '' note'', Entry ''log.level'' ''debug'']"
  have "\<forall>x \<in> set ?xs. item_ok x" by (simp add: plain_line_def BUFSZ_def)
  moreover have "length (item_pairs ?xs) \<le> 2 ^ 27" by simp
  ultimately obtain cf' where cf: "dconf_init (True, True, True) (Some (file_text ?xs)) conf0 = Some cf'"
      "\<forall>key def. dconf_get_str cf' (Some key) def =
        Some (case map_of (rev (item_pairs ?xs)) key of None \<Rightarrow> def | Some v \<Rightarrow> v)"
    using dconf_init_round_trip[of ?xs conf0] by blast
  then show ?thesis by simp
qed

text \<open>
  C24.  A line without an equals sign crashes \<open>dconf_init\<close>: the missing value is
  passed to \<open>str_unquote\<close> as NULL.
\<close>

theorem dconf_init_needs_equals:
  assumes "plain_line l" "l \<noteq> []" "hd l \<notin> set '' ;#*/''" "hd l \<noteq> CHR 0x09" "CHR ''='' \<notin> set l"
  shows "dconf_init oks (Some (l @ LF # rest)) cf = None"
proof -
  obtain c u where l: "l = c # u" using assms(2) by (cases l) auto
  note at = plain_line_at[OF assms(1)]
  have t: "line_text (l @ [LF]) = l" using plain_line_text[OF assms(1)] assms(3,4) by (simp add: l)
  obtain b p where bp: "str_strip (line_buf (l @ [LF])) 0 = Some b" "str_whitespace_skip b 0 = Some p" "str_at b p l"
    using conf_line_text[OF at] t by metis
  have "c_strchr b p CHR ''='' = Some None" by (rule c_strchr_absent[OF bp(3) assms(5)]) simp
  then have "conf_entry oks b p d = None" for d by (simp add: conf_entry_def str_unquote_def)
  moreover have "lead l 0 = c" by (simp add: lead_def l)
  ultimately have "conf_line oks (line_buf (l @ [LF])) False d = None" for d
    unfolding conf_line_step[OF at t] using assms(3) bp(1,2) by (simp add: l)
  then show ?thesis by (simp add: dconf_init_def conf_loop_line[OF assms(1)])
qed

theorem dconf_init_needs_equals_witness:
  "dconf_init (True, True, True) (Some (''verbose'' @ LF # [])) conf0 = None"
  by (rule dconf_init_needs_equals) (simp_all add: plain_line_def BUFSZ_def)

text \<open>
  A block comment written on one line is never closed: whatever follows the opening
  characters on that line, all lines after it are ignored up to one that begins with
  the closing characters.
\<close>

theorem dconf_one_line_comment:
  assumes "plain_line (''/*'' @ c)"
    and "\<forall>l \<in> set ls. plain_line l \<and> take 2 (dropWhile (\<lambda>c. c = CHR '' '' \<or> c = CHR 0x09) l) \<noteq> ''*/''"
  shows "\<exists>cf'. dconf_init oks (Some (''/*'' @ c @ LF # concat (map (\<lambda>l. l @ [LF]) ls))) cf = Some cf' \<and>
    (\<forall>key def. dconf_get_str cf' (Some key) def = Some def)"
proof -
  let ?l = "''/*'' @ c"
  have t: "line_text (?l @ [LF]) = ?l" using plain_line_text[OF assms(1)] by simp
  have "conf_line oks (line_buf (?l @ [LF])) False d = Some (True, d)" for d
    unfolding conf_line_step[OF plain_line_at[OF assms(1)] t] by (simp add: lead_def)
  then have "conf_loop oks (?l @ LF # concat (map (\<lambda>l. l @ [LF]) ls)) False (dictionary_new 0) = Some (dictionary_new 0)"
    unfolding conf_loop_line[OF assms(1)] by (simp add: conf_loop_comment[OF assms(2)])
  moreover have "dict_inv (dictionary_new 0)" "dict_map (dictionary_new 0) = Map.empty"
    using dictionary_new_ok[of 0] by auto
  ultimately show ?thesis by (simp add: dconf_init_def dconf_get_str_def dm.lookup)
qed

theorem dconf_one_line_comment_witness:
  "\<exists>cf'. dconf_init (True, True, True) (Some (''/* x */'' @ LF # ''a=b'' @ [LF])) conf0 = Some cf' \<and>
     dconf_get_str cf' (Some ''a'') None = Some None"
  using dconf_one_line_comment[of "'' x */''" "[''a=b'']" "(True, True, True)" conf0]
  by (simp add: plain_line_def BUFSZ_def numeral_2_eq_2) blast

text \<open>
  C37.  Settings survive as text: an \<open>int\<close> stored in decimal and a duration stored as
  text are read back by \<open>dconf_get_int\<close> and \<open>dconf_get_time\<close>.
\<close>

theorem dconf_set_get_typed:
  assumes "dict_inv d" "dict_room 1 d" "cf_dict cf = Some d"
    and "- (2 ^ 31) \<le> i" "i < 2 ^ 31" "i \<noteq> 0" and "\<bar>t\<bar> < 2 ^ 31 * 86400"
  shows "(\<exists>cf'. dconf_set (True, True, True) cf (Some k) (Some (int_str i)) = Some (0, cf') \<and>
      dconf_get_int cf' (Some k) def = Some i) \<and>
    (\<exists>cf'. dconf_set (True, True, True) cf (Some k) (Some (nn2_time_to_timestr t)) = Some (0, cf') \<and>
      dconf_get_time cf' (Some k) def = Some t)"
proof -
  have set: "\<exists>cf'. dconf_set (True, True, True) cf (Some k) (Some v) = Some (0, cf') \<and>
      dconf_get_str cf' (Some k) None = Some (Some v)" for v
  proof -
    obtain d' where "dict_set (True, True, True) d k (Some v) = Some (0, d')" "dict_inv d'"
        "dict_map d' = (dict_map d)(k \<mapsto> Some v)"
      using dm.update[OF assms(1), of 0 k "Some v"] assms(2) by auto
    then show ?thesis by (simp add: dconf_set_def dictionary_set_def assms(3) dconf_get_str_def dm.lookup)
  qed
  have "strtol0 (int_str i) = i" using strtol0_int_str[OF assms(6), of "[]"] assms(4,5) by (simp add: stops_def)
  then have "to_int32 (strtol0 (int_str i)) = i" using to_int32_id[OF assms(4,5)] by simp
  with set[of "int_str i"] have "\<exists>cf'. dconf_set (True, True, True) cf (Some k) (Some (int_str i)) = Some (0, cf') \<and>
      dconf_get_int cf' (Some k) def = Some i"
    by (auto simp: dconf_get_int_def)
  moreover from set[of "nn2_time_to_timestr t"] timestr_roundtrip[OF assms(7)]
  have "\<exists>cf'. dconf_set (True, True, True) cf (Some k) (Some (nn2_time_to_timestr t)) = Some (0, cf') \<and>
      dconf_get_time cf' (Some k) def = Some t"
    by (auto simp: dconf_get_time_def)
  ultimately show ?thesis by blast
qed

theorem dconf_set_get_typed_witness:
  "\<exists>cf'. dconf_set (True, True, True) (conf0\<lparr>cf_dict := Some (dictionary_new 0)\<rparr>) (Some ''n'') (Some (int_str (- 42))) = Some (0, cf') \<and>
     dconf_get_int cf' (Some ''n'') 7 = Some (- 42)"
proof -
  have "dict_inv (dictionary_new 0)" "dict_room 1 (dictionary_new 0)"
      "cf_dict (conf0\<lparr>cf_dict := Some (dictionary_new 0)\<rparr>) = Some (dictionary_new 0)"
    using dictionary_new_ok[of 0] by (simp_all add: dict_room_def dictionary_new_def Let_def)
  from dconf_set_get_typed[OF this, of "- 42" 0 "''n''" 7] show ?thesis by simp
qed

text \<open>
  C5.  \<open>Log\<close> writes a line exactly when the priority of the message is at least the
  configured level, whatever spelling of the level name the configuration used.
\<close>

theorem Log_filters:
  assumes "dconf_get_str cf (Some ''log.level'') None = Some (Some lvl)" and "map c_tolower lvl = ''warning''"
  shows "\<exists>cf'. log_open cf = Some cf' \<and>
    (\<forall>p ts msg. (Log cf' p ts msg = []) = (p \<in> {LOG_DEBUG, LOG_INFO, LOG_HACK}))"
proof -
  have "parse_level lvl old = LOG_WARNING" for old
    using assms(2) by (simp add: parse_level_def strcasecmp_eq_def c_tolower_def)
  moreover have "(Log cf' p ts msg = []) = (p < cf_log_level cf')" for cf' p ts msg by (simp add: Log_def)
  moreover have "p < LOG_WARNING \<longleftrightarrow> p \<in> {LOG_DEBUG, LOG_INFO, LOG_HACK}" for p
    by (cases p) (simp_all add: less_log_priority_def level_num_def)
  ultimately show ?thesis using assms(1) by (simp add: log_open_def)
qed

end
