(* ===== verification/Dlink_Pool.thy ===== *)
theory Dlink_Pool
  imports Balloc_Pool
begin

text \<open>
  The pool of list nodes of \<open>src/dlink.c\<close>: \<open>dlink_create\<close> and
  \<open>dlink_free\<close> take nodes from the block heap \<open>node_heap\<close>, and the macros of
  \<open>src/dlink.h\<close> combine them with the list operations.  The state extends the
  allocator's by the address of the heap and the node count.  The lemmas show that a
  list whose nodes come from the pool stays intact under every operation of the pool
  and that \<open>dlink_destroy\<close> gives back what \<open>dlink_add_tail_alloc\<close> took.
\<close>

record lstate = bstate +
  l_heap :: ptr
  l_count :: int

definition sizeof_dlink_node :: nat where
  "sizeof_dlink_node = 24"

text \<open>
  The number of nodes per block comes from the configuration; it is an argument.  Without a heap
  the process ends: SIGTERM is raised and no handler for it is ever started.
\<close>

definition dlink_init ::
  "ptr \<Rightarrow> ptr \<Rightarrow> ptr \<Rightarrow> int \<Rightarrow> 'a lstate_scheme \<Rightarrow> 'a lstate_scheme option" where
  "dlink_init hb cb me epb s = do {
     (h, s) \<leftarrow> blockheap_create hb cb me (of_nat sizeof_dlink_node) epb (Some ''dlink_node'') s;
     if h = NULL then None else Some (s\<lparr>l_heap := h\<rparr>) }"

definition dlink_fini :: "'a lstate_scheme \<Rightarrow> 'a lstate_scheme option" where
  "dlink_fini s = map_option snd (blockheap_destroy (l_heap s) s)"

definition dlink_create :: "ptr \<Rightarrow> ptr \<Rightarrow> 'a lstate_scheme \<Rightarrow> (ptr \<times> 'a lstate_scheme) option" where
  "dlink_create cb me s = do {
     (m, s) \<leftarrow> blockheap_alloc cb me (l_heap s) s;
     h \<leftarrow> upd_at m (\<lambda>n. n\<lparr>nd_data := NULL, nd_next := NULL, nd_prev := NULL\<rparr>) (b_nodes s);
     Some (m, s\<lparr>b_nodes := h, l_count := l_count s + 1\<rparr>) }"

definition dlink_free :: "ptr \<Rightarrow> 'a lstate_scheme \<Rightarrow> 'a lstate_scheme option" where
  "dlink_free m s = map_option snd (blockheap_free (l_heap s) m (s\<lparr>l_count := l_count s - 1\<rparr>))"

definition dlink_add_tail_alloc ::
  "ptr \<Rightarrow> ptr \<Rightarrow> ptr \<Rightarrow> 'a lstate_scheme \<Rightarrow> dlink_list \<Rightarrow> ('a lstate_scheme \<times> dlink_list) option" where
  "dlink_add_tail_alloc cb me d s l = do {
     (m, s) \<leftarrow> dlink_create cb me s;
     (h, l) \<leftarrow> dlink_add_tail d m (b_nodes s) l;
     Some (s\<lparr>b_nodes := h\<rparr>, l) }"

definition dlink_add_alloc ::
  "ptr \<Rightarrow> ptr \<Rightarrow> ptr \<Rightarrow> 'a lstate_scheme \<Rightarrow> dlink_list \<Rightarrow> ('a lstate_scheme \<times> dlink_list) option" where
  "dlink_add_alloc cb me d s l = do {
     (m, s) \<leftarrow> dlink_create cb me s;
     (h, l) \<leftarrow> dlink_add d m (b_nodes s) l;
     Some (s\<lparr>b_nodes := h\<rparr>, l) }"

definition dlink_destroy ::
  "ptr \<Rightarrow> 'a lstate_scheme \<Rightarrow> dlink_list \<Rightarrow> ('a lstate_scheme \<times> dlink_list) option" where
  "dlink_destroy m s l = do {
     (h, l) \<leftarrow> dlink_delete m (b_nodes s) l;
     s \<leftarrow> dlink_free m (s\<lparr>b_nodes := h\<rparr>);
     Some (s, l) }"

section \<open>Nodes of the pool are not headers\<close>

text \<open>
  \<open>cframe\<close> is the part of \<open>bframe\<close> a heap depends on, for states whose extensions may differ.
\<close>

definition cframe ::
  "ptr set \<Rightarrow> ptr set \<Rightarrow> ptr set \<Rightarrow> 'a bstate_scheme \<Rightarrow> 'b bstate_scheme \<Rightarrow> bool" where
  "cframe C B H s s' \<longleftrightarrow>
     (\<forall>p. p \<notin> C \<longrightarrow> b_nodes s' p = b_nodes s p \<and> b_owner s' p = b_owner s p \<and> b_bytes s' p = b_bytes s p) \<and>
     (\<forall>p. p \<notin> B \<longrightarrow> b_blocks s' p = b_blocks s p) \<and>
     (\<forall>p. p \<notin> H \<longrightarrow> b_heaps s' p = b_heaps s p)"

lemma cframe_cell:
  "cframe C B H s s' \<Longrightarrow> p \<notin> C \<Longrightarrow> b_nodes s' p = b_nodes s p \<and> b_owner s' p = b_owner s p \<and> b_bytes s' p = b_bytes s p"
  by (simp add: cframe_def)

lemma cframe_block: "cframe C B H s s' \<Longrightarrow> p \<notin> B \<Longrightarrow> b_blocks s' p = b_blocks s p"
  by (simp add: cframe_def)

lemma cframe_heap: "cframe C B H s s' \<Longrightarrow> p \<notin> H \<Longrightarrow> b_heaps s' p = b_heaps s p"
  by (simp add: cframe_def)

lemma bframe_cframe: "bframe C B H s s' \<Longrightarrow> cframe C B H s s'"
  by (auto simp: bframe_def cframe_def)

lemma cframe_trans: "cframe C B H s s' \<Longrightarrow> cframe C B H s' s'' \<Longrightarrow> cframe C B H s s''"
  by (auto simp: cframe_def)

lemma cframe_mono: "cframe C B H s s' \<Longrightarrow> C \<subseteq> C' \<Longrightarrow> B \<subseteq> B' \<Longrightarrow> H \<subseteq> H' \<Longrightarrow> cframe C' B' H' s s'"
  by (auto simp: cframe_def)

lemma cframe_nodes: "dframe S D (b_nodes s) h \<Longrightarrow> cframe S {} {} s (s\<lparr>b_nodes := h\<rparr>)"
  by (auto simp: cframe_def dframe_def)

text \<open>A heap is untouched by a change that avoids its headers.\<close>

lemma heap_inv_cframe:
  fixes s :: "'a bstate_scheme" and s' :: "'b bstate_scheme"
  assumes inv: "heap_inv s bhp sz n xs" and fr: "cframe C B H s s'"
    and dis: "headers sz n xs \<inter> C = {}" "fst ` set xs \<inter> B = {}" "bhp \<notin> H"
  shows "heap_inv s' bhp sz n xs"
proof -
  have "same_blk sz n s s' x" if x: "x \<in> set xs" for x
  proof -
    have "\<forall>m \<in> set (slots (fst (snd x)) sz n). m \<notin> C" "fst x \<notin> B"
      using x dis by (auto simp: headers_def)
    then show ?thesis using cframe_cell[OF fr] cframe_block[OF fr] by (simp add: same_blk_def)
  qed
  then have same: "\<forall>x \<in> set xs. same_blk sz n s s' x" by blast
  have "chain s sz n xs NULL" using inv by (simp add: heap_inv_def)
  from chain_cong[OF this same] have "chain s' sz n xs NULL" .
  moreover have "b_heaps s' bhp = b_heaps s bhp" using cframe_heap[OF fr dis(3)] .
  ultimately show ?thesis using inv by (simp add: heap_inv_def)
qed

lemma headers_pool: "headers sz n xs \<subseteq> pool_area sz n xs"
  using slots_in_block_area by (fastforce simp: headers_def pool_area_def)

lemma used_in_own_area: "0 < sz \<Longrightarrow> p \<in> elem_area sz p"
  by (simp add: elem_area_def in_range_def)

lemma used_not_header:
  assumes inv: "heap_inv s bhp sz n xs" and sz: "0 < sz" and p: "p \<in> used_elems xs"
  shows "p \<notin> headers sz n xs"
proof
  assume "p \<in> headers sz n xs"
  then obtain b e fs us where x: "(b, e, fs, us) \<in> set xs" "p \<in> set (slots e sz n)" by (auto simp: headers_def)
  have "p \<noteq> p + sizeof_MemBlock" by (simp add: sizeof_MemBlock_def)
  from used_area_disjoint[OF inv p x(1,2) this] x(2) used_in_own_area[OF sz, of p] show False by blast
qed

lemma used_elems_pool:
  assumes inv: "heap_inv s bhp sz n xs" and sz: "0 < sz"
  shows "used_elems xs \<subseteq> pool_area sz n xs"
proof
  fix p assume "p \<in> used_elems xs"
  have c: "chain s sz n xs NULL" using inv by (simp add: heap_inv_def)
  obtain b e fs us m where x: "(b, e, fs, us) \<in> set xs" "m \<in> set (slots e sz n)" "p = m + sizeof_MemBlock" "m \<in> set us"
    by (rule used_in_block[OF c \<open>p \<in> used_elems xs\<close>])
  have "p \<in> block_area sz n e" using elem_in_block_area[OF x(2)] x(3) used_in_own_area[OF sz, of p] by blast
  with x(1) show "p \<in> pool_area sz n xs" by (force simp: pool_area_def)
qed

lemma used_mapped:
  assumes inv: "heap_inv s bhp sz n xs" and p: "p \<in> used_elems xs"
  shows "p \<noteq> NULL"
  using p by (auto simp: used_elems_def sizeof_MemBlock_def)

lemma heap_inv_relink:
  fixes s :: "'a bstate_scheme"
  assumes inv: "heap_inv s bhp sz n xs" and sz: "0 < sz"
    and fr: "dframe S D (b_nodes s) h" and S: "S \<subseteq> used_elems xs"
  shows "heap_inv (s\<lparr>b_nodes := h\<rparr>) bhp sz n xs"
proof (rule heap_inv_cframe[OF inv cframe_nodes[OF fr]])
  show "headers sz n xs \<inter> S = {}" using used_not_header[OF inv sz] S by blast
qed auto

section \<open>Creating and freeing nodes\<close>

text \<open>A well-formed heap all of whose memory is mapped.\<close>

definition pool_ok :: "'a bstate_scheme \<Rightarrow> ptr \<Rightarrow> nat \<Rightarrow> nat \<Rightarrow> binfo list \<Rightarrow> bool" where
  "pool_ok s bhp sz n xs \<longleftrightarrow> heap_inv s bhp sz n xs \<and> pool_area sz n xs \<subseteq> dom (b_nodes s) \<and> 0 < sz"

definition grow_area :: "nat \<Rightarrow> nat \<Rightarrow> binfo list \<Rightarrow> ptr \<Rightarrow> ptr set" where
  "grow_area sz n xs me = (if total_free xs = 0 then block_area sz n me else {})"

definition grow_block :: "binfo list \<Rightarrow> ptr \<Rightarrow> ptr set" where
  "grow_block xs cb = (if total_free xs = 0 then {cb} else {})"

lemma pool_ok_used_mapped: "pool_ok s bhp sz n xs \<Longrightarrow> p \<in> used_elems xs \<Longrightarrow> p \<noteq> NULL \<and> p \<in> dom (b_nodes s)"
  using used_elems_pool[of s bhp sz n xs] used_mapped[of s bhp sz n xs p] unfolding pool_ok_def by blast

text \<open>What taking an element from a pool does to the pool.\<close>

definition took ::
  "nat \<Rightarrow> nat \<Rightarrow> ptr \<Rightarrow> binfo list \<Rightarrow> ptr \<Rightarrow> ptr \<Rightarrow> ptr \<Rightarrow> 'a bstate_scheme \<Rightarrow> 'b bstate_scheme \<Rightarrow> binfo list \<Rightarrow> bool" where
  "took sz n bhp xs cb me p s s' xs' \<longleftrightarrow>
     pool_ok s' bhp sz n xs' \<and> p \<notin> used_elems xs \<and> used_elems xs' = insert p (used_elems xs) \<and>
     live_same sz (used_elems xs) s s' \<and>
     cframe (pool_area sz n xs \<union> grow_area sz n xs me) (fst ` set xs \<union> grow_block xs cb) {bhp} s s' \<and>
     pool_area sz n xs' = pool_area sz n xs \<union> grow_area sz n xs me \<and>
     fst ` set xs' = fst ` set xs \<union> grow_block xs cb \<and> dom (b_nodes s) \<subseteq> dom (b_nodes s')"

lemma blockheap_alloc_took:
  assumes p: "pool_ok s bhp sz n xs" and fresh: "total_free xs = 0 \<longrightarrow> fresh_block cb me sz n xs"
  shows "\<exists>p s' xs'. blockheap_alloc cb me bhp s = Some (p, s') \<and> took sz n bhp xs cb me p s s' xs' \<and>
    bstate.more s' = bstate.more s"
proof -
  have inv: "heap_inv s bhp sz n xs" using p by (simp add: pool_ok_def)
  obtain q s' xs' where q: "blockheap_alloc cb me bhp s = Some (q, s')" "heap_inv s' bhp sz n xs'"
      "q \<notin> used_elems xs" "used_elems xs' = insert q (used_elems xs)" "live_same sz (used_elems xs) s s'"
      "bframe (pool_area sz n xs \<union> grow_area sz n xs me) (fst ` set xs \<union> grow_block xs cb) {bhp} s s'"
      "dom (b_nodes s') = dom (b_nodes s) \<union> grow_area sz n xs me"
      "pool_area sz n xs' = pool_area sz n xs \<union> grow_area sz n xs me"
      "fst ` set xs' = fst ` set xs \<union> grow_block xs cb"
    using blockheap_alloc_ok[OF inv fresh, folded grow_area_def grow_block_def]
    by (elim exE conjE) (rule that)
  have "pool_ok s' bhp sz n xs'"
    using p q(2,7,8) unfolding pool_ok_def by blast
  moreover have "bstate.more s' = bstate.more s" using q(6) by (simp add: bframe_def)
  moreover have "dom (b_nodes s) \<subseteq> dom (b_nodes s')" using q(7) by blast
  ultimately show ?thesis using q(1,3-5,8,9) bframe_cframe[OF q(6)] unfolding took_def
    by (intro exI[of _ q] exI[of _ s'] exI[of _ xs'] conjI) assumption+
qed

lemma pool_ok_relink:
  assumes p: "pool_ok s bhp sz n xs" and fr: "dframe S D (b_nodes s) h" and S: "S \<subseteq> used_elems xs"
  shows "pool_ok (s\<lparr>b_nodes := h\<rparr>) bhp sz n xs"
  using p heap_inv_relink[OF _ _ fr S] dframe_dom[OF fr] by (simp add: pool_ok_def)

lemma pool_ok_more: "pool_ok s bhp sz n xs \<Longrightarrow> cframe {} {} {} s s' \<Longrightarrow> pool_ok s' bhp sz n xs"
proof -
  assume p: "pool_ok s bhp sz n xs" and f: "cframe {} {} {} s s'"
  have "b_nodes s' = b_nodes s" using f by (auto simp: cframe_def)
  moreover have "heap_inv s' bhp sz n xs" by (rule heap_inv_cframe[OF _ f]) (use p in \<open>simp_all add: pool_ok_def\<close>)
  ultimately show ?thesis using p by (simp add: pool_ok_def)
qed

lemma used_apart:
  assumes p: "pool_ok s bhp sz n xs" and m: "m \<in> used_elems xs" and q: "q \<in> used_elems xs" "q \<noteq> m"
  shows "elem_area sz q \<inter> elem_area sz m = {}" "m \<notin> elem_area sz q"
proof -
  have inv: "heap_inv s bhp sz n xs" and sz: "0 < sz" using p by (auto simp: pool_ok_def)
  have c: "chain s sz n xs NULL" using inv by (simp add: heap_inv_def)
  obtain b e fs us k where x: "(b, e, fs, us) \<in> set xs" "k \<in> set (slots e sz n)" "m = k + sizeof_MemBlock" "k \<in> set us"
    by (rule used_in_block[OF c m])
  show d: "elem_area sz q \<inter> elem_area sz m = {}"
    using used_area_disjoint[OF inv q(1) x(1,2)] q(2) x(3) by blast
  show "m \<notin> elem_area sz q" using d used_in_own_area[OF sz, of m] by blast
qed

lemma dlink_create_ok:
  fixes s :: "'a lstate_scheme"
  assumes p: "pool_ok s (l_heap s) sz n xs" and fresh: "total_free xs = 0 \<longrightarrow> fresh_block cb me sz n xs"
  shows "\<exists>m s' xs'. dlink_create cb me s = Some (m, s') \<and> took sz n (l_heap s) xs cb me m s s' xs' \<and>
    l_heap s' = l_heap s \<and> l_count s' = l_count s + 1 \<and> lstate.more s' = lstate.more s \<and>
    m \<noteq> NULL \<and> b_nodes s' m = Some zero_node"
proof -
  obtain m s1 xs' where m: "blockheap_alloc cb me (l_heap s) s = Some (m, s1)"
      "took sz n (l_heap s) xs cb me m s s1 xs'" "bstate.more s1 = bstate.more s"
    using blockheap_alloc_took[OF p fresh] by blast
  have mm: "m \<noteq> NULL" "m \<in> dom (b_nodes s1)"
    using pool_ok_used_mapped[of s1 "l_heap s" sz n xs' m] m(2) by (auto simp: took_def)
  then obtain nd where nd: "b_nodes s1 m = Some nd" by blast
  let ?h = "(b_nodes s1)(m \<mapsto> zero_node)" let ?s' = "s1\<lparr>b_nodes := ?h, l_count := l_count s1 + 1\<rparr>"
  have more: "l_heap s1 = l_heap s" "l_count s1 = l_count s" "lstate.more s1 = lstate.more s"
    using m(3) by (cases s, cases s1, simp)+
  have run: "dlink_create cb me s = Some (m, ?s')"
    using m(1) mm(1) nd by (cases nd) (simp add: dlink_create_def mem_simps zero_node_def)
  have fr: "dframe {m} {m} (b_nodes s1) ?h" using nd by (auto simp: dframe_def)
  have "pool_ok (s1\<lparr>b_nodes := ?h\<rparr>) (l_heap s) sz n xs'"
    by (rule pool_ok_relink[OF _ fr]) (use m(2) in \<open>auto simp: took_def\<close>)
  then have ok: "pool_ok ?s' (l_heap s) sz n xs'" by (rule pool_ok_more) (simp add: cframe_def)
  have pa: "pool_ok s1 (l_heap s) sz n xs'" "m \<in> used_elems xs'" "m \<notin> used_elems xs"
      "pool_area sz n xs' = pool_area sz n xs \<union> grow_area sz n xs me"
    using m(2) by (auto simp: took_def)
  have "live_same sz (used_elems xs) s1 ?s'"
  proof -
    have "m \<notin> elem_area sz q" if q: "q \<in> used_elems xs" for q
    proof (rule used_apart(2)[OF pa(1,2)])
      show "q \<in> used_elems xs'" using q m(2) by (simp add: took_def)
      show "q \<noteq> m" using q pa(3) by blast
    qed
    then show ?thesis unfolding live_same_def by auto
  qed
  then have "live_same sz (used_elems xs) s ?s'" using m(2) by (auto simp: took_def live_same_def)
  moreover have "m \<in> pool_area sz n xs \<union> grow_area sz n xs me"
    using used_elems_pool[of s1 "l_heap s" sz n xs'] pa unfolding pool_ok_def by blast
  then have f2: "cframe (pool_area sz n xs \<union> grow_area sz n xs me) (fst ` set xs \<union> grow_block xs cb) {l_heap s} s1 ?s'"
    by (auto simp: cframe_def)
  have "cframe (pool_area sz n xs \<union> grow_area sz n xs me) (fst ` set xs \<union> grow_block xs cb) {l_heap s} s s1"
    using m(2) by (simp add: took_def)
  then have "cframe (pool_area sz n xs \<union> grow_area sz n xs me) (fst ` set xs \<union> grow_block xs cb) {l_heap s} s ?s'"
    using f2 by (rule cframe_trans)
  ultimately have "took sz n (l_heap s) xs cb me m s ?s' xs'"
    using m(2) ok unfolding took_def by auto
  with run mm(1) more show ?thesis by (intro exI[of _ m] exI[of _ ?s'] exI[of _ xs'] conjI) simp_all
qed

section \<open>Lists of pool nodes\<close>

text \<open>\<open>l\<close> represents the nodes \<open>ns\<close>, all of them taken from the pool.\<close>

definition pool_list :: "'a lstate_scheme \<Rightarrow> nat \<Rightarrow> binfo list \<Rightarrow> dlink_list \<Rightarrow> ptr list \<Rightarrow> bool" where
  "pool_list s n xs l ns \<longleftrightarrow>
     pool_ok s (l_heap s) sizeof_dlink_node n xs \<and> dlist (b_nodes s) l ns \<and> set ns \<subseteq> used_elems xs"

lemma live_same_nodes:
  assumes "live_same sz U s s'" "p \<in> U" "0 < sz"
  shows "b_nodes s' p = b_nodes s p"
  using assms used_in_own_area[of sz p] by (auto simp: live_same_def)

lemma sizeof_node_pos: "0 < sizeof_dlink_node"
  by (simp add: sizeof_dlink_node_def)

lemma took_dlist:
  assumes t: "took sz n bhp xs cb me p s s' xs'" and l: "dlist (b_nodes s) l ns" "set ns \<subseteq> used_elems xs" "0 < sz"
  shows "dlist (b_nodes s') l ns" "\<And>a. a \<in> set ns \<Longrightarrow> b_nodes s' a = b_nodes s a"
proof -
  have "live_same sz (used_elems xs) s s'" using t by (simp add: took_def)
  then show same: "b_nodes s' a = b_nodes s a" if "a \<in> set ns" for a
    using live_same_nodes[OF _ _ l(3)] l(2) that by blast
  show "dlist (b_nodes s') l ns" using dlist_cong[OF l(1)] same by blast
qed

text \<open>
  \<open>dlink_add_tail_alloc\<close>: a fresh node goes to the end of the list; the data of all
  other nodes of the pool is kept.
\<close>

lemma dlink_add_tail_alloc_ok:
  fixes s :: "'a lstate_scheme"
  assumes pl: "pool_list s n xs l ns"
    and fresh: "total_free xs = 0 \<longrightarrow> fresh_block cb me sizeof_dlink_node n xs"
  shows "\<exists>m s' l' xs'. dlink_add_tail_alloc cb me d s l = Some (s', l') \<and> pool_list s' n xs' l' (ns @ [m]) \<and>
    m \<notin> used_elems xs \<and> used_elems xs' = insert m (used_elems xs) \<and>
    map_option nd_data (b_nodes s' m) = Some d \<and>
    (\<forall>a \<in> used_elems xs. map_option nd_data (b_nodes s' a) = map_option nd_data (b_nodes s a)) \<and>
    cframe (pool_area sizeof_dlink_node n xs \<union> grow_area sizeof_dlink_node n xs me)
      (fst ` set xs \<union> grow_block xs cb) {l_heap s} s s' \<and>
    pool_area sizeof_dlink_node n xs' = pool_area sizeof_dlink_node n xs \<union> grow_area sizeof_dlink_node n xs me \<and>
    fst ` set xs' = fst ` set xs \<union> grow_block xs cb \<and> l_heap s' = l_heap s \<and> l_count s' = l_count s + 1 \<and>
    lstate.more s' = lstate.more s \<and> dom (b_nodes s) \<subseteq> dom (b_nodes s')"
proof -
  let ?z = sizeof_dlink_node
  have p: "pool_ok s (l_heap s) ?z n xs" "dlist (b_nodes s) l ns" "set ns \<subseteq> used_elems xs"
    using pl by (auto simp: pool_list_def)
  obtain m s1 xs' where m: "dlink_create cb me s = Some (m, s1)" "took ?z n (l_heap s) xs cb me m s s1 xs'"
      "l_heap s1 = l_heap s" "l_count s1 = l_count s + 1" "lstate.more s1 = lstate.more s" "m \<noteq> NULL"
      "b_nodes s1 m = Some zero_node"
    using dlink_create_ok[OF p(1) fresh] by blast
  have t: "pool_ok s1 (l_heap s) ?z n xs'" "m \<notin> used_elems xs" "used_elems xs' = insert m (used_elems xs)"
      "live_same ?z (used_elems xs) s s1"
      "cframe (pool_area ?z n xs \<union> grow_area ?z n xs me) (fst ` set xs \<union> grow_block xs cb) {l_heap s} s s1"
      "pool_area ?z n xs' = pool_area ?z n xs \<union> grow_area ?z n xs me"
      "fst ` set xs' = fst ` set xs \<union> grow_block xs cb" "dom (b_nodes s) \<subseteq> dom (b_nodes s1)"
    using m(2) unfolding took_def by auto
  have l1: "dlist (b_nodes s1) l ns" by (rule took_dlist(1)[OF m(2) p(2,3) sizeof_node_pos])
  have mn: "m \<in> dom (b_nodes s1)" "m \<notin> set ns" using m(7) t(2) p(3) by auto
  obtain h l' where a: "dlink_add_tail d m (b_nodes s1) l = Some (h, l')" "dlist h l' (ns @ [m])"
      "map_option nd_data (h m) = Some d" "dframe (insert m (set ns)) {m} (b_nodes s1) h"
    using dlink_add_tail_spec[OF l1 m(6) mn, of d] by blast
  have S: "insert m (set ns) \<subseteq> used_elems xs'" using p(3) t(3) by blast
  let ?s' = "s1\<lparr>b_nodes := h\<rparr>"
  have run: "dlink_add_tail_alloc cb me d s l = Some (?s', l')"
    using m(1) a(1) by (simp add: dlink_add_tail_alloc_def)
  have ok: "pool_ok ?s' (l_heap s) ?z n xs'" by (rule pool_ok_relink[OF t(1) a(4) S])
  then have "pool_list ?s' n xs' l' (ns @ [m])"
    using a(2) S m(3) by (simp add: pool_list_def)
  moreover have "\<forall>x \<in> used_elems xs. map_option nd_data (b_nodes ?s' x) = map_option nd_data (b_nodes s x)"
  proof
    fix x assume x: "x \<in> used_elems xs"
    then have "x \<noteq> m" using t(2) by auto
    then have "map_option nd_data (h x) = map_option nd_data (b_nodes s1 x)" by (intro dframe_data[OF a(4)]) auto
    also have "b_nodes s1 x = b_nodes s x" by (rule live_same_nodes[OF t(4) x sizeof_node_pos])
    finally show "map_option nd_data (b_nodes ?s' x) = map_option nd_data (b_nodes s x)" by simp
  qed
  moreover have "cframe (pool_area ?z n xs \<union> grow_area ?z n xs me) (fst ` set xs \<union> grow_block xs cb) {l_heap s} s ?s'"
  proof (rule cframe_trans[OF t(5)], rule cframe_mono[OF cframe_nodes[OF a(4)]])
    show "insert m (set ns) \<subseteq> pool_area ?z n xs \<union> grow_area ?z n xs me"
    proof -
      have "used_elems xs' \<subseteq> pool_area ?z n xs'"
        using t(1) by (intro used_elems_pool[of s1 "l_heap s"]) (simp_all add: pool_ok_def)
      with S show ?thesis unfolding t(6) by (rule order_trans)
    qed
  qed auto
  moreover have "map_option nd_data (b_nodes ?s' m) = Some d" using a(3) by simp
  moreover have "dom (b_nodes s) \<subseteq> dom (b_nodes ?s')" using t(8) dframe_dom[OF a(4)] by simp
  ultimately show ?thesis using run t(2,3,6,7) m(3-5)
    by (intro exI[of _ m] exI[of _ ?s'] exI[of _ l'] exI[of _ xs'] conjI) (assumption | simp)+
qed

lemma dlink_destroy_ok:
  fixes s :: "'a lstate_scheme"
  assumes pl: "pool_list s n xs l (as @ m # bs)"
  shows "\<exists>s' l' xs'. dlink_destroy m s l = Some (s', l') \<and> pool_list s' n xs' l' (as @ bs) \<and>
    used_elems xs' = used_elems xs - {m} \<and>
    (\<forall>a \<in> used_elems xs - {m}. map_option nd_data (b_nodes s' a) = map_option nd_data (b_nodes s a)) \<and>
    l_count s' = l_count s - 1"
proof -
  let ?z = sizeof_dlink_node
  have p: "pool_ok s (l_heap s) ?z n xs" "dlist (b_nodes s) l (as @ m # bs)" "set (as @ m # bs) \<subseteq> used_elems xs"
    using pl by (auto simp: pool_list_def)
  obtain h l' where d: "dlink_delete m (b_nodes s) l = Some (h, l')" "dlist h l' (as @ bs)"
      "dframe (set (as @ bs)) {} (b_nodes s) h"
    using dlink_delete_spec[OF p(2)] by blast
  let ?s1 = "s\<lparr>b_nodes := h\<rparr>" let ?s2 = "?s1\<lparr>l_count := l_count s - 1\<rparr>"
  have "pool_ok ?s1 (l_heap s) ?z n xs" by (rule pool_ok_relink[OF p(1) d(3)]) (use p(3) in auto)
  then have ok2: "pool_ok ?s2 (l_heap s) ?z n xs" by (rule pool_ok_more) (simp add: cframe_def)
  then have inv2: "heap_inv ?s2 (l_heap s) ?z n xs" by (simp add: pool_ok_def)
  have mu: "m \<in> used_elems xs" using p(3) by simp
  obtain s' xs' where f: "blockheap_free (l_heap s) m ?s2 = Some (0, s')" "heap_inv s' (l_heap s) ?z n xs'"
      "used_elems xs' = used_elems xs - {m}" "live_same ?z (used_elems xs - {m}) ?s2 s'"
      "bframe (pool_area ?z n xs) (fst ` set xs) {l_heap s} ?s2 s'" "pool_area ?z n xs' = pool_area ?z n xs"
      "dom (b_nodes s') = dom (b_nodes ?s2)"
    using blockheap_free_used[OF inv2 mu] by (elim exE conjE) (rule that)
  have run: "dlink_destroy m s l = Some (s', l')" using d(1) f(1) by (simp add: dlink_destroy_def dlink_free_def)
  have more: "l_heap s' = l_heap s" "l_count s' = l_count s - 1"
  proof -
    have "bstate.more s' = bstate.more ?s2" using f(5) by (simp add: bframe_def)
    then show "l_heap s' = l_heap s" "l_count s' = l_count s - 1" by (cases s, cases s', simp)+
  qed
  have same: "b_nodes s' a = h a" if "a \<in> used_elems xs - {m}" for a
    using live_same_nodes[OF f(4) that sizeof_node_pos] by simp
  have sub: "set (as @ bs) \<subseteq> used_elems xs - {m}" using p(3) dlist_distinct[OF p(2)] by auto
  have "dlist (b_nodes s') l' (as @ bs)" by (rule dlist_cong[OF d(2)]) (use same sub in blast)
  moreover have "pool_ok s' (l_heap s) ?z n xs'" using ok2 f(2,6,7) by (simp add: pool_ok_def)
  ultimately have "pool_list s' n xs' l' (as @ bs)" using sub f(3) more(1) by (simp add: pool_list_def)
  moreover have "\<forall>a \<in> used_elems xs - {m}. map_option nd_data (b_nodes s' a) = map_option nd_data (b_nodes s a)"
  proof
    fix a assume "a \<in> used_elems xs - {m}"
    then have "b_nodes s' a = h a" by (rule same)
    then show "map_option nd_data (b_nodes s' a) = map_option nd_data (b_nodes s a)"
      using dframe_data[OF d(3), of a] by simp
  qed
  ultimately show ?thesis using run f(3) more(2)
    by (intro exI[of _ s'] exI[of _ l'] exI[of _ xs'] conjI) assumption+
qed

section \<open>Properties\<close>

text \<open>
  C32.  Appending data to a list through the node pool and destroying the node again
  leaves the list, the set of nodes in use, the data of every node in use and the node
  count as they were.
\<close>

theorem dlink_alloc_destroy:
  fixes s :: "'a lstate_scheme"
  assumes "pool_list s n xs l ns" and "total_free xs = 0 \<longrightarrow> fresh_block cb me sizeof_dlink_node n xs"
  shows "\<exists>s1 l1 s2 l2 xs2 m. dlink_add_tail_alloc cb me d s l = Some (s1, l1) \<and> ll_tail l1 = m \<and>
    dlink_destroy m s1 l1 = Some (s2, l2) \<and> pool_list s2 n xs2 l2 ns \<and> used_elems xs2 = used_elems xs \<and>
    (\<forall>a. a \<in> used_elems xs \<longrightarrow> map_option nd_data (b_nodes s2 a) = map_option nd_data (b_nodes s a)) \<and>
    l_count s2 = l_count s"
proof -
  obtain m s1 l1 xs1 where a: "dlink_add_tail_alloc cb me d s l = Some (s1, l1)" "pool_list s1 n xs1 l1 (ns @ m # [])"
      "m \<notin> used_elems xs" "used_elems xs1 = insert m (used_elems xs)"
      "\<forall>a \<in> used_elems xs. map_option nd_data (b_nodes s1 a) = map_option nd_data (b_nodes s a)"
      "l_count s1 = l_count s + 1"
    using dlink_add_tail_alloc_ok[OF assms, of d] by (elim exE conjE) (rule that)
  obtain s2 l2 xs2 where b: "dlink_destroy m s1 l1 = Some (s2, l2)" "pool_list s2 n xs2 l2 (ns @ [])"
      "used_elems xs2 = used_elems xs1 - {m}"
      "\<forall>a \<in> used_elems xs1 - {m}. map_option nd_data (b_nodes s2 a) = map_option nd_data (b_nodes s1 a)"
      "l_count s2 = l_count s1 - 1"
    using dlink_destroy_ok[OF a(2)] by (elim exE conjE) (rule that)
  have U: "used_elems xs1 - {m} = used_elems xs" using a(3,4) by simp
  have "ll_tail l1 = m" using a(2) by (simp add: pool_list_def dlist_def)
  with a b U show ?thesis
    by (intro exI[of _ s1] exI[of _ l1] exI[of _ s2] exI[of _ l2] exI[of _ xs2] exI[of _ m] conjI) simp_all
qed

text \<open>A node pool of two nodes, as \<open>dlink_init\<close> makes it in empty memory.\<close>

definition boot_lstate :: lstate where
  "boot_lstate = bstate.extend boot_state \<lparr>l_heap = NULL, l_count = 0\<rparr>"

definition demo_pool_state :: lstate where
  "demo_pool_state = the (dlink_init 8 16 1000 2 boot_lstate)"

lemma demo_pool_list: "pool_list demo_pool_state 2 demo_blocks empty_list []"
proof -
  have pad: "pad_elemsize (of_nat sizeof_dlink_node) = 24" by (simp add: pad_elemsize_def sizeof_dlink_node_def)
  have "\<exists>s'. blockheap_create 8 16 1000 (of_nat sizeof_dlink_node) 2 (Some ''dlink_node'') boot_lstate = Some (8, s') \<and>
      heap_inv s' 8 24 2 [(16, 1000, rev (slots 1000 24 2), [])] \<and>
      dlist (b_nodes s') (b_heap_lists s') [8] \<and> map_option nd_data (b_nodes s' 8) = Some 8 \<and>
      (\<forall>nm. Some ''dlink_node'' = Some nm \<longrightarrow> map_option bh_name (b_heaps s' 8) = Some (take 63 nm)) \<and>
      b_dying s' = b_dying boot_lstate \<and> block_area 24 2 1000 \<subseteq> dom (b_nodes s') \<and>
      bstate.more s' = bstate.more boot_lstate"
    by (rule blockheap_create_ok)
      (simp_all add: pad demo_fresh demo_area, simp_all add: sizeof_dlink_node_def boot_lstate_def boot_state_def bstate.defs)
  then obtain s' :: lstate where s': "blockheap_create 8 16 1000 (of_nat sizeof_dlink_node) 2 (Some ''dlink_node'') boot_lstate = Some (8, s')"
      "heap_inv s' 8 24 2 demo_blocks" "block_area 24 2 1000 \<subseteq> dom (b_nodes s')"
    unfolding demo_blocks_def slots_demo by blast
  have "dlink_init 8 16 1000 2 boot_lstate = Some (s'\<lparr>l_heap := 8\<rparr>)" using s'(1) by (simp add: dlink_init_def)
  moreover have "heap_inv (s'\<lparr>l_heap := 8\<rparr>) 8 24 2 demo_blocks"
    by (rule heap_inv_cframe[OF s'(2), of "{}" "{}" "{}"]) (simp_all add: cframe_def)
  ultimately show ?thesis using s'(3)
    by (simp add: pool_list_def demo_pool_state_def pool_ok_def sizeof_dlink_node_def demo_blocks_def)
qed

theorem dlink_alloc_destroy_witness:
  "pool_list demo_pool_state 2 demo_blocks empty_list [] \<and>
   (\<exists>s1 l1 s2 l2 xs2. dlink_add_tail_alloc NULL NULL 77 demo_pool_state empty_list = Some (s1, l1) \<and>
      dlink_destroy (ll_tail l1) s1 l1 = Some (s2, l2) \<and> pool_list s2 2 xs2 l2 [] \<and> used_elems xs2 = {})"
proof -
  have "total_free demo_blocks = 0 \<longrightarrow> fresh_block NULL NULL sizeof_dlink_node 2 demo_blocks"
    by (simp add: demo_blocks_def)
  from dlink_alloc_destroy[OF demo_pool_list this, of 77] show ?thesis
    using demo_pool_list by (auto simp: demo_blocks_def)
qed

end
