(* ===== verification/Obj_List.thy ===== *)
theory Obj_List
  imports Dlink_Pool
begin

text \<open>
  A list of objects: the nodes come from the node pool, the objects they carry from a block
  heap of their own.  \<open>xs\<close> describes the node pool, \<open>ys\<close> the pool of the objects at the heap
  \<open>hp\<close>; \<open>ns\<close> are the nodes and \<open>hs\<close> the objects, in order.
\<close>

definition node_data :: "dheap \<Rightarrow> ptr list \<Rightarrow> ptr option list" where
  "node_data h ns = map (\<lambda>a. map_option nd_data (h a)) ns"

section \<open>Two pools in one memory\<close>

lemma other_pool:
  assumes p: "pool_ok s bhp sz n xs" and fr: "cframe C B H s s'"
    and dis: "pool_area sz n xs \<inter> C = {}" "fst ` set xs \<inter> B = {}" "bhp \<notin> H"
    and dom: "dom (b_nodes s) \<subseteq> dom (b_nodes s')"
  shows "pool_ok s' bhp sz n xs"
proof -
  have "heap_inv s' bhp sz n xs"
    by (rule heap_inv_cframe[OF _ fr _ dis(2,3)]) (use p dis(1) headers_pool[of sz n xs] in \<open>auto simp: pool_ok_def\<close>)
  with p dom show ?thesis unfolding pool_ok_def by blast
qed

lemma pool_ok_free:
  assumes po: "pool_ok s hp z m ys" and p: "p \<in> used_elems ys"
  shows "\<exists>s' ys'. blockheap_free hp p s = Some (0, s') \<and> pool_ok s' hp z m ys' \<and> used_elems ys' = used_elems ys - {p} \<and>
    cframe (pool_area z m ys) (fst ` set ys) {hp} s s' \<and> pool_area z m ys' = pool_area z m ys \<and> fst ` set ys' = fst ` set ys \<and>
    dom (b_nodes s') = dom (b_nodes s) \<and> bstate.more s' = bstate.more s"
proof -
  have inv: "heap_inv s hp z m ys" using po by (simp add: pool_ok_def)
  obtain s' ys' where f: "blockheap_free hp p s = Some (0, s')" "heap_inv s' hp z m ys'"
      "used_elems ys' = used_elems ys - {p}" "bframe (pool_area z m ys) (fst ` set ys) {hp} s s'"
      "pool_area z m ys' = pool_area z m ys" "fst ` set ys' = fst ` set ys" "dom (b_nodes s') = dom (b_nodes s)"
    using blockheap_free_used[OF inv p] by (elim exE conjE) (rule that)
  have "pool_ok s' hp z m ys'" using po f(2,5,7) by (simp add: pool_ok_def)
  moreover have "bstate.more s' = bstate.more s" using f(4) by (simp add: bframe_def)
  ultimately show ?thesis using f bframe_cframe[OF f(4)] by (intro exI[of _ s'] exI[of _ ys'] conjI) assumption+
qed

lemma pool_nodes_same:
  assumes "pool_ok s bhp sz n xs" "cframe C B H s s'" "pool_area sz n xs \<inter> C = {}" "a \<in> used_elems xs"
  shows "b_nodes s' a = b_nodes s a"
  using assms used_elems_pool[of s bhp sz n xs] cframe_cell[of C B H s s' a] unfolding pool_ok_def by blast

lemma other_pool_list:
  assumes p: "pool_list s n xs l ns" and fr: "cframe C B H s s'"
    and dis: "pool_area sizeof_dlink_node n xs \<inter> C = {}" "fst ` set xs \<inter> B = {}" "l_heap s \<notin> H"
    and dom: "dom (b_nodes s) \<subseteq> dom (b_nodes s')" and h: "l_heap s' = l_heap s"
  shows "pool_list s' n xs l ns"
proof -
  have q: "pool_ok s (l_heap s) sizeof_dlink_node n xs" using p by (simp add: pool_list_def)
  have "dlist (b_nodes s') l ns"
    by (rule dlist_cong[of "b_nodes s"]) (use p pool_nodes_same[OF q fr dis(1)] in \<open>auto simp: pool_list_def\<close>)
  with other_pool[OF q fr dis dom] p h show ?thesis by (simp add: pool_list_def)
qed

lemma node_data_cong: "(\<And>a. a \<in> set ns \<Longrightarrow> map_option nd_data (h' a) = map_option nd_data (h a)) \<Longrightarrow> node_data h' ns = node_data h ns"
  by (simp add: node_data_def)

lemma node_data_append: "node_data h (as @ bs) = node_data h as @ node_data h bs"
  by (simp add: node_data_def)

section \<open>Lists of objects\<close>

definition obj_list :: "'a lstate_scheme \<Rightarrow> dlink_list \<Rightarrow> ptr \<Rightarrow> nat \<Rightarrow> nat \<Rightarrow> binfo list \<Rightarrow> nat \<Rightarrow> binfo list \<Rightarrow>
    ptr list \<Rightarrow> ptr list \<Rightarrow> bool" where
  "obj_list s l hp z n xs m ys ns hs \<longleftrightarrow>
     pool_list s n xs l ns \<and> pool_ok s hp z m ys \<and> l_heap s \<noteq> hp \<and>
     pool_area sizeof_dlink_node n xs \<inter> pool_area z m ys = {} \<and> fst ` set xs \<inter> fst ` set ys = {} \<and>
     node_data (b_nodes s) ns = map Some hs \<and> set hs \<subseteq> used_elems ys \<and> distinct hs"

text \<open>Room for one more object and one more node.\<close>

definition obj_room :: "ptr \<times> ptr \<Rightarrow> ptr \<times> ptr \<Rightarrow> nat \<Rightarrow> nat \<Rightarrow> binfo list \<Rightarrow> nat \<Rightarrow> binfo list \<Rightarrow> bool" where
  "obj_room e e' z n xs m ys \<longleftrightarrow>
     (total_free ys = 0 \<longrightarrow> fresh_block (fst e) (snd e) z m ys) \<and>
     (total_free xs = 0 \<longrightarrow> fresh_block (fst e') (snd e') sizeof_dlink_node n xs) \<and>
     (pool_area sizeof_dlink_node n xs \<union> grow_area sizeof_dlink_node n xs (snd e')) \<inter>
       (pool_area z m ys \<union> grow_area z m ys (snd e)) = {} \<and>
     (fst ` set xs \<union> grow_block xs (fst e')) \<inter> (fst ` set ys \<union> grow_block ys (fst e)) = {}"

lemma obj_list_more:
  assumes o: "obj_list s l hp z n xs m ys ns hs" and c: "cframe {} {} {} s s'" and eq: "b_nodes s' = b_nodes s" "l_heap s' = l_heap s"
  shows "obj_list s' l hp z n xs m ys ns hs"
  using o pool_ok_more[OF _ c, of hp z m ys] other_pool_list[OF _ c, of n xs l ns] eq by (auto simp: obj_list_def)

lemma obj_ptr:
  assumes "obj_list s l hp z n xs m ys ns hs" "p \<in> set hs"
  shows "p \<noteq> NULL" "p \<in> used_elems ys"
  using assms pool_ok_used_mapped[of s hp z m ys p] by (auto simp: obj_list_def)

lemma obj_nodes:
  assumes "obj_list s l hp z n xs m ys ns hs"
  shows "dlist (b_nodes s) l ns" "node_data (b_nodes s) ns = map Some hs" "length ns = length hs"
proof -
  show n: "node_data (b_nodes s) ns = map Some hs" and "dlist (b_nodes s) l ns"
    using assms by (simp_all add: obj_list_def pool_list_def)
  show "length ns = length hs" using arg_cong[OF n, of length] by (simp add: node_data_def)
qed

lemma node_data_same:
  assumes "pool_list s n xs l ns" "cframe C B H s s'" "pool_area sizeof_dlink_node n xs \<inter> C = {}"
  shows "node_data (b_nodes s') ns = node_data (b_nodes s) ns"
proof (rule node_data_cong)
  fix a assume "a \<in> set ns"
  then have "a \<in> used_elems xs" "pool_ok s (l_heap s) sizeof_dlink_node n xs" using assms(1) by (auto simp: pool_list_def)
  then show "map_option nd_data (b_nodes s' a) = map_option nd_data (b_nodes s a)"
    using pool_nodes_same[OF _ assms(2,3)] by simp
qed

lemma obj_alloc:
  fixes s :: "'a lstate_scheme"
  assumes o: "obj_list s l hp z n xs m ys ns hs" and room: "obj_room e e' z n xs m ys"
  shows "\<exists>t s1 ys'. blockheap_alloc (fst e) (snd e) hp s = Some (t, s1) \<and> obj_list s1 l hp z n xs m ys' ns hs \<and>
    t \<noteq> NULL \<and> t \<notin> used_elems ys \<and> used_elems ys' = insert t (used_elems ys) \<and> bstate.more s1 = bstate.more s \<and>
    pool_area z m ys' = pool_area z m ys \<union> grow_area z m ys (snd e) \<and> fst ` set ys' = fst ` set ys \<union> grow_block ys (fst e)"
proof -
  have po: "pool_ok s hp z m ys" and pl: "pool_list s n xs l ns" and hp: "l_heap s \<noteq> hp" and hs: "set hs \<subseteq> used_elems ys" "distinct hs"
    and nd: "node_data (b_nodes s) ns = map Some hs" using o by (auto simp: obj_list_def)
  have fr: "total_free ys = 0 \<longrightarrow> fresh_block (fst e) (snd e) z m ys" using room by (simp add: obj_room_def)
  have ar: "pool_area sizeof_dlink_node n xs \<inter> (pool_area z m ys \<union> grow_area z m ys (snd e)) = {}"
      "fst ` set xs \<inter> (fst ` set ys \<union> grow_block ys (fst e)) = {}"
    using room unfolding obj_room_def by blast+
  obtain t s1 ys' where t: "blockheap_alloc (fst e) (snd e) hp s = Some (t, s1)"
      "took z m hp ys (fst e) (snd e) t s s1 ys'" "bstate.more s1 = bstate.more s"
    using blockheap_alloc_took[OF po fr] by blast
  have tk: "pool_ok s1 hp z m ys'" "t \<notin> used_elems ys" "used_elems ys' = insert t (used_elems ys)"
      "cframe (pool_area z m ys \<union> grow_area z m ys (snd e)) (fst ` set ys \<union> grow_block ys (fst e)) {hp} s s1"
      "pool_area z m ys' = pool_area z m ys \<union> grow_area z m ys (snd e)"
      "fst ` set ys' = fst ` set ys \<union> grow_block ys (fst e)" "dom (b_nodes s) \<subseteq> dom (b_nodes s1)"
    using t(2) unfolding took_def by blast+
  have lh: "l_heap s1 = l_heap s" using t(3) by (cases s, cases s1, simp)
  have pl1: "pool_list s1 n xs l ns"
    by (rule other_pool_list[OF pl tk(4) ar]) (use hp tk(7) lh in simp_all)
  have "obj_list s1 l hp z n xs m ys' ns hs"
    unfolding obj_list_def node_data_same[OF pl tk(4) ar(1)] lh tk(5,6) using pl1 tk(1) hp ar hs tk(3) nd by blast
  moreover have "t \<noteq> NULL" using pool_ok_used_mapped[OF tk(1)] tk(3) by blast
  ultimately show ?thesis using t(1,3) tk(2,3,5,6)
    by (intro exI[of _ t] exI[of _ s1] exI[of _ ys'] conjI) assumption+
qed

lemma obj_add:
  fixes s :: "'a lstate_scheme"
  assumes o: "obj_list s l hp z n xs m ys ns hs" and t: "t \<in> used_elems ys" "t \<notin> set hs"
    and room: "total_free xs = 0 \<longrightarrow> fresh_block cb me sizeof_dlink_node n xs"
      "(pool_area sizeof_dlink_node n xs \<union> grow_area sizeof_dlink_node n xs me) \<inter> pool_area z m ys = {}"
      "(fst ` set xs \<union> grow_block xs cb) \<inter> fst ` set ys = {}"
  shows "\<exists>k s' l' xs'. dlink_add_tail_alloc cb me t s l = Some (s', l') \<and> obj_list s' l' hp z n xs' m ys (ns @ [k]) (hs @ [t]) \<and>
    used_elems xs' = insert k (used_elems xs) \<and> k \<notin> used_elems xs \<and> l_heap s' = l_heap s \<and> l_count s' = l_count s + 1 \<and>
    lstate.more s' = lstate.more s"
proof -
  let ?z = sizeof_dlink_node
  have pl: "pool_list s n xs l ns" and po: "pool_ok s hp z m ys" and hp: "l_heap s \<noteq> hp" and nd: "node_data (b_nodes s) ns = map Some hs"
    and hs: "set hs \<subseteq> used_elems ys" "distinct hs"
    using o by (auto simp: obj_list_def)
  obtain k s' l' xs' where a: "dlink_add_tail_alloc cb me t s l = Some (s', l')" "pool_list s' n xs' l' (ns @ [k])"
      "k \<notin> used_elems xs" "used_elems xs' = insert k (used_elems xs)"
      "map_option nd_data (b_nodes s' k) = Some t"
      "\<forall>a \<in> used_elems xs. map_option nd_data (b_nodes s' a) = map_option nd_data (b_nodes s a)"
      "cframe (pool_area ?z n xs \<union> grow_area ?z n xs me) (fst ` set xs \<union> grow_block xs cb) {l_heap s} s s'"
      "pool_area ?z n xs' = pool_area ?z n xs \<union> grow_area ?z n xs me" "fst ` set xs' = fst ` set xs \<union> grow_block xs cb"
      "l_heap s' = l_heap s" "l_count s' = l_count s + 1" "lstate.more s' = lstate.more s" "dom (b_nodes s) \<subseteq> dom (b_nodes s')"
    using dlink_add_tail_alloc_ok[OF pl room(1), of t] by (elim exE conjE) (rule that)
  have po': "pool_ok s' hp z m ys"
    by (rule other_pool[OF po a(7) _ _ _ a(13)]) (use room(2,3) hp in \<open>simp_all add: Int_commute\<close>)
  have "node_data (b_nodes s') ns = node_data (b_nodes s) ns"
    by (rule node_data_cong) (use a(6) pl in \<open>auto simp: pool_list_def\<close>)
  moreover have "node_data (b_nodes s') [k] = [Some t]" using a(5) by (simp add: node_data_def)
  ultimately have "node_data (b_nodes s') (ns @ [k]) = map Some (hs @ [t])" using nd by (simp add: node_data_append)
  moreover have "pool_area ?z n xs' \<inter> pool_area z m ys = {}" "fst ` set xs' \<inter> fst ` set ys = {}"
    unfolding a(8,9) by (fact room)+
  ultimately have "obj_list s' l' hp z n xs' m ys (ns @ [k]) (hs @ [t])"
    using po' a(2,10) hp hs t by (simp add: obj_list_def)
  with a(1,3,4,10-12) show ?thesis
    by (intro exI[of _ k] exI[of _ s'] exI[of _ l'] exI[of _ xs'] conjI) assumption+
qed

lemma obj_free:
  fixes s :: "'a lstate_scheme"
  assumes o: "obj_list s l hp z n xs m ys ns hs" and p: "p \<in> used_elems ys" "p \<notin> set hs"
  shows "\<exists>s' ys'. blockheap_free hp p s = Some (0, s') \<and> obj_list s' l hp z n xs m ys' ns hs \<and>
    used_elems ys' = used_elems ys - {p} \<and> bstate.more s' = bstate.more s"
proof -
  have po: "pool_ok s hp z m ys" and pl: "pool_list s n xs l ns" and hp: "l_heap s \<noteq> hp" and hs: "set hs \<subseteq> used_elems ys" "distinct hs"
    and nd: "node_data (b_nodes s) ns = map Some hs"
    and ar: "pool_area sizeof_dlink_node n xs \<inter> pool_area z m ys = {}" "fst ` set xs \<inter> fst ` set ys = {}"
    using o by (auto simp: obj_list_def)
  obtain s' ys' where f: "blockheap_free hp p s = Some (0, s')" "pool_ok s' hp z m ys'"
      "used_elems ys' = used_elems ys - {p}" "cframe (pool_area z m ys) (fst ` set ys) {hp} s s'"
      "pool_area z m ys' = pool_area z m ys" "fst ` set ys' = fst ` set ys" "dom (b_nodes s') = dom (b_nodes s)"
      "bstate.more s' = bstate.more s"
    using pool_ok_free[OF po p(1)] by (elim exE conjE) (rule that)
  note ok = f(2) and fr = f(4) and more = f(8)
  have lh: "l_heap s' = l_heap s" using more by (cases s, cases s', simp)
  have pl': "pool_list s' n xs l ns"
    by (rule other_pool_list[OF pl fr ar]) (use hp f(7) lh in simp_all)
  have "obj_list s' l hp z n xs m ys' ns hs"
    unfolding obj_list_def node_data_same[OF pl fr ar(1)] lh f(3,5,6) using pl' ok hp ar hs p nd by blast
  with f(1,3) more show ?thesis by (intro exI[of _ s'] exI[of _ ys'] conjI) assumption+
qed

lemma obj_unlink:
  fixes s :: "'a lstate_scheme"
  assumes o: "obj_list s l hp z n xs m ys (as @ q # bs) (hs1 @ p # hs2)" and len: "length as = length hs1"
  shows "\<exists>nds l'. dlink_delete q (b_nodes s) l = Some (nds, l') \<and> nds q = b_nodes s q \<and>
    obj_list (s\<lparr>b_nodes := nds\<rparr>) l' hp z n xs m ys (as @ bs) (hs1 @ hs2)"
proof -
  have dl: "dlist (b_nodes s) l (as @ q # bs)" and nd: "node_data (b_nodes s) (as @ q # bs) = map Some (hs1 @ p # hs2)"
    and pl: "pool_list s n xs l (as @ q # bs)" and po: "pool_ok s hp z m ys"
    and hs: "set (hs1 @ p # hs2) \<subseteq> used_elems ys" "distinct (hs1 @ p # hs2)"
    and ar: "pool_area sizeof_dlink_node n xs \<inter> pool_area z m ys = {}" "fst ` set xs \<inter> fst ` set ys = {}" "l_heap s \<noteq> hp"
    using o unfolding obj_list_def pool_list_def by blast+
  obtain nds l' where d: "dlink_delete q (b_nodes s) l = Some (nds, l')" "dlist nds l' (as @ bs)"
      "nds q = b_nodes s q" "dframe (set (as @ bs)) {} (b_nodes s) nds"
    using dlink_delete_spec[OF dl] by blast
  have qs: "set (as @ q # bs) \<subseteq> used_elems xs" using pl by (simp add: pool_list_def)
  have dom2: "dom nds = dom (b_nodes s)" using dframe_dom[OF d(4)] .
  have "pool_ok (s\<lparr>b_nodes := nds\<rparr>) (l_heap s) sizeof_dlink_node n xs"
    by (rule pool_ok_relink[OF _ d(4)]) (use pl in \<open>auto simp: pool_list_def\<close>)
  then have pl2: "pool_list (s\<lparr>b_nodes := nds\<rparr>) n xs l' (as @ bs)" using d(2) qs by (simp add: pool_list_def)
  have area: "set (as @ bs) \<subseteq> pool_area sizeof_dlink_node n xs"
    using qs used_elems_pool[of s "l_heap s" sizeof_dlink_node n xs] pl by (fastforce simp: pool_list_def pool_ok_def)
  have po2: "pool_ok (s\<lparr>b_nodes := nds\<rparr>) hp z m ys"
    by (rule other_pool[OF po cframe_nodes[OF d(4)]]) (use area ar dom2 in auto)
  have "node_data nds (as @ bs) = node_data (b_nodes s) (as @ bs)"
    by (rule node_data_cong) (use dframe_data[OF d(4)] in auto)
  also have "\<dots> = map Some (hs1 @ hs2)" using nd len by (simp add: node_data_def)
  finally have "obj_list (s\<lparr>b_nodes := nds\<rparr>) l' hp z n xs m ys (as @ bs) (hs1 @ hs2)"
    using pl2 po2 ar hs by (simp add: obj_list_def)
  with d(1,3) show ?thesis by blast
qed

text \<open>The node that carries a given object.\<close>

lemma obj_find:
  assumes o: "obj_list s l hp z n xs m ys ns hs"
  shows "p \<notin> set hs \<Longrightarrow> dlink_walk (\<lambda>n. nd_data n = p) (b_nodes s) (ll_head l) = Some NULL"
    "ns = as @ q # bs \<Longrightarrow> hs = hs1 @ p # hs2 \<Longrightarrow> length as = length hs1 \<Longrightarrow>
      dlink_walk (\<lambda>n. nd_data n = p) (b_nodes s) (ll_head l) = Some q"
proof -
  note d = obj_nodes[OF o]
  have other: "\<not> passes (\<lambda>n. nd_data n = p) (b_nodes s) a"
    if "node_data (b_nodes s) as = map Some gs" "p \<notin> set gs" "a \<in> set as" for as gs a
  proof -
    have "map_option nd_data (b_nodes s a) \<in> set (map Some gs)" using that(3) unfolding that(1)[symmetric] node_data_def by simp
    then show ?thesis using that(2) by (auto simp: passes_def split: option.splits)
  qed
  show "dlink_walk (\<lambda>n. nd_data n = p) (b_nodes s) (ll_head l) = Some NULL" if "p \<notin> set hs"
  proof -
    have "find (passes (\<lambda>n. nd_data n = p) (b_nodes s)) ns = None" using other[OF d(2) that] by (simp add: find_None_iff)
    then show ?thesis unfolding dlink_walk_dlist[OF d(1)] by simp
  qed
  show "dlink_walk (\<lambda>n. nd_data n = p) (b_nodes s) (ll_head l) = Some q"
    if e: "ns = as @ q # bs" "hs = hs1 @ p # hs2" "length as = length hs1"
  proof -
    have q: "map_option nd_data (b_nodes s q) = Some p" and a: "node_data (b_nodes s) as = map Some hs1"
      using d(2) e by (simp_all add: node_data_def)
    have "p \<notin> set hs1" using o e(2) by (simp add: obj_list_def)
    from other[OF a this] have "find (passes (\<lambda>n. nd_data n = p) (b_nodes s)) (as @ q # bs) = Some q"
      using q by (induction as) (auto simp: passes_def)
    then show ?thesis unfolding dlink_walk_dlist[OF d(1)] e(1) by simp
  qed
qed

text \<open>A new heap for objects beside an existing node pool.\<close>

lemma obj_create:
  fixes s :: "'a lstate_scheme"
  assumes pl: "pool_list s n xs empty_list []" and z: "elemsize \<noteq> 0" "unat (pad_elemsize elemsize) = z" "0 < z"
    and epb: "0 < epb" "epb < 2 ^ 31"
    and hb: "hb \<noteq> NULL" "hb \<notin> set hl" "hb \<noteq> l_heap s" and hl: "dlist (b_nodes s) (b_heap_lists s) hl"
    and fresh: "fresh_block cb me z (nat epb) []" "cb \<notin> fst ` set xs"
      "(insert hb (set hl) \<union> pool_area sizeof_dlink_node n xs) \<inter> block_area z (nat epb) me = {}"
      "insert hb (set hl) \<inter> pool_area sizeof_dlink_node n xs = {}"
  shows "\<exists>s'. blockheap_create hb cb me elemsize epb name s = Some (hb, s') \<and>
    obj_list s' empty_list hb z n xs (nat epb) [(cb, me, rev (slots me z (nat epb)), [])] [] [] \<and> bstate.more s' = bstate.more s"
proof -
  let ?n = "nat epb" let ?ys = "[(cb, me, rev (slots me z ?n), [])]"
  have c: "hb \<notin> block_area z ?n me" "set hl \<inter> block_area z ?n me = {}" using fresh(3) by blast+
  obtain s1 where s1: "blockheap_create hb cb me elemsize epb name s = Some (hb, s1)"
      "heap_inv s1 hb z ?n ?ys" "block_area z ?n me \<subseteq> dom (b_nodes s1)" "bstate.more s1 = bstate.more s"
      "\<forall>p. p \<notin> insert hb (set hl) \<union> block_area z ?n me \<longrightarrow>
        b_nodes s1 p = b_nodes s p \<and> b_owner s1 p = b_owner s p \<and> b_bytes s1 p = b_bytes s p"
      "\<forall>p. p \<noteq> cb \<longrightarrow> b_blocks s1 p = b_blocks s p" "\<forall>p. p \<noteq> hb \<longrightarrow> b_heaps s1 p = b_heaps s p"
      "dom (b_nodes s) \<subseteq> dom (b_nodes s1)"
    using blockheap_create_full[OF hb(1,2) c(1) z(1,2) epb refl fresh(1) hl c(2), of name] by (elim exE conjE) (rule that)
  have fr: "cframe (insert hb (set hl) \<union> block_area z ?n me) {cb} {hb} s s1"
    using s1(5,6,7) by (auto simp: cframe_def)
  have lh: "l_heap s1 = l_heap s" using s1(4) by (cases s, cases s1, simp)
  have pl': "pool_list s1 n xs empty_list []"
    by (rule other_pool_list[OF pl fr]) (use fresh hb(3) s1(8) lh in auto)
  have "pool_ok s1 hb z ?n ?ys" using s1(2,3) z(3) by (simp add: pool_ok_def)
  moreover have "pool_area sizeof_dlink_node n xs \<inter> pool_area z ?n ?ys = {}" using fresh(3) by auto
  ultimately have "obj_list s1 empty_list hb z n xs ?n ?ys [] []"
    using pl' lh fresh(2) hb(3) by (simp add: obj_list_def node_data_def)
  with s1(1,4) show ?thesis by blast
qed

end
