(* ===== verification/Pkg.thy ===== *)
theory Pkg
  imports Obj_List Conf
begin

text \<open>
  The cache of open packages of \<open>src/pkg.c\<close>.  Handles are elements of the block
  heap \<open>pkg_heap\<close>, the cache list \<open>pkg_list\<close> is made of nodes of the node pool,
  and both heaps live in the one memory of the allocator.  The state extends that of the
  node pool by the view of the handle structs, the list, and the set of open file
  descriptors.  The results of \<open>open\<close>, \<open>flock\<close> and \<open>time\<close> and the memory
  offered to the allocator are arguments.
\<close>

section \<open>Data\<close>

record pkg_handle =
  ph_fd :: int
  ph_refcnt :: int
  ph_otime :: int
  ph_name :: "string option"
  ph_id :: u32

record pkgst = lstate +
  pk_handles :: "pkg_handle mem"
  pk_heap :: ptr
  pk_list :: dlink_list
  pk_lifetime :: int
  pk_fds :: "int set"
  pk_toc_zbufsize :: int

definition sizeof_pkg_handle :: nat where
  "sizeof_pkg_handle = 32"

definition zero_handle :: pkg_handle where
  "zero_handle = \<lparr>ph_fd = 0, ph_refcnt = 0, ph_otime = 0, ph_name = None, ph_id = 0\<rparr>"

definition upd_handle ::
  "ptr \<Rightarrow> (pkg_handle \<Rightarrow> pkg_handle) \<Rightarrow> 'a pkgst_scheme \<Rightarrow> 'a pkgst_scheme option" where
  "upd_handle p f s = do { hs \<leftarrow> upd_at p f (pk_handles s); Some (s\<lparr>pk_handles := hs\<rparr>) }"

section \<open>Operations\<close>

definition pkg_findnode :: "ptr \<Rightarrow> 'a pkgst_scheme \<Rightarrow> ptr option" where
  "pkg_findnode p s = dlink_walk (\<lambda>n. nd_data n = p) (b_nodes s) (ll_head (pk_list s))"

text \<open>The first half of \<open>pkg_release\<close>: the name is freed, the file unlocked and closed.\<close>

definition pkg_shut :: "ptr \<Rightarrow> 'a pkgst_scheme \<Rightarrow> 'a pkgst_scheme option" where
  "pkg_shut p s = do {
     s \<leftarrow> upd_handle p (\<lambda>h. h\<lparr>ph_name := None\<rparr>) s;
     h \<leftarrow> deref (pk_handles s) p;
     if ph_fd h \<noteq> 0
     then upd_handle p (\<lambda>h. h\<lparr>ph_fd := - 1\<rparr>) (s\<lparr>pk_fds := pk_fds s - {ph_fd h}\<rparr>)
     else Some s }"

text \<open>A released element holds no handle any more.\<close>

definition pkg_release :: "ptr \<Rightarrow> 'a pkgst_scheme \<Rightarrow> 'a pkgst_scheme option" where
  "pkg_release p s = do {
     s \<leftarrow> pkg_shut p s;
     q \<leftarrow> pkg_findnode p s;
     if q \<noteq> NULL then do {
       (nds, l) \<leftarrow> dlink_delete q (b_nodes s) (pk_list s);
       let s = s\<lparr>b_nodes := nds, pk_list := l\<rparr>;
       n \<leftarrow> deref (b_nodes s) q;
       (_, s) \<leftarrow> blockheap_free (pk_heap s) (nd_data n) s;
       Some (s\<lparr>pk_handles := (pk_handles s)(nd_data n := None)\<rparr>) }
     else Some s }"

partial_function (option) pkg_byname_from :: "string \<Rightarrow> dheap \<Rightarrow> pkg_handle mem \<Rightarrow> ptr \<Rightarrow> ptr option" where
  "pkg_byname_from path h hs p =
     (if p = NULL then Some NULL
      else do {
        n \<leftarrow> deref h p;
        x \<leftarrow> deref hs (nd_data n);
        nm \<leftarrow> ph_name x;
        if nm = path then Some (nd_data n) else pkg_byname_from path h hs (nd_next n) })"

definition pkg_handle_byname :: "string \<Rightarrow> 'a pkgst_scheme \<Rightarrow> ptr option" where
  "pkg_handle_byname path s = pkg_byname_from path (b_nodes s) (pk_handles s) (ll_head (pk_list s))"

partial_function (option) pkg_gc_from :: "int \<Rightarrow> ptr \<Rightarrow> 'a pkgst_scheme \<Rightarrow> 'a pkgst_scheme option" where
  "pkg_gc_from now p s =
     (if p = NULL then Some s
      else do {
        n \<leftarrow> deref (b_nodes s) p;
        h \<leftarrow> deref (pk_handles s) (nd_data n);
        s \<leftarrow> (if ph_refcnt h = 0 \<and> now > ph_otime h + pk_lifetime s sdiv 2
              then pkg_release (nd_data n) s else Some s);
        pkg_gc_from now (nd_next n) s })"

definition pkg_gc :: "int \<Rightarrow> 'a pkgst_scheme \<Rightarrow> 'a pkgst_scheme option" where
  "pkg_gc now s = pkg_gc_from now (ll_head (pk_list s)) s"

text \<open>
  The part of \<open>pkg_open\<close> for a package that is not in the cache: \<open>fd\<close> is the
  result of \<open>open\<close>, \<open>lock\<close> whether \<open>flock\<close> succeeded, \<open>e\<close> and
  \<open>e'\<close> the memory offered for a block of handles and for a block of nodes.
\<close>

definition pkg_open_new ::
  "ptr \<times> ptr \<Rightarrow> ptr \<times> ptr \<Rightarrow> int \<Rightarrow> bool \<Rightarrow> string \<Rightarrow> 'a pkgst_scheme \<Rightarrow> (ptr \<times> 'a pkgst_scheme) option" where
  "pkg_open_new e e' fd lock path s = do {
     (t, s) \<leftarrow> blockheap_alloc (fst e) (snd e) (pk_heap s) s;
     s \<leftarrow> upd_handle t (\<lambda>h. h\<lparr>ph_name := Some path, ph_fd := fd\<rparr>)
           (s\<lparr>pk_handles := (pk_handles s)(t \<mapsto> zero_handle)\<rparr>);
     if fd < 0 then do { s \<leftarrow> pkg_release t s; Some (NULL, s) }
     else do {
       let s = s\<lparr>pk_fds := insert fd (pk_fds s)\<rparr>;
       if \<not> lock then do { s \<leftarrow> pkg_release t s; Some (NULL, s) }
       else do {
         (s, l) \<leftarrow> dlink_add_tail_alloc (fst e') (snd e') t s (pk_list s);
         Some (t, s\<lparr>pk_list := l\<rparr>) } } }"

definition pkg_open ::
  "ptr \<times> ptr \<Rightarrow> ptr \<times> ptr \<Rightarrow> int \<Rightarrow> bool \<Rightarrow> int \<Rightarrow> string \<Rightarrow> 'a pkgst_scheme \<Rightarrow>
   (ptr \<times> 'a pkgst_scheme) option" where
  "pkg_open e e' fd lock now path s = do {
     t \<leftarrow> pkg_handle_byname path s;
     (t, s) \<leftarrow> (if t = NULL then pkg_open_new e e' fd lock path s else Some (t, s));
     if t = NULL then Some (NULL, s)
     else do {
       s \<leftarrow> upd_handle t (\<lambda>h. h\<lparr>ph_otime := now, ph_refcnt := ph_refcnt h + 1\<rparr>) s;
       Some (t, s) } }"

definition pkg_close :: "ptr \<Rightarrow> 'a pkgst_scheme \<Rightarrow> 'a pkgst_scheme option" where
  "pkg_close p s = upd_handle p (\<lambda>h. h\<lparr>ph_refcnt := ph_refcnt h - 1\<rparr>) s"

text \<open>
  \<open>pkg_init\<close>: a failed \<open>blockheap_create\<close> raises SIGTERM, which ends the process.  The registration of the periodic collector is a request to the event loop.
\<close>

definition pkg_init :: "ptr \<Rightarrow> ptr \<Rightarrow> ptr \<Rightarrow> conf \<Rightarrow> 'a pkgst_scheme \<Rightarrow> 'a pkgst_scheme option" where
  "pkg_init hb cb me cf s = do {
     epb \<leftarrow> dconf_get_int cf (Some ''tuning.heap.pkg'') 128;
     (h, s) \<leftarrow> blockheap_create hb cb me (of_nat sizeof_pkg_handle) epb (Some ''pkg'') s;
     t \<leftarrow> dconf_get_str cf (Some ''tuning.timer.pkg_gc'') None;
     lt \<leftarrow> nn2_timestr_to_time t 60;
     z \<leftarrow> dconf_get_int cf (Some ''tuning.toc.gz.buffer'') 1310720;
     if h = NULL then None else Some (s\<lparr>pk_heap := h, pk_lifetime := lt, pk_toc_zbufsize := z\<rparr>) }"

section \<open>The invariant of the cache\<close>

definition handle_name :: "pkg_handle mem \<Rightarrow> ptr \<Rightarrow> string option" where
  "handle_name m p = (case m p of None \<Rightarrow> None | Some x \<Rightarrow> ph_name x)"

definition handles_ok :: "pkg_handle mem \<Rightarrow> ptr list \<Rightarrow> bool" where
  "handles_ok m hs \<longleftrightarrow> distinct (map (handle_name m) hs) \<and> (\<forall>p \<in> set hs. handle_name m p \<noteq> None)"

text \<open>
  \<open>xs\<close> describes the node pool, \<open>ys\<close> the handle pool; \<open>ns\<close> are the nodes and
  \<open>hs\<close> the handles of the cache, in order.
\<close>

definition pkg_inv ::
  "'a pkgst_scheme \<Rightarrow> nat \<Rightarrow> binfo list \<Rightarrow> nat \<Rightarrow> binfo list \<Rightarrow> ptr list \<Rightarrow> ptr list \<Rightarrow> bool" where
  "pkg_inv s n xs m ys ns hs \<longleftrightarrow>
     obj_list s (pk_list s) (pk_heap s) sizeof_pkg_handle n xs m ys ns hs \<and> handles_ok (pk_handles s) hs"

lemma handle_name_upd [simp]:
  "handle_name (m(p := v)) q = (if q = p then (case v of None \<Rightarrow> None | Some x \<Rightarrow> ph_name x) else handle_name m q)"
  by (simp add: handle_name_def)

lemma handles_ok_distinct: "handles_ok m hs \<Longrightarrow> distinct hs"
  by (simp add: handles_ok_def distinct_map)

lemma handles_ok_other: "handles_ok m hs \<Longrightarrow> p \<notin> set hs \<Longrightarrow> handles_ok (m(p := v)) hs"
proof -
  assume h: "handles_ok m hs" and p: "p \<notin> set hs"
  have eq: "\<And>q. q \<in> set hs \<Longrightarrow> handle_name (m(p := v)) q = handle_name m q" using p by auto
  then have "map (handle_name (m(p := v))) hs = map (handle_name m) hs" by (rule map_cong[OF refl])
  then show ?thesis using h eq unfolding handles_ok_def by (simp del: handle_name_upd map_eq_conv)
qed

lemma handles_ok_same_name:
  assumes "handles_ok m hs" "m p = Some x" "ph_name y = ph_name x"
  shows "handles_ok (m(p \<mapsto> y)) hs"
proof -
  have "handle_name (m(p \<mapsto> y)) = handle_name m" using assms by (auto simp: handle_name_def fun_eq_iff)
  then show ?thesis using assms(1) by (simp add: handles_ok_def)
qed

lemma handles_ok_nth:
  assumes "handles_ok m hs" "p \<in> set hs"
  obtains x nm where "m p = Some x" "ph_name x = Some nm"
proof -
  obtain nm where "handle_name m p = Some nm" using assms by (auto simp: handles_ok_def)
  with that show ?thesis by (auto simp: handle_name_def split: option.splits)
qed

lemma pkg_inv_iff:
  "pkg_inv s n xs m ys ns hs \<longleftrightarrow>
     pool_list s n xs (pk_list s) ns \<and> pool_ok s (pk_heap s) sizeof_pkg_handle m ys \<and>
     l_heap s \<noteq> pk_heap s \<and>
     pool_area sizeof_dlink_node n xs \<inter> pool_area sizeof_pkg_handle m ys = {} \<and>
     fst ` set xs \<inter> fst ` set ys = {} \<and>
     node_data (b_nodes s) ns = map Some hs \<and>
     set hs \<subseteq> used_elems ys \<and> handles_ok (pk_handles s) hs"
  using handles_ok_distinct by (auto simp: pkg_inv_def obj_list_def)

text \<open>An operation on handle structs alone keeps the pools.\<close>

lemma pkg_inv_handles:
  assumes i: "pkg_inv s n xs m ys ns hs" and h: "handles_ok hm hs"
  shows "pkg_inv (s\<lparr>pk_handles := hm\<rparr>) n xs m ys ns hs" "pkg_inv (s\<lparr>pk_handles := hm, pk_fds := F\<rparr>) n xs m ys ns hs"
proof -
  have c: "cframe {} {} {} s (s\<lparr>pk_handles := hm\<rparr>)" "cframe {} {} {} s (s\<lparr>pk_handles := hm, pk_fds := F\<rparr>)"
    by (simp_all add: cframe_def)
  show "pkg_inv (s\<lparr>pk_handles := hm\<rparr>) n xs m ys ns hs"
    using i h pool_ok_more[OF _ c(1)] other_pool_list[OF _ c(1)] by (simp add: pkg_inv_iff)
  show "pkg_inv (s\<lparr>pk_handles := hm, pk_fds := F\<rparr>) n xs m ys ns hs"
    using i h pool_ok_more[OF _ c(2)] other_pool_list[OF _ c(2)] by (simp add: pkg_inv_iff)
qed

lemma pkg_inv_handle_ptr:
  assumes "pkg_inv s n xs m ys ns hs" "p \<in> set hs"
  shows "p \<noteq> NULL" "p \<in> used_elems ys"
  using assms pool_ok_used_mapped[of s "pk_heap s" sizeof_pkg_handle m ys p] by (auto simp: pkg_inv_iff)

text \<open>The parts of the state that only \<open>pkg_init\<close> and the node pool change.\<close>

definition pkg_same :: "'a pkgst_scheme \<Rightarrow> 'a pkgst_scheme \<Rightarrow> bool" where
  "pkg_same s s' \<longleftrightarrow> l_heap s' = l_heap s \<and> l_count s' = l_count s \<and> pk_heap s' = pk_heap s \<and>
     pk_lifetime s' = pk_lifetime s \<and> pk_toc_zbufsize s' = pk_toc_zbufsize s \<and> pkgst.more s' = pkgst.more s"

definition fds_without :: "pkg_handle \<Rightarrow> int set \<Rightarrow> int set" where
  "fds_without h F = (if ph_fd h \<noteq> 0 then F - {ph_fd h} else F)"

lemma pkg_shut_ok:
  assumes "p \<noteq> NULL" "pk_handles s p = Some h"
  shows "pkg_shut p s = Some (s\<lparr>pk_handles := (pk_handles s)(p \<mapsto> h\<lparr>ph_name := None, ph_fd := if ph_fd h \<noteq> 0 then - 1 else ph_fd h\<rparr>),
    pk_fds := fds_without h (pk_fds s)\<rparr>)"
proof (cases "ph_fd h = 0")
  case True
  with assms show ?thesis by (cases s, cases h) (simp add: pkg_shut_def upd_handle_def mem_simps fds_without_def)
next
  case False
  with assms show ?thesis by (cases s) (simp add: pkg_shut_def upd_handle_def mem_simps fds_without_def)
qed

text \<open>Releasing a cached handle takes it off the list and frees its memory; the list node stays in use.\<close>

lemma pkg_release_cached:
  assumes i: "pkg_inv s n xs m ys (as @ q # bs) (hs1 @ p # hs2)" and len: "length as = length hs1"
    and h: "pk_handles s p = Some h"
  shows "\<exists>s' ys'. pkg_release p s = Some s' \<and> pkg_inv s' n xs m ys' (as @ bs) (hs1 @ hs2) \<and>
    used_elems ys' = used_elems ys - {p} \<and> pk_handles s' = (pk_handles s)(p := None) \<and>
    pk_fds s' = fds_without h (pk_fds s) \<and> pkg_same s s'"
proof -
  have o: "obj_list s (pk_list s) (pk_heap s) sizeof_pkg_handle n xs m ys (as @ q # bs) (hs1 @ p # hs2)"
    and hok: "handles_ok (pk_handles s) (hs1 @ hs2)" using i by (auto simp: pkg_inv_def handles_ok_def)
  have hd: "p \<notin> set (hs1 @ hs2)" using o by (simp add: obj_list_def)
  have pn: "p \<noteq> NULL" "p \<in> used_elems ys" using obj_ptr[OF o, of p] by simp_all
  define h1 where "h1 = h\<lparr>ph_name := None, ph_fd := if ph_fd h \<noteq> 0 then - 1 else ph_fd h\<rparr>"
  let ?s1 = "s\<lparr>pk_handles := (pk_handles s)(p \<mapsto> h1), pk_fds := fds_without h (pk_fds s)\<rparr>"
  obtain nds l where d: "dlink_delete q (b_nodes s) (pk_list s) = Some (nds, l)" "nds q = b_nodes s q"
      "obj_list (s\<lparr>b_nodes := nds\<rparr>) l (pk_heap s) sizeof_pkg_handle n xs m ys (as @ bs) (hs1 @ hs2)"
    using obj_unlink[OF o len] by blast
  have q: "q \<noteq> NULL" using dlist_split_nodes(1)[OF obj_nodes(1)[OF o]] .
  obtain nq where nq: "b_nodes s q = Some nq" "nd_data nq = p"
    using obj_nodes(2)[OF o] len by (auto simp: node_data_def)
  let ?s2 = "?s1\<lparr>b_nodes := nds, pk_list := l\<rparr>"
  have "obj_list ?s2 l (pk_heap s) sizeof_pkg_handle n xs m ys (as @ bs) (hs1 @ hs2)"
    by (rule obj_list_more[OF d(3)]) (simp_all add: cframe_def)
  from obj_free[OF this pn(2) hd] obtain s3 ys' where f: "blockheap_free (pk_heap s) p ?s2 = Some (0, s3)"
      "obj_list s3 l (pk_heap s) sizeof_pkg_handle n xs m ys' (as @ bs) (hs1 @ hs2)"
      "used_elems ys' = used_elems ys - {p}" "bstate.more s3 = bstate.more ?s2"
    by blast
  let ?s' = "s3\<lparr>pk_handles := (pk_handles s3)(p := None)\<rparr>"
  have more: "pk_handles s3 = (pk_handles s)(p \<mapsto> h1)" "pk_list s3 = l" "pk_heap s3 = pk_heap s"
      "pk_fds s3 = fds_without h (pk_fds s)" "pkg_same s s3"
    using f(4) by (cases s, cases s3, simp add: pkg_same_def)+
  have fn: "pkg_findnode p ?s1 = Some q"
    using obj_find(2)[OF o refl refl len] by (simp add: pkg_findnode_def)
  have shut: "pkg_shut p s = Some ?s1" using pkg_shut_ok[of p s h] pn(1) h unfolding h1_def by simp
  have run: "pkg_release p s = Some ?s'"
    using pn(1) f(1) d(1,2) q nq shut fn by (simp add: pkg_release_def mem_simps Let_def)
  have fin: "pk_handles ?s' = (pk_handles s)(p := None)" using more(1) by simp
  have "obj_list ?s' l (pk_heap s) sizeof_pkg_handle n xs m ys' (as @ bs) (hs1 @ hs2)"
    by (rule obj_list_more[OF f(2)]) (simp_all add: cframe_def)
  then have "pkg_inv ?s' n xs m ys' (as @ bs) (hs1 @ hs2)"
    using more(2,3) handles_ok_other[OF hok hd, of None] fin by (simp add: pkg_inv_def)
  with run f(3) fin more(4,5) show ?thesis
    by (intro exI[of _ ?s'] exI[of _ ys'] conjI) (assumption | simp add: pkg_same_def)+
qed

section \<open>The collector\<close>

definition expired :: "int \<Rightarrow> int \<Rightarrow> pkg_handle \<Rightarrow> bool" where
  "expired now lifetime h \<longleftrightarrow> ph_refcnt h = 0 \<and> now > ph_otime h + lifetime sdiv 2"

definition kept :: "int \<Rightarrow> int \<Rightarrow> pkg_handle mem \<Rightarrow> ptr \<Rightarrow> bool" where
  "kept now lifetime m p = (case m p of None \<Rightarrow> True | Some h \<Rightarrow> \<not> expired now lifetime h)"

definition gc_result :: "int \<Rightarrow> 'a pkgst_scheme \<Rightarrow> ptr list \<Rightarrow> 'a pkgst_scheme \<Rightarrow> binfo list \<Rightarrow> binfo list \<Rightarrow> bool" where
  "gc_result now s bs s' ys ys' \<longleftrightarrow>
     (let gone = {p \<in> set bs. \<not> kept now (pk_lifetime s) (pk_handles s) p} in
      used_elems ys' = used_elems ys - gone \<and> pk_handles s' = (\<lambda>p. if p \<in> gone then None else pk_handles s p) \<and>
      pkg_same s s' \<and>
      pk_fds s' = pk_fds s - {ph_fd h | p h. p \<in> gone \<and> pk_handles s p = Some h \<and> ph_fd h \<noteq> 0})"

lemma pkg_gc_NULL: "pkg_gc_from now NULL s = Some s"
  by (simp add: pkg_gc_from.simps)

lemma pkg_gc_step:
  assumes "p \<noteq> NULL" "b_nodes s p = Some nd" "nd_data nd \<noteq> NULL" "pk_handles s (nd_data nd) = Some h"
  shows "pkg_gc_from now p s = (if expired now (pk_lifetime s) h
    then pkg_release (nd_data nd) s \<bind> pkg_gc_from now (nd_next nd) else pkg_gc_from now (nd_next nd) s)"
  using assms by (subst pkg_gc_from.simps) (simp add: mem_simps expired_def)

lemma gc_result_refl: "gc_result now s [] s ys ys"
  by (simp add: gc_result_def pkg_same_def)

lemma gc_result_keep:
  assumes "gc_result now s bs s' ys ys'" "pk_handles s p = Some h" "\<not> expired now (pk_lifetime s) h"
  shows "gc_result now s (p # bs) s' ys ys'"
proof -
  have "kept now (pk_lifetime s) (pk_handles s) p" using assms(2,3) by (simp add: kept_def)
  then have "{q \<in> set (p # bs). \<not> kept now (pk_lifetime s) (pk_handles s) q} = {q \<in> set bs. \<not> kept now (pk_lifetime s) (pk_handles s) q}"
    by auto
  with assms(1) show ?thesis unfolding gc_result_def by simp
qed

lemma gc_result_release:
  assumes r: "gc_result now s1 bs s' ys1 ys'" and h: "pk_handles s p = Some h" "expired now (pk_lifetime s) h"
    and p: "p \<notin> set bs" and s1: "pk_handles s1 = (pk_handles s)(p := None)" "pk_fds s1 = fds_without h (pk_fds s)"
      "pkg_same s s1" "used_elems ys1 = used_elems ys - {p}"
  shows "gc_result now s (p # bs) s' ys ys'"
proof -
  define G where "G = {q \<in> set bs. \<not> kept now (pk_lifetime s) (pk_handles s) q}"
  have lt: "pk_lifetime s1 = pk_lifetime s" using s1(3) by (simp add: pkg_same_def)
  have G1: "{q \<in> set bs. \<not> kept now (pk_lifetime s1) (pk_handles s1) q} = G"
    using p unfolding G_def lt s1(1) by (auto simp: kept_def)
  have G0: "{q \<in> set (p # bs). \<not> kept now (pk_lifetime s) (pk_handles s) q} = insert p G"
    using h by (auto simp: G_def kept_def)
  have pG: "p \<notin> G" using p by (simp add: G_def)
  have r': "used_elems ys' = used_elems ys1 - G" "pk_handles s' = (\<lambda>q. if q \<in> G then None else pk_handles s1 q)"
      "pkg_same s1 s'" "pk_fds s' = pk_fds s1 - {ph_fd h | q h. q \<in> G \<and> pk_handles s1 q = Some h \<and> ph_fd h \<noteq> 0}"
    using r unfolding gc_result_def G1 Let_def by blast+
  have "used_elems ys' = used_elems ys - insert p G" using r'(1) s1(4) by blast
  moreover have "pk_handles s' = (\<lambda>q. if q \<in> insert p G then None else pk_handles s q)"
    unfolding r'(2) s1(1) by auto
  moreover have "pkg_same s s'" using r'(3) s1(3) by (simp add: pkg_same_def)
  moreover have "pk_fds s' = pk_fds s - {ph_fd h | q h. q \<in> insert p G \<and> pk_handles s q = Some h \<and> ph_fd h \<noteq> 0}"
    unfolding r'(4) s1(1,2) using h(1) pG by (auto simp: fds_without_def)
  ultimately show ?thesis unfolding gc_result_def G0 Let_def by blast
qed

lemma pkg_inv_length: "pkg_inv s n xs m ys ns hs \<Longrightarrow> length ns = length hs"
  unfolding pkg_inv_iff node_data_def by (metis length_map)

lemma pkg_gc_from_ok:
  assumes "pkg_inv s n xs m ys (as @ bs) (hs1 @ hs2)" "length as = length hs1"
  shows "\<exists>s' ys' ns'. pkg_gc_from now (hdd NULL bs) s = Some s' \<and>
    pkg_inv s' n xs m ys' ns' (hs1 @ filter (kept now (pk_lifetime s) (pk_handles s)) hs2) \<and>
    gc_result now s hs2 s' ys ys'"
  using assms
proof (induction hs2 arbitrary: s ys as bs hs1)
  case Nil
  then have "bs = []" using pkg_inv_length[OF Nil(1)] by simp
  with Nil show ?case using gc_result_refl by (auto simp: pkg_gc_NULL)
next
  case (Cons p hs2)
  from Cons.prems obtain b bs' where bs: "bs = b # bs'"
    using pkg_inv_length[OF Cons.prems(1)] by (cases bs) simp_all
  have i: "pkg_inv s n xs m ys (as @ b # bs') (hs1 @ p # hs2)" using Cons.prems(1) bs by simp
  have hok: "handles_ok (pk_handles s) (hs1 @ p # hs2)" using i by (simp add: pkg_inv_iff)
  have dis: "distinct (hs1 @ p # hs2)" by (rule handles_ok_distinct[OF hok])
  obtain h nm where h: "pk_handles s p = Some h" "ph_name h = Some nm"
    by (rule handles_ok_nth[OF hok, of p]) auto
  have dl: "dlist (b_nodes s) (pk_list s) (as @ b # bs')" and nd: "node_data (b_nodes s) (as @ b # bs') = map Some (hs1 @ p # hs2)"
    using i by (auto simp: pkg_inv_iff pool_list_def)
  obtain nb where nb: "b_nodes s b = Some nb" "nd_next nb = hdd NULL bs'" using dlist_split_nodes(2)[OF dl] by blast
  have nbp: "nd_data nb = p" using nd Cons.prems(2) nb(1) by (simp add: node_data_def)
  have pn: "p \<noteq> NULL" "b \<noteq> NULL" using pkg_inv_handle_ptr(1)[OF i] dlist_split_nodes(1)[OF dl] by auto
  note st = pkg_gc_step[OF pn(2) nb(1), unfolded nbp nb(2), OF pn(1) h(1)]
  show ?case
  proof (cases "expired now (pk_lifetime s) h")
    case True
    obtain s1 ys1 where s1: "pkg_release p s = Some s1" "pkg_inv s1 n xs m ys1 (as @ bs') (hs1 @ hs2)"
        "used_elems ys1 = used_elems ys - {p}" "pk_handles s1 = (pk_handles s)(p := None)"
        "pk_fds s1 = fds_without h (pk_fds s)" "pkg_same s s1"
      using pkg_release_cached[OF i Cons.prems(2) h(1)] by blast
    obtain s' ys' ns' where r: "pkg_gc_from now (hdd NULL bs') s1 = Some s'"
        "pkg_inv s' n xs m ys' ns' (hs1 @ filter (kept now (pk_lifetime s1) (pk_handles s1)) hs2)"
        "gc_result now s1 hs2 s' ys1 ys'"
      using Cons.IH[OF s1(2) Cons.prems(2)] by blast
    have ph: "p \<notin> set hs2" using dis by simp
    have lt: "pk_lifetime s1 = pk_lifetime s" using s1(6) by (simp add: pkg_same_def)
    have "filter (kept now (pk_lifetime s1) (pk_handles s1)) hs2 = filter (kept now (pk_lifetime s) (pk_handles s)) (p # hs2)"
    proof -
      have "filter (kept now (pk_lifetime s1) (pk_handles s1)) hs2 = filter (kept now (pk_lifetime s) (pk_handles s)) hs2"
        by (rule filter_cong[OF refl]) (use ph in \<open>auto simp: kept_def s1(4) lt\<close>)
      with True h(1) show ?thesis by (simp add: kept_def)
    qed
    with r(2) have inv': "pkg_inv s' n xs m ys' ns' (hs1 @ filter (kept now (pk_lifetime s) (pk_handles s)) (p # hs2))" by simp
    have "pkg_gc_from now (hdd NULL bs) s = Some s'" using st True s1(1) r(1) bs by simp
    moreover have "gc_result now s (p # hs2) s' ys ys'" by (rule gc_result_release[OF r(3) h(1) True ph s1(4,5,6,3)])
    ultimately show ?thesis using inv' by blast
  next
    case False
    have i2: "pkg_inv s n xs m ys ((as @ [b]) @ bs') ((hs1 @ [p]) @ hs2)" using i by simp
    obtain s' ys' ns' where r: "pkg_gc_from now (hdd NULL bs') s = Some s'"
        "pkg_inv s' n xs m ys' ns' ((hs1 @ [p]) @ filter (kept now (pk_lifetime s) (pk_handles s)) hs2)"
        "gc_result now s hs2 s' ys ys'"
      using Cons.IH[OF i2] Cons.prems(2) by auto
    have "pkg_gc_from now (hdd NULL bs) s = Some s'" using st False r(1) bs by simp
    moreover have "pkg_inv s' n xs m ys' ns' (hs1 @ filter (kept now (pk_lifetime s) (pk_handles s)) (p # hs2))"
      using r(2) False h(1) by (simp add: kept_def)
    ultimately show ?thesis using gc_result_keep[OF r(3) h(1) False] by blast
  qed
qed

lemma pkg_gc_ok:
  assumes i: "pkg_inv s n xs m ys ns hs"
  shows "\<exists>s' ys' ns'. pkg_gc now s = Some s' \<and>
    pkg_inv s' n xs m ys' ns' (filter (kept now (pk_lifetime s) (pk_handles s)) hs) \<and> gc_result now s hs s' ys ys'"
proof -
  have "ll_head (pk_list s) = hdd NULL ns" using i by (simp add: pkg_inv_iff pool_list_def dlist_def)
  then show ?thesis using pkg_gc_from_ok[of s n xs m ys "[]" ns "[]" hs now] i by (simp add: pkg_gc_def)
qed

section \<open>Opening packages\<close>

lemma pkg_byname_from_ok:
  assumes "dseg h q ns NULL" "node_data h ns = map Some hs" "\<forall>p \<in> set hs. p \<noteq> NULL \<and> handle_name m p \<noteq> None"
  shows "pkg_byname_from path h m (hdd NULL ns) =
    Some (case find (\<lambda>p. handle_name m p = Some path) hs of Some p \<Rightarrow> p | None \<Rightarrow> NULL)"
  using assms
proof (induction ns arbitrary: q hs)
  case Nil
  then show ?case by (simp add: pkg_byname_from.simps node_data_def)
next
  case (Cons a ns)
  then obtain p hs' where hs: "hs = p # hs'" by (cases hs) (auto simp: node_data_def)
  obtain nd where nd: "a \<noteq> NULL" "h a = Some nd" "nd_next nd = hdd NULL ns" "dseg h a ns NULL" using Cons.prems(1) by auto
  have p: "nd_data nd = p" "node_data h ns = map Some hs'" using Cons.prems(2) hs nd(2) by (simp_all add: node_data_def)
  obtain x nm where x: "m p = Some x" "ph_name x = Some nm" "p \<noteq> NULL"
    using Cons.prems(3) hs by (auto simp: handle_name_def split: option.splits)
  have "handle_name m p = Some nm" using x by (simp add: handle_name_def)
  moreover have "pkg_byname_from path h m (hdd NULL (a # ns)) =
      (if nm = path then Some p else pkg_byname_from path h m (hdd NULL ns))"
    using nd p x by (subst pkg_byname_from.simps) (simp add: mem_simps)
  ultimately show ?case using Cons.IH[OF nd(4) p(2)] Cons.prems(3) hs by simp
qed

lemma pkg_handle_byname_ok:
  assumes i: "pkg_inv s n xs m ys ns hs"
  shows "pkg_handle_byname path s =
    Some (case find (\<lambda>p. handle_name (pk_handles s) p = Some path) hs of Some p \<Rightarrow> p | None \<Rightarrow> NULL)"
proof -
  have "\<forall>p \<in> set hs. p \<noteq> NULL \<and> handle_name (pk_handles s) p \<noteq> None"
    using i pkg_inv_handle_ptr(1)[OF i] by (auto simp: pkg_inv_iff handles_ok_def)
  moreover have "ll_head (pk_list s) = hdd NULL ns" "dseg (b_nodes s) NULL ns NULL" "node_data (b_nodes s) ns = map Some hs"
    using i by (auto simp: pkg_inv_iff pool_list_def dlist_def)
  ultimately show ?thesis unfolding pkg_handle_byname_def using pkg_byname_from_ok by metis
qed

lemma pkg_byname_unique:
  assumes i: "pkg_inv s n xs m ys ns hs" and p: "p \<in> set hs" "handle_name (pk_handles s) p = Some path"
  shows "pkg_handle_byname path s = Some p"
proof -
  have d: "distinct (map (handle_name (pk_handles s)) hs)" using i by (simp add: pkg_inv_iff handles_ok_def)
  obtain q where q: "find (\<lambda>p. handle_name (pk_handles s) p = Some path) hs = Some q"
    using p by (cases "find (\<lambda>p. handle_name (pk_handles s) p = Some path) hs") (auto simp: find_None_iff)
  then have "q \<in> set hs" "handle_name (pk_handles s) q = Some path" by (auto simp: find_Some_iff)
  with p d have "q = p" by (metis (mono_tags, lifting) distinct_map inj_onD)
  with q show ?thesis unfolding pkg_handle_byname_ok[OF i] by simp
qed

lemma pkg_byname_absent:
  assumes i: "pkg_inv s n xs m ys ns hs" and p: "Some path \<notin> handle_name (pk_handles s) ` set hs"
  shows "pkg_handle_byname path s = Some NULL"
proof -
  have "find (\<lambda>p. handle_name (pk_handles s) p = Some path) hs = None" using p by (force simp: find_None_iff)
  then show ?thesis unfolding pkg_handle_byname_ok[OF i] by simp
qed

definition touch :: "int \<Rightarrow> pkg_handle \<Rightarrow> pkg_handle" where
  "touch now h = h\<lparr>ph_otime := now, ph_refcnt := ph_refcnt h + 1\<rparr>"

lemma pkg_open_cached:
  assumes i: "pkg_inv s n xs m ys ns hs" and p: "p \<in> set hs" "pk_handles s p = Some h" "ph_name h = Some path"
  shows "pkg_open e e' fd lock now path s = Some (p, s\<lparr>pk_handles := (pk_handles s)(p \<mapsto> touch now h)\<rparr>)"
    "pkg_inv (s\<lparr>pk_handles := (pk_handles s)(p \<mapsto> touch now h)\<rparr>) n xs m ys ns hs"
proof -
  have "handle_name (pk_handles s) p = Some path" using p by (simp add: handle_name_def)
  then have b: "pkg_handle_byname path s = Some p" by (rule pkg_byname_unique[OF i p(1)])
  have pn: "p \<noteq> NULL" using pkg_inv_handle_ptr(1)[OF i p(1)] .
  show "pkg_open e e' fd lock now path s = Some (p, s\<lparr>pk_handles := (pk_handles s)(p \<mapsto> touch now h)\<rparr>)"
    using b pn p(2) by (simp add: pkg_open_def upd_handle_def mem_simps touch_def)
  show "pkg_inv (s\<lparr>pk_handles := (pk_handles s)(p \<mapsto> touch now h)\<rparr>) n xs m ys ns hs"
    by (rule pkg_inv_handles(1)[OF i], rule handles_ok_same_name[where x = h])
      (use i p(2) in \<open>auto simp: pkg_inv_iff touch_def\<close>)
qed

text \<open>Enough memory for one more handle and one more node, apart from what is in use.\<close>

abbreviation mem_room :: "ptr \<times> ptr \<Rightarrow> ptr \<times> ptr \<Rightarrow> nat \<Rightarrow> binfo list \<Rightarrow> nat \<Rightarrow> binfo list \<Rightarrow> bool" where
  "mem_room e e' n xs m ys \<equiv> obj_room e e' sizeof_pkg_handle n xs m ys"

lemma sizeof_handle_pos: "0 < sizeof_pkg_handle"
  by (simp add: sizeof_pkg_handle_def)

lemma pkg_alloc_handle:
  assumes i: "pkg_inv s n xs m ys ns hs" and room: "mem_room e e' n xs m ys"
  shows "\<exists>t s1 ys'. blockheap_alloc (fst e) (snd e) (pk_heap s) s = Some (t, s1) \<and> pkg_inv s1 n xs m ys' ns hs \<and>
    t \<noteq> NULL \<and> t \<notin> used_elems ys \<and> used_elems ys' = insert t (used_elems ys) \<and> bstate.more s1 = bstate.more s \<and>
    pool_area sizeof_pkg_handle m ys' = pool_area sizeof_pkg_handle m ys \<union> grow_area sizeof_pkg_handle m ys (snd e) \<and>
    fst ` set ys' = fst ` set ys \<union> grow_block ys (fst e)"
proof -
  have o: "obj_list s (pk_list s) (pk_heap s) sizeof_pkg_handle n xs m ys ns hs" and h: "handles_ok (pk_handles s) hs"
    using i by (simp_all add: pkg_inv_def)
  obtain t s1 ys' where t: "blockheap_alloc (fst e) (snd e) (pk_heap s) s = Some (t, s1)"
      "obj_list s1 (pk_list s) (pk_heap s) sizeof_pkg_handle n xs m ys' ns hs"
      "t \<noteq> NULL" "t \<notin> used_elems ys" "used_elems ys' = insert t (used_elems ys)" "bstate.more s1 = bstate.more s"
      "pool_area sizeof_pkg_handle m ys' = pool_area sizeof_pkg_handle m ys \<union> grow_area sizeof_pkg_handle m ys (snd e)"
      "fst ` set ys' = fst ` set ys \<union> grow_block ys (fst e)"
    using obj_alloc[OF o room] by (elim exE conjE) (rule that)
  have "pk_heap s1 = pk_heap s" "pk_list s1 = pk_list s" "pk_handles s1 = pk_handles s"
    using t(6) by (cases s, cases s1, simp)+
  with t(2) h have "pkg_inv s1 n xs m ys' ns hs" by (simp add: pkg_inv_def)
  with t(1,3-8) show ?thesis by (intro exI[of _ t] exI[of _ s1] exI[of _ ys'] conjI) assumption+
qed

lemma pkg_release_uncached:
  assumes i: "pkg_inv s n xs m ys ns hs" and t: "t \<noteq> NULL" "t \<notin> set hs" "pk_handles s t = Some h"
  shows "\<exists>h'. pkg_release t s = Some (s\<lparr>pk_handles := (pk_handles s)(t \<mapsto> h'), pk_fds := fds_without h (pk_fds s)\<rparr>) \<and> ph_name h' = None"
proof -
  let ?h' = "h\<lparr>ph_name := None, ph_fd := if ph_fd h \<noteq> 0 then - 1 else ph_fd h\<rparr>"
  let ?s1 = "s\<lparr>pk_handles := (pk_handles s)(t \<mapsto> ?h'), pk_fds := fds_without h (pk_fds s)\<rparr>"
  have "pkg_findnode t ?s1 = Some NULL"
    using obj_find(1)[of s "pk_list s" "pk_heap s" sizeof_pkg_handle n xs m ys ns hs t] i t(2) by (simp add: pkg_inv_def pkg_findnode_def)
  with pkg_shut_ok[OF t(1,3)] show ?thesis by (intro exI[of _ ?h']) (simp add: pkg_release_def)
qed

definition fresh_handle :: "int \<Rightarrow> string \<Rightarrow> pkg_handle" where
  "fresh_handle fd path = \<lparr>ph_fd = fd, ph_refcnt = 0, ph_otime = 0, ph_name = Some path, ph_id = 0\<rparr>"

text \<open>The state of \<open>pkg_open\<close> once the new handle is filled in.\<close>

lemma pkg_open_prepared:
  assumes i: "pkg_inv s n xs m ys ns hs" and room: "mem_room e e' n xs m ys"
  shows "\<exists>t s2 ys'. t \<noteq> NULL \<and> t \<notin> used_elems ys \<and> pkg_inv s2 n xs m ys' ns hs \<and>
    used_elems ys' = insert t (used_elems ys) \<and> pk_handles s2 = (pk_handles s)(t \<mapsto> fresh_handle fd path) \<and>
    pk_fds s2 = pk_fds s \<and> pkg_same s s2 \<and> pk_list s2 = pk_list s \<and>
    pool_area sizeof_pkg_handle m ys' = pool_area sizeof_pkg_handle m ys \<union> grow_area sizeof_pkg_handle m ys (snd e) \<and>
    fst ` set ys' = fst ` set ys \<union> grow_block ys (fst e) \<and>
    pkg_open_new e e' fd lock path s =
      (if fd < 0 then do { s \<leftarrow> pkg_release t s2; Some (NULL, s) }
       else if \<not> lock then do { s \<leftarrow> pkg_release t (s2\<lparr>pk_fds := insert fd (pk_fds s2)\<rparr>); Some (NULL, s) }
       else do {
         (s, l) \<leftarrow> dlink_add_tail_alloc (fst e') (snd e') t (s2\<lparr>pk_fds := insert fd (pk_fds s2)\<rparr>) (pk_list s2);
         Some (t, s\<lparr>pk_list := l\<rparr>) })"
proof -
  obtain t s1 ys' where t: "blockheap_alloc (fst e) (snd e) (pk_heap s) s = Some (t, s1)" "pkg_inv s1 n xs m ys' ns hs"
      "t \<noteq> NULL" "t \<notin> used_elems ys" "used_elems ys' = insert t (used_elems ys)" "bstate.more s1 = bstate.more s"
      "pool_area sizeof_pkg_handle m ys' = pool_area sizeof_pkg_handle m ys \<union> grow_area sizeof_pkg_handle m ys (snd e)"
      "fst ` set ys' = fst ` set ys \<union> grow_block ys (fst e)"
    using pkg_alloc_handle[OF i room] by (elim exE conjE) (rule that)
  let ?s2 = "s1\<lparr>pk_handles := (pk_handles s1)(t \<mapsto> fresh_handle fd path)\<rparr>"
  have more: "pk_handles s1 = pk_handles s" "pk_fds s1 = pk_fds s" "pkg_same s s1" "pk_list s1 = pk_list s"
    using t(6) by (cases s, cases s1, simp add: pkg_same_def)+
  have th: "t \<notin> set hs" using i t(4) by (auto simp: pkg_inv_iff)
  have i2: "pkg_inv ?s2 n xs m ys' ns hs"
    by (rule pkg_inv_handles(1)[OF t(2)], rule handles_ok_other) (use t(2) th in \<open>auto simp: pkg_inv_iff\<close>)
  have up: "upd_handle t (\<lambda>h. h\<lparr>ph_name := Some path, ph_fd := fd\<rparr>) (s1\<lparr>pk_handles := (pk_handles s1)(t \<mapsto> zero_handle)\<rparr>) = Some ?s2"
    using t(3) by (simp add: upd_handle_def mem_simps zero_handle_def fresh_handle_def)
  have run: "pkg_open_new e e' fd lock path s =
      (if fd < 0 then do { s \<leftarrow> pkg_release t ?s2; Some (NULL, s) }
       else if \<not> lock then do { s \<leftarrow> pkg_release t (?s2\<lparr>pk_fds := insert fd (pk_fds ?s2)\<rparr>); Some (NULL, s) }
       else do {
         (s, l) \<leftarrow> dlink_add_tail_alloc (fst e') (snd e') t (?s2\<lparr>pk_fds := insert fd (pk_fds ?s2)\<rparr>) (pk_list ?s2);
         Some (t, s\<lparr>pk_list := l\<rparr>) })"
    unfolding pkg_open_new_def t(1) bind.simps prod.case up Let_def by simp
  have "pk_handles ?s2 = (pk_handles s)(t \<mapsto> fresh_handle fd path)" "pk_fds ?s2 = pk_fds s" "pkg_same s ?s2" "pk_list ?s2 = pk_list s"
    using more by (simp_all add: pkg_same_def)
  with t(3,4,5,7,8) i2 run show ?thesis
    by (intro exI[of _ t] exI[of _ ?s2] exI[of _ ys'] conjI) assumption+
qed

lemma pkg_inv_fds: "pkg_inv s n xs m ys ns hs \<Longrightarrow> pkg_inv (s\<lparr>pk_fds := F\<rparr>) n xs m ys ns hs"
  using pkg_inv_handles(2)[of s n xs m ys ns hs "pk_handles s" F] by (simp add: pkg_inv_iff)

lemma pkg_same_trans: "pkg_same s s' \<Longrightarrow> pkg_same s' s'' \<Longrightarrow> pkg_same s s''"
  by (simp add: pkg_same_def)

lemma pkg_add_node:
  assumes i: "pkg_inv s n xs m ys ns hs" and t: "t \<in> used_elems ys" "handle_name (pk_handles s) t = Some path"
    and new: "Some path \<notin> handle_name (pk_handles s) ` set hs"
    and room: "total_free xs = 0 \<longrightarrow> fresh_block cb me sizeof_dlink_node n xs"
      "(pool_area sizeof_dlink_node n xs \<union> grow_area sizeof_dlink_node n xs me) \<inter> pool_area sizeof_pkg_handle m ys = {}"
      "(fst ` set xs \<union> grow_block xs cb) \<inter> fst ` set ys = {}"
  shows "\<exists>k s' l xs'. dlink_add_tail_alloc cb me t s (pk_list s) = Some (s', l) \<and>
    pkg_inv (s'\<lparr>pk_list := l\<rparr>) n xs' m ys (ns @ [k]) (hs @ [t]) \<and> used_elems xs' = insert k (used_elems xs) \<and>
    k \<notin> used_elems xs \<and> l_heap s' = l_heap s \<and> l_count s' = l_count s + 1 \<and> lstate.more s' = lstate.more s"
proof -
  have o: "obj_list s (pk_list s) (pk_heap s) sizeof_pkg_handle n xs m ys ns hs" and h: "handles_ok (pk_handles s) hs"
    using i by (simp_all add: pkg_inv_def)
  have "t \<notin> set hs" using t(2) new by (metis image_eqI)
  from obj_add[OF o t(1) this room] obtain k s' l xs' where a: "dlink_add_tail_alloc cb me t s (pk_list s) = Some (s', l)"
      "obj_list s' l (pk_heap s) sizeof_pkg_handle n xs' m ys (ns @ [k]) (hs @ [t])"
      "used_elems xs' = insert k (used_elems xs)" "k \<notin> used_elems xs" "l_heap s' = l_heap s" "l_count s' = l_count s + 1"
      "lstate.more s' = lstate.more s"
    by (elim exE conjE) (rule that)
  have more: "pk_heap s' = pk_heap s" "pk_handles s' = pk_handles s" using a(7) by (cases s, cases s', simp)+
  have "obj_list (s'\<lparr>pk_list := l\<rparr>) l (pk_heap s) sizeof_pkg_handle n xs' m ys (ns @ [k]) (hs @ [t])"
    by (rule obj_list_more[OF a(2)]) (simp_all add: cframe_def)
  moreover have "handles_ok (pk_handles s) (hs @ [t])" using h t(2) new by (auto simp: handles_ok_def)
  ultimately have "pkg_inv (s'\<lparr>pk_list := l\<rparr>) n xs' m ys (ns @ [k]) (hs @ [t])" using more by (simp add: pkg_inv_def)
  with a(1,3-7) show ?thesis
    by (intro exI[of _ k] exI[of _ s'] exI[of _ l] exI[of _ xs'] conjI) assumption+
qed

text \<open>Opening an uncached package: on success the handle goes to the end of the cache.\<close>

lemma pkg_open_uncached:
  assumes i: "pkg_inv s n xs m ys ns hs" and room: "mem_room e e' n xs m ys"
    and new: "Some path \<notin> handle_name (pk_handles s) ` set hs" and fd: "0 \<le> fd"
  shows "\<exists>t s' xs' ys' k. pkg_open e e' fd True now path s = Some (t, s') \<and> pkg_inv s' n xs' m ys' (ns @ [k]) (hs @ [t]) \<and>
    t \<notin> used_elems ys \<and> used_elems ys' = insert t (used_elems ys) \<and> used_elems xs' = insert k (used_elems xs) \<and>
    pk_handles s' = (pk_handles s)(t \<mapsto> touch now (fresh_handle fd path)) \<and> pk_fds s' = insert fd (pk_fds s) \<and>
    pk_lifetime s' = pk_lifetime s"
proof -
  obtain t s2 ys' where t: "t \<noteq> NULL" "t \<notin> used_elems ys" "pkg_inv s2 n xs m ys' ns hs"
      "used_elems ys' = insert t (used_elems ys)" "pk_handles s2 = (pk_handles s)(t \<mapsto> fresh_handle fd path)"
      "pk_fds s2 = pk_fds s" "pkg_same s s2" "pk_list s2 = pk_list s"
      "pool_area sizeof_pkg_handle m ys' = pool_area sizeof_pkg_handle m ys \<union> grow_area sizeof_pkg_handle m ys (snd e)"
      "fst ` set ys' = fst ` set ys \<union> grow_block ys (fst e)"
      "pkg_open_new e e' fd True path s =
        (if fd < 0 then do { s \<leftarrow> pkg_release t s2; Some (NULL, s) }
         else if \<not> True then do { s \<leftarrow> pkg_release t (s2\<lparr>pk_fds := insert fd (pk_fds s2)\<rparr>); Some (NULL, s) }
         else do {
           (s, l) \<leftarrow> dlink_add_tail_alloc (fst e') (snd e') t (s2\<lparr>pk_fds := insert fd (pk_fds s2)\<rparr>) (pk_list s2);
           Some (t, s\<lparr>pk_list := l\<rparr>) })"
    using pkg_open_prepared[OF i room, of fd path True] by (elim exE conjE) (rule that)
  let ?s3 = "s2\<lparr>pk_fds := insert fd (pk_fds s2)\<rparr>"
  have i3: "pkg_inv ?s3 n xs m ys' ns hs" by (rule pkg_inv_fds[OF t(3)])
  have th: "t \<notin> set hs" using i t(2) by (auto simp: pkg_inv_iff)
  have nm: "handle_name (pk_handles ?s3) t = Some path" using t(5) by (simp add: fresh_handle_def)
  have "handle_name (pk_handles ?s3) ` set hs = handle_name (pk_handles s) ` set hs"
    by (rule image_cong[OF refl]) (use t(5) th in auto)
  with new have new3: "Some path \<notin> handle_name (pk_handles ?s3) ` set hs" by simp
  have rm: "total_free xs = 0 \<longrightarrow> fresh_block (fst e') (snd e') sizeof_dlink_node n xs"
      "(pool_area sizeof_dlink_node n xs \<union> grow_area sizeof_dlink_node n xs (snd e')) \<inter> pool_area sizeof_pkg_handle m ys' = {}"
      "(fst ` set xs \<union> grow_block xs (fst e')) \<inter> fst ` set ys' = {}"
    using room unfolding obj_room_def t(9,10) by blast+
  have tu: "t \<in> used_elems ys'" using t(4) by simp
  obtain k s' l xs' where a: "dlink_add_tail_alloc (fst e') (snd e') t ?s3 (pk_list ?s3) = Some (s', l)"
      "pkg_inv (s'\<lparr>pk_list := l\<rparr>) n xs' m ys' (ns @ [k]) (hs @ [t])" "used_elems xs' = insert k (used_elems xs)"
      "lstate.more s' = lstate.more ?s3"
    using pkg_add_node[OF i3 tu nm new3 rm] by (elim exE conjE) (rule that)
  have more: "pk_handles s' = pk_handles s2" "pk_fds s' = insert fd (pk_fds s)" "pk_lifetime s' = pk_lifetime s"
    using a(4) t(6,7) by (cases s2, cases s', simp add: pkg_same_def)+
  have new': "pkg_open_new e e' fd True path s = Some (t, s'\<lparr>pk_list := l\<rparr>)" using t(11) a(1) fd by simp
  let ?s' = "s'\<lparr>pk_list := l, pk_handles := (pk_handles s)(t \<mapsto> touch now (fresh_handle fd path))\<rparr>"
  have "pkg_open e e' fd True now path s = Some (t, ?s')"
    using pkg_byname_absent[OF i new] new' t(1,5) more(1)
    by (simp add: pkg_open_def upd_handle_def mem_simps touch_def)
  moreover have "pkg_inv ?s' n xs' m ys' (ns @ [k]) (hs @ [t])"
  proof (rule pkg_inv_handles(1)[OF a(2)])
    have "handles_ok (pk_handles s2) (hs @ [t])" using a(2) more(1) by (simp add: pkg_inv_iff)
    from handles_ok_same_name[OF this, of t "fresh_handle fd path" "touch now (fresh_handle fd path)"]
    show "handles_ok ((pk_handles s)(t \<mapsto> touch now (fresh_handle fd path))) (hs @ [t])"
      using t(5) by (simp add: touch_def)
  qed
  ultimately show ?thesis using t(2,4) a(3) more(2,3)
    by (intro exI[of _ t] exI[of _ ?s'] exI[of _ xs'] exI[of _ ys'] exI[of _ k] conjI) (assumption | simp)+
qed

text \<open>A failed open returns NULL, leaves the cache alone and leaks the handle's memory.\<close>

lemma pkg_open_failed:
  assumes i: "pkg_inv s n xs m ys ns hs" and room: "mem_room e e' n xs m ys"
    and new: "Some path \<notin> handle_name (pk_handles s) ` set hs" and fail: "fd < 0 \<or> \<not> lock"
  shows "\<exists>s' t ys'. pkg_open e e' fd lock now path s = Some (NULL, s') \<and> pkg_inv s' n xs m ys' ns hs \<and>
    t \<notin> used_elems ys \<and> used_elems ys' = insert t (used_elems ys) \<and> (\<forall>p \<in> set hs. pk_handles s' p = pk_handles s p) \<and>
    pk_fds s' = (if fd = 0 then insert fd (pk_fds s) else pk_fds s - {fd})"
proof -
  obtain t s2 ys' where t: "t \<noteq> NULL" "t \<notin> used_elems ys" "pkg_inv s2 n xs m ys' ns hs"
      "used_elems ys' = insert t (used_elems ys)" "pk_handles s2 = (pk_handles s)(t \<mapsto> fresh_handle fd path)"
      "pk_fds s2 = pk_fds s"
      "pkg_open_new e e' fd lock path s =
        (if fd < 0 then do { s \<leftarrow> pkg_release t s2; Some (NULL, s) }
         else if \<not> lock then do { s \<leftarrow> pkg_release t (s2\<lparr>pk_fds := insert fd (pk_fds s2)\<rparr>); Some (NULL, s) }
         else do {
           (s, l) \<leftarrow> dlink_add_tail_alloc (fst e') (snd e') t (s2\<lparr>pk_fds := insert fd (pk_fds s2)\<rparr>) (pk_list s2);
           Some (t, s\<lparr>pk_list := l\<rparr>) })"
    using pkg_open_prepared[OF i room, of fd path lock] by (elim exE conjE) (rule that)
  define s3 where "s3 = (if fd < 0 then s2 else s2\<lparr>pk_fds := insert fd (pk_fds s2)\<rparr>)"
  have s3: "pk_handles s3 = pk_handles s2" "pk_fds s3 = (if fd < 0 then pk_fds s else insert fd (pk_fds s))"
    using t(6) by (simp_all add: s3_def)
  have th: "t \<notin> set hs" using i t(2) by (auto simp: pkg_inv_iff)
  have i3: "pkg_inv s3 n xs m ys' ns hs" using t(3) pkg_inv_fds[OF t(3)] by (simp add: s3_def)
  have "pk_handles s3 t = Some (fresh_handle fd path)" using s3 t(5) by simp
  from pkg_release_uncached[OF i3 t(1) th this]
  obtain h' where h': "pkg_release t s3 = Some (s3\<lparr>pk_handles := (pk_handles s3)(t \<mapsto> h'),
      pk_fds := fds_without (fresh_handle fd path) (pk_fds s3)\<rparr>)" by blast
  let ?s' = "s3\<lparr>pk_handles := (pk_handles s3)(t \<mapsto> h'), pk_fds := fds_without (fresh_handle fd path) (pk_fds s3)\<rparr>"
  have "pkg_open_new e e' fd lock path s = pkg_release t s3 \<bind> (\<lambda>s. Some (NULL, s))"
    using t(7) fail by (cases "fd < 0") (simp_all add: s3_def)
  then have "pkg_open_new e e' fd lock path s = Some (NULL, ?s')" using h' by simp
  then have "pkg_open e e' fd lock now path s = Some (NULL, ?s')"
    using pkg_byname_absent[OF i new] by (simp add: pkg_open_def)
  moreover have "pkg_inv ?s' n xs m ys' ns hs"
    by (rule pkg_inv_handles(2)[OF i3], rule handles_ok_other) (use i3 th in \<open>auto simp: pkg_inv_iff\<close>)
  moreover have "\<forall>p \<in> set hs. pk_handles ?s' p = pk_handles s p" using th t(5) s3(1) by auto
  moreover have "pk_fds ?s' = (if fd = 0 then insert fd (pk_fds s) else pk_fds s - {fd})"
    using s3(2) by (auto simp: fds_without_def fresh_handle_def)
  ultimately show ?thesis using t(2,4)
    by (intro exI[of _ ?s'] exI[of _ t] exI[of _ ys'] conjI) assumption+
qed

section \<open>The cache as a map from paths\<close>

definition pkg_view :: "pkg_handle mem \<Rightarrow> ptr list \<Rightarrow> string \<Rightarrow> (ptr \<times> int \<times> int) option" where
  "pkg_view m hs path =
     (case find (\<lambda>p. handle_name m p = Some path) hs of
        None \<Rightarrow> None
      | Some p \<Rightarrow> map_option (\<lambda>h. (p, ph_refcnt h, ph_otime h)) (m p))"

lemma pkg_view_Some:
  assumes hok: "handles_ok m hs"
  shows "pkg_view m hs path = Some (p, k, ot) \<longleftrightarrow>
    p \<in> set hs \<and> (\<exists>h. m p = Some h \<and> ph_name h = Some path \<and> ph_refcnt h = k \<and> ph_otime h = ot)"
proof -
  have d: "distinct (map (handle_name m) hs)" using hok by (simp add: handles_ok_def)
  have u: "find (\<lambda>p. handle_name m p = Some path) hs = Some p \<longleftrightarrow> p \<in> set hs \<and> handle_name m p = Some path" for p
  proof
    assume "find (\<lambda>p. handle_name m p = Some path) hs = Some p"
    then show "p \<in> set hs \<and> handle_name m p = Some path" by (auto simp: find_Some_iff)
  next
    assume p: "p \<in> set hs \<and> handle_name m p = Some path"
    then obtain q where q: "find (\<lambda>p. handle_name m p = Some path) hs = Some q"
      by (cases "find (\<lambda>p. handle_name m p = Some path) hs") (auto simp: find_None_iff)
    then have "q \<in> set hs" "handle_name m q = Some path" by (auto simp: find_Some_iff)
    with p d have "q = p" by (metis (mono_tags, lifting) distinct_map inj_onD)
    with q show "find (\<lambda>p. handle_name m p = Some path) hs = Some p" by simp
  qed
  have "pkg_view m hs path = Some (p, k, ot) \<longleftrightarrow> find (\<lambda>p. handle_name m p = Some path) hs = Some p \<and>
      (\<exists>h. m p = Some h \<and> ph_refcnt h = k \<and> ph_otime h = ot)"
    by (auto simp: pkg_view_def split: option.splits)
  then show ?thesis unfolding u by (auto simp: handle_name_def split: option.splits)
qed

lemma pkg_view_None:
  "handles_ok m hs \<Longrightarrow> pkg_view m hs path = None \<longleftrightarrow> Some path \<notin> handle_name m ` set hs"
proof -
  assume hok: "handles_ok m hs"
  show "pkg_view m hs path = None \<longleftrightarrow> Some path \<notin> handle_name m ` set hs"
  proof (cases "pkg_view m hs path")
    case None
    have "Some path \<noteq> handle_name m p" if "p \<in> set hs" for p
    proof
      assume "Some path = handle_name m p"
      then obtain h where "m p = Some h" "ph_name h = Some path" by (auto simp: handle_name_def split: option.splits)
      with None that pkg_view_Some[OF hok, of path p "ph_refcnt h" "ph_otime h"] show False by simp
    qed
    with None show ?thesis by auto
  next
    case (Some x)
    obtain p k ot where x: "x = (p, k, ot)" by (cases x)
    from Some[unfolded x pkg_view_Some[OF hok]] have "p \<in> set hs" "handle_name m p = Some path"
      by (auto simp: handle_name_def)
    with Some show ?thesis by (auto intro: image_eqI[of _ _ p])
  qed
qed

definition cache_rel :: "int \<Rightarrow> 'a pkgst_scheme \<Rightarrow> (string \<Rightarrow> (ptr \<times> int \<times> int) option) \<Rightarrow> bool" where
  "cache_rel L s c \<longleftrightarrow> pk_lifetime s = L \<and>
     (\<exists>n xs m ys ns hs. pkg_inv s n xs m ys ns hs \<and> c = pkg_view (pk_handles s) hs)"

text \<open>The contract of a cache of counted handles.\<close>

locale handle_cache =
  fixes rel :: "int \<Rightarrow> 's \<Rightarrow> (string \<Rightarrow> (ptr \<times> int \<times> int) option) \<Rightarrow> bool"
    and find_h :: "string \<Rightarrow> 's \<Rightarrow> ptr option"
    and reopen :: "int \<Rightarrow> string \<Rightarrow> 's \<Rightarrow> (ptr \<times> 's) option"
    and shut :: "ptr \<Rightarrow> 's \<Rightarrow> 's option"
    and gc :: "int \<Rightarrow> 's \<Rightarrow> 's option"
  assumes find_law: "rel L s c \<Longrightarrow> find_h path s = Some (case c path of None \<Rightarrow> NULL | Some (p, _) \<Rightarrow> p)"
    and reopen_law: "rel L s c \<Longrightarrow> c path = Some (p, k, ot) \<Longrightarrow>
      \<exists>s'. reopen now path s = Some (p, s') \<and> rel L s' (c(path \<mapsto> (p, k + 1, now)))"
    and shut_law: "rel L s c \<Longrightarrow> c path = Some (p, k, ot) \<Longrightarrow>
      \<exists>s'. shut p s = Some s' \<and> rel L s' (c(path \<mapsto> (p, k - 1, ot)))"
    and gc_law: "rel L s c \<Longrightarrow> \<exists>s'. gc now s = Some s' \<and>
      rel L s' (\<lambda>path. case c path of None \<Rightarrow> None
        | Some (p, k, ot) \<Rightarrow> if k = 0 \<and> now > ot + L sdiv 2 then None else Some (p, k, ot))"
begin

text \<open>A handle in use survives every collection.\<close>

lemma held:
  assumes "rel L s c" "c path = Some (p, k, ot)" "k \<noteq> 0"
  shows "\<exists>s1 c1. gc now s = Some s1 \<and> rel L s1 c1 \<and> c1 path = Some (p, k, ot)"
proof -
  obtain s' where "gc now s = Some s'" "rel L s' (\<lambda>path. case c path of None \<Rightarrow> None
        | Some (p, k, ot) \<Rightarrow> if k = 0 \<and> now > ot + L sdiv 2 then None else Some (p, k, ot))"
    using gc_law[OF assms(1)] by blast
  with assms(2,3) show ?thesis by (intro exI[of _ s'] exI conjI) (assumption | simp)+
qed

text \<open>An idle handle is collected exactly when half the lifetime has passed since it was last opened.\<close>

lemma idle:
  assumes "rel L s c" "c path = Some (p, 0, ot)"
  shows "\<exists>s1. gc now s = Some s1 \<and> find_h path s1 = Some (if now > ot + L sdiv 2 then NULL else p)"
proof -
  obtain s' where s': "gc now s = Some s'" "rel L s' (\<lambda>path. case c path of None \<Rightarrow> None
        | Some (p, k, ot) \<Rightarrow> if k = 0 \<and> now > ot + L sdiv 2 then None else Some (p, k, ot))"
    using gc_law[OF assms(1)] by blast
  from find_law[OF s'(2), of path] assms(2) s'(1) show ?thesis by (auto split: if_splits)
qed

lemma lifecycle:
  assumes r: "rel L s c" and c: "c path = Some (p, 1, t0)"
  shows "\<exists>s1 s2 s3 s4. gc t1 s = Some s1 \<and> reopen t2 path s1 = Some (p, s2) \<and> shut p s2 = Some s3 \<and> shut p s3 = Some s4 \<and>
    (\<forall>t3. \<exists>s5. gc t3 s4 = Some s5 \<and> find_h path s5 = Some (if t3 > t2 + L sdiv 2 then NULL else p))"
proof -
  obtain s1 c1 where s1: "gc t1 s = Some s1" "rel L s1 c1" "c1 path = Some (p, 1, t0)" using held[OF r c, of t1] by auto
  obtain s2 where s2: "reopen t2 path s1 = Some (p, s2)" "rel L s2 (c1(path \<mapsto> (p, 2, t2)))"
    using reopen_law[OF s1(2,3), of t2] by auto
  obtain s3 where s3: "shut p s2 = Some s3" "rel L s3 (c1(path \<mapsto> (p, 1, t2)))"
    using shut_law[OF s2(2), of path p 2 t2] by auto
  obtain s4 where s4: "shut p s3 = Some s4" "rel L s4 (c1(path \<mapsto> (p, 0, t2)))"
    using shut_law[OF s3(2), of path p 1 t2] by auto
  have "\<exists>s5. gc t3 s4 = Some s5 \<and> find_h path s5 = Some (if t3 > t2 + L sdiv 2 then NULL else p)" for t3
    by (rule idle[OF s4(2)]) simp
  with s1(1) s2(1) s3(1) s4(1) show ?thesis by blast
qed

end

lemma pkg_view_upd:
  assumes hok: "handles_ok m hs" and p: "p \<in> set hs" "m p = Some h" "ph_name h = Some path" "ph_name h' = Some path"
  shows "pkg_view (m(p \<mapsto> h')) hs = (pkg_view m hs)(path \<mapsto> (p, ph_refcnt h', ph_otime h'))"
proof
  fix q
  have hok': "handles_ok (m(p \<mapsto> h')) hs" by (rule handles_ok_same_name[OF hok p(2)]) (simp add: p)
  show "pkg_view (m(p \<mapsto> h')) hs q = ((pkg_view m hs)(path \<mapsto> (p, ph_refcnt h', ph_otime h'))) q"
  proof (cases "q = path")
    case True
    then show ?thesis using p by (simp add: pkg_view_Some[OF hok'])
  next
    case False
    have "handle_name (m(p \<mapsto> h')) = handle_name m" using p by (auto simp: handle_name_def)
    moreover have "(m(p \<mapsto> h')) r = m r" if "handle_name m r = Some q" for r
      using that p False by (auto simp: handle_name_def)
    ultimately have "pkg_view (m(p \<mapsto> h')) hs q = pkg_view m hs q"
      by (cases "find (\<lambda>p. handle_name m p = Some q) hs")
        (auto simp: pkg_view_def simp del: fun_upd_apply dest!: find_Some_iff[THEN iffD1])
    with False show ?thesis by simp
  qed
qed

lemma pkg_view_gc:
  assumes hok: "handles_ok m hs" and G: "G = {p \<in> set hs. \<not> kept now L m p}"
  shows "pkg_view (\<lambda>p. if p \<in> G then None else m p) (filter (kept now L m) hs) =
    (\<lambda>path. case pkg_view m hs path of None \<Rightarrow> None
        | Some (p, k, ot) \<Rightarrow> if k = 0 \<and> now > ot + L sdiv 2 then None else Some (p, k, ot))"
proof
  fix path
  let ?m = "\<lambda>p. if p \<in> G then None else m p" and ?hs = "filter (kept now L m) hs"
  have same: "handle_name ?m p = handle_name m p" "?m p = m p" if "p \<in> set ?hs" for p
    using that by (auto simp: G handle_name_def)
  have hok': "handles_ok ?m ?hs"
  proof -
    have "map (handle_name ?m) ?hs = map (handle_name m) ?hs" by (rule map_cong[OF refl same(1)])
    moreover have "distinct (map (handle_name m) ?hs)" using hok by (simp add: handles_ok_def distinct_map_filter)
    moreover have "handle_name ?m p \<noteq> None" if "p \<in> set ?hs" for p
      unfolding same(1)[OF that] using that hok unfolding handles_ok_def by simp
    ultimately show ?thesis unfolding handles_ok_def by metis
  qed
  show "pkg_view ?m ?hs path = (case pkg_view m hs path of None \<Rightarrow> None
        | Some (p, k, ot) \<Rightarrow> if k = 0 \<and> now > ot + L sdiv 2 then None else Some (p, k, ot))" (is "?l = ?r")
  proof -
    have "?r = Some (p, k, ot) \<longleftrightarrow> pkg_view m hs path = Some (p, k, ot) \<and> \<not> (k = 0 \<and> now > ot + L sdiv 2)" for p k ot
      by (auto split: option.splits if_splits)
    moreover have "?l = Some (p, k, ot) \<longleftrightarrow> pkg_view m hs path = Some (p, k, ot) \<and> \<not> (k = 0 \<and> now > ot + L sdiv 2)" for p k ot
    proof -
      have "?l = Some (p, k, ot) \<longleftrightarrow> (p \<in> set hs \<and> kept now L m p) \<and>
          (\<exists>h. m p = Some h \<and> ph_name h = Some path \<and> ph_refcnt h = k \<and> ph_otime h = ot)"
        unfolding pkg_view_Some[OF hok'] using same(2)[of p] by (cases "p \<in> set ?hs") auto
      moreover have "kept now L m p \<longleftrightarrow> \<not> (k = 0 \<and> now > ot + L sdiv 2)"
        if "m p = Some h" "ph_refcnt h = k" "ph_otime h = ot" for h
        using that by (simp add: kept_def expired_def)
      ultimately show ?thesis unfolding pkg_view_Some[OF hok] by blast
    qed
    ultimately have "?l = Some (p, k, ot) \<longleftrightarrow> ?r = Some (p, k, ot)" for p k ot by blast
    then show ?thesis by (cases ?l; cases ?r) auto
  qed
qed

lemma cache_rel_find:
  "cache_rel L s c \<Longrightarrow> pkg_handle_byname path s = Some (case c path of None \<Rightarrow> NULL | Some (p, _) \<Rightarrow> p)"
proof -
  assume "cache_rel L s c"
  then obtain n xs m ys ns hs where i: "pkg_inv s n xs m ys ns hs" and c: "c = pkg_view (pk_handles s) hs"
    by (auto simp: cache_rel_def)
  have hok: "handles_ok (pk_handles s) hs" using i by (simp add: pkg_inv_iff)
  show ?thesis
  proof (cases "c path")
    case None
    then have "Some path \<notin> handle_name (pk_handles s) ` set hs" using pkg_view_None[OF hok] c by simp
    from pkg_byname_absent[OF i this] None show ?thesis by simp
  next
    case (Some x)
    obtain p k ot where x: "x = (p, k, ot)" by (cases x)
    from Some[unfolded x c pkg_view_Some[OF hok]] have "p \<in> set hs" "handle_name (pk_handles s) p = Some path"
      by (auto simp: handle_name_def)
    with pkg_byname_unique[OF i] Some x show ?thesis by simp
  qed
qed

lemma cache_rel_touch:
  assumes r: "cache_rel L s c" and p: "c path = Some (p, k, ot)" and f: "\<And>h. ph_name (f h) = ph_name h"
  shows "\<exists>h. pk_handles s p = Some h \<and> p \<noteq> NULL \<and> ph_refcnt h = k \<and> ph_otime h = ot \<and>
    cache_rel L (s\<lparr>pk_handles := (pk_handles s)(p \<mapsto> f h)\<rparr>) (c(path \<mapsto> (p, ph_refcnt (f h), ph_otime (f h))))"
proof -
  obtain n xs m ys ns hs where i: "pkg_inv s n xs m ys ns hs" and c: "c = pkg_view (pk_handles s) hs" and L: "pk_lifetime s = L"
    using r by (auto simp: cache_rel_def)
  have hok: "handles_ok (pk_handles s) hs" using i by (simp add: pkg_inv_iff)
  from p[unfolded c pkg_view_Some[OF hok]] obtain h where h: "p \<in> set hs" "pk_handles s p = Some h"
      "ph_name h = Some path" "ph_refcnt h = k" "ph_otime h = ot" by blast
  have "handles_ok ((pk_handles s)(p \<mapsto> f h)) hs" by (rule handles_ok_same_name[OF hok h(2) f])
  from pkg_inv_handles(1)[OF i this]
  have "pkg_inv (s\<lparr>pk_handles := (pk_handles s)(p \<mapsto> f h)\<rparr>) n xs m ys ns hs" .
  moreover have "c(path \<mapsto> (p, ph_refcnt (f h), ph_otime (f h))) = pkg_view ((pk_handles s)(p \<mapsto> f h)) hs"
    unfolding c by (rule pkg_view_upd[OF hok h(1-3), symmetric]) (simp add: f h(3))
  ultimately have "cache_rel L (s\<lparr>pk_handles := (pk_handles s)(p \<mapsto> f h)\<rparr>) (c(path \<mapsto> (p, ph_refcnt (f h), ph_otime (f h))))"
    unfolding cache_rel_def using L by (intro conjI exI[of _ n] exI[of _ xs] exI[of _ m] exI[of _ ys] exI[of _ ns] exI[of _ hs]) simp_all
  with h(2,4,5) pkg_inv_handle_ptr(1)[OF i h(1)] show ?thesis by blast
qed

interpretation pc: handle_cache cache_rel pkg_handle_byname "pkg_open e e' fd lock" pkg_close pkg_gc for e e' fd lock
proof (unfold_locales, goal_cases)
  case (1 L s c path)
  then show ?case by (rule cache_rel_find)
next
  case (2 L s c path p k ot now)
  from cache_rel_touch[OF 2, of "touch now"] obtain h where h: "pk_handles s p = Some h" "p \<noteq> NULL" "ph_refcnt h = k"
      "cache_rel L (s\<lparr>pk_handles := (pk_handles s)(p \<mapsto> touch now h)\<rparr>) (c(path \<mapsto> (p, ph_refcnt (touch now h), ph_otime (touch now h))))"
    by (auto simp: touch_def)
  have "pkg_handle_byname path s = Some p" using cache_rel_find[OF 2(1), of path] 2(2) by simp
  then have "pkg_open e e' fd lock now path s = Some (p, s\<lparr>pk_handles := (pk_handles s)(p \<mapsto> touch now h)\<rparr>)"
    using h(1,2) by (simp add: pkg_open_def upd_handle_def mem_simps touch_def)
  with h(3,4) show ?case by (simp add: touch_def)
next
  case (3 L s c path p k ot)
  from cache_rel_touch[OF 3, of "\<lambda>h. h\<lparr>ph_refcnt := ph_refcnt h - 1\<rparr>"] show ?case
    by (auto simp: pkg_close_def upd_handle_def mem_simps)
next
  case (4 L s c now)
  then obtain n xs m ys ns hs where i: "pkg_inv s n xs m ys ns hs" and c: "c = pkg_view (pk_handles s) hs" and L: "pk_lifetime s = L"
    by (auto simp: cache_rel_def)
  have hok: "handles_ok (pk_handles s) hs" using i by (simp add: pkg_inv_iff)
  obtain s' ys' ns' where g: "pkg_gc now s = Some s'" "pkg_inv s' n xs m ys' ns' (filter (kept now L (pk_handles s)) hs)"
      "gc_result now s hs s' ys ys'"
    using pkg_gc_ok[OF i, of now] L by blast
  define G where "G = {p \<in> set hs. \<not> kept now L (pk_handles s) p}"
  have g': "pk_handles s' = (\<lambda>p. if p \<in> G then None else pk_handles s p)" "pk_lifetime s' = L"
    using g(3) L by (simp_all add: gc_result_def Let_def G_def pkg_same_def)
  have "cache_rel L s' (\<lambda>path. case c path of None \<Rightarrow> None
        | Some (p, k, ot) \<Rightarrow> if k = 0 \<and> now > ot + L sdiv 2 then None else Some (p, k, ot))"
    unfolding cache_rel_def c pkg_view_gc[OF hok G_def, symmetric] g'(1)[symmetric] using g(2) g'(2) by blast
  with g(1) show ?case by blast
qed

section \<open>Initialization\<close>

lemma pkg_init_ok:
  fixes s :: "'a pkgst_scheme"
  assumes pl: "pool_list s n xs empty_list []" and l: "pk_list s = empty_list"
    and cf: "dconf_get_int cf (Some ''tuning.heap.pkg'') 128 = Some epb" "0 < epb" "epb < 2 ^ 31"
      "dconf_get_str cf (Some ''tuning.timer.pkg_gc'') None = Some t" "nn2_timestr_to_time t 60 = Some lt"
      "dconf_get_int cf (Some ''tuning.toc.gz.buffer'') 1310720 = Some z"
    and hb: "hb \<noteq> NULL" "hb \<notin> set hl" "hb \<noteq> l_heap s" and hl: "dlist (b_nodes s) (b_heap_lists s) hl"
    and fresh: "fresh_block cb me sizeof_pkg_handle (nat epb) []" "cb \<notin> fst ` set xs"
      "(insert hb (set hl) \<union> pool_area sizeof_dlink_node n xs) \<inter> block_area sizeof_pkg_handle (nat epb) me = {}"
      "insert hb (set hl) \<inter> pool_area sizeof_dlink_node n xs = {}"
  shows "\<exists>s' ys. pkg_init hb cb me cf s = Some s' \<and> pkg_inv s' n xs (nat epb) ys [] [] \<and> pk_lifetime s' = lt \<and>
    pk_fds s' = pk_fds s \<and> ys = [(cb, me, rev (slots me sizeof_pkg_handle (nat epb)), [])]"
proof -
  let ?z = sizeof_pkg_handle and ?n = "nat epb" let ?ys = "[(cb, me, rev (slots me ?z ?n), [])]"
  have pad: "of_nat ?z \<noteq> (0 :: u64)" "unat (pad_elemsize (of_nat ?z)) = ?z" by (simp_all add: pad_elemsize_def sizeof_pkg_handle_def)
  obtain s1 where s1: "blockheap_create hb cb me (of_nat ?z) epb (Some ''pkg'') s = Some (hb, s1)"
      "obj_list s1 empty_list hb ?z n xs ?n ?ys [] []" "bstate.more s1 = bstate.more s"
    using obj_create[OF pl pad sizeof_handle_pos cf(2,3) hb hl fresh, of "Some ''pkg''"] by blast
  let ?s' = "s1\<lparr>pk_heap := hb, pk_lifetime := lt, pk_toc_zbufsize := z\<rparr>"
  have more: "pk_list s1 = pk_list s" "pk_fds s1 = pk_fds s" using s1(3) by (cases s, cases s1, simp)+
  have "obj_list ?s' empty_list hb ?z n xs ?n ?ys [] []" by (rule obj_list_more[OF s1(2)]) (simp_all add: cframe_def)
  then have "pkg_inv ?s' n xs ?n ?ys [] []" using more(1) l by (simp add: pkg_inv_def handles_ok_def)
  moreover have "pkg_init hb cb me cf s = Some ?s'" using s1(1) cf hb(1) by (simp add: pkg_init_def)
  ultimately show ?thesis using more(2) by (intro exI[of _ ?s'] exI[of _ ?ys] conjI) simp_all
qed

section \<open>Properties\<close>

text \<open>
  C4.  The life of a cached package: opening a package that is not cached gives a
  handle; a later collection keeps it while it is open, a second open returns the same
  handle without opening the file again; after both users have closed it, a
  collection drops it exactly when more than half the configured lifetime has passed
  since the last open.
\<close>

theorem pkg_cache_lifecycle:
  assumes "pkg_inv s n xs m ys ns hs" and "mem_room e e' n xs m ys"
    and "Some path \<notin> handle_name (pk_handles s) ` set hs" and "0 \<le> fd"
  shows "\<exists>p s0 s1 s2 s3 s4. pkg_open e e' fd True t0 path s = Some (p, s0) \<and> p \<noteq> NULL \<and> p \<notin> used_elems ys \<and>
    pkg_gc t1 s0 = Some s1 \<and> pkg_open d d' fd' lock t2 path s1 = Some (p, s2) \<and>
    pkg_close p s2 = Some s3 \<and> pkg_close p s3 = Some s4 \<and>
    (\<forall>t3. \<exists>s5. pkg_gc t3 s4 = Some s5 \<and>
      pkg_handle_byname path s5 = Some (if t3 > t2 + pk_lifetime s sdiv 2 then NULL else p))"
proof -
  obtain p s0 xs' ys' k where o: "pkg_open e e' fd True t0 path s = Some (p, s0)" "pkg_inv s0 n xs' m ys' (ns @ [k]) (hs @ [p])"
      "p \<notin> used_elems ys" "pk_handles s0 = (pk_handles s)(p \<mapsto> touch t0 (fresh_handle fd path))" "pk_lifetime s0 = pk_lifetime s"
    using pkg_open_uncached[OF assms, of t0] by (elim exE conjE) (rule that)
  have pn: "p \<noteq> NULL" using pkg_inv_handle_ptr(1)[OF o(2)] by simp
  have hok: "handles_ok (pk_handles s0) (hs @ [p])" using o(2) by (simp add: pkg_inv_iff)
  have "pkg_view (pk_handles s0) (hs @ [p]) path = Some (p, 1, t0)"
    unfolding pkg_view_Some[OF hok] using o(4) by (simp add: touch_def fresh_handle_def)
  moreover have "cache_rel (pk_lifetime s) s0 (pkg_view (pk_handles s0) (hs @ [p]))"
    using o(2,5) unfolding cache_rel_def by blast
  ultimately have "\<exists>s1 s2 s3 s4. pkg_gc t1 s0 = Some s1 \<and> pkg_open d d' fd' lock t2 path s1 = Some (p, s2) \<and>
      pkg_close p s2 = Some s3 \<and> pkg_close p s3 = Some s4 \<and>
      (\<forall>t3. \<exists>s5. pkg_gc t3 s4 = Some s5 \<and> pkg_handle_byname path s5 = Some (if t3 > t2 + pk_lifetime s sdiv 2 then NULL else p))"
    by (intro pc.lifecycle)
  with o(1,3) pn show ?thesis by blast
qed

text \<open>
  C18.  A collection of the package cache releases exactly the cached handles with
  reference count 0 whose last open is more than half the lifetime ago: they leave the
  list in order, their memory is freed, and their descriptors are closed.  The list
  nodes of released handles are not returned: the node pool is unchanged.
\<close>

theorem pkg_gc_exact:
  assumes "pkg_inv s n xs m ys ns hs"
  shows "\<exists>s' ys' ns'. pkg_gc now s = Some s' \<and>
    pkg_inv s' n xs m ys' ns' (filter (kept now (pk_lifetime s) (pk_handles s)) hs) \<and>
    used_elems ys' = used_elems ys - {p \<in> set hs. \<not> kept now (pk_lifetime s) (pk_handles s) p} \<and>
    pk_fds s' = pk_fds s - {ph_fd h | p h. p \<in> set hs \<and> \<not> kept now (pk_lifetime s) (pk_handles s) p \<and>
      pk_handles s p = Some h \<and> ph_fd h \<noteq> 0} \<and> l_count s' = l_count s"
proof -
  obtain s' ys' ns' where g: "pkg_gc now s = Some s'"
      "pkg_inv s' n xs m ys' ns' (filter (kept now (pk_lifetime s) (pk_handles s)) hs)" "gc_result now s hs s' ys ys'"
    using pkg_gc_ok[OF assms] by blast
  have "used_elems ys' = used_elems ys - {p \<in> set hs. \<not> kept now (pk_lifetime s) (pk_handles s) p}"
    "pk_fds s' = pk_fds s - {ph_fd h | p h. p \<in> set hs \<and> \<not> kept now (pk_lifetime s) (pk_handles s) p \<and>
      pk_handles s p = Some h \<and> ph_fd h \<noteq> 0}" "l_count s' = l_count s"
    using g(3) by (simp_all add: gc_result_def Let_def pkg_same_def conj_assoc)
  with g(1,2) show ?thesis by blast
qed

text \<open>
  C37.  A package that cannot be opened or locked: \<open>pkg_open\<close> returns NULL and the
  cache is unchanged, but the handle it allocated stays in use and no longer belongs to
  anything (and a descriptor 0 is never closed).
\<close>

theorem pkg_open_failure_leaks:
  assumes "pkg_inv s n xs m ys ns hs" and "mem_room e e' n xs m ys"
    and "Some path \<notin> handle_name (pk_handles s) ` set hs" and "fd < 0 \<or> \<not> lock"
  shows "\<exists>s' t ys'. pkg_open e e' fd lock now path s = Some (NULL, s') \<and> pkg_inv s' n xs m ys' ns hs \<and>
    t \<notin> used_elems ys \<and> used_elems ys' = insert t (used_elems ys) \<and> t \<notin> set hs \<and>
    pk_fds s' = (if fd = 0 then insert fd (pk_fds s) else pk_fds s - {fd})"
proof -
  obtain s' t ys' where r: "pkg_open e e' fd lock now path s = Some (NULL, s')" "pkg_inv s' n xs m ys' ns hs"
    "t \<notin> used_elems ys" "used_elems ys' = insert t (used_elems ys)"
    "pk_fds s' = (if fd = 0 then insert fd (pk_fds s) else pk_fds s - {fd})"
    using pkg_open_failed[OF assms, of now] by (elim exE conjE) (rule that)
  have "t \<notin> set hs" using assms(1) r(3) by (auto simp: pkg_inv_iff)
  with r show ?thesis by blast
qed

subsection \<open>Witnesses\<close>

lemma dlink_init_ok:
  fixes s :: "'a lstate_scheme"
  assumes hb: "hb \<noteq> NULL" "hb \<notin> set hl" and hl: "dlist (b_nodes s) (b_heap_lists s) hl"
    and epb: "0 < epb" "epb < 2 ^ 31"
    and fresh: "fresh_block cb me sizeof_dlink_node (nat epb) []"
      "insert hb (set hl) \<inter> block_area sizeof_dlink_node (nat epb) me = {}"
  shows "\<exists>s'. dlink_init hb cb me epb s = Some s' \<and> l_heap s' = hb \<and> lstate.more s' = lstate.more s \<and>
    pool_list s' (nat epb) [(cb, me, rev (slots me sizeof_dlink_node (nat epb)), [])] empty_list [] \<and>
    dlist (b_nodes s') (b_heap_lists s') (hb # hl)"
proof -
  let ?z = sizeof_dlink_node and ?n = "nat epb" let ?xs = "[(cb, me, rev (slots me ?z ?n), [])]"
  have pad: "unat (pad_elemsize (of_nat ?z)) = ?z" by (simp add: pad_elemsize_def sizeof_dlink_node_def)
  have c: "hb \<notin> block_area ?z ?n me" "set hl \<inter> block_area ?z ?n me = {}" using fresh(2) by blast+
  have nz: "of_nat ?z \<noteq> (0 :: u64)" by (simp add: sizeof_dlink_node_def)
  obtain s1 where s1: "blockheap_create hb cb me (of_nat ?z) epb (Some ''dlink_node'') s = Some (hb, s1)"
      "heap_inv s1 hb ?z ?n ?xs" "dlist (b_nodes s1) (b_heap_lists s1) (hb # hl)"
      "block_area ?z ?n me \<subseteq> dom (b_nodes s1)" "bstate.more s1 = bstate.more s"
    using blockheap_create_ok[OF hb c(1) nz pad epb refl fresh(1) hl c(2), of "Some ''dlink_node''"]
    by (elim exE conjE) (rule that)
  let ?s' = "s1\<lparr>l_heap := hb\<rparr>"
  have "pool_ok s1 hb ?z ?n ?xs" using s1(2,4) by (simp add: pool_ok_def sizeof_node_pos)
  then have "pool_ok ?s' hb ?z ?n ?xs" by (rule pool_ok_more) (simp add: cframe_def)
  then have "pool_list ?s' ?n ?xs empty_list []" by (simp add: pool_list_def)
  moreover have "lstate.more ?s' = lstate.more s" using s1(5) by (cases s, cases s1, simp)
  moreover have "dlink_init hb cb me epb s = Some ?s'" using s1(1) hb(1) by (simp add: dlink_init_def)
  ultimately show ?thesis using s1(3) by (intro exI[of _ ?s'] conjI) simp_all
qed

lemma lstate_more_fields:
  fixes s s' :: "'a pkgst_scheme"
  shows "lstate.more s' = lstate.more s \<Longrightarrow> pk_list s' = pk_list s \<and> pk_fds s' = pk_fds s"
  by (cases s, cases s', simp)

text \<open>Both pools made by the initialization functions in empty memory.\<close>

definition boot_pkgst :: pkgst where
  "boot_pkgst = lstate.extend boot_lstate
     \<lparr>pk_handles = Map.empty, pk_heap = NULL, pk_list = empty_list, pk_lifetime = 0, pk_fds = {}, pk_toc_zbufsize = 0\<rparr>"

definition demo_conf :: conf where
  "demo_conf = conf0\<lparr>cf_dict := Some (dictionary_new 0)\<rparr>"

definition demo_pkgst :: pkgst where
  "demo_pkgst = the (dlink_init 8 16 1000 2 boot_pkgst \<bind> pkg_init 24 32 2000 demo_conf)"

definition demo_xs :: "binfo list" where
  "demo_xs = [(16, 1000, rev (slots 1000 sizeof_dlink_node 2), [])]"

definition demo_ys :: "binfo list" where
  "demo_ys = [(32, 2000, rev (slots 2000 sizeof_pkg_handle 128), [])]"

lemma demo_areas:
  "pool_area sizeof_dlink_node 2 demo_xs = {1000..<1168}"
  "block_area sizeof_pkg_handle 128 2000 = {2000..<10256}"
  by (auto simp: demo_xs_def block_area_def in_range_def stride_def sizeof_MemBlock_def sizeof_dlink_node_def sizeof_pkg_handle_def)

lemma demo_pkg_inv: "pkg_inv demo_pkgst 2 demo_xs 128 demo_ys [] []" "pk_lifetime demo_pkgst = 60" "pk_fds demo_pkgst = {}"
proof -
  have boot: "dlist (b_nodes boot_pkgst) (b_heap_lists boot_pkgst) []" "pk_list boot_pkgst = empty_list" "pk_fds boot_pkgst = {}"
    by (simp_all add: boot_pkgst_def boot_lstate_def boot_state_def lstate.defs bstate.defs)
  have fr: "fresh_block 16 1000 sizeof_dlink_node (nat 2) []" "fresh_block 32 2000 sizeof_pkg_handle (nat 128) []"
    by (simp_all add: fresh_block_def stride_def sizeof_MemBlock_def sizeof_dlink_node_def sizeof_pkg_handle_def)
  have ar: "insert 8 (set []) \<inter> block_area sizeof_dlink_node (nat 2) 1000 = {}"
    by (auto simp: block_area_def in_range_def)
  have e: "(8::nat) \<noteq> NULL" "(8::nat) \<notin> set []" "(0::int) < 2" "(2::int) < 2 ^ 31" by simp_all
  obtain s1 where s1: "dlink_init 8 16 1000 2 boot_pkgst = Some s1" "l_heap s1 = 8" "lstate.more s1 = lstate.more boot_pkgst"
      "pool_list s1 2 demo_xs empty_list []" "dlist (b_nodes s1) (b_heap_lists s1) [8]"
    using dlink_init_ok[OF e(1,2) boot(1) e(3,4) fr(1) ar] unfolding demo_xs_def by auto
  have l: "pk_list s1 = empty_list" "pk_fds s1 = {}" using lstate_more_fields[OF s1(3)] boot(2,3) by simp_all
  have g: "dictionary_get (dictionary_new 0) k d = Some d" for k d
    using dictionary_get_ok[of "dictionary_new 0"] dictionary_new_ok[of 0] by simp
  have cf: "dconf_get_int demo_conf (Some ''tuning.heap.pkg'') 128 = Some 128" "(0::int) < 128" "(128::int) < 2 ^ 31"
      "dconf_get_str demo_conf (Some ''tuning.timer.pkg_gc'') None = Some None" "nn2_timestr_to_time None 60 = Some 60"
      "dconf_get_int demo_conf (Some ''tuning.toc.gz.buffer'') 1310720 = Some 1310720"
    by (simp_all add: dconf_get_int_def dconf_get_str_def demo_conf_def g nn2_timestr_to_time_def)
  have hb: "(24::nat) \<noteq> NULL" "(24::nat) \<notin> set [8]" "24 \<noteq> l_heap s1" using s1(2) by simp_all
  have ar2: "32 \<notin> fst ` set demo_xs"
      "(insert 24 (set [8]) \<union> pool_area sizeof_dlink_node 2 demo_xs) \<inter> block_area sizeof_pkg_handle (nat 128) 2000 = {}"
      "insert 24 (set [8]) \<inter> pool_area sizeof_dlink_node 2 demo_xs = {}"
    by (auto simp: demo_areas) (simp add: demo_xs_def)
  obtain s2 where s2: "pkg_init 24 32 2000 demo_conf s1 = Some s2" "pkg_inv s2 2 demo_xs 128 demo_ys [] []"
      "pk_lifetime s2 = 60" "pk_fds s2 = {}"
    using pkg_init_ok[OF s1(4) l(1) cf hb s1(5) fr(2) ar2] l(2) unfolding demo_ys_def by auto
  have "demo_pkgst = s2" using s1(1) s2(1) by (simp add: demo_pkgst_def)
  with s2 show "pkg_inv demo_pkgst 2 demo_xs 128 demo_ys [] []" "pk_lifetime demo_pkgst = 60" "pk_fds demo_pkgst = {}" by simp_all
qed

lemma demo_room: "mem_room (NULL, NULL) (NULL, NULL) 2 demo_xs 128 demo_ys" "used_elems demo_ys = {}"
proof -
  have t: "total_free demo_ys = 128" "total_free demo_xs = 2" by (simp_all add: total_free_def demo_xs_def demo_ys_def)
  have a: "pool_area sizeof_pkg_handle 128 demo_ys = {2000..<10256}" using demo_areas(2) by (simp add: demo_ys_def)
  show "mem_room (NULL, NULL) (NULL, NULL) 2 demo_xs 128 demo_ys"
    unfolding obj_room_def t grow_area_def grow_block_def demo_areas(1) a by (simp add: demo_xs_def demo_ys_def)
  show "used_elems demo_ys = {}" by (simp add: used_elems_def demo_ys_def)
qed

theorem pkg_cache_lifecycle_witness:
  "\<exists>p s0 s1 s2 s3 s4. pkg_open (NULL, NULL) (NULL, NULL) 5 True 100 ''/p.xar'' demo_pkgst = Some (p, s0) \<and>
    pkg_gc 1000 s0 = Some s1 \<and> pkg_open (NULL, NULL) (NULL, NULL) 6 True 1001 ''/p.xar'' s1 = Some (p, s2) \<and>
    pkg_close p s2 = Some s3 \<and> pkg_close p s3 = Some s4 \<and>
    (\<exists>s5. pkg_gc 1031 s4 = Some s5 \<and> pkg_handle_byname ''/p.xar'' s5 = Some p) \<and>
    (\<exists>s5. pkg_gc 1032 s4 = Some s5 \<and> pkg_handle_byname ''/p.xar'' s5 = Some NULL)"
proof -
  have new: "Some ''/p.xar'' \<notin> handle_name (pk_handles demo_pkgst) ` set []" by simp
  have sd: "(60::int) sdiv 2 = 30" by (simp add: signed_divide_int_def)
  from pkg_cache_lifecycle[OF demo_pkg_inv(1) demo_room(1) new, of 5 100 1000 "(NULL, NULL)" "(NULL, NULL)" 6 True 1001]
  obtain p s0 s1 s2 s3 s4 where r: "pkg_open (NULL, NULL) (NULL, NULL) 5 True 100 ''/p.xar'' demo_pkgst = Some (p, s0)"
    "pkg_gc 1000 s0 = Some s1" "pkg_open (NULL, NULL) (NULL, NULL) 6 True 1001 ''/p.xar'' s1 = Some (p, s2)"
    "pkg_close p s2 = Some s3" "pkg_close p s3 = Some s4"
    "\<forall>t3. \<exists>s5. pkg_gc t3 s4 = Some s5 \<and> pkg_handle_byname ''/p.xar'' s5 = Some (if t3 > 1001 + pk_lifetime demo_pkgst sdiv 2 then NULL else p)"
    by (elim meta_impE exE conjE) (simp, rule that)
  from r(6)[unfolded demo_pkg_inv(2) sd, rule_format, of 1031] r(6)[unfolded demo_pkg_inv(2) sd, rule_format, of 1032] r(1-5)
  show ?thesis by auto
qed

theorem pkg_gc_exact_witness:
  "\<exists>p s1 s2 s3. pkg_open (NULL, NULL) (NULL, NULL) 5 True 100 ''/p.xar'' demo_pkgst = Some (p, s1) \<and>
    pkg_close p s1 = Some s2 \<and> pk_fds s2 = {5} \<and> pkg_gc 200 s2 = Some s3 \<and> pk_fds s3 = {}"
proof -
  have new: "Some ''/p.xar'' \<notin> handle_name (pk_handles demo_pkgst) ` set []" "0 \<le> (5::int)" by simp_all
  let ?h = "touch 100 (fresh_handle 5 ''/p.xar'')"
  obtain p s1 xs1 ys1 k where s1: "pkg_open (NULL, NULL) (NULL, NULL) 5 True 100 ''/p.xar'' demo_pkgst = Some (p, s1)"
      "pkg_inv s1 2 xs1 128 ys1 ([] @ [k]) ([] @ [p])" "pk_handles s1 = (pk_handles demo_pkgst)(p \<mapsto> ?h)"
      "pk_fds s1 = insert 5 (pk_fds demo_pkgst)" "pk_lifetime s1 = pk_lifetime demo_pkgst"
    using pkg_open_uncached[OF demo_pkg_inv(1) demo_room(1) new, of 100] by (elim exE conjE) (rule that)
  let ?h' = "?h\<lparr>ph_refcnt := 0\<rparr>" let ?s2 = "s1\<lparr>pk_handles := (pk_handles s1)(p \<mapsto> ?h')\<rparr>"
  have pn: "p \<noteq> NULL" using pkg_inv_handle_ptr(1)[OF s1(2)] by simp
  have close: "pkg_close p s1 = Some ?s2"
    using pn s1(3) by (simp add: pkg_close_def upd_handle_def mem_simps touch_def fresh_handle_def)
  have "handles_ok (pk_handles s1) ([] @ [p])" using s1(2) by (simp add: pkg_inv_iff)
  then have "handles_ok ((pk_handles s1)(p \<mapsto> ?h')) ([] @ [p])"
    by (rule handles_ok_same_name[where x = ?h]) (simp_all add: s1(3))
  from pkg_gc_exact[OF pkg_inv_handles(1)[OF s1(2) this], of 200]
  obtain s3 where s3: "pkg_gc 200 ?s2 = Some s3" "pk_fds s3 = pk_fds ?s2 - {ph_fd h | q h. q \<in> set ([] @ [p]) \<and>
      \<not> kept 200 (pk_lifetime ?s2) (pk_handles ?s2) q \<and> pk_handles ?s2 q = Some h \<and> ph_fd h \<noteq> 0}"
    by (elim exE conjE) (rule that)
  have "\<not> kept 200 (pk_lifetime ?s2) (pk_handles ?s2) p"
    using s1(5) demo_pkg_inv(2) by (simp add: kept_def expired_def touch_def fresh_handle_def signed_divide_int_def)
  then have "pk_fds s3 = {}" using s3(2) s1(4) demo_pkg_inv(3) by (auto simp: touch_def fresh_handle_def)
  with s1(1,4) close s3(1) demo_pkg_inv(3) show ?thesis by (intro exI[of _ p] exI[of _ s1] exI[of _ ?s2] exI[of _ s3]) simp
qed

theorem pkg_open_failure_leaks_witness:
  "\<exists>s' t ys'. pkg_open (NULL, NULL) (NULL, NULL) (- 1) False 100 ''/p.xar'' demo_pkgst = Some (NULL, s') \<and>
    pkg_inv s' 2 demo_xs 128 ys' [] [] \<and> used_elems ys' = {t}"
proof -
  have new: "Some ''/p.xar'' \<notin> handle_name (pk_handles demo_pkgst) ` set []" by simp
  have f: "(- 1 :: int) < 0 \<or> \<not> False" by simp
  from pkg_open_failure_leaks[OF demo_pkg_inv(1) demo_room(1) new f, of 100] show ?thesis
    unfolding demo_room(2) by blast
qed

end
