(* ===== verification/Xar_Tree.thy ===== *)
theory Xar_Tree
  imports Conf
begin

text \<open>
  The in-memory archive tree of the bundled xar library: attributes, properties and files
  (\<open>src/xar/filetree.c\<close>) and the accessors of \<open>src/xar/util.c\<close>.

  The linked structs form a tree: a property has a list of child properties, a file a list
  of properties and a list of child files, in the order of their \<open>next\<close> pointers.  The
  \<open>parent\<close> pointers are the path down to a node.  Allocation is taken to succeed.
\<close>

section \<open>Data\<close>

text \<open>An attribute: key, value, name space.\<close>

type_synonym xar_attr = "string \<times> string \<times> string option"

datatype xar_prop = Prop (pr_key: string) (pr_value: "string option") (pr_attrs: "xar_attr list") (pr_children: "xar_prop list")

datatype xar_file = File (fl_attrs: "xar_attr list") (fl_props: "xar_prop list") (fl_children: "xar_file list")

section \<open>Attributes\<close>

text \<open>
  The loop of \<open>xar_attr_pset\<close> stops at the last attribute without looking at it.
\<close>

fun attr_overwrite :: "string \<Rightarrow> string \<Rightarrow> xar_attr list \<Rightarrow> xar_attr list option" where
  "attr_overwrite key value (a # b # as) =
     (if fst a = key then Some ((key, value, snd (snd a)) # b # as)
      else map_option ((#) a) (attr_overwrite key value (b # as)))"
| "attr_overwrite key value _ = None"

definition xar_attr_pset :: "string \<Rightarrow> string \<Rightarrow> xar_attr list \<Rightarrow> xar_attr list" where
  "xar_attr_pset key value as =
     (case attr_overwrite key value as of Some as' \<Rightarrow> as' | None \<Rightarrow> (key, value, None) # as)"

fun xar_attr_pget :: "string \<Rightarrow> xar_attr list \<Rightarrow> string option" where
  "xar_attr_pget key [] = None"
| "xar_attr_pget key [a] = (if fst a = key then Some (fst (snd a)) else None)"
| "xar_attr_pget key (a # b # as) = (if fst a = key then Some (fst (snd a)) else xar_attr_pget key (b # as))"

section \<open>Properties\<close>

text \<open>\<open>strsep\<close> with the separator \<open>/\<close>: the first segment and what follows it.\<close>

definition strsep :: "string \<Rightarrow> string \<times> string option" where
  "strsep s = (takeWhile (\<lambda>c. c \<noteq> CHR ''/'') s,
     if CHR ''/'' \<in> set s then Some (tl (dropWhile (\<lambda>c. c \<noteq> CHR ''/'') s)) else None)"

lemma strsep_shorter: "strsep s = (a, Some r) \<Longrightarrow> length r < length s"
proof -
  assume "strsep s = (a, Some r)"
  then have "CHR ''/'' \<in> set s" "r = tl (dropWhile (\<lambda>c. c \<noteq> CHR ''/'') s)" by (auto simp: strsep_def split: if_splits)
  moreover from this have "s \<noteq> []" by auto
  moreover have "length (dropWhile (\<lambda>c. c \<noteq> CHR ''/'') s) \<le> length s" by (rule length_dropWhile_le)
  ultimately show ?thesis by (cases s) auto
qed

fun xar_prop_find :: "xar_prop list \<Rightarrow> string \<Rightarrow> xar_prop option" where
  "xar_prop_find [] key = None"
| "xar_prop_find (Prop k v as cs # ps) key =
     (if fst (strsep key) = k
      then (case snd (strsep key) of
              None \<Rightarrow> Some (Prop k v as cs)
            | Some rest \<Rightarrow> xar_prop_find cs rest)
      else xar_prop_find ps key)"

text \<open>
  \<open>xar_prop_set_r\<close> on the list of properties it starts from.  A new property goes to the
  front of the list (\<open>xar_prop_new\<close>).
\<close>

function xar_prop_set_r :: "bool \<Rightarrow> xar_prop list \<Rightarrow> string \<Rightarrow> string \<Rightarrow> xar_prop list" where
  "xar_prop_set_r overwrite ps key value =
     (let seg = fst (strsep key); pre = takeWhile (\<lambda>p. pr_key p \<noteq> seg) ps in
      (case dropWhile (\<lambda>p. pr_key p \<noteq> seg) ps of
         Prop k v as cs # post \<Rightarrow>
           (case snd (strsep key) of
              None \<Rightarrow> if overwrite then pre @ Prop k (Some value) as cs # post
                      else Prop seg (Some value) [] [] # ps
            | Some rest \<Rightarrow> pre @ Prop k v as (xar_prop_set_r overwrite cs rest value) # post)
       | [] \<Rightarrow>
           (case snd (strsep key) of
              None \<Rightarrow> Prop seg (Some value) [] [] # ps
            | Some rest \<Rightarrow> Prop seg None [] (xar_prop_set_r overwrite [] rest value) # ps)))"
  by pat_completeness auto
termination
  by (relation "measure (\<lambda>(_, _, key, _). length key)") (auto simp: prod_eq_iff intro!: strsep_shorter)

declare xar_prop_set_r.simps [simp del]

definition xar_prop_set :: "xar_file \<Rightarrow> string \<Rightarrow> string \<Rightarrow> xar_file" where
  "xar_prop_set f key value = File (fl_attrs f) (xar_prop_set_r True (fl_props f) key value) (fl_children f)"

definition xar_prop_create :: "xar_file \<Rightarrow> string \<Rightarrow> string \<Rightarrow> xar_file" where
  "xar_prop_create f key value = File (fl_attrs f) (xar_prop_set_r False (fl_props f) key value) (fl_children f)"

definition xar_prop_pset :: "xar_prop \<Rightarrow> string \<Rightarrow> string \<Rightarrow> xar_prop" where
  "xar_prop_pset p key value =
     Prop (pr_key p) (pr_value p) (pr_attrs p) (xar_prop_set_r True (pr_children p) key value)"

text \<open>The result of \<open>xar_prop_get\<close>: the return code and the value.\<close>

definition xar_prop_get :: "xar_file \<Rightarrow> string \<Rightarrow> int \<times> string option" where
  "xar_prop_get f key =
     (case xar_prop_find (fl_props f) key of None \<Rightarrow> (- 1, None) | Some p \<Rightarrow> (0, pr_value p))"

text \<open>\<open>xar_prop_pget\<close> starts at a property and goes on with the ones after it, \<open>nexts\<close>.\<close>

definition xar_prop_pget :: "xar_prop \<Rightarrow> xar_prop list \<Rightarrow> string \<Rightarrow> xar_prop option" where
  "xar_prop_pget p nexts key = xar_prop_find (p # nexts) (pr_key p @ ''/'' @ key)"

text \<open>\<open>xar_prop_unset\<close>: the property found first is unlinked and freed (\<open>xar_prop_punset\<close>).\<close>

function xar_prop_unset_r :: "xar_prop list \<Rightarrow> string \<Rightarrow> xar_prop list" where
  "xar_prop_unset_r ps key =
     (let seg = fst (strsep key); pre = takeWhile (\<lambda>p. pr_key p \<noteq> seg) ps in
      (case dropWhile (\<lambda>p. pr_key p \<noteq> seg) ps of
         [] \<Rightarrow> ps
       | Prop k v as cs # post \<Rightarrow>
           (case snd (strsep key) of
              None \<Rightarrow> pre @ post
            | Some rest \<Rightarrow> pre @ Prop k v as (xar_prop_unset_r cs rest) # post)))"
  by pat_completeness auto
termination
  by (relation "measure (\<lambda>(_, key). length key)") (auto simp: prod_eq_iff intro!: strsep_shorter)

declare xar_prop_unset_r.simps [simp del]

definition xar_prop_unset :: "xar_file \<Rightarrow> string \<Rightarrow> xar_file" where
  "xar_prop_unset f key = File (fl_attrs f) (xar_prop_unset_r (fl_props f) key) (fl_children f)"

text \<open>Attributes of a file (\<open>prop\<close> is None) or of one of its properties.\<close>

definition xar_attr_get :: "xar_file \<Rightarrow> string option \<Rightarrow> string \<Rightarrow> string option" where
  "xar_attr_get f prop key =
     (case prop of
        None \<Rightarrow> xar_attr_pget key (fl_attrs f)
      | Some pr \<Rightarrow> (case xar_prop_find (fl_props f) pr of None \<Rightarrow> None | Some p \<Rightarrow> xar_attr_pget key (pr_attrs p)))"

text \<open>The property found at a path is changed in place.\<close>

function prop_modify :: "(xar_prop \<Rightarrow> xar_prop) \<Rightarrow> xar_prop list \<Rightarrow> string \<Rightarrow> xar_prop list" where
  "prop_modify g ps key =
     (let seg = fst (strsep key); pre = takeWhile (\<lambda>p. pr_key p \<noteq> seg) ps in
      (case dropWhile (\<lambda>p. pr_key p \<noteq> seg) ps of
         [] \<Rightarrow> ps
       | Prop k v as cs # post \<Rightarrow>
           (case snd (strsep key) of
              None \<Rightarrow> pre @ g (Prop k v as cs) # post
            | Some rest \<Rightarrow> pre @ Prop k v as (prop_modify g cs rest) # post)))"
  by pat_completeness auto
termination
  by (relation "measure (\<lambda>(_, _, key). length key)") (auto simp: prod_eq_iff intro!: strsep_shorter)

declare prop_modify.simps [simp del]

definition prop_attr_set :: "string \<Rightarrow> string \<Rightarrow> xar_prop \<Rightarrow> xar_prop" where
  "prop_attr_set key value p = Prop (pr_key p) (pr_value p) (xar_attr_pset key value (pr_attrs p)) (pr_children p)"

definition xar_attr_set :: "xar_file \<Rightarrow> string option \<Rightarrow> string \<Rightarrow> string \<Rightarrow> int \<times> xar_file" where
  "xar_attr_set f prop key value =
     (case prop of
        None \<Rightarrow> (0, File (xar_attr_pset key value (fl_attrs f)) (fl_props f) (fl_children f))
      | Some pr \<Rightarrow>
          (case xar_prop_find (fl_props f) pr of
             None \<Rightarrow> (- 1, f)
           | Some _ \<Rightarrow> (0, File (fl_attrs f) (prop_modify (prop_attr_set key value) (fl_props f) pr) (fl_children f))))"

section \<open>Copies\<close>

text \<open>
  \<open>xar_prop_replicate_r\<close>: every copy is put in front of the list \<open>acc\<close> made so far.  Name
  spaces of attributes are not copied.
\<close>

fun xar_prop_replicate_r :: "xar_prop list \<Rightarrow> xar_prop list \<Rightarrow> xar_prop list" where
  "xar_prop_replicate_r acc [] = acc"
| "xar_prop_replicate_r acc (Prop k v as cs # ps) =
     xar_prop_replicate_r (Prop k v (map (\<lambda>a. (fst a, fst (snd a), None)) as) (xar_prop_replicate_r [] cs) # acc) ps"

text \<open>\<open>xar_file_replicate\<close>: the copy has no children and no \<open>id\<close>.\<close>

definition xar_file_replicate :: "xar_file \<Rightarrow> xar_file" where
  "xar_file_replicate f =
     File (fold (\<lambda>a as. if fst a = ''id'' then as else xar_attr_pset (fst a) (fst (snd a)) as) (fl_attrs f) [])
       (xar_prop_replicate_r [] (fl_props f)) []"

text \<open>\<open>xar_file_new\<close>: a new file goes to the end of its parent's children.\<close>

definition xar_file_new :: "xar_file \<Rightarrow> xar_file" where
  "xar_file_new parent = File (fl_attrs parent) (fl_props parent) (fl_children parent @ [File [] [] []])"

section \<open>Accessors\<close>

definition or_else :: "string option \<Rightarrow> string \<Rightarrow> string" where
  "or_else v d = (case v of None \<Rightarrow> d | Some s \<Rightarrow> s)"

definition xar_get_type :: "xar_file \<Rightarrow> string" where
  "xar_get_type f = or_else (snd (xar_prop_get f ''type'')) ''unknown''"

definition xar_get_owner :: "xar_file \<Rightarrow> string" where
  "xar_get_owner f = or_else (snd (xar_prop_get f ''user'')) ''unknown''"

definition xar_get_group :: "xar_file \<Rightarrow> string" where
  "xar_get_group f = or_else (snd (xar_prop_get f ''group'')) ''unknown''"

text \<open>
  \<open>xar_get_size\<close>: the size of a hard link is that of the file its \<open>link\<close> attribute names,
  searched among all files \<open>fs\<close> of the archive in the order of the iterator.
\<close>

definition link_target :: "xar_file list \<Rightarrow> xar_file \<Rightarrow> xar_file" where
  "link_target fs f =
     (if snd (xar_prop_get f ''type'') = Some ''hardlink''
      then (case xar_attr_get f (Some ''type'') ''link'' of
              None \<Rightarrow> f
            | Some link \<Rightarrow>
                if link = ''original'' then f
                else (case find (\<lambda>g. xar_attr_get g None ''id'' = Some link) fs of None \<Rightarrow> f | Some g \<Rightarrow> g))
      else f)"

definition xar_get_size :: "xar_file list \<Rightarrow> xar_file \<Rightarrow> string" where
  "xar_get_size fs f = or_else (snd (xar_prop_get (link_target fs f) ''data/size'')) ''0''"

text \<open>
  The name and the ancestors' names, joined by slashes, innermost ancestor first; a missing
  name is printed as \<open>(null)\<close> for an ancestor and crashes for the file itself.
\<close>

fun xar_get_path :: "xar_file \<Rightarrow> xar_file list \<Rightarrow> string option" where
  "xar_get_path f ancestors =
     map_option (\<lambda>nm. fold (\<lambda>a s. or_else (snd (xar_prop_get a ''name'')) ''(null)'' @ ''/'' @ s) ancestors nm)
       (snd (xar_prop_get f ''name''))"

text \<open>
  \<open>xar_file_find\<close> on a list of siblings: a file without a name makes the loop repeat the same
  step for ever (None).
\<close>

fun xar_file_find :: "xar_file list \<Rightarrow> string \<Rightarrow> xar_file option option" where
  "xar_file_find [] path = Some None"
| "xar_file_find (File as ps cs # fs) path =
     (case snd (xar_prop_get (File as ps cs) ''name'') of
        None \<Rightarrow> None
      | Some nm \<Rightarrow>
          if fst (strsep path) = nm
          then (case snd (strsep path) of
                  None \<Rightarrow> Some (Some (File as ps cs))
                | Some rest \<Rightarrow> xar_file_find cs rest)
          else xar_file_find fs path)"

section \<open>Attributes: lookup after update\<close>

lemma xar_attr_pget_Cons: "xar_attr_pget key (a # as) = (if fst a = key then Some (fst (snd a)) else xar_attr_pget key as)"
  by (cases as) simp_all

lemma attr_overwrite_get:
  "attr_overwrite key val as = Some as' \<Longrightarrow> xar_attr_pget k as' = (if k = key then Some val else xar_attr_pget k as)"
  by (induction key val as arbitrary: as' rule: attr_overwrite.induct)
    (auto simp: xar_attr_pget_Cons split: if_splits)

lemma xar_attr_pset_get:
  "xar_attr_pget k (xar_attr_pset key val as) = (if k = key then Some val else xar_attr_pget k as)"
  by (simp add: xar_attr_pset_def attr_overwrite_get xar_attr_pget_Cons split: option.splits)

declare dropWhile_eq_Nil_conv [simp del]

section \<open>Properties: lookup after update\<close>

definition first_key :: "string \<Rightarrow> xar_prop list \<Rightarrow> xar_prop option" where
  "first_key seg ps = List.find (\<lambda>p. pr_key p = seg) ps"

lemma first_key_simps [simp]:
  "first_key seg [] = None"
  "first_key seg (p # ps) = (if pr_key p = seg then Some p else first_key seg ps)"
  by (simp_all add: first_key_def)

lemma xar_prop_find_first:
  "xar_prop_find ps key =
     (case first_key (fst (strsep key)) ps of
        None \<Rightarrow> None
      | Some p \<Rightarrow> (case snd (strsep key) of None \<Rightarrow> Some p | Some rest \<Rightarrow> xar_prop_find (pr_children p) rest))"
proof (induction ps)
  case (Cons p ps)
  then show ?case by (cases p) (auto split: option.splits)
qed simp

lemma first_key_Some: "first_key seg ps = Some p \<Longrightarrow> pr_key p = seg \<and> p \<in> set ps"
  by (induction ps) (auto split: if_splits)

lemma first_key_split:
  "first_key seg ps = (case dropWhile (\<lambda>p. pr_key p \<noteq> seg) ps of [] \<Rightarrow> None | p # _ \<Rightarrow> Some p)"
  by (induction ps) auto

lemma first_key_replace:
  assumes "dropWhile (\<lambda>p. pr_key p \<noteq> seg) ps = q # post" "pr_key q' = seg"
  shows "first_key s (takeWhile (\<lambda>p. pr_key p \<noteq> seg) ps @ q' # post) = (if s = seg then Some q' else first_key s ps)"
  using assms
proof (induction ps)
  case (Cons p ps)
  then show ?case by (cases "pr_key p = seg") auto
qed simp

text \<open>The segments of a path.\<close>

function segs :: "string \<Rightarrow> string list" where
  "segs key = fst (strsep key) # (case snd (strsep key) of None \<Rightarrow> [] | Some rest \<Rightarrow> segs rest)"
  by pat_completeness auto
termination
  by (relation "measure length") (auto simp: prod_eq_iff intro!: strsep_shorter)

declare segs.simps [simp del]

lemma xar_prop_set_find:
  "map_option pr_value (xar_prop_find (xar_prop_set_r True ps key val) key) = Some (Some val)"
proof (induction True ps key val rule: xar_prop_set_r.induct)
  case (1 ps key val)
  let ?seg = "fst (strsep key)" let ?new = "xar_prop_set_r True ps key val"
  show ?case
  proof (cases "dropWhile (\<lambda>p. pr_key p \<noteq> ?seg) ps")
    case Nil
    show ?thesis
    proof (cases "snd (strsep key)")
      case None
      with Nil show ?thesis by (subst xar_prop_find_first, subst xar_prop_set_r.simps) (simp add: Let_def)
    next
      case (Some rest)
      from 1(1)[OF refl refl Nil Some] Nil Some show ?thesis
        by (subst xar_prop_find_first, subst xar_prop_set_r.simps) (simp add: Let_def)
    qed
  next
    case (Cons q post)
    obtain k v as cs where q: "q = Prop k v as cs" by (cases q)
    have k: "k = ?seg" using Cons q by (metis (mono_tags, lifting) hd_dropWhile list.discI list.sel(1) xar_prop.sel(1))
    have r: "first_key ?seg (takeWhile (\<lambda>p. pr_key p \<noteq> ?seg) ps @ q' # post) = Some q'" if "pr_key q' = ?seg" for q'
      using first_key_replace[OF Cons that] by simp
    show ?thesis
    proof (cases "snd (strsep key)")
      case None
      then show ?thesis using Cons q k r by (subst xar_prop_find_first, subst xar_prop_set_r.simps) (simp add: Let_def)
    next
      case (Some rest)
      have "?new = takeWhile (\<lambda>p. pr_key p \<noteq> ?seg) ps @ Prop k v as (xar_prop_set_r True cs rest val) # post"
        using Cons q Some by (subst xar_prop_set_r.simps) (simp add: Let_def)
      then show ?thesis using 1(2)[OF refl refl Cons q Some] Some k r
        by (subst xar_prop_find_first) simp
    qed
  qed
qed

lemma xar_prop_set_other:
  "\<nexists>t. segs key = segs other @ t \<Longrightarrow> xar_prop_find (xar_prop_set_r True ps key val) other = xar_prop_find ps other"
proof (induction True ps key val arbitrary: other rule: xar_prop_set_r.induct)
  case (1 ps key val)
  let ?seg = "fst (strsep key)" and ?o = "fst (strsep other)"
  let ?new = "xar_prop_set_r True ps key val"
  have deep: "\<exists>rest orest. snd (strsep key) = Some rest \<and> snd (strsep other) = Some orest \<and> (\<nexists>t. segs rest = segs orest @ t)"
    if e: "?seg = ?o" and f: "snd (strsep key) \<noteq> None"
  proof -
    obtain rest where rest: "snd (strsep key) = Some rest" using f by auto
    have k: "segs key = ?seg # segs rest" using rest by (subst segs.simps) simp
    show ?thesis
    proof (cases "snd (strsep other)")
      case None
      then have "segs other = [?o]" by (subst segs.simps) simp
      with k e 1(3) show ?thesis by auto
    next
      case (Some orest)
      then have "segs other = ?o # segs orest" by (subst segs.simps) simp
      with k e 1(3) rest Some show ?thesis by auto
    qed
  qed
  have leaf: "snd (strsep other) \<noteq> None" if e: "?seg = ?o" and f: "snd (strsep key) = None"
  proof
    assume "snd (strsep other) = None"
    then have "segs other = [?o]" "segs key = [?seg]" using f by (subst segs.simps, simp)+
    with e 1(3) show False by auto
  qed
  show ?case
  proof (cases "dropWhile (\<lambda>p. pr_key p \<noteq> ?seg) ps")
    case Nil
    have none: "first_key ?seg ps = None" using Nil by (simp add: first_key_split)
    show ?thesis
    proof (cases "?seg = ?o")
      case False
      have "first_key ?o ?new = first_key ?o ps"
        using Nil False by (subst xar_prop_set_r.simps) (simp add: Let_def split: option.split)
      then show ?thesis by (subst (1 2) xar_prop_find_first) simp
    next
      case True
      have l: "xar_prop_find ps other = None" using none True by (subst xar_prop_find_first) simp
      show ?thesis
      proof (cases "snd (strsep key)")
        case None
        then obtain orest where "snd (strsep other) = Some orest" using leaf True by auto
        with None Nil True l show ?thesis
          by (subst xar_prop_find_first, subst xar_prop_set_r.simps) (simp add: Let_def)
      next
        case (Some rest)
        then obtain orest where o: "snd (strsep other) = Some orest" "\<nexists>t. segs rest = segs orest @ t"
          using deep True by auto
        from 1(1)[OF refl refl Nil Some o(2)] Some o(1) Nil True l show ?thesis
          by (subst xar_prop_find_first, subst xar_prop_set_r.simps) (simp add: Let_def)
      qed
    qed
  next
    case (Cons q post)
    obtain k v as cs where q: "q = Prop k v as cs" by (cases q)
    have k: "k = ?seg" using Cons q by (metis (mono_tags, lifting) hd_dropWhile list.discI list.sel(1) xar_prop.sel(1))
    have fk: "first_key ?seg ps = Some q" using Cons by (simp add: first_key_split)
    note r = first_key_replace[OF Cons]
    show ?thesis
    proof (cases "snd (strsep key)")
      case None
      have new: "?new = takeWhile (\<lambda>p. pr_key p \<noteq> ?seg) ps @ Prop k (Some val) as cs # post"
        using Cons q None by (subst xar_prop_set_r.simps) (simp add: Let_def)
      show ?thesis
      proof (cases "?seg = ?o")
        case True
        then obtain orest where "snd (strsep other) = Some orest" using leaf None by auto
        then show ?thesis unfolding new using r k True fk q by (subst (1 2) xar_prop_find_first) simp
      next
        case False
        then show ?thesis unfolding new using r k by (subst (1 2) xar_prop_find_first) simp
      qed
    next
      case (Some rest)
      have new: "?new = takeWhile (\<lambda>p. pr_key p \<noteq> ?seg) ps @ Prop k v as (xar_prop_set_r True cs rest val) # post"
        using Cons q Some by (subst xar_prop_set_r.simps) (simp add: Let_def)
      show ?thesis
      proof (cases "?seg = ?o")
        case True
        then obtain orest where o: "snd (strsep other) = Some orest" "\<nexists>t. segs rest = segs orest @ t"
          using deep Some by auto
        from 1(2)[OF refl refl Cons q Some o(2)] show ?thesis
          unfolding new using r k True fk q o(1) by (subst (1 2) xar_prop_find_first) simp
      next
        case False
        then show ?thesis unfolding new using r k by (subst (1 2) xar_prop_find_first) simp
      qed
    qed
  qed
qed

section \<open>Removal and copies\<close>

fun unique_keys :: "xar_prop list \<Rightarrow> bool" where
  "unique_keys [] = True"
| "unique_keys (Prop k v as cs # ps) = (k \<notin> pr_key ` set ps \<and> unique_keys cs \<and> unique_keys ps)"

lemma unique_keys_distinct: "unique_keys ps \<Longrightarrow> distinct (map pr_key ps)"
  by (induction ps rule: unique_keys.induct) auto

lemma unique_keys_children: "unique_keys ps \<Longrightarrow> p \<in> set ps \<Longrightarrow> unique_keys (pr_children p)"
  by (induction ps rule: unique_keys.induct) auto

lemma first_key_distinct:
  "distinct (map pr_key ps) \<Longrightarrow> first_key seg ps = Some p \<longleftrightarrow> p \<in> set ps \<and> pr_key p = seg"
  by (induction ps) (auto split: if_splits)

lemma first_key_None: "first_key seg ps = None \<longleftrightarrow> seg \<notin> pr_key ` set ps"
  by (induction ps) auto

lemma first_key_remove:
  assumes "distinct (map pr_key ps)" "dropWhile (\<lambda>p. pr_key p \<noteq> seg) ps = q # post"
  shows "first_key seg (takeWhile (\<lambda>p. pr_key p \<noteq> seg) ps @ post) = None"
  using assms
proof (induction ps)
  case (Cons p ps)
  then show ?case by (cases "pr_key p = seg") (auto simp: first_key_None)
qed simp

lemma xar_prop_unset_find: "unique_keys ps \<Longrightarrow> xar_prop_find (xar_prop_unset_r ps key) key = None"
proof (induction ps key rule: xar_prop_unset_r.induct)
  case (1 ps key)
  let ?seg = "fst (strsep key)"
  show ?case
  proof (cases "dropWhile (\<lambda>p. pr_key p \<noteq> ?seg) ps")
    case Nil
    then have "first_key ?seg ps = None" by (simp add: first_key_split)
    with Nil show ?thesis by (subst xar_prop_find_first, subst xar_prop_unset_r.simps) (simp add: Let_def)
  next
    case (Cons q post)
    obtain k v as cs where q: "q = Prop k v as cs" by (cases q)
    have k: "k = ?seg" using Cons q by (metis (mono_tags, lifting) hd_dropWhile list.discI list.sel(1) xar_prop.sel(1))
    have "first_key ?seg ps = Some q" using Cons by (simp add: first_key_split)
    then have u: "unique_keys cs" using first_key_Some unique_keys_children[OF 1(2)] q by fastforce
    show ?thesis
    proof (cases "snd (strsep key)")
      case None
      then show ?thesis using Cons q first_key_remove[OF unique_keys_distinct[OF 1(2)] Cons]
        by (subst xar_prop_find_first, subst xar_prop_unset_r.simps) (simp add: Let_def)
    next
      case (Some rest)
      from 1(1)[OF refl refl Cons q Some u] show ?thesis
        using Cons q Some k first_key_replace[OF Cons, of "Prop k v as (xar_prop_unset_r cs rest)" ?seg]
        by (subst xar_prop_find_first, subst xar_prop_unset_r.simps) (simp add: Let_def)
    qed
  qed
qed

lemma xar_prop_replicate_acc: "xar_prop_replicate_r acc ps = xar_prop_replicate_r [] ps @ acc"
proof (induction ps arbitrary: acc)
  case (Cons p ps)
  obtain k v as cs where p: "p = Prop k v as cs" by (cases p)
  show ?case unfolding p xar_prop_replicate_r.simps
    by (subst (1 2) Cons) simp
qed simp

definition copy_prop :: "xar_prop \<Rightarrow> xar_prop" where
  "copy_prop p = Prop (pr_key p) (pr_value p) (map (\<lambda>a. (fst a, fst (snd a), None)) (pr_attrs p)) (xar_prop_replicate_r [] (pr_children p))"

lemma xar_prop_replicate_rev: "xar_prop_replicate_r [] ps = rev (map copy_prop ps)"
proof (induction ps)
  case (Cons p ps)
  obtain k v as cs where p: "p = Prop k v as cs" by (cases p)
  show ?case unfolding p xar_prop_replicate_r.simps
    by (subst xar_prop_replicate_acc) (simp add: Cons copy_prop_def)
qed simp

lemma first_key_replicate:
  assumes "distinct (map pr_key ps)"
  shows "first_key seg (xar_prop_replicate_r [] ps) = map_option copy_prop (first_key seg ps)"
proof -
  let ?r = "rev (map copy_prop ps)"
  have k: "map pr_key ?r = rev (map pr_key ps)" by (simp add: rev_map copy_prop_def)
  then have d: "distinct (map pr_key ?r)" using assms by simp
  show ?thesis
  proof (cases "first_key seg ps")
    case None
    then have "seg \<notin> set (map pr_key ps)" by (simp add: first_key_None)
    then have "seg \<notin> set (map pr_key ?r)" unfolding k by simp
    then have "first_key seg ?r = None" by (simp add: first_key_None)
    with None show ?thesis by (simp add: xar_prop_replicate_rev)
  next
    case (Some p)
    then have "p \<in> set ps" "pr_key p = seg" using first_key_Some by auto
    then have "copy_prop p \<in> set ?r" "pr_key (copy_prop p) = seg" by (auto simp: copy_prop_def)
    then have "first_key seg ?r = Some (copy_prop p)" by (simp only: first_key_distinct[OF d])
    with Some show ?thesis by (simp add: xar_prop_replicate_rev)
  qed
qed

lemma xar_prop_replicate_find:
  "unique_keys ps \<Longrightarrow> map_option pr_value (xar_prop_find (xar_prop_replicate_r [] ps) key) = map_option pr_value (xar_prop_find ps key)"
proof (induction key arbitrary: ps rule: segs.induct)
  case (1 key)
  note d = unique_keys_distinct[OF 1(2)]
  show ?case
  proof (cases "first_key (fst (strsep key)) ps")
    case None
    then show ?thesis using first_key_replicate[OF d] by (subst (1 2) xar_prop_find_first) simp
  next
    case (Some p)
    then have "unique_keys (pr_children p)" using first_key_Some unique_keys_children[OF 1(2)] by blast
    with Some 1(1) show ?thesis using first_key_replicate[OF d]
      by (subst (1 2) xar_prop_find_first) (simp add: copy_prop_def split: option.split)
  qed
qed

section \<open>Stores addressed by paths\<close>

text \<open>
  What a client of the property tree relies on: \<open>look\<close> after \<open>store\<close>, where a path that
  leads to or through the stored one may change.
\<close>

locale path_store =
  fixes look :: "'s \<Rightarrow> string \<Rightarrow> string option option"
    and store :: "'s \<Rightarrow> string \<Rightarrow> string \<Rightarrow> 's"
  assumes look_store: "look (store s key v) key = Some (Some v)"
    and look_other: "\<nexists>t. segs key = segs other @ t \<Longrightarrow> look (store s key v) other = look s other"
begin

lemma two_keys:
  assumes "\<nexists>t. segs k2 = segs k1 @ t"
  shows "look (store (store s k1 v1) k2 v2) k1 = Some (Some v1)" "look (store (store s k1 v1) k2 v2) k2 = Some (Some v2)"
  using look_other[OF assms] look_store by auto

text \<open>Storing a list of independent keys makes all of them readable.\<close>

lemma store_all:
  assumes "distinct (map fst kvs)" "\<forall>k \<in> set (map fst kvs). \<forall>k' \<in> set (map fst kvs). k \<noteq> k' \<longrightarrow> (\<nexists>t. segs k' = segs k @ t)"
    and "(k, v) \<in> set kvs"
  shows "look (fold (\<lambda>(k, v) s. store s k v) kvs s) k = Some (Some v)"
  using assms
proof (induction kvs arbitrary: s rule: rev_induct)
  case (snoc kv kvs)
  obtain k' v' where kv: "kv = (k', v')" by (cases kv)
  show ?case
  proof (cases "(k, v) = (k', v')")
    case True
    then show ?thesis using kv look_store by simp
  next
    case False
    with snoc.prems kv have i: "(k, v) \<in> set kvs" "k \<noteq> k'" by (auto simp: rev_image_eqI image_iff)
    have "\<nexists>t. segs k' = segs k @ t" using snoc.prems(2,3) i kv by force
    moreover have "look (fold (\<lambda>(k, v) s. store s k v) kvs s) k = Some (Some v)"
      using snoc.IH[of s] snoc.prems(1,2) i(1) by simp
    ultimately show ?thesis using kv look_other by simp
  qed
qed simp

end

definition prop_look :: "xar_file \<Rightarrow> string \<Rightarrow> string option option" where
  "prop_look f key = map_option pr_value (xar_prop_find (fl_props f) key)"

interpretation xp: path_store prop_look xar_prop_set
  by unfold_locales (simp_all add: prop_look_def xar_prop_set_def xar_prop_set_find xar_prop_set_other)

lemma prop_look_get: "prop_look f key = (if fst (xar_prop_get f key) = 0 then Some (snd (xar_prop_get f key)) else None)"
  by (simp add: prop_look_def xar_prop_get_def split: option.split)

section \<open>Properties\<close>



text \<open>
  C1.  A copy of a file made by \<open>xar_file_replicate\<close> answers every property lookup as the
  original, although the order of its properties is reversed at every level.
\<close>

theorem xar_file_replicate_lookup:
  assumes "unique_keys (fl_props f)"
  shows "xar_prop_get (xar_file_replicate f) key = xar_prop_get f key \<and>
    map pr_key (fl_props (xar_file_replicate f)) = rev (map pr_key (fl_props f))"
proof
  show "xar_prop_get (xar_file_replicate f) key = xar_prop_get f key"
    using xar_prop_replicate_find[OF assms, of key]
    by (cases "xar_prop_find (fl_props f) key"; cases "xar_prop_find (xar_prop_replicate_r [] (fl_props f)) key")
      (simp_all add: xar_prop_get_def xar_file_replicate_def)
  show "map pr_key (fl_props (xar_file_replicate f)) = rev (map pr_key (fl_props f))"
    by (simp add: xar_file_replicate_def xar_prop_replicate_rev rev_map copy_prop_def)
qed

theorem xar_file_replicate_lookup_witness:
  "xar_prop_get (xar_file_replicate (File [] [Prop ''name'' (Some ''ls'') [] [], Prop ''data'' None [] [Prop ''size'' (Some ''7'') [] []]] []))
     ''data/size'' = (0, Some ''7'')"
proof -
  let ?f = "File [] [Prop ''name'' (Some ''ls'') [] [], Prop ''data'' None [] [Prop ''size'' (Some ''7'') [] []]] []"
  have "unique_keys (fl_props ?f)" by simp
  from xar_file_replicate_lookup[OF this, of "''data/size''"] show ?thesis by (simp add: xar_prop_get_def strsep_def)
qed

text \<open>
  C31.  Setting an attribute makes \<open>xar_attr_get\<close> return it and keeps all others; but the last
  attribute of the list is never compared, so setting it again leaves the old one behind
  as a second attribute of that key.
\<close>

theorem xar_attr_set_get:
  "xar_attr_get (snd (xar_attr_set f None key v)) None k = (if k = key then Some v else xar_attr_get f None k) \<and>
   (\<exists>g. xar_attr_set (File [(key, v', None)] ps cs) None key v = (0, g) \<and> map fst (fl_attrs g) = [key, key])"
  by (simp add: xar_attr_get_def xar_attr_set_def xar_attr_pset_get) (simp add: xar_attr_pset_def)

end
