(* ===== verification/Xar_Iter.thy ===== *)
theory Xar_Iter
  imports Xar_Tree
begin

text \<open>
  The iterators of \<open>src/xar/filetree.c\<close> over files and over properties, and the lookups by
  path.  A position in the tree is the node with its following siblings, on top of the
  positions of its ancestors; the iterator also keeps the path of the enclosing node and
  the flag that suppresses descending.
\<close>

section \<open>Iterators\<close>

type_synonym 'n pos = "('n \<times> 'n list) list"

record 'n xar_iter =
  it_pos :: "'n pos"
  it_path :: "string option"
  it_nochild :: bool

definition xar_iter_new :: "'n xar_iter" where
  "xar_iter_new = \<lparr>it_pos = [], it_path = None, it_nochild = False\<rparr>"

definition start_at :: "'n list \<Rightarrow> 'n pos" where
  "start_at ns = (case ns of [] \<Rightarrow> [] | n # ns \<Rightarrow> [(n, ns)])"

text \<open>\<open>dirname\<close>\<close>

definition strip_slashes :: "string \<Rightarrow> string" where
  "strip_slashes s = rev (dropWhile (\<lambda>c. c = CHR ''/'') (rev s))"

definition c_dirname :: "string \<Rightarrow> string" where
  "c_dirname s =
     (if s = [] then ''.''
      else let t = strip_slashes s in
        if t = [] then ''/''
        else if CHR ''/'' \<notin> set t then ''.''
        else let u = strip_slashes (rev (dropWhile (\<lambda>c. c \<noteq> CHR ''/'') (rev t))) in
          if u = [] then ''/'' else u)"

text \<open>
  The common shape of \<open>xar_file_next\<close> and \<open>xar_prop_next\<close>: down to the first child unless the
  node was reached from below, else on to the next sibling, else up.  The result is None
  when a NULL pointer is followed; the flag says whether there is a next node.
\<close>

fun tree_next :: "('n \<Rightarrow> 'n list) \<Rightarrow> ('n \<Rightarrow> string option) \<Rightarrow> 'n pos \<Rightarrow> string option \<Rightarrow> bool \<Rightarrow> (bool \<times> 'n xar_iter) option" where
  "tree_next kids nm [] path nochild = None"
| "tree_next kids nm ((n, ns) # up) path nochild =
     (if \<not> nochild \<and> kids n \<noteq> []
      then (case (path, nm n) of
              (None, None) \<Rightarrow> None
            | (None, Some s) \<Rightarrow> Some (True, \<lparr>it_pos = (hd (kids n), tl (kids n)) # (n, ns) # up, it_path = Some s, it_nochild = nochild\<rparr>)
            | (Some t, s) \<Rightarrow> Some (True, \<lparr>it_pos = (hd (kids n), tl (kids n)) # (n, ns) # up,
                it_path = Some (t @ ''/'' @ or_else s ''(null)''), it_nochild = nochild\<rparr>))
      else if ns \<noteq> [] then Some (True, \<lparr>it_pos = (hd ns, tl ns) # up, it_path = path, it_nochild = False\<rparr>)
      else if up \<noteq> []
      then (case path of
              None \<Rightarrow> None
            | Some t \<Rightarrow> tree_next kids nm up (if CHR ''/'' \<in> set t then Some (c_dirname t) else None) True)
      else Some (False, \<lparr>it_pos = (n, ns) # up, it_path = path, it_nochild = False\<rparr>))"

definition file_name :: "xar_file \<Rightarrow> string option" where
  "file_name f = snd (xar_prop_get f ''name'')"

definition xar_file_first :: "xar_file list \<Rightarrow> xar_file xar_iter \<Rightarrow> xar_file xar_iter" where
  "xar_file_first fs i = i\<lparr>it_pos := start_at fs\<rparr>"

definition xar_file_next :: "xar_file xar_iter \<Rightarrow> (bool \<times> xar_file xar_iter) option" where
  "xar_file_next i = tree_next fl_children file_name (it_pos i) (it_path i) (it_nochild i)"

definition xar_prop_first :: "xar_file \<Rightarrow> xar_prop xar_iter \<Rightarrow> xar_prop xar_iter option" where
  "xar_prop_first f i = (if fl_props f = [] then None else Some (i\<lparr>it_pos := start_at (fl_props f)\<rparr>))"

definition xar_prop_next :: "xar_prop xar_iter \<Rightarrow> (bool \<times> xar_prop xar_iter) option" where
  "xar_prop_next i = tree_next pr_children (\<lambda>p. Some (pr_key p)) (it_pos i) (it_path i) (it_nochild i)"

text \<open>The text \<open>xar_prop_first\<close> and \<open>xar_prop_next\<close> return for the current property.\<close>

definition prop_node :: "xar_prop xar_iter \<Rightarrow> string" where
  "prop_node i =
     (case it_pos i of
        [] \<Rightarrow> []
      | (p, _) # _ \<Rightarrow> (case it_path i of None \<Rightarrow> pr_key p | Some t \<Rightarrow> t @ ''/'' @ pr_key p))"

text \<open>The loop every client runs over an iterator; it collects the positions it visits.\<close>

partial_function (option) iterate :: "('n xar_iter \<Rightarrow> (bool \<times> 'n xar_iter) option) \<Rightarrow> 'n xar_iter \<Rightarrow> 'n xar_iter list option" where
  "iterate next_n i = do {
     (more, j) \<leftarrow> next_n i;
     if more then do { js \<leftarrow> iterate next_n j; Some (i # js) } else Some [i] }"

definition xar_files :: "xar_file list \<Rightarrow> xar_file xar_iter list option" where
  "xar_files fs = (if fs = [] then Some [] else iterate xar_file_next (xar_file_first fs xar_iter_new))"

definition xar_props :: "xar_file \<Rightarrow> xar_prop xar_iter list option" where
  "xar_props f = xar_prop_first f xar_iter_new \<bind> iterate xar_prop_next"

section \<open>Preorder\<close>

fun file_preorder :: "xar_file list \<Rightarrow> xar_file list" where
  "file_preorder [] = []"
| "file_preorder (File as ps cs # fs) = File as ps cs # file_preorder cs @ file_preorder fs"

fun prop_preorder :: "xar_prop list \<Rightarrow> xar_prop list" where
  "prop_preorder [] = []"
| "prop_preorder (Prop k v as cs # ps) = Prop k v as cs # prop_preorder cs @ prop_preorder ps"

definition plain_name :: "string \<Rightarrow> bool" where
  "plain_name s \<longleftrightarrow> s \<noteq> [] \<and> CHR ''/'' \<notin> set s"

fun slash_join :: "string list \<Rightarrow> string" where
  "slash_join [] = []"
| "slash_join [s] = s"
| "slash_join (s # t # ts) = s @ ''/'' @ slash_join (t # ts)"

lemma slash_join_snoc: "ts \<noteq> [] \<Longrightarrow> slash_join (ts @ [s]) = slash_join ts @ ''/'' @ s"
  by (induction ts rule: slash_join.induct) auto

lemma strip_plain: "s \<noteq> [] \<Longrightarrow> last s \<noteq> CHR ''/'' \<Longrightarrow> strip_slashes s = s"
  by (cases s rule: rev_cases) (simp_all add: strip_slashes_def)

lemma plain_last: "plain_name s \<Longrightarrow> last s \<noteq> CHR ''/''"
  using last_in_set[of s] unfolding plain_name_def by metis

lemma slash_join_last: "list_all plain_name ts \<Longrightarrow> ts \<noteq> [] \<Longrightarrow> slash_join ts \<noteq> [] \<and> last (slash_join ts) \<noteq> CHR ''/''"
proof (induction ts rule: slash_join.induct)
  case (2 s)
  then show ?case using plain_last[of s] by (simp add: plain_name_def)
qed auto

lemma dropWhile_rev_plain:
  assumes "CHR ''/'' \<notin> set s"
  shows "rev (dropWhile (\<lambda>c. c \<noteq> CHR ''/'') (rev (t @ ''/'' @ s))) = t @ ''/''"
proof -
  have "dropWhile (\<lambda>c. c \<noteq> CHR ''/'') (rev s @ CHR ''/'' # rev t) = CHR ''/'' # rev t"
    using assms by (subst dropWhile_append2) auto
  then show ?thesis by simp
qed

lemma dirname_join:
  assumes "list_all plain_name ts" "ts \<noteq> []" "plain_name s"
  shows "c_dirname (slash_join ts @ ''/'' @ s) = slash_join ts"
proof -
  have s: "s \<noteq> []" "CHR ''/'' \<notin> set s" using assms(3) by (auto simp: plain_name_def)
  have t: "slash_join ts \<noteq> []" "last (slash_join ts) \<noteq> CHR ''/''" using slash_join_last[OF assms(1,2)] by auto
  have st: "strip_slashes (slash_join ts @ ''/'' @ s) = slash_join ts @ ''/'' @ s"
    using s plain_last[OF assms(3)] by (intro strip_plain) simp_all
  have "strip_slashes (slash_join ts @ ''/'') = slash_join ts"
    using strip_plain[OF t] by (simp add: strip_slashes_def)
  then show ?thesis unfolding c_dirname_def st Let_def dropWhile_rev_plain[OF s(2)] using t by simp
qed

lemma slash_join_no_slash: "plain_name s \<Longrightarrow> CHR ''/'' \<notin> set (slash_join [s])"
  by (simp add: plain_name_def)


section \<open>Iteration is preorder\<close>

text \<open>
  A tree of ordered nodes: \<open>kids\<close> gets smaller, \<open>pre\<close> is the preorder of a list of nodes, and
  \<open>nm\<close> the name of a node.
\<close>

locale ordered_tree =
  fixes kids :: "'n \<Rightarrow> 'n list" and nm :: "'n \<Rightarrow> string option" and pre :: "'n list \<Rightarrow> 'n list"
  assumes pre_Nil: "pre [] = []"
    and pre_Cons: "pre (n # ns) = n # pre (kids n) @ pre ns"
begin

text \<open>What is still to come after the node of a position.\<close>

definition later :: "'n pos \<Rightarrow> 'n list" where
  "later up = concat (map (\<lambda>(m, ms). pre ms) up)"

definition path_ok :: "'n pos \<Rightarrow> string option \<Rightarrow> bool" where
  "path_ok up path \<longleftrightarrow> list_all (\<lambda>(m, ms). \<exists>s. nm m = Some s \<and> plain_name s) up \<and>
     path = (if up = [] then None else Some (slash_join (map (\<lambda>(m, ms). the (nm m)) (rev up))))"

definition plain_dirs :: "'n list \<Rightarrow> bool" where
  "plain_dirs ns \<longleftrightarrow> (\<forall>n \<in> set ns. kids n \<noteq> [] \<longrightarrow> (\<exists>s. nm n = Some s \<and> plain_name s))"

lemma path_ok_up:
  assumes "path_ok ((m, ms) # up) path"
  shows "\<exists>t. path = Some t \<and> path_ok up (if CHR ''/'' \<in> set t then Some (c_dirname t) else None)"
proof -
  let ?ts = "map (\<lambda>(m, ms). the (nm m)) (rev up)"
  obtain s where s: "nm m = Some s" "plain_name s" using assms by (auto simp: path_ok_def)
  have all: "list_all (\<lambda>(m, ms). \<exists>s. nm m = Some s \<and> plain_name s) up" using assms by (simp add: path_ok_def)
  have p: "path = Some (slash_join (?ts @ [s]))" using assms s by (simp add: path_ok_def)
  show ?thesis
  proof (cases "up = []")
    case True
    then show ?thesis using p s by (simp add: path_ok_def plain_name_def)
  next
    case False
    have pl: "list_all plain_name ?ts" using all by (auto simp: list_all_iff)
    have ne: "?ts \<noteq> []" using False by simp
    have "slash_join (?ts @ [s]) = slash_join ?ts @ ''/'' @ s" using slash_join_snoc[OF ne] .
    moreover have "c_dirname (slash_join ?ts @ ''/'' @ s) = slash_join ?ts" by (rule dirname_join[OF pl ne s(2)])
    ultimately show ?thesis using p False all by (simp add: path_ok_def)
  qed
qed

lemma climb:
  "up \<noteq> [] \<Longrightarrow> path_ok (tl up) path \<Longrightarrow>
   (if later up = [] then \<exists>j. tree_next kids nm up path True = Some (False, j)
    else \<exists>n ns up' path'. tree_next kids nm up path True = Some (True, \<lparr>it_pos = (n, ns) # up', it_path = path', it_nochild = False\<rparr>) \<and>
      later up = n # pre (kids n) @ pre ns @ later up' \<and> path_ok up' path')"
proof (induction up arbitrary: path)
  case (Cons a up)
  obtain m ms where a: "a = (m, ms)" by (cases a)
  show ?case
  proof (cases ms)
    case (Cons x xs)
    then show ?thesis using Cons.prems a by (simp add: later_def pre_Cons)
  next
    case Nil
    show ?thesis
    proof (cases up)
      case Nil
      then show ?thesis using a \<open>ms = []\<close> by (simp add: later_def pre_Nil)
    next
      case (Cons b up')
      obtain k ks where b: "b = (k, ks)" by (cases b)
      have "path_ok ((k, ks) # up') path" using Cons.prems(2) Cons b by simp
      then obtain t where t: "path = Some t" "path_ok up' (if CHR ''/'' \<in> set t then Some (c_dirname t) else None)"
        using path_ok_up by blast
      have l: "later (a # up) = later up" using a \<open>ms = []\<close> by (simp add: later_def pre_Nil)
      have e: "tree_next kids nm (a # up) path True = tree_next kids nm up (if CHR ''/'' \<in> set t then Some (c_dirname t) else None) True"
        using a \<open>ms = []\<close> Cons t(1) by simp
      show ?thesis unfolding l e by (rule Cons.IH) (use Cons t(2) in simp_all)
    qed
  qed
qed simp

lemma advance:
  assumes p: "path_ok up path" and d: "kids n \<noteq> [] \<longrightarrow> (\<exists>s. nm n = Some s \<and> plain_name s)"
  shows "if pre (kids n) @ pre ns @ later up = [] then \<exists>j. tree_next kids nm ((n, ns) # up) path False = Some (False, j)
    else \<exists>n' ns' up' path'. tree_next kids nm ((n, ns) # up) path False =
        Some (True, \<lparr>it_pos = (n', ns') # up', it_path = path', it_nochild = False\<rparr>) \<and>
      pre (kids n) @ pre ns @ later up = n' # pre (kids n') @ pre ns' @ later up' \<and> path_ok up' path'"
proof (cases "kids n")
  case (Cons c cs)
  then obtain s where s: "nm n = Some s" "plain_name s" using d by auto
  have pre: "pre (kids n) @ pre ns @ later up = c # pre (kids c) @ pre cs @ later ((n, ns) # up)"
    using Cons by (simp add: pre_Cons later_def)
  show ?thesis
  proof (cases up)
    case Nil
    then have "path = None" using p by (simp add: path_ok_def)
    then have "tree_next kids nm ((n, ns) # up) path False =
        Some (True, \<lparr>it_pos = (c, cs) # (n, ns) # up, it_path = Some s, it_nochild = False\<rparr>)"
      using Cons s by simp
    moreover have "path_ok ((n, ns) # up) (Some s)" using s Nil by (simp add: path_ok_def)
    ultimately show ?thesis unfolding pre by auto
  next
    case Cons': (Cons b up')
    let ?ts = "map (\<lambda>(m, ms). the (nm m)) (rev up)"
    have path: "path = Some (slash_join ?ts)" using p Cons' by (simp add: path_ok_def)
    have ne: "?ts \<noteq> []" using Cons' by simp
    have "tree_next kids nm ((n, ns) # up) path False =
        Some (True, \<lparr>it_pos = (c, cs) # (n, ns) # up, it_path = Some (slash_join ?ts @ ''/'' @ s), it_nochild = False\<rparr>)"
      using Cons s path by (simp add: or_else_def)
    moreover have "path_ok ((n, ns) # up) (Some (slash_join ?ts @ ''/'' @ s))"
      using p s slash_join_snoc[OF ne, of s] by (simp add: path_ok_def)
    ultimately show ?thesis unfolding pre by auto
  qed
next
  case Nil
  show ?thesis
  proof (cases ns)
    case (Cons x xs)
    then show ?thesis using Nil p by (simp add: pre_Nil pre_Cons)
  next
    case Nil': Nil
    show ?thesis
    proof (cases up)
      case Nil
      then show ?thesis using \<open>kids n = []\<close> Nil' by (simp add: pre_Nil later_def)
    next
      case (Cons b up')
      obtain k ks where b: "b = (k, ks)" by (cases b)
      then obtain t where t: "path = Some t" "path_ok up' (if CHR ''/'' \<in> set t then Some (c_dirname t) else None)"
        using path_ok_up p Cons by blast
      have e: "tree_next kids nm ((n, ns) # up) path False = tree_next kids nm up (if CHR ''/'' \<in> set t then Some (c_dirname t) else None) True"
        using Nil Nil' Cons t(1) by simp
      have l: "pre (kids n) @ pre ns @ later up = later up" using Nil Nil' by (simp add: pre_Nil)
      show ?thesis unfolding e l by (rule climb) (use Cons t(2) in simp_all)
    qed
  qed
qed

text \<open>A position is one of the tree: every node is a child of the one above it.\<close>

fun linked :: "'n list \<Rightarrow> 'n pos \<Rightarrow> bool" where
  "linked roots [] = True"
| "linked roots [(n, ns)] = (set (n # ns) \<subseteq> set roots)"
| "linked roots ((n, ns) # (m, ms) # up) = (set (n # ns) \<subseteq> set (kids m) \<and> linked roots ((m, ms) # up))"

lemma hd_tl_subset: "xs \<noteq> [] \<Longrightarrow> set (hd xs # tl xs) \<subseteq> set xs"
  by (cases xs) auto

lemma linked_tl: "linked roots ((n, ns) # up) \<Longrightarrow> linked roots up"
  by (cases up) auto

lemma linked_sib: "linked roots ((n, ns) # up) \<Longrightarrow> ns \<noteq> [] \<Longrightarrow> linked roots ((hd ns, tl ns) # up)"
  using hd_tl_subset[of ns] by (cases up) auto

lemma linked_next:
  "tree_next kids nm p path nochild = Some (True, j) \<Longrightarrow> linked roots p \<Longrightarrow> linked roots (it_pos j)"
proof (induction p arbitrary: path nochild)
  case (Cons x up)
  obtain n ns where x: "x = (n, ns)" by (cases x)
  consider (down) "\<not> nochild \<and> kids n \<noteq> []" | (side) "\<not> (\<not> nochild \<and> kids n \<noteq> [])" "ns \<noteq> []" | (up) "\<not> (\<not> nochild \<and> kids n \<noteq> [])" "ns = []"
    by blast
  then show ?case
  proof cases
    case down
    then have "it_pos j = (hd (kids n), tl (kids n)) # (n, ns) # up" using Cons.prems(1) x by (auto split: option.splits)
    then show ?thesis using Cons.prems(2) x down hd_tl_subset[of "kids n"] by simp
  next
    case side
    then have "it_pos j = (hd ns, tl ns) # up" using Cons.prems(1) x by auto
    then show ?thesis using Cons.prems(2) x side linked_sib by simp
  next
    case up
    then obtain t where "tree_next kids nm up (if CHR ''/'' \<in> set t then Some (c_dirname t) else None) True = Some (True, j)"
      using Cons.prems(1) x by (auto split: if_splits option.splits)
    then show ?thesis using Cons.IH Cons.prems(2) x linked_tl by blast
  qed
qed simp

text \<open>The nodes from the root down to a position.\<close>

fun chain_down :: "'n list \<Rightarrow> 'n list \<Rightarrow> bool" where
  "chain_down roots [] = True"
| "chain_down roots (m # ms) = (m \<in> set roots \<and> chain_down (kids m) ms)"

lemma chain_down_snoc:
  "chain_down roots (ms @ [m, n]) \<longleftrightarrow> chain_down roots (ms @ [m]) \<and> n \<in> set (kids m)"
  by (induction ms arbitrary: roots) auto

lemma linked_chain: "linked roots p \<Longrightarrow> chain_down roots (rev (map fst p))"
proof (induction roots p rule: linked.induct)
  case (3 roots n ns m ms up)
  then have "chain_down roots (rev (map fst up) @ [m])" by simp
  with 3(2) show ?case using chain_down_snoc[of roots "rev (map fst up)" m n] by simp
qed simp_all

text \<open>The node and the path a position stands for.\<close>

definition stands :: "'n list \<Rightarrow> 'n xar_iter \<Rightarrow> bool" where
  "stands roots j \<longleftrightarrow> it_pos j \<noteq> [] \<and> path_ok (tl (it_pos j)) (it_path j) \<and> linked roots (it_pos j)"

lemma iterate_preorder:
  assumes next_n: "\<And>i. next_n i = tree_next kids nm (it_pos i) (it_path i) (it_nochild i)"
  shows "path_ok up path \<Longrightarrow> linked roots ((n, ns) # up) \<Longrightarrow> plain_dirs (n # pre (kids n) @ pre ns @ later up) \<Longrightarrow>
    \<exists>js. iterate next_n \<lparr>it_pos = (n, ns) # up, it_path = path, it_nochild = False\<rparr> = Some js \<and>
      map (fst \<circ> hd \<circ> it_pos) js = n # pre (kids n) @ pre ns @ later up \<and> list_all (stands roots) js"
proof (induction "length (pre (kids n) @ pre ns @ later up)" arbitrary: n ns up path rule: less_induct)
  case less
  let ?i = "\<lparr>it_pos = (n, ns) # up, it_path = path, it_nochild = False\<rparr>"
  have d: "kids n \<noteq> [] \<longrightarrow> (\<exists>s. nm n = Some s \<and> plain_name s)" using less.prems(3) by (simp add: plain_dirs_def)
  have st: "stands roots ?i" using less.prems(1,2) by (simp add: stands_def)
  note adv = advance[OF less.prems(1) d, of ns]
  show ?case
  proof (cases "pre (kids n) @ pre ns @ later up = []")
    case True
    then obtain j where "next_n ?i = Some (False, j)" using adv next_n[of ?i] by (auto simp del: tree_next.simps)
    then have "iterate next_n ?i = Some [?i]" by (subst iterate.simps) simp
    with True st show ?thesis by auto
  next
    case False
    note adv' = adv[unfolded if_not_P[OF False]]
    have ni: "next_n ?i = tree_next kids nm ((n, ns) # up) path False" unfolding next_n by simp
    obtain n' ns' up' path' where a: "tree_next kids nm ((n, ns) # up) path False = Some (True, \<lparr>it_pos = (n', ns') # up', it_path = path', it_nochild = False\<rparr>)"
        "pre (kids n) @ pre ns @ later up = n' # pre (kids n') @ pre ns' @ later up'" "path_ok up' path'"
      using adv' by (elim exE conjE) (rule that)
    have l: "length (pre (kids n') @ pre ns' @ later up') < length (pre (kids n) @ pre ns @ later up)" unfolding a(2) by simp
    have pd: "plain_dirs (n' # pre (kids n') @ pre ns' @ later up')" using less.prems(3) unfolding a(2) by (simp add: plain_dirs_def)
    have lk: "linked roots ((n', ns') # up')" using linked_next[OF a(1) less.prems(2)] by simp
    obtain js where js: "iterate next_n \<lparr>it_pos = (n', ns') # up', it_path = path', it_nochild = False\<rparr> = Some js"
        "map (fst \<circ> hd \<circ> it_pos) js = n' # pre (kids n') @ pre ns' @ later up'" "list_all (stands roots) js"
      using less.hyps[OF l a(3) lk pd] by (elim exE conjE) (rule that)
    have "iterate next_n ?i = Some (?i # js)" using a(1)[folded ni] js(1) by (subst iterate.simps) simp
    with js(2,3) st a(2) show ?thesis by auto
  qed
qed

lemma iterate_all:
  assumes "\<And>i. next_n i = tree_next kids nm (it_pos i) (it_path i) (it_nochild i)" "plain_dirs (pre (n # ns))"
  shows "\<exists>js. iterate next_n \<lparr>it_pos = [(n, ns)], it_path = None, it_nochild = False\<rparr> = Some js \<and>
    map (fst \<circ> hd \<circ> it_pos) js = pre (n # ns) \<and> list_all (stands (n # ns)) js"
  using iterate_preorder[OF assms(1), where n = n and ns = ns and up = "[]" and path = None and roots = "n # ns"] assms(2)
  by (simp add: path_ok_def later_def pre_Cons)

end

interpretation xf: ordered_tree fl_children file_name file_preorder
proof (unfold_locales, goal_cases)
  case (2 f fs)
  show ?case by (cases f) simp
qed simp

interpretation xpr: ordered_tree pr_children "\<lambda>p. Some (pr_key p)" prop_preorder
proof (unfold_locales, goal_cases)
  case (2 p ps)
  show ?case by (cases p) simp
qed simp

section \<open>Paths and lookups\<close>

lemma strsep_plain:
  assumes "CHR ''/'' \<notin> set a"
  shows "strsep a = (a, None)" "strsep (a @ CHR ''/'' # r) = (a, Some r)"
proof -
  have "takeWhile (\<lambda>c. c \<noteq> CHR ''/'') a = a" "\<forall>c \<in> set a. c \<noteq> CHR ''/''" using assms by (auto simp: takeWhile_eq_all_conv)
  then show "strsep a = (a, None)" "strsep (a @ CHR ''/'' # r) = (a, Some r)"
    using assms by (auto simp: strsep_def takeWhile_append dropWhile_append)
qed

lemma slash_join_merge: "slash_join (ts @ [a @ ''/'' @ s]) = slash_join (ts @ [a, s])"
  by (induction ts rule: slash_join.induct) auto

lemma get_path_join:
  "fold (\<lambda>a s. or_else (nm a) d @ ''/'' @ s) ms s = slash_join (rev (map (\<lambda>a. or_else (nm a) d) ms) @ [s])"
proof (induction ms arbitrary: s)
  case (Cons m ms)
  then show ?case using slash_join_merge[of "rev (map (\<lambda>a. or_else (nm a) d) ms)" "or_else (nm m) d" s] by simp
qed simp

lemma prop_find_chain:
  assumes "xpr.chain_down ps ms" "unique_keys ps" "list_all (\<lambda>m. CHR ''/'' \<notin> set (pr_key m)) ms" "ms \<noteq> []"
  shows "xar_prop_find ps (slash_join (map pr_key ms)) = Some (last ms)"
  using assms
proof (induction ms arbitrary: ps)
  case (Cons m ms)
  have k: "CHR ''/'' \<notin> set (pr_key m)" using Cons.prems(3) by simp
  have f: "first_key (pr_key m) ps = Some m"
    using Cons.prems(1) first_key_distinct[OF unique_keys_distinct[OF Cons.prems(2)]] by simp
  show ?case
  proof (cases ms)
    case Nil
    then show ?thesis using f strsep_plain(1)[OF k] by (subst xar_prop_find_first) simp
  next
    case (Cons b bs)
    have "xar_prop_find (pr_children m) (slash_join (map pr_key ms)) = Some (last ms)"
    proof (rule Cons.IH)
      show "xpr.chain_down (pr_children m) ms" using Cons.prems(1) by simp
      show "unique_keys (pr_children m)" using unique_keys_children[OF Cons.prems(2)] Cons.prems(1) by simp
    qed (use Cons Cons.prems(3) in simp_all)
    then show ?thesis using f strsep_plain(2)[OF k] Cons by (subst xar_prop_find_first) simp
  qed
qed simp

fun unique_names :: "xar_file list \<Rightarrow> bool" where
  "unique_names [] = True"
| "unique_names (File as ps cs # fs) =
     ((\<exists>s. file_name (File as ps cs) = Some s \<and> plain_name s) \<and> file_name (File as ps cs) \<notin> file_name ` set fs \<and>
      unique_names cs \<and> unique_names fs)"

lemma unique_names_children: "unique_names fs \<Longrightarrow> f \<in> set fs \<Longrightarrow> unique_names (fl_children f)"
  by (induction fs rule: unique_names.induct) auto

lemma unique_names_named: "unique_names fs \<Longrightarrow> f \<in> set fs \<Longrightarrow> \<exists>s. file_name f = Some s \<and> plain_name s"
  by (induction fs rule: unique_names.induct) auto

lemma file_find_step:
  assumes "unique_names fs" "f \<in> set fs" "file_name f = Some (fst (strsep path))"
  shows "xar_file_find fs path =
    (case snd (strsep path) of None \<Rightarrow> Some (Some f) | Some rest \<Rightarrow> xar_file_find (fl_children f) rest)"
  using assms
proof (induction fs)
  case (Cons g fs)
  obtain as ps cs where g: "g = File as ps cs" by (cases g)
  have gn: "\<exists>s. file_name g = Some s" "file_name g \<notin> file_name ` set fs" "unique_names fs" using Cons.prems(1) g by auto
  show ?case
  proof (cases "g = f")
    case True
    then have f: "f = File as ps cs" using g by simp
    show ?thesis unfolding True using Cons.prems(3) unfolding f by (simp add: file_name_def split: option.split)
  next
    case False
    then have "f \<in> set fs" using Cons.prems(2) by simp
    then have "file_name g \<noteq> file_name f" using gn(2) by auto
    then obtain s where "file_name g = Some s" "s \<noteq> fst (strsep path)" using gn(1) Cons.prems(3) by auto
    then show ?thesis using Cons.IH[OF gn(3) \<open>f \<in> set fs\<close> Cons.prems(3)] g by (simp add: file_name_def)
  qed
qed simp

lemma file_find_chain:
  assumes "xf.chain_down fs ms" "unique_names fs" "ms \<noteq> []"
  shows "xar_file_find fs (slash_join (map (\<lambda>f. the (file_name f)) ms)) = Some (Some (last ms))"
  using assms
proof (induction ms arbitrary: fs)
  case (Cons m ms)
  have mf: "m \<in> set fs" using Cons.prems(1) by simp
  obtain s where s: "file_name m = Some s" "CHR ''/'' \<notin> set s"
    using unique_names_named[OF Cons.prems(2) mf] by (auto simp: plain_name_def)
  show ?case
  proof (cases ms)
    case Nil
    then show ?thesis using file_find_step[OF Cons.prems(2) mf, of s] s strsep_plain(1)[OF s(2)] by simp
  next
    case (Cons b bs)
    let ?r = "slash_join (map (\<lambda>f. the (file_name f)) ms)"
    have "xar_file_find (fl_children m) ?r = Some (Some (last ms))"
      by (rule Cons.IH) (use Cons.prems(1) unique_names_children[OF Cons.prems(2) mf] Cons in simp_all)
    moreover have "slash_join (map (\<lambda>f. the (file_name f)) (m # ms)) = s @ CHR ''/'' # ?r" using s(1) Cons by simp
    ultimately show ?thesis using file_find_step[OF Cons.prems(2) mf, of "s @ CHR ''/'' # ?r"] s strsep_plain(2)[OF s(2)] Cons by simp
  qed
qed simp

lemma unique_names_preorder: "unique_names fs \<Longrightarrow> f \<in> set (file_preorder fs) \<Longrightarrow> \<exists>s. file_name f = Some s \<and> plain_name s"
  by (induction fs rule: file_preorder.induct) auto

lemma chain_named: "xf.chain_down fs ms \<Longrightarrow> unique_names fs \<Longrightarrow> m \<in> set ms \<Longrightarrow> \<exists>s. file_name m = Some s"
proof (induction ms arbitrary: fs)
  case (Cons x ms)
  then have x: "x \<in> set fs" "xf.chain_down (fl_children x) ms" by simp_all
  show ?case using Cons.IH[OF x(2) unique_names_children[OF Cons.prems(2) x(1)]] unique_names_named[OF Cons.prems(2) x(1)] Cons.prems(3)
    by auto
qed simp

fun plain_keys :: "xar_prop list \<Rightarrow> bool" where
  "plain_keys [] = True"
| "plain_keys (Prop k v as cs # ps) = (plain_name k \<and> plain_keys cs \<and> plain_keys ps)"

lemma plain_keys_preorder: "plain_keys ps \<Longrightarrow> p \<in> set (prop_preorder ps) \<Longrightarrow> plain_name (pr_key p)"
  by (induction ps rule: prop_preorder.induct) auto

lemma plain_keys_chain: "plain_keys ps \<Longrightarrow> xpr.chain_down ps ms \<Longrightarrow> list_all (\<lambda>m. CHR ''/'' \<notin> set (pr_key m)) ms"
proof (induction ms arbitrary: ps)
  case (Cons m ms)
  have "plain_name (pr_key m) \<and> plain_keys (pr_children m)"
    using Cons.prems by (induction ps rule: plain_keys.induct) auto
  then show ?case using Cons.IH[of "pr_children m"] Cons.prems(2) by (simp add: plain_name_def)
qed simp

lemma xar_files_ok:
  assumes "unique_names fs"
  shows "\<exists>js. xar_files fs = Some js \<and> map (fst \<circ> hd \<circ> it_pos) js = file_preorder fs \<and>
    (\<forall>j. j \<in> set js \<longrightarrow> (\<exists>f nexts up path. it_pos j = (f, nexts) # up \<and> xar_get_path f (map fst up) = Some path \<and>
      xar_file_find fs path = Some (Some f)))"
proof (cases fs)
  case Nil
  then show ?thesis by (simp add: xar_files_def)
next
  case (Cons f0 fs0)
  have pd: "xf.plain_dirs (file_preorder (f0 # fs0))"
    using unique_names_preorder[OF assms] Cons by (auto simp: xf.plain_dirs_def)
  have i0: "xar_file_first fs xar_iter_new = \<lparr>it_pos = [(f0, fs0)], it_path = None, it_nochild = False\<rparr>"
    using Cons by (simp add: xar_file_first_def xar_iter_new_def start_at_def)
  obtain js where js: "iterate xar_file_next \<lparr>it_pos = [(f0, fs0)], it_path = None, it_nochild = False\<rparr> = Some js"
      "map (fst \<circ> hd \<circ> it_pos) js = file_preorder fs" "list_all (xf.stands fs) js"
    using xf.iterate_all[OF xar_file_next_def pd] Cons by blast
  have "\<exists>f nexts up path. it_pos j = (f, nexts) # up \<and> xar_get_path f (map fst up) = Some path \<and>
      xar_file_find fs path = Some (Some f)" if "j \<in> set js" for j
  proof -
    have st: "xf.stands fs j" using js(3) that by (simp add: list_all_iff)
    then obtain f nexts up where p: "it_pos j = (f, nexts) # up" by (cases "it_pos j") (auto simp: xf.stands_def)
    have c: "xf.chain_down fs (rev (map fst up) @ [f])" using xf.linked_chain[of fs "it_pos j"] st p by (simp add: xf.stands_def)
    have named: "\<exists>s. file_name m = Some s" if "m \<in> set (rev (map fst up) @ [f])" for m
      by (rule chain_named[OF c assms that])
    obtain s where s: "file_name f = Some s" using named by auto
    have nn: "map (\<lambda>a. or_else (file_name a) ''(null)'') (map fst up) = map (\<lambda>f. the (file_name f)) (map fst up)"
    proof (rule map_cong[OF refl])
      fix x assume "x \<in> set (map fst up)"
      then obtain s where "file_name x = Some s" using named[of x] by auto
      then show "or_else (file_name x) ''(null)'' = the (file_name x)" by (simp add: or_else_def)
    qed
    have "xar_get_path f (map fst up) = Some (slash_join (map (\<lambda>f. the (file_name f)) (rev (map fst up) @ [f])))"
      using s get_path_join[of file_name "''(null)''" "map fst up" s, unfolded nn]
      by (simp add: rev_map file_name_def[symmetric] file_name_def[abs_def, symmetric])
    moreover have "xar_file_find fs (slash_join (map (\<lambda>f. the (file_name f)) (rev (map fst up) @ [f]))) = Some (Some f)"
      using file_find_chain[OF c assms] by simp
    ultimately show ?thesis using p by blast
  qed
  with js(1,2) i0 Cons show ?thesis by (auto simp: xar_files_def)
qed

section \<open>Properties\<close>

text \<open>
  C17.  The file iterator: the loop every client runs over an archive (first, then next until
  NULL) ends, and visits every file of the tree exactly once, directories before their
  contents; for every visited file \<open>xar_get_path\<close> gives a path under which
  \<open>xar_file_find\<close> returns that same file.
\<close>

theorem xar_file_iteration:
  assumes "unique_names fs"
  shows "\<exists>js. xar_files fs = Some js \<and> map (fst \<circ> hd \<circ> it_pos) js = file_preorder fs \<and>
    (\<forall>j. j \<in> set js \<longrightarrow> (\<exists>f nexts up path. it_pos j = (f, nexts) # up \<and> xar_get_path f (map fst up) = Some path \<and>
      xar_file_find fs path = Some (Some f)))"
  by (rule xar_files_ok[OF assms])

text \<open>
  C31.  The property iterator flattens the tree of properties: it ends, visits every property
  once in preorder, and the text it returns for a property (\<open>a1/b1/c1\<close>) is a key under
  which \<open>xar_prop_find\<close> returns that property.
\<close>

theorem xar_prop_iteration:
  assumes "unique_keys (fl_props f)" and "plain_keys (fl_props f)" and "fl_props f \<noteq> []"
  shows "\<exists>js. xar_props f = Some js \<and> map (fst \<circ> hd \<circ> it_pos) js = prop_preorder (fl_props f) \<and>
    (\<forall>j. j \<in> set js \<longrightarrow> xar_prop_find (fl_props f) (prop_node j) = Some (fst (hd (it_pos j))))"
proof -
  let ?ps = "fl_props f"
  obtain p0 ps0 where ps: "?ps = p0 # ps0" using assms(3) by (cases ?ps) auto
  have pd: "xpr.plain_dirs (prop_preorder (p0 # ps0))"
    using plain_keys_preorder[OF assms(2)] ps by (auto simp: xpr.plain_dirs_def)
  have i0: "xar_prop_first f xar_iter_new = Some \<lparr>it_pos = [(p0, ps0)], it_path = None, it_nochild = False\<rparr>"
    using ps by (simp add: xar_prop_first_def xar_iter_new_def start_at_def)
  obtain js where js: "iterate xar_prop_next \<lparr>it_pos = [(p0, ps0)], it_path = None, it_nochild = False\<rparr> = Some js"
      "map (fst \<circ> hd \<circ> it_pos) js = prop_preorder ?ps" "list_all (xpr.stands ?ps) js"
    using xpr.iterate_all[OF xar_prop_next_def pd] ps by auto
  have "xar_prop_find ?ps (prop_node j) = Some (fst (hd (it_pos j)))" if "j \<in> set js" for j
  proof -
    have st: "xpr.stands ?ps j" using js(3) that by (simp add: list_all_iff)
    then obtain p nexts up where p: "it_pos j = (p, nexts) # up" by (cases "it_pos j") (auto simp: xpr.stands_def)
    have c: "xpr.chain_down ?ps (rev (map fst up) @ [p])" using xpr.linked_chain[of ?ps "it_pos j"] st p by (simp add: xpr.stands_def)
    have path: "it_path j = (if up = [] then None else Some (slash_join (map pr_key (rev (map fst up)))))"
      using st p by (simp add: xpr.stands_def xpr.path_ok_def rev_map comp_def case_prod_unfold)
    have "prop_node j = slash_join (map pr_key (rev (map fst up) @ [p]))"
      using path p slash_join_snoc[of "map pr_key (rev (map fst up))" "pr_key p"] by (simp add: prop_node_def)
    moreover have "xar_prop_find ?ps (slash_join (map pr_key (rev (map fst up) @ [p]))) = Some p"
      using prop_find_chain[OF c assms(1) plain_keys_chain[OF assms(2) c]] by simp
    ultimately show ?thesis using p by simp
  qed
  with js(1,2) i0 show ?thesis by (auto simp: xar_props_def)
qed

text \<open>A directory with one file and one empty directory, and a file with nested properties.\<close>

definition leaf :: "string \<Rightarrow> xar_prop" where
  "leaf k = Prop k (Some k) [] []"

definition demo_file :: "string \<Rightarrow> xar_file list \<Rightarrow> xar_file" where
  "demo_file s cs = File [] [Prop ''name'' (Some s) [] [], Prop ''data'' None [] [leaf ''offset'', leaf ''size'']] cs"

definition demo_archive :: "xar_file list" where
  "demo_archive = [demo_file ''usr'' [demo_file ''bin'' [demo_file ''ls'' []], demo_file ''lib'' []], demo_file ''etc'' []]"

lemma demo_name: "file_name (demo_file s cs) = Some s"
  by (simp add: file_name_def xar_prop_get_def demo_file_def strsep_def)

lemma demo_unique: "unique_names demo_archive"
proof -
  have step: "unique_names (demo_file s cs # fs) \<longleftrightarrow> plain_name s \<and> Some s \<notin> file_name ` set fs \<and> unique_names cs \<and> unique_names fs" for s cs fs
    using demo_name[of s cs] by (simp add: demo_file_def)
  show ?thesis by (simp add: demo_archive_def step demo_name plain_name_def)
qed

theorem xar_file_iteration_witness:
  "unique_names demo_archive \<and>
   (\<exists>js. xar_files demo_archive = Some js \<and>
      map (fst \<circ> hd \<circ> it_pos) js = [demo_file ''usr'' [demo_file ''bin'' [demo_file ''ls'' []], demo_file ''lib'' []],
        demo_file ''bin'' [demo_file ''ls'' []], demo_file ''ls'' [], demo_file ''lib'' [], demo_file ''etc'' []])"
proof -
  have "file_preorder demo_archive = [demo_file ''usr'' [demo_file ''bin'' [demo_file ''ls'' []], demo_file ''lib'' []],
        demo_file ''bin'' [demo_file ''ls'' []], demo_file ''ls'' [], demo_file ''lib'' [], demo_file ''etc'' []]"
    by (simp add: demo_archive_def demo_file_def)
  with xar_file_iteration[OF demo_unique] demo_unique show ?thesis by metis
qed

theorem xar_prop_iteration_witness:
  "\<exists>js. xar_props (demo_file ''ls'' []) = Some js \<and>
    map (fst \<circ> hd \<circ> it_pos) js = [Prop ''name'' (Some ''ls'') [] [], Prop ''data'' None [] [leaf ''offset'', leaf ''size''], leaf ''offset'', leaf ''size'']"
proof -
  have "unique_keys (fl_props (demo_file ''ls'' []))" "plain_keys (fl_props (demo_file ''ls'' []))" "fl_props (demo_file ''ls'' []) \<noteq> []"
    by (simp_all add: demo_file_def leaf_def plain_name_def)
  from xar_prop_iteration[OF this] show ?thesis by (auto simp: demo_file_def leaf_def)
qed

end
