(* ===== verification/Db.thy ===== *)
theory Db
  imports Pkg Xar_Iter
begin

text \<open>
  The database layer of \<open>src/db_sqlite.c\<close>, the inode heap of \<open>src/inode.c\<close> and the
  import of packages (\<open>src/pkg.c\<close>, \<open>src/pkg_toc.c\<close>).

  SQLite is a parameter: \<open>exec sql q\<close> is the result of preparing and stepping a
  statement on the engine state \<open>q\<close>, \<open>None\<close> when it cannot be prepared, otherwise
  the rows.  Every statement is passed as the text the C code formats, cut to the
  buffer of \<open>db_query\<close>.  What the import relies on is the predicate \<open>sqlite_laws\<close>.
\<close>

section \<open>Data\<close>

datatype db_query_res_type = QUERY_NULL | QUERY_INT | QUERY_CHAR | QUERY_INODE

text \<open>A column of a result row: name, value as an integer, value as text.\<close>

type_synonym cell = "string \<times> int \<times> string"
type_synonym 'q engine = "string \<Rightarrow> 'q \<Rightarrow> cell list list option \<times> 'q"

record pkg_inode =
  st_ino :: u32
  st_mode :: u32
  st_size :: int
  st_off :: int
  st_uid :: u32
  st_gid :: u32
  st_time :: int

text \<open>
  The value of \<open>db_query\<close>, a \<open>void *\<close> in the code: NULL, an integer cast to a pointer, text
  owned by a statement that is already finalized, or an inode of the inode heap.
\<close>

datatype db_ret = Ret_NULL | Ret_int int | Ret_freed_text string | Ret_inode ptr

text \<open>
  \<open>db_conn\<close> is the connection, \<open>db_locked\<close> the mutex, \<open>db_stmts\<close> the number of
  statements that were never finalized (each with its query buffer).
\<close>

record 'q dbst = pkgst +
  db_conn :: "'q option"
  db_locked :: bool
  db_stmts :: nat
  inode_heap :: ptr
  inodes :: "pkg_inode mem"

definition zero_inode :: pkg_inode where
  "zero_inode = \<lparr>st_ino = 0, st_mode = 0, st_size = 0, st_off = 0, st_uid = 0, st_gid = 0, st_time = 0\<rparr>"

definition sizeof_pkg_inode :: nat where
  "sizeof_pkg_inode = 48"

definition inode_init :: "ptr \<Rightarrow> ptr \<Rightarrow> ptr \<Rightarrow> conf \<Rightarrow> ('q, 'a) dbst_scheme \<Rightarrow> ('q, 'a) dbst_scheme option" where
  "inode_init hb cb me cf s = do {
     epb \<leftarrow> dconf_get_int cf (Some ''tuning.heap.inode'') 128;
     (h, s) \<leftarrow> blockheap_create hb cb me (of_nat sizeof_pkg_inode) epb (Some ''pkg'') s;
     if h = NULL then None else Some (s\<lparr>inode_heap := h\<rparr>) }"

definition inode_fini :: "('q, 'a) dbst_scheme \<Rightarrow> ('q, 'a) dbst_scheme option" where
  "inode_fini s = map_option snd (blockheap_destroy (inode_heap s) s)"

section \<open>Queries\<close>

definition SQL_BUFSIZE :: nat where
  "SQL_BUFSIZE = 8192"

text \<open>\<open>%lu\<close>\<close>

definition lu :: "int \<Rightarrow> string" where
  "lu x = nat_str (unat (word_of_int x :: u64))"

definition quoted :: "string \<Rightarrow> string" where
  "quoted t = [CHR 0x27] @ t @ [CHR 0x27]"

definition column_int :: "cell list \<Rightarrow> nat \<Rightarrow> int" where
  "column_int r i = (if i < length r then to_int32 (fst (snd (r ! i))) else 0)"

definition column_int64 :: "cell list \<Rightarrow> nat \<Rightarrow> int" where
  "column_int64 r i = (if i < length r then fst (snd (r ! i)) else 0)"

definition inode_names :: "string list" where
  "inode_names = [''gid'', ''inode'', ''mode'', ''size'', ''time'', ''uid'']"

text \<open>One column of an inode row.\<close>

definition inode_column :: "cell list \<Rightarrow> nat \<Rightarrow> pkg_inode \<Rightarrow> pkg_inode" where
  "inode_column r i d =
     (let c = fst (r ! i) in
      if c = ''gid'' then d\<lparr>st_gid := word_of_int (column_int64 r i)\<rparr>
      else if c = ''inode'' then d\<lparr>st_ino := word_of_int (column_int r i)\<rparr>
      else if c = ''mode'' then d\<lparr>st_mode := word_of_int (column_int r i)\<rparr>
      else if c = ''size'' then d\<lparr>st_size := column_int64 r i\<rparr>
      else if c = ''time'' then d\<lparr>st_time := column_int64 r i\<rparr>
      else if c = ''uid'' then d\<lparr>st_uid := word_of_int (column_int64 r i)\<rparr>
      else d)"

function inode_columns :: "cell list \<Rightarrow> nat \<Rightarrow> pkg_inode \<Rightarrow> pkg_inode" where
  "inode_columns r i d = (if i < length r then inode_columns r (Suc i) (inode_column r i d) else d)"
  by pat_completeness auto
termination by (relation "measure (\<lambda>(r, i, d). length r - i)") auto

declare inode_columns.simps [simp del]

text \<open>
  The loop over the rows.  \<open>i\<close> is the column counter, which is set once before the loop;
  the \<open>e\<close> are the memory offers for the inode heap.  The flag of the result is False
  when the function returned from inside the loop.
\<close>

fun query_rows :: "(nat \<Rightarrow> ptr \<times> ptr) \<Rightarrow> db_query_res_type \<Rightarrow> cell list list \<Rightarrow> nat \<Rightarrow> db_ret \<Rightarrow>
    ('q, 'a) dbst_scheme \<Rightarrow> (bool \<times> db_ret \<times> ('q, 'a) dbst_scheme) option" where
  "query_rows e type [] i ret s = Some (True, ret, s)"
| "query_rows e type (r # rs) i ret s =
     (case type of
        QUERY_NULL \<Rightarrow> Some (False, Ret_NULL, s)
      | QUERY_INT \<Rightarrow> query_rows e type rs i (Ret_int (column_int r 0)) s
      | QUERY_CHAR \<Rightarrow> query_rows e type rs i (case r of [] \<Rightarrow> Ret_NULL | c # _ \<Rightarrow> Ret_freed_text (snd (snd c))) s
      | QUERY_INODE \<Rightarrow> do {
          (p, s) \<leftarrow> blockheap_alloc (fst (e (length rs))) (snd (e (length rs))) (inode_heap s) s;
          if p = NULL \<and> (\<exists>c \<in> set (drop i r). fst c \<in> set inode_names) then None
          else query_rows e type rs (max i (length r)) (Ret_inode p)
                 (s\<lparr>inodes := (inodes s)(p \<mapsto> inode_columns r i zero_inode)\<rparr>) })"

definition db_query :: "'q engine \<Rightarrow> (nat \<Rightarrow> ptr \<times> ptr) \<Rightarrow> db_query_res_type \<Rightarrow> string \<Rightarrow>
    ('q, 'a) dbst_scheme \<Rightarrow> (db_ret \<times> ('q, 'a) dbst_scheme) option" where
  "db_query exec e type sql s =
     (case db_conn s of
        None \<Rightarrow> Some (Ret_NULL, s)
      | Some q \<Rightarrow>
          (case exec (take (SQL_BUFSIZE - 1) sql) q of
             (None, q) \<Rightarrow> Some (Ret_NULL, s\<lparr>db_conn := Some q\<rparr>)
           | (Some rs, q) \<Rightarrow> do {
               (fin, ret, s) \<leftarrow> query_rows e type rs 0 Ret_NULL (s\<lparr>db_conn := Some q\<rparr>);
               Some (ret, if fin then s else s\<lparr>db_stmts := Suc (db_stmts s)\<rparr>) }))"

text \<open>A statement without result.\<close>

definition db_run :: "'q engine \<Rightarrow> string \<Rightarrow> ('q, 'a) dbst_scheme \<Rightarrow> ('q, 'a) dbst_scheme option" where
  "db_run exec sql s = map_option snd (db_query exec (\<lambda>_. (NULL, NULL)) QUERY_NULL sql s)"

text \<open>Locking a locked (default) mutex never returns.\<close>

definition db_begin :: "'q engine \<Rightarrow> ('q, 'a) dbst_scheme \<Rightarrow> ('q, 'a) dbst_scheme option" where
  "db_begin exec s = (if db_locked s then None else db_run exec ''BEGIN;'' (s\<lparr>db_locked := True\<rparr>))"

definition db_commit :: "'q engine \<Rightarrow> ('q, 'a) dbst_scheme \<Rightarrow> ('q, 'a) dbst_scheme option" where
  "db_commit exec s = do { s \<leftarrow> db_run exec ''COMMIT;'' s; Some (s\<lparr>db_locked := False\<rparr>) }"

definition db_rollback :: "'q engine \<Rightarrow> ('q, 'a) dbst_scheme \<Rightarrow> ('q, 'a) dbst_scheme option" where
  "db_rollback exec s = do { s \<leftarrow> db_run exec ''ROLLBACK;'' s; Some (s\<lparr>db_locked := False\<rparr>) }"

definition db_sqlite_initialize :: "'q engine \<Rightarrow> ('q, 'a) dbst_scheme \<Rightarrow> ('q, 'a) dbst_scheme option" where
  "db_sqlite_initialize exec s = do {
     s \<leftarrow> db_begin exec s;
     s \<leftarrow> db_run exec ''DROP TABLE IF EXISTS packages'' s;
     s \<leftarrow> db_run exec ''DROP TABLE IF EXISTS files'' s;
     s \<leftarrow> db_run exec ''CREATE TABLE packages (path TEXT, version INTEGER, id INTEGER PRIMARY KEY AUTOINCREMENT);'' s;
     s \<leftarrow> db_run exec ''CREATE TABLE files (package INTEGER, path TEXT, type TEXT, owner INTEGER, grp INTEGER, size INTEGER, mode INTEGER, offset INTEGER, ctime INTEGER, target INTEGER, inode INTEGER PRIMARY KEY AUTOINCREMENT);'' s;
     s \<leftarrow> db_run exec (''INSERT INTO files (package, path, type, size, offset, owner, grp, mode) VALUES ('' @
           quoted '''' @ '', '' @ quoted ''/'' @ '', '' @ quoted ''d'' @ '', 0, 0, 0, 0, 16895);'') s;
     db_commit exec s }"

text \<open>
  \<open>db_sqlite_open\<close>: \<open>conn\<close> is the result of \<open>sqlite3_open\<close> (\<open>None\<close>: it failed, and
  raising SIGTERM ends the process).  Removing an old file is I/O.
\<close>

definition db_sqlite_open :: "'q engine \<Rightarrow> 'q option \<Rightarrow> ('q, 'a) dbst_scheme \<Rightarrow> (int \<times> ('q, 'a) dbst_scheme) option" where
  "db_sqlite_open exec conn s =
     (if db_conn s \<noteq> None then Some (0, s)
      else do { c \<leftarrow> conn; s \<leftarrow> db_sqlite_initialize exec (s\<lparr>db_conn := Some c\<rparr>); Some (0, s) })"

section \<open>Packages and files\<close>

definition sql_insert_pkg :: "string \<Rightarrow> int \<Rightarrow> string" where
  "sql_insert_pkg path version =
     ''INSERT INTO packages (path, version) VALUES ('' @ quoted path @ '', '' @ lu version @ '');''"

definition sql_select_pkg :: "string \<Rightarrow> int \<Rightarrow> string" where
  "sql_select_pkg path version =
     ''SELECT id FROM packages WHERE path = '' @ quoted path @ '' AND version = '' @ lu version @ '';''"

definition sql_delete_files :: "string \<Rightarrow> string" where
  "sql_delete_files path =
     ''DELETE FROM files WHERE package IN (SELECT id FROM packages WHERE path = '' @ quoted path @ '');''"

definition sql_delete_pkg :: "string \<Rightarrow> string" where
  "sql_delete_pkg path = ''DELETE FROM packages WHERE path = '' @ quoted path @ '';''"

definition ret_int :: "db_ret \<Rightarrow> int" where
  "ret_int r = (case r of Ret_int i \<Rightarrow> i | Ret_inode p \<Rightarrow> int p | _ \<Rightarrow> 0)"

text \<open>\<open>st\<close> is the result of \<open>stat\<close>: an errno or the modification time.\<close>

definition db_pkg_add :: "'q engine \<Rightarrow> int + int \<Rightarrow> string \<Rightarrow> ('q, 'a) dbst_scheme \<Rightarrow> (int \<times> ('q, 'a) dbst_scheme) option" where
  "db_pkg_add exec st path s =
     (case st of
        Inl err \<Rightarrow> Some (- err, s)
      | Inr mtime \<Rightarrow> do {
          s \<leftarrow> db_run exec (sql_insert_pkg path mtime) s;
          (r, s) \<leftarrow> db_query exec (\<lambda>_. (NULL, NULL)) QUERY_INT (sql_select_pkg path mtime) s;
          Some (to_int32 (ret_int r), s) })"

definition db_pkg_remove :: "'q engine \<Rightarrow> string \<Rightarrow> ('q, 'a) dbst_scheme \<Rightarrow> (int \<times> ('q, 'a) dbst_scheme) option" where
  "db_pkg_remove exec path s = do {
     s \<leftarrow> db_run exec (sql_delete_files path) s;
     s \<leftarrow> db_run exec (sql_delete_pkg path) s;
     Some (0, s) }"

definition db_file_remove :: "'q engine \<Rightarrow> int \<Rightarrow> string \<Rightarrow> ('q, 'a) dbst_scheme \<Rightarrow> (int \<times> ('q, 'a) dbst_scheme) option" where
  "db_file_remove exec pkg path s = do {
     s \<leftarrow> db_run exec (''DELETE FROM files WHERE package = '' @ quoted (lu pkg) @ '' AND path = '' @ quoted path @ '';'') s;
     Some (0, s) }"

text \<open>
  \<open>db_file_add\<close>: the format has ten conversions and eight arguments, and the third one,
  \<open>%s\<close>, is given the character \<open>type\<close>: formatting follows that character as an address.
\<close>

definition db_file_add :: "'q engine \<Rightarrow> int \<Rightarrow> string \<Rightarrow> char \<Rightarrow> ('q, 'a) dbst_scheme \<Rightarrow> (int \<times> ('q, 'a) dbst_scheme) option" where
  "db_file_add exec pkg path type s = do {
     (_, s) \<leftarrow> db_file_remove exec pkg path s;
     None }"

section \<open>The table of contents\<close>

text \<open>The kind and the offset \<open>pkg_toc_process\<close> computes for a member.\<close>

definition toc_kind :: "xar_file \<Rightarrow> char \<times> string option" where
  "toc_kind f =
     (let xtype = xar_get_type f in
      if strcasecmp_eq xtype ''file'' then (CHR ''f'', snd (xar_prop_get f ''data/offset''))
      else (if strcasecmp_eq xtype ''directory'' then CHR ''d''
            else if strcasecmp_eq xtype ''hardlink'' then CHR ''l''
            else if strcasecmp_eq xtype ''symlink'' then CHR ''l''
            else CHR ''u'', Some ''0''))"

text \<open>The body of the loop over the members: the path (a member without a name crashes) and the kind.\<close>

definition toc_entry :: "xar_file xar_iter \<Rightarrow> (string \<times> char \<times> string option) option" where
  "toc_entry j =
     (case it_pos j of
        [] \<Rightarrow> None
      | (f, _) # up \<Rightarrow> do { path \<leftarrow> xar_get_path f (map fst up); Some (path, toc_kind f) })"

definition toc_members :: "xar_file list \<Rightarrow> (string \<times> char \<times> string option) list option" where
  "toc_members fs = do { js \<leftarrow> xar_files fs; those (map toc_entry js) }"

text \<open>
  \<open>pkg_toc_process\<close> with libxar: \<open>x\<close> is the opened archive (\<open>None\<close>: it cannot be
  opened), \<open>iter\<close> whether the iterator could be made.  The members are only looked at; the
  statement that would record them is compiled out.
\<close>

definition pkg_toc_process :: "'q engine \<Rightarrow> xar_file list option \<Rightarrow> bool \<Rightarrow> int + int \<Rightarrow> string \<Rightarrow>
    ('q, 'a) dbst_scheme \<Rightarrow> (int \<times> ('q, 'a) dbst_scheme) option" where
  "pkg_toc_process exec x iter st path s =
     (case x of
        None \<Rightarrow> Some (1, s)
      | Some fs \<Rightarrow>
          if \<not> iter then Some (1, s)
          else do {
            (_, s) \<leftarrow> db_pkg_remove exec path s;
            (pkgid, s) \<leftarrow> db_pkg_add exec st path s;
            ks \<leftarrow> toc_members fs;
            Some (0, s) })"

definition pkg_import :: "'q engine \<Rightarrow> xar_file list option \<Rightarrow> bool \<Rightarrow> int + int \<Rightarrow> string \<Rightarrow>
    ('q, 'a) dbst_scheme \<Rightarrow> (int \<times> ('q, 'a) dbst_scheme) option" where
  "pkg_import exec x iter st path s = do {
     h \<leftarrow> pkg_handle_byname path s;
     if h \<noteq> NULL then Some (0, s)
     else do {
       s \<leftarrow> db_begin exec s;
       (r, s) \<leftarrow> pkg_toc_process exec x iter st path s;
       s \<leftarrow> (if r = 0 then db_commit exec s else db_rollback exec s);
       Some (0, s) } }"

definition pkg_forget :: "'q engine \<Rightarrow> string \<Rightarrow> ('q, 'a) dbst_scheme \<Rightarrow> (int \<times> ('q, 'a) dbst_scheme) option" where
  "pkg_forget exec path s = do { (_, s) \<leftarrow> db_pkg_remove exec path s; Some (0, s) }"

section \<open>What the import relies on\<close>

text \<open>
  The tables as the statements of this module see them: rows (path, version, id) of
  \<open>packages\<close> and rows (package, path) of \<open>files\<close>, and, inside a transaction, the
  tables it started from.
\<close>

type_synonym tables = "(string \<times> int \<times> int) list \<times> (int \<times> string) list"

definition ids_of :: "string \<Rightarrow> (string \<times> int \<times> int) list \<Rightarrow> int set" where
  "ids_of path P = {i. \<exists>v. (path, v, i) \<in> set P}"

definition without_files :: "string \<Rightarrow> tables \<Rightarrow> tables" where
  "without_files path t = (fst t, filter (\<lambda>f. fst f \<notin> ids_of path (fst t)) (snd t))"

definition without_pkg :: "string \<Rightarrow> tables \<Rightarrow> tables" where
  "without_pkg path t = (filter (\<lambda>r. fst r \<noteq> path) (fst t), snd t)"

definition id_row :: "string \<times> int \<times> int \<Rightarrow> cell list" where
  "id_row r = [(''id'', snd (snd r), lu (snd (snd r)))]"

definition answers :: "'q engine \<Rightarrow> ('q \<Rightarrow> tables \<times> tables option) \<Rightarrow> string \<Rightarrow> 'q \<Rightarrow> tables \<times> tables option \<Rightarrow> bool" where
  "answers exec view sql q v \<longleftrightarrow> (\<exists>q'. exec sql q = (Some [], q') \<and> view q' = v)"

text \<open>
  The documented effect of the statements on a path and a version: transactions, deletion,
  insertion with a new key (AUTOINCREMENT), selection.
\<close>

definition sqlite_laws :: "'q engine \<Rightarrow> ('q \<Rightarrow> tables \<times> tables option) \<Rightarrow> string \<Rightarrow> int \<Rightarrow> bool" where
  "sqlite_laws exec view path ver \<longleftrightarrow>
     (\<forall>q t. view q = (t, None) \<longrightarrow> answers exec view ''BEGIN;'' q (t, Some t)) \<and>
     (\<forall>q t u. view q = (t, Some u) \<longrightarrow> answers exec view ''COMMIT;'' q (t, None)) \<and>
     (\<forall>q t u. view q = (t, Some u) \<longrightarrow> answers exec view ''ROLLBACK;'' q (u, None)) \<and>
     (\<forall>q t x. view q = (t, x) \<longrightarrow> answers exec view (sql_delete_files path) q (without_files path t, x)) \<and>
     (\<forall>q t x. view q = (t, x) \<longrightarrow> answers exec view (sql_delete_pkg path) q (without_pkg path t, x)) \<and>
     (\<forall>q t x. view q = (t, x) \<longrightarrow> (\<exists>i. i \<notin> snd ` snd ` set (fst t) \<and>
        answers exec view (sql_insert_pkg path ver) q ((fst t @ [(path, ver, i)], snd t), x))) \<and>
     (\<forall>q t x. view q = (t, x) \<longrightarrow> (\<exists>q'. view q' = (t, x) \<and>
        exec (sql_select_pkg path ver) q =
          (Some (map id_row (filter (\<lambda>r. fst r = path \<and> fst (snd r) = ver) (fst t))), q')))"

lemma sqlite_lawsD:
  assumes "sqlite_laws exec view path ver"
  shows "view q = (t, None) \<Longrightarrow> answers exec view ''BEGIN;'' q (t, Some t)"
    "view q = (t, Some u) \<Longrightarrow> answers exec view ''COMMIT;'' q (t, None)"
    "view q = (t, Some u) \<Longrightarrow> answers exec view ''ROLLBACK;'' q (u, None)"
    "view q = (t, x) \<Longrightarrow> answers exec view (sql_delete_files path) q (without_files path t, x)"
    "view q = (t, x) \<Longrightarrow> answers exec view (sql_delete_pkg path) q (without_pkg path t, x)"
    "view q = (t, x) \<Longrightarrow> \<exists>i. i \<notin> snd ` snd ` set (fst t) \<and>
      answers exec view (sql_insert_pkg path ver) q ((fst t @ [(path, ver, i)], snd t), x)"
    "view q = (t, x) \<Longrightarrow> \<exists>q'. view q' = (t, x) \<and> exec (sql_select_pkg path ver) q =
      (Some (map id_row (filter (\<lambda>r. fst r = path \<and> fst (snd r) = ver) (fst t))), q')"
  using assms unfolding sqlite_laws_def by (simp_all del: split_paired_All split_paired_Ex)

section \<open>Running statements\<close>

lemma lu_length: "length (lu x) \<le> 20"
proof -
  have "unat (word_of_int x :: u64) < 2 ^ 64" using unsigned_less[of "word_of_int x :: u64", where ?'a = nat] by simp
  then have "unat (word_of_int x :: u64) < 10 ^ 20" by simp
  then show ?thesis unfolding lu_def by (rule nat_str_length) simp
qed

definition path_fits :: "string \<Rightarrow> bool" where
  "path_fits path \<longleftrightarrow> length path < 4096"

lemma sql_fits:
  assumes "path_fits path"
  shows "take (SQL_BUFSIZE - 1) (sql_insert_pkg path v) = sql_insert_pkg path v"
    "take (SQL_BUFSIZE - 1) (sql_select_pkg path v) = sql_select_pkg path v"
    "take (SQL_BUFSIZE - 1) (sql_delete_files path) = sql_delete_files path"
    "take (SQL_BUFSIZE - 1) (sql_delete_pkg path) = sql_delete_pkg path"
  using assms lu_length[of v]
  by (auto intro!: take_all simp: path_fits_def SQL_BUFSIZE_def sql_insert_pkg_def sql_select_pkg_def
      sql_delete_files_def sql_delete_pkg_def quoted_def)

text \<open>What running a statement leaves alone.\<close>

definition conn_view :: "('q \<Rightarrow> tables \<times> tables option) \<Rightarrow> ('q, 'a) dbst_scheme \<Rightarrow> (tables \<times> tables option) option" where
  "conn_view view s = map_option view (db_conn s)"

lemma db_run_ok:
  assumes "answers exec view (take (SQL_BUFSIZE - 1) sql) q v" "db_conn s = Some q"
  shows "\<exists>q'. db_run exec sql s = Some (s\<lparr>db_conn := Some q'\<rparr>) \<and> view q' = v"
  using assms by (auto simp: answers_def db_run_def db_query_def)

lemma query_rows_int:
  "query_rows e QUERY_INT rs i ret s =
     Some (True, if rs = [] then ret else Ret_int (column_int (last rs) 0), s)"
  by (induction rs arbitrary: ret) auto

lemma db_pkg_remove_ok:
  assumes L: "sqlite_laws exec view path ver" and p: "path_fits path"
    and q: "db_conn s = Some q" "view q = (t, x)"
  shows "\<exists>q'. db_pkg_remove exec path s = Some (0, s\<lparr>db_conn := Some q'\<rparr>) \<and>
    view q' = (without_pkg path (without_files path t), x)"
proof -
  have a1: "answers exec view (take (SQL_BUFSIZE - 1) (sql_delete_files path)) q (without_files path t, x)"
    unfolding sql_fits[OF p] by (rule sqlite_lawsD(4)[OF L q(2)])
  obtain q1 where q1: "db_run exec (sql_delete_files path) s = Some (s\<lparr>db_conn := Some q1\<rparr>)" "view q1 = (without_files path t, x)"
    using db_run_ok[OF a1 q(1)] by blast
  have a2: "answers exec view (take (SQL_BUFSIZE - 1) (sql_delete_pkg path)) q1 (without_pkg path (without_files path t), x)"
    unfolding sql_fits[OF p] by (rule sqlite_lawsD(5)[OF L q1(2)])
  have c1: "db_conn (s\<lparr>db_conn := Some q1\<rparr>) = Some q1" by simp
  obtain q2 where q2: "db_run exec (sql_delete_pkg path) (s\<lparr>db_conn := Some q1\<rparr>) = Some (s\<lparr>db_conn := Some q2\<rparr>)"
      "view q2 = (without_pkg path (without_files path t), x)"
    using db_run_ok[OF a2 c1] by auto
  have "db_pkg_remove exec path s = Some (0, s\<lparr>db_conn := Some q2\<rparr>)" using q1(1) q2(1) by (simp add: db_pkg_remove_def)
  with q2(2) show ?thesis by blast
qed

lemma db_pkg_add_ok:
  assumes L: "sqlite_laws exec view path ver" and p: "path_fits path"
    and q: "db_conn s = Some q" "view q = (t, x)" and new: "ids_of path (fst t) = {}"
  shows "\<exists>q' i. db_pkg_add exec (Inr ver) path s = Some (to_int32 i, s\<lparr>db_conn := Some q'\<rparr>) \<and>
    view q' = ((fst t @ [(path, ver, i)], snd t), x) \<and> i \<notin> snd ` snd ` set (fst t)"
proof -
  obtain i where i: "i \<notin> snd ` snd ` set (fst t)"
      "answers exec view (sql_insert_pkg path ver) q ((fst t @ [(path, ver, i)], snd t), x)"
    using sqlite_lawsD(6)[OF L q(2)] by (elim exE conjE) (rule that)
  let ?t = "(fst t @ [(path, ver, i)], snd t)"
  have a1: "answers exec view (take (SQL_BUFSIZE - 1) (sql_insert_pkg path ver)) q (?t, x)"
    unfolding sql_fits[OF p] by (rule i(2))
  obtain q1 where q1: "db_run exec (sql_insert_pkg path ver) s = Some (s\<lparr>db_conn := Some q1\<rparr>)" "view q1 = (?t, x)"
    using db_run_ok[OF a1 q(1)] by blast
  obtain q2 where q2: "view q2 = (?t, x)" "exec (sql_select_pkg path ver) q1 =
      (Some (map id_row (filter (\<lambda>r. fst r = path \<and> fst (snd r) = ver) (fst ?t))), q2)"
    using sqlite_lawsD(7)[OF L q1(2)] by blast
  have "filter (\<lambda>r. fst r = path \<and> fst (snd r) = ver) (fst t) = []"
    using new by (auto simp: ids_of_def filter_empty_conv)
  then have rows: "exec (sql_select_pkg path ver) q1 = (Some [[(''id'', i, lu i)]], q2)" using q2(2) by (simp add: id_row_def)
  then have "db_query exec (\<lambda>_. (NULL, NULL)) QUERY_INT (sql_select_pkg path ver) (s\<lparr>db_conn := Some q1\<rparr>) =
      Some (Ret_int (to_int32 i), s\<lparr>db_conn := Some q2\<rparr>)"
    using sql_fits[OF p] by (simp add: db_query_def query_rows_int column_int_def)
  then have "db_pkg_add exec (Inr ver) path s = Some (to_int32 i, s\<lparr>db_conn := Some q2\<rparr>)"
    using q1(1) by (simp add: db_pkg_add_def ret_int_def to_int32_def)
  with q2(1) i(1) show ?thesis by blast
qed

section \<open>The table of contents\<close>

text \<open>Every member of the archive is looked at once, under a path that leads to it.\<close>

lemma toc_members_ok:
  assumes "unique_names fs"
  shows "\<exists>ks. toc_members fs = Some ks \<and> length ks = length (file_preorder fs)"
proof -
  obtain js where js: "xar_files fs = Some js" "map (fst \<circ> hd \<circ> it_pos) js = file_preorder fs"
      "\<forall>j. j \<in> set js \<longrightarrow> (\<exists>f nexts up path. it_pos j = (f, nexts) # up \<and> xar_get_path f (map fst up) = Some path \<and>
        xar_file_find fs path = Some (Some f))"
    using xar_files_ok[OF assms] by blast
  have "\<exists>k. toc_entry j = Some k" if "j \<in> set js" for j
    using js(3) that by (force simp: toc_entry_def)
  then have "\<exists>ks. those (map toc_entry js) = Some ks \<and> length ks = length js"
  proof (induction js)
    case (Cons j js)
    obtain k where "toc_entry j = Some k" using Cons.prems[of j] by auto
    moreover obtain ks where "those (map toc_entry js) = Some ks" "length ks = length js" using Cons by auto
    ultimately show ?case by simp
  qed simp
  moreover have "length js = length (file_preorder fs)" using js(2) by (metis length_map)
  ultimately show ?thesis using js(1) by (auto simp: toc_members_def)
qed

section \<open>Importing a package\<close>

lemma db_begin_ok:
  assumes L: "sqlite_laws exec view path ver" and q: "db_conn s = Some q" "view q = (t, None)" and l: "\<not> db_locked s"
  shows "\<exists>q'. db_begin exec s = Some (s\<lparr>db_locked := True, db_conn := Some q'\<rparr>) \<and> view q' = (t, Some t)"
proof -
  have "answers exec view (take (SQL_BUFSIZE - 1) ''BEGIN;'') q (t, Some t)"
    using sqlite_lawsD(1)[OF L q(2)] by (simp add: SQL_BUFSIZE_def)
  from db_run_ok[OF this, of "s\<lparr>db_locked := True\<rparr>"] q(1) l show ?thesis by (simp add: db_begin_def)
qed

lemma db_end_ok:
  assumes L: "sqlite_laws exec view path ver" and q: "db_conn s = Some q" "view q = (t, Some u)"
  shows "\<exists>q'. db_commit exec s = Some (s\<lparr>db_conn := Some q', db_locked := False\<rparr>) \<and> view q' = (t, None)"
    "\<exists>q'. db_rollback exec s = Some (s\<lparr>db_conn := Some q', db_locked := False\<rparr>) \<and> view q' = (u, None)"
proof -
  have "answers exec view ''COMMIT;'' q (t, None)" "answers exec view ''ROLLBACK;'' q (u, None)"
    by (rule sqlite_lawsD(2)[OF L q(2)], rule sqlite_lawsD(3)[OF L q(2)])
  then have a: "answers exec view (take (SQL_BUFSIZE - 1) ''COMMIT;'') q (t, None)"
    "answers exec view (take (SQL_BUFSIZE - 1) ''ROLLBACK;'') q (u, None)"
    by (simp_all add: SQL_BUFSIZE_def)
  from db_run_ok[OF a(1) q(1)] db_run_ok[OF a(2) q(1)]
  show "\<exists>q'. db_commit exec s = Some (s\<lparr>db_conn := Some q', db_locked := False\<rparr>) \<and> view q' = (t, None)"
    "\<exists>q'. db_rollback exec s = Some (s\<lparr>db_conn := Some q', db_locked := False\<rparr>) \<and> view q' = (u, None)"
    by (auto simp: db_commit_def db_rollback_def)
qed

lemma without_pkg_ids: "ids_of path (fst (without_pkg path t)) = {}"
  by (auto simp: ids_of_def without_pkg_def)

definition removed :: "string \<Rightarrow> tables \<Rightarrow> tables" where
  "removed path t = without_pkg path (without_files path t)"

lemma pkg_toc_process_ok:
  assumes L: "sqlite_laws exec view path ver" and p: "path_fits path"
    and q: "db_conn s = Some q" "view q = (t, x)" and u: "unique_names fs"
  shows "\<exists>q' i. pkg_toc_process exec (Some fs) True (Inr ver) path s = Some (0, s\<lparr>db_conn := Some q'\<rparr>) \<and>
      view q' = ((fst (removed path t) @ [(path, ver, i)], snd (removed path t)), x) \<and> i \<notin> snd ` snd ` set (fst (removed path t))"
    "\<exists>q'. pkg_toc_process exec (Some fs) True (Inl err) path s = Some (0, s\<lparr>db_conn := Some q'\<rparr>) \<and>
      view q' = (removed path t, x)"
proof -
  obtain ks where fs: "toc_members fs = Some ks" using toc_members_ok[OF u] by blast
  obtain q1 where q1: "db_pkg_remove exec path s = Some (0, s\<lparr>db_conn := Some q1\<rparr>)" "view q1 = (removed path t, x)"
    using db_pkg_remove_ok[OF L p q] by (auto simp: removed_def)
  have c: "db_conn (s\<lparr>db_conn := Some q1\<rparr>) = Some q1" "ids_of path (fst (removed path t)) = {}"
    by (simp_all add: removed_def without_pkg_ids)
  from db_pkg_add_ok[OF L p c(1) q1(2) c(2)] q1(1) fs
  show "\<exists>q' i. pkg_toc_process exec (Some fs) True (Inr ver) path s = Some (0, s\<lparr>db_conn := Some q'\<rparr>) \<and>
      view q' = ((fst (removed path t) @ [(path, ver, i)], snd (removed path t)), x) \<and> i \<notin> snd ` snd ` set (fst (removed path t))"
    by (auto simp: pkg_toc_process_def)
  show "\<exists>q'. pkg_toc_process exec (Some fs) True (Inl err) path s = Some (0, s\<lparr>db_conn := Some q'\<rparr>) \<and>
      view q' = (removed path t, x)"
    using q1 fs by (auto simp: pkg_toc_process_def db_pkg_add_def)
qed

lemma byname_conn [simp]:
  "pkg_handle_byname path (s\<lparr>db_conn := c\<rparr>) = pkg_handle_byname path s"
  "pkg_handle_byname path (s\<lparr>db_locked := b\<rparr>) = pkg_handle_byname path s"
  by (simp_all add: pkg_handle_byname_def)

lemma pkg_import_ok:
  assumes "sqlite_laws exec view path ver" and "path_fits path" and "pkg_handle_byname path s = Some NULL"
    and "db_conn s = Some q" and "view q = ((P, F), None)" and "\<not> db_locked s" and "unique_names fs"
  shows "\<exists>q' i. pkg_import exec (Some fs) True (Inr ver) path s = Some (0, s\<lparr>db_conn := Some q'\<rparr>) \<and>
    view q' = ((filter (\<lambda>r. fst r \<noteq> path) P @ [(path, ver, i)], filter (\<lambda>f. fst f \<notin> ids_of path P) F), None) \<and>
    i \<notin> snd ` snd ` set (filter (\<lambda>r. fst r \<noteq> path) P)"
proof -
  obtain q1 where q1: "db_begin exec s = Some (s\<lparr>db_locked := True, db_conn := Some q1\<rparr>)" "view q1 = ((P, F), Some (P, F))"
    using db_begin_ok[OF assms(1,4,5,6)] by blast
  let ?s1 = "s\<lparr>db_locked := True, db_conn := Some q1\<rparr>" and ?t = "removed path (P, F)"
  have c1: "db_conn ?s1 = Some q1" by simp
  obtain q2 i where q2: "pkg_toc_process exec (Some fs) True (Inr ver) path ?s1 = Some (0, ?s1\<lparr>db_conn := Some q2\<rparr>)"
      "view q2 = ((fst ?t @ [(path, ver, i)], snd ?t), Some (P, F))" "i \<notin> snd ` snd ` set (fst ?t)"
    using pkg_toc_process_ok(1)[OF assms(1,2) c1 q1(2) assms(7)] by blast
  let ?s2 = "?s1\<lparr>db_conn := Some q2\<rparr>"
  have c2: "db_conn ?s2 = Some q2" by simp
  obtain q3 where q3: "db_commit exec ?s2 = Some (?s2\<lparr>db_conn := Some q3, db_locked := False\<rparr>)"
      "view q3 = ((fst ?t @ [(path, ver, i)], snd ?t), None)"
    using db_end_ok(1)[OF assms(1) c2 q2(2)] by blast
  have "pkg_import exec (Some fs) True (Inr ver) path s = Some (0, ?s2\<lparr>db_conn := Some q3, db_locked := False\<rparr>)"
    using assms(3) q1(1) q2(1) q3(1) by (simp add: pkg_import_def)
  moreover have "?t = (filter (\<lambda>r. fst r \<noteq> path) P, filter (\<lambda>f. fst f \<notin> ids_of path P) F)"
    by (simp add: removed_def without_pkg_def without_files_def)
  moreover have "s\<lparr>db_locked := True, db_conn := Some q1, db_conn := Some q2, db_conn := Some q3, db_locked := False\<rparr> =
      s\<lparr>db_conn := Some q3\<rparr>"
    using assms(6) by (cases s) simp
  ultimately show ?thesis using q2(3) q3(2) by (intro exI[of _ q3] exI[of _ i]) simp
qed

lemma pkg_forget_ok:
  assumes "sqlite_laws exec view path ver" and "path_fits path" and "db_conn s = Some q" and "view q = (t, x)"
  shows "\<exists>q'. pkg_forget exec path s = Some (0, s\<lparr>db_conn := Some q'\<rparr>) \<and> view q' = (removed path t, x)"
  using db_pkg_remove_ok[OF assms] by (auto simp: pkg_forget_def removed_def)

text \<open>
  C2.  Importing a package that is not open: whatever the tables held for its path, they hold
  exactly one row for it afterwards, with its modification time and a new id; the files
  of every earlier version are gone, everything else is kept, the transaction is closed
  and the mutex released.
\<close>

theorem pkg_import_upgrades:
  assumes "sqlite_laws exec view path ver" and "path_fits path" and "pkg_handle_byname path s = Some NULL"
    and "db_conn s = Some q" and "view q = ((P, F), None)" and "\<not> db_locked s" and "unique_names fs"
  shows "\<exists>s' q' i. pkg_import exec (Some fs) True (Inr ver) path s = Some (0, s') \<and> db_conn s' = Some q' \<and>
    view q' = ((filter (\<lambda>r. fst r \<noteq> path) P @ [(path, ver, i)], filter (\<lambda>f. fst f \<notin> ids_of path P) F), None) \<and>
    i \<notin> snd ` snd ` set (filter (\<lambda>r. fst r \<noteq> path) P) \<and> \<not> db_locked s' \<and> db_stmts s' = db_stmts s"
  using pkg_import_ok[OF assms] assms(6) by auto


text \<open>
  C36.  A package that disappears between opening its archive and \<open>stat\<close>: the old rows are
  removed, no new one is made, and that state is committed as a success.
\<close>

theorem pkg_import_vanished:
  assumes "sqlite_laws exec view path ver" and "path_fits path" and "pkg_handle_byname path s = Some NULL"
    and "db_conn s = Some q" and "view q = (t, None)" and "\<not> db_locked s" and "unique_names fs"
  shows "\<exists>s' q'. pkg_import exec (Some fs) True (Inl err) path s = Some (0, s') \<and> db_conn s' = Some q' \<and>
    view q' = (removed path t, None) \<and> ids_of path (fst (removed path t)) = {}"
proof -
  obtain q1 where q1: "db_begin exec s = Some (s\<lparr>db_locked := True, db_conn := Some q1\<rparr>)" "view q1 = (t, Some t)"
    using db_begin_ok[OF assms(1,4,5,6)] by blast
  let ?s1 = "s\<lparr>db_locked := True, db_conn := Some q1\<rparr>"
  have c1: "db_conn ?s1 = Some q1" by simp
  obtain q2 where q2: "pkg_toc_process exec (Some fs) True (Inl err) path ?s1 = Some (0, ?s1\<lparr>db_conn := Some q2\<rparr>)"
      "view q2 = (removed path t, Some t)"
    using pkg_toc_process_ok(2)[OF assms(1,2) c1 q1(2) assms(7)] by blast
  let ?s2 = "?s1\<lparr>db_conn := Some q2\<rparr>"
  have c2: "db_conn ?s2 = Some q2" by simp
  obtain q3 where q3: "db_commit exec ?s2 = Some (?s2\<lparr>db_conn := Some q3, db_locked := False\<rparr>)" "view q3 = (removed path t, None)"
    using db_end_ok(1)[OF assms(1) c2 q2(2)] by blast
  have "pkg_import exec (Some fs) True (Inl err) path s = Some (0, ?s2\<lparr>db_conn := Some q3, db_locked := False\<rparr>)"
    using assms(3) q1(1) q2(1) q3(1) by (simp add: pkg_import_def)
  with q3(2) show ?thesis by (auto simp: removed_def without_pkg_ids)
qed


subsection \<open>Witnesses\<close>

text \<open>An engine that runs the statements for one package and one version.\<close>

definition demo_exec :: "string \<Rightarrow> (tables \<times> tables option) engine" where
  "demo_exec path sql q =
     (let t = fst q; x = snd q in
      if sql = ''BEGIN;'' then (Some [], (t, Some t))
      else if sql = ''COMMIT;'' then (Some [], (t, None))
      else if sql = ''ROLLBACK;'' then (Some [], (case x of None \<Rightarrow> t | Some u \<Rightarrow> u, None))
      else if sql = sql_delete_files path then (Some [], (without_files path t, x))
      else if sql = sql_delete_pkg path then (Some [], (without_pkg path t, x))
      else if sql = sql_insert_pkg path 7
      then (Some [], ((fst t @ [(path, 7, 1 + Max (set (0 # map (snd \<circ> snd) (fst t))))], snd t), x))
      else if sql = sql_select_pkg path 7
      then (Some (map id_row (filter (\<lambda>r. fst r = path \<and> fst (snd r) = 7) (fst t))), q)
      else (None, q))"


lemma fresh_key: "1 + Max (set (0 # map (snd \<circ> snd) P)) \<notin> snd ` snd ` set (P :: (string \<times> int \<times> int) list)"
proof
  let ?S = "set (0 # map (snd \<circ> snd) P)"
  assume "1 + Max ?S \<in> snd ` snd ` set P"
  then have "1 + Max ?S \<in> ?S" by (auto simp: image_image)
  then have "1 + Max ?S \<le> Max ?S" by (intro Max_ge) auto
  then show False by simp
qed

lemmas sql_texts = sql_insert_pkg_def sql_select_pkg_def sql_delete_files_def sql_delete_pkg_def quoted_def

lemma demo_exec_laws: "sqlite_laws (demo_exec path) id path 7"
proof -
  have d: "sql_delete_pkg p \<noteq> sql_delete_files p" "sql_insert_pkg p v \<noteq> sql_delete_files p" "sql_insert_pkg p v \<noteq> sql_delete_pkg p"
    "sql_select_pkg p v \<noteq> sql_delete_files p" "sql_select_pkg p v \<noteq> sql_delete_pkg p" "sql_select_pkg p v \<noteq> sql_insert_pkg p v" for p v
    by (simp_all add: sql_texts)
  have b: "sql_delete_files p \<noteq> ''BEGIN;''" "sql_delete_files p \<noteq> ''COMMIT;''" "sql_delete_files p \<noteq> ''ROLLBACK;''"
    "sql_delete_pkg p \<noteq> ''BEGIN;''" "sql_delete_pkg p \<noteq> ''COMMIT;''" "sql_delete_pkg p \<noteq> ''ROLLBACK;''"
    "sql_insert_pkg p v \<noteq> ''BEGIN;''" "sql_insert_pkg p v \<noteq> ''COMMIT;''" "sql_insert_pkg p v \<noteq> ''ROLLBACK;''"
    "sql_select_pkg p v \<noteq> ''BEGIN;''" "sql_select_pkg p v \<noteq> ''COMMIT;''" "sql_select_pkg p v \<noteq> ''ROLLBACK;''" for p v
    by (simp_all add: sql_texts)
  have k: "\<exists>i. i \<notin> snd ` snd ` set (fst t) \<and>
      answers (demo_exec path) id (sql_insert_pkg path 7) (t, x) ((fst t @ [(path, 7, i)], snd t), x)" for t x
    using fresh_key[of "fst t"] by (intro exI conjI) (assumption, simp add: answers_def demo_exec_def Let_def d b)
  note run = answers_def demo_exec_def Let_def d b
  show ?thesis unfolding sqlite_laws_def id_apply
  proof (intro conjI allI impI, goal_cases)
    case (6 q t x)
    show ?case unfolding 6 using k[of t x] by (simp only: id_def)
  qed (simp_all add: run)
qed

definition demo_db :: "(tables \<times> tables option) dbst" where
  "demo_db = pkgst.extend demo_pkgst \<lparr>db_conn = Some (([(''/p.xar'', 3, 1), (''/q.xar'', 4, 2)], [(1, ''/a''), (2, ''/b'')]), None),
     db_locked = False, db_stmts = 0, inode_heap = NULL, inodes = Map.empty\<rparr>"


lemma demo_db_ok:
  "pkg_handle_byname path demo_db = Some NULL" "\<not> db_locked demo_db"
  "db_conn demo_db = Some (([(''/p.xar'', 3, 1), (''/q.xar'', 4, 2)], [(1, ''/a''), (2, ''/b'')]), None)"
proof -
  have "pkg_handle_byname path demo_pkgst = Some NULL"
    by (rule pkg_byname_absent[OF demo_pkg_inv(1)]) simp
  then show "pkg_handle_byname path demo_db = Some NULL"
    by (cases demo_pkgst) (simp add: demo_db_def pkgst.defs pkg_handle_byname_def)
qed (simp_all add: demo_db_def pkgst.defs)

lemma demo_path: "path_fits ''/p.xar''"
  by (simp add: path_fits_def)

theorem pkg_import_upgrades_witness:
  "\<exists>s' q' i. pkg_import (demo_exec ''/p.xar'') (Some demo_archive) True (Inr 7) ''/p.xar'' demo_db = Some (0, s') \<and>
    db_conn s' = Some q' \<and> q' = (([(''/q.xar'', 4, 2), (''/p.xar'', 7, i)], [(2, ''/b'')]), None)"
proof -
  have v: "id (([(''/p.xar'', 3, 1), (''/q.xar'', 4, 2)], [(1, ''/a''), (2, ''/b'')]), None) =
      (([(''/p.xar'', 3, 1), (''/q.xar'', 4, 2)], [(1, ''/a''), (2, ''/b'')]), None)" by simp
  have i: "ids_of ''/p.xar'' [(''/p.xar'', 3, 1), (''/q.xar'', 4, 2)] = {1}" by (auto simp: ids_of_def)
  from pkg_import_upgrades[OF demo_exec_laws demo_path demo_db_ok(1,3) v demo_db_ok(2) demo_unique] show ?thesis
    unfolding i by auto
qed


theorem pkg_import_vanished_witness:
  "\<exists>s' q'. pkg_import (demo_exec ''/p.xar'') (Some []) True (Inl 2) ''/p.xar'' demo_db = Some (0, s') \<and> db_conn s' = Some q' \<and>
    q' = (([(''/q.xar'', 4, 2)], [(2, ''/b'')]), None)"
proof -
  have v: "id (([(''/p.xar'', 3, 1), (''/q.xar'', 4, 2)], [(1, ''/a''), (2, ''/b'')]), None) =
      (([(''/p.xar'', 3, 1), (''/q.xar'', 4, 2)], [(1, ''/a''), (2, ''/b'')]), None)" by simp
  have i: "ids_of ''/p.xar'' [(''/p.xar'', 3, 1), (''/q.xar'', 4, 2)] = {1}" by (auto simp: ids_of_def)
  from pkg_import_vanished[OF demo_exec_laws demo_path demo_db_ok(1,3) v demo_db_ok(2), where fs = "[]" and err = 2] show ?thesis
    unfolding removed_def without_files_def without_pkg_def fst_conv snd_conv i by auto
qed

end
