(* ===== verification/Toc.thy ===== *)
theory Toc
  imports Db
begin

text \<open>
  The table of contents of a package, the parts of \<open>src/pkg_toc.c\<close> that read it directly:
  \<open>pkg_toc_extract\<close>, which decompresses the contents into a file, and the walk over the
  XML document of the libxml2 build; and the file mappings of \<open>src/pkg_map.c\<close>.

  The decompressor is a parameter: \<open>infl z inp n\<close> is the result of \<open>inflate\<close> in state \<open>z\<close>
  with the input \<open>inp\<close> and room for \<open>n\<close> bytes: a code, the new state, the bytes written and
  the input left over.
\<close>

section \<open>Extraction\<close>

datatype zres = Z_OK | Z_STREAM_END | Z_BUF_ERROR | Z_STREAM_ERROR | Z_NEED_DICT | Z_DATA_ERROR | Z_MEM_ERROR

type_synonym bytes = "u8 list"
type_synonym 'z inflater = "'z \<Rightarrow> bytes \<Rightarrow> nat \<Rightarrow> zres \<times> 'z \<times> bytes \<times> bytes"

definition fatal :: "zres \<Rightarrow> bool" where
  "fatal r \<longleftrightarrow> r = Z_NEED_DICT \<or> r = Z_DATA_ERROR \<or> r = Z_MEM_ERROR"

definition SIZEOF_HEADER :: nat where
  "SIZEOF_HEADER = 28"

text \<open>A big-endian number (\<open>ntohs\<close>, \<open>xar_ntoh64\<close>).\<close>

definition be_num :: "bytes \<Rightarrow> nat" where
  "be_num bs = foldl (\<lambda>n b. n * 256 + unat b) 0 bs"

text \<open>
  The two reads that fill the header: the second one asks for as many bytes as the header
  announces and may write past the end of the struct.  \<open>junk\<close> is what the struct held
  before; a short read leaves it in place.
\<close>

definition read_header :: "bytes \<Rightarrow> bytes \<Rightarrow> (bytes \<times> bytes) option" where
  "read_header junk f =
     (let h1 = take 8 f @ drop (length (take 8 f)) junk;
          f1 = drop 8 f;
          size = be_num (take 2 (drop 4 h1));
          n = (if 8 \<le> size then size - 8 else length f1);
          got = take n f1
      in if length got > SIZEOF_HEADER - 8 then None
         else Some (take 8 h1 @ got @ drop (8 + length got) h1, drop n f1))"

text \<open>The inner loop: the decompressor runs until it leaves room in the output buffer.\<close>

partial_function (option) inflate_loop :: "'z inflater \<Rightarrow> nat \<Rightarrow> 'z \<Rightarrow> bytes \<Rightarrow> bytes \<Rightarrow> ('z \<times> bytes) option option" where
  "inflate_loop infl Z z inp out =
     (case infl z inp Z of (r, z, o', rest) \<Rightarrow>
        if fatal r then Some None
        else if length o' = Z then inflate_loop infl Z z rest (out @ o')
        else Some (Some (z, out @ o')))"

text \<open>
  The outer loop reads the compressed contents, \<open>tl\<close> bytes, in pieces of at most \<open>Z\<close>; \<open>err k\<close>
  says that the \<open>k\<close>-th read fails.  At the end of the file \<open>read\<close> returns 0.
\<close>

partial_function (option) toc_loop ::
    "'z inflater \<Rightarrow> nat \<Rightarrow> (nat \<Rightarrow> bool) \<Rightarrow> nat \<Rightarrow> nat \<Rightarrow> bytes \<Rightarrow> nat \<Rightarrow> 'z \<Rightarrow> bytes \<Rightarrow> bytes option option" where
  "toc_loop infl Z err n k f sread z out =
     (if sread < n then
        (if err k then Some None
         else let sz = (if n - sread < Z then n - sread else Z); chunk = take sz f in
           do { r \<leftarrow> inflate_loop infl Z z chunk out;
                case r of
                  None \<Rightarrow> Some None
                | Some (z, out) \<Rightarrow> toc_loop infl Z err n (Suc k) (drop sz f) (sread + length chunk) z out })
      else Some (Some out))"

text \<open>
  \<open>pkg_toc_extract\<close>: \<open>file\<close> is the package (None: it cannot be opened), \<open>tmp_ok\<close> whether the
  temporary file could be made, \<open>z0\<close> the state after \<open>inflateInit\<close> (None: it failed), \<open>Z\<close> the
  configured buffer size.  The result is the text written, or None for a NULL result.
\<close>

definition pkg_toc_extract ::
    "'z inflater \<Rightarrow> 'z option \<Rightarrow> nat \<Rightarrow> (nat \<Rightarrow> bool) \<Rightarrow> bytes \<Rightarrow> bytes option \<Rightarrow> bool \<Rightarrow> bytes option option" where
  "pkg_toc_extract infl z0 Z err junk file tmp_ok =
     (case file of
        None \<Rightarrow> Some None
      | Some f \<Rightarrow>
          if \<not> tmp_ok \<or> err 0 \<or> err 1 then Some None
          else do {
            (h, f) \<leftarrow> read_header junk f;
            case z0 of
              None \<Rightarrow> Some None
            | Some z \<Rightarrow> toc_loop infl Z err (be_num (take 8 (drop 8 h))) 2 f 0 z [] })"

section \<open>The XML document\<close>

text \<open>An element with its name and children, or another node (text, comment) with the name libxml2 gives it.\<close>

datatype xnode = XElem string "xnode list" | XOther string

definition MAX_DEPTH :: int where
  "MAX_DEPTH = 16"

text \<open>
  \<open>xmltoc_parse_file\<close> on the children of a node: the result, and the names of the nodes it
  reports on standard error.  The contents of the other elements are read and dropped.
\<close>

fun xmltoc_parse_file :: "xnode list \<Rightarrow> int \<Rightarrow> int \<times> string list" where
  "xmltoc_parse_file [] recursion = (0, [])"
| "xmltoc_parse_file (XOther n # ns) recursion =
     (let r = xmltoc_parse_file ns recursion in (fst r, n # snd r))"
| "xmltoc_parse_file (XElem n cs # ns) recursion =
     (if n = ''file'' then
        (if recursion + 1 > MAX_DEPTH then (- 1, [n])
         else let q = xmltoc_parse_file cs (recursion + 1); r = xmltoc_parse_file ns (recursion + 1)
              in (fst r, n # snd q @ snd r))
      else let r = xmltoc_parse_file ns recursion in (fst r, n # snd r))"

definition node_name :: "xnode \<Rightarrow> string" where
  "node_name n = (case n of XElem s _ \<Rightarrow> s | XOther s \<Rightarrow> s)"

definition node_children :: "xnode \<Rightarrow> xnode list" where
  "node_children n = (case n of XElem _ cs \<Rightarrow> cs | XOther _ \<Rightarrow> [])"

definition is_file_elem :: "xnode \<Rightarrow> bool" where
  "is_file_elem n = (case n of XElem s _ \<Rightarrow> s = ''file'' | XOther _ \<Rightarrow> False)"

text \<open>
  \<open>pkg_toc_process\<close> with libxml2: \<open>root\<close> is the document's root element (None: no document).
  The second child of the root is followed without a check.
\<close>

definition pkg_toc_process_xml :: "'q engine \<Rightarrow> xnode option \<Rightarrow> int + int \<Rightarrow> string \<Rightarrow>
    ('q, 'a) dbst_scheme \<Rightarrow> (int \<times> string list \<times> ('q, 'a) dbst_scheme) option" where
  "pkg_toc_process_xml exec root st path s =
     (case root of
        None \<Rightarrow> Some (1, [], s)
      | Some r \<Rightarrow>
          (case node_children r of
             [] \<Rightarrow> None
           | _ # cs \<Rightarrow>
               if node_name r \<noteq> ''xar'' then Some (1, [], s)
               else (case cs of
                       [] \<Rightarrow> None
                     | toc # _ \<Rightarrow>
                         if node_name toc \<noteq> ''toc'' then Some (1, [], s)
                         else do {
                           (_, s) \<leftarrow> db_pkg_remove exec path s;
                           (pkgid, s) \<leftarrow> db_pkg_add exec st path s;
                           Some (0, concat (map (\<lambda>n. if is_file_elem n then snd (xmltoc_parse_file (node_children n) 0) else [])
                             (node_children toc)), s) })))"

section \<open>File mappings\<close>

record pkg_file_mapping =
  pm_pkg :: "string option"
  pm_len :: nat
  pm_offset :: int
  pm_fd :: int
  pm_addr :: ptr

text \<open>\<open>MAP_FAILED\<close> is the address \<open>(void *) -1\<close>.\<close>

definition MAP_FAILED :: ptr where
  "MAP_FAILED = 2 ^ 64 - 1"

record 'q mapst = "'q dbst" +
  mapping_heap :: ptr
  mappings :: "pkg_file_mapping mem"
  map_fds :: "int set"
  mapped :: "ptr set"

definition pkg_unmap_file :: "ptr \<Rightarrow> ('q, 'a) mapst_scheme \<Rightarrow> ('q, 'a) mapst_scheme option" where
  "pkg_unmap_file p s = do {
     m \<leftarrow> deref (mappings s) p;
     let s = (if pm_addr m \<noteq> NULL \<and> pm_addr m \<noteq> MAP_FAILED then s\<lparr>mapped := mapped s - {pm_addr m}\<rparr> else s);
     let s = (if pm_fd m > 0 then s\<lparr>map_fds := map_fds s - {pm_fd m}\<rparr> else s);
     (_, s) \<leftarrow> blockheap_free (mapping_heap s) p s;
     Some (s\<lparr>mappings := (mappings s)(p := None)\<rparr>) }"

text \<open>
  \<open>pkg_map_file\<close>: \<open>fd\<close> and \<open>addr\<close> are the results of \<open>open\<close> and \<open>mmap\<close>.  The test of the
  descriptor is \<open>!fd == -1\<close>, which compares 0 or 1 with -1.
\<close>

definition pkg_map_file :: "ptr \<times> ptr \<Rightarrow> int \<Rightarrow> ptr \<Rightarrow> string \<Rightarrow> nat \<Rightarrow> int \<Rightarrow> ('q, 'a) mapst_scheme \<Rightarrow>
    (ptr \<times> ('q, 'a) mapst_scheme) option" where
  "pkg_map_file e fd addr path len offset s = do {
     (p, s) \<leftarrow> blockheap_alloc (fst e) (snd e) (mapping_heap s) s;
     if p = NULL then None
     else do {
       let s = s\<lparr>mappings := (mappings s)(p \<mapsto> \<lparr>pm_pkg = Some path, pm_len = len, pm_offset = offset, pm_fd = fd, pm_addr = NULL\<rparr>),
                 map_fds := (if fd < 0 then map_fds s else insert fd (map_fds s))\<rparr>;
       if (if fd = 0 then 1 else 0) = (- 1 :: int) then do { s \<leftarrow> pkg_unmap_file p s; Some (NULL, s) }
       else do {
         ms \<leftarrow> upd_at p (\<lambda>m. m\<lparr>pm_addr := addr\<rparr>) (mappings s);
         let s = s\<lparr>mappings := ms, mapped := (if addr = MAP_FAILED then mapped s else insert addr (mapped s))\<rparr>;
         if addr = MAP_FAILED then do { s \<leftarrow> pkg_unmap_file p s; Some (p, s) } else Some (p, s) } } }"

section \<open>What extraction reads\<close>

text \<open>The reference: the decompressor fed with the pieces of the contents, one after the other.\<close>

fun feed :: "'z inflater \<Rightarrow> nat \<Rightarrow> bytes list \<Rightarrow> 'z \<Rightarrow> bytes \<Rightarrow> bytes option option" where
  "feed infl Z [] z out = Some (Some out)"
| "feed infl Z (c # cs) z out =
     do { r \<leftarrow> inflate_loop infl Z z c out;
          case r of None \<Rightarrow> Some None | Some (z, out) \<Rightarrow> feed infl Z cs z out }"

function pieces :: "nat \<Rightarrow> bytes \<Rightarrow> bytes list" where
  "pieces Z xs = (if xs = [] \<or> Z = 0 then [] else take Z xs # pieces Z (drop Z xs))"
  by pat_completeness auto
termination by (relation "measure (\<lambda>(Z, xs). length xs)") auto

declare pieces.simps [simp del]

lemma toc_loop_feed:
  "0 < Z \<Longrightarrow> \<forall>k. \<not> err k \<Longrightarrow> sread + length c = n \<Longrightarrow>
   toc_loop infl Z err n k (c @ rest) sread z out = feed infl Z (pieces Z c) z out"
proof (induction Z c arbitrary: k sread z out rule: pieces.induct)
  case (1 Z c)
  show ?case
  proof (cases "c = []")
    case True
    then show ?thesis using 1(4) by (subst toc_loop.simps, subst pieces.simps) simp
  next
    case False
    define sz where "sz = (if n - sread < Z then n - sread else Z)"
    have lt: "sread < n" using False 1(4) by (cases c) auto
    have t: "take sz (c @ rest) = take Z c" "sz \<le> length c" "drop sz (c @ rest) = drop Z c @ rest"
      using 1(4) by (auto simp: sz_def)
    have ih: "toc_loop infl Z err n (Suc k) (drop Z c @ rest) (sread + length (take Z c)) z' out' = feed infl Z (pieces Z (drop Z c)) z' out'" for z' out'
      by (rule 1(1)) (use False 1(2-4) in auto)
    have "toc_loop infl Z err n k (c @ rest) sread z out =
        (inflate_loop infl Z z (take Z c) out \<bind> (\<lambda>r. case r of None \<Rightarrow> Some None
          | Some (z, out) \<Rightarrow> toc_loop infl Z err n (Suc k) (drop Z c @ rest) (sread + length (take Z c)) z out))"
      using lt 1(3) by (subst toc_loop.simps) (simp add: Let_def t(1,3) sz_def[symmetric] del: take_append drop_append length_take)
    then show ?thesis unfolding ih using False 1(2) by (subst pieces.simps) simp
  qed
qed

lemma inflate_loop_nonfatal:
  assumes "\<And>z inp m. \<not> fatal (fst (infl z inp m))"
  shows "inflate_loop infl Z z inp out = Some r \<Longrightarrow> r \<noteq> None"
proof -
  have "(\<forall>z inp m. \<not> fatal (fst (infl z inp m))) \<longrightarrow> r \<noteq> None" if "inflate_loop infl Z z inp out = Some r" for infl :: "'a inflater" and Z z inp out r
    using that
  proof (rule inflate_loop.raw_induct[where P = "\<lambda>infl Z z inp out r. (\<forall>z inp m. \<not> fatal (fst (infl z inp m))) \<longrightarrow> r \<noteq> None", rotated])
    fix il infl Z z inp out r
    assume ih: "\<And>infl Z z inp out (r :: ('a \<times> bytes) option). il infl Z z inp out = Some r \<Longrightarrow> (\<forall>z inp m. \<not> fatal (fst (infl z inp m))) \<longrightarrow> r \<noteq> None"
      and run: "(case infl z inp Z of (r, z, o', rest) \<Rightarrow>
        if fatal r then Some None
        else if length o' = Z then il infl Z z rest (out @ o') else Some (Some (z, out @ o'))) = Some r"
    show "(\<forall>z inp m. \<not> fatal (fst (infl z inp m))) \<longrightarrow> r \<noteq> None"
    proof
      assume nf: "\<forall>z inp m. \<not> fatal (fst (infl z inp m))"
      obtain c z' o' rest where i: "infl z inp Z = (c, z', o', rest)" by (cases "infl z inp Z") auto
      have "\<not> fatal c" using nf i by (metis fst_conv)
      then show "r \<noteq> None" using run i nf ih[of infl Z z' rest "out @ o'" r] by (auto split: if_splits)
    qed
  qed
  then show "inflate_loop infl Z z inp out = Some r \<Longrightarrow> r \<noteq> None" using assms by blast
qed

lemma toc_loop_needs_all:
  assumes "toc_loop infl Z err n k f sread z out = Some r"
    and "\<forall>k. \<not> err k" and "\<forall>z inp m. \<not> fatal (fst (infl z inp m))"
  shows "n \<le> sread + length f"
proof -
  have "(\<forall>k. \<not> err k) \<longrightarrow> (\<forall>z inp m. \<not> fatal (fst (infl z inp m))) \<longrightarrow> n \<le> sread + length f"
    using assms(1)
  proof (rule toc_loop.raw_induct[where P = "\<lambda>infl Z err n k f sread z out r.
      (\<forall>k. \<not> err k) \<longrightarrow> (\<forall>z inp m. \<not> fatal (fst (infl z inp m))) \<longrightarrow> n \<le> sread + length f", rotated])
    fix tl infl Z err n k f sread z out r
    assume ih: "\<And>infl Z err n k f sread z out (r :: bytes option). tl infl Z err n k f sread z out = Some r \<Longrightarrow>
        (\<forall>k. \<not> err k) \<longrightarrow> (\<forall>(z :: 'a) inp m. \<not> fatal (fst (infl z inp m))) \<longrightarrow> n \<le> sread + length f"
      and run: "(if sread < n then
        (if err k then Some None
         else let sz = (if n - sread < Z then n - sread else Z); chunk = take sz f in
           do { r \<leftarrow> inflate_loop infl Z z chunk out;
                case r of None \<Rightarrow> Some None
                | Some (z, out) \<Rightarrow> tl infl Z err n (Suc k) (drop sz f) (sread + length chunk) z out })
      else Some (Some out)) = Some r"
    show "(\<forall>k. \<not> err k) \<longrightarrow> (\<forall>z inp m. \<not> fatal (fst (infl z inp m))) \<longrightarrow> n \<le> sread + length f"
    proof (intro impI)
      assume e: "\<forall>k. \<not> err k" and nf: "\<forall>z inp m. \<not> fatal (fst (infl z inp m))"
      show "n \<le> sread + length f"
      proof (cases "sread < n")
        case True
        let ?sz = "if n - sread < Z then n - sread else Z"
        obtain q where q: "inflate_loop infl Z z (take ?sz f) out = Some q"
            "(case q of None \<Rightarrow> Some None | Some (z, out) \<Rightarrow> tl infl Z err n (Suc k) (drop ?sz f) (sread + length (take ?sz f)) z out) = Some r"
        proof -
          have "\<not> err k" using e by blast
          with run True have "(inflate_loop infl Z z (take ?sz f) out \<bind> (\<lambda>r. case r of None \<Rightarrow> Some None
              | Some (z, out) \<Rightarrow> tl infl Z err n (Suc k) (drop ?sz f) (sread + length (take ?sz f)) z out)) = Some r"
            by (simp add: Let_def del: length_take)
          then show thesis using that unfolding bind_eq_Some_conv by blast
        qed
        have "q \<noteq> None" using inflate_loop_nonfatal[OF _ q(1)] nf by blast
        then obtain z' out' where "tl infl Z err n (Suc k) (drop ?sz f) (sread + length (take ?sz f)) z' out' = Some r"
          using q(2) by (cases q) auto
        from ih[OF this] e nf have "n \<le> sread + length (take ?sz f) + length (drop ?sz f)" by blast
        then show ?thesis by simp
      qed simp
    qed
  qed
  then show ?thesis using assms(2,3) by blast
qed

section \<open>Properties\<close>

text \<open>A package: a full header that announces the length of the compressed contents.\<close>

definition good_header :: "bytes \<Rightarrow> nat \<Rightarrow> bool" where
  "good_header h n \<longleftrightarrow> length h = SIZEOF_HEADER \<and> be_num (take 2 (drop 4 h)) = SIZEOF_HEADER \<and> be_num (take 8 (drop 8 h)) = n"

lemma read_header_good:
  assumes "good_header h n"
  shows "\<exists>g. read_header junk (h @ f) = Some (h @ g, f)"
proof -
  have l: "length h = 28" "be_num (take 2 (drop 4 h)) = 28" using assms by (simp_all add: good_header_def SIZEOF_HEADER_def)
  define h1 where "h1 = take 8 (h @ f) @ drop (length (take 8 (h @ f))) junk"
  have h1: "h1 = take 8 h @ drop 8 junk" using l(1) by (simp add: h1_def)
  have "take 2 (drop 4 (take 8 h)) = take 2 (drop 4 h)" by (simp add: drop_take)
  then have s: "be_num (take 2 (drop 4 h1)) = 28" using l by (simp add: h1)
  have got: "take 20 (drop 8 (h @ f)) = drop 8 h" "drop 20 (drop 8 (h @ f)) = f" using l(1) by simp_all
  have "take 8 h1 @ drop 8 h @ drop 28 h1 = h @ drop 28 h1" using l(1) by (simp add: h1)
  then have "read_header junk (h @ f) = Some (h @ drop 28 h1, f)"
    unfolding read_header_def Let_def h1_def[symmetric] s using got l(1) by (simp add: SIZEOF_HEADER_def del: drop_append drop_drop)
  then show ?thesis by blast
qed

lemma header_length: "good_header h n \<Longrightarrow> be_num (take 8 (drop 8 (h @ g))) = n"
  by (simp add: good_header_def SIZEOF_HEADER_def)


text \<open>
  C38.  A package cut short: when the file ends before the announced contents and the
  decompressor reports no error, \<open>pkg_toc_extract\<close> never returns (reading at the end of
  the file makes no progress and is repeated).
\<close>

theorem pkg_toc_extract_truncated:
  assumes "good_header h n" and "length c < n" and "\<forall>k. \<not> err k" and "\<forall>z inp m. \<not> fatal (fst (infl z inp m))"
  shows "pkg_toc_extract infl (Some z) Z err junk (Some (h @ c)) True = None"
proof -
  obtain g where g: "read_header junk (h @ c) = Some (h @ g, c)" using read_header_good[OF assms(1)] by blast
  have "toc_loop infl Z err n 2 c 0 z [] = None"
    using toc_loop_needs_all[OF _ assms(3,4), of Z n 2 c 0 z "[]"] assms(2) by (cases "toc_loop infl Z err n 2 c 0 z []") fastforce+
  then show ?thesis using g assms(3) header_length[OF assms(1)] by (simp add: pkg_toc_extract_def)
qed

text \<open>
  The depth limit of the XML walk counts the files of one level: a flat list of more
  than 16 file elements is cut off as too deep, while the result of the recursive call,
  the only one that sees the real depth, is ignored.
\<close>

theorem xmltoc_counts_siblings:
  "fst (xmltoc_parse_file (replicate n (XElem ''file'' [])) 0) = (if n \<le> 16 then 0 else - 1) \<and>
   fst (xmltoc_parse_file [XElem ''file'' cs] 0) = 0"
proof
  have "0 \<le> r \<Longrightarrow> r \<le> 16 \<Longrightarrow> fst (xmltoc_parse_file (replicate n (XElem ''file'' [])) r) = (if int n + r \<le> 16 then 0 else - 1)" for r
    by (induction n arbitrary: r) (auto simp: MAX_DEPTH_def Let_def)
  from this[of 0] show "fst (xmltoc_parse_file (replicate n (XElem ''file'' [])) 0) = (if n \<le> 16 then 0 else - 1)" by simp
  show "fst (xmltoc_parse_file [XElem ''file'' cs] 0) = 0" by (simp add: MAX_DEPTH_def Let_def)
qed

text \<open>Nothing in the program creates the heap of mappings: with a NULL heap \<open>pkg_map_file\<close> cannot run.\<close>

theorem pkg_map_file_no_heap: "mapping_heap s = NULL \<Longrightarrow> pkg_map_file e fd addr path len offset s = None"
  by (simp add: pkg_map_file_def blockheap_alloc_def mem_simps Let_def)

text \<open>A decompressor for stored data, and a header of 28 bytes for two bytes of contents.\<close>

definition stored :: "unit inflater" where
  "stored z inp m = (Z_OK, z, take m inp, drop m inp)"

definition demo_header :: bytes where
  "demo_header = [0x78, 0x61, 0x72, 0x21, 0, 28, 0, 1, 0, 0, 0, 0, 0, 0, 0, 2, 0, 0, 0, 0, 0, 0, 0, 2, 0, 0, 0, 0]"

lemma demo_header_good: "good_header demo_header 2"
  by (simp add: good_header_def demo_header_def SIZEOF_HEADER_def be_num_def)


theorem pkg_toc_extract_truncated_witness:
  "pkg_toc_extract stored (Some ()) 8 (\<lambda>_. False) [] (Some (demo_header @ [5])) True = None"
  by (rule pkg_toc_extract_truncated[OF demo_header_good]) (simp_all add: stored_def fatal_def)

end
