(* ===== verification/Vfs.thy ===== *)
theory Vfs
  imports Db
begin

text \<open>
  The walk over the package directories of \<open>src/vfs.c\<close>.  What the operating system answers is
  a record of functions: the entries of a directory in the order of \<open>readdir\<close> (None: it
  cannot be opened), the result of \<open>is_dir\<close>, and for a package its archive, whether an
  iterator can be made, and its modification time.  A walk returns the number of directory
  streams it leaves open together with the state; None is a crash.
\<close>

section \<open>Operations\<close>

record os =
  os_readdir :: "string \<Rightarrow> string list option"
  os_isdir :: "string \<Rightarrow> bool"
  os_xar :: "string \<Rightarrow> xar_file list option"
  os_iter :: "string \<Rightarrow> bool"
  os_stat :: "string \<Rightarrow> int + int"

definition PATH_MAX :: nat where
  "PATH_MAX = 4096"

definition MAX_RECURSE :: int where
  "MAX_RECURSE = 16"

definition c_strrchr :: "string \<Rightarrow> char \<Rightarrow> string option" where
  "c_strrchr t c = (if c \<in> set t then Some (c # rev (takeWhile (\<lambda>x. x \<noteq> c) (rev t))) else None)"

definition hidden :: "string \<Rightarrow> bool" where
  "hidden n \<longleftrightarrow> n \<noteq> [] \<and> hd n = CHR ''.''"

definition package_ext :: "string \<Rightarrow> bool" where
  "package_ext ext \<longleftrightarrow> take 4 ext = ''.pkg'' \<or> take 4 ext = ''.xar''"

text \<open>\<open>snprintf(buf, PATH_MAX - 1, ...)\<close>\<close>

definition entry_path :: "string \<Rightarrow> string \<Rightarrow> string" where
  "entry_path path n = take (PATH_MAX - 2) (path @ ''/'' @ n)"

definition import_at :: "'q engine \<Rightarrow> os \<Rightarrow> string \<Rightarrow> ('q, 'a) dbst_scheme \<Rightarrow> ('q, 'a) dbst_scheme option" where
  "import_at exec w path s = do {
     (_, s) \<leftarrow> pkg_import exec (os_xar w path) (os_iter w path) (os_stat w path) path s;
     Some s }"

function (sequential)
  vfs_dir_walk_recurse :: "'q engine \<Rightarrow> os \<Rightarrow> string \<Rightarrow> int \<Rightarrow> ('q, 'a) dbst_scheme \<Rightarrow> (nat \<times> ('q, 'a) dbst_scheme) option" and
  walk_entries :: "'q engine \<Rightarrow> os \<Rightarrow> string \<Rightarrow> int \<Rightarrow> string list \<Rightarrow> ('q, 'a) dbst_scheme \<Rightarrow> (nat \<times> ('q, 'a) dbst_scheme) option" where
  "vfs_dir_walk_recurse exec w path depth s =
     (case os_readdir w path of None \<Rightarrow> Some (0, s) | Some ns \<Rightarrow> walk_entries exec w path depth ns s)"
| "walk_entries exec w path depth [] s = Some (0, s)"
| "walk_entries exec w path depth (n # ns) s =
     (if hidden n then walk_entries exec w path depth ns s
      else if os_isdir w (entry_path path n) then
        (if depth + 1 < MAX_RECURSE then do {
           (k, s) \<leftarrow> vfs_dir_walk_recurse exec w (entry_path path n) (depth + 1) s;
           (k', s) \<leftarrow> walk_entries exec w path (depth + 1) ns s;
           Some (k + k', s) }
         else walk_entries exec w path (depth + 1) ns s)
      else do {
        ext \<leftarrow> c_strrchr (entry_path path n) (CHR ''.'');
        if \<not> package_ext ext then Some (1, s)
        else do {
          s \<leftarrow> import_at exec w (entry_path path n) s;
          walk_entries exec w path depth ns s } })"
  by pat_completeness auto
termination
  by (relation "inv_image (less_than <*lex*> less_than <*lex*> less_than)
      (\<lambda>x. case x of Inl (_, _, _, d, _) \<Rightarrow> (nat (MAX_RECURSE - d), 1 :: nat, 0 :: nat)
         | Inr (_, _, _, d, ns, _) \<Rightarrow> (nat (MAX_RECURSE - d), 0, length ns))") auto

text \<open>The list of directories: \<open>strtok\<close> with the separators colon and newline.\<close>

definition path_sep :: "char \<Rightarrow> bool" where
  "path_sep c \<longleftrightarrow> c = CHR '':'' \<or> c = CHR 0x0A"

function strtok_list :: "string \<Rightarrow> string list" where
  "strtok_list t = (let r = dropWhile path_sep t in
     if r = [] then []
     else takeWhile (\<lambda>c. \<not> path_sep c) r # strtok_list (dropWhile (\<lambda>c. \<not> path_sep c) r))"
  by auto
termination
proof (relation "measure length")
  fix t r :: string
  assume r: "r = dropWhile path_sep t" "r \<noteq> []"
  then obtain c u where "r = c # u" "\<not> path_sep c" by (metis hd_dropWhile list.exhaust_sel)
  then have "length (dropWhile (\<lambda>c. \<not> path_sep c) r) < length r" by (simp add: length_dropWhile_le less_Suc_eq_le)
  then show "(dropWhile (\<lambda>c. \<not> path_sep c) r, t) \<in> measure length"
    using r(1) length_dropWhile_le[of path_sep t] by simp
qed simp

declare strtok_list.simps [simp del]

text \<open>
  The configured value is copied into a buffer of \<open>PATH_MAX\<close> bytes; a value that fills it
  leaves the buffer without a terminator.
\<close>

definition pkg_paths :: "conf \<Rightarrow> string list option" where
  "pkg_paths cf = do {
     t \<leftarrow> dconf_get_str cf (Some ''path.pkg'') (Some ''/pkg'');
     t \<leftarrow> t;
     if length t < PATH_MAX then Some (strtok_list t) else None }"

fun walk_paths :: "'q engine \<Rightarrow> os \<Rightarrow> string list \<Rightarrow> ('q, 'a) dbst_scheme \<Rightarrow> (nat \<times> ('q, 'a) dbst_scheme) option" where
  "walk_paths exec w [] s = Some (0, s)"
| "walk_paths exec w (p # ps) s = do {
     (k, s) \<leftarrow> vfs_dir_walk_recurse exec w p 1 s;
     (k', s) \<leftarrow> walk_paths exec w ps s;
     Some (k + k', s) }"

definition vfs_dir_walk :: "'q engine \<Rightarrow> os \<Rightarrow> conf \<Rightarrow> ('q, 'a) dbst_scheme \<Rightarrow> (int \<times> nat \<times> ('q, 'a) dbst_scheme) option" where
  "vfs_dir_walk exec w cf s = do {
     ps \<leftarrow> pkg_paths cf;
     (k, s) \<leftarrow> walk_paths exec w ps s;
     Some (0, k, s) }"

section \<open>Trees of packages\<close>

text \<open>
  A directory as a tree of packages, directories and hidden entries, and what it means that
  the operating system shows it below a path.
\<close>

datatype dtree = Leaf string | Node string "dtree list" | Skip string

fun entry :: "dtree \<Rightarrow> string" where
  "entry (Leaf n) = n"
| "entry (Node n ts) = n"
| "entry (Skip n) = n"

definition below :: "string \<Rightarrow> string \<Rightarrow> string" where
  "below p n = p @ ''/'' @ n"

definition path_room :: "string \<Rightarrow> string \<Rightarrow> bool" where
  "path_room p n \<longleftrightarrow> length (below p n) < PATH_MAX - 1"

definition is_package :: "string \<Rightarrow> bool" where
  "is_package n \<longleftrightarrow> (case c_strrchr n (CHR ''.'') of None \<Rightarrow> False | Some ext \<Rightarrow> package_ext ext)"

fun laid :: "os \<Rightarrow> string \<Rightarrow> dtree list \<Rightarrow> bool" where
  "laid w p [] \<longleftrightarrow> True"
| "laid w p (Skip n # ts) \<longleftrightarrow> hidden n \<and> laid w p ts"
| "laid w p (Leaf n # ts) \<longleftrightarrow>
     \<not> hidden n \<and> path_room p n \<and> \<not> os_isdir w (below p n) \<and> is_package n \<and> laid w p ts"
| "laid w p (Node n us # ts) \<longleftrightarrow>
     \<not> hidden n \<and> path_room p n \<and> os_isdir w (below p n) \<and>
     os_readdir w (below p n) = Some (map entry us) \<and> laid w (below p n) us \<and> laid w p ts"

text \<open>All packages of a tree, and those the walk reaches when its counter starts at \<open>d\<close>.\<close>

fun packages :: "string \<Rightarrow> dtree list \<Rightarrow> string list" where
  "packages p [] = []"
| "packages p (Skip n # ts) = packages p ts"
| "packages p (Leaf n # ts) = below p n # packages p ts"
| "packages p (Node n us # ts) = packages (below p n) us @ packages p ts"

fun reached :: "int \<Rightarrow> string \<Rightarrow> dtree list \<Rightarrow> string list" where
  "reached d p [] = []"
| "reached d p (Skip n # ts) = reached d p ts"
| "reached d p (Leaf n # ts) = below p n # reached d p ts"
| "reached d p (Node n us # ts) =
     (if d + 1 < MAX_RECURSE then reached (d + 1) (below p n) us else []) @ reached (d + 1) p ts"

fun fits :: "int \<Rightarrow> dtree list \<Rightarrow> bool" where
  "fits d [] \<longleftrightarrow> True"
| "fits d (Node n us # ts) \<longleftrightarrow> d + 1 < MAX_RECURSE \<and> fits (d + 1) us \<and> fits (d + 1) ts"
| "fits d (t # ts) \<longleftrightarrow> fits d ts"

fun import_all :: "'q engine \<Rightarrow> os \<Rightarrow> string list \<Rightarrow> ('q, 'a) dbst_scheme \<Rightarrow> ('q, 'a) dbst_scheme option" where
  "import_all exec w [] s = Some s"
| "import_all exec w (p # ps) s = do { s \<leftarrow> import_at exec w p s; import_all exec w ps s }"

lemma import_all_append:
  "import_all exec w (ps @ qs) s = do { s \<leftarrow> import_all exec w ps s; import_all exec w qs s }"
  by (induction ps arbitrary: s) (auto split: Option.bind_splits)

lemma entry_path_room [simp]: "path_room p n \<Longrightarrow> entry_path p n = below p n"
  by (simp add: entry_path_def path_room_def below_def PATH_MAX_def)

lemma strrchr_below: "c \<in> set n \<Longrightarrow> c_strrchr (below p n) c = c_strrchr n c"
proof -
  assume c: "c \<in> set n"
  have "takeWhile (\<lambda>x. x \<noteq> c) (rev n @ xs) = takeWhile (\<lambda>x. x \<noteq> c) (rev n)" for xs
    using c by (intro takeWhile_append1[where x = c]) simp_all
  with c show ?thesis by (simp add: c_strrchr_def below_def)
qed

lemma is_package_ext:
  assumes "is_package n"
  shows "\<exists>ext. c_strrchr (below p n) (CHR ''.'') = Some ext \<and> package_ext ext"
proof -
  obtain ext where e: "c_strrchr n (CHR ''.'') = Some ext" "package_ext ext"
    using assms by (auto simp: is_package_def split: option.splits)
  then have "CHR ''.'' \<in> set n" by (auto simp: c_strrchr_def split: if_splits)
  with e show ?thesis by (simp add: strrchr_below)
qed

lemma fits_reached: "fits d ts \<Longrightarrow> reached d p ts = packages p ts"
  by (induction d ts arbitrary: p rule: fits.induct) (auto elim: fits.elims) 

text \<open>The walk of a directory up to any further entries \<open>ns\<close>.\<close>

definition dirs :: "dtree list \<Rightarrow> nat" where
  "dirs ts = length (filter (\<lambda>t. \<exists>n us. t = Node n us) ts)"

lemma dirs_simps [simp]:
  "dirs [] = 0" "dirs (Leaf n # ts) = dirs ts" "dirs (Skip n # ts) = dirs ts" "dirs (Node n us # ts) = Suc (dirs ts)"
  by (simp_all add: dirs_def)

lemma dirs_induct [case_names Nil Leaf Skip Node]:
  "P [] \<Longrightarrow> (\<And>n ts. P ts \<Longrightarrow> P (Leaf n # ts)) \<Longrightarrow> (\<And>n ts. P ts \<Longrightarrow> P (Skip n # ts)) \<Longrightarrow>
   (\<And>n us ts. P ts \<Longrightarrow> P (Node n us # ts)) \<Longrightarrow> P ts"
  by (induction ts) (metis dtree.exhaust)+

lemma walk_entries_laid:
  fixes s :: "('q, 'a) dbst_scheme"
  assumes "laid w p ts"
  shows "walk_entries exec w p d (map entry ts @ ns) s =
    do { s \<leftarrow> import_all exec w (reached d p ts) s; walk_entries exec w p (d + int (dirs ts)) ns s }"
  using assms
proof (induction d p ts arbitrary: ns s rule: reached.induct)
  case (3 d p n ts)
  obtain ext where "c_strrchr (below p n) (CHR ''.'') = Some ext" "package_ext ext"
    using is_package_ext 3(2) by fastforce
  with 3 show ?case by (simp split: Option.bind_splits)
next
  case (4 d p n us ts)
  have sub: "walk_entries exec w (below p n) (d + 1) (map entry us) s =
      do { s \<leftarrow> import_all exec w (reached (d + 1) (below p n) us) s; Some (0, s) }"
    if "d + 1 < MAX_RECURSE" for s :: "('q, 'a) dbst_scheme"
    using 4(1)[OF that, where ns = "[]"] 4(3) by simp
  have e: "d + int (dirs (Node n us # ts)) = d + 1 + int (dirs ts)" by simp
  show ?case
    unfolding e using 4(2)[where ns = ns] 4(3)
    by (cases "d + 1 < MAX_RECURSE") (simp_all add: sub import_all_append del: dirs_simps split: Option.bind_splits)
qed auto

lemma walk_recurse_laid:
  assumes "laid w p ts" "os_readdir w p = Some (map entry ts)"
  shows "vfs_dir_walk_recurse exec w p d s = do { s \<leftarrow> import_all exec w (reached d p ts) s; Some (0, s) }"
  using walk_entries_laid[OF assms(1), where ns = "[]"] assms(2) by simp

lemma walk_paths_laid:
  assumes "\<And>p. p \<in> set ps \<Longrightarrow> laid w p (tree p) \<and> os_readdir w p = Some (map entry (tree p))"
  shows "walk_paths exec w ps s =
    do { s \<leftarrow> import_all exec w (concat (map (\<lambda>p. reached 1 p (tree p)) ps)) s; Some (0, s) }"
  using assms
proof (induction ps arbitrary: s)
  case (Cons p ps)
  then show ?case
    by (simp add: walk_recurse_laid[of w p "tree p"] import_all_append del: vfs_dir_walk_recurse.simps split: Option.bind_splits)
qed simp

section \<open>What a walk leaves in the tables\<close>

text \<open>
  The packages at the paths \<open>ps\<close> can be imported: the engine behaves on their paths as
  documented, their archives open, and none of them is in the cache.
\<close>

definition importable :: "'q engine \<Rightarrow> ('q \<Rightarrow> tables \<times> tables option) \<Rightarrow> os \<Rightarrow> (string \<Rightarrow> int) \<Rightarrow>
    ('q, 'a) dbst_scheme \<Rightarrow> string \<Rightarrow> bool" where
  "importable exec view w ver s p \<longleftrightarrow> sqlite_laws exec view p (ver p) \<and> path_fits p \<and>
     pkg_handle_byname p s = Some NULL \<and> os_stat w p = Inr (ver p) \<and> os_iter w p \<and>
     (\<exists>fs. os_xar w p = Some fs \<and> unique_names fs)"

text \<open>The rows of \<open>packages\<close> after the walk: one for every path visited, the others kept.\<close>

definition registered :: "(string \<Rightarrow> int) \<Rightarrow> string list \<Rightarrow> (string \<times> int \<times> int) list \<Rightarrow> (string \<times> int \<times> int) list \<Rightarrow> bool" where
  "registered ver ps P P' \<longleftrightarrow>
     (\<forall>p. p \<in> set ps \<longrightarrow> (\<exists>i. filter (\<lambda>r. fst r = p) P' = [(p, ver p, i)])) \<and>
     (\<forall>p. p \<notin> set ps \<longrightarrow> filter (\<lambda>r. fst r = p) P' = filter (\<lambda>r. fst r = p) P) \<and>
     (distinct (map (snd \<circ> snd) P) \<longrightarrow> distinct (map (snd \<circ> snd) P'))"

lemma registered_refl: "registered ver [] P P"
  by (simp add: registered_def)

lemma registered_step:
  assumes "registered ver ps (filter (\<lambda>r. fst r \<noteq> p) P @ [(p, ver p, i)]) P'"
    and i: "i \<notin> snd ` snd ` set (filter (\<lambda>r. fst r \<noteq> p) P)"
  shows "registered ver (p # ps) P P'"
proof -
  let ?P = "filter (\<lambda>r. fst r \<noteq> p) P @ [(p, ver p, i)]"
  have f: "filter (\<lambda>r. fst r = q) ?P = (if q = p then [(p, ver p, i)] else filter (\<lambda>r. fst r = q) P)" for q
    by (auto simp: filter_empty_conv intro: filter_cong)
  have d: "distinct (map (snd \<circ> snd) ?P)" if "distinct (map (snd \<circ> snd) P)"
    using distinct_map_filter[OF that, of "\<lambda>r. fst r \<noteq> p"] i by (simp add: image_comp)
  note r = assms(1)[unfolded registered_def f]
  show ?thesis unfolding registered_def
  proof (intro conjI allI impI)
    fix q assume "q \<in> set (p # ps)"
    then show "\<exists>i. filter (\<lambda>r. fst r = q) P' = [(q, ver q, i)]"
      using r by (cases "q \<in> set ps") auto
  next
    fix q assume "q \<notin> set (p # ps)"
    then show "filter (\<lambda>r. fst r = q) P' = filter (\<lambda>r. fst r = q) P" using r by simp
  next
    assume "distinct (map (snd \<circ> snd) P)"
    then show "distinct (map (snd \<circ> snd) P')" using r d by simp
  qed
qed

lemma import_all_registers:
  assumes "\<And>p. p \<in> set ps \<Longrightarrow> importable exec view w ver s p"
    and "db_conn s = Some q" and "view q = ((P, F), None)" and "\<not> db_locked s"
  shows "\<exists>q' P' F'. import_all exec w ps s = Some (s\<lparr>db_conn := Some q'\<rparr>) \<and> view q' = ((P', F'), None) \<and>
    registered ver ps P P'"
  using assms
proof (induction ps arbitrary: s q P F)
  case Nil
  then have "s\<lparr>db_conn := Some q\<rparr> = s" by simp
  then show ?case
    by (intro exI[of _ q] exI[of _ P] exI[of _ F]) (simp add: registered_refl Nil.prems(3))
next
  case (Cons p ps)
  obtain fs where p: "sqlite_laws exec view p (ver p)" "path_fits p" "pkg_handle_byname p s = Some NULL"
      "os_stat w p = Inr (ver p)" "os_iter w p" "os_xar w p = Some fs" "unique_names fs"
    using Cons.prems(1)[of p] by (auto simp: importable_def)
  let ?P = "filter (\<lambda>r. fst r \<noteq> p) P"
  obtain q1 i where q1: "pkg_import exec (Some fs) True (Inr (ver p)) p s = Some (0, s\<lparr>db_conn := Some q1\<rparr>)"
      "view q1 = ((?P @ [(p, ver p, i)], filter (\<lambda>f. fst f \<notin> ids_of p P) F), None)" "i \<notin> snd ` snd ` set ?P"
    using pkg_import_ok[OF p(1-3) Cons.prems(2-4) p(7)] by blast
  let ?s1 = "s\<lparr>db_conn := Some q1\<rparr>"
  have s1: "importable exec view w ver ?s1 x" if "x \<in> set ps" for x
    using Cons.prems(1)[of x] that by (simp add: importable_def)
  have c1: "db_conn ?s1 = Some q1" "\<not> db_locked ?s1" using Cons.prems by simp_all
  obtain q2 P' F' where q2: "import_all exec w ps ?s1 = Some (?s1\<lparr>db_conn := Some q2\<rparr>)"
      "view q2 = ((P', F'), None)" "registered ver ps (?P @ [(p, ver p, i)]) P'"
    using Cons.IH[OF s1 c1(1) q1(2) c1(2)] by blast
  have "import_all exec w (p # ps) s = Some (s\<lparr>db_conn := Some q2\<rparr>)"
    using q1(1) q2(1) p by (simp add: import_at_def)
  with q2(2) registered_step[OF q2(3) q1(3)] show ?case by blast
qed

section \<open>Properties\<close>


text \<open>A path without any dot is handed to \<open>strncmp\<close> as NULL.\<close>

lemma vfs_dir_walk_no_dot:
  assumes "laid w p ts" and "os_readdir w p = Some (map entry ts @ n # ns)"
    and "\<not> hidden n" and "\<not> os_isdir w (entry_path p n)" and "CHR ''.'' \<notin> set (entry_path p n)"
  shows "vfs_dir_walk_recurse exec w p d s = None"
  using assms by (simp add: walk_entries_laid c_strrchr_def split: Option.bind_splits)

text \<open>
  A file that is no package ends the walk: the packages before it are imported, the
  entries behind it are not looked at, and the stream of the directory stays open.
\<close>

theorem vfs_dir_walk_stops:
  assumes "laid w p ts" and "os_readdir w p = Some (map entry ts @ n # ns)"
    and "\<not> hidden n" and "\<not> os_isdir w (entry_path p n)" and "c_strrchr (entry_path p n) (CHR ''.'') = Some ext" and "\<not> package_ext ext"
  shows "vfs_dir_walk_recurse exec w p d s = do { s \<leftarrow> import_all exec w (reached d p ts) s; Some (1, s) }"
  using assms by (simp add: walk_entries_laid c_strrchr_def split: Option.bind_splits)

text \<open>
  The limit on the depth counts directories, not levels: behind fourteen directories of the
  top level no further one is entered, however shallow it is.
\<close>

theorem vfs_dir_walk_counts_siblings:
  assumes "laid w p (ts @ [Node n us])" and "os_readdir w p = Some (map entry (ts @ [Node n us]))" and "14 \<le> dirs ts"
  shows "vfs_dir_walk_recurse exec w p 1 s = do { s \<leftarrow> import_all exec w (reached 1 p ts) s; Some (0, s) }"
proof -
  have "reached d p (ts @ [Node n us]) = reached d p ts" if "MAX_RECURSE \<le> d + int (dirs ts) + 1" for d
    using that by (induction ts arbitrary: d rule: dirs_induct) (simp_all add: algebra_simps)
  then have "reached 1 p (ts @ [Node n us]) = reached 1 p ts" using assms(3) by (simp add: MAX_RECURSE_def)
  with walk_recurse_laid[OF assms(1,2), of exec 1 s] show ?thesis by (simp only:)
qed

subsection \<open>Witnesses\<close>

text \<open>A package directory with a hidden entry, a package, and fifteen directories, the last with a package.\<close>

definition demo_tree :: "dtree list" where
  "demo_tree = [Skip ''.svn'', Leaf ''p.xar'', Node ''sub'' []]"

definition demo_many :: "dtree list" where
  "demo_many = map (\<lambda>c. Node [c] []) ''abcdefghijklmn''"

definition demo_os :: "string list \<Rightarrow> os" where
  "demo_os es = \<lparr>os_readdir = (\<lambda>p. Some (if p = ''/pkg'' then es else if p = ''/pkg/o'' then [''q.xar''] else [])),
     os_isdir = (\<lambda>p. CHR ''.'' \<notin> set p), os_xar = (\<lambda>_. Some demo_archive), os_iter = (\<lambda>_. True), os_stat = (\<lambda>_. Inr 7)\<rparr>"

lemma demo_paths: "pkg_paths demo_conf = Some [''/pkg'']"
  using dictionary_new_ok[of 0]
  by (simp add: pkg_paths_def dconf_get_str_def demo_conf_def dictionary_get_ok PATH_MAX_def strtok_list.simps path_sep_def)

lemma demo_laid:
  "laid (demo_os (map entry demo_tree)) ''/pkg'' demo_tree" "fits 1 demo_tree"
  "packages ''/pkg'' demo_tree = [''/pkg/p.xar'']"
  by (simp_all add: demo_tree_def demo_os_def hidden_def path_room_def below_def PATH_MAX_def is_package_def c_strrchr_def package_ext_def
      MAX_RECURSE_def)


theorem vfs_dir_walk_stops_witness:
  "vfs_dir_walk_recurse (demo_exec ''/pkg/p.xar'') (demo_os [''README.txt'', ''p.xar'']) ''/pkg'' 1 demo_db = Some (1, demo_db)"
proof -
  let ?w = "demo_os [''README.txt'', ''p.xar'']"
  have "os_readdir ?w ''/pkg'' = Some (map entry [] @ ''README.txt'' # [''p.xar''])" "\<not> hidden ''README.txt''"
    "\<not> os_isdir ?w (entry_path ''/pkg'' ''README.txt'')" "c_strrchr (entry_path ''/pkg'' ''README.txt'') (CHR ''.'') = Some ''.txt''"
    "\<not> package_ext ''.txt''"
    by (simp_all add: demo_os_def hidden_def entry_path_def PATH_MAX_def c_strrchr_def package_ext_def)
  from vfs_dir_walk_stops[OF _ this, of "demo_exec ''/pkg/p.xar''" 1 demo_db] show ?thesis by simp
qed

theorem vfs_dir_walk_counts_siblings_witness:
  "vfs_dir_walk_recurse (demo_exec ''/pkg/o/q.xar'') (demo_os (map entry (demo_many @ [Node ''o'' [Leaf ''q.xar'']]))) ''/pkg'' 1 demo_db =
    Some (0, demo_db)"
proof -
  let ?w = "demo_os (map entry (demo_many @ [Node ''o'' [Leaf ''q.xar'']]))"
  have "laid ?w ''/pkg'' (demo_many @ [Node ''o'' [Leaf ''q.xar'']])"
    by (simp add: demo_many_def demo_os_def hidden_def path_room_def below_def PATH_MAX_def is_package_def c_strrchr_def package_ext_def)
  moreover have "os_readdir ?w ''/pkg'' = Some (map entry (demo_many @ [Node ''o'' [Leaf ''q.xar'']]))" by (simp add: demo_os_def)
  moreover have "14 \<le> dirs demo_many" by (simp add: demo_many_def dirs_def)
  moreover have "reached 1 ''/pkg'' demo_many = []" by (simp add: demo_many_def)
  ultimately show ?thesis
    using vfs_dir_walk_counts_siblings[of ?w "''/pkg''" demo_many "''o''" "[Leaf ''q.xar'']" "demo_exec ''/pkg/o/q.xar''" demo_db]
    by simp
qed

end
