(* ===== verification/Inotify.thy ===== *)
theory Inotify
  imports Vfs
begin

text \<open>
  The watcher of the package directories of \<open>src/vfs_inotify.c\<close>.  A watch is an element of the
  block heap \<open>vfs_watch_heap\<close>, the list of watches is made of nodes of the node pool.  The
  bytes that \<open>read\<close> delivers are decoded the way the code does, through the layout of
  \<open>struct inotify_event\<close> on a little-endian machine.  Results of system calls and the memory
  offered to the allocator are arguments.
\<close>

section \<open>Data\<close>

record vfs_watch =
  wt_mask :: u32
  wt_fd :: int
  wt_path :: string

record 'q vfst = "'q dbst" +
  vfs_watch_heap :: ptr
  vfs_watch_list :: dlink_list
  vfs_watches :: "vfs_watch mem"
  vfs_inotify_fd :: int

definition sizeof_vfs_watch :: nat where
  "sizeof_vfs_watch = 4104"

definition IN_CLOSE_WRITE :: u32 where "IN_CLOSE_WRITE = 0x8"
definition IN_MOVED_FROM :: u32 where "IN_MOVED_FROM = 0x40"
definition IN_MOVED_TO :: u32 where "IN_MOVED_TO = 0x80"
definition IN_DELETE :: u32 where "IN_DELETE = 0x200"
definition IN_DELETE_SELF :: u32 where "IN_DELETE_SELF = 0x400"

definition sizeof_inotify_event :: nat where
  "sizeof_inotify_event = 16"

definition INOTIFY_BUFSIZE :: nat where
  "INOTIFY_BUFSIZE = (sizeof_inotify_event + 4096) * 1024"

section \<open>The list of watches\<close>

unbundle bit_operations_syntax

definition vfs_watch_findnode :: "ptr \<Rightarrow> ('q, 'a) vfst_scheme \<Rightarrow> ptr option" where
  "vfs_watch_findnode watch s = dlink_walk (\<lambda>n. nd_data n = watch) (b_nodes s) (ll_head (vfs_watch_list s))"

partial_function (option) byfd_from :: "int \<Rightarrow> dheap \<Rightarrow> vfs_watch mem \<Rightarrow> ptr \<Rightarrow> ptr option" where
  "byfd_from fd h ws p =
     (if p = NULL then Some NULL
      else do {
        n \<leftarrow> deref h p;
        x \<leftarrow> deref ws (nd_data n);
        if wt_fd x = fd then Some p else byfd_from fd h ws (nd_next n) })"

definition vfs_watch_findnode_byfd :: "int \<Rightarrow> ('q, 'a) vfst_scheme \<Rightarrow> ptr option" where
  "vfs_watch_findnode_byfd fd s = byfd_from fd (b_nodes s) (vfs_watches s) (ll_head (vfs_watch_list s))"

text \<open>
  \<open>vfs_watch_add\<close>: \<open>e\<close> and \<open>e'\<close> are the memory offered for a block of watches and of nodes,
  \<open>wd\<close> the result of \<open>inotify_add_watch\<close>.  Without memory the watch is written through NULL.
\<close>

definition vfs_watch_add :: "ptr \<times> ptr \<Rightarrow> ptr \<times> ptr \<Rightarrow> int \<Rightarrow> string \<Rightarrow> ('q, 'a) vfst_scheme \<Rightarrow>
    (ptr \<times> ('q, 'a) vfst_scheme) option" where
  "vfs_watch_add e e' wd path s = do {
     (wh, s) \<leftarrow> blockheap_alloc (fst e) (snd e) (vfs_watch_heap s) s;
     if wh = NULL then None
     else do {
       let s = s\<lparr>vfs_watches := (vfs_watches s)(wh \<mapsto>
         \<lparr>wt_mask = IN_CLOSE_WRITE OR IN_MOVED_TO OR IN_MOVED_FROM OR IN_DELETE OR IN_DELETE_SELF, wt_fd = wd, wt_path = path\<rparr>)\<rparr>;
       if wd \<le> 0 then do {
         (_, s) \<leftarrow> blockheap_free (vfs_watch_heap s) wh s;
         Some (NULL, s\<lparr>vfs_watches := (vfs_watches s)(wh := None)\<rparr>) }
       else do {
         (s, l) \<leftarrow> dlink_add_tail_alloc (fst e') (snd e') wh s (vfs_watch_list s);
         Some (wh, s\<lparr>vfs_watch_list := l\<rparr>) } } }"

text \<open>
  \<open>vfs_watch_remove\<close>: \<open>rv\<close> is the result of \<open>inotify_rm_watch\<close>.  The node is taken off the
  list and not released.
\<close>

definition vfs_watch_remove :: "int \<Rightarrow> ptr \<Rightarrow> ('q, 'a) vfst_scheme \<Rightarrow> (int \<times> ('q, 'a) vfst_scheme) option" where
  "vfs_watch_remove rv watch s = do {
     _ \<leftarrow> deref (vfs_watches s) watch;
     p \<leftarrow> vfs_watch_findnode watch s;
     if p \<noteq> NULL then do {
       (nds, l) \<leftarrow> dlink_delete p (b_nodes s) (vfs_watch_list s);
       let s = s\<lparr>b_nodes := nds, vfs_watch_list := l\<rparr>;
       n \<leftarrow> deref (b_nodes s) p;
       (_, s) \<leftarrow> blockheap_free (vfs_watch_heap s) (nd_data n) s;
       Some (rv, s\<lparr>vfs_watches := (vfs_watches s)(nd_data n := None)\<rparr>) }
     else Some (rv, s) }"

text \<open>\<open>vfs_watch_init\<close>: \<open>fd\<close> is the result of \<open>inotify_init\<close>, \<open>env k\<close> memory and watch descriptor of the \<open>k\<close>-th directory.\<close>

fun watch_paths :: "(nat \<Rightarrow> (ptr \<times> ptr) \<times> (ptr \<times> ptr) \<times> int) \<Rightarrow> nat \<Rightarrow> string list \<Rightarrow> ('q, 'a) vfst_scheme \<Rightarrow>
    ('q, 'a) vfst_scheme option" where
  "watch_paths env k [] s = Some s"
| "watch_paths env k (p # ps) s =
     (case env k of (e, e', wd) \<Rightarrow> do { (_, s) \<leftarrow> vfs_watch_add e e' wd p s; watch_paths env (Suc k) ps s })"

definition vfs_watch_init :: "ptr \<Rightarrow> ptr \<Rightarrow> ptr \<Rightarrow> (nat \<Rightarrow> (ptr \<times> ptr) \<times> (ptr \<times> ptr) \<times> int) \<Rightarrow> int \<Rightarrow> conf \<Rightarrow>
    ('q, 'a) vfst_scheme \<Rightarrow> (int \<times> ('q, 'a) vfst_scheme) option" where
  "vfs_watch_init hb cb me env fd cf s =
     (if vfs_inotify_fd s \<noteq> 0 then Some (- 1, s)
      else if fd = - 1 then Some (- 2, s\<lparr>vfs_inotify_fd := fd\<rparr>)
      else do {
        let s = s\<lparr>vfs_inotify_fd := fd\<rparr>;
        epb \<leftarrow> dconf_get_int cf (Some ''tuning.heap.vfs_watch'') 32;
        (h, s) \<leftarrow> blockheap_create hb cb me (of_nat sizeof_vfs_watch) epb (Some ''vfs_watch'') s;
        ps \<leftarrow> pkg_paths cf;
        s \<leftarrow> watch_paths env 0 ps (s\<lparr>vfs_watch_heap := h\<rparr>);
        Some (0, s) })"

definition vfs_watch_fini :: "('q, 'a) vfst_scheme \<Rightarrow> ('q, 'a) vfst_scheme option" where
  "vfs_watch_fini s = map_option snd (blockheap_destroy (vfs_watch_heap s) s)"

section \<open>Events\<close>

text \<open>The bytes read, followed by the zeros the buffer starts with.\<close>

definition byte_at :: "u8 list \<Rightarrow> nat \<Rightarrow> u8" where
  "byte_at buf i = (if i < length buf then buf ! i else 0)"

definition le32 :: "u8 list \<Rightarrow> nat \<Rightarrow> nat" where
  "le32 buf i = unat (byte_at buf i) + 256 * (unat (byte_at buf (i + 1)) + 256 * (unat (byte_at buf (i + 2)) +
     256 * unat (byte_at buf (i + 3))))"

definition ev_wd :: "u8 list \<Rightarrow> nat \<Rightarrow> int" where
  "ev_wd buf i = to_int32 (int (le32 buf i))"

definition ev_mask :: "u8 list \<Rightarrow> nat \<Rightarrow> u32" where
  "ev_mask buf i = word_of_nat (le32 buf (i + 4))"

definition ev_len :: "u8 list \<Rightarrow> nat \<Rightarrow> nat" where
  "ev_len buf i = le32 buf (i + 12)"

definition ev_name :: "u8 list \<Rightarrow> nat \<Rightarrow> string" where
  "ev_name buf i = map (\<lambda>b. char_of (unat b)) (takeWhile (\<lambda>b. b \<noteq> 0) (drop (i + sizeof_inotify_event) buf))"

text \<open>One round of the loop ends the handler or goes on at an index.\<close>

datatype 's flow = Return 's | Again nat 's

definition evt_body :: "'q engine \<Rightarrow> os \<Rightarrow> int \<Rightarrow> u8 list \<Rightarrow> nat \<Rightarrow> ('q, 'a) vfst_scheme \<Rightarrow>
    ('q, 'a) vfst_scheme flow option" where
  "evt_body exec w rv buf i s =
     (if INOTIFY_BUFSIZE \<le> i + sizeof_inotify_event then None
      else if byte_at buf (i + sizeof_inotify_event) = of_char (CHR ''.'') then Some (Again i s)
      else do {
        p \<leftarrow> vfs_watch_findnode_byfd (ev_wd buf i) s;
        if p = NULL then Some (Return s)
        else if ev_len buf i = 0 then Some (Return s)
        else do {
          n \<leftarrow> deref (b_nodes s) p;
          x \<leftarrow> deref (vfs_watches s) (nd_data n);
          let path = entry_path (wt_path x) (ev_name buf i);
          ext \<leftarrow> c_strrchr path (CHR ''.'');
          if \<not> package_ext ext then Some (Return s)
          else do {
            let m = ev_mask buf i;
            s \<leftarrow> (if m AND IN_CLOSE_WRITE \<noteq> 0 \<or> m AND IN_MOVED_TO \<noteq> 0 then import_at exec w path s
                  else if m AND IN_DELETE \<noteq> 0 \<or> m AND IN_MOVED_FROM \<noteq> 0
                  then do { (_, s) \<leftarrow> pkg_forget exec path s; Some s }
                  else if m AND IN_DELETE_SELF \<noteq> 0
                  then do { (_, s) \<leftarrow> vfs_watch_remove rv (nd_data n) s; Some s }
                  else Some s);
            Some (Again (i + sizeof_inotify_event + ev_len buf i) s) } } })"

partial_function (option) evt_loop :: "'q engine \<Rightarrow> os \<Rightarrow> int \<Rightarrow> u8 list \<Rightarrow> nat \<Rightarrow> ('q, 'a) vfst_scheme \<Rightarrow>
    ('q, 'a) vfst_scheme option" where
  "evt_loop exec w rv buf i s =
     (if i < length buf then do {
        f \<leftarrow> evt_body exec w rv buf i s;
        case f of Return s \<Rightarrow> Some s | Again j s \<Rightarrow> evt_loop exec w rv buf j s }
      else Some s)"

text \<open>\<open>vfs_inotify_evt_get\<close>: the bytes delivered by \<open>read\<close>, or None when it fails.\<close>

definition vfs_inotify_evt_get :: "'q engine \<Rightarrow> os \<Rightarrow> int \<Rightarrow> u8 list option \<Rightarrow> ('q, 'a) vfst_scheme \<Rightarrow>
    ('q, 'a) vfst_scheme option" where
  "vfs_inotify_evt_get exec w rv input s =
     (case input of None \<Rightarrow> Some s | Some buf \<Rightarrow> evt_loop exec w rv buf 0 s)"

section \<open>Decoding a batch of events\<close>

text \<open>An event as the kernel writes it: descriptor, mask, cookie, name and padding.\<close>

type_synonym inotify_ev = "nat \<times> u32 \<times> nat \<times> string \<times> nat"

definition le_bytes :: "nat \<Rightarrow> u8 list" where
  "le_bytes n = [word_of_nat n, word_of_nat (n div 256), word_of_nat (n div 65536), word_of_nat (n div 16777216)]"

fun encode :: "inotify_ev \<Rightarrow> u8 list" where
  "encode (wd, m, c, n, k) =
     le_bytes wd @ le_bytes (unat m) @ le_bytes c @ le_bytes (length n + Suc k) @ map of_char n @ replicate (Suc k) 0"

lemma byte_at_append [simp]: "byte_at (xs @ ys) (length xs + k) = byte_at ys k"
  by (simp add: byte_at_def nth_append)

lemma byte_at_Cons [simp]: "byte_at (b # bs) 0 = b" "byte_at (b # bs) (Suc k) = byte_at bs k"
  by (simp_all add: byte_at_def)

lemma le32_append [simp]: "le32 (xs @ ys) (length xs + k) = le32 ys k"
  by (simp only: le32_def add.assoc byte_at_append)

lemma le32_bytes:
  assumes "n < 2 ^ 32"
  shows "le32 (le_bytes n @ ys) 0 = n"
proof -
  have u: "unat (word_of_nat k :: u8) = k mod 256" for k by (simp add: unat_of_nat)
  have "n div 16777216 < 256" using assms by (simp add: less_mult_imp_div_less)
  moreover have "n div 65536 = n div 256 div 256" "n div 16777216 = n div 256 div 256 div 256"
    by (simp_all add: div_mult2_eq[symmetric])
  moreover have "k mod 256 + 256 * (k div 256) = k" for k :: nat by simp
  ultimately show ?thesis by (simp add: le32_def le_bytes_def numeral_2_eq_2 numeral_3_eq_3 u)
qed

lemma le_bytes_length [simp]: "length (le_bytes n) = 4"
  by (simp add: le_bytes_def)

lemma le32_skip: "le32 (le_bytes n @ ys) (4 + k) = le32 ys k" "le32 (le_bytes n @ ys) 4 = le32 ys 0"
  using le32_append[of "le_bytes n" ys k] le32_append[of "le_bytes n" ys 0] by simp_all

definition ev_fits :: "inotify_ev \<Rightarrow> bool" where
  "ev_fits e \<longleftrightarrow> (case e of (wd, m, c, n, k) \<Rightarrow> wd < 2 ^ 32 \<and> length n + Suc k < 2 ^ 32 \<and> CHR 0x00 \<notin> set n)"

lemma unat_of_char [simp]: "unat (of_char c :: u8) = of_char c"
proof -
  have "unat (of_char c :: u8) = unat (of_nat (of_char c) :: u8)" by (simp add: of_nat_of_char)
  also have "\<dots> = of_char c" by (simp add: unat_of_nat del: of_nat_of_char)
  finally show ?thesis .
qed

lemma of_char_u8_iff: "(of_char c :: u8) = of_char d \<longleftrightarrow> c = d"
  by (metis unat_of_char of_char_eq_iff)

lemma takeWhile_name:
  "CHR 0x00 \<notin> set n \<Longrightarrow> map (\<lambda>b. char_of (unat b)) (takeWhile (\<lambda>b. b \<noteq> 0) (map of_char n @ (0 :: u8) # ys)) = n"
proof (induction n)
  case (Cons c n)
  have "(of_char c :: u8) \<noteq> 0"
  proof
    assume "(of_char c :: u8) = 0"
    then have "(of_char c :: nat) = of_char (CHR 0x00)" using unat_of_char[of c] by simp
    then have "c = CHR 0x00" by (simp only: of_char_eq_iff)
    then show False using Cons.prems by simp
  qed
  then show ?case using Cons by simp
qed simp

lemma decode_event:
  assumes "ev_fits (wd, m, c, n, k)" and buf: "buf = pre @ encode (wd, m, c, n, k) @ rest"
  shows "ev_wd buf (length pre) = to_int32 (int wd)" "ev_mask buf (length pre) = m"
    "ev_len buf (length pre) = length n + Suc k" "ev_name buf (length pre) = n"
    "byte_at buf (length pre + sizeof_inotify_event) = (case n of [] \<Rightarrow> 0 | ch # _ \<Rightarrow> of_char ch)"
    "length (encode (wd, m, c, n, k)) = sizeof_inotify_event + (length n + Suc k)"
proof -
  have f: "wd < 2 ^ 32" "length n + Suc k < 2 ^ 32" "CHR 0x00 \<notin> set n" "unat m < 2 ^ 32"
    using assms(1) unsigned_less[of m, where ?'a = nat] by (simp_all add: ev_fits_def)
  let ?t = "map of_char n @ replicate (Suc k) 0 @ rest"
  have b: "buf = pre @ le_bytes wd @ le_bytes (unat m) @ le_bytes c @ le_bytes (length n + Suc k) @ ?t" by (simp add: buf)
  have z: "length pre = length pre + 0" by simp
  show "ev_wd buf (length pre) = to_int32 (int wd)"
    unfolding ev_wd_def by (subst z) (simp only: b le32_append le32_bytes[OF f(1)])
  show "ev_mask buf (length pre) = m"
    unfolding ev_mask_def by (simp only: b le32_append le32_skip le32_bytes[OF f(4)]) simp
  have "(12 :: nat) = 4 + (4 + (4 + 0))" by simp
  then show "ev_len buf (length pre) = length n + Suc k"
    unfolding ev_len_def by (simp only: b le32_append le32_skip le32_bytes[OF f(2)])
  let ?h = "pre @ le_bytes wd @ le_bytes (unat m) @ le_bytes c @ le_bytes (length n + Suc k)"
  have bh: "buf = ?h @ ?t" and lh: "length pre + sizeof_inotify_event = length ?h"
    by (simp_all add: b sizeof_inotify_event_def)
  have "drop (length pre + sizeof_inotify_event) buf = ?t" unfolding bh lh by simp
  then show "ev_name buf (length pre) = n"
    using takeWhile_name[OF f(3), of "replicate k 0 @ rest"] by (simp add: ev_name_def)
  have "byte_at buf (length pre + sizeof_inotify_event) = byte_at ?t 0"
    unfolding lh bh using byte_at_append[of ?h ?t 0] by simp
  also have "\<dots> = (case n of [] \<Rightarrow> 0 | ch # _ \<Rightarrow> of_char ch)" by (cases n) simp_all
  finally show "byte_at buf (length pre + sizeof_inotify_event) = (case n of [] \<Rightarrow> 0 | ch # _ \<Rightarrow> of_char ch)" .
  show "length (encode (wd, m, c, n, k)) = sizeof_inotify_event + (length n + Suc k)"
    by (simp add: sizeof_inotify_event_def)
qed


section \<open>What a batch of events does\<close>

text \<open>The directory an event descriptor is watched for.\<close>

definition watched :: "('q, 'a) vfst_scheme \<Rightarrow> int \<Rightarrow> string option" where
  "watched s wd = do {
     p \<leftarrow> vfs_watch_findnode_byfd wd s;
     if p = NULL then None
     else do { n \<leftarrow> deref (b_nodes s) p; x \<leftarrow> deref (vfs_watches s) (nd_data n); Some (wt_path x) } }"

definition creates :: "u32 \<Rightarrow> bool" where
  "creates m \<longleftrightarrow> m AND IN_CLOSE_WRITE \<noteq> 0 \<or> m AND IN_MOVED_TO \<noteq> 0"

definition deletes :: "u32 \<Rightarrow> bool" where
  "deletes m \<longleftrightarrow> \<not> creates m \<and> (m AND IN_DELETE \<noteq> 0 \<or> m AND IN_MOVED_FROM \<noteq> 0)"

lemma watched_conn [simp]: "watched (s\<lparr>db_conn := c\<rparr>) wd = watched s wd"
  by (simp add: watched_def vfs_watch_findnode_byfd_def cong: if_cong)

lemma evt_body_package:
  assumes e: "ev_fits (wd, m, c, n, k)" and buf: "buf = pre @ encode (wd, m, c, n, k) @ rest" and len: "length buf \<le> INOTIFY_BUFSIZE"
    and w: "watched s (to_int32 (int wd)) = Some dir" and n: "\<not> hidden n" "is_package n" "path_room dir n" and a: "creates m \<or> deletes m"
  shows "evt_body exec w rv buf (length pre) s = do {
      s \<leftarrow> (if creates m then import_at exec w (below dir n) s
            else do { (_, s) \<leftarrow> pkg_forget exec (below dir n) s; Some s });
      Some (Again (length (pre @ encode (wd, m, c, n, k))) s) }"
proof -
  note d = decode_event[OF e buf]
  obtain ext where x: "c_strrchr (below dir n) (CHR ''.'') = Some ext" "package_ext ext"
    using is_package_ext[OF n(2)] by blast
  have "n \<noteq> []" using n(2) by (auto simp: is_package_def c_strrchr_def)
  then have h: "byte_at buf (length pre + sizeof_inotify_event) \<noteq> of_char (CHR ''.'')"
    using n(1) unfolding d(5) by (cases n) (simp_all only: list.case hidden_def of_char_u8_iff list.sel, simp_all)
  have b: "\<not> INOTIFY_BUFSIZE \<le> length pre + sizeof_inotify_event" using len d(6) unfolding buf by simp
  have l: "ev_len buf (length pre) \<noteq> 0" "length pre + sizeof_inotify_event + ev_len buf (length pre) = length (pre @ encode (wd, m, c, n, k))"
    unfolding length_append d(3,6) by simp_all
  obtain p nd t where t: "vfs_watch_findnode_byfd (to_int32 (int wd)) s = Some p" "p \<noteq> NULL" "deref (b_nodes s) p = Some nd"
      "deref (vfs_watches s) (nd_data nd) = Some t" "wt_path t = dir"
    using w by (auto simp: watched_def bind_eq_Some_conv split: if_splits)
  have fl: "(m AND IN_CLOSE_WRITE \<noteq> 0 \<or> m AND IN_MOVED_TO \<noteq> 0) = creates m" "creates m \<or> m AND IN_DELETE \<noteq> 0 \<or> m AND IN_MOVED_FROM \<noteq> 0"
    using a by (auto simp: creates_def deletes_def)
  show ?thesis
    using x n(3) h b l(1) t fl(2)
    unfolding evt_body_def d(1,2,4) l(2) fl(1) Let_def
    by (cases "creates m") (auto simp del: length_append encode.simps of_char_Char)
qed


text \<open>
  The packages after a sequence of imports (True) and removals (False): the last one of a path
  counts.
\<close>

definition settled :: "(string \<Rightarrow> int) \<Rightarrow> (string \<times> bool) list \<Rightarrow> (string \<times> int \<times> int) list \<Rightarrow> (string \<times> int \<times> int) list \<Rightarrow> bool" where
  "settled ver acts P P' \<longleftrightarrow>
     (\<forall>p. case map_of (rev acts) p of
        None \<Rightarrow> filter (\<lambda>r. fst r = p) P' = filter (\<lambda>r. fst r = p) P
      | Some True \<Rightarrow> \<exists>i. filter (\<lambda>r. fst r = p) P' = [(p, ver p, i)]
      | Some False \<Rightarrow> filter (\<lambda>r. fst r = p) P' = [])"

lemma settled_Cons:
  assumes "settled ver acts P1 P'" and "\<And>q. q \<noteq> p \<Longrightarrow> filter (\<lambda>r. fst r = q) P1 = filter (\<lambda>r. fst r = q) P"
    and "if b then \<exists>i. filter (\<lambda>r. fst r = p) P1 = [(p, ver p, i)] else filter (\<lambda>r. fst r = p) P1 = []"
  shows "settled ver ((p, b) # acts) P P'"
  unfolding settled_def
proof
  fix q
  have "map_of (rev ((p, b) # acts)) q = (case map_of (rev acts) q of None \<Rightarrow> if q = p then Some b else None | Some x \<Rightarrow> Some x)"
    by (auto simp: map_add_def split: option.splits)
  moreover have "case map_of (rev acts) q of None \<Rightarrow> filter (\<lambda>r. fst r = q) P' = filter (\<lambda>r. fst r = q) P1
      | Some True \<Rightarrow> \<exists>i. filter (\<lambda>r. fst r = q) P' = [(q, ver q, i)]
      | Some False \<Rightarrow> filter (\<lambda>r. fst r = q) P' = []"
    using assms(1) by (simp add: settled_def)
  ultimately show "case map_of (rev ((p, b) # acts)) q of None \<Rightarrow> filter (\<lambda>r. fst r = q) P' = filter (\<lambda>r. fst r = q) P
      | Some True \<Rightarrow> \<exists>i. filter (\<lambda>r. fst r = q) P' = [(q, ver q, i)]
      | Some False \<Rightarrow> filter (\<lambda>r. fst r = q) P' = []"
    using assms(2,3) by (cases "q = p"; cases b) (auto split: option.splits bool.splits)
qed

definition good_event :: "'q engine \<Rightarrow> ('q \<Rightarrow> tables \<times> tables option) \<Rightarrow> os \<Rightarrow> (string \<Rightarrow> int) \<Rightarrow> (int \<Rightarrow> string) \<Rightarrow>
    ('q, 'a) vfst_scheme \<Rightarrow> inotify_ev \<Rightarrow> bool" where
  "good_event exec view w ver dir s e \<longleftrightarrow> (case e of (wd, m, c, n, k) \<Rightarrow>
     ev_fits e \<and> watched s (to_int32 (int wd)) = Some (dir (to_int32 (int wd))) \<and> \<not> hidden n \<and> is_package n \<and>
     path_room (dir (to_int32 (int wd))) n \<and> (creates m \<or> deletes m) \<and>
     importable exec view w ver s (below (dir (to_int32 (int wd))) n))"

fun action :: "(int \<Rightarrow> string) \<Rightarrow> inotify_ev \<Rightarrow> string \<times> bool" where
  "action dir (wd, m, c, n, k) = (below (dir (to_int32 (int wd))) n, creates m)"

lemma evt_loop_step:
  "i < length buf \<Longrightarrow> evt_body exec w rv buf i s = Some (Again j s') \<Longrightarrow> evt_loop exec w rv buf i s = evt_loop exec w rv buf j s'"
  by (subst evt_loop.simps) simp

lemma act_on_package:
  assumes "importable exec view w ver s path" "db_conn s = Some q" "view q = ((P, F), None)" "\<not> db_locked s"
  shows "\<exists>q' P' F'. (if b then import_at exec w path s else do { (_, s) \<leftarrow> pkg_forget exec path s; Some s }) =
      Some (s\<lparr>db_conn := Some q'\<rparr>) \<and> view q' = ((P', F'), None) \<and> (\<forall>acts P''. settled ver acts P' P'' \<longrightarrow> settled ver ((path, b) # acts) P P'')"
proof (cases b)
  case True
  have "registered ver [path] P P' \<Longrightarrow> settled ver acts P' P'' \<Longrightarrow> settled ver ((path, True) # acts) P P''" for acts P' P''
    by (rule settled_Cons[of ver acts P']) (auto simp: registered_def)
  then show ?thesis
    using True import_all_registers[of "[path]" exec view w ver s q P F] assms by (fastforce split: Option.bind_splits)
next
  case False
  have rem: "removed path (P, F) = (filter (\<lambda>r. fst r \<noteq> path) P, filter (\<lambda>f. fst f \<notin> ids_of path P) F)" by (simp add: removed_def without_pkg_def without_files_def)
  have "settled ver acts (filter (\<lambda>r. fst r \<noteq> path) P) P'' \<Longrightarrow> settled ver ((path, False) # acts) P P''" for acts P''
    by (rule settled_Cons[of ver acts "filter (\<lambda>r. fst r \<noteq> path) P"]) (auto simp: filter_empty_conv intro: filter_cong)
  moreover obtain q' where "pkg_forget exec path s = Some (0, s\<lparr>db_conn := Some q'\<rparr>)" "view q' = (removed path (P, F), None)"
    using pkg_forget_ok[of exec view path "ver path" s q "(P, F)" None] assms by (auto simp: importable_def)
  ultimately show ?thesis using False rem
    by (intro exI[of _ q'] exI[of _ "filter (\<lambda>r. fst r \<noteq> path) P"] exI[of _ "filter (\<lambda>f. fst f \<notin> ids_of path P) F"]) simp
qed

lemma evt_loop_batch:
  assumes "\<And>e. e \<in> set evs \<Longrightarrow> good_event exec view w ver dir s e" and "length (pre @ concat (map encode evs)) \<le> INOTIFY_BUFSIZE"
    and "db_conn s = Some q" and "view q = ((P, F), None)" and "\<not> db_locked s"
  shows "\<exists>q' P' F'. evt_loop exec w rv (pre @ concat (map encode evs)) (length pre) s = Some (s\<lparr>db_conn := Some q'\<rparr>) \<and>
    view q' = ((P', F'), None) \<and> settled ver (map (action dir) evs) P P'"
  using assms
proof (induction evs arbitrary: pre s q P F)
  case Nil
  have "s\<lparr>db_conn := Some q\<rparr> = s" using Nil.prems(3) by simp
  then show ?case using Nil.prems
    by (intro exI[of _ q] exI[of _ P] exI[of _ F]) (simp add: evt_loop.simps settled_def)
next
  case (Cons e evs)
  obtain wd m c n k where e: "e = (wd, m, c, n, k)" by (cases e)
  let ?d = "dir (to_int32 (int wd))" and ?buf = "pre @ encode e @ concat (map encode evs)"
  have g: "ev_fits (wd, m, c, n, k)" "watched s (to_int32 (int wd)) = Some ?d" "\<not> hidden n" "is_package n" "path_room ?d n"
      "creates m \<or> deletes m" "importable exec view w ver s (below ?d n)"
    using Cons.prems(1)[of e] unfolding e by (simp_all add: good_event_def)
  have len: "length ?buf \<le> INOTIFY_BUFSIZE" using Cons.prems(2) by simp
  obtain q1 P1 F1 where q1: "(if creates m then import_at exec w (below ?d n) s else do { (_, s) \<leftarrow> pkg_forget exec (below ?d n) s; Some s }) =
      Some (s\<lparr>db_conn := Some q1\<rparr>)" "view q1 = ((P1, F1), None)"
      "\<forall>acts P''. settled ver acts P1 P'' \<longrightarrow> settled ver ((below ?d n, creates m) # acts) P P''"
    using act_on_package[OF g(7) Cons.prems(3-5), of "creates m"] by blast
  let ?s1 = "s\<lparr>db_conn := Some q1\<rparr>"
  have body: "evt_body exec w rv ?buf (length pre) s = Some (Again (length (pre @ encode e)) ?s1)"
    using evt_body_package[OF g(1) _ len g(2-6), where exec = exec and w = w and rv = rv and pre = pre] q1(1) unfolding e by (simp del: encode.simps length_append)
  have lt: "length pre < length ?buf" unfolding e by simp
  have s1: "good_event exec view w ver dir ?s1 x" if "x \<in> set evs" for x
    using Cons.prems(1)[of x] that by (auto simp: good_event_def importable_def)
  have l1: "length ((pre @ encode e) @ concat (map encode evs)) \<le> INOTIFY_BUFSIZE" using len by simp
  have c1: "db_conn ?s1 = Some q1" "\<not> db_locked ?s1" using Cons.prems by simp_all
  obtain q2 P2 F2 where q2: "evt_loop exec w rv ((pre @ encode e) @ concat (map encode evs)) (length (pre @ encode e)) ?s1 =
      Some (?s1\<lparr>db_conn := Some q2\<rparr>)" "view q2 = ((P2, F2), None)" "settled ver (map (action dir) evs) P1 P2"
    using Cons.IH[OF s1 l1 c1(1) q1(2) c1(2)] by blast
  have "evt_loop exec w rv ?buf (length pre) s = Some (s\<lparr>db_conn := Some q2\<rparr>)"
    using evt_loop_step[OF lt body] q2(1) by simp
  moreover have "settled ver (map (action dir) (e # evs)) P P2" using q1(3) q2(3) unfolding e by simp
  ultimately show ?case using q2(2) by (intro exI[of _ q2] exI[of _ P2] exI[of _ F2]) simp
qed

section \<open>The list of watches\<close>

text \<open>\<open>hs\<close> are the watch structs of the list and \<open>ws\<close> what they hold, in order.\<close>

definition watch_inv :: "('q, 'a) vfst_scheme \<Rightarrow> nat \<Rightarrow> binfo list \<Rightarrow> nat \<Rightarrow> binfo list \<Rightarrow> ptr list \<Rightarrow> ptr list \<Rightarrow> vfs_watch list \<Rightarrow> bool" where
  "watch_inv s n xs m ys ns hs ws \<longleftrightarrow>
     obj_list s (vfs_watch_list s) (vfs_watch_heap s) sizeof_vfs_watch n xs m ys ns hs \<and> map (vfs_watches s) hs = map Some ws"

lemma byfd_from_ok:
  assumes "dseg h q ns NULL" "node_data h ns = map Some hs" "map m hs = map Some ws" "\<forall>p \<in> set hs. p \<noteq> NULL"
  shows "case find (\<lambda>w. wt_fd w = fd) ws of
      None \<Rightarrow> byfd_from fd h m (hdd NULL ns) = Some NULL
    | Some w \<Rightarrow> \<exists>a nd. byfd_from fd h m (hdd NULL ns) = Some a \<and> deref h a = Some nd \<and> deref m (nd_data nd) = Some w \<and> a \<noteq> NULL"
  using assms
proof (induction ns arbitrary: q hs ws)
  case Nil
  then show ?case by (simp add: byfd_from.simps node_data_def)
next
  case (Cons a ns)
  then obtain p hs' where hs: "hs = p # hs'" by (cases hs) (auto simp: node_data_def)
  with Cons.prems(3) obtain w ws' where ws: "ws = w # ws'" by (cases ws) auto
  obtain nd where nd: "a \<noteq> NULL" "h a = Some nd" "nd_next nd = hdd NULL ns" "dseg h a ns NULL" using Cons.prems(1) by auto
  have p: "nd_data nd = p" "node_data h ns = map Some hs'" "m p = Some w" "map m hs' = map Some ws'" "p \<noteq> NULL"
    using Cons.prems(2-4) hs ws nd(2) by (simp_all add: node_data_def)
  have "byfd_from fd h m (hdd NULL (a # ns)) = (if wt_fd w = fd then Some a else byfd_from fd h m (hdd NULL ns))"
    using nd p by (subst byfd_from.simps) (simp add: mem_simps)
  then show ?case using Cons.IH[OF nd(4) p(2,4)] Cons.prems(4) hs ws nd(1,2) p(1,3,5)
    by (auto simp: mem_simps split: option.splits)
qed

lemma watched_ok:
  assumes "watch_inv s n xs m ys ns hs ws"
  shows "watched s fd = map_option wt_path (find (\<lambda>w. wt_fd w = fd) ws)"
proof -
  have o: "obj_list s (vfs_watch_list s) (vfs_watch_heap s) sizeof_vfs_watch n xs m ys ns hs" "map (vfs_watches s) hs = map Some ws"
    using assms by (simp_all add: watch_inv_def)
  have nz: "\<forall>p \<in> set hs. p \<noteq> NULL" using obj_ptr(1)[OF o(1)] by blast
  have d: "dseg (b_nodes s) NULL ns NULL" "ll_head (vfs_watch_list s) = hdd NULL ns"
    using obj_nodes(1)[OF o(1)] by (simp_all add: dlist_def)
  show ?thesis
    using byfd_from_ok[OF d(1) obj_nodes(2)[OF o(1)] o(2) nz, of fd] d(2)
    by (auto simp: watched_def vfs_watch_findnode_byfd_def split: option.splits)
qed

definition new_watch :: "int \<Rightarrow> string \<Rightarrow> vfs_watch" where
  "new_watch wd path =
     \<lparr>wt_mask = IN_CLOSE_WRITE OR IN_MOVED_TO OR IN_MOVED_FROM OR IN_DELETE OR IN_DELETE_SELF, wt_fd = wd, wt_path = path\<rparr>"

lemma vfs_watch_add_ok:
  fixes s :: "('q, 'a) vfst_scheme"
  assumes i: "watch_inv s n xs m ys ns hs ws" and room: "obj_room e e' sizeof_vfs_watch n xs m ys"
  shows "0 < wd \<Longrightarrow> \<exists>wh s' k xs' ys'. vfs_watch_add e e' wd path s = Some (wh, s') \<and>
      watch_inv s' n xs' m ys' (ns @ [k]) (hs @ [wh]) (ws @ [new_watch wd path]) \<and> wh \<notin> used_elems ys \<and>
      used_elems ys' = insert wh (used_elems ys) \<and> used_elems xs' = insert k (used_elems xs) \<and> k \<notin> used_elems xs \<and>
      pk_list s' = pk_list s \<and> db_conn s' = db_conn s \<and> db_locked s' = db_locked s"
    "wd \<le> 0 \<Longrightarrow> \<exists>s' ys'. vfs_watch_add e e' wd path s = Some (NULL, s') \<and> watch_inv s' n xs m ys' ns hs ws \<and>
      used_elems ys' = used_elems ys"
proof -
  have o: "obj_list s (vfs_watch_list s) (vfs_watch_heap s) sizeof_vfs_watch n xs m ys ns hs" and w: "map (vfs_watches s) hs = map Some ws"
    using i by (simp_all add: watch_inv_def)
  obtain t s1 ys' where t: "blockheap_alloc (fst e) (snd e) (vfs_watch_heap s) s = Some (t, s1)"
      "obj_list s1 (vfs_watch_list s) (vfs_watch_heap s) sizeof_vfs_watch n xs m ys' ns hs"
      "t \<noteq> NULL" "t \<notin> used_elems ys" "used_elems ys' = insert t (used_elems ys)" "bstate.more s1 = bstate.more s"
      "pool_area sizeof_vfs_watch m ys' = pool_area sizeof_vfs_watch m ys \<union> grow_area sizeof_vfs_watch m ys (snd e)"
      "fst ` set ys' = fst ` set ys \<union> grow_block ys (fst e)"
    using obj_alloc[OF o room] by (elim exE conjE) (rule that)
  have f1: "vfs_watch_heap s1 = vfs_watch_heap s" "vfs_watch_list s1 = vfs_watch_list s" "vfs_watches s1 = vfs_watches s"
      "pk_list s1 = pk_list s" "db_conn s1 = db_conn s" "db_locked s1 = db_locked s"
    using t(6) by (cases s, cases s1, simp)+
  have th: "t \<notin> set hs" using o t(4) by (auto simp: obj_list_def)
  define s2 where "s2 = s1\<lparr>vfs_watches := (vfs_watches s)(t \<mapsto> new_watch wd path)\<rparr>"
  have o2: "obj_list s2 (vfs_watch_list s) (vfs_watch_heap s) sizeof_vfs_watch n xs m ys' ns hs"
    unfolding s2_def by (rule obj_list_more[OF t(2)]) (simp_all add: cframe_def)
  have f2: "vfs_watch_heap s2 = vfs_watch_heap s" "vfs_watch_list s2 = vfs_watch_list s" "vfs_watches s2 = (vfs_watches s)(t \<mapsto> new_watch wd path)"
    using f1 by (simp_all add: s2_def)
  have w2: "map (vfs_watches s2) hs = map Some ws" using w th f2(3) by (auto simp: map_fun_upd)
  have run: "vfs_watch_add e e' wd path s = (if wd \<le> 0 then do {
         (_, s) \<leftarrow> blockheap_free (vfs_watch_heap s) t s2;
         Some (NULL, s\<lparr>vfs_watches := (vfs_watches s)(t := None)\<rparr>) }
       else do {
         (s, l) \<leftarrow> dlink_add_tail_alloc (fst e') (snd e') t s2 (vfs_watch_list s);
         Some (t, s\<lparr>vfs_watch_list := l\<rparr>) })"
    using t(1,3) f1 by (simp add: vfs_watch_add_def s2_def new_watch_def)
  show "\<exists>s' ys'. vfs_watch_add e e' wd path s = Some (NULL, s') \<and> watch_inv s' n xs m ys' ns hs ws \<and> used_elems ys' = used_elems ys"
    if wd: "wd \<le> 0"
  proof -
    obtain s3 zs where f: "blockheap_free (vfs_watch_heap s) t s2 = Some (0, s3)"
        "obj_list s3 (vfs_watch_list s) (vfs_watch_heap s) sizeof_vfs_watch n xs m zs ns hs" "used_elems zs = used_elems ys' - {t}"
        "bstate.more s3 = bstate.more s2"
      using obj_free[OF o2 _ th] t(5) by auto
    let ?s = "s3\<lparr>vfs_watches := (vfs_watches s3)(t := None)\<rparr>"
    have f3: "vfs_watch_heap s3 = vfs_watch_heap s" "vfs_watch_list s3 = vfs_watch_list s" "vfs_watches s3 = vfs_watches s2"
      using f(4) f2(1,2) by (cases s2, cases s3, simp)+
    have "obj_list ?s (vfs_watch_list s) (vfs_watch_heap s) sizeof_vfs_watch n xs m zs ns hs"
      by (rule obj_list_more[OF f(2)]) (simp_all add: cframe_def)
    moreover have "map ((vfs_watches s3)(t := None)) hs = map Some ws" using w2 f3(3) th by simp
    ultimately have "watch_inv ?s n xs m zs ns hs ws" using f3 by (simp add: watch_inv_def)
    moreover have "vfs_watch_add e e' wd path s = Some (NULL, ?s)" using run wd f(1) by simp
    ultimately show ?thesis using f(3) t(4,5) by (intro exI[of _ ?s] exI[of _ zs]) simp
  qed
  show "\<exists>wh s' k xs' ys'. vfs_watch_add e e' wd path s = Some (wh, s') \<and>
      watch_inv s' n xs' m ys' (ns @ [k]) (hs @ [wh]) (ws @ [new_watch wd path]) \<and> wh \<notin> used_elems ys \<and>
      used_elems ys' = insert wh (used_elems ys) \<and> used_elems xs' = insert k (used_elems xs) \<and> k \<notin> used_elems xs \<and>
      pk_list s' = pk_list s \<and> db_conn s' = db_conn s \<and> db_locked s' = db_locked s"
    if wd: "0 < wd"
  proof -
    have r: "total_free xs = 0 \<longrightarrow> fresh_block (fst e') (snd e') sizeof_dlink_node n xs"
        "(pool_area sizeof_dlink_node n xs \<union> grow_area sizeof_dlink_node n xs (snd e')) \<inter> pool_area sizeof_vfs_watch m ys' = {}"
        "(fst ` set xs \<union> grow_block xs (fst e')) \<inter> fst ` set ys' = {}"
      using room unfolding obj_room_def t(7,8) by blast+
    have tu: "t \<in> used_elems ys'" using t(5) by simp
    obtain k s3 l xs' where a: "dlink_add_tail_alloc (fst e') (snd e') t s2 (vfs_watch_list s) = Some (s3, l)"
        "obj_list s3 l (vfs_watch_heap s) sizeof_vfs_watch n xs' m ys' (ns @ [k]) (hs @ [t])"
        "used_elems xs' = insert k (used_elems xs)" "k \<notin> used_elems xs" "lstate.more s3 = lstate.more s2"
      using obj_add[OF o2 tu th r] by (elim exE conjE) (rule that)
    have f3: "vfs_watch_heap s3 = vfs_watch_heap s2" "vfs_watches s3 = vfs_watches s2"
        "pk_list s3 = pk_list s2" "db_conn s3 = db_conn s2" "db_locked s3 = db_locked s2"
      using a(5) by (cases s2, cases s3, simp)+
    let ?s = "s3\<lparr>vfs_watch_list := l\<rparr>"
    have "obj_list ?s l (vfs_watch_heap s) sizeof_vfs_watch n xs' m ys' (ns @ [k]) (hs @ [t])"
      by (rule obj_list_more[OF a(2)]) (simp_all add: cframe_def)
    then have "watch_inv ?s n xs' m ys' (ns @ [k]) (hs @ [t]) (ws @ [new_watch wd path])"
      using f3(1,2) w2 f2(1,3) by (simp add: watch_inv_def)
    moreover have "vfs_watch_add e e' wd path s = Some (t, ?s)" using run wd a(1) by simp
    ultimately show ?thesis using t(4,5) a(3,4) f1(4-6) f3(3-5) s2_def
      by (intro exI[of _ t] exI[of _ ?s] exI[of _ k] exI[of _ xs'] exI[of _ ys']) simp
  qed
qed

lemma vfs_watch_remove_ok:
  fixes s :: "('q, 'a) vfst_scheme"
  assumes i: "watch_inv s n xs m ys (as @ q # bs) (hs1 @ p # hs2) (ws1 @ w # ws2)"
    and len: "length as = length hs1" "length ws1 = length hs1"
  shows "\<exists>s' ys'. vfs_watch_remove rv p s = Some (rv, s') \<and> watch_inv s' n xs m ys' (as @ bs) (hs1 @ hs2) (ws1 @ ws2) \<and>
    used_elems ys' = used_elems ys - {p}"
proof -
  have o: "obj_list s (vfs_watch_list s) (vfs_watch_heap s) sizeof_vfs_watch n xs m ys (as @ q # bs) (hs1 @ p # hs2)"
    and w: "map (vfs_watches s) (hs1 @ p # hs2) = map Some (ws1 @ w # ws2)"
    using i by (simp_all add: watch_inv_def)
  have wp: "vfs_watches s p = Some w" "map (vfs_watches s) (hs1 @ hs2) = map Some (ws1 @ ws2)"
    using w len(2) by (simp_all add: append_eq_append_conv)
  have hd: "p \<notin> set (hs1 @ hs2)" using o by (simp add: obj_list_def)
  have pn: "p \<noteq> NULL" "p \<in> used_elems ys" using obj_ptr[OF o, of p] by simp_all
  obtain nds l where d: "dlink_delete q (b_nodes s) (vfs_watch_list s) = Some (nds, l)" "nds q = b_nodes s q"
      "obj_list (s\<lparr>b_nodes := nds\<rparr>) l (vfs_watch_heap s) sizeof_vfs_watch n xs m ys (as @ bs) (hs1 @ hs2)"
    using obj_unlink[OF o len(1)] by blast
  have q: "q \<noteq> NULL" using dlist_split_nodes(1)[OF obj_nodes(1)[OF o]] .
  obtain nq where nq: "b_nodes s q = Some nq" "nd_data nq = p"
    using obj_nodes(2)[OF o] len by (auto simp: node_data_def)
  let ?s2 = "s\<lparr>b_nodes := nds, vfs_watch_list := l\<rparr>"
  have "obj_list ?s2 l (vfs_watch_heap s) sizeof_vfs_watch n xs m ys (as @ bs) (hs1 @ hs2)"
    by (rule obj_list_more[OF d(3)]) (simp_all add: cframe_def)
  from obj_free[OF this pn(2) hd] obtain s3 ys' where f: "blockheap_free (vfs_watch_heap s) p ?s2 = Some (0, s3)"
      "obj_list s3 l (vfs_watch_heap s) sizeof_vfs_watch n xs m ys' (as @ bs) (hs1 @ hs2)"
      "used_elems ys' = used_elems ys - {p}" "bstate.more s3 = bstate.more ?s2"
    by blast
  let ?s' = "s3\<lparr>vfs_watches := (vfs_watches s3)(p := None)\<rparr>"
  have f3: "vfs_watch_heap s3 = vfs_watch_heap s" "vfs_watch_list s3 = l" "vfs_watches s3 = vfs_watches s"
    using f(4) by (cases s, cases s3, simp)+
  have "obj_list ?s' l (vfs_watch_heap s) sizeof_vfs_watch n xs m ys' (as @ bs) (hs1 @ hs2)"
    by (rule obj_list_more[OF f(2)]) (simp_all add: cframe_def)
  moreover have "map ((vfs_watches s3)(p := None)) (hs1 @ hs2) = map Some (ws1 @ ws2)" using wp(2) hd f3(3) by simp
  ultimately have "watch_inv ?s' n xs m ys' (as @ bs) (hs1 @ hs2) (ws1 @ ws2)" using f3 by (simp add: watch_inv_def)
  moreover have "vfs_watch_remove rv p s = Some (rv, ?s')"
    using pn(1) wp(1) obj_find(2)[OF o refl refl len(1)] q nq d(1,2) f(1)
    by (simp add: vfs_watch_remove_def vfs_watch_findnode_def mem_simps Let_def)
  ultimately show ?thesis using f(3) by blast
qed

section \<open>Properties\<close>


lemma evt_loop_spins:
  assumes "i < length buf" "evt_body exec w rv buf i s = Some (Again i s)"
  shows "evt_loop exec w rv buf i s = None"
proof -
  have "\<not> (i < length buf \<and> evt_body exec w rv buf i s = Some (Again i s))" if "evt_loop exec w rv buf i s = Some y" for y
    using that
  proof (rule evt_loop.raw_induct[where P = "\<lambda>exec w rv buf i s y. \<not> (i < length buf \<and> evt_body exec w rv buf i s = Some (Again i s))", rotated])
    fix lp exec w rv buf i s y
    assume "\<And>exec w rv buf i s y. lp exec w rv buf i s = Some y \<Longrightarrow> \<not> (i < length buf \<and> evt_body exec w rv buf i s = Some (Again i s))"
      and "(if i < length buf then do { f \<leftarrow> evt_body exec w rv buf i s; case f of Return s \<Rightarrow> Some s | Again j s \<Rightarrow> lp exec w rv buf j s } else Some s) = Some y"
    then show "\<not> (i < length buf \<and> evt_body exec w rv buf i s = Some (Again i s))" by auto
  qed
  with assms show ?thesis by (cases "evt_loop exec w rv buf i s") auto
qed

text \<open>
  C39.  An event for a hidden entry stops the watcher for good: the loop starts its next round at
  the same event in the same state, so the handler never returns.
\<close>

theorem vfs_inotify_hidden_spins:
  assumes "ev_fits (wd, m, c, n, k)" and "hidden n" and "length (encode (wd, m, c, n, k) @ rest) \<le> INOTIFY_BUFSIZE"
  shows "vfs_inotify_evt_get exec w rv (Some (encode (wd, m, c, n, k) @ rest)) s = None"
proof -
  let ?buf = "encode (wd, m, c, n, k) @ rest"
  have buf: "?buf = [] @ encode (wd, m, c, n, k) @ rest" by simp
  note d = decode_event[OF assms(1) buf]
  obtain n' where "n = CHR ''.'' # n'" using assms(2) by (cases n) (auto simp: hidden_def)
  then have "byte_at ?buf (0 + sizeof_inotify_event) = of_char (CHR ''.'')" using d(5) by (simp del: encode.simps)
  moreover have "\<not> INOTIFY_BUFSIZE \<le> 0 + sizeof_inotify_event" using assms(3) d(6) by (simp del: encode.simps)
  ultimately have b: "evt_body exec w rv ?buf 0 s = Some (Again 0 s)" by (simp add: evt_body_def del: encode.simps of_char_Char)
  have "0 < length ?buf" by simp
  from evt_loop_spins[OF this b] show ?thesis by (simp add: vfs_inotify_evt_get_def)
qed

text \<open>The two early returns of the loop.\<close>

lemma event_returns:
  assumes "ev_fits (wd, m, c, n, k)" and "\<not> hidden n" and "length (encode (wd, m, c, n, k) @ rest) \<le> INOTIFY_BUFSIZE"
  shows "vfs_watch_findnode_byfd (to_int32 (int wd)) s = Some NULL \<Longrightarrow>
      vfs_inotify_evt_get exec w rv (Some (encode (wd, m, c, n, k) @ rest)) s = Some s"
    and "watched s (to_int32 (int wd)) = Some dir \<Longrightarrow> c_strrchr (entry_path dir n) (CHR ''.'') = Some ext \<Longrightarrow> \<not> package_ext ext \<Longrightarrow>
      vfs_inotify_evt_get exec w rv (Some (encode (wd, m, c, n, k) @ rest)) s = Some s"
proof -
  let ?buf = "encode (wd, m, c, n, k) @ rest"
  have buf: "?buf = [] @ encode (wd, m, c, n, k) @ rest" by simp
  note d = decode_event[OF assms(1) buf, unfolded list.size]
  have h: "byte_at ?buf (0 + sizeof_inotify_event) \<noteq> of_char (CHR ''.'')"
  proof (cases n)
    case Nil
    then show ?thesis unfolding d(5) by simp
  next
    case (Cons ch n')
    then show ?thesis using assms(2) unfolding d(5) by (simp only: list.case hidden_def of_char_u8_iff list.sel) simp
  qed
  have b: "\<not> INOTIFY_BUFSIZE \<le> 0 + sizeof_inotify_event" using assms(3) d(6) by (simp del: encode.simps)
  have l: "0 < length ?buf" "ev_len ?buf 0 \<noteq> 0" using d(3) by (simp, simp del: encode.simps)
  show "vfs_inotify_evt_get exec w rv (Some ?buf) s = Some s" if "vfs_watch_findnode_byfd (to_int32 (int wd)) s = Some NULL"
  proof -
    have "evt_body exec w rv ?buf 0 s = Some (Return s)" using h b that unfolding evt_body_def d(1) by (simp del: encode.simps of_char_Char)
    then show ?thesis using l by (simp add: vfs_inotify_evt_get_def evt_loop.simps[of _ _ _ _ 0] del: encode.simps)
  qed
  show "vfs_inotify_evt_get exec w rv (Some ?buf) s = Some s"
    if x: "watched s (to_int32 (int wd)) = Some dir" "c_strrchr (entry_path dir n) (CHR ''.'') = Some ext" "\<not> package_ext ext"
  proof -
    obtain p nd t where t: "vfs_watch_findnode_byfd (to_int32 (int wd)) s = Some p" "p \<noteq> NULL" "deref (b_nodes s) p = Some nd"
        "deref (vfs_watches s) (nd_data nd) = Some t" "wt_path t = dir"
      using x(1) by (auto simp: watched_def bind_eq_Some_conv split: if_splits)
    have "evt_body exec w rv ?buf 0 s = Some (Return s)"
      using h b t x(2,3) l(2) unfolding evt_body_def d(1,4) Let_def by (simp del: encode.simps of_char_Char)
    then show ?thesis using l by (simp add: vfs_inotify_evt_get_def evt_loop.simps[of _ _ _ _ 0] del: encode.simps)
  qed
qed

text \<open>
  An event with an unknown descriptor, or about a file that is no package, discards all
  events behind it in the same batch.
\<close>

theorem vfs_inotify_drops_rest:
  assumes "ev_fits (wd, m, c, n, k)" and "\<not> hidden n" and "length (encode (wd, m, c, n, k) @ rest) \<le> INOTIFY_BUFSIZE"
    and "vfs_watch_findnode_byfd (to_int32 (int wd)) s = Some NULL \<or>
      (\<exists>dir ext. watched s (to_int32 (int wd)) = Some dir \<and> c_strrchr (entry_path dir n) (CHR ''.'') = Some ext \<and> \<not> package_ext ext)"
  shows "vfs_inotify_evt_get exec w rv (Some (encode (wd, m, c, n, k) @ rest)) s = Some s"
  using assms(4) event_returns[OF assms(1-3)] by blast

text \<open>When the kernel refuses the watch, nothing changes.\<close>

lemma vfs_watch_refused:
  assumes "watch_inv s n xs m ys ns hs ws" and "obj_room e e' sizeof_vfs_watch n xs m ys" and "wd \<le> 0"
  shows "\<exists>s' ys'. vfs_watch_add e e' wd path s = Some (NULL, s') \<and> watched s' = watched s \<and>
    watch_inv s' n xs m ys' ns hs ws \<and> used_elems ys' = used_elems ys"
proof -
  obtain s' ys' where "vfs_watch_add e e' wd path s = Some (NULL, s')" and i: "watch_inv s' n xs m ys' ns hs ws"
      and "used_elems ys' = used_elems ys"
    using vfs_watch_add_ok(2)[OF assms] by blast
  moreover have "watched s' = watched s" using watched_ok[OF i] watched_ok[OF assms(1)] by (simp add: fun_eq_iff)
  ultimately show ?thesis by blast
qed

text \<open>
  C35.  A directory added to the watch list answers to its descriptor, without disturbing the
  others; removing it restores all answers and frees its struct, but its list node stays
  allocated.
\<close>

theorem vfs_watch_add_remove:
  assumes "watch_inv s n xs m ys ns hs ws" and "obj_room e e' sizeof_vfs_watch n xs m ys" and "wd \<notin> wt_fd ` set ws" and wd: "0 < wd"
  shows "\<exists>wh k s' s'' xs' ys'. vfs_watch_add e e' wd path s = Some (wh, s') \<and> watched s' = (watched s)(wd \<mapsto> path) \<and>
      vfs_watch_remove rv wh s' = Some (rv, s'') \<and> watched s'' = watched s \<and> watch_inv s'' n xs' m ys' ns hs ws \<and>
      used_elems ys' = used_elems ys \<and> used_elems xs' = insert k (used_elems xs) \<and> k \<notin> used_elems xs"
proof -
  have w: "watched s = (\<lambda>fd. map_option wt_path (find (\<lambda>w. wt_fd w = fd) ws))" using watched_ok[OF assms(1)] by (rule ext)
  obtain wh s' k xs' ys1 where a: "vfs_watch_add e e' wd path s = Some (wh, s')"
      "watch_inv s' n xs' m ys1 (ns @ [k]) (hs @ [wh]) (ws @ [new_watch wd path])" "wh \<notin> used_elems ys"
      "used_elems ys1 = insert wh (used_elems ys)" "used_elems xs' = insert k (used_elems xs)" "k \<notin> used_elems xs"
    using vfs_watch_add_ok(1)[OF assms(1,2) wd] by blast
  have len: "length ns = length hs" "length ws = length hs"
    using assms(1) obj_nodes(3)[of s] by (auto simp: watch_inv_def dest: map_eq_imp_length_eq)
  obtain s'' ys' where r: "vfs_watch_remove rv wh s' = Some (rv, s'')" "watch_inv s'' n xs' m ys' ns hs ws"
      "used_elems ys' = used_elems ys1 - {wh}"
    using vfs_watch_remove_ok[of s' n xs' m ys1 ns k "[]" hs wh "[]" ws "new_watch wd path" "[]" rv] a(2) len by auto
  have "find (\<lambda>w. wt_fd w = fd) (ws @ [new_watch wd path]) =
      (case find (\<lambda>w. wt_fd w = fd) ws of None \<Rightarrow> if fd = wd then Some (new_watch wd path) else None | Some w \<Rightarrow> Some w)" for fd
    by (induction ws) (auto simp: new_watch_def)
  moreover have "find (\<lambda>w. wt_fd w = wd) ws = None" using assms(3) by (auto simp: find_None_iff)
  ultimately have "watched s' = (watched s)(wd \<mapsto> path)"
    unfolding w using watched_ok[OF a(2)] by (auto simp: fun_eq_iff new_watch_def split: option.splits)
  moreover have "watched s'' = watched s" unfolding w using watched_ok[OF r(2)] by (rule ext)
  ultimately show ?thesis using a r by blast
qed

subsection \<open>Witnesses\<close>

text \<open>A state with a node pool, a heap for watches, and the tables of the earlier example.\<close>

definition boot_vfst :: "(tables \<times> tables option) vfst" where
  "boot_vfst = dbst.extend (pkgst.extend boot_pkgst \<lparr>db_conn = db_conn demo_db, db_locked = False, db_stmts = 0, inode_heap = NULL, inodes = Map.empty\<rparr>)
     \<lparr>vfs_watch_heap = NULL, vfs_watch_list = empty_list, vfs_watches = Map.empty, vfs_inotify_fd = 0\<rparr>"

definition demo_vfst :: "(tables \<times> tables option) vfst" where
  "demo_vfst = the (do {
     s \<leftarrow> dlink_init 8 16 1000 2 boot_vfst;
     (h, s) \<leftarrow> blockheap_create 24 32 2000 (of_nat sizeof_vfs_watch) 2 (Some ''vfs_watch'') s;
     Some (s\<lparr>vfs_watch_heap := h\<rparr>) })"

definition demo_watching :: "(tables \<times> tables option) vfst" where
  "demo_watching = snd (the (vfs_watch_add (NULL, NULL) (NULL, NULL) 3 ''/pkg'' demo_vfst))"

definition demo_zs :: "binfo list" where
  "demo_zs = [(32, 2000, rev (slots 2000 sizeof_vfs_watch 2), [])]"

lemma demo_watch_inv:
  "watch_inv demo_vfst 2 demo_xs 2 demo_zs [] [] []" "pk_list demo_vfst = empty_list" "db_conn demo_vfst = db_conn demo_db" "\<not> db_locked demo_vfst"
proof -
  have fields: "pk_list s = empty_list" "db_conn s = db_conn demo_db" "\<not> db_locked s" "vfs_watch_list s = empty_list"
    if "lstate.more s = lstate.more boot_vfst" for s :: "(tables \<times> tables option) vfst"
    using that by (cases s, simp add: boot_vfst_def boot_pkgst_def boot_lstate_def boot_state_def dbst.defs pkgst.defs lstate.defs bstate.defs)+
  have boot: "dlist (b_nodes boot_vfst) (b_heap_lists boot_vfst) []"
    by (simp add: boot_vfst_def boot_pkgst_def boot_lstate_def boot_state_def dbst.defs pkgst.defs lstate.defs bstate.defs)
  have fr: "fresh_block 16 1000 sizeof_dlink_node (nat 2) []" "fresh_block 32 2000 sizeof_vfs_watch (nat 2) []"
    by (simp_all add: fresh_block_def stride_def sizeof_MemBlock_def sizeof_dlink_node_def sizeof_vfs_watch_def)
  have ar: "insert 8 (set []) \<inter> block_area sizeof_dlink_node (nat 2) 1000 = {}"
    by (auto simp: block_area_def in_range_def)
  have e: "(8::nat) \<noteq> NULL" "(8::nat) \<notin> set []" "(0::int) < 2" "(2::int) < 2 ^ 31" by simp_all
  obtain s1 where s1: "dlink_init 8 16 1000 2 boot_vfst = Some s1" "l_heap s1 = 8" "lstate.more s1 = lstate.more boot_vfst"
      "pool_list s1 2 demo_xs empty_list []" "dlist (b_nodes s1) (b_heap_lists s1) [8]"
    using dlink_init_ok[OF e(1,2) boot e(3,4) fr(1) ar] unfolding demo_xs_def by auto
  have z: "of_nat sizeof_vfs_watch \<noteq> (0 :: u64)" "unat (pad_elemsize (of_nat sizeof_vfs_watch)) = sizeof_vfs_watch" "0 < sizeof_vfs_watch"
    by (simp_all add: pad_elemsize_def sizeof_vfs_watch_def)
  have hb: "(24::nat) \<noteq> NULL" "(24::nat) \<notin> set [8]" "24 \<noteq> l_heap s1" using s1(2) by simp_all
  have ba: "block_area sizeof_vfs_watch 2 2000 = {2000..<14408}"
    by (auto simp: block_area_def in_range_def stride_def sizeof_MemBlock_def sizeof_vfs_watch_def)
  have ar2: "32 \<notin> fst ` set demo_xs"
      "(insert 24 (set [8]) \<union> pool_area sizeof_dlink_node 2 demo_xs) \<inter> block_area sizeof_vfs_watch (nat 2) 2000 = {}"
      "insert 24 (set [8]) \<inter> pool_area sizeof_dlink_node 2 demo_xs = {}"
    by (auto simp: demo_areas ba) (simp add: demo_xs_def)
  obtain s2 where s2: "blockheap_create 24 32 2000 (of_nat sizeof_vfs_watch) 2 (Some ''vfs_watch'') s1 = Some (24, s2)"
      "obj_list s2 empty_list 24 sizeof_vfs_watch 2 demo_xs 2 demo_zs [] []" "bstate.more s2 = bstate.more s1"
    using obj_create[OF s1(4) z e(3,4) hb s1(5) fr(2) ar2, of "Some ''vfs_watch''"] unfolding demo_zs_def by auto
  have d: "demo_vfst = s2\<lparr>vfs_watch_heap := 24\<rparr>" using s1(1) s2(1) by (simp add: demo_vfst_def)
  have "obj_list demo_vfst empty_list 24 sizeof_vfs_watch 2 demo_xs 2 demo_zs [] []"
    unfolding d by (rule obj_list_more[OF s2(2)]) (simp_all add: cframe_def)
  moreover have m: "vfs_watch_list s2 = vfs_watch_list s1" "pk_list s2 = pk_list s1" "db_conn s2 = db_conn s1" "db_locked s2 = db_locked s1"
    using s2(3) by (cases s1, cases s2, simp)+
  ultimately show "watch_inv demo_vfst 2 demo_xs 2 demo_zs [] [] []" "pk_list demo_vfst = empty_list" "db_conn demo_vfst = db_conn demo_db"
    "\<not> db_locked demo_vfst"
    using fields[OF s1(3)] unfolding watch_inv_def by (simp_all add: d)
qed

lemma demo_watch_room: "obj_room (NULL, NULL) (NULL, NULL) sizeof_vfs_watch 2 demo_xs 2 demo_zs"
proof -
  have t: "total_free demo_xs \<noteq> 0" "total_free demo_zs \<noteq> 0" by (simp_all add: demo_xs_def demo_zs_def)
  have a: "pool_area sizeof_vfs_watch 2 demo_zs = {2000..<14408}"
    by (auto simp: demo_zs_def block_area_def in_range_def stride_def sizeof_MemBlock_def sizeof_vfs_watch_def)
  show ?thesis
    unfolding obj_room_def grow_area_def grow_block_def demo_areas(1) a using t by (simp add: demo_xs_def demo_zs_def)
qed

theorem vfs_watch_add_remove_witness:
  "\<exists>wh s' s''. vfs_watch_add (NULL, NULL) (NULL, NULL) 3 ''/pkg'' demo_vfst = Some (wh, s') \<and> watched s' 3 = Some ''/pkg'' \<and>
    vfs_watch_remove 0 wh s' = Some (0, s'') \<and> watched s'' 3 = watched demo_vfst 3"
proof -
  have "(3 :: int) \<notin> wt_fd ` set []" "(0 :: int) < 3" by simp_all
  from vfs_watch_add_remove[OF demo_watch_inv(1) demo_watch_room this, of "''/pkg''" 0] show ?thesis by (metis fun_upd_same)
qed

text \<open>The state that watches \<open>/pkg\<close> with descriptor 3, and a package appearing there.\<close>

lemma demo_watching_ok:
  "watched demo_watching fd = (if fd = 3 then Some ''/pkg'' else None)" "db_conn demo_watching = db_conn demo_db" "\<not> db_locked demo_watching"
  "pkg_handle_byname p demo_watching = Some NULL"
proof -
  obtain wh s' k xs' ys' where a: "vfs_watch_add (NULL, NULL) (NULL, NULL) 3 ''/pkg'' demo_vfst = Some (wh, s')"
      "watch_inv s' 2 xs' 2 ys' ([] @ [k]) ([] @ [wh]) ([] @ [new_watch 3 ''/pkg''])"
      "pk_list s' = pk_list demo_vfst" "db_conn s' = db_conn demo_vfst" "db_locked s' = db_locked demo_vfst"
  proof -
    have "(0 :: int) < 3" by simp
    from vfs_watch_add_ok(1)[OF demo_watch_inv(1) demo_watch_room this, of "''/pkg''"] show thesis by (elim exE conjE) (rule that)
  qed
  have d: "demo_watching = s'" using a(1) by (simp add: demo_watching_def)
  show "watched demo_watching fd = (if fd = 3 then Some ''/pkg'' else None)"
    unfolding d watched_ok[OF a(2)] by (simp add: new_watch_def)
  show "db_conn demo_watching = db_conn demo_db" "\<not> db_locked demo_watching" "pkg_handle_byname p demo_watching = Some NULL"
    using a(3-5) demo_watch_inv(2-4) by (simp_all add: d pkg_handle_byname_def pkg_byname_from.simps empty_list_def)
qed

definition demo_event :: inotify_ev where
  "demo_event = (3, IN_MOVED_TO, 0, ''p.xar'', 10)"

lemma demo_event_good:
  "good_event (demo_exec ''/pkg/p.xar'') id (demo_os []) (\<lambda>_. 7) (\<lambda>_. ''/pkg'') demo_watching demo_event"
proof -
  have "importable (demo_exec ''/pkg/p.xar'') id (demo_os []) (\<lambda>_. 7) demo_watching ''/pkg/p.xar''"
    by (simp add: importable_def demo_exec_laws path_fits_def demo_watching_ok(4) demo_os_def demo_unique)
  then show ?thesis
    by (simp add: good_event_def demo_event_def ev_fits_def demo_watching_ok(1) hidden_def is_package_def c_strrchr_def package_ext_def
        path_room_def below_def PATH_MAX_def creates_def IN_MOVED_TO_def to_int32_def)
qed


theorem vfs_inotify_hidden_spins_witness:
  "vfs_inotify_evt_get (demo_exec ''/pkg/p.xar'') (demo_os []) 0 (Some (encode (3, IN_MOVED_TO, 0, ''.p.xar'', 9) @ encode demo_event)) demo_watching = None"
  by (rule vfs_inotify_hidden_spins)
    (simp_all add: ev_fits_def hidden_def demo_event_def INOTIFY_BUFSIZE_def sizeof_inotify_event_def)

theorem vfs_inotify_drops_rest_witness:
  "vfs_inotify_evt_get (demo_exec ''/pkg/p.xar'') (demo_os []) 0 (Some (encode (3, IN_DELETE, 0, ''p.txt'', 10) @ encode demo_event)) demo_watching =
    Some demo_watching"
proof (rule vfs_inotify_drops_rest)
  have "watched demo_watching (to_int32 (int 3)) = Some ''/pkg''" by (simp add: demo_watching_ok to_int32_def)
  moreover have "c_strrchr (entry_path ''/pkg'' ''p.txt'') (CHR ''.'') = Some ''.txt''" "\<not> package_ext ''.txt''"
    by (simp_all add: c_strrchr_def entry_path_def PATH_MAX_def package_ext_def)
  ultimately show "vfs_watch_findnode_byfd (to_int32 (int 3)) demo_watching = Some NULL \<or>
      (\<exists>dir ext. watched demo_watching (to_int32 (int 3)) = Some dir \<and> c_strrchr (entry_path dir ''p.txt'') (CHR ''.'') = Some ext \<and> \<not> package_ext ext)"
    by blast
qed (simp_all add: ev_fits_def hidden_def demo_event_def INOTIFY_BUFSIZE_def sizeof_inotify_event_def)

end
