(* ===== verification/Fuse_Ll.thy ===== *)
theory Fuse_Ll
  imports Fs_Prelude Complex_Main
begin

text \<open>
  The request layer of the bundled FUSE library, \<open>src/fuse/fuse_lowlevel.c\<close>: a session holds
  the requests it has not answered and the interrupts it has not matched; every message of
  the kernel becomes a request, which one of the operations of the file system answers.

  A message is given as its decoded struct (\<open>fuse_in\<close>), the table of operations is a function
  from a call to a handler (None: the pointer in the table is NULL).  The two circular lists
  are sequences of requests, the messages sent are recorded in order.  The mutex of the
  session is left out: the program answers requests in one thread.
\<close>

unbundle bit_operations_syntax

section \<open>Data\<close>

record fuse_req =
  rq_unique :: u64
  rq_ctr :: int
  rq_uid :: u32
  rq_gid :: u32
  rq_pid :: u32
  rq_interrupted :: bool
  rq_u :: u64

text \<open>\<open>struct stat\<close>, times as (seconds, nanoseconds).\<close>

record stat =
  sb_ino :: u64
  sb_mode :: u32
  sb_nlink :: u64
  sb_uid :: u32
  sb_gid :: u32
  sb_rdev :: u64
  sb_size :: u64
  sb_blksize :: u64
  sb_blocks :: u64
  sb_atime :: "u64 \<times> u64"
  sb_mtime :: "u64 \<times> u64"
  sb_ctime :: "u64 \<times> u64"

definition zero_stat :: stat where
  "zero_stat = \<lparr>sb_ino = 0, sb_mode = 0, sb_nlink = 0, sb_uid = 0, sb_gid = 0, sb_rdev = 0, sb_size = 0, sb_blksize = 0,
     sb_blocks = 0, sb_atime = (0, 0), sb_mtime = (0, 0), sb_ctime = (0, 0)\<rparr>"

record fuse_attr =
  fa_ino :: u64
  fa_size :: u64
  fa_blocks :: u64
  fa_atime :: u64
  fa_mtime :: u64
  fa_ctime :: u64
  fa_atimensec :: u32
  fa_mtimensec :: u32
  fa_ctimensec :: u32
  fa_mode :: u32
  fa_nlink :: u32
  fa_uid :: u32
  fa_gid :: u32
  fa_rdev :: u32
  fa_blksize :: u32

record fuse_file_info =
  fi_flags :: u32
  fi_fh_old :: u64
  fi_writepage :: bool
  fi_direct_io :: bool
  fi_keep_cache :: bool
  fi_flush :: bool
  fi_nonseekable :: bool
  fi_fh :: u64
  fi_lock_owner :: u64

definition zero_fi :: fuse_file_info where
  "zero_fi = \<lparr>fi_flags = 0, fi_fh_old = 0, fi_writepage = False, fi_direct_io = False, fi_keep_cache = False, fi_flush = False,
     fi_nonseekable = False, fi_fh = 0, fi_lock_owner = 0\<rparr>"

record fuse_setattr_in =
  sa_valid :: u32
  sa_fh :: u64
  sa_size :: u64
  sa_atime :: u64
  sa_mtime :: u64
  sa_atimensec :: u32
  sa_mtimensec :: u32
  sa_mode :: u32
  sa_uid :: u32
  sa_gid :: u32

text \<open>Byte ranges: type, whence (0 for SEEK_SET), start, length, pid.\<close>

record fuse_file_lock =
  fl_start :: u64
  fl_end :: u64
  fl_type :: u32
  fl_pid :: u32

record flock =
  l_type :: u32
  l_start :: u64
  l_len :: u64
  l_pid :: u32

text \<open>The body of a message of the kernel.\<close>

datatype (plugins only:) fuse_in =
    IN_LOOKUP string | IN_FORGET u64 | IN_GETATTR u32 u64 | IN_SETATTR fuse_setattr_in | IN_READLINK
  | IN_SYMLINK string string | IN_MKNOD string u32 u32 | IN_MKDIR string u32 | IN_UNLINK string | IN_RMDIR string
  | IN_RENAME string u64 string | IN_LINK u64 string | IN_OPEN u32 u32 | IN_READ u64 u64 u32 u64 u32
  | IN_WRITE u64 u64 u32 u32 u64 u32 "u8 list" | IN_STATFS | IN_RELEASE u64 u32 u32 u64 | IN_FSYNC u64 u32
  | IN_SETXATTR string "u8 list" u32 u32 | IN_GETXATTR string u32 | IN_LISTXATTR u32 | IN_REMOVEXATTR string
  | IN_FLUSH u64 u64 | IN_INIT u32 u32 u32 u32 | IN_OPENDIR u32 | IN_READDIR u64 u64 u32 | IN_RELEASEDIR u64 u32
  | IN_FSYNCDIR u64 u32 | IN_GETLK u64 u64 fuse_file_lock | IN_SETLK u64 u64 fuse_file_lock | IN_SETLKW u64 u64 fuse_file_lock
  | IN_ACCESS u32 | IN_CREATE string u32 u32 | IN_INTERRUPT u64 | IN_BMAP u32 u64 | IN_IOCTL u64 u32 u32 u64 "u8 list" u32
  | IN_POLL u64 u64 u32 | IN_DESTROY | IN_OTHER nat

record fuse_in_header =
  in_unique :: u64
  in_nodeid :: u64
  in_uid :: u32
  in_gid :: u32
  in_pid :: u32

text \<open>A call of an operation of the file system, without the request and the node.\<close>

datatype (plugins only:) fuse_call =
    Op_lookup string | Op_forget u64 | Op_getattr "fuse_file_info option" | Op_setattr stat u32 "fuse_file_info option"
  | Op_access u32 | Op_readlink | Op_mknod string u32 u32 | Op_mkdir string u32 | Op_unlink string | Op_rmdir string
  | Op_symlink string string | Op_rename string u64 string | Op_link u64 string | Op_create string u32 fuse_file_info
  | Op_open fuse_file_info | Op_read u32 u64 fuse_file_info | Op_write "u8 list" u32 u64 fuse_file_info | Op_flush fuse_file_info
  | Op_release fuse_file_info | Op_fsync bool fuse_file_info | Op_opendir fuse_file_info | Op_readdir u32 u64 fuse_file_info
  | Op_releasedir fuse_file_info | Op_fsyncdir bool fuse_file_info | Op_statfs | Op_setxattr string "u8 list" u32 u32
  | Op_getxattr string u32 | Op_listxattr u32 | Op_removexattr string | Op_getlk fuse_file_info flock
  | Op_setlk fuse_file_info flock bool | Op_bmap u32 u64 | Op_ioctl u32 u64 fuse_file_info u32 "u8 list option" u32 u32
  | Op_poll fuse_file_info "u64 option" | Op_init | Op_destroy

text \<open>What a reply carries behind its header.\<close>

datatype fuse_out =
    Out_none | Out_attr u64 u32 fuse_attr nat | Out_open u64 u32 | Out_statfs u32 u32 nat
  | Out_init u32 u32 u32 u32 u32 nat

record fuse_conn_info =
  cn_proto_major :: u32
  cn_proto_minor :: u32
  cn_async_read :: u32
  cn_max_write :: u32
  cn_max_readahead :: u32
  cn_capable :: u32
  cn_want :: u32

record llst =
  ll_allow_root :: bool
  ll_atomic_o_trunc :: bool
  ll_big_writes :: bool
  ll_got_init :: bool
  ll_got_destroy :: bool
  ll_owner :: u32
  ll_conn :: fuse_conn_info
  ll_reqs :: "fuse_req mem"
  ll_list :: "ptr list"
  ll_interrupts :: "ptr list"
  ll_sent :: "(u64 \<times> int \<times> fuse_out) list"

type_synonym 's handler = "ptr \<Rightarrow> u64 \<Rightarrow> 's \<Rightarrow> 's option"
type_synonym 's fuse_ops = "fuse_call \<Rightarrow> 's handler option"

definition ENOENT :: int where "ENOENT = 2"
definition EIO :: int where "EIO = 5"
definition EBADF :: int where "EBADF = 9"
definition EAGAIN :: int where "EAGAIN = 11"
definition ENOMEM :: int where "ENOMEM = 12"
definition EACCES :: int where "EACCES = 13"
definition EROFS :: int where "EROFS = 30"
definition ERANGE :: int where "ERANGE = 34"
definition ENOSYS :: int where "ENOSYS = 38"
definition EPROTO :: int where "EPROTO = 71"
definition ENOTSUP :: int where "ENOTSUP = 95"

section \<open>Requests and replies\<close>

definition list_del_req :: "ptr \<Rightarrow> 'a llst_scheme \<Rightarrow> 'a llst_scheme" where
  "list_del_req req s = s\<lparr>ll_list := remove1 req (ll_list s), ll_interrupts := remove1 req (ll_interrupts s)\<rparr>"

definition destroy_req :: "ptr \<Rightarrow> 'a llst_scheme \<Rightarrow> 'a llst_scheme" where
  "destroy_req req s = s\<lparr>ll_reqs := (ll_reqs s)(req := None)\<rparr>"

definition free_req :: "ptr \<Rightarrow> 'a llst_scheme \<Rightarrow> 'a llst_scheme option" where
  "free_req req s = do {
     r \<leftarrow> deref (ll_reqs s) req;
     let s = list_del_req req (s\<lparr>ll_reqs := (ll_reqs s)(req \<mapsto> r\<lparr>rq_u := 0, rq_ctr := rq_ctr r - 1\<rparr>)\<rparr>);
     Some (if rq_ctr r - 1 = 0 then destroy_req req s else s) }"

text \<open>A reply to a request that is gone reads freed memory: None.\<close>

definition send_reply_iov :: "ptr \<Rightarrow> int \<Rightarrow> fuse_out \<Rightarrow> 'a llst_scheme \<Rightarrow> 'a llst_scheme option" where
  "send_reply_iov req error out s = do {
     r \<leftarrow> deref (ll_reqs s) req;
     let error = (if error \<le> - 1000 \<or> error > 0 then - ERANGE else error);
     free_req req (s\<lparr>ll_sent := ll_sent s @ [(rq_unique r, error, out)]\<rparr>) }"

definition send_reply_ok :: "ptr \<Rightarrow> fuse_out \<Rightarrow> 'a llst_scheme \<Rightarrow> 'a llst_scheme option" where
  "send_reply_ok req out s = send_reply_iov req 0 out s"

definition fuse_reply_err :: "ptr \<Rightarrow> int \<Rightarrow> 'a llst_scheme \<Rightarrow> 'a llst_scheme option" where
  "fuse_reply_err req err s = send_reply_iov req (- err) Out_none s"

text \<open>\<open>fuse_reply_none\<close> sends an empty message, which the channel drops.\<close>

definition fuse_reply_none :: "ptr \<Rightarrow> 'a llst_scheme \<Rightarrow> 'a llst_scheme option" where
  "fuse_reply_none req s = free_req req s"

text \<open>Timeouts are doubles in the code; the model computes with exact fractions.\<close>

definition calc_timeout_sec :: "rat \<Rightarrow> u64" where
  "calc_timeout_sec t = (if t > 2 ^ 64 then - 1 else if t < 0 then 0 else word_of_int \<lfloor>t\<rfloor>)"

definition calc_timeout_nsec :: "rat \<Rightarrow> u32" where
  "calc_timeout_nsec t =
     (let f = t - of_int (uint (calc_timeout_sec t)) in
      if f < 0 then 0 else if f \<ge> 999999999 / 1000000000 then 999999999 else word_of_int \<lfloor>f * 1000000000\<rfloor>)"

definition convert_stat :: "stat \<Rightarrow> fuse_attr" where
  "convert_stat st = \<lparr>fa_ino = sb_ino st, fa_size = sb_size st, fa_blocks = sb_blocks st, fa_atime = fst (sb_atime st),
     fa_mtime = fst (sb_mtime st), fa_ctime = fst (sb_ctime st), fa_atimensec = ucast (snd (sb_atime st)),
     fa_mtimensec = ucast (snd (sb_mtime st)), fa_ctimensec = ucast (snd (sb_ctime st)), fa_mode = sb_mode st,
     fa_nlink = ucast (sb_nlink st), fa_uid = sb_uid st, fa_gid = sb_gid st, fa_rdev = ucast (sb_rdev st),
     fa_blksize = ucast (sb_blksize st)\<rparr>"

definition fuse_reply_attr :: "ptr \<Rightarrow> stat \<Rightarrow> rat \<Rightarrow> 'a llst_scheme \<Rightarrow> 'a llst_scheme option" where
  "fuse_reply_attr req attr timeout s =
     send_reply_ok req (Out_attr (calc_timeout_sec timeout) (calc_timeout_nsec timeout) (convert_stat attr)
       (if cn_proto_minor (ll_conn s) < 9 then 96 else 104)) s"

definition fill_open :: "fuse_file_info \<Rightarrow> fuse_out" where
  "fill_open f = Out_open (fi_fh f)
     ((if fi_direct_io f then 1 else 0) OR (if fi_keep_cache f then 2 else 0) OR (if fi_nonseekable f then 4 else 0))"

definition fuse_reply_open :: "ptr \<Rightarrow> fuse_file_info \<Rightarrow> 'a llst_scheme \<Rightarrow> 'a llst_scheme option" where
  "fuse_reply_open req f s = send_reply_ok req (fill_open f) s"

definition fuse_reply_statfs :: "ptr \<Rightarrow> u32 \<Rightarrow> u32 \<Rightarrow> 'a llst_scheme \<Rightarrow> 'a llst_scheme option" where
  "fuse_reply_statfs req namemax bsize s =
     send_reply_ok req (Out_statfs namemax bsize (if cn_proto_minor (ll_conn s) < 4 then 48 else 80)) s"

section \<open>The operations of the kernel\<close>

text \<open>A call of an entry of the table, or what the library does when the entry is NULL.\<close>

definition call_op :: "'s fuse_ops \<Rightarrow> fuse_call \<Rightarrow> ('s \<Rightarrow> 's option) \<Rightarrow> ptr \<Rightarrow> u64 \<Rightarrow> 's \<Rightarrow> 's option" where
  "call_op ops c other req nodeid s = (case ops c of Some h \<Rightarrow> h req nodeid s | None \<Rightarrow> other s)"

definition do_lookup where
  "do_lookup ops name req nodeid s = call_op ops (Op_lookup name) (fuse_reply_err req ENOSYS) req nodeid s"

definition do_forget where
  "do_forget ops nlookup req nodeid s = call_op ops (Op_forget nlookup) (fuse_reply_none req) req nodeid s"

definition do_getattr where
  "do_getattr ops flags fh req nodeid s =
     (let fip = (if cn_proto_minor (ll_conn s) \<ge> 9 \<and> flags AND 1 \<noteq> 0
                 then Some (zero_fi\<lparr>fi_fh := fh, fi_fh_old := fh\<rparr>) else None)
      in call_op ops (Op_getattr fip) (fuse_reply_err req ENOSYS) req nodeid s)"

definition convert_attr :: "fuse_setattr_in \<Rightarrow> stat" where
  "convert_attr a = zero_stat\<lparr>sb_mode := sa_mode a, sb_uid := sa_uid a, sb_gid := sa_gid a, sb_size := sa_size a,
     sb_atime := (sa_atime a, ucast (sa_atimensec a)), sb_mtime := (sa_mtime a, ucast (sa_mtimensec a))\<rparr>"

text \<open>The handle flag (bit 6) decides about the file info; the mask keeps bits 0 to 5, 7 and 8.\<close>

definition do_setattr where
  "do_setattr ops arg req nodeid s =
     (let fi = (if sa_valid arg AND 64 \<noteq> 0 then Some (zero_fi\<lparr>fi_fh := sa_fh arg, fi_fh_old := sa_fh arg\<rparr>) else None);
          valid = (if sa_valid arg AND 64 \<noteq> 0 then sa_valid arg AND NOT 64 else sa_valid arg) AND 447
      in call_op ops (Op_setattr (convert_attr arg) valid fi) (fuse_reply_err req ENOSYS) req nodeid s)"

definition do_access where
  "do_access ops how req nodeid s = call_op ops (Op_access how) (fuse_reply_err req ENOSYS) req nodeid s"

definition do_readlink where
  "do_readlink ops req nodeid s = call_op ops Op_readlink (fuse_reply_err req ENOSYS) req nodeid s"

definition do_mknod where
  "do_mknod ops name mode rdev req nodeid s = call_op ops (Op_mknod name mode rdev) (fuse_reply_err req ENOSYS) req nodeid s"

definition do_mkdir where
  "do_mkdir ops name mode req nodeid s = call_op ops (Op_mkdir name mode) (fuse_reply_err req ENOSYS) req nodeid s"

definition do_unlink where
  "do_unlink ops name req nodeid s = call_op ops (Op_unlink name) (fuse_reply_err req ENOSYS) req nodeid s"

definition do_rmdir where
  "do_rmdir ops name req nodeid s = call_op ops (Op_rmdir name) (fuse_reply_err req ENOSYS) req nodeid s"

definition do_symlink where
  "do_symlink ops name linkname req nodeid s = call_op ops (Op_symlink linkname name) (fuse_reply_err req ENOSYS) req nodeid s"

definition do_rename where
  "do_rename ops oldname newdir newname req nodeid s =
     call_op ops (Op_rename oldname newdir newname) (fuse_reply_err req ENOSYS) req nodeid s"

text \<open>For a link the operation gets the old node first and the directory second.\<close>

definition do_link where
  "do_link ops oldnodeid name req nodeid s = call_op ops (Op_link nodeid name) (fuse_reply_err req ENOSYS) req oldnodeid s"

definition do_create where
  "do_create ops name flags mode req nodeid s =
     call_op ops (Op_create name mode (zero_fi\<lparr>fi_flags := flags\<rparr>)) (fuse_reply_err req ENOSYS) req nodeid s"

definition do_open where
  "do_open ops flags req nodeid s =
     (let fi = zero_fi\<lparr>fi_flags := flags\<rparr> in call_op ops (Op_open fi) (fuse_reply_open req fi) req nodeid s)"

definition do_read where
  "do_read ops fh offset sz lock_owner flags req nodeid s =
     (let fi = zero_fi\<lparr>fi_fh := fh, fi_fh_old := fh\<rparr>;
          fi = (if cn_proto_minor (ll_conn s) \<ge> 9 then fi\<lparr>fi_lock_owner := lock_owner, fi_flags := flags\<rparr> else fi)
      in call_op ops (Op_read sz offset fi) (fuse_reply_err req ENOSYS) req nodeid s)"

text \<open>Before protocol 7.9 the struct ends 16 bytes earlier and the data starts there.\<close>

definition do_write where
  "do_write ops fh offset sz write_flags lock_owner flags rest req nodeid s =
     (let fi = zero_fi\<lparr>fi_fh := fh, fi_fh_old := fh, fi_writepage := (write_flags AND 1 \<noteq> 0)\<rparr>;
          old = cn_proto_minor (ll_conn s) < 9;
          fi = (if old then fi else fi\<lparr>fi_lock_owner := lock_owner, fi_flags := flags\<rparr>)
      in call_op ops (Op_write (if old then rest else drop 16 rest) sz offset fi) (fuse_reply_err req ENOSYS) req nodeid s)"

definition do_flush where
  "do_flush ops fh lock_owner req nodeid s =
     (let fi = zero_fi\<lparr>fi_fh := fh, fi_fh_old := fh, fi_flush := True\<rparr>;
          fi = (if cn_proto_minor (ll_conn s) \<ge> 7 then fi\<lparr>fi_lock_owner := lock_owner\<rparr> else fi)
      in call_op ops (Op_flush fi) (fuse_reply_err req ENOSYS) req nodeid s)"

definition do_release where
  "do_release ops fh flags release_flags lock_owner req nodeid s =
     (let fi = zero_fi\<lparr>fi_flags := flags, fi_fh := fh, fi_fh_old := fh\<rparr>;
          fi = (if cn_proto_minor (ll_conn s) \<ge> 8
                then fi\<lparr>fi_flush := (release_flags AND 1 \<noteq> 0), fi_lock_owner := lock_owner\<rparr> else fi)
      in call_op ops (Op_release fi) (fuse_reply_err req 0) req nodeid s)"

definition do_fsync where
  "do_fsync ops fh fsync_flags req nodeid s =
     call_op ops (Op_fsync (fsync_flags AND 1 \<noteq> 0) (zero_fi\<lparr>fi_fh := fh, fi_fh_old := fh\<rparr>)) (fuse_reply_err req ENOSYS) req nodeid s"

definition do_opendir where
  "do_opendir ops flags req nodeid s =
     (let fi = zero_fi\<lparr>fi_flags := flags\<rparr> in call_op ops (Op_opendir fi) (fuse_reply_open req fi) req nodeid s)"

definition do_readdir where
  "do_readdir ops fh offset sz req nodeid s =
     call_op ops (Op_readdir sz offset (zero_fi\<lparr>fi_fh := fh, fi_fh_old := fh\<rparr>)) (fuse_reply_err req ENOSYS) req nodeid s"

definition do_releasedir where
  "do_releasedir ops fh flags req nodeid s =
     call_op ops (Op_releasedir (zero_fi\<lparr>fi_flags := flags, fi_fh := fh, fi_fh_old := fh\<rparr>)) (fuse_reply_err req 0) req nodeid s"

definition do_fsyncdir where
  "do_fsyncdir ops fh fsync_flags req nodeid s =
     call_op ops (Op_fsyncdir (fsync_flags AND 1 \<noteq> 0) (zero_fi\<lparr>fi_fh := fh, fi_fh_old := fh\<rparr>)) (fuse_reply_err req ENOSYS) req nodeid s"

definition do_statfs where
  "do_statfs ops req nodeid s = call_op ops Op_statfs (fuse_reply_statfs req 255 512) req nodeid s"

definition do_setxattr where
  "do_setxattr ops name val sz flags req nodeid s =
     call_op ops (Op_setxattr name val sz flags) (fuse_reply_err req ENOSYS) req nodeid s"

definition do_getxattr where
  "do_getxattr ops name sz req nodeid s = call_op ops (Op_getxattr name sz) (fuse_reply_err req ENOSYS) req nodeid s"

definition do_listxattr where
  "do_listxattr ops sz req nodeid s = call_op ops (Op_listxattr sz) (fuse_reply_err req ENOSYS) req nodeid s"

definition do_removexattr where
  "do_removexattr ops name req nodeid s = call_op ops (Op_removexattr name) (fuse_reply_err req ENOSYS) req nodeid s"

definition convert_fuse_file_lock :: "fuse_file_lock \<Rightarrow> flock" where
  "convert_fuse_file_lock fl = \<lparr>l_type = fl_type fl, l_start = fl_start fl,
     l_len = (if fl_end fl = 0x7fffffffffffffff then 0 else fl_end fl - fl_start fl + 1), l_pid = fl_pid fl\<rparr>"

definition do_getlk where
  "do_getlk ops fh owner lk req nodeid s =
     call_op ops (Op_getlk (zero_fi\<lparr>fi_fh := fh, fi_lock_owner := owner\<rparr>) (convert_fuse_file_lock lk)) (fuse_reply_err req ENOSYS) req nodeid s"

definition do_setlk_common where
  "do_setlk_common ops fh owner lk sleep req nodeid s =
     call_op ops (Op_setlk (zero_fi\<lparr>fi_fh := fh, fi_lock_owner := owner\<rparr>) (convert_fuse_file_lock lk) sleep)
       (fuse_reply_err req ENOSYS) req nodeid s"

definition do_bmap where
  "do_bmap ops blocksize block req nodeid s = call_op ops (Op_bmap blocksize block) (fuse_reply_err req ENOSYS) req nodeid s"

definition do_ioctl where
  "do_ioctl ops fh flags cmd arg input out_size req nodeid s =
     call_op ops (Op_ioctl cmd arg (zero_fi\<lparr>fi_fh := fh, fi_fh_old := fh\<rparr>) flags (if input = [] then None else Some input)
       (word_of_nat (length input)) out_size) (fuse_reply_err req ENOSYS) req nodeid s"

text \<open>\<open>mem\<close>: whether the poll handle could be allocated.\<close>

definition do_poll where
  "do_poll ops mem fh kh flags req nodeid s =
     (let fi = zero_fi\<lparr>fi_fh := fh, fi_fh_old := fh\<rparr>; notify = flags AND 1 \<noteq> 0;
          c = Op_poll fi (if notify then Some kh else None)
      in case ops c of
           None \<Rightarrow> fuse_reply_err req ENOSYS s
         | Some h \<Rightarrow> if notify \<and> \<not> mem then fuse_reply_err req ENOMEM s else h req nodeid s)"

section \<open>Interrupts\<close>

definition upd_req :: "ptr \<Rightarrow> (fuse_req \<Rightarrow> fuse_req) \<Rightarrow> 'a llst_scheme \<Rightarrow> 'a llst_scheme option" where
  "upd_req p f s = do { m \<leftarrow> upd_at p f (ll_reqs s); Some (s\<lparr>ll_reqs := m\<rparr>) }"

text \<open>
  The first request of a sequence that satisfies a test.  Every request looked at is read:
  one that is gone is an access to freed memory.
\<close>

fun scan_reqs :: "(fuse_req \<Rightarrow> bool) \<Rightarrow> fuse_req mem \<Rightarrow> ptr list \<Rightarrow> ptr option option" where
  "scan_reqs P m [] = Some None"
| "scan_reqs P m (p # ps) = do { r \<leftarrow> deref m p; if P r then Some (Some p) else scan_reqs P m ps }"

text \<open>
  \<open>find_interrupted\<close>: \<open>call\<close> runs the callback a handler registered for the request found,
  identified by the value of its function pointer.
\<close>

definition find_interrupted :: "(u64 \<Rightarrow> ptr \<Rightarrow> 'a llst_scheme \<Rightarrow> 'a llst_scheme option) \<Rightarrow> ptr \<Rightarrow> 'a llst_scheme \<Rightarrow>
    (bool \<times> 'a llst_scheme) option" where
  "find_interrupted call req s = do {
     i \<leftarrow> deref (ll_reqs s) req;
     c \<leftarrow> scan_reqs (\<lambda>r. rq_unique r = rq_u i) (ll_reqs s) (ll_list s);
     case c of
       Some p \<Rightarrow> do {
         s \<leftarrow> upd_req p (\<lambda>r. r\<lparr>rq_ctr := rq_ctr r + 1, rq_interrupted := True\<rparr>) s;
         r \<leftarrow> deref (ll_reqs s) p;
         s \<leftarrow> (if rq_u r \<noteq> 0 then call (rq_u r) p s else Some s);
         s \<leftarrow> upd_req p (\<lambda>r. r\<lparr>rq_ctr := rq_ctr r - 1\<rparr>) s;
         r \<leftarrow> deref (ll_reqs s) p;
         Some (True, if rq_ctr r = 0 then destroy_req p s else s) }
     | None \<Rightarrow> do {
         d \<leftarrow> scan_reqs (\<lambda>r. rq_u r = rq_u i) (ll_reqs s) (ll_interrupts s);
         Some (d \<noteq> None, s) } }"

definition do_interrupt where
  "do_interrupt call unique req s = do {
     s \<leftarrow> upd_req req (\<lambda>r. r\<lparr>rq_u := unique\<rparr>) s;
     (found, s) \<leftarrow> find_interrupted call req s;
     Some (if found then destroy_req req s else s\<lparr>ll_interrupts := ll_interrupts s @ [req]\<rparr>) }"

text \<open>
  \<open>check_interrupt\<close>: an interrupt waiting for this request is consumed; otherwise the oldest
  waiting one is taken off the list, to be answered.
\<close>

definition check_interrupt :: "ptr \<Rightarrow> 'a llst_scheme \<Rightarrow> (ptr option \<times> 'a llst_scheme) option" where
  "check_interrupt req s = do {
     r \<leftarrow> deref (ll_reqs s) req;
     c \<leftarrow> scan_reqs (\<lambda>i. rq_u i = rq_unique r) (ll_reqs s) (ll_interrupts s);
     case c of
       Some p \<Rightarrow> do {
         s \<leftarrow> upd_req req (\<lambda>r. r\<lparr>rq_interrupted := True\<rparr>) s;
         Some (None, destroy_req p (list_del_req p s)) }
     | None \<Rightarrow>
         (case ll_interrupts s of
            [] \<Rightarrow> Some (None, s)
          | p # _ \<Rightarrow> Some (Some p, list_del_req p s)) }"

section \<open>Start and end of a session\<close>

text \<open>Flags of the protocol and capabilities use the same bits: asynchronous reads 1, locks 2, truncating open 8, big writes 32.\<close>

definition FUSE_MIN_READ_BUFFER :: nat where
  "FUSE_MIN_READ_BUFFER = 8192"

definition negotiate :: "bool \<Rightarrow> nat \<Rightarrow> u32 \<Rightarrow> u32 \<Rightarrow> u32 \<Rightarrow> u32 \<Rightarrow> 'a llst_scheme \<Rightarrow> fuse_conn_info" where
  "negotiate locks bufsize major minor readahead flags s =
     (let c = (ll_conn s)\<lparr>cn_proto_major := major, cn_proto_minor := minor, cn_capable := 0, cn_want := 0\<rparr>;
          c = (if major > 7 \<or> major = 7 \<and> minor \<ge> 6
               then c\<lparr>cn_async_read := (if cn_async_read c \<noteq> 0 then flags AND 1 else cn_async_read c),
                      cn_max_readahead := (if readahead < cn_max_readahead c then readahead else cn_max_readahead c),
                      cn_capable := flags AND (1 OR 2 OR 8 OR 32)\<rparr>
               else c\<lparr>cn_async_read := 0, cn_max_readahead := 0\<rparr>);
          c = c\<lparr>cn_want := (if ll_atomic_o_trunc s then 8 else 0) OR (if locks then 2 else 0) OR (if ll_big_writes s then 32 else 0)\<rparr>;
          b = (if bufsize < FUSE_MIN_READ_BUFFER then FUSE_MIN_READ_BUFFER else bufsize) - 4096
      in if b < unat (cn_max_write c) then c\<lparr>cn_max_write := word_of_nat b\<rparr> else c)"

definition init_flags :: "fuse_conn_info \<Rightarrow> u32" where
  "init_flags c = (if cn_async_read c \<noteq> 0 \<or> cn_want c AND 1 \<noteq> 0 then 1 else 0) OR (if cn_want c AND 2 \<noteq> 0 then 2 else 0) OR
     (if cn_want c AND 8 \<noteq> 0 then 8 else 0) OR (if cn_want c AND 32 \<noteq> 0 then 32 else 0)"

text \<open>The operations \<open>init\<close> and \<open>destroy\<close> get neither a request nor a node.\<close>

definition do_init where
  "do_init ops bufsize major minor readahead flags req s =
     (if major < 7
      then fuse_reply_err req EPROTO (s\<lparr>ll_conn := (ll_conn s)\<lparr>cn_proto_major := major, cn_proto_minor := minor, cn_capable := 0, cn_want := 0\<rparr>\<rparr>)
      else do {
        let locks = (ops (Op_getlk zero_fi (convert_fuse_file_lock \<lparr>fl_start = 0, fl_end = 0, fl_type = 0, fl_pid = 0\<rparr>)) \<noteq> None \<and>
                     ops (Op_setlk zero_fi (convert_fuse_file_lock \<lparr>fl_start = 0, fl_end = 0, fl_type = 0, fl_pid = 0\<rparr>) False) \<noteq> None);
        s \<leftarrow> call_op ops Op_init Some NULL 0
              (s\<lparr>ll_conn := negotiate locks bufsize major minor readahead flags s, ll_got_init := True\<rparr>);
        let c = ll_conn s;
        send_reply_ok req (Out_init 7 11 (cn_max_readahead c) (init_flags c) (cn_max_write c) (if minor < 5 then 8 else 24)) s })"

definition do_destroy where
  "do_destroy ops req s = do {
     s \<leftarrow> call_op ops Op_destroy Some NULL 0 (s\<lparr>ll_got_destroy := True\<rparr>);
     send_reply_ok req Out_none s }"

definition fuse_ll_destroy :: "'a llst_scheme fuse_ops \<Rightarrow> 'a llst_scheme \<Rightarrow> 'a llst_scheme option" where
  "fuse_ll_destroy ops s = (if ll_got_init s \<and> \<not> ll_got_destroy s then call_op ops Op_destroy Some NULL 0 s else Some s)"

section \<open>A message of the kernel\<close>

text \<open>
  The entry of \<open>fuse_ll_ops\<close> for a message (None: a hole of the table or an opcode behind its
  end).  \<open>env\<close> holds the size of the channel's buffer, whether memory for a poll handle is
  there, and the callbacks for interrupts.
\<close>

type_synonym 's ll_env = "nat \<times> bool \<times> (u64 \<Rightarrow> ptr \<Rightarrow> 's \<Rightarrow> 's option)"

fun fuse_ll_op :: "'a llst_scheme ll_env \<Rightarrow> 'a llst_scheme fuse_ops \<Rightarrow> fuse_in \<Rightarrow> 'a llst_scheme handler option" where
  "fuse_ll_op (bufsize, mem, call) ops m =
     (case m of
        IN_LOOKUP n \<Rightarrow> Some (do_lookup ops n)
      | IN_FORGET n \<Rightarrow> Some (do_forget ops n)
      | IN_GETATTR fl fh \<Rightarrow> Some (do_getattr ops fl fh)
      | IN_SETATTR a \<Rightarrow> Some (do_setattr ops a)
      | IN_READLINK \<Rightarrow> Some (do_readlink ops)
      | IN_SYMLINK n l \<Rightarrow> Some (do_symlink ops n l)
      | IN_MKNOD n md rd \<Rightarrow> Some (do_mknod ops n md rd)
      | IN_MKDIR n md \<Rightarrow> Some (do_mkdir ops n md)
      | IN_UNLINK n \<Rightarrow> Some (do_unlink ops n)
      | IN_RMDIR n \<Rightarrow> Some (do_rmdir ops n)
      | IN_RENAME a d b \<Rightarrow> Some (do_rename ops a d b)
      | IN_LINK i n \<Rightarrow> Some (do_link ops i n)
      | IN_OPEN fl md \<Rightarrow> Some (do_open ops fl)
      | IN_READ fh off sz lo fl \<Rightarrow> Some (do_read ops fh off sz lo fl)
      | IN_WRITE fh off sz wfl lo fl rest \<Rightarrow> Some (do_write ops fh off sz wfl lo fl rest)
      | IN_STATFS \<Rightarrow> Some (do_statfs ops)
      | IN_RELEASE fh fl rf lo \<Rightarrow> Some (do_release ops fh fl rf lo)
      | IN_FSYNC fh fl \<Rightarrow> Some (do_fsync ops fh fl)
      | IN_SETXATTR n v sz fl \<Rightarrow> Some (do_setxattr ops n v sz fl)
      | IN_GETXATTR n sz \<Rightarrow> Some (do_getxattr ops n sz)
      | IN_LISTXATTR sz \<Rightarrow> Some (do_listxattr ops sz)
      | IN_REMOVEXATTR n \<Rightarrow> Some (do_removexattr ops n)
      | IN_FLUSH fh lo \<Rightarrow> Some (do_flush ops fh lo)
      | IN_INIT ma mi ra fl \<Rightarrow> Some (\<lambda>req _. do_init ops bufsize ma mi ra fl req)
      | IN_OPENDIR fl \<Rightarrow> Some (do_opendir ops fl)
      | IN_READDIR fh off sz \<Rightarrow> Some (do_readdir ops fh off sz)
      | IN_RELEASEDIR fh fl \<Rightarrow> Some (do_releasedir ops fh fl)
      | IN_FSYNCDIR fh fl \<Rightarrow> Some (do_fsyncdir ops fh fl)
      | IN_GETLK fh ow lk \<Rightarrow> Some (do_getlk ops fh ow lk)
      | IN_SETLK fh ow lk \<Rightarrow> Some (do_setlk_common ops fh ow lk False)
      | IN_SETLKW fh ow lk \<Rightarrow> Some (do_setlk_common ops fh ow lk True)
      | IN_ACCESS mk \<Rightarrow> Some (do_access ops mk)
      | IN_CREATE n fl md \<Rightarrow> Some (do_create ops n fl md)
      | IN_INTERRUPT u \<Rightarrow> Some (\<lambda>req _. do_interrupt call u req)
      | IN_BMAP bs b \<Rightarrow> Some (do_bmap ops bs b)
      | IN_IOCTL fh fl cmd arg inp osz \<Rightarrow> Some (do_ioctl ops fh fl cmd arg inp osz)
      | IN_POLL fh kh fl \<Rightarrow> Some (do_poll ops mem fh kh fl)
      | IN_DESTROY \<Rightarrow> Some (\<lambda>req _. do_destroy ops req)
      | IN_OTHER _ \<Rightarrow> None)"

definition is_init :: "fuse_in \<Rightarrow> bool" where
  "is_init m = (case m of IN_INIT _ _ _ _ \<Rightarrow> True | _ \<Rightarrow> False)"

definition is_interrupt :: "fuse_in \<Rightarrow> bool" where
  "is_interrupt m = (case m of IN_INTERRUPT _ \<Rightarrow> True | _ \<Rightarrow> False)"

text \<open>The operations on open files, which other users than the owner may still run.\<close>

definition any_user :: "fuse_in \<Rightarrow> bool" where
  "any_user m = (case m of IN_INIT _ _ _ _ \<Rightarrow> True | IN_READ _ _ _ _ _ \<Rightarrow> True | IN_WRITE _ _ _ _ _ _ _ \<Rightarrow> True | IN_FSYNC _ _ \<Rightarrow> True |
     IN_RELEASE _ _ _ _ \<Rightarrow> True | IN_READDIR _ _ _ \<Rightarrow> True | IN_FSYNCDIR _ _ \<Rightarrow> True | IN_RELEASEDIR _ _ \<Rightarrow> True | _ \<Rightarrow> False)"

text \<open>\<open>p\<close> is the memory of the new request (NULL: \<open>calloc\<close> failed).\<close>

definition new_req :: "fuse_in_header \<Rightarrow> fuse_req" where
  "new_req h = \<lparr>rq_unique = in_unique h, rq_ctr = 1, rq_uid = in_uid h, rq_gid = in_gid h, rq_pid = in_pid h,
     rq_interrupted = False, rq_u = 0\<rparr>"

definition fuse_ll_process :: "'a llst_scheme ll_env \<Rightarrow> 'a llst_scheme fuse_ops \<Rightarrow> ptr \<Rightarrow> fuse_in_header \<Rightarrow> fuse_in \<Rightarrow>
    'a llst_scheme \<Rightarrow> 'a llst_scheme option" where
  "fuse_ll_process env ops p h m s =
     (if p = NULL then Some s
      else do {
        let s = s\<lparr>ll_reqs := (ll_reqs s)(p \<mapsto> new_req h)\<rparr>;
        if \<not> ll_got_init s \<and> \<not> is_init m then fuse_reply_err p EIO s
        else if ll_allow_root s \<and> in_uid h \<noteq> ll_owner s \<and> in_uid h \<noteq> 0 \<and> \<not> any_user m then fuse_reply_err p EACCES s
        else (case fuse_ll_op env ops m of
                None \<Rightarrow> fuse_reply_err p ENOSYS s
              | Some f \<Rightarrow>
                  if is_interrupt m then f p (in_nodeid h) s
                  else do {
                    (intr, s) \<leftarrow> check_interrupt p s;
                    let s = s\<lparr>ll_list := ll_list s @ [p]\<rparr>;
                    s \<leftarrow> (case intr of None \<Rightarrow> Some s | Some q \<Rightarrow> fuse_reply_err q EAGAIN s);
                    f p (in_nodeid h) s }) })"

section \<open>The life of a request\<close>

text \<open>
  The requests of a session between two messages: everything answered is gone, so that only
  interrupts wait, each of them alive.
\<close>

definition ll_idle :: "'a llst_scheme \<Rightarrow> bool" where
  "ll_idle s \<longleftrightarrow> ll_list s = [] \<and> distinct (ll_interrupts s) \<and>
     (\<forall>q \<in> set (ll_interrupts s). q \<noteq> NULL \<and> (\<exists>r. ll_reqs s q = Some r \<and> rq_ctr r = 1))"

definition error_code :: "int \<Rightarrow> int" where
  "error_code e = (if e \<le> - 1000 \<or> e > 0 then - ERANGE else e)"

lemma send_reply_live:
  assumes "p \<noteq> NULL" "ll_reqs s p = Some r" "rq_ctr r = 1"
  shows "send_reply_iov p e out s = Some (s\<lparr>ll_sent := ll_sent s @ [(rq_unique r, error_code e, out)],
    ll_reqs := (ll_reqs s)(p := None), ll_list := remove1 p (ll_list s), ll_interrupts := remove1 p (ll_interrupts s)\<rparr>)"
  using assms by (simp add: send_reply_iov_def free_req_def list_del_req_def destroy_req_def error_code_def mem_simps)

lemma send_reply_gone: "ll_reqs s p = None \<Longrightarrow> send_reply_iov p e out s = None"
  by (simp add: send_reply_iov_def deref_def)

lemma scan_reqs_ok:
  assumes "\<And>q. q \<in> set qs \<Longrightarrow> q \<noteq> NULL \<and> m q \<noteq> None"
  shows "scan_reqs P m qs = Some (find (\<lambda>q. P (the (m q))) qs)"
  using assms by (induction qs) (force simp: mem_simps)+

text \<open>What becomes of the waiting interrupts when a request with the number \<open>u\<close> arrives.\<close>

definition interrupt_step :: "u64 \<Rightarrow> fuse_req mem \<Rightarrow> ptr list \<Rightarrow> (u64 \<times> int \<times> fuse_out) list \<times> ptr option" where
  "interrupt_step u m qs =
     (case find (\<lambda>q. rq_u (the (m q)) = u) qs of
        Some q \<Rightarrow> ([], Some q)
      | None \<Rightarrow> (case qs of [] \<Rightarrow> ([], None) | q # _ \<Rightarrow> ([(rq_unique (the (m q)), - EAGAIN, Out_none)], Some q)))"

text \<open>
  The contract of a table of operations: a call that is \<open>ok\<close> sends exactly one reply, and
  touches the session in no other way, nor what \<open>K\<close> observes of the rest of the state.
\<close>

definition one_reply :: "('a llst_scheme \<Rightarrow> 'k) \<Rightarrow> ptr \<Rightarrow> 'a llst_scheme \<Rightarrow> 'a llst_scheme option \<Rightarrow> bool" where
  "one_reply K p s res \<longleftrightarrow> (\<exists>e out s1. llst.truncate s1 = llst.truncate s \<and> K s1 = K s \<and> res = send_reply_iov p e out s1)"

lemma one_reply_err: "one_reply K p s (fuse_reply_err p e s)"
  by (auto simp: one_reply_def fuse_reply_err_def)

lemma one_reply_open: "one_reply K p s (fuse_reply_open p fi s)"
  by (auto simp: one_reply_def fuse_reply_open_def send_reply_ok_def)

lemma one_reply_statfs: "one_reply K p s (fuse_reply_statfs p a b s)"
  by (auto simp: one_reply_def fuse_reply_statfs_def send_reply_ok_def)

lemma truncate_fields:
  assumes "llst.truncate s1 = llst.truncate s"
  shows "ll_sent s1 = ll_sent s" "ll_reqs s1 = ll_reqs s" "ll_list s1 = ll_list s" "ll_interrupts s1 = ll_interrupts s"
    "ll_got_init s1 = ll_got_init s" "ll_conn s1 = ll_conn s"
  using assms by (cases s, cases s1, simp add: llst.defs)+

lemma ll_upd_swap:
  "s\<lparr>ll_interrupts := i, ll_list := l\<rparr> = s\<lparr>ll_list := l, ll_interrupts := i\<rparr>"
  "s\<lparr>ll_sent := t, ll_reqs := m\<rparr> = s\<lparr>ll_reqs := m, ll_sent := t\<rparr>"
  "s\<lparr>ll_interrupts := i, ll_reqs := m\<rparr> = s\<lparr>ll_reqs := m, ll_interrupts := i\<rparr>"
  "s\<lparr>ll_sent := t, ll_list := l\<rparr> = s\<lparr>ll_list := l, ll_sent := t\<rparr>"
  "s\<lparr>ll_sent := t, ll_interrupts := i\<rparr> = s\<lparr>ll_interrupts := i, ll_sent := t\<rparr>"
  "s\<lparr>ll_list := l, ll_reqs := m\<rparr> = s\<lparr>ll_reqs := m, ll_list := l\<rparr>"
  by (cases s, simp)+

lemma one_reply_sends:
  assumes "one_reply K p s res" "p \<noteq> NULL" "ll_reqs s p = Some r" "rq_ctr r = 1"
    and K: "\<And>s m l i t. K (s\<lparr>ll_reqs := m, ll_list := l, ll_interrupts := i, ll_sent := t\<rparr>) = K s"
  shows "\<exists>s' e out. res = Some s' \<and> ll_sent s' = ll_sent s @ [(rq_unique r, e, out)] \<and> ll_reqs s' = (ll_reqs s)(p := None) \<and>
    ll_list s' = remove1 p (ll_list s) \<and> ll_interrupts s' = remove1 p (ll_interrupts s) \<and> ll_got_init s' = ll_got_init s \<and> K s' = K s"
proof -
  obtain e out s1 where s1: "llst.truncate s1 = llst.truncate s" "K s1 = K s" "res = send_reply_iov p e out s1"
    using assms(1) by (auto simp: one_reply_def)
  note t = truncate_fields[OF s1(1)]
  let ?s' = "s1\<lparr>ll_reqs := (ll_reqs s)(p := None), ll_list := remove1 p (ll_list s), ll_interrupts := remove1 p (ll_interrupts s),
    ll_sent := ll_sent s @ [(rq_unique r, error_code e, out)]\<rparr>"
  have "res = Some ?s'" unfolding s1(3) using send_reply_live[of p s1 r e out] assms(2-4) t by (simp add: ll_upd_swap)
  with K s1(2) t show ?thesis by (intro exI[of _ ?s'] exI[of _ "error_code e"] exI[of _ out]) simp
qed

lemmas do_op_defs = do_lookup_def do_getattr_def do_setattr_def do_access_def do_readlink_def do_mknod_def do_mkdir_def do_unlink_def
  do_rmdir_def do_symlink_def do_rename_def do_link_def do_create_def do_open_def do_read_def do_write_def do_flush_def do_release_def
  do_fsync_def do_opendir_def do_readdir_def do_releasedir_def do_fsyncdir_def do_statfs_def do_setxattr_def do_getxattr_def
  do_listxattr_def do_removexattr_def do_getlk_def do_setlk_common_def do_bmap_def do_ioctl_def

text \<open>The messages that ask an operation for an answer.\<close>

definition ordinary :: "fuse_in \<Rightarrow> bool" where
  "ordinary m = (case m of IN_FORGET _ \<Rightarrow> False | IN_INIT _ _ _ _ \<Rightarrow> False | IN_INTERRUPT _ \<Rightarrow> False | IN_POLL _ _ _ \<Rightarrow> False |
     IN_DESTROY \<Rightarrow> False | IN_OTHER _ \<Rightarrow> False | _ \<Rightarrow> True)"

fun in_opcode :: "fuse_in \<Rightarrow> nat" where
  "in_opcode (IN_LOOKUP _) = 1" | "in_opcode (IN_FORGET _) = 2" | "in_opcode (IN_GETATTR _ _) = 3" | "in_opcode (IN_SETATTR _) = 4"
| "in_opcode IN_READLINK = 5" | "in_opcode (IN_SYMLINK _ _) = 6" | "in_opcode (IN_MKNOD _ _ _) = 8" | "in_opcode (IN_MKDIR _ _) = 9"
| "in_opcode (IN_UNLINK _) = 10" | "in_opcode (IN_RMDIR _) = 11" | "in_opcode (IN_RENAME _ _ _) = 12" | "in_opcode (IN_LINK _ _) = 13"
| "in_opcode (IN_OPEN _ _) = 14" | "in_opcode (IN_READ _ _ _ _ _) = 15" | "in_opcode (IN_WRITE _ _ _ _ _ _ _) = 16"
| "in_opcode IN_STATFS = 17" | "in_opcode (IN_RELEASE _ _ _ _) = 18" | "in_opcode (IN_FSYNC _ _) = 20"
| "in_opcode (IN_SETXATTR _ _ _ _) = 21" | "in_opcode (IN_GETXATTR _ _) = 22" | "in_opcode (IN_LISTXATTR _) = 23"
| "in_opcode (IN_REMOVEXATTR _) = 24" | "in_opcode (IN_FLUSH _ _) = 25" | "in_opcode (IN_INIT _ _ _ _) = 26"
| "in_opcode (IN_OPENDIR _) = 27" | "in_opcode (IN_READDIR _ _ _) = 28" | "in_opcode (IN_RELEASEDIR _ _) = 29"
| "in_opcode (IN_FSYNCDIR _ _) = 30" | "in_opcode (IN_GETLK _ _ _) = 31" | "in_opcode (IN_SETLK _ _ _) = 32"
| "in_opcode (IN_SETLKW _ _ _) = 33" | "in_opcode (IN_ACCESS _) = 34" | "in_opcode (IN_CREATE _ _ _) = 35"
| "in_opcode (IN_INTERRUPT _) = 36" | "in_opcode (IN_BMAP _ _) = 37" | "in_opcode IN_DESTROY = 38"
| "in_opcode (IN_IOCTL _ _ _ _ _ _) = 39" | "in_opcode (IN_POLL _ _ _) = 40" | "in_opcode (IN_OTHER n) = 41 + n"

text \<open>The opcode a call answers, and the node it is about.\<close>

fun call_opcode :: "fuse_call \<Rightarrow> nat" where
  "call_opcode (Op_lookup _) = 1" | "call_opcode (Op_forget _) = 2" | "call_opcode (Op_getattr _) = 3" | "call_opcode (Op_setattr _ _ _) = 4"
| "call_opcode Op_readlink = 5" | "call_opcode (Op_symlink _ _) = 6" | "call_opcode (Op_mknod _ _ _) = 8" | "call_opcode (Op_mkdir _ _) = 9"
| "call_opcode (Op_unlink _) = 10" | "call_opcode (Op_rmdir _) = 11" | "call_opcode (Op_rename _ _ _) = 12" | "call_opcode (Op_link _ _) = 13"
| "call_opcode (Op_open _) = 14" | "call_opcode (Op_read _ _ _) = 15" | "call_opcode (Op_write _ _ _ _) = 16" | "call_opcode Op_statfs = 17"
| "call_opcode (Op_release _) = 18" | "call_opcode (Op_fsync _ _) = 20" | "call_opcode (Op_setxattr _ _ _ _) = 21"
| "call_opcode (Op_getxattr _ _) = 22" | "call_opcode (Op_listxattr _) = 23" | "call_opcode (Op_removexattr _) = 24"
| "call_opcode (Op_flush _) = 25" | "call_opcode Op_init = 26" | "call_opcode (Op_opendir _) = 27" | "call_opcode (Op_readdir _ _ _) = 28"
| "call_opcode (Op_releasedir _) = 29" | "call_opcode (Op_fsyncdir _ _) = 30" | "call_opcode (Op_getlk _ _) = 31"
| "call_opcode (Op_setlk _ _ w) = (if w then 33 else 32)" | "call_opcode (Op_access _) = 34" | "call_opcode (Op_create _ _ _) = 35"
| "call_opcode (Op_bmap _ _) = 37" | "call_opcode Op_destroy = 38" | "call_opcode (Op_ioctl _ _ _ _ _ _ _) = 39" | "call_opcode (Op_poll _ _) = 40"

definition target :: "fuse_in \<Rightarrow> u64 \<Rightarrow> u64" where
  "target m ino = (case m of IN_LINK old _ \<Rightarrow> old | _ \<Rightarrow> ino)"

text \<open>The interrupts are dealt with and the request is entered before its operation runs.\<close>

definition interrupts_after :: "ptr list \<Rightarrow> ptr option \<Rightarrow> ptr list" where
  "interrupts_after qs tk = (case tk of None \<Rightarrow> qs | Some q \<Rightarrow> remove1 q qs)"

definition reqs_after :: "fuse_req mem \<Rightarrow> ptr option \<Rightarrow> fuse_req mem" where
  "reqs_after m tk = (case tk of None \<Rightarrow> m | Some q \<Rightarrow> m(q := None))"

lemma process_enters:
  assumes i: "ll_idle s" and g: "ll_got_init s" and p: "p \<noteq> NULL" "ll_reqs s p = None"
    and a: "\<not> (ll_allow_root s \<and> in_uid h \<noteq> ll_owner s \<and> in_uid h \<noteq> 0) \<or> any_user m"
    and m: "ordinary m" and f: "fuse_ll_op env ops m = Some f"
    and st: "interrupt_step (in_unique h) (ll_reqs s) (ll_interrupts s) = (out, taken)"
  shows "\<exists>r. rq_ctr r = 1 \<and> rq_unique r = in_unique h \<and>
    fuse_ll_process env ops p h m s = f p (in_nodeid h) (s\<lparr>ll_reqs := (reqs_after (ll_reqs s) taken)(p \<mapsto> r), ll_list := [p],
      ll_interrupts := interrupts_after (ll_interrupts s) taken, ll_sent := ll_sent s @ out\<rparr>) \<and>
    reqs_after (ll_reqs s) taken p = None \<and> p \<notin> set (interrupts_after (ll_interrupts s) taken)"
proof -
  let ?qs = "ll_interrupts s" and ?u = "in_unique h" let ?m = "(ll_reqs s)(p \<mapsto> new_req h)"
  let ?s0 = "s\<lparr>ll_reqs := ?m\<rparr>"
  have qs: "ll_list s = []" "distinct ?qs" "\<And>q. q \<in> set ?qs \<Longrightarrow> q \<noteq> NULL \<and> q \<noteq> p \<and> (\<exists>r. ll_reqs s q = Some r \<and> rq_ctr r = 1)"
    using i p(2) by (auto simp: ll_idle_def)
  have ni: "\<not> is_interrupt m" using m by (cases m) (simp_all add: ordinary_def is_interrupt_def)
  have sc: "scan_reqs (\<lambda>i. rq_u i = ?u) ?m ?qs = Some (find (\<lambda>q. rq_u (the (ll_reqs s q)) = ?u) ?qs)"
  proof -
    have "scan_reqs (\<lambda>i. rq_u i = ?u) ?m ?qs = Some (find (\<lambda>q. rq_u (the (?m q)) = ?u) ?qs)"
      by (rule scan_reqs_ok) (use qs(3) in auto)
    also have "find (\<lambda>q. rq_u (the (?m q)) = ?u) ?qs = find (\<lambda>q. rq_u (the (ll_reqs s q)) = ?u) ?qs"
      by (rule find_cong) (use qs(3) in auto)
    finally show ?thesis .
  qed
  have run: "fuse_ll_process env ops p h m s = do {
      (intr, s) \<leftarrow> check_interrupt p ?s0;
      let s = s\<lparr>ll_list := ll_list s @ [p]\<rparr>;
      s \<leftarrow> (case intr of None \<Rightarrow> Some s | Some q \<Rightarrow> fuse_reply_err q EAGAIN s);
      f p (in_nodeid h) s }"
    using p(1) g a f ni by (auto simp: fuse_ll_process_def)
  have r0: "rq_ctr (new_req h) = 1" "rq_unique (new_req h) = ?u" by (simp_all add: new_req_def)
  show ?thesis
  proof (cases "find (\<lambda>q. rq_u (the (ll_reqs s q)) = ?u) ?qs")
    case (Some q)
    then have q: "q \<in> set ?qs" by (auto simp: find_Some_iff)
    with qs(3) have qp: "q \<noteq> p" by blast
    have o: "out = []" "taken = Some q" using st Some by (simp_all add: interrupt_step_def)
    let ?r = "(new_req h)\<lparr>rq_interrupted := True\<rparr>"
    have ck: "check_interrupt p ?s0 = Some (None, s\<lparr>ll_reqs := (ll_reqs s)(p \<mapsto> ?r, q := None), ll_list := [], ll_interrupts := remove1 q ?qs\<rparr>)"
      using p(1) sc Some r0 qs(1)
      by (simp add: check_interrupt_def mem_simps upd_req_def destroy_req_def list_del_req_def)
    have "(ll_reqs s)(p \<mapsto> ?r, q := None) = (ll_reqs s)(q := None, p \<mapsto> ?r)" using qp by (simp add: fun_upd_twist)
    then show ?thesis
      using run ck o r0 qp p(2) qs(2,3) by (intro exI[of _ ?r]) (auto simp: interrupts_after_def reqs_after_def ll_upd_swap)
  next
    case None
    show ?thesis
    proof (cases ?qs)
      case Nil
      then have o: "out = []" "taken = None" using st by (simp_all add: interrupt_step_def)
      have "check_interrupt p ?s0 = Some (None, ?s0)"
        using p(1) sc None Nil r0 by (simp add: check_interrupt_def mem_simps)
      moreover have "s\<lparr>ll_reqs := ?m, ll_list := [p], ll_interrupts := ?qs, ll_sent := ll_sent s @ []\<rparr> = s\<lparr>ll_reqs := ?m, ll_list := [p]\<rparr>"
        by (cases s) simp
      ultimately show ?thesis
        unfolding run o interrupts_after_def reqs_after_def option.case
        using r0 p(2) qs(1,3) by (intro exI[of _ "new_req h"]) auto
    next
      case (Cons q qs')
      then have o: "out = [(rq_unique (the (ll_reqs s q)), - EAGAIN, Out_none)]" "taken = Some q"
        using st None by (simp_all add: interrupt_step_def)
      have q: "q \<noteq> NULL" "q \<noteq> p" "q \<notin> set qs'" using qs(2,3) Cons by auto
      obtain r where r: "ll_reqs s q = Some r" "rq_ctr r = 1" using qs(3) Cons by auto
      have "check_interrupt p ?s0 = Some (Some q, list_del_req q ?s0)"
        using p(1) sc None r0 by (simp add: check_interrupt_def mem_simps del: scan_reqs.simps) (simp add: Cons)
      then have ck: "check_interrupt p ?s0 = Some (Some q, ?s0\<lparr>ll_list := [], ll_interrupts := qs'\<rparr>)"
        using Cons qs(1) by (simp add: list_del_req_def)
      let ?s1 = "?s0\<lparr>ll_interrupts := qs', ll_list := [p]\<rparr>"
      have "fuse_reply_err q EAGAIN ?s1 = Some (?s1\<lparr>ll_sent := ll_sent s @ out, ll_reqs := ?m(q := None)\<rparr>)"
        using send_reply_live[of q ?s1 r "- EAGAIN" Out_none] q r o
        by (simp add: fuse_reply_err_def error_code_def EAGAIN_def remove1_idem)
      moreover have "?m(q := None) = (ll_reqs s)(q := None, p \<mapsto> new_req h)" using q(2) by (simp add: fun_upd_twist)
      ultimately show ?thesis
        using run ck o r0 q p(2) qs(1,3) Cons by (intro exI[of _ "new_req h"]) (auto simp: interrupts_after_def reqs_after_def ll_upd_swap)
    qed
  qed
qed

locale fuse_filesystem =
  fixes ops :: "'a llst_scheme fuse_ops"
    and ok :: "fuse_call \<Rightarrow> u64 \<Rightarrow> 'a llst_scheme \<Rightarrow> bool"
    and kept :: "'a llst_scheme \<Rightarrow> 'k"
  assumes answers: "ops c = Some h \<Longrightarrow> ok c ino s \<Longrightarrow> one_reply kept p s (h p ino s)"
    and kept_session: "kept (s\<lparr>ll_reqs := m, ll_list := l, ll_interrupts := i, ll_sent := t\<rparr>) = kept s"
    and ok_session: "ok c ino s \<Longrightarrow> ok c ino (s\<lparr>ll_reqs := m, ll_list := l, ll_interrupts := i, ll_sent := t\<rparr>)"
begin

lemma call_op_once:
  assumes "ok c ino s" "\<And>s. one_reply kept p s (other s)"
  shows "one_reply kept p s (call_op ops c other p ino s)"
  using assms answers by (auto simp: call_op_def split: option.splits)

lemma op_once:
  assumes m: "ordinary m" and k: "\<And>c. call_opcode c = in_opcode m \<Longrightarrow> ok c (target m ino) s"
  shows "\<exists>f. fuse_ll_op env ops m = Some f \<and> one_reply kept p s (f p ino s)"
proof -
  obtain bufsize mem call where env: "env = (bufsize, mem, call)" by (cases env)
  show ?thesis
    using m k unfolding env
    by (cases m)
      (auto simp: ordinary_def target_def do_op_defs Let_def intro!: call_op_once one_reply_err one_reply_open one_reply_statfs)
qed

text \<open>An ordinary message to an idle session.\<close>

lemma process_once:
  assumes i: "ll_idle s" and g: "ll_got_init s" and p: "p \<noteq> NULL" "ll_reqs s p = None"
    and a: "\<not> (ll_allow_root s \<and> in_uid h \<noteq> ll_owner s \<and> in_uid h \<noteq> 0) \<or> any_user m"
    and m: "ordinary m" and k: "\<And>c. call_opcode c = in_opcode m \<Longrightarrow> ok c (target m (in_nodeid h)) s"
    and st: "interrupt_step (in_unique h) (ll_reqs s) (ll_interrupts s) = (out, taken)"
  shows "\<exists>s' e res. fuse_ll_process env ops p h m s = Some s' \<and> ll_sent s' = ll_sent s @ out @ [(in_unique h, e, res)] \<and>
    ll_reqs s' = reqs_after (ll_reqs s) taken \<and> ll_interrupts s' = interrupts_after (ll_interrupts s) taken \<and> ll_idle s' \<and> ll_got_init s' \<and>
    kept s' = kept s"
proof -
  obtain f where f: "fuse_ll_op env ops m = Some f" using op_once[OF m k] by blast
  obtain r where r: "rq_ctr r = 1" "rq_unique r = in_unique h"
      "fuse_ll_process env ops p h m s = f p (in_nodeid h) (s\<lparr>ll_reqs := (reqs_after (ll_reqs s) taken)(p \<mapsto> r), ll_list := [p],
        ll_interrupts := interrupts_after (ll_interrupts s) taken, ll_sent := ll_sent s @ out\<rparr>)"
      "reqs_after (ll_reqs s) taken p = None" "p \<notin> set (interrupts_after (ll_interrupts s) taken)"
    using process_enters[OF i g p a m f st] by blast
  define s1 where "s1 = s\<lparr>ll_reqs := (reqs_after (ll_reqs s) taken)(p \<mapsto> r), ll_list := [p],
      ll_interrupts := interrupts_after (ll_interrupts s) taken, ll_sent := ll_sent s @ out\<rparr>"
  have "ok c (target m (in_nodeid h)) s1" if "call_opcode c = in_opcode m" for c
    unfolding s1_def by (rule ok_session[OF k[OF that]])
  then have "one_reply kept p s1 (f p (in_nodeid h) s1)" using op_once[OF m, of "in_nodeid h" s1 env p] f by auto
  moreover have "ll_reqs s1 p = Some r" by (simp add: s1_def)
  ultimately obtain s' e res where s': "f p (in_nodeid h) s1 = Some s'" "ll_sent s' = ll_sent s1 @ [(rq_unique r, e, res)]"
      "ll_reqs s' = (ll_reqs s1)(p := None)" "ll_list s' = remove1 p (ll_list s1)" "ll_interrupts s' = remove1 p (ll_interrupts s1)"
      "ll_got_init s' = ll_got_init s1" "kept s' = kept s1"
    using one_reply_sends[of kept p s1 _ r] p(1) r(1) kept_session by blast
  have ks: "kept s1 = kept s" unfolding s1_def by (rule kept_session)
  have rq: "ll_reqs s' = reqs_after (ll_reqs s) taken" using s'(3) r(4) by (auto simp: s1_def fun_upd_idem)
  have it: "ll_interrupts s' = interrupts_after (ll_interrupts s) taken" using s'(5) r(5) by (simp add: s1_def remove1_idem)
  have "ll_idle s'"
    using i s'(4) unfolding ll_idle_def rq it
    by (auto simp: s1_def interrupts_after_def reqs_after_def split: option.splits dest: notin_set_remove1)
  with s' rq it r(2,3) g ks show ?thesis
    unfolding s1_def[symmetric] by (intro exI[of _ s'] exI[of _ e] exI[of _ res]) (simp add: s1_def[THEN arg_cong, of ll_sent] s1_def[THEN arg_cong, of ll_got_init])
qed

end

end
