(* ===== verification/Fuse_Session.thy ===== *)
theory Fuse_Session
  imports Fuse_Ll
begin

text \<open>
  Sessions and channels of the bundled FUSE library: \<open>src/fuse/fuse_session.c\<close> and the channel
  to the kernel, \<open>src/fuse/fuse_kern_chan.c\<close>.

  The only session operations the program ever installs are \<open>fuse_ll_process\<close> and
  \<open>fuse_ll_destroy\<close> (\<open>exit\<close> and \<open>exited\<close> stay NULL), and the only channel operations are
  those of the kernel channel; the tables of function pointers are therefore not stored.
  The data of the session is the state of \<open>Fuse_Ll\<close>, which lives as long as the session.
  Accesses to a session or a channel that is gone are None.
\<close>

section \<open>Data\<close>

record fuse_session =
  se_exited :: bool
  se_ch :: ptr

record fuse_chan =
  ch_se :: ptr
  ch_fd :: int
  ch_bufsize :: nat

record sessst = llst +
  ss_sessions :: "fuse_session mem"
  ss_chans :: "fuse_chan mem"
  ss_fds :: "int set"

definition EINTR :: int where "EINTR = 4"
definition ENODEV :: int where "ENODEV = 19"

section \<open>Sessions\<close>

text \<open>\<open>p\<close> is the memory \<open>malloc\<close> gives (NULL: none).\<close>

definition fuse_session_new :: "ptr \<Rightarrow> 'a sessst_scheme \<Rightarrow> ptr \<times> 'a sessst_scheme" where
  "fuse_session_new p s =
     (if p = NULL then (NULL, s)
      else (p, s\<lparr>ss_sessions := (ss_sessions s)(p \<mapsto> \<lparr>se_exited = False, se_ch = NULL\<rparr>)\<rparr>))"

definition upd_session :: "ptr \<Rightarrow> (fuse_session \<Rightarrow> fuse_session) \<Rightarrow> 'a sessst_scheme \<Rightarrow> 'a sessst_scheme option" where
  "upd_session p f s = do { m \<leftarrow> upd_at p f (ss_sessions s); Some (s\<lparr>ss_sessions := m\<rparr>) }"

definition upd_chan :: "ptr \<Rightarrow> (fuse_chan \<Rightarrow> fuse_chan) \<Rightarrow> 'a sessst_scheme \<Rightarrow> 'a sessst_scheme option" where
  "upd_chan p f s = do { m \<leftarrow> upd_at p f (ss_chans s); Some (s\<lparr>ss_chans := m\<rparr>) }"

text \<open>A failed assertion aborts the process: None.\<close>

definition fuse_session_add_chan :: "ptr \<Rightarrow> ptr \<Rightarrow> 'a sessst_scheme \<Rightarrow> 'a sessst_scheme option" where
  "fuse_session_add_chan se ch s = do {
     x \<leftarrow> deref (ss_sessions s) se;
     if se_ch x \<noteq> NULL then None
     else do {
       c \<leftarrow> deref (ss_chans s) ch;
       if ch_se c \<noteq> NULL then None
       else do {
         s \<leftarrow> upd_session se (\<lambda>x. x\<lparr>se_ch := ch\<rparr>) s;
         upd_chan ch (\<lambda>c. c\<lparr>ch_se := se\<rparr>) s } } }"

definition fuse_session_remove_chan :: "ptr \<Rightarrow> 'a sessst_scheme \<Rightarrow> 'a sessst_scheme option" where
  "fuse_session_remove_chan ch s = do {
     c \<leftarrow> deref (ss_chans s) ch;
     if ch_se c = NULL then Some s
     else do {
       x \<leftarrow> deref (ss_sessions s) (ch_se c);
       if se_ch x \<noteq> ch then None
       else do {
         s \<leftarrow> upd_session (ch_se c) (\<lambda>x. x\<lparr>se_ch := NULL\<rparr>) s;
         upd_chan ch (\<lambda>c. c\<lparr>ch_se := NULL\<rparr>) s } } }"

definition fuse_session_next_chan :: "ptr \<Rightarrow> ptr \<Rightarrow> 'a sessst_scheme \<Rightarrow> ptr option" where
  "fuse_session_next_chan se ch s =
     (if ch = NULL then map_option se_ch (deref (ss_sessions s) se)
      else do { x \<leftarrow> deref (ss_sessions s) se; if ch \<noteq> se_ch x then None else Some NULL })"

definition fuse_session_process ::
  "'a sessst_scheme ll_env \<Rightarrow> 'a sessst_scheme fuse_ops \<Rightarrow> ptr \<Rightarrow> ptr \<Rightarrow> fuse_in_header \<Rightarrow> fuse_in \<Rightarrow>
   'a sessst_scheme \<Rightarrow> 'a sessst_scheme option" where
  "fuse_session_process env ops se p h m s = do {
     _ \<leftarrow> deref (ss_sessions s) se;
     fuse_ll_process env ops p h m s }"

definition fuse_session_exit :: "ptr \<Rightarrow> 'a sessst_scheme \<Rightarrow> 'a sessst_scheme option" where
  "fuse_session_exit se s = upd_session se (\<lambda>x. x\<lparr>se_exited := True\<rparr>) s"

definition fuse_session_reset :: "ptr \<Rightarrow> 'a sessst_scheme \<Rightarrow> 'a sessst_scheme option" where
  "fuse_session_reset se s = upd_session se (\<lambda>x. x\<lparr>se_exited := False\<rparr>) s"

definition fuse_session_exited :: "ptr \<Rightarrow> 'a sessst_scheme \<Rightarrow> bool option" where
  "fuse_session_exited se s = map_option se_exited (deref (ss_sessions s) se)"

section \<open>Channels\<close>

definition fuse_chan_new :: "ptr \<Rightarrow> int \<Rightarrow> nat \<Rightarrow> 'a sessst_scheme \<Rightarrow> ptr \<times> 'a sessst_scheme" where
  "fuse_chan_new p fd bufsize s =
     (if p = NULL then (NULL, s)
      else (p, s\<lparr>ss_chans := (ss_chans s)(p \<mapsto> \<lparr>ch_se = NULL, ch_fd = fd, ch_bufsize = bufsize\<rparr>)\<rparr>))"

definition fuse_chan_fd :: "ptr \<Rightarrow> 'a sessst_scheme \<Rightarrow> int option" where
  "fuse_chan_fd ch s = map_option ch_fd (deref (ss_chans s) ch)"

definition fuse_chan_bufsize :: "ptr \<Rightarrow> 'a sessst_scheme \<Rightarrow> nat option" where
  "fuse_chan_bufsize ch s = map_option ch_bufsize (deref (ss_chans s) ch)"

definition fuse_chan_session :: "ptr \<Rightarrow> 'a sessst_scheme \<Rightarrow> ptr option" where
  "fuse_chan_session ch s = map_option ch_se (deref (ss_chans s) ch)"

definition fuse_kern_chan_destroy :: "ptr \<Rightarrow> 'a sessst_scheme \<Rightarrow> 'a sessst_scheme option" where
  "fuse_kern_chan_destroy ch s = do { fd \<leftarrow> fuse_chan_fd ch s; Some (s\<lparr>ss_fds := ss_fds s - {fd}\<rparr>) }"

definition fuse_chan_destroy :: "ptr \<Rightarrow> 'a sessst_scheme \<Rightarrow> 'a sessst_scheme option" where
  "fuse_chan_destroy ch s = do {
     s \<leftarrow> fuse_session_remove_chan ch s;
     s \<leftarrow> fuse_kern_chan_destroy ch s;
     Some (s\<lparr>ss_chans := (ss_chans s)(ch := None)\<rparr>) }"

definition fuse_session_destroy :: "'a sessst_scheme fuse_ops \<Rightarrow> ptr \<Rightarrow> 'a sessst_scheme \<Rightarrow> 'a sessst_scheme option" where
  "fuse_session_destroy ops se s = do {
     _ \<leftarrow> deref (ss_sessions s) se;
     s \<leftarrow> fuse_ll_destroy ops s;
     x \<leftarrow> deref (ss_sessions s) se;
     s \<leftarrow> (if se_ch x \<noteq> NULL then fuse_chan_destroy (se_ch x) s else Some s);
     Some (s\<lparr>ss_sessions := (ss_sessions s)(se := None)\<rparr>) }"

definition MIN_BUFSIZE :: nat where
  "MIN_BUFSIZE = 0x21000"

definition fuse_kern_chan_new :: "nat \<Rightarrow> ptr \<Rightarrow> int \<Rightarrow> 'a sessst_scheme \<Rightarrow> ptr \<times> 'a sessst_scheme" where
  "fuse_kern_chan_new pagesize p fd s =
     (let bufsize = pagesize + 0x1000;
          bufsize = (if bufsize < MIN_BUFSIZE then MIN_BUFSIZE else bufsize)
      in fuse_chan_new p fd bufsize s)"

text \<open>
  The results of \<open>read\<close> on the device, one after the other: an errno, or the length of the
  message and its parts.  An interrupted read (ENOENT) is repeated; when every result given
  is ENOENT the function is still waiting: None.
\<close>

type_synonym message = "nat \<times> fuse_in_header \<times> fuse_in"

definition sizeof_fuse_in_header :: nat where
  "sizeof_fuse_in_header = 40"

fun fuse_kern_chan_receive ::
  "(int + message) list \<Rightarrow> ptr \<Rightarrow> 'a sessst_scheme \<Rightarrow> (int \<times> (fuse_in_header \<times> fuse_in) option \<times> 'a sessst_scheme) option" where
  "fuse_kern_chan_receive [] ch s = None"
| "fuse_kern_chan_receive (r # rs) ch s = do {
     se \<leftarrow> fuse_chan_session ch s;
     if se = NULL then None
     else do {
       _ \<leftarrow> fuse_chan_fd ch s;
       ex \<leftarrow> fuse_session_exited se s;
       if ex then Some (0, None, s)
       else (case r of
         Inl err \<Rightarrow>
           if err = ENOENT then fuse_kern_chan_receive rs ch s
           else if err = ENODEV then do { s \<leftarrow> fuse_session_exit se s; Some (0, None, s) }
           else Some (- err, None, s)
       | Inr (len, h, m) \<Rightarrow>
           if len < sizeof_fuse_in_header then Some (- EIO, None, s)
           else Some (int len, Some (h, m), s)) } }"

text \<open>
  \<open>fuse_chan_recv\<close> calls the operation of the channel, which is not a compatibility channel;
  \<open>fuse_chan_receive\<close> turns the two harmless errors into 0 and all others into -1.
\<close>

definition fuse_chan_recv where
  "fuse_chan_recv rs ch s = do { _ \<leftarrow> deref (ss_chans s) ch; fuse_kern_chan_receive rs ch s }"

definition fuse_chan_receive where
  "fuse_chan_receive rs ch s = do {
     (res, m, s) \<leftarrow> fuse_chan_recv rs ch s;
     Some (if res \<ge> 0 then res else if res \<noteq> - EINTR \<and> res \<noteq> - EAGAIN then -1 else 0, m, s) }"

text \<open>
  The channel's \<open>send\<close>: \<open>w\<close> is the result of \<open>writev\<close> (an errno or the number of bytes).
  Nothing is written for an empty vector.
\<close>

definition fuse_kern_chan_send :: "int + nat \<Rightarrow> bool \<Rightarrow> ptr \<Rightarrow> 'a sessst_scheme \<Rightarrow> int option" where
  "fuse_kern_chan_send w iov ch s =
     (if iov then do {
        _ \<leftarrow> fuse_chan_fd ch s;
        case w of
          Inl err \<Rightarrow> do { se \<leftarrow> fuse_chan_session ch s; if se = NULL then None else do { _ \<leftarrow> fuse_session_exited se s; Some (- err) } }
        | Inr _ \<Rightarrow> Some 0 }
      else Some 0)"

text \<open>
  The event loop of the library, \<open>src/fuse/fuse_loop.c\<close>, is replaced by a callback of the
  program; see \<open>Vfs_Fuse\<close>.
\<close>

section \<open>A session with its channel\<close>

definition attached :: "ptr \<Rightarrow> ptr \<Rightarrow> 'a sessst_scheme \<Rightarrow> bool" where
  "attached se ch s \<longleftrightarrow> se \<noteq> NULL \<and> ch \<noteq> NULL \<and>
     (\<exists>x c. ss_sessions s se = Some x \<and> ss_chans s ch = Some c \<and> se_ch x = ch \<and> ch_se c = se)"

lemmas sess_defs = upd_session_def upd_chan_def fuse_session_exited_def fuse_session_exit_def fuse_session_reset_def
  fuse_chan_fd_def fuse_chan_session_def fuse_chan_bufsize_def

lemma fuse_session_add_chan_ok:
  assumes "se \<noteq> NULL" "ch \<noteq> NULL" "ss_sessions s se = Some x" "se_ch x = NULL" "ss_chans s ch = Some c" "ch_se c = NULL"
  shows "\<exists>s'. fuse_session_add_chan se ch s = Some s' \<and> attached se ch s' \<and>
    fuse_session_remove_chan ch s' = Some s"
proof -
  let ?s' = "s\<lparr>ss_sessions := (ss_sessions s)(se \<mapsto> x\<lparr>se_ch := ch\<rparr>), ss_chans := (ss_chans s)(ch \<mapsto> c\<lparr>ch_se := se\<rparr>)\<rparr>"
  have "fuse_session_add_chan se ch s = Some ?s'"
    using assms by (simp add: fuse_session_add_chan_def sess_defs mem_simps)
  moreover have "attached se ch ?s'" using assms by (simp add: attached_def)
  moreover have "x\<lparr>se_ch := NULL\<rparr> = x" "c\<lparr>ch_se := NULL\<rparr> = c" using assms by (cases x, simp, cases c, simp)
  then have "fuse_session_remove_chan ch ?s' = Some s"
    using assms by (simp add: fuse_session_remove_chan_def sess_defs mem_simps fun_upd_idem)
  ultimately show ?thesis by blast
qed

lemma fuse_kern_chan_receive_waits:
  assumes "attached se ch s" "ss_sessions s se = Some x" "\<not> se_exited x" "\<forall>r \<in> set qs. r = Inl ENOENT"
  shows "fuse_kern_chan_receive (qs @ rs) ch s = fuse_kern_chan_receive rs ch s"
  using assms by (induction qs) (auto simp: attached_def sess_defs mem_simps)

lemma fuse_kern_chan_receive_message:
  assumes "attached se ch s" "ss_sessions s se = Some x" "\<not> se_exited x" "\<forall>r \<in> set qs. r = Inl ENOENT" "sizeof_fuse_in_header \<le> len"
  shows "fuse_kern_chan_receive (qs @ Inr (len, h, m) # rs) ch s = Some (int len, Some (h, m), s)"
  using assms by (simp add: fuse_kern_chan_receive_waits) (auto simp: attached_def sess_defs mem_simps)

lemma fuse_kern_chan_receive_unmounted:
  assumes "attached se ch s" "ss_sessions s se = Some x" "\<not> se_exited x" "\<forall>r \<in> set qs. r = Inl ENOENT"
  shows "fuse_kern_chan_receive (qs @ Inl ENODEV # rs) ch s =
    Some (0, None, s\<lparr>ss_sessions := (ss_sessions s)(se \<mapsto> x\<lparr>se_exited := True\<rparr>)\<rparr>)"
  using assms by (simp add: fuse_kern_chan_receive_waits) (auto simp: attached_def sess_defs mem_simps ENODEV_def ENOENT_def)

text \<open>Destroying a session destroys its channel as well, and closes the device.\<close>

lemma fuse_session_destroy_ok:
  assumes a: "attached se ch s" and c: "ss_chans s ch = Some c" and d: "ops Op_destroy = None"
  shows "fuse_session_destroy ops se s = Some (s\<lparr>ss_sessions := (ss_sessions s)(se := None), ss_chans := (ss_chans s)(ch := None),
    ss_fds := ss_fds s - {ch_fd c}\<rparr>)"
  using a c d
  by (auto simp: attached_def fuse_session_destroy_def fuse_ll_destroy_def call_op_def fuse_chan_destroy_def fuse_kern_chan_destroy_def
      fuse_session_remove_chan_def sess_defs mem_simps)

end
