(* ===== verification/Vfs_Fuse.thy ===== *)
theory Vfs_Fuse
  imports Inotify Fuse_Session
begin

text \<open>
  The file system: \<open>src/vfs_fuse.c\<close> with its operations in \<open>src/vfs_pkg.h\<close> (packages) and
  \<open>src/vfs_spill.h\<close> (writes, all refused).  The state joins the session of the FUSE library
  with the database, the heaps and the lists of the program.
\<close>

unbundle bit_operations_syntax

section \<open>State\<close>

record 'q fusest = sessst +
  fu_vfs :: "'q vfst"
  vfs_handle_heap :: ptr
  vfs_fuse_sess :: ptr
  vfs_fuse_chan :: ptr

text \<open>
  What a call meets outside the program: the SQL engine, the memory offered to the inode heap
  and to the handle heap, and what the uninitialised \<open>struct stat\<close> on the stack holds.
\<close>

record 'q fuse_env =
  fe_exec :: "'q engine"
  fe_inode :: "nat \<Rightarrow> ptr \<times> ptr"
  fe_handle :: "ptr \<times> ptr"
  fe_sb :: stat

definition O_CREAT :: u32 where "O_CREAT = 64"

section \<open>Operations on packages\<close>

text \<open>\<open>%d\<close> of a 32-bit value.\<close>

definition d32 :: "u32 \<Rightarrow> string" where
  "d32 x = (if sint x < 0 then ''-'' @ nat_str (nat (- sint x)) else nat_str (nat (sint x)))"

definition sql_inode :: "u64 \<Rightarrow> string" where
  "sql_inode ino = ''SELECT * FROM files WHERE inode = '' @ d32 (ucast ino)"

text \<open>The inode a query returned (NULL: none).\<close>

definition ret_ptr :: "db_ret \<Rightarrow> ptr" where
  "ret_ptr r = (case r of Ret_inode p \<Rightarrow> p | _ \<Rightarrow> NULL)"

definition free_inode :: "ptr \<Rightarrow> 'q vfst \<Rightarrow> 'q vfst option" where
  "free_inode i v = do {
     (_, v) \<leftarrow> blockheap_free (inode_heap v) i v;
     Some (v\<lparr>inodes := (inodes v)(i := None)\<rparr>) }"

definition vfs_fuse_getattr :: "'q fuse_env \<Rightarrow> ptr \<Rightarrow> u64 \<Rightarrow> ('q, 'a) fusest_scheme \<Rightarrow> ('q, 'a) fusest_scheme option" where
  "vfs_fuse_getattr env req ino s = do {
     (r, v) \<leftarrow> db_query (fe_exec env) (fe_inode env) QUERY_INODE (sql_inode ino) (fu_vfs s);
     let i = ret_ptr r;
     (sb, v) \<leftarrow> (if i \<noteq> NULL then do {
                    d \<leftarrow> deref (inodes v) i;
                    v \<leftarrow> free_inode i v;
                    Some ((fe_sb env)\<lparr>sb_ino := ino, sb_mode := st_mode d, sb_size := word_of_int (st_size d),
                      sb_uid := st_uid d, sb_gid := st_gid d\<rparr>, v) }
                  else Some (fe_sb env, v));
     let s = s\<lparr>fu_vfs := v\<rparr>;
     if sb_ino sb \<noteq> 0 then fuse_reply_attr req sb 0 s else fuse_reply_err req ENOENT s }"

definition vfs_fuse_access where
  "vfs_fuse_access (req :: ptr) (ino :: u64) s = fuse_reply_err req 0 s"

definition vfs_fuse_readlink where
  "vfs_fuse_readlink (req :: ptr) (ino :: u64) s = fuse_reply_err req ENOSYS s"

definition vfs_fuse_opendir where
  "vfs_fuse_opendir (req :: ptr) (ino :: u64) s = fuse_reply_err req ENOENT s"

definition vfs_fuse_readdir where
  "vfs_fuse_readdir (req :: ptr) (ino :: u64) s = fuse_reply_err req ENOENT s"

definition vfs_fuse_releasedir where
  "vfs_fuse_releasedir (req :: ptr) (ino :: u64) s = fuse_reply_err req ENOENT s"

text \<open>
  The test \<open>!fi->flags & O_CREAT\<close> negates first: the value tested is 0 or 1, and bit 6 of it
  is never set.  After an error reply the function goes on and replies again.
\<close>

definition vfs_fuse_open :: "'q fuse_env \<Rightarrow> fuse_file_info \<Rightarrow> ptr \<Rightarrow> u64 \<Rightarrow> ('q, 'a) fusest_scheme \<Rightarrow> ('q, 'a) fusest_scheme option" where
  "vfs_fuse_open env fi req ino s = do {
     (fh, v) \<leftarrow> blockheap_alloc (fst (fe_handle env)) (snd (fe_handle env)) (vfs_handle_heap s) (fu_vfs s);
     let fi = fi\<lparr>fi_fh := word_of_nat fh\<rparr>;
     (r, v) \<leftarrow> db_query (fe_exec env) (fe_inode env) QUERY_INODE (sql_inode ino) v;
     let i = ret_ptr r;
     let s = s\<lparr>fu_vfs := v\<rparr>;
     s \<leftarrow> (if i = NULL
            then if (if fi_flags fi = 0 then 1 else 0) AND O_CREAT \<noteq> 0 then fuse_reply_err req ENOENT s
                 else fuse_reply_err req EROFS s
            else Some s);
     v \<leftarrow> free_inode i (fu_vfs s);
     fuse_reply_open req fi (s\<lparr>fu_vfs := v\<rparr>) }"

definition vfs_fuse_release where
  "vfs_fuse_release (req :: ptr) (ino :: u64) s = fuse_reply_err req 0 s"

definition vfs_fuse_read where
  "vfs_fuse_read (req :: ptr) (ino :: u64) s = fuse_reply_err req EBADF s"

definition vfs_fuse_statfs where
  "vfs_fuse_statfs (req :: ptr) (ino :: u64) s = fuse_reply_err req ENOSYS s"

definition vfs_fuse_getxattr where
  "vfs_fuse_getxattr (req :: ptr) (ino :: u64) s = fuse_reply_err req ENOTSUP s"

definition vfs_fuse_listxattr where
  "vfs_fuse_listxattr (req :: ptr) (ino :: u64) s = fuse_reply_err req ENOTSUP s"

definition vfs_fuse_lookup where
  "vfs_fuse_lookup (req :: ptr) (parent :: u64) s = fuse_reply_err req ENOENT s"

section \<open>Operations that write\<close>

definition vfs_fuse_setattr where
  "vfs_fuse_setattr (req :: ptr) (ino :: u64) s = fuse_reply_err req EROFS s"

definition vfs_fuse_mknod where
  "vfs_fuse_mknod (req :: ptr) (ino :: u64) s = fuse_reply_err req EROFS s"

definition vfs_fuse_mkdir where
  "vfs_fuse_mkdir (req :: ptr) (ino :: u64) s = fuse_reply_err req EROFS s"

definition vfs_fuse_symlink where
  "vfs_fuse_symlink (req :: ptr) (parent :: u64) s = fuse_reply_err req EROFS s"

definition vfs_fuse_unlink where
  "vfs_fuse_unlink (req :: ptr) (ino :: u64) s = fuse_reply_err req EROFS s"

definition vfs_fuse_rmdir where
  "vfs_fuse_rmdir (req :: ptr) (ino :: u64) s = fuse_reply_err req EROFS s"

definition vfs_fuse_rename where
  "vfs_fuse_rename (req :: ptr) (parent :: u64) s = fuse_reply_err req EROFS s"

definition vfs_fuse_link where
  "vfs_fuse_link (req :: ptr) (ino :: u64) s = fuse_reply_err req EROFS s"

definition vfs_fuse_write where
  "vfs_fuse_write (req :: ptr) (ino :: u64) s = fuse_reply_err req EROFS s"

definition vfs_fuse_setxattr where
  "vfs_fuse_setxattr (req :: ptr) (ino :: u64) s = fuse_reply_err req ENOTSUP s"

definition vfs_fuse_removexattr where
  "vfs_fuse_removexattr (req :: ptr) (ino :: u64) s = fuse_reply_err req ENOTSUP s"

definition vfs_fuse_create where
  "vfs_fuse_create (req :: ptr) (ino :: u64) s = fuse_reply_err req EROFS s"

section \<open>The table of operations\<close>

text \<open>The handlers that only reply do not get the further arguments of the call.\<close>

definition vfs_fuse_ops :: "'q fuse_env \<Rightarrow> ('q, 'a) fusest_scheme fuse_ops" where
  "vfs_fuse_ops env c =
     (case c of
        Op_lookup _ \<Rightarrow> Some vfs_fuse_lookup
      | Op_readlink \<Rightarrow> Some vfs_fuse_readlink
      | Op_open fi \<Rightarrow> Some (vfs_fuse_open env fi)
      | Op_release _ \<Rightarrow> Some vfs_fuse_release
      | Op_read _ _ _ \<Rightarrow> Some vfs_fuse_read
      | Op_getattr _ \<Rightarrow> Some (vfs_fuse_getattr env)
      | Op_access _ \<Rightarrow> Some vfs_fuse_access
      | Op_statfs \<Rightarrow> Some vfs_fuse_statfs
      | Op_getxattr _ _ \<Rightarrow> Some vfs_fuse_getxattr
      | Op_listxattr _ \<Rightarrow> Some vfs_fuse_listxattr
      | Op_opendir _ \<Rightarrow> Some vfs_fuse_opendir
      | Op_readdir _ _ _ \<Rightarrow> Some vfs_fuse_readdir
      | Op_releasedir _ \<Rightarrow> Some vfs_fuse_releasedir
      | Op_create _ _ _ \<Rightarrow> Some vfs_fuse_create
      | Op_mknod _ _ _ \<Rightarrow> Some vfs_fuse_mknod
      | Op_mkdir _ _ \<Rightarrow> Some vfs_fuse_mkdir
      | Op_symlink _ _ \<Rightarrow> Some vfs_fuse_symlink
      | Op_unlink _ \<Rightarrow> Some vfs_fuse_unlink
      | Op_rmdir _ \<Rightarrow> Some vfs_fuse_rmdir
      | Op_rename _ _ _ \<Rightarrow> Some vfs_fuse_rename
      | Op_link _ _ \<Rightarrow> Some vfs_fuse_link
      | Op_write _ _ _ _ \<Rightarrow> Some vfs_fuse_write
      | Op_setxattr _ _ _ _ \<Rightarrow> Some vfs_fuse_setxattr
      | Op_removexattr _ \<Rightarrow> Some vfs_fuse_removexattr
      | _ \<Rightarrow> None)"

section \<open>Events, end\<close>

text \<open>
  \<open>vfs_fuse_read_cb\<close>: \<open>p\<close> is the memory of the request, \<open>buf\<close> whether \<open>malloc\<close> gives the
  buffer; \<open>mem_alloc\<close> clears the buffer without a test, so that without memory the process
  crashes before the callback's own test.  \<open>env\<close> is the environment of the operation,
  \<open>le\<close> that of the library.
\<close>

definition vfs_fuse_read_cb ::
  "'q fuse_env \<Rightarrow> bool \<times> (u64 \<Rightarrow> ptr \<Rightarrow> ('q, 'a) fusest_scheme \<Rightarrow> ('q, 'a) fusest_scheme option) \<Rightarrow> bool \<Rightarrow> ptr \<Rightarrow> (int + message) list \<Rightarrow>
   ('q, 'a) fusest_scheme \<Rightarrow> ('q, 'a) fusest_scheme option" where
  "vfs_fuse_read_cb env le buf p rs s = do {
     ch \<leftarrow> fuse_session_next_chan (vfs_fuse_sess s) NULL s;
     bufsize \<leftarrow> fuse_chan_bufsize ch s;
     if \<not> buf then None
     else do {
       (res, m, s) \<leftarrow> fuse_chan_recv rs ch s;
       s \<leftarrow> (if \<not> (res = - EINTR \<or> res \<le> 0)
              then (case m of
                      Some (h, m) \<Rightarrow> fuse_session_process (bufsize, le) (vfs_fuse_ops env) (vfs_fuse_sess s) p h m s
                    | None \<Rightarrow> None)
              else Some s);
       fuse_session_reset (vfs_fuse_sess s) s } }"

text \<open>\<open>vfs_fuse_fini\<close>; the system's \<open>umount\<close> and freeing the arguments, which come last, are left out.\<close>

definition vfs_fuse_fini :: "'q fuse_env \<Rightarrow> ('q, 'a) fusest_scheme \<Rightarrow> ('q, 'a) fusest_scheme option" where
  "vfs_fuse_fini env s = do {
     s \<leftarrow> (if vfs_fuse_sess s \<noteq> NULL then fuse_session_destroy (vfs_fuse_ops env) (vfs_fuse_sess s) s else Some s);
     if vfs_fuse_chan s \<noteq> NULL then fuse_session_remove_chan (vfs_fuse_chan s) s else Some s }"

section \<open>What the operations rely on\<close>

text \<open>
  The answer of the database about an inode: no row, or one row.  \<open>inode\<close> is the primary key
  of the table, so there is never a second row.
\<close>

definition inode_answer :: "'q fuse_env \<Rightarrow> u64 \<Rightarrow> 'q vfst \<Rightarrow> cell list option option" where
  "inode_answer env ino v =
     (case db_conn v of
        None \<Rightarrow> Some None
      | Some q \<Rightarrow> (case fst (fe_exec env (take (SQL_BUFSIZE - 1) (sql_inode ino)) q) of
                    None \<Rightarrow> Some None | Some [] \<Rightarrow> Some None | Some [r] \<Rightarrow> Some (Some r) | _ \<Rightarrow> None))"

definition inode_room :: "'q fuse_env \<Rightarrow> 'q vfst \<Rightarrow> nat \<Rightarrow> binfo list \<Rightarrow> bool" where
  "inode_room env v m ys \<longleftrightarrow> pool_ok v (inode_heap v) sizeof_pkg_inode m ys \<and>
     (total_free ys = 0 \<longrightarrow> fresh_block (fst (fe_inode env 0)) (snd (fe_inode env 0)) sizeof_pkg_inode m ys)"

definition sizeof_vfs_handle :: nat where
  "sizeof_vfs_handle = 8224"

definition handle_room :: "'q fuse_env \<Rightarrow> ('q, 'a) fusest_scheme \<Rightarrow> nat \<Rightarrow> binfo list \<Rightarrow> nat \<Rightarrow> binfo list \<Rightarrow> bool" where
  "handle_room env s n xs m ys \<longleftrightarrow>
     pool_ok (fu_vfs s) (vfs_handle_heap s) sizeof_vfs_handle n xs \<and> vfs_handle_heap s \<noteq> inode_heap (fu_vfs s) \<and>
     (total_free xs = 0 \<longrightarrow> fresh_block (fst (fe_handle env)) (snd (fe_handle env)) sizeof_vfs_handle n xs) \<and>
     (pool_area sizeof_vfs_handle n xs \<union> grow_area sizeof_vfs_handle n xs (snd (fe_handle env))) \<inter> pool_area sizeof_pkg_inode m ys = {} \<and>
     (fst ` set xs \<union> grow_block xs (fst (fe_handle env))) \<inter> fst ` set ys = {}"

definition fuse_ok :: "'q fuse_env \<Rightarrow> fuse_call \<Rightarrow> u64 \<Rightarrow> ('q, 'a) fusest_scheme \<Rightarrow> bool" where
  "fuse_ok env c ino s =
     (case c of
        Op_getattr _ \<Rightarrow> (\<exists>m ys. inode_room env (fu_vfs s) m ys) \<and> inode_answer env ino (fu_vfs s) \<noteq> None
      | Op_open _ \<Rightarrow> (\<exists>n xs m ys. inode_room env (fu_vfs s) m ys \<and> handle_room env s n xs m ys) \<and>
                     (\<exists>r. inode_answer env ino (fu_vfs s) = Some (Some r))
      | _ \<Rightarrow> True)"

lemma dbst_more:
  assumes "bstate.more v1 = bstate.more (v :: 'q vfst)"
  shows "db_conn v1 = db_conn v" "inode_heap v1 = inode_heap v" "inodes v1 = inodes v" "l_heap v1 = l_heap v" "db_stmts v1 = db_stmts v"
    "db_locked v1 = db_locked v"
  using assms by (cases v, cases v1, simp)+

lemma inode_none:
  assumes "inode_answer env ino v = Some None"
  shows "\<exists>c. db_query (fe_exec env) e QUERY_INODE (sql_inode ino) v = Some (Ret_NULL, v\<lparr>db_conn := c\<rparr>)"
proof (cases "db_conn v")
  case None
  then have "v\<lparr>db_conn := None\<rparr> = v" by (cases v) simp
  with None show ?thesis by (intro exI[of _ None]) (simp add: db_query_def)
next
  case (Some q)
  obtain rs q' where x: "fe_exec env (take (SQL_BUFSIZE - 1) (sql_inode ino)) q = (rs, q')" by fastforce
  show ?thesis
    using assms Some x by (intro exI[of _ "Some q'"]) (auto simp: inode_answer_def db_query_def split: option.splits list.splits)
qed

lemma inode_found:
  assumes room: "inode_room env v m ys" and r: "inode_answer env ino v = Some (Some r)"
  shows "\<exists>p v' ys'. db_query (fe_exec env) (fe_inode env) QUERY_INODE (sql_inode ino) v = Some (Ret_inode p, v') \<and> p \<noteq> NULL \<and>
    inodes v' = (inodes v)(p \<mapsto> inode_columns r 0 zero_inode) \<and> inode_heap v' = inode_heap v \<and>
    pool_ok v' (inode_heap v) sizeof_pkg_inode m ys' \<and> p \<notin> used_elems ys \<and> used_elems ys' = insert p (used_elems ys)"
proof -
  let ?z = sizeof_pkg_inode
  obtain q q' where q: "db_conn v = Some q" "fe_exec env (take (SQL_BUFSIZE - 1) (sql_inode ino)) q = (Some [r], q')"
    using r by (cases "db_conn v") (auto simp: inode_answer_def prod_eq_iff split: option.splits list.splits intro: that)
  define v0 where "v0 = v\<lparr>db_conn := Some q'\<rparr>"
  have "pool_ok v (inode_heap v) ?z m ys" and fr: "total_free ys = 0 \<longrightarrow> fresh_block (fst (fe_inode env 0)) (snd (fe_inode env 0)) ?z m ys"
    using room by (simp_all add: inode_room_def)
  then have "pool_ok v0 (inode_heap v) ?z m ys" unfolding v0_def by (elim pool_ok_more) (simp add: cframe_def)
  from blockheap_alloc_took[OF this fr] obtain p v1 ys' where p:
      "blockheap_alloc (fst (fe_inode env 0)) (snd (fe_inode env 0)) (inode_heap v) v0 = Some (p, v1)"
      "took ?z m (inode_heap v) ys (fst (fe_inode env 0)) (snd (fe_inode env 0)) p v0 v1 ys'" "bstate.more v1 = bstate.more v0"
    by blast
  have tk: "pool_ok v1 (inode_heap v) ?z m ys'" "p \<notin> used_elems ys" "used_elems ys' = insert p (used_elems ys)"
    using p(2) by (auto simp: took_def)
  then have p0: "p \<noteq> NULL" using pool_ok_used_mapped by blast
  have m: "inodes v1 = inodes v" "inode_heap v1 = inode_heap v" using dbst_more[OF p(3)] by (simp_all add: v0_def)
  let ?v' = "v1\<lparr>inodes := (inodes v1)(p \<mapsto> inode_columns r 0 zero_inode)\<rparr>"
  have "db_query (fe_exec env) (fe_inode env) QUERY_INODE (sql_inode ino) v = Some (Ret_inode p, ?v')"
    using q p(1) p0 by (simp add: db_query_def v0_def)
  moreover have "pool_ok ?v' (inode_heap v) ?z m ys'" by (rule pool_ok_more[OF tk(1)]) (simp add: cframe_def)
  ultimately show ?thesis using p0 m tk by (intro exI[of _ p] exI[of _ ?v'] exI[of _ ys']) simp
qed

lemma free_inode_ok:
  assumes "pool_ok v (inode_heap v) z m ys" "p \<in> used_elems ys"
  shows "\<exists>v' ys'. free_inode p v = Some v' \<and> pool_ok v' (inode_heap v') z m ys' \<and> used_elems ys' = used_elems ys - {p} \<and>
    inodes v' = (inodes v)(p := None)"
proof -
  obtain v1 ys' where f: "blockheap_free (inode_heap v) p v = Some (0, v1)" "pool_ok v1 (inode_heap v) z m ys'"
      "used_elems ys' = used_elems ys - {p}" "bstate.more v1 = bstate.more v"
    using pool_ok_free[OF assms] by blast
  note m = dbst_more[OF f(4)]
  let ?v' = "v1\<lparr>inodes := (inodes v1)(p := None)\<rparr>"
  have "pool_ok ?v' (inode_heap v) z m ys'" by (rule pool_ok_more[OF f(2)]) (simp add: cframe_def)
  with f m show ?thesis by (intro exI[of _ ?v'] exI[of _ ys']) (simp add: free_inode_def)
qed

section \<open>Exactly one answer\<close>

abbreviation (input) fuse_kept :: "('q, 'a) fusest_scheme \<Rightarrow> fuse_session mem \<times> fuse_chan mem \<times> int set \<times> ptr \<times> ptr \<times> ptr" where
  "fuse_kept \<equiv> \<lambda>s. (ss_sessions s, ss_chans s, ss_fds s, vfs_fuse_sess s, vfs_fuse_chan s, vfs_handle_heap s)"

text \<open>The attributes a found inode is answered with.\<close>

definition found_stat :: "'q fuse_env \<Rightarrow> u64 \<Rightarrow> cell list \<Rightarrow> stat" where
  "found_stat env ino r =
     (let d = inode_columns r 0 zero_inode
      in (fe_sb env)\<lparr>sb_ino := ino, sb_mode := st_mode d, sb_size := word_of_int (st_size d), sb_uid := st_uid d, sb_gid := st_gid d\<rparr>)"

lemma getattr_found:
  assumes room: "inode_room env (fu_vfs s) m ys" and r: "inode_answer env ino (fu_vfs s) = Some (Some r)"
  shows "\<exists>v ys' p. vfs_fuse_getattr env req ino s =
      (if ino \<noteq> 0 then fuse_reply_attr req (found_stat env ino r) 0 else fuse_reply_err req ENOENT) (s\<lparr>fu_vfs := v\<rparr>) \<and>
    pool_ok v (inode_heap v) sizeof_pkg_inode m ys' \<and> used_elems ys' = used_elems ys \<and> p \<notin> used_elems ys \<and> inodes v = (inodes (fu_vfs s))(p := None)"
proof -
  obtain p v ys1 where q: "db_query (fe_exec env) (fe_inode env) QUERY_INODE (sql_inode ino) (fu_vfs s) = Some (Ret_inode p, v)" "p \<noteq> NULL"
      "inodes v = (inodes (fu_vfs s))(p \<mapsto> inode_columns r 0 zero_inode)" "inode_heap v = inode_heap (fu_vfs s)"
      "pool_ok v (inode_heap (fu_vfs s)) sizeof_pkg_inode m ys1" "p \<notin> used_elems ys" "used_elems ys1 = insert p (used_elems ys)"
    using inode_found[OF room r] by blast
  obtain v' ys' where f: "free_inode p v = Some v'" "pool_ok v' (inode_heap v') sizeof_pkg_inode m ys'" "used_elems ys' = used_elems ys1 - {p}"
      "inodes v' = (inodes v)(p := None)"
    using free_inode_ok[of v sizeof_pkg_inode m ys1 p] q(4,5,7) by auto
  have "vfs_fuse_getattr env req ino s =
      (if ino \<noteq> 0 then fuse_reply_attr req (found_stat env ino r) 0 else fuse_reply_err req ENOENT) (s\<lparr>fu_vfs := v'\<rparr>)"
    using q(1,2,3) f(1) by (simp add: vfs_fuse_getattr_def ret_ptr_def mem_simps found_stat_def Let_def)
  with f(2,3,4) q(3,6,7) show ?thesis by (intro exI[of _ v'] exI[of _ ys'] exI[of _ p]) auto
qed

lemma getattr_missing:
  assumes "inode_answer env ino (fu_vfs s) = Some None"
  shows "\<exists>c. vfs_fuse_getattr env req ino s =
    (let s = s\<lparr>fu_vfs := (fu_vfs s)\<lparr>db_conn := c\<rparr>\<rparr>
     in if sb_ino (fe_sb env) \<noteq> 0 then fuse_reply_attr req (fe_sb env) 0 s else fuse_reply_err req ENOENT s)"
  using inode_none[OF assms, of "fe_inode env"] by (auto simp: vfs_fuse_getattr_def ret_ptr_def)

text \<open>Opening a file that is there answers once; the handle is never given back.\<close>

lemma open_found:
  assumes room: "inode_room env (fu_vfs s) m ys" "handle_room env s n xs m ys" and r: "inode_answer env ino (fu_vfs s) = Some (Some r)"
  shows "\<exists>fh v ys'. vfs_fuse_open env fi req ino s = fuse_reply_open req (fi\<lparr>fi_fh := word_of_nat fh\<rparr>) (s\<lparr>fu_vfs := v\<rparr>) \<and>
    fh \<noteq> NULL \<and> fh \<notin> used_elems xs \<and> pool_ok v (inode_heap v) sizeof_pkg_inode m ys' \<and> used_elems ys' = used_elems ys"
proof -
  let ?z = sizeof_vfs_handle and ?v = "fu_vfs s" and ?hh = "vfs_handle_heap s"
  have hr: "pool_ok ?v ?hh ?z n xs" "?hh \<noteq> inode_heap ?v" "total_free xs = 0 \<longrightarrow> fresh_block (fst (fe_handle env)) (snd (fe_handle env)) ?z n xs"
    "(pool_area ?z n xs \<union> grow_area ?z n xs (snd (fe_handle env))) \<inter> pool_area sizeof_pkg_inode m ys = {}"
    "(fst ` set xs \<union> grow_block xs (fst (fe_handle env))) \<inter> fst ` set ys = {}"
    using room(2) by (simp_all add: handle_room_def)
  obtain fh v1 xs' where a: "blockheap_alloc (fst (fe_handle env)) (snd (fe_handle env)) ?hh ?v = Some (fh, v1)"
      "took ?z n ?hh xs (fst (fe_handle env)) (snd (fe_handle env)) fh ?v v1 xs'" "bstate.more v1 = bstate.more ?v"
    using blockheap_alloc_took[OF hr(1,3)] by blast
  have tk: "pool_ok v1 ?hh ?z n xs'" "fh \<notin> used_elems xs" "used_elems xs' = insert fh (used_elems xs)"
      "cframe (pool_area ?z n xs \<union> grow_area ?z n xs (snd (fe_handle env))) (fst ` set xs \<union> grow_block xs (fst (fe_handle env))) {?hh} ?v v1"
      "dom (b_nodes ?v) \<subseteq> dom (b_nodes v1)"
    using a(2) unfolding took_def by blast+
  have f0: "fh \<noteq> NULL" using pool_ok_used_mapped[OF tk(1)] tk(3) by blast
  note m = dbst_more[OF a(3)]
  have ir: "pool_ok ?v (inode_heap ?v) sizeof_pkg_inode m ys" using room(1) by (simp add: inode_room_def)
  have "pool_ok v1 (inode_heap ?v) sizeof_pkg_inode m ys"
    by (rule other_pool[OF ir tk(4) _ _ _ tk(5)]) (use hr(2,4,5) in auto)
  then have ir1: "inode_room env v1 m ys" using room(1) m by (simp add: inode_room_def)
  have r1: "inode_answer env ino v1 = Some (Some r)" using r m by (simp add: inode_answer_def)
  obtain p v ys1 where q: "db_query (fe_exec env) (fe_inode env) QUERY_INODE (sql_inode ino) v1 = Some (Ret_inode p, v)" "p \<noteq> NULL"
      "inode_heap v = inode_heap v1" "pool_ok v (inode_heap v1) sizeof_pkg_inode m ys1" "p \<notin> used_elems ys" "used_elems ys1 = insert p (used_elems ys)"
    using inode_found[OF ir1 r1] by blast
  obtain v' ys' where f: "free_inode p v = Some v'" "used_elems ys' = used_elems ys1 - {p}" "pool_ok v' (inode_heap v') sizeof_pkg_inode m ys'"
    using free_inode_ok[of v sizeof_pkg_inode m ys1 p] q(3,4,6) by auto
  have "vfs_fuse_open env fi req ino s = fuse_reply_open req (fi\<lparr>fi_fh := word_of_nat fh\<rparr>) (s\<lparr>fu_vfs := v'\<rparr>)"
    using a(1) q(1,2) f(1) by (simp add: vfs_fuse_open_def ret_ptr_def)
  with f0 tk(2) f(2,3) q(5,6) show ?thesis by (intro exI[of _ fh] exI[of _ v'] exI[of _ ys']) simp
qed

lemma kept_swap: "llst.truncate (s\<lparr>fu_vfs := v\<rparr>) = llst.truncate s"
  by (cases s) (simp add: llst.defs)

lemma one_reply_behind:
  "one_reply fuse_kept p (s\<lparr>fu_vfs := v\<rparr>) res \<Longrightarrow> one_reply fuse_kept p s res"
  by (auto simp: one_reply_def kept_swap)

lemma one_reply_attr: "one_reply K p s (fuse_reply_attr p sb t s)"
  by (auto simp: one_reply_def fuse_reply_attr_def send_reply_ok_def)

lemmas simple_handlers = vfs_fuse_lookup_def vfs_fuse_readlink_def vfs_fuse_release_def vfs_fuse_read_def vfs_fuse_access_def vfs_fuse_statfs_def
  vfs_fuse_getxattr_def vfs_fuse_listxattr_def vfs_fuse_opendir_def vfs_fuse_readdir_def vfs_fuse_releasedir_def vfs_fuse_create_def
  vfs_fuse_mknod_def vfs_fuse_mkdir_def vfs_fuse_symlink_def vfs_fuse_unlink_def vfs_fuse_rmdir_def vfs_fuse_rename_def vfs_fuse_link_def
  vfs_fuse_write_def vfs_fuse_setxattr_def vfs_fuse_removexattr_def vfs_fuse_setattr_def

lemma getattr_once:
  assumes "fuse_ok env (Op_getattr fi) ino s"
  shows "one_reply fuse_kept p s (vfs_fuse_getattr env p ino s)"
proof -
  obtain m ys where room: "inode_room env (fu_vfs s) m ys" using assms by (auto simp: fuse_ok_def)
  from assms obtain a where a: "inode_answer env ino (fu_vfs s) = Some a" by (auto simp: fuse_ok_def)
  show ?thesis
  proof (cases a)
    case None
    with a obtain c where "vfs_fuse_getattr env p ino s =
      (let s = s\<lparr>fu_vfs := (fu_vfs s)\<lparr>db_conn := c\<rparr>\<rparr>
       in if sb_ino (fe_sb env) \<noteq> 0 then fuse_reply_attr p (fe_sb env) 0 s else fuse_reply_err p ENOENT s)"
      using getattr_missing[of env ino s p] by auto
    then show ?thesis
      by (auto simp: Let_def intro: one_reply_behind[OF one_reply_attr] one_reply_behind[OF one_reply_err])
  next
    case (Some r)
    with a room getattr_found[of env s m ys ino r p] obtain v where "vfs_fuse_getattr env p ino s =
      (if ino \<noteq> 0 then fuse_reply_attr p (found_stat env ino r) 0 else fuse_reply_err p ENOENT) (s\<lparr>fu_vfs := v\<rparr>)" by auto
    then show ?thesis by (auto intro: one_reply_behind[OF one_reply_attr] one_reply_behind[OF one_reply_err])
  qed
qed

lemma open_once:
  assumes "fuse_ok env (Op_open fi) ino s"
  shows "one_reply fuse_kept p s (vfs_fuse_open env fi p ino s)"
proof -
  obtain n xs m ys r where "inode_room env (fu_vfs s) m ys" "handle_room env s n xs m ys" "inode_answer env ino (fu_vfs s) = Some (Some r)"
    using assms by (auto simp: fuse_ok_def)
  from open_found[OF this, of fi p] show ?thesis by (auto intro: one_reply_behind[OF one_reply_open])
qed

interpretation vf: fuse_filesystem "vfs_fuse_ops env :: ('q, 'a) fusest_scheme fuse_ops" "fuse_ok env" "fuse_kept"
  for env :: "'q fuse_env"
proof unfold_locales
  fix c ino p and h :: "('q, 'a) fusest_scheme handler" and s :: "('q, 'a) fusest_scheme"
  assume h: "vfs_fuse_ops env c = Some h" and k: "fuse_ok env c ino s"
  show "one_reply fuse_kept p s (h p ino s)"
    using h k getattr_once[of env _ ino s p] open_once[of env _ ino s p]
    by (auto simp: vfs_fuse_ops_def simple_handlers one_reply_err split: fuse_call.splits)
next
  fix c ino m l i t and s :: "('q, 'a) fusest_scheme"
  show "fuse_kept (s\<lparr>ll_reqs := m, ll_list := l, ll_interrupts := i, ll_sent := t\<rparr>) = fuse_kept s" by simp
  assume "fuse_ok env c ino s"
  then show "fuse_ok env c ino (s\<lparr>ll_reqs := m, ll_list := l, ll_interrupts := i, ll_sent := t\<rparr>)"
    by (cases c) (simp_all add: fuse_ok_def handle_room_def)
qed

section \<open>The callback on the device\<close>

lemma read_cb_message:
  assumes a: "attached (vfs_fuse_sess s) ch s" "ss_sessions s (vfs_fuse_sess s) = Some x" "\<not> se_exited x"
    and w: "\<forall>r \<in> set qs. r = Inl ENOENT" "sizeof_fuse_in_header \<le> len"
  obtains bufsize where "vfs_fuse_read_cb env le True p (qs @ Inr (len, h, m) # rs) s = do {
    s \<leftarrow> fuse_ll_process (bufsize, le) (vfs_fuse_ops env) p h m s;
    fuse_session_reset (vfs_fuse_sess s) s }"
proof -
  obtain c where c: "ss_chans s ch = Some c" "se_ch x = ch" "vfs_fuse_sess s \<noteq> NULL" "ch \<noteq> NULL"
    using a(1,2) by (auto simp: attached_def)
  have "fuse_chan_recv (qs @ Inr (len, h, m) # rs) ch s = Some (int len, Some (h, m), s)"
    using fuse_kern_chan_receive_message[OF a w] c by (simp add: fuse_chan_recv_def mem_simps)
  then show thesis
    using c a(2) w(2)
    by (intro that[of "ch_bufsize c"])
      (simp add: vfs_fuse_read_cb_def fuse_session_next_chan_def fuse_chan_bufsize_def fuse_session_process_def mem_simps
        sizeof_fuse_in_header_def EINTR_def)
qed

lemma reset_live:
  assumes "se \<noteq> NULL" "ss_sessions s se = Some x" "\<not> se_exited x"
  shows "fuse_session_reset se s = Some s"
proof -
  have "x\<lparr>se_exited := False\<rparr> = x" using assms(3) by (cases x) simp
  with assms show ?thesis by (simp add: sess_defs mem_simps fun_upd_idem)
qed

text \<open>A session that is up: initialised, attached to its channel, not left, and with nothing but interrupts waiting.\<close>

definition serving :: "('q, 'a) fusest_scheme \<Rightarrow> bool" where
  "serving s \<longleftrightarrow> ll_idle s \<and> ll_got_init s \<and> attached (vfs_fuse_sess s) (vfs_fuse_chan s) s \<and>
     map_option se_exited (ss_sessions s (vfs_fuse_sess s)) = Some False"

definition permitted :: "fuse_in_header \<Rightarrow> fuse_in \<Rightarrow> 'a llst_scheme \<Rightarrow> bool" where
  "permitted h m s \<longleftrightarrow> \<not> (ll_allow_root s \<and> in_uid h \<noteq> ll_owner s \<and> in_uid h \<noteq> 0) \<or> any_user m"


section \<open>Nothing can be changed\<close>

text \<open>The messages that would change the file system, and the error each is refused with.\<close>

definition refusal :: "fuse_in \<Rightarrow> int option" where
  "refusal m = (case m of
      IN_MKNOD _ _ _ \<Rightarrow> Some EROFS | IN_MKDIR _ _ \<Rightarrow> Some EROFS | IN_UNLINK _ \<Rightarrow> Some EROFS | IN_RMDIR _ \<Rightarrow> Some EROFS |
      IN_SYMLINK _ _ \<Rightarrow> Some EROFS | IN_RENAME _ _ _ \<Rightarrow> Some EROFS | IN_LINK _ _ \<Rightarrow> Some EROFS | IN_CREATE _ _ _ \<Rightarrow> Some EROFS |
      IN_WRITE _ _ _ _ _ _ _ \<Rightarrow> Some EROFS | IN_SETXATTR _ _ _ _ \<Rightarrow> Some ENOTSUP | IN_REMOVEXATTR _ \<Rightarrow> Some ENOTSUP |
      IN_SETATTR _ \<Rightarrow> Some ENOSYS | IN_SETLK _ _ _ \<Rightarrow> Some ENOSYS | IN_SETLKW _ _ _ \<Rightarrow> Some ENOSYS | _ \<Rightarrow> None)"

lemma process_error:
  assumes i: "ll_idle s" and g: "ll_got_init s" and p: "p \<noteq> NULL" "ll_reqs s p = None"
    and a: "permitted h m s" and m: "ordinary m" and f: "fuse_ll_op env ops m = Some f"
    and e: "\<And>s. f p (in_nodeid h) s = fuse_reply_err p e s" "0 \<le> e" "e < 1000"
    and st: "interrupt_step (in_unique h) (ll_reqs s) (ll_interrupts s) = (out, taken)"
  shows "fuse_ll_process env ops p h m s = Some (s\<lparr>ll_reqs := reqs_after (ll_reqs s) taken, ll_list := [],
    ll_interrupts := interrupts_after (ll_interrupts s) taken, ll_sent := ll_sent s @ out @ [(in_unique h, - e, Out_none)]\<rparr>)"
proof -
  obtain r where r: "rq_ctr r = 1" "rq_unique r = in_unique h"
      "fuse_ll_process env ops p h m s = f p (in_nodeid h) (s\<lparr>ll_reqs := (reqs_after (ll_reqs s) taken)(p \<mapsto> r), ll_list := [p],
        ll_interrupts := interrupts_after (ll_interrupts s) taken, ll_sent := ll_sent s @ out\<rparr>)"
      "reqs_after (ll_reqs s) taken p = None" "p \<notin> set (interrupts_after (ll_interrupts s) taken)"
    using process_enters[OF i g p a[unfolded permitted_def] m f st] by blast
  have "error_code (- e) = - e" using e(2,3) by (simp add: error_code_def)
  with r p(1) show ?thesis
    unfolding r(3) e(1) fuse_reply_err_def
    by (simp add: send_reply_live[where r = r] remove1_idem fun_upd_idem ll_upd_swap)
qed

lemma refusal_op:
  assumes "refusal m = Some e"
  shows "ordinary m" "0 \<le> e" "e < 1000"
    "\<exists>f. fuse_ll_op (bs, le) (vfs_fuse_ops env) m = Some f \<and> (\<forall>s. f p ino s = fuse_reply_err p e s)"
  using assms
  by (cases m; simp add: refusal_def ordinary_def EROFS_def ENOTSUP_def ENOSYS_def;
      cases le; auto simp: do_op_defs call_op_def vfs_fuse_ops_def simple_handlers EROFS_def ENOTSUP_def ENOSYS_def Let_def split: if_splits)+

text \<open>
  C6.  The mounted file system is read-only.  A message that would change it is answered with
  \<open>EROFS\<close> (\<open>ENOTSUP\<close> for extended attributes, \<open>ENOSYS\<close> for locks and for changing attributes,
  whose handler is missing from the table), and apart from the requests and the replies the
  whole state is as before: database, heaps, lists, session.
\<close>
theorem vfs_fuse_read_only:
  fixes s :: "('q, 'a) fusest_scheme"
  assumes up: "serving s" and p: "p \<noteq> NULL" "ll_reqs s p = None" and u: "permitted h m s" and e: "refusal m = Some e"
    and rs: "\<forall>r \<in> set qs. r = Inl ENOENT" "sizeof_fuse_in_header \<le> len"
    and st: "interrupt_step (in_unique h) (ll_reqs s) (ll_interrupts s) = (out, taken)"
  shows "vfs_fuse_read_cb env le True p (qs @ Inr (len, h, m) # rs) s =
    Some (s\<lparr>ll_reqs := reqs_after (ll_reqs s) taken, ll_list := [], ll_interrupts := interrupts_after (ll_interrupts s) taken,
      ll_sent := ll_sent s @ out @ [(in_unique h, - e, Out_none)]\<rparr>)"
proof -
  have i: "ll_idle s" "ll_got_init s" and at: "attached (vfs_fuse_sess s) (vfs_fuse_chan s) s" using up by (simp_all add: serving_def)
  obtain x where x: "ss_sessions s (vfs_fuse_sess s) = Some x" "\<not> se_exited x" using up by (auto simp: serving_def)
  obtain bs where run: "vfs_fuse_read_cb env le True p (qs @ Inr (len, h, m) # rs) s = do {
      s \<leftarrow> fuse_ll_process (bs, le) (vfs_fuse_ops env) p h m s;
      fuse_session_reset (vfs_fuse_sess s) s }"
    by (rule read_cb_message[OF at x rs])
  obtain f where f: "fuse_ll_op (bs, le) (vfs_fuse_ops env) m = Some f"
      "\<And>s :: ('q, 'a) fusest_scheme. f p (in_nodeid h) s = fuse_reply_err p e s"
    using refusal_op(4)[OF e, of bs le env p "in_nodeid h"] by blast
  show ?thesis
    unfolding run process_error[OF i p u refusal_op(1)[OF e] f refusal_op(2,3)[OF e] st]
    using at x by (simp add: attached_def reset_live[where x = x])
qed

section \<open>Attributes\<close>

text \<open>The columns of the table \<open>files\<close>.\<close>

definition files_row :: "int \<Rightarrow> int \<Rightarrow> int \<Rightarrow> int \<Rightarrow> int \<Rightarrow> (int \<Rightarrow> string) \<Rightarrow> cell list" where
  "files_row own grp sz mode ino txt = map (\<lambda>(n, v). (n, v, txt v))
     [(''package'', 1), (''path'', 0), (''type'', 0), (''owner'', own), (''grp'', grp), (''size'', sz), (''mode'', mode), (''offset'', 0),
      (''ctime'', 0), (''target'', 0), (''inode'', ino)]"

text \<open>The loop over the columns is a fold over the cells of the row.\<close>

definition inode_cell :: "cell \<Rightarrow> pkg_inode \<Rightarrow> pkg_inode" where
  "inode_cell c = inode_column [c] 0"

lemma inode_columns_fold: "inode_columns r i d = fold inode_cell (drop i r) d"
proof (induction r i d rule: inode_columns.induct)
  case (1 r i d)
  show ?case
  proof (cases "i < length r")
    case True
    then have "inode_column r i d = inode_cell (r ! i) d"
      by (simp add: inode_cell_def inode_column_def column_int_def column_int64_def Let_def)
    moreover have "drop i r = r ! i # drop (Suc i) r" using True by (simp add: Cons_nth_drop_Suc)
    ultimately show ?thesis using 1 True by (simp add: inode_columns.simps[of r i])
  qed (simp add: inode_columns.simps[of r i])
qed

lemma inode_cell_simps:
  "inode_cell (''gid'', v, t) d = d\<lparr>st_gid := word_of_int v\<rparr>"
  "inode_cell (''inode'', v, t) d = d\<lparr>st_ino := word_of_int (to_int32 v)\<rparr>"
  "inode_cell (''mode'', v, t) d = d\<lparr>st_mode := word_of_int (to_int32 v)\<rparr>"
  "inode_cell (''size'', v, t) d = d\<lparr>st_size := v\<rparr>"
  "inode_cell (''uid'', v, t) d = d\<lparr>st_uid := word_of_int v\<rparr>"
  "n \<notin> set inode_names \<Longrightarrow> inode_cell (n, v, t) d = d"
  by (simp_all add: inode_cell_def inode_column_def column_int_def column_int64_def inode_names_def)

lemma files_row_inode:
  "inode_columns (files_row own grp sz mode ino txt) 0 zero_inode =
    zero_inode\<lparr>st_size := sz, st_mode := word_of_int (to_int32 mode), st_ino := word_of_int (to_int32 ino)\<rparr>"
  by (simp add: inode_columns_fold files_row_def inode_cell_simps inode_names_def)


section \<open>What goes wrong\<close>

text \<open>
  C38.  Opening a file that is not in the database replies twice: the error reply frees the
  request, and the reply that follows reads freed memory.  The flags of the call do not matter.
\<close>
theorem vfs_fuse_open_missing_crashes:
  assumes h: "handle_room env s n xs m ys" and r: "inode_answer env ino (fu_vfs s) = Some None"
    and q: "req \<noteq> NULL" "ll_reqs s req = Some rq" "rq_ctr rq = 1"
  shows "vfs_fuse_open env fi req ino s = None"
proof -
  obtain fh v where a: "blockheap_alloc (fst (fe_handle env)) (snd (fe_handle env)) (vfs_handle_heap s) (fu_vfs s) = Some (fh, v)"
      "bstate.more v = bstate.more (fu_vfs s)"
  proof -
    have "pool_ok (fu_vfs s) (vfs_handle_heap s) sizeof_vfs_handle n xs"
        "total_free xs = 0 \<longrightarrow> fresh_block (fst (fe_handle env)) (snd (fe_handle env)) sizeof_vfs_handle n xs"
      using h by (simp_all add: handle_room_def)
    from blockheap_alloc_took[OF this] show thesis by (elim exE conjE) (rule that)
  qed
  have "inode_answer env ino v = Some None" using r dbst_more[OF a(2)] by (simp add: inode_answer_def)
  then obtain c where "db_query (fe_exec env) (fe_inode env) QUERY_INODE (sql_inode ino) v = Some (Ret_NULL, v\<lparr>db_conn := c\<rparr>)"
    using inode_none by blast
  moreover define s1 where "s1 = s\<lparr>fu_vfs := v\<lparr>db_conn := c\<rparr>\<rparr>"
  moreover obtain s2 where s2: "fuse_reply_err req EROFS s1 = Some s2" "ll_reqs s2 req = None"
    using q send_reply_live[of req s1 rq] by (auto simp: fuse_reply_err_def s1_def)
  moreover have "(if fi_flags fi = 0 then 1 else 0 :: u32) AND O_CREAT = 0" by (simp add: O_CREAT_def)
  moreover have "free_inode NULL w = Some (w\<lparr>inodes := (inodes w)(NULL := None)\<rparr>)" for w :: "'a vfst"
    by (simp add: free_inode_def blockheap_free_def)
  moreover have "fuse_reply_open req f (s2\<lparr>fu_vfs := w\<rparr>) = None" for f w
    using s2(2) by (simp add: fuse_reply_open_def send_reply_ok_def send_reply_gone)
  ultimately show ?thesis
    using a(1) unfolding vfs_fuse_open_def by (simp add: ret_ptr_def)
qed

text \<open>
  C40.  At the end \<open>vfs_fuse_fini\<close> uses the channel after \<open>fuse_session_destroy\<close> has freed it.
\<close>
theorem vfs_fuse_fini_uses_freed_channel:
  assumes "attached (vfs_fuse_sess s) (vfs_fuse_chan s) s"
  shows "vfs_fuse_fini env s = None"
proof -
  obtain c where "ss_chans s (vfs_fuse_chan s) = Some c" using assms by (auto simp: attached_def)
  with assms show ?thesis
    by (simp add: vfs_fuse_fini_def fuse_session_destroy_ok[OF assms] vfs_fuse_ops_def attached_def fuse_session_remove_chan_def deref_def)
qed

text \<open>
  C6.  An unmount by the user (\<open>ENODEV\<close>) is forgotten at once: the flag that says so is
  reset by the same callback, which leaves the state as it was.
\<close>
theorem vfs_fuse_unmount_unnoticed:
  assumes up: "serving s" and rs: "\<forall>r \<in> set qs. r = Inl ENOENT"
  shows "vfs_fuse_read_cb env le True p (qs @ Inl ENODEV # rs) s = Some s"
proof -
  have at: "attached (vfs_fuse_sess s) (vfs_fuse_chan s) s" using up by (simp_all add: serving_def)
  obtain x where x: "ss_sessions s (vfs_fuse_sess s) = Some x" "\<not> se_exited x" using up by (auto simp: serving_def)
  obtain c where c: "ss_chans s (vfs_fuse_chan s) = Some c" "se_ch x = vfs_fuse_chan s" "vfs_fuse_sess s \<noteq> NULL" "vfs_fuse_chan s \<noteq> NULL"
    using at x(1) by (auto simp: attached_def)
  have "x\<lparr>se_exited := False\<rparr> = x" using x(2) by (cases x) simp
  with x c fuse_kern_chan_receive_unmounted[OF at x rs, of rs] show ?thesis
    by (simp add: vfs_fuse_read_cb_def fuse_session_next_chan_def fuse_chan_recv_def sess_defs mem_simps fun_upd_idem)
qed

subsection \<open>Witnesses\<close>

text \<open>
  A database that answers every query about an inode with the same row, a heap for inodes and
  one for handles, and a session with one interrupt waiting.
\<close>

definition demo_fenv :: "cell list list \<Rightarrow> unit fuse_env" where
  "demo_fenv rows = \<lparr>fe_exec = (\<lambda>sql q. (Some rows, q)), fe_inode = (\<lambda>_. (NULL, NULL)), fe_handle = (NULL, NULL), fe_sb = zero_stat\<rparr>"

definition boot_fuse_vfst :: "unit vfst" where
  "boot_fuse_vfst = dbst.extend (pkgst.extend boot_pkgst \<lparr>db_conn = Some (), db_locked = False, db_stmts = 0, inode_heap = NULL, inodes = Map.empty\<rparr>)
     \<lparr>vfs_watch_heap = NULL, vfs_watch_list = empty_list, vfs_watches = Map.empty, vfs_inotify_fd = 0\<rparr>"

definition demo_fuse_vfst :: "unit vfst" where
  "demo_fuse_vfst = the (do {
     (h, s) \<leftarrow> blockheap_create 8 16 1000 (of_nat sizeof_pkg_inode) 2 (Some ''pkg'') boot_fuse_vfst;
     (g, s) \<leftarrow> blockheap_create 24 32 2000 (of_nat sizeof_vfs_handle) 2 (Some ''vfs_handle'') s;
     Some (s\<lparr>inode_heap := h\<rparr>) })"

definition demo_is :: "binfo list" where
  "demo_is = [(16, 1000, rev (slots 1000 sizeof_pkg_inode 2), [])]"

definition demo_hs :: "binfo list" where
  "demo_hs = [(32, 2000, rev (slots 2000 sizeof_vfs_handle 2), [])]"

lemma demo_fuse_pools:
  "pool_ok demo_fuse_vfst 8 sizeof_pkg_inode 2 demo_is" "pool_ok demo_fuse_vfst 24 sizeof_vfs_handle 2 demo_hs"
  "inode_heap demo_fuse_vfst = 8" "db_conn demo_fuse_vfst = Some ()"
proof -
  let ?z = sizeof_pkg_inode and ?y = sizeof_vfs_handle
  have boot: "dlist (b_nodes boot_fuse_vfst) (b_heap_lists boot_fuse_vfst) []"
    by (simp add: boot_fuse_vfst_def boot_pkgst_def boot_lstate_def boot_state_def dbst.defs pkgst.defs lstate.defs bstate.defs)
  have ba: "block_area ?z 2 1000 = {1000..<1240}" "block_area ?y 2 2000 = {2000..<26768}"
    by (auto simp: block_area_def in_range_def stride_def sizeof_MemBlock_def sizeof_pkg_inode_def sizeof_vfs_handle_def)
  have fr: "fresh_block 16 1000 ?z 2 []" "fresh_block 32 2000 ?y 2 []"
    by (simp_all add: fresh_block_def stride_def sizeof_MemBlock_def sizeof_pkg_inode_def sizeof_vfs_handle_def)
  have z: "of_nat ?z \<noteq> (0 :: u64)" "unat (pad_elemsize (of_nat ?z)) = ?z" "of_nat ?y \<noteq> (0 :: u64)" "unat (pad_elemsize (of_nat ?y)) = ?y"
    by (simp_all add: pad_elemsize_def sizeof_pkg_inode_def sizeof_vfs_handle_def)
  have n: "(0::int) < 2" "(2::int) < 2 ^ 31" "(2::nat) = nat 2" by simp_all
  have a1: "(8::nat) \<noteq> NULL" "(8::nat) \<notin> set []" "8 \<notin> block_area ?z 2 1000" "set [] \<inter> block_area ?z 2 1000 = {}" using ba by auto
  obtain s1 where s1: "blockheap_create 8 16 1000 (of_nat ?z) 2 (Some ''pkg'') boot_fuse_vfst = Some (8, s1)" "heap_inv s1 8 ?z 2 demo_is"
      "dlist (b_nodes s1) (b_heap_lists s1) [8]" "block_area ?z 2 1000 \<subseteq> dom (b_nodes s1)" "bstate.more s1 = bstate.more boot_fuse_vfst"
    using blockheap_create_full[OF a1(1-3) z(1,2) n fr(1) boot a1(4), of "Some ''pkg''"] unfolding demo_is_def by (elim exE conjE) (rule that[unfolded demo_is_def])
  have p1: "pool_ok s1 8 ?z 2 demo_is" using s1(2,4) by (simp add: pool_ok_def demo_is_def sizeof_pkg_inode_def)
  have a2: "(24::nat) \<noteq> NULL" "(24::nat) \<notin> set [8]" "24 \<notin> block_area ?y 2 2000" "set [8] \<inter> block_area ?y 2 2000 = {}" using ba by auto
  obtain s2 where s2: "blockheap_create 24 32 2000 (of_nat ?y) 2 (Some ''vfs_handle'') s1 = Some (24, s2)" "heap_inv s2 24 ?y 2 demo_hs"
      "block_area ?y 2 2000 \<subseteq> dom (b_nodes s2)" "bstate.more s2 = bstate.more s1"
      "\<forall>p. p \<notin> insert 24 (set [8]) \<union> block_area ?y 2 2000 \<longrightarrow>
        b_nodes s2 p = b_nodes s1 p \<and> b_owner s2 p = b_owner s1 p \<and> b_bytes s2 p = b_bytes s1 p"
      "\<forall>p. p \<noteq> 32 \<longrightarrow> b_blocks s2 p = b_blocks s1 p" "\<forall>p. p \<noteq> 24 \<longrightarrow> b_heaps s2 p = b_heaps s1 p" "dom (b_nodes s1) \<subseteq> dom (b_nodes s2)"
    using blockheap_create_full[OF a2(1-3) z(3,4) n fr(2) s1(3) a2(4), of "Some ''vfs_handle''"] unfolding demo_hs_def by (elim exE conjE) (rule that[unfolded demo_hs_def])
  have "cframe (insert 24 (set [8]) \<union> block_area ?y 2 2000) {32} {24} s1 s2" using s2(5-7) by (auto simp: cframe_def)
  then have p2: "pool_ok s2 8 ?z 2 demo_is" by (rule other_pool[OF p1]) (use s2(8) ba in \<open>auto simp: demo_is_def\<close>)
  have h2: "pool_ok s2 24 ?y 2 demo_hs" using s2(2,3) by (simp add: pool_ok_def demo_hs_def sizeof_vfs_handle_def)
  have d: "demo_fuse_vfst = s2\<lparr>inode_heap := 8\<rparr>" using s1(1) s2(1) by (simp add: demo_fuse_vfst_def)
  show "pool_ok demo_fuse_vfst 8 ?z 2 demo_is" "pool_ok demo_fuse_vfst 24 ?y 2 demo_hs"
    unfolding d by (rule pool_ok_more[OF p2] pool_ok_more[OF h2], simp add: cframe_def)+
  have "db_conn boot_fuse_vfst = Some ()" by (simp add: boot_fuse_vfst_def pkgst.defs dbst.defs)
  then show "inode_heap demo_fuse_vfst = 8" "db_conn demo_fuse_vfst = Some ()"
    using dbst_more(1)[OF s2(4)] dbst_more(1)[OF s1(5)] by (simp_all add: d)
qed

definition demo_req :: "u64 \<Rightarrow> u64 \<Rightarrow> fuse_req" where
  "demo_req n i = \<lparr>rq_unique = n, rq_ctr = 1, rq_uid = 0, rq_gid = 0, rq_pid = 0, rq_interrupted = False, rq_u = i\<rparr>"

definition demo_fuse :: "unit fusest" where
  "demo_fuse = \<lparr>ll_allow_root = False, ll_atomic_o_trunc = False, ll_big_writes = False, ll_got_init = True, ll_got_destroy = False, ll_owner = 0,
     ll_conn = \<lparr>cn_proto_major = 7, cn_proto_minor = 11, cn_async_read = 1, cn_max_write = 65536, cn_max_readahead = 65536, cn_capable = 0, cn_want = 0\<rparr>,
     ll_reqs = [500 \<mapsto> demo_req 6 4], ll_list = [], ll_interrupts = [500], ll_sent = [],
     ss_sessions = [100 \<mapsto> \<lparr>se_exited = False, se_ch = 200\<rparr>], ss_chans = [200 \<mapsto> \<lparr>ch_se = 100, ch_fd = 5, ch_bufsize = MIN_BUFSIZE\<rparr>], ss_fds = {5},
     fu_vfs = demo_fuse_vfst, vfs_handle_heap = 24, vfs_fuse_sess = 100, vfs_fuse_chan = 200\<rparr>"

definition demo_head :: fuse_in_header where
  "demo_head = \<lparr>in_unique = 7, in_nodeid = 3, in_uid = 1000, in_gid = 1000, in_pid = 1\<rparr>"

abbreviation (input) demo_row :: "cell list" where
  "demo_row \<equiv> files_row 1000 100 12 33188 3 (\<lambda>_. '''')"

lemma demo_fuse_up:
  "serving demo_fuse" "ll_reqs demo_fuse 600 = None" "permitted demo_head m demo_fuse" "ll_sent demo_fuse = []"
  "interrupt_step (in_unique demo_head) (ll_reqs demo_fuse) (ll_interrupts demo_fuse) = ([(6, - EAGAIN, Out_none)], Some 500)"
  by (auto simp: serving_def ll_idle_def attached_def demo_fuse_def permitted_def interrupt_step_def demo_head_def demo_req_def)

lemma demo_fuse_room:
  "inode_room (demo_fenv rows) (fu_vfs demo_fuse) 2 demo_is" "handle_room (demo_fenv rows) demo_fuse 2 demo_hs 2 demo_is"
proof -
  have t: "total_free demo_is \<noteq> 0" "total_free demo_hs \<noteq> 0" by (simp_all add: demo_is_def demo_hs_def)
  have a: "pool_area sizeof_pkg_inode 2 demo_is = {1000..<1240}" "pool_area sizeof_vfs_handle 2 demo_hs = {2000..<26768}"
    by (auto simp: demo_is_def demo_hs_def block_area_def in_range_def stride_def sizeof_MemBlock_def sizeof_pkg_inode_def sizeof_vfs_handle_def)
  show "inode_room (demo_fenv rows) (fu_vfs demo_fuse) 2 demo_is"
    using demo_fuse_pools t by (simp add: inode_room_def demo_fuse_def)
  show "handle_room (demo_fenv rows) demo_fuse 2 demo_hs 2 demo_is"
    using demo_fuse_pools t a by (simp add: handle_room_def demo_fuse_def grow_area_def grow_block_def) (simp add: demo_is_def demo_hs_def)
qed

lemma demo_fuse_answer:
  "inode_answer (demo_fenv [r]) ino (fu_vfs demo_fuse) = Some (Some r)" "inode_answer (demo_fenv []) ino (fu_vfs demo_fuse) = Some None"
  by (simp_all add: inode_answer_def demo_fuse_def demo_fuse_pools demo_fenv_def)


theorem vfs_fuse_read_only_witness:
  "vfs_fuse_read_cb (demo_fenv []) (True, \<lambda>_ _. Some) True 600 ([] @ Inr (56, demo_head, IN_MKDIR ''d'' 0) # []) demo_fuse =
    Some (demo_fuse\<lparr>ll_reqs := (ll_reqs demo_fuse)(500 := None), ll_list := [], ll_interrupts := [],
      ll_sent := [(6, - EAGAIN, Out_none), (7, - EROFS, Out_none)]\<rparr>)"
proof -
  have o: "refusal (IN_MKDIR ''d'' 0) = Some EROFS" "(600::nat) \<noteq> NULL" "sizeof_fuse_in_header \<le> 56" "\<forall>r \<in> set ([] :: (int + message) list). r = Inl ENOENT"
    by (simp_all add: refusal_def sizeof_fuse_in_header_def)
  show ?thesis
    using vfs_fuse_read_only[OF demo_fuse_up(1) o(2) demo_fuse_up(2,3) o(1) o(4,3) demo_fuse_up(5), of "demo_fenv []" "(True, \<lambda>_ _. Some)" "[]"]
    by (simp add: demo_fuse_up(4) interrupts_after_def reqs_after_def) (simp add: demo_fuse_def demo_head_def)
qed


theorem vfs_fuse_open_missing_crashes_witness: "vfs_fuse_open (demo_fenv []) zero_fi 500 3 demo_fuse = None"
proof -
  have q: "(500::nat) \<noteq> NULL" "ll_reqs demo_fuse 500 = Some (demo_req 6 4)" "rq_ctr (demo_req 6 4) = 1"
    by (simp_all add: demo_fuse_def demo_req_def)
  show ?thesis by (rule vfs_fuse_open_missing_crashes[OF demo_fuse_room(2) demo_fuse_answer(2) q])
qed

theorem vfs_fuse_fini_uses_freed_channel_witness: "vfs_fuse_fini (demo_fenv []) demo_fuse = None"
  using demo_fuse_up(1) by (intro vfs_fuse_fini_uses_freed_channel) (simp add: serving_def)

theorem vfs_fuse_unmount_unnoticed_witness:
  "vfs_fuse_read_cb (demo_fenv []) (True, \<lambda>_ _. Some) True 600 ([Inl ENOENT] @ Inl ENODEV # []) demo_fuse = Some demo_fuse"
  by (rule vfs_fuse_unmount_unnoticed[OF demo_fuse_up(1)]) simp

end
