(* ===== verification/Fuse_Opt.thy ===== *)
theory Fuse_Opt
  imports Conf
begin

text \<open>
  The option parser of the bundled FUSE library, \<open>src/fuse/fuse_opt.c\<close>.  It sorts the
  arguments of a program into the fields of a struct, into calls of a processing function, and
  into the arguments that are left over.

  A C string is a \<open>string\<close> without NUL; the two places where the code works inside a
  buffer, joining options and splitting a group of them in place, are modelled on the buffer
  with its indices.  The struct the options go to is a map from the names of its fields to
  their values.  Allocations succeed as long as there is room: the counter \<open>room\<close> is the
  number of allocations before the first one that fails.  A failed assertion, and an access to
  memory that was given back, is None.
\<close>

section \<open>Data\<close>

datatype optval = Num int | Text "string option"

type_synonym odata = "string \<Rightarrow> optval"

text \<open>An option template; no field: the offset is -1 and the value is a key.\<close>

record fuse_opt =
  op_templ :: string
  op_field :: "string option"
  op_value :: int

text \<open>
  \<open>ag_gone\<close>: the vector was moved by a \<open>realloc\<close> whose result was then dropped, so that the
  pointer in the struct is dangling.
\<close>

record fuse_args =
  ag_argv :: "string list option"
  ag_allocated :: bool
  ag_gone :: bool

definition FUSE_OPT_KEY_OPT :: int where "FUSE_OPT_KEY_OPT = -1"
definition FUSE_OPT_KEY_NONOPT :: int where "FUSE_OPT_KEY_NONOPT = -2"
definition FUSE_OPT_KEY_KEEP :: int where "FUSE_OPT_KEY_KEEP = -3"
definition FUSE_OPT_KEY_DISCARD :: int where "FUSE_OPT_KEY_DISCARD = -4"

definition no_args :: fuse_args where
  "no_args = \<lparr>ag_argv = None, ag_allocated = False, ag_gone = False\<rparr>"

definition ag_list :: "fuse_args \<Rightarrow> string list" where
  "ag_list a = (case ag_argv a of None \<Rightarrow> [] | Some xs \<Rightarrow> xs)"

record optctx =
  oc_data :: odata
  oc_argctr :: nat
  oc_out :: fuse_args
  oc_opts :: "string option"
  oc_nonopt :: nat
  oc_room :: nat

text \<open>
  What does not change during a parse: the processing function (None: NULL), how \<open>sscanf\<close>
  reads a parameter, and the arguments.
\<close>

type_synonym opt_proc = "odata \<Rightarrow> string \<Rightarrow> int \<Rightarrow> fuse_args \<Rightarrow> nat \<Rightarrow> (int \<times> odata \<times> fuse_args \<times> nat) option"

record optenv =
  oe_opts :: "fuse_opt list"
  oe_proc :: "opt_proc option"
  oe_scan :: "string \<Rightarrow> string \<Rightarrow> int option"
  oe_argv :: "string list"

section \<open>Argument vectors\<close>

definition fuse_opt_free_args :: "fuse_args \<Rightarrow> fuse_args option" where
  "fuse_opt_free_args a = (if ag_argv a \<noteq> None \<and> ag_allocated a \<and> ag_gone a then None else Some no_args)"

text \<open>The vector is reallocated, then the argument is copied; when only the copy fails, the new vector is lost.\<close>

definition fuse_opt_add_arg :: "fuse_args \<Rightarrow> string \<Rightarrow> nat \<Rightarrow> (int \<times> fuse_args \<times> nat) option" where
  "fuse_opt_add_arg a arg room =
     (if ag_argv a \<noteq> None \<and> \<not> ag_allocated a then None
      else if ag_gone a then None
      else if room = 0 then Some (-1, a, 0)
      else if room = 1 then Some (-1, a\<lparr>ag_gone := (ag_argv a \<noteq> None)\<rparr>, 0)
      else Some (0, a\<lparr>ag_argv := Some (ag_list a @ [arg]), ag_allocated := True\<rparr>, room - 2))"

definition fuse_opt_insert_arg :: "fuse_args \<Rightarrow> nat \<Rightarrow> string \<Rightarrow> nat \<Rightarrow> (int \<times> fuse_args \<times> nat) option" where
  "fuse_opt_insert_arg a pos arg room =
     (if pos > length (ag_list a) then None
      else do {
        (r, a, room) \<leftarrow> fuse_opt_add_arg a arg room;
        if r = -1 then Some (-1, a, room)
        else (let xs = ag_list a in
              if pos \<noteq> length xs - 1
              then Some (0, a\<lparr>ag_argv := Some (take pos xs @ [last xs] @ take (length xs - pos - 1) (drop pos xs))\<rparr>, room)
              else Some (0, a, room)) })"

section \<open>Joining options\<close>

text \<open>The characters of \<open>opt\<close> are written from index \<open>d\<close> on.\<close>

fun put_opt :: "bool \<Rightarrow> string \<Rightarrow> nat \<Rightarrow> buf \<Rightarrow> (nat \<times> buf) option" where
  "put_opt esc [] d b = Some (d, b)"
| "put_opt esc (c # cs) d b = do {
     (d, b) \<leftarrow> (if esc \<and> (c = CHR '','' \<or> c = CHR 0x5C)
                then do { b \<leftarrow> arr_set b (int d) (CHR 0x5C); Some (Suc d, b) } else Some (d, b));
     b \<leftarrow> arr_set b (int d) c;
     put_opt esc cs (Suc d) b }"

text \<open>\<open>realloc\<close> keeps the old string; what lies behind it is unspecified (\<open>junk\<close>).\<close>

definition opt_buf :: "(nat \<Rightarrow> char) \<Rightarrow> string \<Rightarrow> string \<Rightarrow> buf" where
  "opt_buf junk old opt = old @ map junk [0..<1 + length opt * 2 + 1]"

definition add_opt_common :: "(nat \<Rightarrow> char) \<Rightarrow> string option \<Rightarrow> string \<Rightarrow> bool \<Rightarrow> nat \<Rightarrow> (int \<times> string option \<times> nat) option" where
  "add_opt_common junk opts opt esc room =
     (let old = (case opts of None \<Rightarrow> [] | Some s \<Rightarrow> s) in
      if room = 0 then Some (-1, opts, 0)
      else do {
        let b = opt_buf junk old opt;
        (d, b) \<leftarrow> (if old \<noteq> [] then do { b \<leftarrow> arr_set b (int (length old)) (CHR '',''); Some (Suc (length old), b) }
                   else Some (length old, b));
        (d, b) \<leftarrow> put_opt esc opt d b;
        b \<leftarrow> arr_set b (int d) NUL;
        Some (0, Some (c_str b 0), room - 1) })"

definition no_junk :: "nat \<Rightarrow> char" where
  "no_junk i = NUL"

definition fuse_opt_add_opt :: "string option \<Rightarrow> string \<Rightarrow> nat \<Rightarrow> (int \<times> string option \<times> nat) option" where
  "fuse_opt_add_opt opts opt room = add_opt_common no_junk opts opt False room"

definition fuse_opt_add_opt_escaped :: "string option \<Rightarrow> string \<Rightarrow> nat \<Rightarrow> (int \<times> string option \<times> nat) option" where
  "fuse_opt_add_opt_escaped opts opt room = add_opt_common no_junk opts opt True room"

section \<open>Processing one option\<close>

definition next_arg :: "optenv \<Rightarrow> optctx \<Rightarrow> int \<times> optctx" where
  "next_arg env ctx =
     (if oc_argctr ctx + 1 \<ge> length (oe_argv env) then (-1, ctx)
      else (0, ctx\<lparr>oc_argctr := oc_argctr ctx + 1\<rparr>))"

definition add_arg :: "optctx \<Rightarrow> string \<Rightarrow> (int \<times> optctx) option" where
  "add_arg ctx arg = do {
     (r, a, room) \<leftarrow> fuse_opt_add_arg (oc_out ctx) arg (oc_room ctx);
     Some (r, ctx\<lparr>oc_out := a, oc_room := room\<rparr>) }"

definition add_opt :: "optctx \<Rightarrow> string \<Rightarrow> (int \<times> optctx) option" where
  "add_opt ctx opt = do {
     (r, opts, room) \<leftarrow> fuse_opt_add_opt_escaped (oc_opts ctx) opt (oc_room ctx);
     Some (r, ctx\<lparr>oc_opts := opts, oc_room := room\<rparr>) }"

definition call_proc :: "optenv \<Rightarrow> optctx \<Rightarrow> string \<Rightarrow> int \<Rightarrow> bool \<Rightarrow> (int \<times> optctx) option" where
  "call_proc env ctx arg key grp =
     (if key = FUSE_OPT_KEY_DISCARD then Some (0, ctx)
      else do {
        (res, ctx) \<leftarrow>
          (case oe_proc env of
             Some f \<Rightarrow>
               if key \<noteq> FUSE_OPT_KEY_KEEP then do {
                 (r, dat, a, room) \<leftarrow> f (oc_data ctx) arg key (oc_out ctx) (oc_room ctx);
                 Some (r, ctx\<lparr>oc_data := dat, oc_out := a, oc_room := room\<rparr>) }
               else Some (1, ctx)
           | None \<Rightarrow> Some (1, ctx));
        if res = -1 \<or> res = 0 then Some (res, ctx)
        else if grp then add_opt ctx arg
        else add_arg ctx arg })"

definition index_of :: "char \<Rightarrow> string \<Rightarrow> nat option" where
  "index_of c s = (if c \<in> set s then Some (length (takeWhile (\<lambda>x. x \<noteq> c) s)) else None)"

text \<open>The position of the separator (0: the template is matched literally).\<close>

definition match_template :: "string \<Rightarrow> string \<Rightarrow> nat option" where
  "match_template t arg =
     (let sep = (case index_of (CHR ''='') t of Some i \<Rightarrow> Some i | None \<Rightarrow> index_of (CHR '' '') t);
          other = (if t = arg then Some 0 else None)
      in case sep of
           None \<Rightarrow> other
         | Some i \<Rightarrow>
             if i + 1 = length t \<or> t ! (i + 1) = CHR ''%''
             then (let tlen = (if t ! i = CHR ''='' then i + 1 else i)
                   in if length arg \<ge> tlen \<and> take tlen arg = take tlen t then Some i else other)
             else other)"

text \<open>The first template that matches, with the templates behind it.\<close>

fun find_opt :: "fuse_opt list \<Rightarrow> string \<Rightarrow> (nat \<times> fuse_opt \<times> fuse_opt list) option" where
  "find_opt [] arg = None"
| "find_opt (p # ps) arg = (case match_template (op_templ p) arg of Some sep \<Rightarrow> Some (sep, p, ps) | None \<Rightarrow> find_opt ps arg)"

definition fuse_opt_match :: "fuse_opt list \<Rightarrow> string \<Rightarrow> bool" where
  "fuse_opt_match opts arg = (find_opt opts arg \<noteq> None)"

definition process_opt_param :: "optenv \<Rightarrow> string \<Rightarrow> string \<Rightarrow> string \<Rightarrow> optctx \<Rightarrow> (int \<times> optctx) option" where
  "process_opt_param env field format param ctx =
     (if format = [] \<or> format ! 0 \<noteq> CHR ''%'' then None
      else if length format > 1 \<and> format ! 1 = CHR ''s''
      then if oc_room ctx = 0 then Some (-1, ctx)
           else Some (0, ctx\<lparr>oc_data := (oc_data ctx)(field := Text (Some param)), oc_room := oc_room ctx - 1\<rparr>)
      else (case oe_scan env format param of
              None \<Rightarrow> Some (-1, ctx)
            | Some v \<Rightarrow> Some (0, ctx\<lparr>oc_data := (oc_data ctx)(field := Num v)\<rparr>)))"

definition process_opt :: "optenv \<Rightarrow> fuse_opt \<Rightarrow> nat \<Rightarrow> string \<Rightarrow> bool \<Rightarrow> optctx \<Rightarrow> (int \<times> optctx) option" where
  "process_opt env p sep arg grp ctx =
     (case op_field p of
        None \<Rightarrow> do { (r, ctx) \<leftarrow> call_proc env ctx arg (op_value p) grp; Some (if r = -1 then -1 else 0, ctx) }
      | Some field \<Rightarrow>
          if sep \<noteq> 0 \<and> sep + 1 < length (op_templ p)
          then (let param = (if op_templ p ! sep = CHR ''='' then drop (sep + 1) arg else drop sep arg)
                in process_opt_param env field (drop (sep + 1) (op_templ p)) param ctx)
          else Some (0, ctx\<lparr>oc_data := (oc_data ctx)(field := Num (op_value p))\<rparr>))"

text \<open>The parameter is the next argument: both are joined in new memory.\<close>

definition process_opt_sep_arg :: "optenv \<Rightarrow> fuse_opt \<Rightarrow> nat \<Rightarrow> string \<Rightarrow> bool \<Rightarrow> optctx \<Rightarrow> (int \<times> optctx) option" where
  "process_opt_sep_arg env p sep arg grp ctx =
     (case next_arg env ctx of
        (r, ctx) \<Rightarrow>
          if r = -1 then Some (-1, ctx)
          else if oc_room ctx = 0 then Some (-1, ctx)
          else process_opt env p sep (take sep arg @ oe_argv env ! oc_argctr ctx) grp (ctx\<lparr>oc_room := oc_room ctx - 1\<rparr>))"

lemma find_opt_shorter [termination_simp]: "find_opt ps arg = Some (sep, p, qs) \<Longrightarrow> length qs < length ps"
  by (induction ps) (auto split: option.splits)

text \<open>Every template that matches is processed, until one fails.\<close>

function gopt_loop :: "optenv \<Rightarrow> nat \<Rightarrow> fuse_opt \<Rightarrow> fuse_opt list \<Rightarrow> string \<Rightarrow> bool \<Rightarrow> optctx \<Rightarrow> (int \<times> optctx) option" where
  "gopt_loop env sep p ps arg grp ctx = do {
     (res, ctx) \<leftarrow>
       (if sep \<noteq> 0 \<and> op_templ p ! sep = CHR '' '' \<and> length arg \<le> sep
        then process_opt_sep_arg env p sep arg grp ctx
        else process_opt env p sep arg grp ctx);
     if res = -1 then Some (-1, ctx)
     else (case find_opt ps arg of
             None \<Rightarrow> Some (0, ctx)
           | Some (sep, p, ps) \<Rightarrow> gopt_loop env sep p ps arg grp ctx) }"
  by pat_completeness auto
termination
  by (relation "measure (\<lambda>(env, sep, p, ps, arg, grp, ctx). length ps)") (auto dest: find_opt_shorter)

declare gopt_loop.simps [simp del]

definition process_gopt :: "optenv \<Rightarrow> string \<Rightarrow> bool \<Rightarrow> optctx \<Rightarrow> (int \<times> optctx) option" where
  "process_gopt env arg grp ctx =
     (case find_opt (oe_opts env) arg of
        Some (sep, p, ps) \<Rightarrow> gopt_loop env sep p ps arg grp ctx
      | None \<Rightarrow> call_proc env ctx arg FUSE_OPT_KEY_OPT grp)"

section \<open>Groups of options\<close>

text \<open>
  The copy of the group is split in place: \<open>s\<close> reads, \<open>d\<close> writes the current option at the
  front of the buffer, with the escapes removed.
\<close>

partial_function (option) group_loop :: "optenv \<Rightarrow> buf \<Rightarrow> nat \<Rightarrow> nat \<Rightarrow> optctx \<Rightarrow> (int \<times> optctx) option" where
  "group_loop env b s d ctx = do {
     c \<leftarrow> arr_get b (int s);
     if c = NUL \<or> c = CHR '','' then do {
       b \<leftarrow> arr_set b (int d) NUL;
       (res, ctx) \<leftarrow> process_gopt env (c_str b 0) True ctx;
       if res = -1 then Some (-1, ctx)
       else if c = NUL then Some (0, ctx)
       else group_loop env b (Suc s) 0 ctx }
     else do {
       s \<leftarrow> (if c = CHR 0x5C then do { e \<leftarrow> arr_get b (int (Suc s)); Some (if e \<noteq> NUL then Suc s else s) } else Some s);
       x \<leftarrow> arr_get b (int s);
       b \<leftarrow> arr_set b (int d) x;
       group_loop env b (Suc s) (Suc d) ctx } }"

definition process_option_group :: "optenv \<Rightarrow> string \<Rightarrow> optctx \<Rightarrow> (int \<times> optctx) option" where
  "process_option_group env opts ctx =
     (if oc_room ctx = 0 then Some (-1, ctx)
      else group_loop env (opts @ [NUL]) 0 0 (ctx\<lparr>oc_room := oc_room ctx - 1\<rparr>))"

section \<open>The arguments\<close>

text \<open>\<open>arg\<close> is never empty memory: reading one character behind its end reads NUL.\<close>

definition char_at :: "string \<Rightarrow> nat \<Rightarrow> char" where
  "char_at s i = (s @ [NUL]) ! i"

definition process_one :: "optenv \<Rightarrow> string \<Rightarrow> optctx \<Rightarrow> (int \<times> optctx) option" where
  "process_one env arg ctx =
     (if oc_nonopt ctx \<noteq> 0 \<or> char_at arg 0 \<noteq> CHR ''-'' then call_proc env ctx arg FUSE_OPT_KEY_NONOPT False
      else if char_at arg 1 = CHR ''o'' then
        if char_at arg 2 \<noteq> NUL then process_option_group env (drop 2 arg) ctx
        else (case next_arg env ctx of
                (r, ctx) \<Rightarrow> if r = -1 then Some (-1, ctx)
                            else process_option_group env (oe_argv env ! oc_argctr ctx) ctx)
      else if char_at arg 1 = CHR ''-'' \<and> char_at arg 2 = NUL then do {
        (r, ctx) \<leftarrow> add_arg ctx arg;
        if r = -1 then Some (-1, ctx)
        else Some (0, ctx\<lparr>oc_nonopt := length (ag_list (oc_out ctx))\<rparr>) }
      else process_gopt env arg False ctx)"

partial_function (option) args_loop :: "optenv \<Rightarrow> optctx \<Rightarrow> (int \<times> optctx) option" where
  "args_loop env ctx =
     (if oc_argctr ctx < length (oe_argv env) then do {
        (r, ctx) \<leftarrow> process_one env (oe_argv env ! oc_argctr ctx) ctx;
        if r = -1 then Some (-1, ctx)
        else args_loop env (ctx\<lparr>oc_argctr := oc_argctr ctx + 1\<rparr>) }
      else Some (0, ctx))"

definition insert_opts :: "optctx \<Rightarrow> (int \<times> optctx) option" where
  "insert_opts ctx =
     (case oc_opts ctx of
        None \<Rightarrow> Some (0, ctx)
      | Some opts \<Rightarrow> do {
          (r, a, room) \<leftarrow> fuse_opt_insert_arg (oc_out ctx) 1 ''-o'' (oc_room ctx);
          if r = -1 then Some (-1, ctx\<lparr>oc_out := a, oc_room := room\<rparr>)
          else do {
            (r, a, room) \<leftarrow> fuse_opt_insert_arg a 2 opts room;
            Some (r, ctx\<lparr>oc_out := a, oc_room := room\<rparr>) } })"

definition drop_separator :: "optctx \<Rightarrow> optctx" where
  "drop_separator ctx =
     (let xs = ag_list (oc_out ctx) in
      if oc_nonopt ctx \<noteq> 0 \<and> oc_nonopt ctx = length xs \<and> last xs = ''--''
      then ctx\<lparr>oc_out := (oc_out ctx)\<lparr>ag_argv := Some (butlast xs)\<rparr>\<rparr> else ctx)"

definition opt_parse :: "optenv \<Rightarrow> optctx \<Rightarrow> (int \<times> optctx) option" where
  "opt_parse env ctx = do {
     (r, ctx) \<leftarrow> (if oe_argv env \<noteq> [] then add_arg ctx (oe_argv env ! 0) else Some (0, ctx));
     if r = -1 then Some (-1, ctx)
     else do {
       (r, ctx) \<leftarrow> args_loop env (ctx\<lparr>oc_argctr := 1\<rparr>);
       if r = -1 then Some (-1, ctx)
       else do {
         (r, ctx) \<leftarrow> insert_opts ctx;
         if r = -1 then Some (-1, ctx) else Some (0, drop_separator ctx) } } }"

text \<open>On success the new vector replaces the arguments; the one not used is freed.\<close>

definition fuse_opt_parse :: "(string \<Rightarrow> string \<Rightarrow> int option) \<Rightarrow> fuse_args \<Rightarrow> odata \<Rightarrow> fuse_opt list \<Rightarrow> opt_proc option \<Rightarrow> nat \<Rightarrow>
    (int \<times> odata \<times> fuse_args \<times> nat) option" where
  "fuse_opt_parse scan args dat opts f room =
     (if ag_argv args = None \<or> ag_list args = [] then Some (0, dat, args, room)
      else do {
        (r, ctx) \<leftarrow> opt_parse \<lparr>oe_opts = opts, oe_proc = f, oe_scan = scan, oe_argv = ag_list args\<rparr>
          \<lparr>oc_data = dat, oc_argctr = 0, oc_out = no_args, oc_opts = None, oc_nonopt = 0, oc_room = room\<rparr>;
        _ \<leftarrow> fuse_opt_free_args (if r \<noteq> -1 then args else oc_out ctx);
        Some (r, oc_data ctx, if r \<noteq> -1 then oc_out ctx else args, oc_room ctx) })"

section \<open>Joining\<close>

definition escape :: "bool \<Rightarrow> string \<Rightarrow> string" where
  "escape esc s = concat (map (\<lambda>c. if esc \<and> (c = CHR '','' \<or> c = CHR 0x5C) then [CHR 0x5C, c] else [c]) s)"

lemma escape_simps [simp]:
  "escape esc [] = []"
  "escape esc (c # s) = (if esc \<and> (c = CHR '','' \<or> c = CHR 0x5C) then [CHR 0x5C, c] else [c]) @ escape esc s"
  by (simp_all add: escape_def)

lemma escape_length: "length (escape esc s) \<le> length s * 2"
  by (induction s) auto

lemma escape_set: "set (escape esc s) \<subseteq> set s \<union> {CHR 0x5C}"
  by (induction s) auto

lemma arr_set_mid: "length x = d \<Longrightarrow> arr_set (x @ y # r) (int d) v = Some (x @ v # r)"
  by (auto simp: arr_set_def)

lemma put_opt_ok:
  "length pre = d \<Longrightarrow> length mid = length (escape esc s) \<Longrightarrow>
    put_opt esc s d (pre @ mid @ r) = Some (d + length (escape esc s), pre @ escape esc s @ r)"
proof (induction s arbitrary: d pre mid)
  case (Cons c s)
  show ?case
  proof (cases "esc \<and> (c = CHR '','' \<or> c = CHR 0x5C)")
    case True
    with Cons.prems obtain m1 m2 mid' where m: "mid = m1 # m2 # mid'" "length mid' = length (escape esc s)"
      by (auto simp: length_Suc_conv)
    have "arr_set (pre @ m1 # m2 # mid' @ r) (int d) (CHR 0x5C) = Some ((pre @ [CHR 0x5C]) @ m2 # mid' @ r)"
        "arr_set ((pre @ [CHR 0x5C]) @ m2 # mid' @ r) (int (Suc d)) c = Some ((pre @ [CHR 0x5C, c]) @ mid' @ r)"
      using Cons.prems(1) arr_set_mid[of pre d m1] arr_set_mid[of "pre @ [CHR 0x5C]" "Suc d" m2] by simp_all
    with True m Cons.IH[of "pre @ [CHR 0x5C, c]" "Suc (Suc d)" mid'] Cons.prems(1) show ?thesis by simp
  next
    case False
    with Cons.prems obtain m1 mid' where m: "mid = m1 # mid'" "length mid' = length (escape esc s)"
      by (auto simp: length_Suc_conv)
    have "arr_set (pre @ m1 # mid' @ r) (int d) c = Some ((pre @ [c]) @ mid' @ r)"
      using Cons.prems(1) arr_set_mid[of pre d m1] by simp
    with False m Cons.IH[of "pre @ [c]" "Suc d" mid'] Cons.prems(1) show ?thesis by auto
  qed
qed simp

definition joined :: "string \<Rightarrow> string \<Rightarrow> string" where
  "joined old x = (if old = [] then x else old @ CHR '','' # x)"

lemma c_str_take: "NUL \<notin> set x \<Longrightarrow> c_str (x @ NUL # r) 0 = x"
  by (simp add: c_str_def takeWhile_append)

lemma add_opt_writes:
  fixes old opt esc
  defines "x \<equiv> joined old (escape esc opt)"
  shows "\<exists>r. (do { let b = opt_buf junk old opt;
      (d, b) \<leftarrow> (if old \<noteq> [] then do { b \<leftarrow> arr_set b (int (length old)) (CHR '',''); Some (Suc (length old), b) } else Some (length old, b));
      (d, b) \<leftarrow> put_opt esc opt d b;
      arr_set b (int d) NUL }) = Some (x @ NUL # r)"
proof -
  let ?e = "escape esc opt"
  define J where "J = map junk [0..<1 + length opt * 2 + 1]"
  have lJ: "length J = length opt * 2 + 2" "length ?e \<le> length opt * 2" using escape_length[of esc opt] by (simp_all add: J_def)
  have b: "opt_buf junk old opt = old @ J" by (simp add: opt_buf_def J_def)
  show ?thesis
  proof (cases "old = []")
    case True
    obtain mid j r where J: "J = mid @ j # r" "length mid = length ?e"
      using lJ that[of "take (length ?e) J" "J ! length ?e" "drop (Suc (length ?e)) J"] by (simp add: id_take_nth_drop)
    have "put_opt esc opt 0 (mid @ j # r) = Some (length ?e, ?e @ j # r)" using put_opt_ok[of "[]" 0 mid esc opt "j # r"] J(2) by simp
    then show ?thesis using b arr_set_mid[of ?e "length ?e" j r NUL] unfolding x_def True by (auto simp: J joined_def)
  next
    case False
    obtain j0 J' where J0: "J = j0 # J'" using lJ by (cases J) auto
    obtain mid j r where J: "J' = mid @ j # r" "length mid = length ?e"
      using lJ J0 that[of "take (length ?e) J'" "J' ! length ?e" "drop (Suc (length ?e)) J'"] by (simp add: id_take_nth_drop)
    have s1: "arr_set (old @ j0 # mid @ j # r) (int (length old)) (CHR '','') = Some (old @ CHR '','' # mid @ j # r)" by (simp add: arr_set_mid)
    have s2: "put_opt esc opt (Suc (length old)) (old @ CHR '','' # mid @ j # r) = Some (Suc (length old) + length ?e, old @ CHR '','' # ?e @ j # r)"
      using put_opt_ok[of "old @ [CHR '','']" "Suc (length old)" mid esc opt "j # r"] J(2) by simp
    have s3: "arr_set (old @ CHR '','' # ?e @ j # r) (int (Suc (length old) + length ?e)) NUL = Some (old @ CHR '','' # ?e @ NUL # r)"
      using arr_set_mid[of "old @ CHR '','' # ?e" "Suc (length old) + length ?e" j r NUL] by simp
    show ?thesis using False s3 by (simp add: b J0 J(1) s1 s2 x_def joined_def)
  qed
qed

text \<open>Whatever lies behind the old string, the new one fits the memory asked for and is the old one with the option appended.\<close>

lemma add_opt_common_ok:
  assumes "0 < room"
  shows "\<exists>s. add_opt_common junk opts opt esc room = Some (0, Some s, room - 1) \<and>
    (NUL \<notin> set (case opts of None \<Rightarrow> [] | Some s \<Rightarrow> s) \<union> set opt \<longrightarrow>
      s = joined (case opts of None \<Rightarrow> [] | Some s \<Rightarrow> s) (escape esc opt))"
proof -
  let ?old = "case opts of None \<Rightarrow> [] | Some s \<Rightarrow> s" let ?x = "joined ?old (escape esc opt)"
  obtain r where r: "(do { let b = opt_buf junk ?old opt;
      (d, b) \<leftarrow> (if ?old \<noteq> [] then do { b \<leftarrow> arr_set b (int (length ?old)) (CHR '',''); Some (Suc (length ?old), b) } else Some (length ?old, b));
      (d, b) \<leftarrow> put_opt esc opt d b;
      arr_set b (int d) NUL }) = Some (?x @ NUL # r)"
    using add_opt_writes[of junk ?old opt esc] by blast
  have "add_opt_common junk opts opt esc room = Some (0, Some (c_str (?x @ NUL # r) 0), room - 1)"
    using assms r unfolding add_opt_common_def Let_def by (auto simp: bind_eq_Some_conv split: prod.splits if_splits)
  moreover have "NUL \<notin> set ?x" if "NUL \<notin> set ?old \<union> set opt"
    using that escape_set[of esc opt] by (auto simp: joined_def)
  ultimately show ?thesis by (auto simp: c_str_take)
qed

section \<open>Splitting\<close>

fun split_group :: "string \<Rightarrow> string \<Rightarrow> string list" where
  "split_group acc [] = [acc]"
| "split_group acc (c # s) =
     (if c = CHR '','' then acc # split_group [] s
      else if c = CHR 0x5C then (case s of [] \<Rightarrow> [acc @ [c]] | e # s' \<Rightarrow> split_group (acc @ [e]) s')
      else split_group (acc @ [c]) s)"

fun run_opts :: "optenv \<Rightarrow> string list \<Rightarrow> optctx \<Rightarrow> (int \<times> optctx) option" where
  "run_opts env [] ctx = Some (0, ctx)"
| "run_opts env (a # as) ctx = do { (r, ctx) \<leftarrow> process_gopt env a True ctx; if r = -1 then Some (-1, ctx) else run_opts env as ctx }"

text \<open>In place, the part before \<open>d\<close> is the option read so far and the part from \<open>s\<close> on is still as it was.\<close>

lemma group_loop_ok:
  assumes "take d b = acc" "drop s b = rest @ [NUL]" "d \<le> s" "NUL \<notin> set acc" "NUL \<notin> set rest"
  shows "group_loop env b s d ctx = run_opts env (split_group acc rest) ctx"
  using assms
proof (induction rest arbitrary: b s d acc ctx rule: length_induct)
  case (1 rest)
  note IH = 1(1)[rule_format] and p = 1(2-6)
  have l: "length b = s + Suc (length rest)" using arg_cong[OF p(2), of length] by (cases "s \<le> length b") auto
  have la: "length acc = d" using p(1,3) l by (auto simp: p(1)[symmetric])
  have at: "b ! (s + i) = (rest @ [NUL]) ! i" if "i \<le> length rest" for i
    using that l unfolding p(2)[symmetric] by (simp add: nth_drop)
  have fin: "c_str (b[d := NUL]) 0 = acc" using p(1,3,4) l by (simp add: upd_conv_take_nth_drop c_str_take)
  show ?case
  proof (cases rest)
    case Nil
    with at[of 0] l p(3) fin show ?thesis by (simp add: group_loop.simps split: prod.splits Option.bind_splits)
  next
    case (Cons c rest')
    have c: "b ! s = c" "c \<noteq> NUL" "NUL \<notin> set rest'" using at[of 0] p(5) Cons by auto
    have dr: "drop (Suc s) b = rest' @ [NUL]" using p(2) Cons l by (metis Cons_nth_drop_Suc append_Cons list.inject add_Suc_right less_add_Suc1)
    have keep: "drop k (b[d := x]) = drop k b" if "d < k" for k x using that by (simp add: drop_update_cancel)
    have tk: "take (Suc d) (b[d := x]) = acc @ [x]" for x
      using p(1,3) l by (simp add: take_Suc_conv_app_nth upd_conv_take_nth_drop la)
    consider "c = CHR '',''" | "c = CHR 0x5C" "rest' = []" | e rest'' where "c = CHR 0x5C" "rest' = e # rest''" | "c \<noteq> CHR '',''" "c \<noteq> CHR 0x5C"
      by (cases rest') auto
    then show ?thesis
    proof cases
      case 1
      have "group_loop env (b[d := NUL]) (Suc s) 0 ctx' = run_opts env (split_group [] rest') ctx'" for ctx'
        using IH[of rest' 0 "b[d := NUL]" "[]" "Suc s" ctx'] Cons c(3) dr keep p(3) by simp
      with 1 Cons c l p(3) fin show ?thesis by (subst group_loop.simps) (simp split: prod.splits Option.bind_splits)
    next
      case 2
      have "arr_get b (int (Suc s)) = Some NUL" using at[of 1] Cons 2(2) l by (simp del: of_nat_Suc)
      moreover have "group_loop env (b[d := c]) (Suc s) (Suc d) ctx = run_opts env (split_group (acc @ [c]) []) ctx"
        using IH[of "[]" "Suc d" "b[d := c]" "acc @ [c]" "Suc s" ctx] Cons c dr keep p(3,4) tk 2 by simp
      ultimately show ?thesis using 2 Cons c l p(3) by (subst group_loop.simps) (simp del: of_nat_Suc)
    next
      case (3 e rest'')
      have e: "b ! Suc s = e" "e \<noteq> NUL" "NUL \<notin> set rest''" using at[of 1] Cons 3(2) c(3) by auto
      have "drop (Suc (Suc s)) b = rest'' @ [NUL]" using dr 3(2) by (metis drop_Suc drop_tl list.sel(3) append_Cons)
      then have "group_loop env (b[d := e]) (Suc (Suc s)) (Suc d) ctx = run_opts env (split_group (acc @ [e]) rest'') ctx"
        using IH[of rest'' "Suc d" "b[d := e]" "acc @ [e]" "Suc (Suc s)" ctx] Cons 3 e keep p(3,4) tk by simp
      then show ?thesis using 3 Cons c e l p(3) by (subst group_loop.simps) (simp del: of_nat_Suc)
    next
      case 4
      have "group_loop env (b[d := c]) (Suc s) (Suc d) ctx = run_opts env (split_group (acc @ [c]) rest') ctx"
        using IH[of rest' "Suc d" "b[d := c]" "acc @ [c]" "Suc s" ctx] Cons c dr keep p(3,4) tk by simp
      then show ?thesis using 4 Cons c l p(3) by (subst group_loop.simps) simp
    qed
  qed
qed

lemma split_escape:
  "split_group acc (escape True s) = [acc @ s]"
  "split_group acc (escape True s @ CHR '','' # r) = (acc @ s) # split_group [] r"
  by (induction s arbitrary: acc) auto

fun add_all :: "string list \<Rightarrow> string option \<Rightarrow> nat \<Rightarrow> (int \<times> string option \<times> nat) option" where
  "add_all [] opts room = Some (0, opts, room)"
| "add_all (x # xs) opts room = do {
     (r, opts, room) \<leftarrow> fuse_opt_add_opt_escaped opts x room;
     if r = -1 then Some (-1, opts, room) else add_all xs opts room }"

fun group_text :: "string list \<Rightarrow> string" where
  "group_text [] = []"
| "group_text [x] = escape True x"
| "group_text (x # xs) = escape True x @ CHR '','' # group_text xs"

lemma split_group_text: "xs \<noteq> [] \<Longrightarrow> split_group [] (group_text xs) = xs"
  by (induction xs rule: group_text.induct) (auto simp: split_escape)

lemma escape_Nil_iff [simp]: "escape esc s = [] \<longleftrightarrow> s = []"
  by (cases s) auto

lemma group_text_snoc: "xs \<noteq> [] \<Longrightarrow> group_text (xs @ [x]) = group_text xs @ CHR '','' # escape True x"
  by (induction xs rule: group_text.induct) auto

lemma group_text_nonempty: "xs \<noteq> [] \<Longrightarrow> hd xs \<noteq> [] \<Longrightarrow> group_text xs \<noteq> []"
  by (cases xs rule: group_text.cases) auto

lemma group_text_NUL: "NUL \<notin> \<Union> (set ` set xs) \<Longrightarrow> NUL \<notin> set (group_text xs)"
  by (induction xs rule: group_text.induct) (use escape_set[of True] in fastforce)+

lemma add_all_more:
  assumes "ys \<noteq> []" "hd ys \<noteq> []" "NUL \<notin> \<Union> (set ` set (ys @ xs))" "length xs \<le> room"
  shows "add_all xs (Some (group_text ys)) room = Some (0, Some (group_text (ys @ xs)), room - length xs)"
  using assms
proof (induction xs arbitrary: ys room)
  case (Cons x xs)
  have n: "NUL \<notin> set (group_text ys)" "NUL \<notin> set x" using Cons.prems(3) group_text_NUL[of ys] by auto
  have j: "joined (group_text ys) (escape True x) = group_text (ys @ [x])"
    using Cons.prems(1,2) group_text_nonempty[of ys] by (simp add: joined_def group_text_snoc)
  obtain s where "add_opt_common no_junk (Some (group_text ys)) x True room = Some (0, Some s, room - 1)" "s = group_text (ys @ [x])"
    using add_opt_common_ok[of room no_junk "Some (group_text ys)" x True] n j Cons.prems(4) by auto
  with Cons.IH[of "ys @ [x]" "room - 1"] Cons.prems show ?case by (simp add: fuse_opt_add_opt_escaped_def)
qed simp

lemma add_all_ok:
  assumes "xs \<noteq> []" "hd xs \<noteq> []" "NUL \<notin> \<Union> (set ` set xs)" "length xs \<le> room"
  shows "add_all xs None room = Some (0, Some (group_text xs), room - length xs)"
proof (cases xs)
  case (Cons x ys)
  obtain s where "add_opt_common no_junk None x True room = Some (0, Some s, room - 1)" "s = escape True x"
    using add_opt_common_ok[of room no_junk None x True] assms Cons by (auto simp: joined_def)
  with add_all_more[of "[x]" ys "room - 1"] assms Cons show ?thesis by (simp add: fuse_opt_add_opt_escaped_def)
qed (use assms in simp)

text \<open>
  C21.  Options joined with \<open>fuse_opt_add_opt_escaped\<close>, commas and backslashes in them
  included, come apart again: processing the group in place processes exactly these options,
  in order.
\<close>

theorem fuse_opt_group_round_trip:
  assumes "xs \<noteq> []" "hd xs \<noteq> []" "NUL \<notin> \<Union> (set ` set xs)" "length xs \<le> room" "0 < oc_room ctx"
  shows "\<exists>g. add_all xs None room = Some (0, Some g, room - length xs) \<and>
    process_option_group env g ctx = run_opts env xs (ctx\<lparr>oc_room := oc_room ctx - 1\<rparr>)"
proof -
  have "process_option_group env (group_text xs) ctx = run_opts env xs (ctx\<lparr>oc_room := oc_room ctx - 1\<rparr>)"
    using group_loop_ok[of 0 "group_text xs @ [NUL]" "[]" 0 "group_text xs"] group_text_NUL[OF assms(3)] assms(1,5)
    by (simp add: process_option_group_def split_group_text)
  with add_all_ok[OF assms(1-4)] show ?thesis by blast
qed

theorem fuse_opt_group_round_trip_witness:
  "\<exists>g. add_all [''a,b'', '''', [CHR 0x5C]] None 3 = Some (0, Some g, 0) \<and>
    process_option_group \<lparr>oe_opts = [], oe_proc = None, oe_scan = \<lambda>_ _. None, oe_argv = []\<rparr> g
      \<lparr>oc_data = \<lambda>_. Num 0, oc_argctr = 0, oc_out = no_args, oc_opts = None, oc_nonopt = 0, oc_room = 9\<rparr> =
    run_opts \<lparr>oe_opts = [], oe_proc = None, oe_scan = \<lambda>_ _. None, oe_argv = []\<rparr> [''a,b'', '''', [CHR 0x5C]]
      \<lparr>oc_data = \<lambda>_. Num 0, oc_argctr = 0, oc_out = no_args, oc_opts = None, oc_nonopt = 0, oc_room = 8\<rparr>"
  using fuse_opt_group_round_trip[of "[''a,b'', '''', [CHR 0x5C]]" 3
      "\<lparr>oc_data = \<lambda>_. Num 0, oc_argctr = 0, oc_out = no_args, oc_opts = None, oc_nonopt = 0, oc_room = 9\<rparr>"
      "\<lparr>oe_opts = [], oe_proc = None, oe_scan = \<lambda>_ _. None, oe_argv = []\<rparr>"] by simp

section \<open>The parser always ends\<close>

text \<open>A vector that may be extended.\<close>

definition out_ok :: "fuse_args \<Rightarrow> bool" where
  "out_ok a \<longleftrightarrow> (ag_argv a \<noteq> None \<longrightarrow> ag_allocated a) \<and> \<not> ag_gone a"

definition ctx_ok :: "optctx \<Rightarrow> bool" where
  "ctx_ok ctx \<longleftrightarrow> out_ok (oc_out ctx) \<and> ag_list (oc_out ctx) \<noteq> []"

text \<open>A step that ends: with -1, or in a state from which the parse can go on.\<close>

definition ends :: "optctx \<Rightarrow> (int \<times> optctx) option \<Rightarrow> bool" where
  "ends ctx res \<longleftrightarrow> (\<exists>r ctx'. res = Some (r, ctx') \<and> oc_argctr ctx \<le> oc_argctr ctx' \<and> (r \<noteq> -1 \<longrightarrow> ctx_ok ctx'))"

lemma ends_Some: "ends ctx (Some (r, ctx')) \<longleftrightarrow> oc_argctr ctx \<le> oc_argctr ctx' \<and> (r \<noteq> -1 \<longrightarrow> ctx_ok ctx')"
  by (simp add: ends_def)

lemma ends_later: "ends ctx' res \<Longrightarrow> oc_argctr ctx \<le> oc_argctr ctx' \<Longrightarrow> ends ctx res"
  by (auto simp: ends_def)

text \<open>Sequential composition.\<close>

lemma ends_bind:
  assumes "ends ctx m" and "\<And>r ctx'. oc_argctr ctx \<le> oc_argctr ctx' \<Longrightarrow> (r \<noteq> -1 \<Longrightarrow> ctx_ok ctx') \<Longrightarrow> ends ctx (g (r, ctx'))"
  shows "ends ctx (m \<bind> g)"
  using assms by (auto simp: ends_def)

lemma fuse_opt_add_arg_ends:
  "out_ok a \<Longrightarrow> \<exists>r a' room'. fuse_opt_add_arg a arg room = Some (r, a', room') \<and> (r \<noteq> -1 \<longrightarrow> out_ok a' \<and> ag_list a' = ag_list a @ [arg])"
  by (auto simp: fuse_opt_add_arg_def out_ok_def ag_list_def)

lemma add_arg_ends: "out_ok (oc_out ctx) \<Longrightarrow> ends ctx (add_arg ctx arg)"
  using fuse_opt_add_arg_ends[of "oc_out ctx" arg "oc_room ctx"] by (auto simp: add_arg_def ends_def ctx_ok_def)

lemma add_opt_ends: "ctx_ok ctx \<Longrightarrow> ends ctx (add_opt ctx x)"
  using add_opt_common_ok[of "oc_room ctx" no_junk "oc_opts ctx" x True]
  by (cases "oc_room ctx = 0") (auto simp: add_opt_def fuse_opt_add_opt_escaped_def ends_def ctx_ok_def add_opt_common_def[of _ _ _ _ 0] Let_def)

lemma match_template_format:
  "match_template t arg = Some sep \<Longrightarrow> sep \<noteq> 0 \<Longrightarrow> sep + 1 < length t \<Longrightarrow> t ! (sep + 1) = CHR ''%''"
  by (auto simp: match_template_def Let_def split: option.splits if_splits)

lemma match_template_joined:
  assumes "match_template t arg = Some sep" "sep \<noteq> 0" "t ! sep = CHR '' ''" "length arg \<le> sep"
  shows "match_template t (take sep arg @ x) = Some sep"
proof -
  have "length arg = sep" "take sep t = take sep arg" "sep + 1 = length t \<or> t ! (sep + 1) = CHR ''%''"
      "(case index_of (CHR ''='') t of Some i \<Rightarrow> Some i | None \<Rightarrow> index_of (CHR '' '') t) = Some sep"
    using assms by (auto simp: match_template_def Let_def split: option.splits if_splits)
  with assms(3) show ?thesis unfolding match_template_def Let_def by simp
qed

lemma process_opt_param_ends:
  assumes "ctx_ok ctx" "fm \<noteq> []" "fm ! 0 = CHR ''%''"
  shows "ends ctx (process_opt_param env fld fm param ctx)"
  using assms by (auto simp: process_opt_param_def ends_Some ctx_ok_def split: option.splits)

text \<open>The calls a table gives rise to.\<close>

definition asked :: "fuse_opt list \<Rightarrow> string \<Rightarrow> int \<Rightarrow> bool" where
  "asked opts arg key \<longleftrightarrow> key = FUSE_OPT_KEY_OPT \<or> key = FUSE_OPT_KEY_NONOPT \<or>
     (\<exists>p \<in> set opts. op_field p = None \<and> match_template (op_templ p) arg \<noteq> None \<and> op_value p = key)"

lemma find_opt_matches:
  "find_opt ps arg = Some (sep, p, qs) \<Longrightarrow> match_template (op_templ p) arg = Some sep \<and> p \<in> set ps \<and> set qs \<subseteq> set ps"
  by (induction ps) (auto split: option.splits)

locale opt_client =
  fixes opts :: "fuse_opt list" and f :: opt_proc
  assumes returns: "out_ok a \<Longrightarrow> asked opts arg key \<Longrightarrow>
    \<exists>r d' a' room'. f d arg key a room = Some (r, d', a', room') \<and> (r \<noteq> -1 \<longrightarrow> out_ok a' \<and> (ag_list a \<noteq> [] \<longrightarrow> ag_list a' \<noteq> []))"
begin

lemma call_proc_ends:
  assumes "oe_proc env = Some f" "ctx_ok ctx" "key \<noteq> FUSE_OPT_KEY_KEEP \<Longrightarrow> key \<noteq> FUSE_OPT_KEY_DISCARD \<Longrightarrow> asked opts arg key"
  shows "ends ctx (call_proc env ctx arg key grp)"
proof -
  let ?m = "if key \<noteq> FUSE_OPT_KEY_KEEP then do {
      (r, dat, a, room) \<leftarrow> f (oc_data ctx) arg key (oc_out ctx) (oc_room ctx);
      Some (r, ctx\<lparr>oc_data := dat, oc_out := a, oc_room := room\<rparr>) } else Some (1, ctx)"
  have m: "ends ctx ?m" if "key \<noteq> FUSE_OPT_KEY_DISCARD"
    using assms(2,3) that returns[of "oc_out ctx" arg key "oc_data ctx" "oc_room ctx"] by (auto simp: ends_def ctx_ok_def)
  have k: "ends ctx (if res = -1 \<or> res = 0 then Some (res, ctx') else if grp then add_opt ctx' arg else add_arg ctx' arg)"
    if "oc_argctr ctx \<le> oc_argctr ctx'" "res \<noteq> -1 \<Longrightarrow> ctx_ok ctx'" for res ctx'
    using that ends_later[OF add_opt_ends, of ctx' ctx arg] ends_later[OF add_arg_ends, of ctx' ctx arg] by (auto simp: ends_Some ctx_ok_def)
  show ?thesis
    using assms(1,2) ends_bind[OF m, of "\<lambda>(res, ctx). if res = -1 \<or> res = 0 then Some (res, ctx) else if grp then add_opt ctx arg else add_arg ctx arg"] k
    by (auto simp: call_proc_def ends_Some)
qed

lemma process_opt_ends:
  assumes "oe_proc env = Some f" "ctx_ok ctx" "p \<in> set opts" "match_template (op_templ p) arg = Some sep"
  shows "ends ctx (process_opt env p sep arg grp ctx)"
proof (cases "op_field p")
  case None
  have "ends ctx (call_proc env ctx arg (op_value p) grp)"
    by (rule call_proc_ends[OF assms(1,2)]) (use assms(3,4) None in \<open>auto simp: asked_def\<close>)
  from ends_bind[OF this, of "\<lambda>(r, ctx). Some (if r = -1 then -1 else 0, ctx)"] None show ?thesis
    by (simp add: process_opt_def ends_Some)
next
  case (Some field)
  then show ?thesis
    using assms(2) match_template_format[OF assms(4)] process_opt_param_ends[OF assms(2), of "drop (sep + 1) (op_templ p)" env field]
    by (auto simp: process_opt_def Let_def ends_Some ctx_ok_def)
qed

lemma process_opt_sep_arg_ends:
  assumes "oe_proc env = Some f" "ctx_ok ctx" "p \<in> set opts" "match_template (op_templ p) arg = Some sep"
    "sep \<noteq> 0" "op_templ p ! sep = CHR '' ''" "length arg \<le> sep"
  shows "ends ctx (process_opt_sep_arg env p sep arg grp ctx)"
proof -
  have "ends (ctx\<lparr>oc_argctr := i, oc_room := k\<rparr>) (process_opt env p sep (take sep arg @ x) grp (ctx\<lparr>oc_argctr := i, oc_room := k\<rparr>))" for i k x
    using process_opt_ends[OF assms(1) _ assms(3) match_template_joined[OF assms(4-7)]] assms(2) by (simp add: ctx_ok_def)
  from ends_later[OF this, where ctx = ctx] show ?thesis by (simp add: process_opt_sep_arg_def next_arg_def ends_Some)
qed

lemma gopt_loop_ends:
  assumes "oe_proc env = Some f" "ctx_ok ctx" "p \<in> set opts" "set ps \<subseteq> set opts" "match_template (op_templ p) arg = Some sep"
  shows "ends ctx (gopt_loop env sep p ps arg grp ctx)"
  using assms
proof (induction env sep p ps arg grp ctx rule: gopt_loop.induct)
  case (1 env sep p ps arg grp ctx)
  have first: "ends ctx (if sep \<noteq> 0 \<and> op_templ p ! sep = CHR '' '' \<and> length arg \<le> sep
      then process_opt_sep_arg env p sep arg grp ctx else process_opt env p sep arg grp ctx)"
    using process_opt_sep_arg_ends[OF 1(2,3,4,6)] process_opt_ends[OF 1(2,3,4,6)] by auto
  then obtain r c where rc: "(if sep \<noteq> 0 \<and> op_templ p ! sep = CHR '' '' \<and> length arg \<le> sep
      then process_opt_sep_arg env p sep arg grp ctx else process_opt env p sep arg grp ctx) = Some (r, c)"
      "oc_argctr ctx \<le> oc_argctr c" "r \<noteq> -1 \<Longrightarrow> ctx_ok c"
    by (auto simp: ends_def)
  show ?case
  proof (cases "r = -1")
    case True
    then show ?thesis using rc by (simp add: gopt_loop.simps[of env sep p] ends_Some)
  next
    case False
    have "ends c (gopt_loop env sep' p' ps' arg grp c)" if fo: "find_opt ps arg = Some (sep', p', ps')" for sep' p' ps'
      using 1(1)[OF rc(1) refl False fo refl refl 1(2) rc(3)[OF False]] 1(5) find_opt_matches[OF fo] by auto
    with rc False show ?thesis by (auto simp: gopt_loop.simps[of env sep p] ends_Some split: option.splits dest: ends_later)
  qed
qed

lemma process_gopt_ends:
  assumes "oe_opts env = opts" "oe_proc env = Some f" "ctx_ok ctx"
  shows "ends ctx (process_gopt env arg grp ctx)"
proof (cases "find_opt opts arg")
  case None
  then show ?thesis using assms call_proc_ends[OF assms(2,3), of FUSE_OPT_KEY_OPT arg grp] by (simp add: process_gopt_def asked_def)
next
  case (Some x)
  then obtain sep p ps where "find_opt opts arg = Some (sep, p, ps)" by (cases x) auto
  with find_opt_matches[OF this] assms gopt_loop_ends[OF assms(2,3), of p ps arg sep grp] show ?thesis by (simp add: process_gopt_def)
qed

text \<open>Splitting a group ends on any buffer that is terminated.\<close>

lemma group_loop_ends:
  assumes "oe_opts env = opts" "oe_proc env = Some f" "ctx_ok ctx" "d \<le> s" "s < length b" "last b = NUL"
  shows "ends ctx (group_loop env b s d ctx)"
  using assms(3-)
proof (induction "length b - s" arbitrary: b s d ctx rule: less_induct)
  case less
  note p = less.prems
  have step: "ends ctx' (group_loop env (b[d := x]) s' d' ctx')"
    if "ctx_ok ctx'" "s < s'" "s' < length b" "d' \<le> s'" "d < length b - 1 \<or> x = NUL" for x s' d' ctx'
  proof (rule less.hyps)
    show "last (b[d := x]) = NUL" using p that(5) by (subst last_list_update) auto
  qed (use p that in auto)
  have l: "b ! (length b - 1) = NUL" using p(3,4) by (subst last_conv_nth[symmetric]) auto
  show ?case
  proof (cases "b ! s = NUL \<or> b ! s = CHR '',''")
    case True
    let ?c = "c_str (b[d := NUL]) 0"
    have g: "ends ctx (process_gopt env ?c True ctx)" using process_gopt_ends assms(1,2) p(1) by blast
    have k: "ends ctx (if r = -1 then Some (-1, c) else if b ! s = NUL then Some (0, c) else group_loop env (b[d := NUL]) (Suc s) 0 c)"
      if rc: "oc_argctr ctx \<le> oc_argctr c" "r \<noteq> -1 \<Longrightarrow> ctx_ok c" for r c
    proof -
      have "Suc s < length b" if "b ! s \<noteq> NUL" using that l p(3) by (cases "s = length b - 1") auto
      then show ?thesis using rc step[of c "Suc s" 0 NUL] ends_later[of c _ ctx] by (auto simp: ends_Some)
    qed
    show ?thesis
      using True p(2,3) ends_bind[OF g, of "\<lambda>(r, c). if r = -1 then Some (-1, c) else if b ! s = NUL then Some (0, c) else group_loop env (b[d := NUL]) (Suc s) 0 c"] k
      by (subst group_loop.simps) auto
  next
    case False
    then have s1: "Suc s < length b" using l p(3) by (cases "s = length b - 1") auto
    have "Suc (Suc s) < length b" if "b ! Suc s \<noteq> NUL" using that l s1 by (cases "Suc s = length b - 1") auto
    with False s1 p(1,2) step[OF p(1), of "Suc s" "Suc d" "b ! s"] step[OF p(1), of "Suc (Suc s)" "Suc d" "b ! Suc s"]
    show ?thesis by (subst group_loop.simps) (auto simp del: of_nat_Suc)
  qed
qed

lemma process_option_group_ends:
  assumes "oe_opts env = opts" "oe_proc env = Some f" "ctx_ok ctx"
  shows "ends ctx (process_option_group env x ctx)"
proof -
  let ?ctx = "ctx\<lparr>oc_room := oc_room ctx - 1\<rparr>"
  have "ends ?ctx (group_loop env (x @ [NUL]) 0 0 ?ctx)"
    by (rule group_loop_ends[OF assms(1,2)]) (use assms(3) in \<open>simp_all add: ctx_ok_def\<close>)
  with assms(3) show ?thesis by (auto simp: process_option_group_def ends_Some intro: ends_later)
qed

lemma process_one_ends:
  assumes "oe_opts env = opts" "oe_proc env = Some f" "ctx_ok ctx"
  shows "ends ctx (process_one env arg ctx)"
proof -
  have g: "ends (ctx\<lparr>oc_argctr := i\<rparr>) (process_option_group env x (ctx\<lparr>oc_argctr := i\<rparr>))" for i x
    using process_option_group_ends[OF assms(1,2)] assms(3) by (simp add: ctx_ok_def)
  have a: "ends ctx (add_arg ctx arg \<bind> (\<lambda>(r, ctx). if r = -1 then Some (-1, ctx) else Some (0, ctx\<lparr>oc_nonopt := length (ag_list (oc_out ctx))\<rparr>)))"
    by (rule ends_bind[OF add_arg_ends]) (use assms(3) in \<open>auto simp: ends_Some ctx_ok_def\<close>)
  show ?thesis
    using a process_gopt_ends[OF assms, of arg False] process_option_group_ends[OF assms, of "drop 2 arg"] ends_later[OF g[of "Suc (oc_argctr ctx)"], of ctx]
      call_proc_ends[OF assms(2,3), of FUSE_OPT_KEY_NONOPT arg False]
    by (auto simp: process_one_def next_arg_def asked_def ends_Some)
qed

lemma args_loop_ends:
  assumes "oe_opts env = opts" "oe_proc env = Some f" "ctx_ok ctx"
  shows "ends ctx (args_loop env ctx)"
  using assms(3)
proof (induction "length (oe_argv env) - oc_argctr ctx" arbitrary: ctx rule: less_induct)
  case less
  show ?case
  proof (cases "oc_argctr ctx < length (oe_argv env)")
    case True
    have k: "ends ctx (if r = -1 then Some (-1, c) else args_loop env (c\<lparr>oc_argctr := oc_argctr c + 1\<rparr>))"
      if rc: "oc_argctr ctx \<le> oc_argctr c" "r \<noteq> -1 \<Longrightarrow> ctx_ok c" for r c
      using rc less.hyps[of "c\<lparr>oc_argctr := oc_argctr c + 1\<rparr>"] True ends_later[of "c\<lparr>oc_argctr := oc_argctr c + 1\<rparr>" _ ctx]
      by (auto simp: ends_Some ctx_ok_def)
    from ends_bind[OF process_one_ends[OF assms(1,2) less.prems], of "\<lambda>(r, c). if r = -1 then Some (-1, c) else args_loop env (c\<lparr>oc_argctr := oc_argctr c + 1\<rparr>)"] k
    show ?thesis using True by (subst args_loop.simps) auto
  next
    case False
    then show ?thesis using less.prems by (subst args_loop.simps) (simp add: ends_Some)
  qed
qed

lemma insert_opts_ends: "ctx_ok ctx \<Longrightarrow> ends ctx (insert_opts ctx)"
proof (cases "oc_opts ctx")
  case (Some x)
  assume k: "ctx_ok ctx"
  then have a: "out_ok (oc_out ctx)" "1 \<le> length (ag_list (oc_out ctx))" by (auto simp: ctx_ok_def Suc_le_eq)
  have ins: "\<exists>r a' room'. fuse_opt_insert_arg a i y room = Some (r, a', room') \<and> (r \<noteq> -1 \<longrightarrow> out_ok a' \<and> length (ag_list a') = Suc (length (ag_list a)))"
    if "out_ok a" "i \<le> length (ag_list a)" for a i y room
    using fuse_opt_add_arg_ends[OF that(1), of y room] that(2)
    by (auto simp: fuse_opt_insert_arg_def Let_def out_ok_def ag_list_def)
  obtain r1 a1 m1 where 1: "fuse_opt_insert_arg (oc_out ctx) 1 ''-o'' (oc_room ctx) = Some (r1, a1, m1)"
      "r1 \<noteq> -1 \<longrightarrow> out_ok a1 \<and> length (ag_list a1) = Suc (length (ag_list (oc_out ctx)))"
    using ins[OF a, of "''-o''" "oc_room ctx"] by blast
  show ?thesis
  proof (cases "r1 = -1")
    case True
    then show ?thesis using 1 Some by (simp add: insert_opts_def ends_Some)
  next
    case False
    with 1 a(2) obtain r2 a2 m2 where "fuse_opt_insert_arg a1 2 x m1 = Some (r2, a2, m2)" "r2 \<noteq> -1 \<longrightarrow> out_ok a2 \<and> length (ag_list a2) = Suc (length (ag_list a1))"
      using ins[of a1 2 x m1] by auto
    with 1 False Some show ?thesis by (auto simp: insert_opts_def ends_Some ctx_ok_def)
  qed
qed (simp add: insert_opts_def ends_Some)

lemma opt_parse_ends:
  assumes "oe_opts env = opts" "oe_proc env = Some f" "oe_argv env \<noteq> []" "out_ok (oc_out ctx)"
  shows "opt_parse env ctx \<noteq> None"
proof -
  have "\<exists>r c. add_arg ctx (oe_argv env ! 0) = Some (r, c) \<and> (r \<noteq> -1 \<longrightarrow> ctx_ok c)"
    using add_arg_ends[OF assms(4), of "oe_argv env ! 0"] by (auto simp: ends_def)
  moreover have "\<exists>r c'. args_loop env (c\<lparr>oc_argctr := 1\<rparr>) = Some (r, c') \<and> (r \<noteq> -1 \<longrightarrow> ctx_ok c')" if "ctx_ok c" for c
    using args_loop_ends[OF assms(1,2), of "c\<lparr>oc_argctr := 1\<rparr>"] that by (auto simp: ends_def ctx_ok_def)
  moreover have "\<exists>r c'. insert_opts c = Some (r, c')" if "ctx_ok c" for c
    using insert_opts_ends[OF that] by (auto simp: ends_def)
  ultimately show ?thesis unfolding opt_parse_def using assms(3) by (fastforce split: prod.splits)
qed

end

end
