(* ===== verification/Fuse_Mount.thy ===== *)
theory Fuse_Mount
  imports Vfs_Fuse Fuse_Opt
begin

text \<open>
  From the arguments of the program to a mounted session: the option tables of
  \<open>src/fuse/fuse_lowlevel.c\<close> and \<open>src/fuse/mount.c\<close>, the creation of a session, and
  \<open>vfs_fuse_init\<close> of \<open>src/vfs_fuse.c\<close>.

  The two ways to mount, the system call and the program \<open>fusermount\<close>, are parameters: functions
  from the options to a descriptor.  Text for help and version is left out.
\<close>

unbundle bit_operations_syntax

section \<open>Fields of an options struct\<close>

definition numf :: "odata \<Rightarrow> string \<Rightarrow> int" where
  "numf d f = (case d f of Num i \<Rightarrow> i | Text _ \<Rightarrow> 0)"

definition txtf :: "odata \<Rightarrow> string \<Rightarrow> string option" where
  "txtf d f = (case d f of Num _ \<Rightarrow> None | Text t \<Rightarrow> t)"

text \<open>\<open>fuse_opt_add_opt\<close> on a field.\<close>

definition add_field :: "odata \<Rightarrow> string \<Rightarrow> string \<Rightarrow> nat \<Rightarrow> (int \<times> odata \<times> nat) option" where
  "add_field d f opt room = do {
     (r, t, room) \<leftarrow> fuse_opt_add_opt (txtf d f) opt room;
     Some (r, d(f := Text t), room) }"

text \<open>
  \<open>sscanf\<close> with \<open>%u\<close>: white space, a sign, digits.  The number is that of \<open>strtoul\<close>, cut to
  32 bits.
\<close>

definition scan_u :: "string \<Rightarrow> int option" where
  "scan_u s =
     (let t = dropWhile c_isspace s;
          neg = (t \<noteq> [] \<and> hd t = CHR ''-'');
          u = (if t \<noteq> [] \<and> (hd t = CHR ''-'' \<or> hd t = CHR ''+'') then tl t else t);
          v = digits_value 10 u
      in if u = [] \<or> 10 \<le> digit_val (hd u) then None
         else Some ((if 2 ^ 64 \<le> v then 2 ^ 64 - 1 else if neg then - int v else int v) mod 2 ^ 32))"

definition opt_scan :: "string \<Rightarrow> string \<Rightarrow> int option" where
  "opt_scan format param = (if format = ''%u'' then scan_u param else None)"

section \<open>Options of the session\<close>

definition key_opt :: "string \<Rightarrow> int \<Rightarrow> fuse_opt" where
  "key_opt t k = \<lparr>op_templ = t, op_field = None, op_value = k\<rparr>"

definition field_opt :: "string \<Rightarrow> string \<Rightarrow> int \<Rightarrow> fuse_opt" where
  "field_opt t f v = \<lparr>op_templ = t, op_field = Some f, op_value = v\<rparr>"

definition fuse_ll_opts :: "fuse_opt list" where
  "fuse_ll_opts = [field_opt ''debug'' ''debug'' 1, field_opt ''-d'' ''debug'' 1, field_opt ''allow_root'' ''allow_root'' 1,
     field_opt ''max_write=%u'' ''max_write'' 0, field_opt ''max_readahead=%u'' ''max_readahead'' 0,
     field_opt ''async_read'' ''async_read'' 1, field_opt ''sync_read'' ''async_read'' 0,
     field_opt ''atomic_o_trunc'' ''atomic_o_trunc'' 1, field_opt ''big_writes'' ''big_writes'' 1,
     key_opt ''max_read='' FUSE_OPT_KEY_DISCARD, key_opt ''-h'' 0, key_opt ''--help'' 0, key_opt ''-V'' 1, key_opt ''--version'' 1]"

text \<open>Help, version and unknown options all end the start.\<close>

definition fuse_ll_opt_proc :: opt_proc where
  "fuse_ll_opt_proc d arg key a room = Some (-1, d, a, room)"

definition fuse_lowlevel_is_lib_option :: "string \<Rightarrow> bool" where
  "fuse_lowlevel_is_lib_option x = fuse_opt_match fuse_ll_opts x"

definition UINT_MAX :: int where
  "UINT_MAX = 2 ^ 32 - 1"

definition ll_data :: odata where
  "ll_data = (\<lambda>_. Num 0)(''async_read'' := Num 1, ''max_write'' := Num UINT_MAX, ''max_readahead'' := Num UINT_MAX)"

text \<open>\<open>p\<close> is the memory of the session; the state of the library is set up when everything has succeeded.\<close>

definition fuse_lowlevel_new :: "u32 \<Rightarrow> ptr \<Rightarrow> fuse_args \<Rightarrow> nat \<Rightarrow> 'a sessst_scheme \<Rightarrow> (ptr \<times> fuse_args \<times> nat \<times> 'a sessst_scheme) option" where
  "fuse_lowlevel_new uid p args room s =
     (if room = 0 then Some (NULL, args, 0, s)
      else do {
        (r, d, args, room) \<leftarrow> fuse_opt_parse opt_scan args ll_data fuse_ll_opts (Some fuse_ll_opt_proc) (room - 1);
        if r = -1 then Some (NULL, args, room, s)
        else (case fuse_session_new p s of
                (se, s) \<Rightarrow>
                  if se = NULL then Some (NULL, args, room, s)
                  else Some (se, args, room, s\<lparr>ll_allow_root := (numf d ''allow_root'' \<noteq> 0), ll_atomic_o_trunc := (numf d ''atomic_o_trunc'' \<noteq> 0),
                    ll_big_writes := (numf d ''big_writes'' \<noteq> 0), ll_got_init := False, ll_got_destroy := False, ll_owner := uid,
                    ll_conn := \<lparr>cn_proto_major = 0, cn_proto_minor = 0, cn_async_read = word_of_int (numf d ''async_read''),
                      cn_max_write = word_of_int (numf d ''max_write''), cn_max_readahead = word_of_int (numf d ''max_readahead''),
                      cn_capable = 0, cn_want = 0\<rparr>,
                    ll_list := [], ll_interrupts := []\<rparr>)) })"

section \<open>Options of the mount\<close>

definition KEY_KERN_FLAG :: int where "KEY_KERN_FLAG = 0"
definition KEY_KERN_OPT :: int where "KEY_KERN_OPT = 1"
definition KEY_FUSERMOUNT_OPT :: int where "KEY_FUSERMOUNT_OPT = 2"
definition KEY_SUBTYPE_OPT :: int where "KEY_SUBTYPE_OPT = 3"
definition KEY_MTAB_OPT :: int where "KEY_MTAB_OPT = 4"
definition KEY_ALLOW_ROOT :: int where "KEY_ALLOW_ROOT = 5"
definition KEY_RO :: int where "KEY_RO = 6"
definition KEY_HELP :: int where "KEY_HELP = 7"
definition KEY_VERSION :: int where "KEY_VERSION = 8"

lemmas key_defs = KEY_KERN_FLAG_def KEY_KERN_OPT_def KEY_FUSERMOUNT_OPT_def KEY_SUBTYPE_OPT_def KEY_MTAB_OPT_def KEY_ALLOW_ROOT_def
  KEY_RO_def KEY_HELP_def KEY_VERSION_def FUSE_OPT_KEY_OPT_def FUSE_OPT_KEY_NONOPT_def FUSE_OPT_KEY_KEEP_def FUSE_OPT_KEY_DISCARD_def

definition fuse_mount_opts :: "fuse_opt list" where
  "fuse_mount_opts = [field_opt ''allow_other'' ''allow_other'' 1, field_opt ''allow_root'' ''allow_root'' 1, field_opt ''nonempty'' ''nonempty'' 1,
     field_opt ''blkdev'' ''blkdev'' 1, field_opt ''fsname=%s'' ''fsname'' 1, field_opt ''subtype=%s'' ''subtype'' 1,
     key_opt ''allow_other'' KEY_KERN_OPT, key_opt ''allow_root'' KEY_ALLOW_ROOT, key_opt ''nonempty'' KEY_FUSERMOUNT_OPT,
     key_opt ''blkdev'' KEY_FUSERMOUNT_OPT, key_opt ''fsname='' KEY_FUSERMOUNT_OPT, key_opt ''subtype='' KEY_SUBTYPE_OPT,
     key_opt ''large_read'' KEY_KERN_OPT, key_opt ''blksize='' KEY_KERN_OPT, key_opt ''default_permissions'' KEY_KERN_OPT,
     key_opt ''max_read='' KEY_KERN_OPT, key_opt ''max_read='' FUSE_OPT_KEY_KEEP, key_opt ''user='' KEY_MTAB_OPT, key_opt ''-r'' KEY_RO,
     key_opt ''ro'' KEY_KERN_FLAG, key_opt ''rw'' KEY_KERN_FLAG, key_opt ''suid'' KEY_KERN_FLAG, key_opt ''nosuid'' KEY_KERN_FLAG,
     key_opt ''dev'' KEY_KERN_FLAG, key_opt ''nodev'' KEY_KERN_FLAG, key_opt ''exec'' KEY_KERN_FLAG, key_opt ''noexec'' KEY_KERN_FLAG,
     key_opt ''async'' KEY_KERN_FLAG, key_opt ''sync'' KEY_KERN_FLAG, key_opt ''dirsync'' KEY_KERN_FLAG, key_opt ''atime'' KEY_KERN_FLAG,
     key_opt ''noatime'' KEY_KERN_FLAG, key_opt ''-h'' KEY_HELP, key_opt ''--help'' KEY_HELP, key_opt ''-V'' KEY_VERSION,
     key_opt ''--version'' KEY_VERSION]"

text \<open>The flags of \<open>mount\<close>: name, bit, whether the name sets or clears it.\<close>

definition mount_flags :: "(string \<times> int \<times> bool) list" where
  "mount_flags = [(''rw'', 1, False), (''ro'', 1, True), (''suid'', 2, False), (''nosuid'', 2, True), (''dev'', 4, False), (''nodev'', 4, True),
     (''exec'', 8, False), (''noexec'', 8, True), (''async'', 16, False), (''sync'', 16, True), (''atime'', 1024, False), (''noatime'', 1024, True),
     (''dirsync'', 128, True)]"

text \<open>An unknown name aborts the process.\<close>

definition set_mount_flag :: "string \<Rightarrow> int \<Rightarrow> int option" where
  "set_mount_flag x flags =
     (case map_of mount_flags x of None \<Rightarrow> None | Some (b, on) \<Rightarrow> Some (if on then flags OR b else flags AND NOT b))"

definition fuse_mount_opt_proc :: opt_proc where
  "fuse_mount_opt_proc d arg key a room =
     (let kept = (\<lambda>f. do { (r, d, room) \<leftarrow> add_field d f arg room; Some (r, d, a, room) });
          flag = (\<lambda>x. do { fl \<leftarrow> set_mount_flag x (numf d ''flags''); Some (0, d(''flags'' := Num fl), a, room) })
      in if key = KEY_ALLOW_ROOT then do {
           (r, d, room) \<leftarrow> add_field d ''kernel_opts'' ''allow_other'' room;
           if r = -1 then Some (-1, d, a, room)
           else do {
             (r, a, room) \<leftarrow> fuse_opt_add_arg a ''-oallow_root'' room;
             Some (if r = -1 then -1 else 0, d, a, room) } }
         else if key = KEY_RO then flag ''ro''
         else if key = KEY_KERN_FLAG then flag arg
         else if key = KEY_KERN_OPT then kept ''kernel_opts''
         else if key = KEY_FUSERMOUNT_OPT then kept ''fusermount_opts''
         else if key = KEY_SUBTYPE_OPT then kept ''subtype_opt''
         else if key = KEY_MTAB_OPT then kept ''mtab_opts''
         else if key = KEY_HELP \<or> key = KEY_VERSION then Some (1, d(''ishelp'' := Num 1), a, room)
         else Some (1, d, a, room))"

text \<open>The names of the flags that are set, appended to the options.\<close>

fun flag_names :: "(string \<times> int \<times> bool) list \<Rightarrow> int \<Rightarrow> string option \<Rightarrow> nat \<Rightarrow> (int \<times> string option \<times> nat) option" where
  "flag_names [] flags t room = Some (0, t, room)"
| "flag_names ((x, b, on) # fs) flags t room =
     (if on \<and> flags AND b \<noteq> 0
      then do {
        (r, t, room) \<leftarrow> fuse_opt_add_opt t x room;
        if r = -1 then Some (-1, t, room) else flag_names fs flags t room }
      else flag_names fs flags t room)"

definition get_mnt_flag_opts :: "string option \<Rightarrow> int \<Rightarrow> nat \<Rightarrow> (int \<times> string option \<times> nat) option" where
  "get_mnt_flag_opts t flags room = do {
     (r, t, room) \<leftarrow> (if flags AND 1 = 0 then fuse_opt_add_opt t ''rw'' room else Some (0, t, room));
     if r = -1 then Some (-1, t, room) else flag_names mount_flags flags t room }"

text \<open>\<open>fuse_opt_add_opt\<close> when the option is there.\<close>

definition add_if :: "string option \<Rightarrow> string option \<Rightarrow> nat \<Rightarrow> (int \<times> string option \<times> nat) option" where
  "add_if t x room = (case x of None \<Rightarrow> Some (0, t, room) | Some x \<Rightarrow> fuse_opt_add_opt t x room)"

text \<open>
  \<open>sys d opts\<close> and \<open>fum opts quiet\<close> are the two ways to mount.  The result is a descriptor,
  or -1; when only help was asked for it is 0.
\<close>

definition fuse_kern_mount :: "(odata \<Rightarrow> string option \<Rightarrow> int) \<Rightarrow> (string option \<Rightarrow> bool \<Rightarrow> int) \<Rightarrow> fuse_args \<Rightarrow> nat \<Rightarrow>
    (int \<times> fuse_args \<times> nat) option" where
  "fuse_kern_mount sys fum args room = do {
     (r, d, args, room) \<leftarrow> fuse_opt_parse opt_scan args ((\<lambda>f. if f \<in> set [''fsname'', ''subtype'', ''subtype_opt'', ''mtab_opts'', ''fusermount_opts'', ''kernel_opts'']
         then Text None else Num 0)(''flags'' := Num 6)) fuse_mount_opts (Some fuse_mount_opt_proc) room;
     if r = -1 then Some (-1, args, room)
     else if numf d ''allow_other'' \<noteq> 0 \<and> numf d ''allow_root'' \<noteq> 0 then Some (-1, args, room)
     else if numf d ''ishelp'' \<noteq> 0 then Some (0, args, room)
     else do {
       (r, t, room) \<leftarrow> get_mnt_flag_opts None (numf d ''flags'') room;
       if r = -1 then Some (-1, args, room)
       else do {
         (r, t, room) \<leftarrow> add_if t (txtf d ''kernel_opts'') room;
         if r = -1 then Some (-1, args, room)
         else do {
           (r, t, room) \<leftarrow> add_if t (txtf d ''mtab_opts'') room;
           if r = -1 then Some (-1, args, room)
           else if sys d t \<noteq> -2 then Some (sys d t, args, room)
           else do {
             (r, t, room) \<leftarrow> add_if t (txtf d ''fusermount_opts'') room;
             if r = -1 then Some (-2, args, room)
             else if txtf d ''subtype'' = None then Some (fum t False, args, room)
             else do {
               (r, u, room) \<leftarrow> (case t of None \<Rightarrow> None | Some x \<Rightarrow> fuse_opt_add_opt None x room);
               if r = -1 then Some (-1, args, room)
               else (case txtf d ''subtype_opt'' of
                       None \<Rightarrow> None
                     | Some so \<Rightarrow> do {
                         (r, u, room) \<leftarrow> fuse_opt_add_opt u so room;
                         if r = -1 then Some (-1, args, room)
                         else Some (if fum u True = -1 then fum t False else fum u True, args, room) }) } } } } } }"

text \<open>
  \<open>fuse_mount\<close> (without making sure that the descriptors 0 to 2 are open): \<open>p\<close> is the memory of
  the channel.  When there is none the mount is undone.
\<close>

definition fuse_mount :: "(odata \<Rightarrow> string option \<Rightarrow> int) \<Rightarrow> (string option \<Rightarrow> bool \<Rightarrow> int) \<Rightarrow> nat \<Rightarrow> ptr \<Rightarrow> fuse_args \<Rightarrow> nat \<Rightarrow> 'a sessst_scheme \<Rightarrow>
    (ptr \<times> fuse_args \<times> nat \<times> 'a sessst_scheme) option" where
  "fuse_mount sys fum pagesize p args room s = do {
     (fd, args, room) \<leftarrow> fuse_kern_mount sys fum args room;
     if fd = -1 then Some (NULL, args, room, s)
     else (case fuse_kern_chan_new pagesize p fd (s\<lparr>ss_fds := insert fd (ss_fds s)\<rparr>) of
             (ch, s) \<Rightarrow> Some (ch, args, room, if ch = NULL then s\<lparr>ss_fds := ss_fds s - {fd}\<rparr> else s)) }"

section \<open>The start of the file system\<close>

text \<open>The arguments \<open>main\<close> builds.\<close>

definition main_args :: "string \<Rightarrow> nat \<Rightarrow> (int \<times> fuse_args \<times> nat) option" where
  "main_args prog room = do {
     (r, a, room) \<leftarrow> fuse_opt_add_arg no_args prog room;
     if r = -1 then Some (-1, a, room)
     else do {
       (r, a, room) \<leftarrow> fuse_opt_add_arg a ''-o'' room;
       if r = -1 then Some (-1, a, room)
       else fuse_opt_add_arg a ''nonempty,allow_other'' room } }"

text \<open>
  \<open>vfs_fuse_init\<close>.  Without a channel or a session SIGTERM is raised, which ends the process.
  The memory is that of the channel, the session, and the handle heap; registering the
  descriptor with the event loop only reads it.
\<close>

record mount_env =
  me_sys :: "odata \<Rightarrow> string option \<Rightarrow> int"
  me_fum :: "string option \<Rightarrow> bool \<Rightarrow> int"
  me_pagesize :: nat
  me_uid :: u32
  me_chan :: ptr
  me_sess :: ptr
  me_heap :: "ptr \<times> ptr \<times> ptr"

definition vfs_fuse_init :: "mount_env \<Rightarrow> conf \<Rightarrow> fuse_args \<Rightarrow> nat \<Rightarrow> ('q, 'a) fusest_scheme \<Rightarrow> (fuse_args \<times> nat \<times> ('q, 'a) fusest_scheme) option" where
  "vfs_fuse_init env cf args room s = do {
     (ch, args, room, s) \<leftarrow> fuse_mount (me_sys env) (me_fum env) (me_pagesize env) (me_chan env) args room s;
     if ch = NULL then None
     else do {
       (se, args, room, s) \<leftarrow> fuse_lowlevel_new (me_uid env) (me_sess env) args room s;
       if se = NULL then None
       else do {
         s \<leftarrow> fuse_session_add_chan se ch (s\<lparr>vfs_fuse_chan := ch, vfs_fuse_sess := se\<rparr>);
         _ \<leftarrow> fuse_chan_fd ch s;
         epb \<leftarrow> dconf_get_int cf (Some ''tuning.heap.vfs_handle'') 128;
         (h, v) \<leftarrow> (case me_heap env of (hb, cb, mem) \<Rightarrow>
            blockheap_create hb cb mem (of_nat sizeof_vfs_handle) epb (Some ''vfs_handle'') (fu_vfs s));
         Some (args, room, s\<lparr>fu_vfs := v, vfs_handle_heap := h\<rparr>) } } }"

section \<open>The parser on both tables\<close>

interpretation ll_opts: opt_client fuse_ll_opts fuse_ll_opt_proc
  by unfold_locales (simp add: fuse_ll_opt_proc_def)

lemma add_field_ends: "\<exists>r d' room'. add_field d f x room = Some (r, d', room')"
  using add_opt_common_ok[of room no_junk "txtf d f" x False]
  by (cases "room = 0") (auto simp: add_field_def fuse_opt_add_opt_def add_opt_common_def[of _ _ _ _ 0] Let_def)

lemma flag_templates:
  "\<forall>p \<in> set fuse_mount_opts. op_field p = None \<and> op_value p = KEY_KERN_FLAG \<longrightarrow>
    map_of mount_flags (op_templ p) \<noteq> None \<and> CHR ''='' \<notin> set (op_templ p) \<and> CHR '' '' \<notin> set (op_templ p)"
  by code_simp

lemma match_plain: "match_template x arg \<noteq> None \<Longrightarrow> CHR ''='' \<notin> set x \<Longrightarrow> CHR '' '' \<notin> set x \<Longrightarrow> x = arg"
  by (auto simp: match_template_def index_of_def split: if_splits)

lemma asked_flag:
  assumes "asked fuse_mount_opts arg KEY_KERN_FLAG"
  shows "map_of mount_flags arg \<noteq> None"
proof -
  obtain p where p: "p \<in> set fuse_mount_opts" "match_template (op_templ p) arg \<noteq> None" "op_value p = KEY_KERN_FLAG" "op_field p = None"
    using assms by (auto simp: asked_def key_defs)
  from bspec[OF flag_templates p(1)] p(3,4) match_plain[OF p(2)] show ?thesis by auto
qed

text \<open>What the parser asks of a processing function, for one call.\<close>

definition proc_ends :: "fuse_args \<Rightarrow> (int \<times> odata \<times> fuse_args \<times> nat) option \<Rightarrow> bool" where
  "proc_ends a res \<longleftrightarrow> (\<exists>r d' a' room'. res = Some (r, d', a', room') \<and> (r \<noteq> -1 \<longrightarrow> out_ok a' \<and> (ag_list a \<noteq> [] \<longrightarrow> ag_list a' \<noteq> [])))"

lemma fuse_mount_opt_proc_ends:
  assumes a: "out_ok a" and k: "asked fuse_mount_opts arg key"
  shows "proc_ends a (fuse_mount_opt_proc d arg key a room)"
proof -
  have f: "\<exists>fl. set_mount_flag arg n = Some fl" if "key = KEY_KERN_FLAG" for n
    using asked_flag[of arg] k that by (auto simp: set_mount_flag_def)
  have ro: "\<exists>fl. set_mount_flag ''ro'' n = Some fl" for n by (simp add: set_mount_flag_def mount_flags_def)
  have af: "proc_ends a (do { (r, d, room) \<leftarrow> add_field d fl arg room; Some (r, d, a, room) })" for fl
    using add_field_ends[of d fl arg room] a by (auto simp: proc_ends_def)
  have fl: "proc_ends a (do { fl \<leftarrow> set_mount_flag x (numf d ''flags''); Some (0, d(''flags'' := Num fl), a, room) })"
    if "\<exists>fl. set_mount_flag x (numf d ''flags'') = Some fl" for x
    using that a by (auto simp: proc_ends_def)
  have root: "proc_ends a (do {
      (r, d, room) \<leftarrow> add_field d ''kernel_opts'' ''allow_other'' room;
      if r = -1 then Some (-1, d, a, room)
      else do { (r, a, room) \<leftarrow> fuse_opt_add_arg a ''-oallow_root'' room; Some (if r = -1 then -1 else 0, d, a, room) } })"
  proof -
    obtain r1 d1 m1 where 1: "add_field d ''kernel_opts'' ''allow_other'' room = Some (r1, d1, m1)" using add_field_ends by blast
    obtain r2 a2 m2 where 2: "fuse_opt_add_arg a ''-oallow_root'' m1 = Some (r2, a2, m2)" "r2 \<noteq> -1 \<longrightarrow> out_ok a2 \<and> ag_list a2 = ag_list a @ [''-oallow_root'']"
      using fuse_opt_add_arg_ends[OF a] by blast
    from 1 2 show ?thesis by (simp add: proc_ends_def)
  qed
  have one: "proc_ends a (Some (1, d', a, room))" for d' using a by (simp add: proc_ends_def)
  show ?thesis
    unfolding fuse_mount_opt_proc_def Let_def using af fl[OF ro] fl[OF f] root one by (simp split: if_split)
qed

interpretation mnt_opts: opt_client fuse_mount_opts fuse_mount_opt_proc
  by unfold_locales (use fuse_mount_opt_proc_ends in \<open>auto simp: proc_ends_def\<close>)



section \<open>The arguments of the program\<close>

lemma mount_templates:
  "find_opt fuse_mount_opts ''nonempty'' = Some (0, field_opt ''nonempty'' ''nonempty'' 1, drop 3 fuse_mount_opts)"
  "find_opt (drop 3 fuse_mount_opts) ''nonempty'' = Some (0, key_opt ''nonempty'' KEY_FUSERMOUNT_OPT, drop 9 fuse_mount_opts)"
  "find_opt (drop 9 fuse_mount_opts) ''nonempty'' = None"
  "find_opt fuse_mount_opts ''allow_other'' = Some (0, field_opt ''allow_other'' ''allow_other'' 1, drop (Suc 0) fuse_mount_opts)"
  "find_opt (drop (Suc 0) fuse_mount_opts) ''allow_other'' = Some (0, key_opt ''allow_other'' KEY_KERN_OPT, drop 7 fuse_mount_opts)"
  "find_opt (drop 7 fuse_mount_opts) ''allow_other'' = None"
  by code_simp+

lemma add_field_first:
  assumes "txtf d f = None" "0 < room" "NUL \<notin> set x"
  shows "add_field d f x room = Some (0, d(f := Text (Some x)), room - 1)"
proof -
  have "escape False x = x" by (induction x) auto
  then have "\<exists>s. add_opt_common no_junk None x False room = Some (0, Some s, room - 1) \<and> s = x"
    using add_opt_common_ok[of room no_junk None x False] assms(2,3) by (auto simp: joined_def)
  with assms(1) show ?thesis by (auto simp: add_field_def fuse_opt_add_opt_def)
qed

abbreviation (input) mount_optenv :: "string list \<Rightarrow> optenv" where
  "mount_optenv argv \<equiv> \<lparr>oe_opts = fuse_mount_opts, oe_proc = Some fuse_mount_opt_proc, oe_scan = opt_scan, oe_argv = argv\<rparr>"

text \<open>Both options of the program set a field and are handed on in one of the texts.\<close>

lemma process_mount_opts:
  assumes "0 < oc_room ctx"
  shows "txtf (oc_data ctx) ''fusermount_opts'' = None \<Longrightarrow> process_gopt (mount_optenv argv) ''nonempty'' True ctx =
      Some (0, ctx\<lparr>oc_data := (oc_data ctx)(''nonempty'' := Num 1, ''fusermount_opts'' := Text (Some ''nonempty'')), oc_room := oc_room ctx - 1\<rparr>)"
    "txtf (oc_data ctx) ''kernel_opts'' = None \<Longrightarrow> process_gopt (mount_optenv argv) ''allow_other'' True ctx =
      Some (0, ctx\<lparr>oc_data := (oc_data ctx)(''allow_other'' := Num 1, ''kernel_opts'' := Text (Some ''allow_other'')), oc_room := oc_room ctx - 1\<rparr>)"
proof -
  have a: "add_field ((oc_data ctx)(g := Num 1)) f x (oc_room ctx) = Some (0, (oc_data ctx)(g := Num 1, f := Text (Some x)), oc_room ctx - 1)"
    if "txtf (oc_data ctx) f = None" "f \<noteq> g" "NUL \<notin> set x" for f g x
    using that assms by (intro add_field_first) (simp_all add: txtf_def)
  show "process_gopt (mount_optenv argv) ''nonempty'' True ctx =
      Some (0, ctx\<lparr>oc_data := (oc_data ctx)(''nonempty'' := Num 1, ''fusermount_opts'' := Text (Some ''nonempty'')), oc_room := oc_room ctx - 1\<rparr>)"
    if "txtf (oc_data ctx) ''fusermount_opts'' = None"
    using a[OF that, of "''nonempty''" "''nonempty''"]
    by (simp add: process_gopt_def mount_templates gopt_loop.simps process_opt_def field_opt_def key_opt_def call_proc_def fuse_mount_opt_proc_def key_defs Let_def)
  show "process_gopt (mount_optenv argv) ''allow_other'' True ctx =
      Some (0, ctx\<lparr>oc_data := (oc_data ctx)(''allow_other'' := Num 1, ''kernel_opts'' := Text (Some ''allow_other'')), oc_room := oc_room ctx - 1\<rparr>)"
    if "txtf (oc_data ctx) ''kernel_opts'' = None"
    using a[OF that, of "''allow_other''" "''allow_other''"]
    by (simp add: process_gopt_def mount_templates gopt_loop.simps process_opt_def field_opt_def key_opt_def call_proc_def fuse_mount_opt_proc_def key_defs Let_def)
qed

definition program_args :: "string \<Rightarrow> fuse_args" where
  "program_args prog = \<lparr>ag_argv = Some [prog, ''-o'', ''nonempty,allow_other''], ag_allocated = True, ag_gone = False\<rparr>"

lemma main_args_ok: "6 \<le> room \<Longrightarrow> main_args prog room = Some (0, program_args prog, room - 6)"
proof -
  assume "6 \<le> room"
  then obtain k where "room = 6 + k" by (auto dest: le_Suc_ex)
  then show ?thesis by (simp add: main_args_def fuse_opt_add_arg_def no_args_def ag_list_def program_args_def)
qed

lemma parse_program_args:
  assumes "5 \<le> room" "txtf d ''fusermount_opts'' = None" "txtf d ''kernel_opts'' = None"
  shows "fuse_opt_parse opt_scan (program_args prog) d fuse_mount_opts (Some fuse_mount_opt_proc) room =
    Some (0, d(''nonempty'' := Num 1, ''fusermount_opts'' := Text (Some ''nonempty''), ''allow_other'' := Num 1, ''kernel_opts'' := Text (Some ''allow_other'')),
      \<lparr>ag_argv = Some [prog], ag_allocated = True, ag_gone = False\<rparr>, room - 5)"
proof -
  let ?argv = "[prog, ''-o'', ''nonempty,allow_other'']" let ?env = "mount_optenv ?argv"
  let ?out = "\<lparr>ag_argv = Some [prog], ag_allocated = True, ag_gone = False\<rparr>"
  let ?ctx = "\<lambda>d i r. \<lparr>oc_data = d, oc_argctr = i, oc_out = ?out, oc_opts = None, oc_nonopt = 0, oc_room = r\<rparr>"
  let ?d' = "d(''nonempty'' := Num 1, ''fusermount_opts'' := Text (Some ''nonempty''), ''allow_other'' := Num 1, ''kernel_opts'' := Text (Some ''allow_other''))"
  have g: "process_option_group ?env ''nonempty,allow_other'' (?ctx d 2 (room - 2)) = Some (0, ?ctx ?d' 2 (room - 5))"
  proof -
    have "process_option_group ?env ''nonempty,allow_other'' (?ctx d 2 (room - 2)) = run_opts ?env [''nonempty'', ''allow_other''] (?ctx d 2 (room - 3))"
      using group_loop_ok[of 0 "''nonempty,allow_other'' @ [NUL]" "[]" 0 "''nonempty,allow_other''" ?env] assms(1) by (simp add: process_option_group_def)
    also have "\<dots> = Some (0, ?ctx ?d' 2 (room - 5))"
      using assms by (simp add: process_mount_opts txtf_def)
    finally show ?thesis .
  qed
  have one: "process_one ?env ''-o'' (?ctx d (Suc 0) (room - 2)) = Some (0, ?ctx ?d' 2 (room - 5))"
    using g by (simp add: process_one_def char_at_def next_arg_def numeral_2_eq_2)
  have "args_loop ?env (?ctx ?d' 3 (room - 5)) = Some (0, ?ctx ?d' 3 (room - 5))" by (subst args_loop.simps) simp
  with one have "args_loop ?env (?ctx d (Suc 0) (room - 2)) = Some (0, ?ctx ?d' 3 (room - 5))"
    by (subst args_loop.simps) simp
  then have "opt_parse ?env (\<lparr>oc_data = d, oc_argctr = 0, oc_out = no_args, oc_opts = None, oc_nonopt = 0, oc_room = room\<rparr>) = Some (0, ?ctx ?d' 3 (room - 5))"
    using assms(1) by (simp add: opt_parse_def add_arg_def fuse_opt_add_arg_def no_args_def ag_list_def insert_opts_def drop_separator_def)
  then show ?thesis
    by (simp add: fuse_opt_parse_def program_args_def ag_list_def fuse_opt_free_args_def)
qed

lemma parse_prog_alone:
  assumes "2 \<le> room"
  shows "fuse_opt_parse opt_scan \<lparr>ag_argv = Some [prog], ag_allocated = True, ag_gone = False\<rparr> d fuse_ll_opts (Some fuse_ll_opt_proc) room =
    Some (0, d, \<lparr>ag_argv = Some [prog], ag_allocated = True, ag_gone = False\<rparr>, room - 2)"
proof -
  let ?env = "\<lparr>oe_opts = fuse_ll_opts, oe_proc = Some fuse_ll_opt_proc, oe_scan = opt_scan, oe_argv = [prog]\<rparr>"
  have "args_loop ?env c = Some (0, c)" if "oc_argctr c = Suc 0" for c using that by (subst args_loop.simps) simp
  with assms show ?thesis
    by (simp add: fuse_opt_parse_def opt_parse_def add_arg_def fuse_opt_add_arg_def no_args_def ag_list_def insert_opts_def drop_separator_def
      fuse_opt_free_args_def)
qed

lemma add_opt_plain:
  assumes "0 < room" "NUL \<notin> set x"
  shows "fuse_opt_add_opt None x room = Some (0, Some x, room - 1)"
    "NUL \<notin> set t \<Longrightarrow> t \<noteq> [] \<Longrightarrow> fuse_opt_add_opt (Some t) x room = Some (0, Some (t @ CHR '','' # x), room - 1)"
proof -
  have e: "escape False x = x" by (induction x) auto
  show "fuse_opt_add_opt None x room = Some (0, Some x, room - 1)"
    using add_opt_common_ok[of room no_junk None x False] assms e by (auto simp: joined_def fuse_opt_add_opt_def)
  show "fuse_opt_add_opt (Some t) x room = Some (0, Some (t @ CHR '','' # x), room - 1)" if "NUL \<notin> set t" "t \<noteq> []"
    using add_opt_common_ok[of room no_junk "Some t" x False] assms e that by (auto simp: joined_def fuse_opt_add_opt_def)
qed

lemma default_flags:
  assumes "3 \<le> room"
  shows "get_mnt_flag_opts None 6 room = Some (0, Some ''rw,nosuid,nodev'', room - 3)"
proof -
  have b: "(6::int) AND 1 = 0" "(6::int) AND 2 = 2" "(6::int) AND 4 = 4" "(6::int) AND 8 = 0" "(6::int) AND 16 = 0" "(6::int) AND 1024 = 0" "(6::int) AND 128 = 0"
    by simp_all
  from assms obtain k where "room = 3 + k" by (auto dest: le_Suc_ex)
  then show ?thesis by (simp add: get_mnt_flag_opts_def mount_flags_def add_opt_plain b)
qed

text \<open>What the two options of the program amount to: the mount options for the kernel, and who may use the mount.\<close>

lemma fuse_kern_mount_program:
  assumes "9 \<le> room" and sys: "\<And>d. numf d ''nonempty'' = 1 \<Longrightarrow> numf d ''flags'' = 6 \<Longrightarrow> sys d (Some ''rw,nosuid,nodev,allow_other'') = fd"
    and fd: "0 \<le> fd"
  shows "fuse_kern_mount sys fum (program_args prog) room =
    Some (fd, \<lparr>ag_argv = Some [prog], ag_allocated = True, ag_gone = False\<rparr>, room - 9)"
proof -
  from assms(1) obtain k where k: "room = 9 + k" by (auto dest: le_Suc_ex)
  show ?thesis
    unfolding fuse_kern_mount_def k using fd
    by (simp add: parse_program_args txtf_def numf_def default_flags add_if_def add_opt_plain sys)
qed

text \<open>A session on a mounted channel that waits for the first message.\<close>

definition mounted :: "('q, 'a) fusest_scheme \<Rightarrow> bool" where
  "mounted s \<longleftrightarrow> ll_list s = [] \<and> ll_interrupts s = [] \<and> \<not> ll_got_init s \<and> \<not> ll_allow_root s \<and> attached (vfs_fuse_sess s) (vfs_fuse_chan s) s \<and>
     map_option se_exited (ss_sessions s (vfs_fuse_sess s)) = Some False"

text \<open>
  C16.  The start: the arguments \<open>main\<close> builds, \<open>nonempty,allow_other\<close>, make the kernel mount with the
  options \<open>rw,nosuid,nodev,allow_other\<close>; of the arguments only the name of the program is left,
  so that the second parse accepts them; and the session created is attached to a channel on the
  descriptor of the mount, is open to every user, and waits for the first message.
\<close>

theorem vfs_fuse_init_mounts:
  fixes s :: "('q, 'a) fusest_scheme"
  assumes room: "18 \<le> room" and mem: "me_chan env \<noteq> NULL" "me_sess env \<noteq> NULL"
    and sys: "\<And>d. numf d ''nonempty'' = 1 \<Longrightarrow> numf d ''flags'' = 6 \<Longrightarrow> me_sys env d (Some ''rw,nosuid,nodev,allow_other'') = fd"
    and fd: "0 \<le> fd"
    and cf: "dconf_get_int cf (Some ''tuning.heap.vfs_handle'') 128 = Some epb"
    and heap: "me_heap env = (hb, cb, me)" "blockheap_create hb cb me (of_nat sizeof_vfs_handle) epb (Some ''vfs_handle'') (fu_vfs s) = Some (h, v)"
  shows "\<exists>args s'. (do { (r, args, room) \<leftarrow> main_args prog room; vfs_fuse_init env cf args room s }) = Some (args, room - 18, s') \<and>
    ag_list args = [prog] \<and> mounted s' \<and> fuse_chan_fd (vfs_fuse_chan s') s' = Some fd \<and> fd \<in> ss_fds s' \<and>
    fu_vfs s' = v \<and> vfs_handle_heap s' = h \<and> ll_owner s' = me_uid env"
proof -
  from room obtain k where k: "room = 18 + k" by (auto dest: le_Suc_ex)
  have "fuse_kern_mount (me_sys env) (me_fum env) (program_args prog) (12 + k) =
      Some (fd, \<lparr>ag_argv = Some [prog], ag_allocated = True, ag_gone = False\<rparr>, 12 + k - 9)"
    by (rule fuse_kern_mount_program) (use sys fd in auto)
  with mem cf heap fd show ?thesis
    by (simp add: k main_args_ok vfs_fuse_init_def fuse_mount_def fuse_kern_chan_new_def fuse_chan_new_def Let_def
      fuse_lowlevel_new_def parse_prog_alone fuse_session_new_def fuse_session_add_chan_def sess_defs mem_simps mounted_def attached_def ag_list_def
      ll_data_def numf_def)
qed

text \<open>
  C20.  The handshake: the first message of the kernel, with protocol 7 or later, is answered by one
  message with the protocol 7.11, and from then on the session serves requests.
\<close>

theorem vfs_fuse_handshake:
  fixes s :: "('q, 'a) fusest_scheme"
  assumes m: "mounted s" and p: "p \<noteq> NULL" "ll_reqs s p = None" and ma: "7 \<le> major"
    and rs: "\<forall>r \<in> set qs. r = Inl ENOENT" "sizeof_fuse_in_header \<le> len"
  shows "\<exists>s' ra fl mw. vfs_fuse_read_cb env le True p (qs @ Inr (len, h, IN_INIT major minor readahead flags) # rs) s = Some s' \<and>
    ll_sent s' = ll_sent s @ [(in_unique h, 0, Out_init 7 11 ra fl mw (if minor < 5 then 8 else 24))] \<and> ra \<le> readahead \<and>
    serving s' \<and> ll_reqs s' = ll_reqs s \<and> cn_proto_major (ll_conn s') = major"
proof -
  have at: "attached (vfs_fuse_sess s) (vfs_fuse_chan s) s" using m by (simp add: mounted_def)
  obtain x where x: "ss_sessions s (vfs_fuse_sess s) = Some x" "\<not> se_exited x" using m by (auto simp: mounted_def)
  obtain bs where run: "vfs_fuse_read_cb env le True p (qs @ Inr (len, h, IN_INIT major minor readahead flags) # rs) s = do {
      s \<leftarrow> fuse_ll_process (bs, le) (vfs_fuse_ops env) p h (IN_INIT major minor readahead flags) s;
      fuse_session_reset (vfs_fuse_sess s) s }"
    by (rule read_cb_message[OF at x rs])
  let ?c = "negotiate False bs major minor readahead flags s"
  let ?s' = "s\<lparr>ll_got_init := True, ll_conn := ?c,
    ll_sent := ll_sent s @ [(in_unique h, 0, Out_init 7 11 (cn_max_readahead ?c) (init_flags ?c) (cn_max_write ?c) (if minor < 5 then 8 else 24))]\<rparr>"
  have n: "negotiate l bs major minor readahead flags (s\<lparr>ll_reqs := R, ll_list := L\<rparr>) = negotiate l bs major minor readahead flags s" for l R L
    by (simp add: negotiate_def)
  have "\<not> major < 7" using ma by simp
  then have "fuse_ll_process (bs, le) (vfs_fuse_ops env) p h (IN_INIT major minor readahead flags) s = Some ?s'"
    using m p by (cases le) (simp add: fuse_ll_process_def Let_def is_init_def is_interrupt_def any_user_def mounted_def check_interrupt_def new_req_def
      mem_simps do_init_def vfs_fuse_ops_def call_op_def send_reply_ok_def send_reply_live error_code_def n fun_upd_idem)
  moreover have "fuse_session_reset (vfs_fuse_sess ?s') ?s' = Some ?s'"
    using at x reset_live[of "vfs_fuse_sess s" ?s' x] by (simp add: attached_def)
  moreover have "serving ?s'" using m by (simp add: serving_def mounted_def ll_idle_def attached_def)
  moreover have "cn_max_readahead ?c \<le> readahead" "cn_proto_major ?c = major" by (simp_all add: negotiate_def Let_def not_less)
  ultimately show ?thesis using run by (intro exI[of _ ?s'] exI conjI) (assumption | simp)+
qed

section \<open>Witnesses\<close>

definition demo_mount :: mount_env where
  "demo_mount = \<lparr>me_sys = (\<lambda>d t. if t = Some ''rw,nosuid,nodev,allow_other'' then 5 else -1), me_fum = (\<lambda>t q. -1), me_pagesize = 4096, me_uid = 0,
     me_chan = 200, me_sess = 100, me_heap = (24, 32, 2000)\<rparr>"

definition demo_new :: "unit fusest" where
  "demo_new = demo_fuse\<lparr>fu_vfs := boot_fuse_vfst, ll_got_init := False, ll_interrupts := [], ss_sessions := Map.empty, ss_chans := Map.empty\<rparr>"

theorem vfs_fuse_init_mounts_witness:
  "\<exists>v args s'. blockheap_create 24 32 2000 (of_nat sizeof_vfs_handle) 128 (Some ''vfs_handle'') boot_fuse_vfst = Some (24, v) \<and>
    (do { (r, args, room) \<leftarrow> main_args ''fs-pkg'' 20; vfs_fuse_init demo_mount (demo_conf) args room demo_new }) = Some (args, 2, s') \<and>
    ag_list args = [''fs-pkg''] \<and> mounted s'"
proof -
  let ?y = sizeof_vfs_handle
  have boot: "dlist (b_nodes boot_fuse_vfst) (b_heap_lists boot_fuse_vfst) []"
    by (simp add: boot_fuse_vfst_def boot_pkgst_def boot_lstate_def boot_state_def dbst.defs pkgst.defs lstate.defs bstate.defs)
  have fr: "fresh_block 32 2000 ?y (nat 128) []"
    by (simp add: fresh_block_def stride_def sizeof_MemBlock_def sizeof_vfs_handle_def)
  have e: "(24::nat) \<noteq> NULL" "(24::nat) \<notin> set []" "24 \<notin> block_area ?y (nat 128) 2000" "set [] \<inter> block_area ?y (nat 128) 2000 = {}"
      "of_nat ?y \<noteq> (0 :: u64)" "unat (pad_elemsize (of_nat ?y)) = ?y" "(0::int) < 128" "(128::int) < 2 ^ 31"
    by (simp_all add: block_area_def in_range_def pad_elemsize_def sizeof_vfs_handle_def)
  obtain v where v: "blockheap_create 24 32 2000 (of_nat ?y) 128 (Some ''vfs_handle'') boot_fuse_vfst = Some (24, v)"
    using blockheap_create_ok[OF e(1-3,5-8) refl fr boot e(4), of "Some ''vfs_handle''"] by (elim exE conjE) (rule that)
  have "dictionary_get (dictionary_new 0) k d = Some d" for k d
    using dictionary_get_ok[of "dictionary_new 0"] dictionary_new_ok[of 0] by simp
  then have "dconf_get_int demo_conf (Some ''tuning.heap.vfs_handle'') 128 = Some 128"
    by (simp add: dconf_get_int_def dconf_get_str_def demo_conf_def)
  then show ?thesis
    using vfs_fuse_init_mounts[of 20 demo_mount 5 demo_conf 128 24 32 2000 demo_new 24 v "''fs-pkg''"] v
    by (auto simp: demo_mount_def demo_new_def)
qed

theorem vfs_fuse_handshake_witness:
  "\<exists>s' ra fl mw. vfs_fuse_read_cb (demo_fenv []) (True, \<lambda>_ _. Some) True 600
      ([Inl ENOENT] @ Inr (64, demo_head, IN_INIT 7 8 131072 1) # []) (demo_fuse\<lparr>ll_got_init := False, ll_interrupts := []\<rparr>) = Some s' \<and>
    ll_sent s' = [(7, 0, Out_init 7 11 ra fl mw 24)] \<and> ra \<le> 131072 \<and> serving s'"
proof -
  let ?s = "demo_fuse\<lparr>ll_got_init := False, ll_interrupts := []\<rparr>"
  have "mounted ?s" by (simp add: mounted_def attached_def demo_fuse_def)
  moreover have "(600::nat) \<noteq> NULL" "ll_reqs ?s 600 = None" "7 \<le> (7::u32)" "\<forall>r \<in> set [Inl ENOENT :: int + message]. r = Inl ENOENT"
      "sizeof_fuse_in_header \<le> 64" "in_unique demo_head = 7" "ll_sent ?s = []"
    by (simp_all add: demo_fuse_def demo_head_def sizeof_fuse_in_header_def)
  ultimately show ?thesis
    using vfs_fuse_handshake[of ?s 600 7 "[Inl ENOENT]" 64 "demo_fenv []" "(True, \<lambda>_ _. Some)" demo_head 8 131072 1 "[]"] by fastforce
qed

end
