(* ===== verification/Ev_Heap.thy ===== *)
theory Ev_Heap
  imports Complex_Main Fs_Prelude "HOL-Library.Multiset"
begin

text \<open>
  The heap of timers of the bundled event library, \<open>src/ev.c\<close> (\<open>EV_USE_4HEAP\<close> and
  \<open>EV_HEAP_CACHE_AT\<close>, the defaults): a tree with four children per node in an array whose first
  entry has the index \<open>HEAP0\<close>.  Every entry caches the time of its watcher, and every watcher
  knows its index in the array.

  Times (\<open>ev_tstamp\<close>, a double) are rational numbers; where they are added the sum is rounded by
  a parameter.  Indices are natural numbers: those of the code are never negative.
\<close>

section \<open>Watchers and entries\<close>

type_synonym ev_tstamp = rat

text \<open>
  The fields of \<open>ev_watcher\<close>, \<open>ev_watcher_list\<close>, \<open>ev_watcher_time\<close>, \<open>ev_io\<close> and
  \<open>ev_timer\<close> together; a watcher uses those of its own type.  \<open>w_cb\<close> names the callback.
\<close>

record watcher =
  w_active :: nat
  w_pending :: nat
  w_priority :: int
  w_cb :: nat
  w_next :: ptr
  w_at :: ev_tstamp
  w_repeat :: ev_tstamp
  w_fd :: int
  w_events :: int

type_synonym wmem = "watcher mem"

record ANHE =
  he_at :: ev_tstamp
  he_w :: ptr

definition DHEAP :: nat where
  "DHEAP = 4"

definition HEAP0 :: nat where
  "HEAP0 = DHEAP - 1"

text \<open>At the root, where C divides -1 by 4, the quotient is 0.\<close>

definition HPARENT :: "nat \<Rightarrow> nat" where
  "HPARENT k = (k - HEAP0 - 1) div DHEAP + HEAP0"

definition set_active :: "ptr \<Rightarrow> nat \<Rightarrow> wmem \<Rightarrow> wmem option" where
  "set_active p k ws = upd_at p (\<lambda>w. w\<lparr>w_active := k\<rparr>) ws"

text \<open>\<open>heap[k] = he; ev_active(ANHE_w(he)) = k\<close>\<close>

definition heap_put :: "ANHE list \<Rightarrow> nat \<Rightarrow> ANHE \<Rightarrow> wmem \<Rightarrow> (ANHE list \<times> wmem) option" where
  "heap_put hp k he ws = do {
     hp \<leftarrow> arr_set hp (int k) he;
     ws \<leftarrow> set_active (he_w he) k ws;
     Some (hp, ws) }"

section \<open>Moving an entry\<close>

text \<open>The entry at \<open>i\<close> against the earliest one so far.\<close>

definition earlier :: "ANHE list \<Rightarrow> nat \<Rightarrow> nat \<times> ev_tstamp \<Rightarrow> (nat \<times> ev_tstamp) option" where
  "earlier hp i m = do { x \<leftarrow> arr_get hp (int i); Some (if he_at x < snd m then (i, he_at x) else m) }"

definition earlier_if :: "nat \<Rightarrow> ANHE list \<Rightarrow> nat \<Rightarrow> nat \<times> ev_tstamp \<Rightarrow> (nat \<times> ev_tstamp) option" where
  "earlier_if E hp i m = (if i < E then earlier hp i m else Some m)"

text \<open>The earliest of the children from \<open>pos\<close> on, with all four of them before \<open>E\<close> (fast) or not (slow).\<close>

definition min_child_fast :: "ANHE list \<Rightarrow> nat \<Rightarrow> (nat \<times> ev_tstamp) option" where
  "min_child_fast hp pos = do {
     x \<leftarrow> arr_get hp (int pos);
     m \<leftarrow> earlier hp (pos + 1) (pos, he_at x);
     m \<leftarrow> earlier hp (pos + 2) m;
     earlier hp (pos + 3) m }"

definition min_child_slow :: "nat \<Rightarrow> ANHE list \<Rightarrow> nat \<Rightarrow> (nat \<times> ev_tstamp) option" where
  "min_child_slow E hp pos = do {
     x \<leftarrow> arr_get hp (int pos);
     m \<leftarrow> earlier_if E hp (pos + 1) (pos, he_at x);
     m \<leftarrow> earlier_if E hp (pos + 2) m;
     earlier_if E hp (pos + 3) m }"

text \<open>The loop holds the entry \<open>he\<close> that moves and the index \<open>k\<close> of the gap.\<close>

partial_function (option) down_loop :: "ANHE \<Rightarrow> nat \<Rightarrow> ANHE list \<Rightarrow> nat \<Rightarrow> wmem \<Rightarrow> (ANHE list \<times> wmem) option" where
  "down_loop he E hp k ws =
     (let pos = DHEAP * (k - HEAP0) + HEAP0 + 1 in
      if pos < E then do {
        (minpos, minat) \<leftarrow> (if pos + DHEAP - 1 < E then min_child_fast hp pos else min_child_slow E hp pos);
        if he_at he \<le> minat then heap_put hp k he ws
        else do {
          x \<leftarrow> arr_get hp (int minpos);
          (hp, ws) \<leftarrow> heap_put hp k x ws;
          down_loop he E hp minpos ws } }
      else heap_put hp k he ws)"

definition downheap :: "ANHE list \<Rightarrow> nat \<Rightarrow> nat \<Rightarrow> wmem \<Rightarrow> (ANHE list \<times> wmem) option" where
  "downheap hp N k ws = do { he \<leftarrow> arr_get hp (int k); down_loop he (N + HEAP0) hp k ws }"

partial_function (option) up_loop :: "ANHE \<Rightarrow> ANHE list \<Rightarrow> nat \<Rightarrow> wmem \<Rightarrow> (ANHE list \<times> wmem) option" where
  "up_loop he hp k ws =
     (let p = HPARENT k in
      if p = k then heap_put hp k he ws
      else do {
        x \<leftarrow> arr_get hp (int p);
        if he_at x \<le> he_at he then heap_put hp k he ws
        else do {
          (hp, ws) \<leftarrow> heap_put hp k x ws;
          up_loop he hp p ws } })"

definition upheap :: "ANHE list \<Rightarrow> nat \<Rightarrow> wmem \<Rightarrow> (ANHE list \<times> wmem) option" where
  "upheap hp k ws = do { he \<leftarrow> arr_get hp (int k); up_loop he hp k ws }"

definition adjustheap :: "ANHE list \<Rightarrow> nat \<Rightarrow> nat \<Rightarrow> wmem \<Rightarrow> (ANHE list \<times> wmem) option" where
  "adjustheap hp N k ws = do {
     x \<leftarrow> arr_get hp (int k);
     up \<leftarrow> (if k > HEAP0 then do { p \<leftarrow> arr_get hp (int (HPARENT k)); Some (he_at p \<ge> he_at x) } else Some False);
     if up then upheap hp k ws else downheap hp N k ws }"

fun reheap_from :: "nat \<Rightarrow> nat \<Rightarrow> ANHE list \<Rightarrow> wmem \<Rightarrow> (ANHE list \<times> wmem) option" where
  "reheap_from i 0 hp ws = Some (hp, ws)"
| "reheap_from i (Suc n) hp ws = do { (hp, ws) \<leftarrow> upheap hp (i + HEAP0) ws; reheap_from (Suc i) n hp ws }"

definition reheap :: "ANHE list \<Rightarrow> nat \<Rightarrow> wmem \<Rightarrow> (ANHE list \<times> wmem) option" where
  "reheap hp N ws = reheap_from 0 N hp ws"

section \<open>The invariant\<close>

lemmas heap_consts = DHEAP_def HEAP0_def

text \<open>The entries in use: from \<open>HEAP0\<close> on.\<close>

definition in_heap :: "nat \<Rightarrow> nat \<Rightarrow> bool" where
  "in_heap N i \<longleftrightarrow> 3 \<le> i \<and> i < N + 3"

definition entries :: "ANHE list \<Rightarrow> nat \<Rightarrow> ANHE list" where
  "entries hp N = take N (drop 3 hp)"

text \<open>Every entry is not before its parent; with exceptions for the pairs whose lower end is \<open>k\<close>, or whose upper end is.\<close>

definition ordered :: "ANHE list \<Rightarrow> nat \<Rightarrow> (nat \<Rightarrow> bool) \<Rightarrow> bool" where
  "ordered hp N P \<longleftrightarrow> (\<forall>i. in_heap N i \<and> 4 \<le> i \<and> P i \<longrightarrow> he_at (hp ! HPARENT i) \<le> he_at (hp ! i))"

text \<open>The children of \<open>k\<close> are not before the parent of \<open>k\<close>.\<close>

definition skips :: "ANHE list \<Rightarrow> nat \<Rightarrow> nat \<Rightarrow> bool" where
  "skips hp N k \<longleftrightarrow> (\<forall>i. in_heap N i \<and> 4 \<le> i \<and> HPARENT i = k \<and> 4 \<le> k \<longrightarrow> he_at (hp ! HPARENT k) \<le> he_at (hp ! i))"

text \<open>The watchers know their index, except that at \<open>k\<close>.\<close>

definition indexed :: "ANHE list \<Rightarrow> nat \<Rightarrow> nat set \<Rightarrow> wmem \<Rightarrow> bool" where
  "indexed hp N X ws \<longleftrightarrow> (\<forall>i. in_heap N i \<longrightarrow> he_w (hp ! i) \<noteq> NULL \<and> (\<exists>w. ws (he_w (hp ! i)) = Some w \<and> (i \<notin> X \<longrightarrow> w_active w = i)))"

definition heap_sized :: "ANHE list \<Rightarrow> nat \<Rightarrow> bool" where
  "heap_sized hp N \<longleftrightarrow> (N = 0 \<or> N + 3 \<le> length hp) \<and> distinct (map he_w (entries hp N))"

definition theap :: "ANHE list \<Rightarrow> nat \<Rightarrow> wmem \<Rightarrow> bool" where
  "theap hp N ws \<longleftrightarrow> heap_sized hp N \<and> ordered hp N (\<lambda>_. True) \<and> indexed hp N {} ws"

text \<open>What moving entries leaves alone: all but the indices of the watchers in \<open>A\<close>.\<close>

definition reindexed :: "ptr set \<Rightarrow> wmem \<Rightarrow> wmem \<Rightarrow> bool" where
  "reindexed A ws ws' \<longleftrightarrow> (\<forall>p. p \<notin> A \<longrightarrow> ws' p = ws p) \<and>
     (\<forall>p. map_option (\<lambda>w. w\<lparr>w_active := 0\<rparr>) (ws' p) = map_option (\<lambda>w. w\<lparr>w_active := 0\<rparr>) (ws p))"

lemma HPARENT_root [simp]: "HPARENT 3 = 3"
  by (simp add: HPARENT_def heap_consts)

lemma HPARENT_less: "4 \<le> k \<Longrightarrow> HPARENT k < k \<and> 3 \<le> HPARENT k"
  by (simp add: HPARENT_def heap_consts)

lemma HPARENT_child: "3 \<le> k \<Longrightarrow> 4 \<le> i \<Longrightarrow> HPARENT i = k \<longleftrightarrow> 4 * (k - 3) + 4 \<le> i \<and> i \<le> 4 * (k - 3) + 7"
proof -
  assume "3 \<le> k" "4 \<le> i"
  then obtain m j where "k = 3 + m" "i = 4 + j" by (metis le_iff_add)
  then show ?thesis by (simp add: HPARENT_def heap_consts) linarith
qed

lemma in_heap_parent: "in_heap N i \<Longrightarrow> in_heap N (HPARENT i)"
  using HPARENT_less[of i] by (cases "i = 3") (auto simp: in_heap_def)

lemma entries_nth: "N + 3 \<le> length hp \<Longrightarrow> i < N \<Longrightarrow> entries hp N ! i = hp ! (i + 3)"
  by (simp add: entries_def add.commute)

lemma length_entries: "N + 3 \<le> length hp \<Longrightarrow> length (entries hp N) = N"
  by (simp add: entries_def)

lemma entries_update:
  assumes "N + 3 \<le> length hp" "in_heap N k"
  shows "entries (hp[k := x]) N = (entries hp N)[k - 3 := x]"
  using assms by (auto simp: entries_def in_heap_def drop_update_swap take_update_swap)

lemma in_heap_index: "in_heap N i \<Longrightarrow> \<exists>a. i = a + 3 \<and> a < N"
  unfolding in_heap_def by (metis add.commute add_less_cancel_left le_iff_add)

lemma heap_sized_length: "heap_sized hp N \<Longrightarrow> in_heap N i \<Longrightarrow> N + 3 \<le> length hp"
  by (auto simp: heap_sized_def in_heap_def)

lemma in_heap_entry:
  assumes "heap_sized hp N" "in_heap N i"
  shows "hp ! i \<in> set (entries hp N)"
proof -
  obtain a where a: "i = a + 3" "a < N" using in_heap_index[OF assms(2)] by blast
  then have "entries hp N ! a = hp ! i" "a < length (entries hp N)" using heap_sized_length[OF assms] by (simp_all add: entries_nth length_entries)
  then show ?thesis by (metis nth_mem)
qed

lemma entry_in_heap: "heap_sized hp N \<Longrightarrow> x \<in> set (entries hp N) \<Longrightarrow> \<exists>i. in_heap N i \<and> hp ! i = x"
proof -
  assume h: "heap_sized hp N" "x \<in> set (entries hp N)"
  have "N \<noteq> 0" using h(2) by (cases N) (auto simp: entries_def)
  with h(1) have l: "N + 3 \<le> length hp" by (simp add: heap_sized_def)
  then obtain i where "i < N" "entries hp N ! i = x" using h(2) by (auto simp: in_set_conv_nth length_entries)
  with l show ?thesis by (intro exI[of _ "i + 3"]) (simp add: heap_sized_def entries_nth in_heap_def)
qed

lemma same_watcher:
  assumes "heap_sized hp N" "in_heap N i" "in_heap N j"
  shows "he_w (hp ! i) = he_w (hp ! j) \<longleftrightarrow> i = j"
proof -
  obtain a b where ab: "i = a + 3" "a < N" "j = b + 3" "b < N" using in_heap_index assms(2,3) by blast
  have l: "length (entries hp N) = N" "distinct (map he_w (entries hp N))" "entries hp N ! a = hp ! i" "entries hp N ! b = hp ! j"
    using assms(1) heap_sized_length[OF assms(1,2)] ab by (simp_all add: heap_sized_def length_entries entries_nth)
  have "map he_w (entries hp N) ! a = map he_w (entries hp N) ! b \<longleftrightarrow> a = b" using l(1,2) ab by (intro nth_eq_iff_index_eq) simp_all
  with l ab show ?thesis by simp
qed

section \<open>Moving keeps the entries\<close>

lemma reindexed_refl: "reindexed A ws ws"
  by (simp add: reindexed_def)

lemma reindexed_trans: "reindexed A ws ws' \<Longrightarrow> reindexed B ws' ws'' \<Longrightarrow> A \<subseteq> C \<Longrightarrow> B \<subseteq> C \<Longrightarrow> reindexed C ws ws''"
  unfolding reindexed_def by (metis subset_iff)

lemma set_active_ok:
  assumes "p \<noteq> NULL" "ws p = Some w"
  shows "set_active p k ws = Some (ws(p \<mapsto> w\<lparr>w_active := k\<rparr>))" "reindexed {p} ws (ws(p \<mapsto> w\<lparr>w_active := k\<rparr>))"
  using assms by (auto simp: set_active_def mem_simps reindexed_def)

text \<open>The array with a gap at \<open>k\<close>, to be filled with \<open>he\<close>.\<close>

definition gap :: "ANHE \<Rightarrow> ANHE list \<Rightarrow> nat \<Rightarrow> nat \<Rightarrow> wmem \<Rightarrow> bool" where
  "gap he hp N k ws \<longleftrightarrow> in_heap N k \<and> heap_sized (hp[k := he]) N \<and> indexed (hp[k := he]) N {k} ws"

lemma gap_length: "gap he hp N k ws \<Longrightarrow> in_heap N i \<Longrightarrow> i < length hp"
  by (auto simp: gap_def heap_sized_def in_heap_def)

lemma fill_gap:
  assumes g: "gap he hp N k ws"
  shows "\<exists>ws'. heap_put hp k he ws = Some (hp[k := he], ws') \<and> indexed (hp[k := he]) N {} ws' \<and> reindexed {he_w he} ws ws'"
proof -
  let ?h = "hp[k := he]"
  have k: "in_heap N k" "k < length hp" using g gap_length by (auto simp: gap_def)
  then obtain w where w: "he_w he \<noteq> NULL" "ws (he_w he) = Some w" using g by (fastforce simp: gap_def indexed_def)
  let ?ws = "ws(he_w he \<mapsto> w\<lparr>w_active := k\<rparr>)"
  have "indexed ?h N {} ?ws"
    unfolding indexed_def
  proof (intro allI impI conjI)
    fix i assume i: "in_heap N i"
    then show "he_w (?h ! i) \<noteq> NULL" using g by (simp add: gap_def indexed_def)
    show "\<exists>v. ?ws (he_w (?h ! i)) = Some v \<and> (i \<notin> {} \<longrightarrow> w_active v = i)"
      using g i k same_watcher[of ?h N i k] by (cases "i = k") (auto simp: gap_def indexed_def)
  qed
  with set_active_ok[where ws = ws and k = k, OF w] k(2) show ?thesis by (simp add: heap_put_def)
qed

lemma move_gap:
  assumes g: "gap he hp N k ws" and j: "in_heap N j" "j \<noteq> k"
  shows "\<exists>ws'. heap_put hp k (hp ! j) ws = Some (hp[k := hp ! j], ws') \<and> gap he (hp[k := hp ! j]) N j ws' \<and>
    mset (entries (hp[k := hp ! j, j := he]) N) = mset (entries (hp[k := he]) N) \<and> reindexed {he_w (hp ! j)} ws ws'"
proof -
  let ?h = "hp[k := he]" and ?x = "hp ! j"
  let ?h' = "hp[k := ?x, j := he]"
  have k: "in_heap N k" "k < length hp" "j < length hp" using g j gap_length by (auto simp: gap_def)
  have n: "N + 3 \<le> length hp" using g heap_sized_length[of "hp[k := he]" N k] by (simp add: gap_def)
  have "?h' = ?h[k := ?h ! j, j := ?h ! k]" using k j by (simp add: list_update_swap)
  moreover have "entries (?h[k := ?h ! j, j := ?h ! k]) N = (entries ?h N)[k - 3 := entries ?h N ! (j - 3), j - 3 := entries ?h N ! (k - 3)]"
    using n k(1) j in_heap_index[OF k(1)] in_heap_index[OF j(1)] by (auto simp: entries_update entries_nth length_entries)
  ultimately have m: "mset (entries ?h' N) = mset (entries ?h N)"
    using mset_swap[of "j - 3" "entries ?h N" "k - 3"] n k(1) j by (auto simp: length_entries in_heap_def)
  then have d: "heap_sized ?h' N"
    using g mset_eq_imp_distinct_iff[of "map he_w (entries ?h' N)" "map he_w (entries ?h N)"] by (simp add: gap_def heap_sized_def mset_map)
  obtain w where w: "he_w ?x \<noteq> NULL" "ws (he_w ?x) = Some w" using g j by (fastforce simp: gap_def indexed_def)
  let ?ws = "ws(he_w ?x \<mapsto> w\<lparr>w_active := k\<rparr>)"
  have ix: "indexed ?h' N {j} ?ws"
    unfolding indexed_def
  proof (intro allI impI conjI)
    fix i assume i: "in_heap N i"
    have old: "\<exists>v. ws (he_w (?h ! i)) = Some v \<and> (i \<noteq> k \<longrightarrow> w_active v = i)" "he_w (?h ! i) \<noteq> NULL"
        "\<exists>v. ws (he_w he) = Some v" "he_w he \<noteq> NULL"
      using g i k by (force simp: gap_def indexed_def)+
    then show "he_w (?h' ! i) \<noteq> NULL" using i j k w by (cases "i = j"; cases "i = k") auto
    show "\<exists>v. ?ws (he_w (?h' ! i)) = Some v \<and> (i \<notin> {j} \<longrightarrow> w_active v = i)"
      using old i j k w same_watcher[OF d i k(1)] by (cases "i = j"; cases "i = k") auto
  qed
  with d j set_active_ok[where ws = ws and k = k, OF w] k m show ?thesis by (simp add: heap_put_def gap_def)
qed

section \<open>The heap operations\<close>

definition settled :: "ANHE list \<Rightarrow> nat \<Rightarrow> wmem \<Rightarrow> (ANHE list \<times> wmem) option \<Rightarrow> bool" where
  "settled h N ws r \<longleftrightarrow> (\<exists>hp' ws'. r = Some (hp', ws') \<and> theap hp' N ws' \<and> mset (entries hp' N) = mset (entries h N) \<and>
     length hp' = length h \<and> (\<forall>i. \<not> in_heap N i \<longrightarrow> hp' ! i = h ! i) \<and> reindexed (he_w ` set (entries h N)) ws ws')"

lemma settled_put:
  assumes g: "gap he hp N k ws" and o: "ordered (hp[k := he]) N (\<lambda>_. True)"
  shows "settled (hp[k := he]) N ws (heap_put hp k he ws)"
proof -
  obtain ws' where ws': "heap_put hp k he ws = Some (hp[k := he], ws')" "indexed (hp[k := he]) N {} ws'" "reindexed {he_w he} ws ws'"
    using fill_gap[OF g] by blast
  have "he \<in> set (entries (hp[k := he]) N)"
    using g in_heap_entry[of "hp[k := he]" N k] gap_length[OF g, of k] by (simp add: gap_def)
  then have "reindexed (he_w ` set (entries (hp[k := he]) N)) ws ws'" using reindexed_trans[OF reindexed_refl ws'(3), of "{}"] by blast
  with ws'(1,2) g o show ?thesis by (simp add: settled_def theap_def gap_def)
qed

lemma settled_move:
  assumes g: "gap he hp N k ws" and j: "in_heap N j" "j \<noteq> k"
    and r: "\<And>ws'. gap he (hp[k := hp ! j]) N j ws' \<Longrightarrow> settled (hp[k := hp ! j, j := he]) N ws' (f (hp[k := hp ! j]) ws')"
  shows "settled (hp[k := he]) N ws (do { (hp, ws) \<leftarrow> heap_put hp k (hp ! j) ws; f hp ws })"
proof -
  obtain ws' where ws': "heap_put hp k (hp ! j) ws = Some (hp[k := hp ! j], ws')" "gap he (hp[k := hp ! j]) N j ws'"
      "mset (entries (hp[k := hp ! j, j := he]) N) = mset (entries (hp[k := he]) N)" "reindexed {he_w (hp ! j)} ws ws'"
    using move_gap[OF g j] by blast
  obtain hp2 ws2 where 2: "f (hp[k := hp ! j]) ws' = Some (hp2, ws2)" "theap hp2 N ws2"
      "mset (entries hp2 N) = mset (entries (hp[k := hp ! j, j := he]) N)" "length hp2 = length hp"
      "\<forall>i. \<not> in_heap N i \<longrightarrow> hp2 ! i = hp[k := hp ! j, j := he] ! i" "reindexed (he_w ` set (entries (hp[k := hp ! j, j := he]) N)) ws' ws2"
    using r[OF ws'(2)] by (auto simp: settled_def)
  have s: "set (entries (hp[k := hp ! j, j := he]) N) = set (entries (hp[k := he]) N)" using ws'(3) by (rule mset_eq_setD)
  have "hp ! j \<in> set (entries (hp[k := he]) N)"
    using g j in_heap_entry[of "hp[k := he]" N j] by (simp add: gap_def)
  then have "reindexed (he_w ` set (entries (hp[k := he]) N)) ws ws2" using reindexed_trans[OF ws'(4) 2(6)] s by blast
  moreover have "\<forall>i. \<not> in_heap N i \<longrightarrow> hp2 ! i = hp[k := he] ! i" using 2(5) j(1) g by (metis gap_def nth_list_update_neq)
  ultimately show ?thesis using ws'(1,3) 2 by (simp add: settled_def)
qed

lemma up_loop_ok:
  assumes "gap he hp N k ws" "ordered (hp[k := he]) N (\<lambda>i. i \<noteq> k)" "skips (hp[k := he]) N k"
  shows "settled (hp[k := he]) N ws (up_loop he hp k ws)"
  using assms
proof (induction k arbitrary: hp ws rule: less_induct)
  case (less k)
  note g = less.prems(1) and o = less.prems(2) and sk = less.prems(3)
  have k: "in_heap N k" "k < length hp" using g gap_length by (auto simp: gap_def)
  show ?case
  proof (cases "k = 3")
    case True
    then have "ordered (hp[k := he]) N (\<lambda>_. True)" using o by (simp add: ordered_def)
    with True settled_put[OF g] show ?thesis by (subst up_loop.simps) (simp add: Let_def)
  next
    case False
    let ?p = "HPARENT k"
    have p: "?p < k" "3 \<le> ?p" "in_heap N ?p" using False k(1) HPARENT_less[of k] in_heap_parent by (auto simp: in_heap_def)
    have pl: "?p < length hp" using p k by simp
    show ?thesis
    proof (cases "he_at (hp ! ?p) \<le> he_at he")
      case True
      have "ordered (hp[k := he]) N (\<lambda>_. True)"
        unfolding ordered_def
      proof (intro allI impI, elim conjE)
        fix i assume "in_heap N i" "4 \<le> i"
        then show "he_at (hp[k := he] ! HPARENT i) \<le> he_at (hp[k := he] ! i)" using o True p k by (cases "i = k") (auto simp: ordered_def)
      qed
      with True settled_put[OF g] p pl show ?thesis by (subst up_loop.simps) (simp add: Let_def)
    next
      case lt: False
      have par: "4 \<le> i \<Longrightarrow> HPARENT i \<noteq> i" for i using HPARENT_less[of i] by simp
      have ord: "4 \<le> i \<Longrightarrow> in_heap N i \<Longrightarrow> i \<noteq> k \<Longrightarrow> he_at (hp[k := he] ! HPARENT i) \<le> he_at (hp[k := he] ! i)" for i
        using o by (simp add: ordered_def)
      let ?h = "hp[k := hp ! ?p, ?p := he]"
      have o': "ordered ?h N (\<lambda>i. i \<noteq> ?p)"
        unfolding ordered_def
      proof (intro allI impI, elim conjE)
        fix i assume i: "in_heap N i" "4 \<le> i" "i \<noteq> ?p"
        show "he_at (?h ! HPARENT i) \<le> he_at (?h ! i)"
        proof (cases "i = k")
          case True
          then show ?thesis using lt p pl k by simp
        next
          case ik: False
          consider "HPARENT i = ?p" | "HPARENT i = k" | "HPARENT i \<noteq> ?p" "HPARENT i \<noteq> k" by blast
          then show ?thesis
          proof cases
            case 1
            then show ?thesis using ord[OF i(2,1) ik] lt p pl k i ik by simp
          next
            case 2
            have "4 \<le> k" using False k(1) by (simp add: in_heap_def)
            with sk i 2 have "he_at (hp[k := he] ! ?p) \<le> he_at (hp[k := he] ! i)" unfolding skips_def by blast
            with 2 i ik p pl k show ?thesis by simp
          next
            case 3
            then show ?thesis using ord[OF i(2,1) ik] i ik by simp
          qed
        qed
      qed
      have s': "skips ?h N ?p"
        unfolding skips_def
      proof (intro allI impI, elim conjE)
        fix i assume i: "in_heap N i" "4 \<le> i" "HPARENT i = ?p" "4 \<le> ?p"
        have pp: "HPARENT ?p < ?p" using HPARENT_less[OF i(4)] by simp
        have "he_at (hp ! HPARENT ?p) \<le> he_at (hp ! ?p)" using ord[OF i(4) p(3)] p pp by simp
        then show "he_at (?h ! HPARENT ?p) \<le> he_at (?h ! i)"
          using i ord[OF i(2,1)] p pp pl k par[OF i(2)] by (cases "i = k") auto
      qed
      have "settled (hp[k := he]) N ws (do { (hp, ws) \<leftarrow> heap_put hp k (hp ! ?p) ws; up_loop he hp ?p ws })"
        by (rule settled_move[OF g p(3)]) (use p less.IH[OF p(1)] o' s' in auto)
      with lt p pl show ?thesis by (subst up_loop.simps) (simp add: Let_def)
    qed
  qed
qed

lemma earlier_ok:
  "i < length hp \<Longrightarrow> earlier hp i m = Some (if he_at (hp ! i) < snd m then (i, he_at (hp ! i)) else m)"
  by (simp add: earlier_def)

text \<open>Both ways to look at the children find the earliest of those there are.\<close>

definition first_child :: "nat \<Rightarrow> ANHE list \<Rightarrow> nat \<Rightarrow> nat \<times> ev_tstamp \<Rightarrow> bool" where
  "first_child E hp pos m \<longleftrightarrow> pos \<le> fst m \<and> fst m \<le> pos + 3 \<and> fst m < E \<and> snd m = he_at (hp ! fst m) \<and>
     (\<forall>i. pos \<le> i \<and> i \<le> pos + 3 \<and> i < E \<longrightarrow> snd m \<le> he_at (hp ! i))"

lemma four_children: "pos \<le> i \<and> i \<le> pos + 3 \<longleftrightarrow> i = pos \<or> i = pos + 1 \<or> i = pos + 2 \<or> i = (pos + 3 :: nat)"
  by auto

lemma min_child_ok:
  assumes "pos < E" "E \<le> length hp"
  shows "\<exists>m. min_child_slow E hp pos = Some m \<and> first_child E hp pos m"
    "pos + 3 < E \<Longrightarrow> min_child_fast hp pos = min_child_slow E hp pos"
proof -
  have "earlier_if E hp i m = Some (if i < E \<and> he_at (hp ! i) < snd m then (i, he_at (hp ! i)) else m)" for i m
    using assms(2) by (simp add: earlier_if_def earlier_ok)
  then show "\<exists>m. min_child_slow E hp pos = Some m \<and> first_child E hp pos m"
    using assms unfolding first_child_def conj_assoc[symmetric] four_children
    by (auto simp: min_child_slow_def)
  show "min_child_fast hp pos = min_child_slow E hp pos" if "pos + 3 < E"
    using that by (simp add: min_child_fast_def min_child_slow_def earlier_if_def)
qed

lemma down_step:
  "down_loop he (N + 3) hp k ws =
     (if 4 * (k - 3) + 4 < N + 3 then do {
        m \<leftarrow> (if 4 * (k - 3) + 4 + 3 < N + 3 then min_child_fast hp (4 * (k - 3) + 4) else min_child_slow (N + 3) hp (4 * (k - 3) + 4));
        if he_at he \<le> snd m then heap_put hp k he ws
        else do {
          x \<leftarrow> arr_get hp (int (fst m));
          (hp, ws) \<leftarrow> heap_put hp k x ws;
          down_loop he (N + 3) hp (fst m) ws } }
      else heap_put hp k he ws)"
  by (subst down_loop.simps) (simp add: Let_def heap_consts case_prod_unfold add.commute)

lemma down_loop_ok:
  assumes "gap he hp N k ws" "ordered (hp[k := he]) N (\<lambda>i. HPARENT i \<noteq> k)" "skips (hp[k := he]) N k"
  shows "settled (hp[k := he]) N ws (down_loop he (N + 3) hp k ws)"
  using assms
proof (induction "N + 3 - k" arbitrary: hp k ws rule: less_induct)
  case less
  note g = less.prems(1) and o = less.prems(2) and sk = less.prems(3)
  have k: "in_heap N k" "k < length hp" "N + 3 \<le> length hp" "3 \<le> k"
    using g gap_length heap_sized_length[of "hp[k := he]" N k] by (auto simp: gap_def in_heap_def)
  let ?pos = "4 * (k - 3) + 4"
  have child: "HPARENT i = k \<longleftrightarrow> ?pos \<le> i \<and> i \<le> ?pos + 3" if "4 \<le> i" for i
    using HPARENT_child[OF k(4) that] by auto
  have ord: "he_at (hp[k := he] ! HPARENT i) \<le> he_at (hp[k := he] ! i)" if "in_heap N i" "4 \<le> i" "HPARENT i \<noteq> k" for i
    using o that by (simp add: ordered_def)
  show ?case
  proof (cases "?pos < N + 3")
    case False
    then have "HPARENT i \<noteq> k" if "in_heap N i" "4 \<le> i" for i using child[OF that(2)] that by (auto simp: in_heap_def)
    then have "ordered (hp[k := he]) N (\<lambda>_. True)" using ord unfolding ordered_def by blast
    with settled_put[OF g] show ?thesis unfolding down_step[of he N hp k ws] if_not_P[OF False] by simp
  next
    case pe: True
    obtain m where m: "min_child_slow (N + 3) hp ?pos = Some m" "first_child (N + 3) hp ?pos m" using min_child_ok(1)[OF pe k(3)] by blast
    have mc: "(if ?pos + 3 < N + 3 then min_child_fast hp ?pos else min_child_slow (N + 3) hp ?pos) = Some m"
      using m(1) min_child_ok(2)[OF pe k(3)] by simp
    have first: "he_at (hp ! fst m) \<le> he_at (hp ! i)" if "in_heap N i" "4 \<le> i" "HPARENT i = k" for i
      using m(2) that child[OF that(2)] by (auto simp: first_child_def in_heap_def)
    have j: "in_heap N (fst m)" "4 \<le> fst m" "HPARENT (fst m) = k" "k < fst m" "snd m = he_at (hp ! fst m)" "fst m < length hp"
      using m(2) child[of "fst m"] k by (auto simp: first_child_def in_heap_def)
    show ?thesis
    proof (cases "he_at he \<le> snd m")
      case True
      have "ordered (hp[k := he]) N (\<lambda>_. True)"
        unfolding ordered_def
      proof (intro allI impI, elim conjE)
        fix i assume i: "in_heap N i" "4 \<le> i"
        then have "i \<noteq> k" if "HPARENT i = k" using HPARENT_less[OF i(2)] that by auto
        then show "he_at (hp[k := he] ! HPARENT i) \<le> he_at (hp[k := he] ! i)"
          using ord[OF i] first[OF i] True j(5) k(2) by (cases "HPARENT i = k") auto
      qed
      with True settled_put[OF g] show ?thesis unfolding down_step[of he N hp k ws] mc if_P[OF pe] by simp
    next
      case lt: False
      let ?j = "fst m" let ?h = "hp[k := hp ! ?j, ?j := he]"
      have o': "ordered ?h N (\<lambda>i. HPARENT i \<noteq> ?j)"
        unfolding ordered_def
      proof (intro allI impI, elim conjE)
        fix i assume i: "in_heap N i" "4 \<le> i" "HPARENT i \<noteq> ?j"
        have pi: "HPARENT i < i" using HPARENT_less[OF i(2)] by simp
        consider "i = ?j" | "i = k" | "i \<noteq> ?j" "i \<noteq> k" "HPARENT i = k" | "i \<noteq> ?j" "i \<noteq> k" "HPARENT i \<noteq> k" by blast
        then show "he_at (?h ! HPARENT i) \<le> he_at (?h ! i)"
        proof cases
          case 1
          then show ?thesis using lt j k by simp
        next
          case 2
          with i have "he_at (hp[k := he] ! HPARENT k) \<le> he_at (hp[k := he] ! ?j)" using sk j unfolding skips_def by blast
          then show ?thesis using 2 pi i j k by simp
        next
          case 3
          then show ?thesis using first[OF i(1,2)] i j k by simp
        next
          case 4
          then show ?thesis using ord[OF i(1,2)] i by simp
        qed
      qed
      have s': "skips ?h N ?j"
        unfolding skips_def
      proof (intro allI impI, elim conjE)
        fix i assume i: "in_heap N i" "4 \<le> i" "HPARENT i = ?j"
        then have "?j < i" using HPARENT_less[OF i(2)] by simp
        moreover have "he_at (hp[k := he] ! ?j) \<le> he_at (hp[k := he] ! i)" using ord[OF i(1,2)] i(3) j(4) by simp
        ultimately show "he_at (?h ! HPARENT ?j) \<le> he_at (?h ! i)" using j k by simp
      qed
      have IH: "settled ?h N ws' (down_loop he (N + 3) (hp[k := hp ! ?j]) ?j ws')" if g': "gap he (hp[k := hp ! ?j]) N ?j ws'" for ws'
        by (rule less.hyps[OF _ g' o' s']) (use j in \<open>auto simp: in_heap_def\<close>)
      have "settled (hp[k := he]) N ws (do { (hp, ws) \<leftarrow> heap_put hp k (hp ! ?j) ws; down_loop he (N + 3) hp ?j ws })"
        by (rule settled_move[OF g j(1)]) (use j IH in auto)
      with lt j(6) show ?thesis unfolding down_step[of he N hp k ws] mc if_P[OF pe] by simp
    qed
  qed
qed

text \<open>
  The operations on a heap whose entry at \<open>k\<close> was changed (\<open>adjustheap\<close>), put last (\<open>upheap\<close>), or
  at the root made later (\<open>downheap\<close>).
\<close>

lemma upheap_ok:
  assumes "heap_sized hp N" "indexed hp N {k} ws" "in_heap N k" "ordered hp N (\<lambda>i. i \<noteq> k)" "skips hp N k"
  shows "settled hp N ws (upheap hp k ws)"
proof -
  have "k < length hp" using assms(1,3) by (auto simp: heap_sized_def in_heap_def)
  then show ?thesis using up_loop_ok[of "hp ! k" hp N k ws] assms by (simp add: upheap_def gap_def)
qed

lemma downheap_ok:
  assumes "heap_sized hp N" "indexed hp N {k} ws" "in_heap N k" "ordered hp N (\<lambda>i. HPARENT i \<noteq> k)" "skips hp N k"
  shows "settled hp N ws (downheap hp N k ws)"
proof -
  have "k < length hp" using assms(1,3) by (auto simp: heap_sized_def in_heap_def)
  then show ?thesis using down_loop_ok[of "hp ! k" hp N k ws] assms by (simp add: downheap_def gap_def heap_consts)
qed

lemma adjustheap_ok:
  assumes h: "heap_sized hp N" "indexed hp N {k} ws" "in_heap N k" and o: "ordered hp N (\<lambda>i. i \<noteq> k \<and> HPARENT i \<noteq> k)" and sk: "skips hp N k"
  shows "settled hp N ws (adjustheap hp N k ws)"
proof -
  have k: "k < length hp" "3 \<le> k" using h by (auto simp: heap_sized_def in_heap_def)
  show ?thesis
  proof (cases "k > 3 \<and> he_at (hp ! HPARENT k) \<ge> he_at (hp ! k)")
    case True
    then have p: "HPARENT k < k" "4 \<le> k" using HPARENT_less[of k] by auto
    have "he_at (hp ! HPARENT i) \<le> he_at (hp ! i)" if i: "in_heap N i" "4 \<le> i" "i \<noteq> k" for i
    proof (cases "HPARENT i = k")
      case True': True
      with sk i p have "he_at (hp ! HPARENT k) \<le> he_at (hp ! i)" unfolding skips_def by blast
      with True True' show ?thesis by simp
    qed (use o i in \<open>simp add: ordered_def\<close>)
    then have "ordered hp N (\<lambda>i. i \<noteq> k)" by (simp add: ordered_def)
    with True p k upheap_ok[OF h] sk show ?thesis by (simp add: adjustheap_def heap_consts)
  next
    case False
    then have "ordered hp N (\<lambda>i. HPARENT i \<noteq> k)" using o k(2) by (auto simp: ordered_def)
    moreover have "HPARENT k < length hp" if "k > 3" using HPARENT_less[of k] that k by simp
    ultimately show ?thesis using False downheap_ok[OF h _ sk] k by (auto simp: adjustheap_def heap_consts)
  qed
qed

lemma entries_more:
  assumes "N \<le> M"
  shows "entries hp M = entries hp N @ take (M - N) (drop (N + 3) hp)"
  using assms take_add[of N "M - N" "drop 3 hp"] by (simp add: entries_def add.commute)

lemma reheap_from_ok:
  assumes "heap_sized hp (i + n)" "ordered hp i (\<lambda>_. True)" "indexed hp (i + n) {} ws"
  shows "settled hp (i + n) ws (reheap_from i n hp ws)"
  using assms
proof (induction n arbitrary: i hp ws)
  case 0
  then show ?case by (simp add: settled_def theap_def reindexed_refl)
next
  case (Suc n)
  let ?M = "i + Suc n"
  have l: "i + 4 + n \<le> length hp" "distinct (map he_w (entries hp ?M))" using Suc.prems(1) by (simp_all add: heap_sized_def)
  have e: "entries h ?M = entries h (Suc i) @ take n (drop (i + 4) h)" for h
    using entries_more[of "Suc i" ?M h] by (simp add: add.commute)
  have nochild: "HPARENT j \<noteq> i + 3" if "in_heap (Suc i) j" "4 \<le> j" for j using HPARENT_less[OF that(2)] that(1) by (auto simp: in_heap_def)
  have "settled hp (Suc i) ws (upheap hp (i + 3) ws)"
  proof (rule upheap_ok)
    show "heap_sized hp (Suc i)" using l e[of hp] by (simp add: heap_sized_def)
    show "indexed hp (Suc i) {i + 3} ws" using Suc.prems(3) by (auto simp: indexed_def in_heap_def)
    show "ordered hp (Suc i) (\<lambda>j. j \<noteq> i + 3)" using Suc.prems(2) by (auto simp: ordered_def in_heap_def)
    show "skips hp (Suc i) (i + 3)" using nochild by (auto simp: skips_def)
  qed (simp add: in_heap_def)
  then obtain hp1 ws1 where 1: "upheap hp (i + 3) ws = Some (hp1, ws1)" "theap hp1 (Suc i) ws1" "mset (entries hp1 (Suc i)) = mset (entries hp (Suc i))"
      "length hp1 = length hp" "\<forall>j. \<not> in_heap (Suc i) j \<longrightarrow> hp1 ! j = hp ! j" "reindexed (he_w ` set (entries hp (Suc i))) ws ws1"
    by (auto simp: settled_def)
  have rest: "take n (drop (i + 4) hp1) = take n (drop (i + 4) hp)"
    by (rule nth_equalityI) (use 1(4,5) in \<open>auto simp: in_heap_def\<close>)
  have m: "mset (entries hp1 ?M) = mset (entries hp ?M)" unfolding e rest using 1(3) by simp
  have hs: "heap_sized hp1 (Suc i + n)"
    using l m 1(4) mset_eq_imp_distinct_iff[of "map he_w (entries hp1 ?M)" "map he_w (entries hp ?M)"] by (simp add: heap_sized_def mset_map)
  have ix: "indexed hp1 (Suc i + n) {} ws1"
    unfolding indexed_def
  proof (intro allI impI)
    fix j assume j: "in_heap (Suc i + n) j"
    show "he_w (hp1 ! j) \<noteq> NULL \<and> (\<exists>w. ws1 (he_w (hp1 ! j)) = Some w \<and> (j \<notin> {} \<longrightarrow> w_active w = j))"
    proof (cases "in_heap (Suc i) j")
      case True
      then show ?thesis using 1(2) by (simp add: theap_def indexed_def)
    next
      case False
      have "hp ! j \<in> set (take n (drop (i + 4) hp))"
        using j False l(1) nth_mem[of "j - (i + 4)" "take n (drop (i + 4) hp)"] by (auto simp: in_heap_def)
      then have "he_w (hp ! j) \<notin> he_w ` set (entries hp (Suc i))" using l(2) e[of hp] by auto
      then have "ws1 (he_w (hp ! j)) = ws (he_w (hp ! j))" using 1(6) by (simp add: reindexed_def)
      then show ?thesis using Suc.prems(3) j 1(5) False by (simp add: indexed_def)
    qed
  qed
  have "settled hp1 (Suc i + n) ws1 (reheap_from (Suc i) n hp1 ws1)"
    by (rule Suc.IH[OF hs _ ix]) (use 1(2) in \<open>simp add: theap_def\<close>)
  then obtain hp2 ws2 where 2: "reheap_from (Suc i) n hp1 ws1 = Some (hp2, ws2)" "theap hp2 ?M ws2" "mset (entries hp2 ?M) = mset (entries hp1 ?M)"
      "length hp2 = length hp1" "\<forall>j. \<not> in_heap ?M j \<longrightarrow> hp2 ! j = hp1 ! j" "reindexed (he_w ` set (entries hp1 ?M)) ws1 ws2"
    by (auto simp: settled_def)
  have "reindexed (he_w ` set (entries hp ?M)) ws ws2"
    by (rule reindexed_trans[OF 1(6) 2(6)]) (use mset_eq_setD[OF m] e[of hp] in auto)
  moreover have "\<forall>j. \<not> in_heap ?M j \<longrightarrow> hp2 ! j = hp ! j" using 1(5) 2(5) by (auto simp: in_heap_def)
  moreover have "reheap_from i (Suc n) hp ws = Some (hp2, ws2)" using 1(1) 2(1) by (simp add: heap_consts)
  ultimately show ?case using 1(4) 2(2-4) m by (simp add: settled_def)
qed

lemma reheap_ok:
  assumes "heap_sized hp N" "indexed hp N {} ws"
  shows "settled hp N ws (reheap hp N ws)"
  using reheap_from_ok[of hp 0 N ws] assms by (simp add: reheap_def ordered_def in_heap_def)

end
