(* ===== verification/Ev_Timer.thy ===== *)
theory Ev_Timer
  imports Ev_Heap
begin

text \<open>
  Timers and pending events of the bundled event library, \<open>src/ev.c\<close>, and the wrappers of
  \<open>src/evt.c\<close>.

  A watcher that has to be called is entered into the array of its priority; the watcher holds
  the index of its entry, plus one.  Calling the pending watchers takes the entries from the end
  of each array, the highest priority first.

  \<open>rnd\<close> rounds the sums of times; nothing is assumed about it.  Growing an array never fails:
  the library aborts the process when there is no memory.
\<close>

unbundle bit_operations_syntax

section \<open>Arrays that grow\<close>

definition MALLOC_ROUND :: nat where
  "MALLOC_ROUND = 4096"

function grow_twice :: "nat \<Rightarrow> nat \<Rightarrow> nat" where
  "grow_twice ncur cnt = (if cnt > ncur \<and> ncur > 0 then grow_twice (2 * ncur) cnt else ncur)"
  by auto
termination by (relation "measure (\<lambda>(n, c). c - n)") auto

declare grow_twice.simps [simp del]

text \<open>\<open>sizeof(void *)\<close> is 8.\<close>

definition array_nextsize :: "nat \<Rightarrow> nat \<Rightarrow> nat \<Rightarrow> nat" where
  "array_nextsize elem cur cnt =
     (let ncur = grow_twice (2 * (cur + 1)) cnt
      in if elem * ncur > MALLOC_ROUND - 8 * 4
         then ((ncur * elem + elem + (MALLOC_ROUND - 1) + 8 * 4) div MALLOC_ROUND * MALLOC_ROUND - 8 * 4) div elem
         else ncur)"

text \<open>New entries are blank.\<close>

definition array_needsize :: "nat \<Rightarrow> 'b \<Rightarrow> nat \<Rightarrow> 'b list \<Rightarrow> 'b list" where
  "array_needsize elem blank cnt xs =
     (if cnt > length xs then xs @ replicate (array_nextsize elem (length xs) cnt - length xs) blank else xs)"

section \<open>State\<close>

record ANPENDING =
  pd_w :: ptr
  pd_events :: int

record evst =
  ev_ws :: wmem
  ev_pendings :: "nat \<Rightarrow> ANPENDING list"
  ev_pendingcnt :: "nat \<Rightarrow> nat"
  ev_timers :: "ANHE list"
  ev_timercnt :: nat
  ev_activecnt :: int
  ev_mn_now :: ev_tstamp

definition EV_MINPRI :: int where "EV_MINPRI = -2"
definition EV_MAXPRI :: int where "EV_MAXPRI = 2"
definition EV_READ :: int where "EV_READ = 0x01"
definition EV_WRITE :: int where "EV_WRITE = 0x02"
definition EV_TIMEOUT :: int where "EV_TIMEOUT = 0x100"

definition NUMPRI :: nat where
  "NUMPRI = nat (EV_MAXPRI - EV_MINPRI + 1)"

text \<open>The index of a priority; outside the arrays there is nothing.\<close>

definition ABSPRI :: "watcher \<Rightarrow> nat option" where
  "ABSPRI w = (if EV_MINPRI \<le> w_priority w \<and> w_priority w \<le> EV_MAXPRI then Some (nat (w_priority w - EV_MINPRI)) else None)"

section \<open>Pending events\<close>

definition ev_feed_event :: "ptr \<Rightarrow> int \<Rightarrow> 'a evst_scheme \<Rightarrow> 'a evst_scheme option" where
  "ev_feed_event p revents s = do {
     w \<leftarrow> deref (ev_ws s) p;
     pri \<leftarrow> ABSPRI w;
     if w_pending w \<noteq> 0 then do {
       e \<leftarrow> arr_get (ev_pendings s pri) (int (w_pending w) - 1);
       xs \<leftarrow> arr_set (ev_pendings s pri) (int (w_pending w) - 1) (e\<lparr>pd_events := pd_events e OR revents\<rparr>);
       Some (s\<lparr>ev_pendings := (ev_pendings s)(pri := xs)\<rparr>) }
     else do {
       let n = ev_pendingcnt s pri + 1;
       xs \<leftarrow> arr_set (array_needsize 16 \<lparr>pd_w = NULL, pd_events = 0\<rparr> n (ev_pendings s pri)) (int n - 1) \<lparr>pd_w = p, pd_events = revents\<rparr>;
       Some (s\<lparr>ev_ws := (ev_ws s)(p \<mapsto> w\<lparr>w_pending := n\<rparr>), ev_pendingcnt := (ev_pendingcnt s)(pri := n),
         ev_pendings := (ev_pendings s)(pri := xs)\<rparr>) } }"

definition clear_pending :: "ptr \<Rightarrow> 'a evst_scheme \<Rightarrow> 'a evst_scheme option" where
  "clear_pending p s = do {
     w \<leftarrow> deref (ev_ws s) p;
     if w_pending w \<noteq> 0 then do {
       pri \<leftarrow> ABSPRI w;
       e \<leftarrow> arr_get (ev_pendings s pri) (int (w_pending w) - 1);
       xs \<leftarrow> arr_set (ev_pendings s pri) (int (w_pending w) - 1) (e\<lparr>pd_w := NULL\<rparr>);
       Some (s\<lparr>ev_pendings := (ev_pendings s)(pri := xs), ev_ws := (ev_ws s)(p \<mapsto> w\<lparr>w_pending := 0\<rparr>)\<rparr>) }
     else Some s }"

text \<open>The result is the events that were pending.\<close>

definition ev_clear_pending :: "ptr \<Rightarrow> 'a evst_scheme \<Rightarrow> (int \<times> 'a evst_scheme) option" where
  "ev_clear_pending p s = do {
     w \<leftarrow> deref (ev_ws s) p;
     if w_pending w \<noteq> 0 then do {
       pri \<leftarrow> ABSPRI w;
       e \<leftarrow> arr_get (ev_pendings s pri) (int (w_pending w) - 1);
       xs \<leftarrow> arr_set (ev_pendings s pri) (int (w_pending w) - 1) (e\<lparr>pd_w := NULL\<rparr>);
       Some (pd_events e, s\<lparr>ev_ws := (ev_ws s)(p \<mapsto> w\<lparr>w_pending := 0\<rparr>), ev_pendings := (ev_pendings s)(pri := xs)\<rparr>) }
     else Some (0, s) }"

text \<open>
  \<open>cb w revents\<close> is the callback of the watcher \<open>w\<close>.  \<open>n\<close> is one more than the index of the
  priority that is served.
\<close>

type_synonym 's ev_cb = "ptr \<Rightarrow> int \<Rightarrow> 's \<Rightarrow> 's option"

partial_function (option) pending_loop :: "'a evst_scheme ev_cb \<Rightarrow> nat \<Rightarrow> 'a evst_scheme \<Rightarrow> 'a evst_scheme option" where
  "pending_loop cb pri s =
     (if ev_pendingcnt s pri = 0 then Some s
      else do {
        let n = ev_pendingcnt s pri - 1;
        let s = s\<lparr>ev_pendingcnt := (ev_pendingcnt s)(pri := n)\<rparr>;
        e \<leftarrow> arr_get (ev_pendings s pri) (int n);
        if pd_w e \<noteq> NULL then do {
          ws \<leftarrow> upd_at (pd_w e) (\<lambda>w. w\<lparr>w_pending := 0\<rparr>) (ev_ws s);
          s \<leftarrow> cb (pd_w e) (pd_events e) (s\<lparr>ev_ws := ws\<rparr>);
          pending_loop cb pri s }
        else pending_loop cb pri s })"

fun pending_pris :: "'a evst_scheme ev_cb \<Rightarrow> nat \<Rightarrow> 'a evst_scheme \<Rightarrow> 'a evst_scheme option" where
  "pending_pris cb 0 s = Some s"
| "pending_pris cb (Suc pri) s = do { s \<leftarrow> pending_loop cb pri s; pending_pris cb pri s }"

definition call_pending :: "'a evst_scheme ev_cb \<Rightarrow> 'a evst_scheme \<Rightarrow> 'a evst_scheme option" where
  "call_pending cb s = pending_pris cb NUMPRI s"

section \<open>Starting and stopping\<close>

definition ev_ref :: "'a evst_scheme \<Rightarrow> 'a evst_scheme" where
  "ev_ref s = s\<lparr>ev_activecnt := ev_activecnt s + 1\<rparr>"

definition ev_unref :: "'a evst_scheme \<Rightarrow> 'a evst_scheme" where
  "ev_unref s = s\<lparr>ev_activecnt := ev_activecnt s - 1\<rparr>"

definition pri_adjust :: "watcher \<Rightarrow> watcher" where
  "pri_adjust w =
     (let pri = w_priority w;
          pri = (if pri < EV_MINPRI then EV_MINPRI else pri);
          pri = (if pri > EV_MAXPRI then EV_MAXPRI else pri)
      in w\<lparr>w_priority := pri\<rparr>)"

definition ev_start :: "ptr \<Rightarrow> nat \<Rightarrow> 'a evst_scheme \<Rightarrow> 'a evst_scheme option" where
  "ev_start p active s = do {
     ws \<leftarrow> upd_at p (\<lambda>w. (pri_adjust w)\<lparr>w_active := active\<rparr>) (ev_ws s);
     Some (ev_ref (s\<lparr>ev_ws := ws\<rparr>)) }"

definition ev_stop :: "ptr \<Rightarrow> 'a evst_scheme \<Rightarrow> 'a evst_scheme option" where
  "ev_stop p s = do {
     ws \<leftarrow> upd_at p (\<lambda>w. w\<lparr>w_active := 0\<rparr>) (ev_ws s);
     Some ((ev_unref s)\<lparr>ev_ws := ws\<rparr>) }"

section \<open>Timers\<close>

text \<open>\<open>ANHE_at_cache(timers[k])\<close>\<close>

definition at_cache :: "nat \<Rightarrow> ANHE list \<Rightarrow> wmem \<Rightarrow> ANHE list option" where
  "at_cache k hp ws = do {
     e \<leftarrow> arr_get hp (int k);
     w \<leftarrow> deref ws (he_w e);
     arr_set hp (int k) (e\<lparr>he_at := w_at w\<rparr>) }"

definition set_heap :: "(ANHE list \<times> wmem) option \<Rightarrow> 'a evst_scheme \<Rightarrow> 'a evst_scheme option" where
  "set_heap r s = do { (hp, ws) \<leftarrow> r; Some (s\<lparr>ev_timers := hp, ev_ws := ws\<rparr>) }"

definition ev_timer_start :: "(rat \<Rightarrow> rat) \<Rightarrow> ptr \<Rightarrow> 'a evst_scheme \<Rightarrow> 'a evst_scheme option" where
  "ev_timer_start rnd p s = do {
     w \<leftarrow> deref (ev_ws s) p;
     if w_active w \<noteq> 0 then Some s
     else do {
       let s = s\<lparr>ev_ws := (ev_ws s)(p \<mapsto> w\<lparr>w_at := rnd (w_at w + ev_mn_now s)\<rparr>)\<rparr>;
       if w_repeat w < 0 then None
       else do {
         let n = ev_timercnt s + 1;
         let k = n + HEAP0 - 1;
         s \<leftarrow> ev_start p k (s\<lparr>ev_timercnt := n\<rparr>);
         let hp = array_needsize 16 \<lparr>he_at = 0, he_w = NULL\<rparr> (k + 1) (ev_timers s);
         e \<leftarrow> arr_get hp (int k);
         hp \<leftarrow> arr_set hp (int k) (e\<lparr>he_w := p\<rparr>);
         hp \<leftarrow> at_cache k hp (ev_ws s);
         set_heap (upheap hp k (ev_ws s)) s } } }"

definition ev_timer_stop :: "(rat \<Rightarrow> rat) \<Rightarrow> ptr \<Rightarrow> 'a evst_scheme \<Rightarrow> 'a evst_scheme option" where
  "ev_timer_stop rnd p s = do {
     s \<leftarrow> clear_pending p s;
     w \<leftarrow> deref (ev_ws s) p;
     if w_active w = 0 then Some s
     else do {
       let k = w_active w;
       e \<leftarrow> arr_get (ev_timers s) (int k);
       if he_w e \<noteq> p \<or> ev_timercnt s = 0 then None
       else do {
         let n = ev_timercnt s - 1;
         let s = s\<lparr>ev_timercnt := n\<rparr>;
         s \<leftarrow> (if k < n + HEAP0 then do {
                  x \<leftarrow> arr_get (ev_timers s) (int (n + HEAP0));
                  hp \<leftarrow> arr_set (ev_timers s) (int k) x;
                  set_heap (adjustheap hp n k (ev_ws s)) s }
                else Some s);
         ws \<leftarrow> upd_at p (\<lambda>w. w\<lparr>w_at := rnd (w_at w - ev_mn_now s)\<rparr>) (ev_ws s);
         ev_stop p (s\<lparr>ev_ws := ws\<rparr>) } } }"

definition ev_timer_again :: "(rat \<Rightarrow> rat) \<Rightarrow> ptr \<Rightarrow> 'a evst_scheme \<Rightarrow> 'a evst_scheme option" where
  "ev_timer_again rnd p s = do {
     w \<leftarrow> deref (ev_ws s) p;
     if w_active w \<noteq> 0 then
       if w_repeat w \<noteq> 0 then do {
         let s = s\<lparr>ev_ws := (ev_ws s)(p \<mapsto> w\<lparr>w_at := rnd (ev_mn_now s + w_repeat w)\<rparr>)\<rparr>;
         hp \<leftarrow> at_cache (w_active w) (ev_timers s) (ev_ws s);
         set_heap (adjustheap hp (ev_timercnt s) (w_active w) (ev_ws s)) s }
       else ev_timer_stop rnd p s
     else if w_repeat w \<noteq> 0 then ev_timer_start rnd p (s\<lparr>ev_ws := (ev_ws s)(p \<mapsto> w\<lparr>w_at := w_repeat w\<rparr>)\<rparr>)
     else Some s }"

text \<open>The timer that is due first is started again or stopped, then fed.\<close>

definition reify_one :: "(rat \<Rightarrow> rat) \<Rightarrow> ptr \<Rightarrow> 'a evst_scheme \<Rightarrow> 'a evst_scheme option" where
  "reify_one rnd p s = do {
     w \<leftarrow> deref (ev_ws s) p;
     s \<leftarrow> (if w_repeat w \<noteq> 0 then do {
              let t = rnd (w_at w + w_repeat w);
              let t = (if t < ev_mn_now s then ev_mn_now s else t);
              if w_repeat w \<le> 0 then None
              else do {
                let s = s\<lparr>ev_ws := (ev_ws s)(p \<mapsto> w\<lparr>w_at := t\<rparr>)\<rparr>;
                hp \<leftarrow> at_cache HEAP0 (ev_timers s) (ev_ws s);
                set_heap (downheap hp (ev_timercnt s) HEAP0 (ev_ws s)) s } }
            else ev_timer_stop rnd p s);
     ev_feed_event p EV_TIMEOUT s }"

partial_function (option) timers_reify :: "(rat \<Rightarrow> rat) \<Rightarrow> 'a evst_scheme \<Rightarrow> 'a evst_scheme option" where
  "timers_reify rnd s =
     (if ev_timercnt s = 0 then Some s
      else do {
        e \<leftarrow> arr_get (ev_timers s) (int HEAP0);
        if he_at e < ev_mn_now s then do {
          s \<leftarrow> reify_one rnd (he_w e) s;
          timers_reify rnd s }
        else Some s })"

section \<open>The wrappers of the program\<close>

text \<open>\<open>ev_init\<close> and \<open>ev_timer_set\<close>\<close>

definition ev_timer_init :: "nat \<Rightarrow> ev_tstamp \<Rightarrow> ev_tstamp \<Rightarrow> watcher \<Rightarrow> watcher" where
  "ev_timer_init cb aft rep w =
     w\<lparr>w_active := 0, w_pending := 0, w_priority := 0, w_cb := cb, w_at := aft, w_repeat := rep\<rparr>"

definition zero_watcher :: watcher where
  "zero_watcher = \<lparr>w_active = 0, w_pending = 0, w_priority = 0, w_cb = 0, w_next = NULL, w_at = 0, w_repeat = 0, w_fd = 0, w_events = 0\<rparr>"

text \<open>\<open>p\<close> is the memory \<open>mem_alloc\<close> gives; without memory it writes through NULL.\<close>

definition evt_timer_add :: "(rat \<Rightarrow> rat) \<Rightarrow> ptr \<Rightarrow> watcher \<Rightarrow> 'a evst_scheme \<Rightarrow> (ptr \<times> 'a evst_scheme) option" where
  "evt_timer_add rnd p w s =
     (if p = NULL then None
      else do {
        s \<leftarrow> ev_timer_start rnd p (s\<lparr>ev_ws := (ev_ws s)(p \<mapsto> w)\<rparr>);
        Some (p, s) })"

definition evt_timer_add_periodic :: "(rat \<Rightarrow> rat) \<Rightarrow> ptr \<Rightarrow> nat \<Rightarrow> int \<Rightarrow> 'a evst_scheme \<Rightarrow> (ptr \<times> 'a evst_scheme) option" where
  "evt_timer_add_periodic rnd p cb interval s = evt_timer_add rnd p (ev_timer_init cb 0 (of_int interval) zero_watcher) s"

definition evt_timer_add_oneshot :: "(rat \<Rightarrow> rat) \<Rightarrow> ptr \<Rightarrow> nat \<Rightarrow> int \<Rightarrow> 'a evst_scheme \<Rightarrow> (ptr \<times> 'a evst_scheme) option" where
  "evt_timer_add_oneshot rnd p cb timeout s = evt_timer_add rnd p (ev_timer_init cb (of_int timeout) 0 zero_watcher) s"

section \<open>Arrays\<close>

lemma grow_twice_enough: "0 < n \<Longrightarrow> c \<le> grow_twice n c \<and> n \<le> grow_twice n c"
proof (induction n c rule: grow_twice.induct)
  case (1 n c)
  then show ?case by (subst (1 2) grow_twice.simps) auto
qed

lemma array_nextsize_enough:
  assumes "0 < elem"
  shows "cnt \<le> array_nextsize elem cur cnt \<and> cur < array_nextsize elem cur cnt"
proof -
  let ?n = "grow_twice (2 * (cur + 1)) cnt"
  have n: "cnt \<le> ?n" "2 * (cur + 1) \<le> ?n" using grow_twice_enough[of "2 * (cur + 1)" cnt] by auto
  let ?x = "?n * elem + elem + 32"
  have "?x \<le> (?x + 4095) div 4096 * 4096"
    using div_mult_mod_eq[of "?x + 4095" 4096] mod_less_divisor[of 4096 "?x + 4095"] by linarith
  then have "?n * elem + elem \<le> (?n * elem + elem + 4095 + 32) div 4096 * 4096 - 32" by (simp add: algebra_simps)
  then have "(?n * elem + elem) div elem \<le> ((?n * elem + elem + 4095 + 32) div 4096 * 4096 - 32) div elem" by (rule div_le_mono)
  moreover have "(?n * elem + elem) div elem = ?n + 1" using assms by simp
  ultimately have "?n + 1 \<le> ((?n * elem + elem + 4095 + 32) div 4096 * 4096 - 32) div elem" by simp
  then show ?thesis using n by (simp add: array_nextsize_def MALLOC_ROUND_def Let_def)
qed

lemma array_needsize_ok:
  assumes "0 < elem"
  shows "n \<le> length (array_needsize elem b n xs)" "length xs \<le> length (array_needsize elem b n xs)"
    "i < length xs \<Longrightarrow> array_needsize elem b n xs ! i = xs ! i"
  using array_nextsize_enough[OF assms, of n "length xs"] by (auto simp: array_needsize_def nth_append)

section \<open>Pending events as a map\<close>

text \<open>What the arrays of pending events depend on in a watcher.\<close>

definition pkey :: "watcher \<Rightarrow> nat \<times> nat option" where
  "pkey w = (w_pending w, if w_pending w = 0 then None else ABSPRI w)"

type_synonym pkeys = "ptr \<rightharpoonup> nat \<times> nat option"

definition keys :: "'a evst_scheme \<Rightarrow> pkeys" where
  "keys s p = map_option pkey (ev_ws s p)"

definition pend_inv :: "pkeys \<Rightarrow> (nat \<Rightarrow> ANPENDING list) \<Rightarrow> (nat \<Rightarrow> nat) \<Rightarrow> bool" where
  "pend_inv K P C \<longleftrightarrow>
     (\<forall>p n q. K p = Some (n, q) \<and> n \<noteq> 0 \<longrightarrow> p \<noteq> NULL \<and> (\<exists>pri. q = Some pri \<and> n \<le> C pri \<and> pd_w (P pri ! (n - 1)) = p)) \<and>
     (\<forall>pri. C pri \<le> length (P pri) \<and> (\<forall>i < C pri. pd_w (P pri ! i) \<noteq> NULL \<longrightarrow> K (pd_w (P pri ! i)) = Some (Suc i, Some pri)))"

definition pend_ok :: "'a evst_scheme \<Rightarrow> bool" where
  "pend_ok s \<longleftrightarrow> pend_inv (keys s) (ev_pendings s) (ev_pendingcnt s)"

text \<open>The events that wait for a watcher.\<close>

definition pevents :: "pkeys \<Rightarrow> (nat \<Rightarrow> ANPENDING list) \<Rightarrow> ptr \<rightharpoonup> int" where
  "pevents K P p = (case K p of Some (Suc i, Some pri) \<Rightarrow> Some (pd_events (P pri ! i)) | _ \<Rightarrow> None)"

definition pview :: "'a evst_scheme \<Rightarrow> ptr \<rightharpoonup> int" where
  "pview s = pevents (keys s) (ev_pendings s)"

lemma pkey_simps [simp]:
  "pkey (w\<lparr>w_pending := 0\<rparr>) = (0, None)" "pkey (w\<lparr>w_pending := Suc n\<rparr>) = (Suc n, ABSPRI w)" "fst (pkey w) = w_pending w"
  by (simp_all add: pkey_def ABSPRI_def)

lemma keys_upd: "keys (s\<lparr>ev_ws := (ev_ws s)(p \<mapsto> w)\<rparr>) = (keys s)(p \<mapsto> pkey w)"
  by (auto simp: keys_def)

lemma pend_inv_entry:
  assumes "pend_inv K P C" "K p = Some (Suc i, q)"
  shows "\<exists>pri. q = Some pri \<and> i < C pri \<and> i < length (P pri) \<and> pd_w (P pri ! i) = p \<and> p \<noteq> NULL"
proof -
  have "p \<noteq> NULL \<and> (\<exists>pri. q = Some pri \<and> Suc i \<le> C pri \<and> pd_w (P pri ! (Suc i - 1)) = p)"
    using assms(1)[unfolded pend_inv_def, THEN conjunct1, rule_format, of p "Suc i" q] assms(2) by simp
  then obtain pri where pri: "p \<noteq> NULL" "q = Some pri" "i < C pri" "pd_w (P pri ! i) = p" by auto
  moreover have "C pri \<le> length (P pri)" using assms(1) by (simp add: pend_inv_def)
  ultimately show ?thesis by (intro exI[of _ pri]) simp
qed

lemma pend_inv_free: "pend_inv K P C \<Longrightarrow> i < C pri \<Longrightarrow> pd_w (P pri ! i) = q \<Longrightarrow> q \<noteq> NULL \<Longrightarrow> K q = Some (Suc i, Some pri)"
  by (auto simp: pend_inv_def)

text \<open>A new entry at the end, an entry that is changed, an entry that is dropped.\<close>

lemma pend_inv_new:
  assumes inv: "pend_inv K P C" and p: "p \<noteq> NULL" "K p = Some (0, q)" and xs: "C pri < length xs" "\<forall>i < C pri. xs ! i = P pri ! i"
  shows "pend_inv (K(p \<mapsto> (Suc (C pri), Some pri))) (P(pri := xs[C pri := \<lparr>pd_w = p, pd_events = e\<rparr>])) (C(pri := Suc (C pri)))"
    "pevents (K(p \<mapsto> (Suc (C pri), Some pri))) (P(pri := xs[C pri := \<lparr>pd_w = p, pd_events = e\<rparr>])) = (pevents K P)(p \<mapsto> e)"
proof -
  let ?K = "K(p \<mapsto> (Suc (C pri), Some pri))" and ?P = "P(pri := xs[C pri := \<lparr>pd_w = p, pd_events = e\<rparr>])" and ?C = "C(pri := Suc (C pri))"
  have same: "?P r ! i = P r ! i" if "i < C r" for r i using that xs by (cases "r = pri") auto
  show "pend_inv ?K ?P ?C"
    unfolding pend_inv_def
  proof (intro conjI allI impI, goal_cases)
    case (1 r n q)
    then show ?case using p inv by (cases "r = p") (auto simp: pend_inv_def)
  next
    case (2 r n q)
    show ?case
    proof (cases "r = p")
      case True
      then show ?thesis using 2 xs by auto
    next
      case False
      then obtain i where i: "K r = Some (Suc i, q)" "n = Suc i" using 2 by (cases n) auto
      from pend_inv_entry[OF inv i(1)] obtain pr where "q = Some pr" "i < C pr" "pd_w (P pr ! i) = r" by blast
      then show ?thesis using i same by (intro exI[of _ pr]) auto
    qed
  next
    case (3 r)
    then show ?case using xs inv by (auto simp: pend_inv_def)
  next
    case (4 r i)
    show ?case
    proof (cases "i < C r")
      case True
      then have k: "K (pd_w (P r ! i)) = Some (Suc i, Some r)" using pend_inv_free[OF inv True refl] 4 same by simp
      then have "pd_w (P r ! i) \<noteq> p" using p(2) by auto
      then show ?thesis using k same[OF True] by simp
    next
      case False
      then show ?thesis using 4 xs by (cases "r = pri") (auto simp: less_Suc_eq)
    qed
  qed
  show "pevents ?K ?P = (pevents K P)(p \<mapsto> e)"
  proof
    fix r
    show "pevents ?K ?P r = ((pevents K P)(p \<mapsto> e)) r"
    proof (cases "r = p")
      case True
      then show ?thesis using xs by (simp add: pevents_def)
    next
      case False
      have "?P pr ! j = P pr ! j" if "K r = Some (Suc j, Some pr)" for j pr using pend_inv_entry[OF inv that] same by simp
      with False show ?thesis by (simp add: pevents_def split: option.splits nat.splits)
    qed
  qed
qed

lemma pend_inv_change:
  assumes inv: "pend_inv K P C" and p: "K p = Some (Suc i, Some pri)"
  shows "pend_inv K (P(pri := (P pri)[i := (P pri ! i)\<lparr>pd_events := e\<rparr>])) C"
    "pevents K (P(pri := (P pri)[i := (P pri ! i)\<lparr>pd_events := e\<rparr>])) = (pevents K P)(p \<mapsto> e)"
proof -
  let ?P = "P(pri := (P pri)[i := (P pri ! i)\<lparr>pd_events := e\<rparr>])"
  have i: "i < length (P pri)" "pd_w (P pri ! i) = p" using pend_inv_entry[OF inv p] by auto
  have w: "pd_w (?P r ! j) = pd_w (P r ! j)" for r j using i by (cases "r = pri"; cases "j = i") auto
  have l: "length (?P r) = length (P r)" for r by simp
  show "pend_inv K ?P C" using inv unfolding pend_inv_def w l .
  show "pevents K ?P = (pevents K P)(p \<mapsto> e)"
  proof
    fix r
    have "?P pr ! j = P pr ! j" if "K r = Some (Suc j, Some pr)" "r \<noteq> p" for j pr
      using that pend_inv_entry[OF inv that(1)] i by (cases "pr = pri"; cases "j = i") auto
    then show "pevents K ?P r = ((pevents K P)(p \<mapsto> e)) r"
      using p i by (cases "r = p") (auto simp: pevents_def split: option.splits nat.splits)
  qed
qed

lemma pend_inv_drop:
  assumes inv: "pend_inv K P C" and p: "K p = Some (Suc i, Some pri)"
  shows "pend_inv (K(p \<mapsto> (0, None))) (P(pri := (P pri)[i := (P pri ! i)\<lparr>pd_w := NULL\<rparr>])) C"
    "pevents (K(p \<mapsto> (0, None))) (P(pri := (P pri)[i := (P pri ! i)\<lparr>pd_w := NULL\<rparr>])) = (pevents K P)(p := None)"
proof -
  let ?P = "P(pri := (P pri)[i := (P pri ! i)\<lparr>pd_w := NULL\<rparr>])" and ?K = "K(p \<mapsto> (0, None))"
  have i: "i < length (P pri)" "pd_w (P pri ! i) = p" "p \<noteq> NULL" "i < C pri" using pend_inv_entry[OF inv p] by auto
  have other: "?P pr ! j = P pr ! j" if "K r = Some (Suc j, Some pr)" "r \<noteq> p" for r j pr
    using that pend_inv_entry[OF inv that(1)] i by (cases "pr = pri"; cases "j = i") auto
  show "pend_inv ?K ?P C"
    unfolding pend_inv_def
  proof (intro conjI allI impI, goal_cases)
    case (1 r n q)
    then show ?case using inv by (cases "r = p") (auto simp: pend_inv_def)
  next
    case (2 r n q)
    then obtain j where j: "K r = Some (Suc j, q)" "n = Suc j" "r \<noteq> p" by (cases n; cases "r = p") auto
    from pend_inv_entry[OF inv j(1)] obtain pr where "q = Some pr" "j < C pr" "pd_w (P pr ! j) = r" by blast
    then show ?case using j other[of r j pr] by (intro exI[of _ pr]) auto
  next
    case (3 r)
    then show ?case using inv by (auto simp: pend_inv_def)
  next
    case (4 r j)
    have "\<not> (r = pri \<and> j = i)" using 4 i by auto
    then have same: "?P r ! j = P r ! j" by auto
    with 4 have k: "K (pd_w (P r ! j)) = Some (Suc j, Some r)" using pend_inv_free[OF inv] by simp
    moreover have "pd_w (P r ! j) \<noteq> p" using k p \<open>\<not> (r = pri \<and> j = i)\<close> by auto
    ultimately show ?case using same by simp
  qed
  show "pevents ?K ?P = (pevents K P)(p := None)"
  proof
    fix r
    show "pevents ?K ?P r = ((pevents K P)(p := None)) r"
      using other[of r] pend_inv_entry[OF inv, of r] by (cases "r = p") (auto simp: pevents_def split: option.splits nat.splits)
  qed
qed

text \<open>Only which events are pending has changed, and perhaps the part of the program.\<close>

definition qframe :: "'a evst_scheme \<Rightarrow> 'a evst_scheme \<Rightarrow> bool" where
  "qframe s s' \<longleftrightarrow> ev_timers s' = ev_timers s \<and> ev_timercnt s' = ev_timercnt s \<and> ev_activecnt s' = ev_activecnt s \<and>
     ev_mn_now s' = ev_mn_now s \<and>
     (\<forall>p. map_option (\<lambda>w. w\<lparr>w_pending := 0\<rparr>) (ev_ws s' p) = map_option (\<lambda>w. w\<lparr>w_pending := 0\<rparr>) (ev_ws s p))"

definition tframe :: "'a evst_scheme \<Rightarrow> 'a evst_scheme \<Rightarrow> bool" where
  "tframe s s' \<longleftrightarrow> qframe s s' \<and> evst.more s' = evst.more s"

lemma ev_feed_event_ok:
  assumes ok: "pend_ok s" and p: "p \<noteq> NULL" "ev_ws s p = Some w" "ABSPRI w = Some pri"
  shows "\<exists>s'. ev_feed_event p e s = Some s' \<and> pend_ok s' \<and> tframe s s' \<and>
    pview s' = (pview s)(p \<mapsto> (case pview s p of None \<Rightarrow> e | Some d \<Rightarrow> d OR e))"
proof (cases "w_pending w")
  case 0
  let ?n = "ev_pendingcnt s pri"
  let ?xs = "array_needsize 16 \<lparr>pd_w = NULL, pd_events = 0\<rparr> (Suc ?n) (ev_pendings s pri)"
  let ?s' = "s\<lparr>ev_ws := (ev_ws s)(p \<mapsto> w\<lparr>w_pending := Suc ?n\<rparr>), ev_pendingcnt := (ev_pendingcnt s)(pri := Suc ?n),
    ev_pendings := (ev_pendings s)(pri := ?xs[?n := \<lparr>pd_w = p, pd_events = e\<rparr>])\<rparr>"
  have k: "keys s p = Some (0, None)" using p(2) 0 by (simp add: keys_def pkey_def)
  have cl: "?n \<le> length (ev_pendings s pri)" using ok by (simp add: pend_ok_def pend_inv_def)
  have xs: "?n < length ?xs" "\<forall>i < ?n. ?xs ! i = ev_pendings s pri ! i"
    using array_needsize_ok[where elem = 16 and n = "Suc ?n" and b = "\<lparr>pd_w = NULL, pd_events = 0\<rparr>" and xs = "ev_pendings s pri"] cl
    by (auto simp: Suc_le_eq)
  have ks: "keys ?s' = (keys s)(p \<mapsto> (Suc ?n, Some pri))" using p(3) by (auto simp: keys_def)
  have "pview s p = None" using k by (simp add: pview_def pevents_def)
  then have "pend_ok ?s' \<and> pview ?s' = (pview s)(p \<mapsto> (case pview s p of None \<Rightarrow> e | Some d \<Rightarrow> d OR e))"
    using pend_inv_new[OF ok[unfolded pend_ok_def] p(1) k xs, of e] unfolding pend_ok_def pview_def ks by simp
  moreover have "ev_feed_event p e s = Some ?s'" using p 0 xs(1) by (simp add: ev_feed_event_def mem_simps)
  moreover have "tframe s ?s'" using p(2) by (simp add: tframe_def qframe_def)
  ultimately show ?thesis by blast
next
  case (Suc i)
  have k: "keys s p = Some (Suc i, Some pri)" using p Suc by (simp add: keys_def pkey_def)
  let ?d = "ev_pendings s pri ! i"
  let ?s' = "s\<lparr>ev_pendings := (ev_pendings s)(pri := (ev_pendings s pri)[i := ?d\<lparr>pd_events := pd_events ?d OR e\<rparr>])\<rparr>"
  have l: "i < length (ev_pendings s pri)" using pend_inv_entry[OF ok[unfolded pend_ok_def] k] by auto
  have ks: "keys ?s' = keys s" by (auto simp: keys_def)
  have "pview s p = Some (pd_events ?d)" using k by (simp add: pview_def pevents_def)
  then have "pend_ok ?s' \<and> pview ?s' = (pview s)(p \<mapsto> (case pview s p of None \<Rightarrow> e | Some d \<Rightarrow> d OR e))"
    using pend_inv_change[OF ok[unfolded pend_ok_def] k, of "pd_events ?d OR e"] unfolding pend_ok_def pview_def ks by simp
  moreover have "ev_feed_event p e s = Some ?s'" using p Suc l by (simp add: ev_feed_event_def mem_simps)
  moreover have "tframe s ?s'" by (simp add: tframe_def qframe_def)
  ultimately show ?thesis by blast
qed

lemma clear_pending_ok:
  assumes ok: "pend_ok s" and p: "p \<noteq> NULL" "ev_ws s p = Some w"
  shows "\<exists>s'. clear_pending p s = Some s' \<and> ev_clear_pending p s = Some (case pview s p of None \<Rightarrow> 0 | Some e \<Rightarrow> e, s') \<and>
    pend_ok s' \<and> tframe s s' \<and> pview s' = (pview s)(p := None) \<and> ev_ws s' p = Some (w\<lparr>w_pending := 0\<rparr>)"
proof (cases "w_pending w")
  case 0
  then have "pview s p = None" "w\<lparr>w_pending := 0\<rparr> = w" using p by (simp_all add: pview_def pevents_def keys_def pkey_def)
  moreover from this(1) have "(pview s)(p := None) = pview s" by (simp add: fun_upd_idem)
  ultimately show ?thesis using 0 p ok by (simp add: clear_pending_def ev_clear_pending_def mem_simps tframe_def qframe_def)
next
  case (Suc i)
  obtain pri where k: "keys s p = Some (Suc i, Some pri)" "ABSPRI w = Some pri" and l: "i < length (ev_pendings s pri)"
    using pend_inv_entry[OF ok[unfolded pend_ok_def], of p i "ABSPRI w"] p Suc by (auto simp: keys_def pkey_def)
  let ?d = "ev_pendings s pri ! i"
  let ?s' = "s\<lparr>ev_pendings := (ev_pendings s)(pri := (ev_pendings s pri)[i := ?d\<lparr>pd_w := NULL\<rparr>]), ev_ws := (ev_ws s)(p \<mapsto> w\<lparr>w_pending := 0\<rparr>)\<rparr>"
  have ks: "keys ?s' = (keys s)(p \<mapsto> (0, None))" by (auto simp: keys_def)
  have "pend_ok ?s' \<and> pview ?s' = (pview s)(p := None)"
    using pend_inv_drop[OF ok[unfolded pend_ok_def] k(1)] unfolding pend_ok_def pview_def ks by simp
  moreover have "clear_pending p s = Some ?s'" "ev_clear_pending p s = Some (case pview s p of None \<Rightarrow> 0 | Some e \<Rightarrow> e, ?s')"
    using p k Suc l by (simp_all add: clear_pending_def ev_clear_pending_def mem_simps pview_def pevents_def)
  moreover have "tframe s ?s'" using p(2) by (simp add: tframe_def qframe_def)
  ultimately show ?thesis by (intro exI[of _ ?s']) simp
qed

section \<open>Timers as a map\<close>

text \<open>The watchers of the entries hold the time that is cached, and were started with a valid repeat time and priority.\<close>

definition timed :: "ANHE list \<Rightarrow> nat \<Rightarrow> wmem \<Rightarrow> bool" where
  "timed hp N ws \<longleftrightarrow> (\<forall>e \<in> set (entries hp N). \<exists>w. ws (he_w e) = Some w \<and> w_at w = he_at e \<and> 0 \<le> w_repeat w \<and> ABSPRI w \<noteq> None)"

definition tm_inv :: "'a evst_scheme \<Rightarrow> bool" where
  "tm_inv s \<longleftrightarrow> theap (ev_timers s) (ev_timercnt s) (ev_ws s) \<and> timed (ev_timers s) (ev_timercnt s) (ev_ws s)"

definition tmap :: "'a evst_scheme \<Rightarrow> ptr \<rightharpoonup> ev_tstamp" where
  "tmap s = map_of (map (\<lambda>e. (he_w e, he_at e)) (entries (ev_timers s) (ev_timercnt s)))"

lemma tmap_Some:
  assumes "heap_sized (ev_timers s) (ev_timercnt s)"
  shows "tmap s p = Some t \<longleftrightarrow> \<lparr>he_at = t, he_w = p\<rparr> \<in> set (entries (ev_timers s) (ev_timercnt s))"
proof -
  have "distinct (map fst (map (\<lambda>e. (he_w e, he_at e)) (entries (ev_timers s) (ev_timercnt s))))"
    using assms by (simp add: heap_sized_def comp_def)
  then have "tmap s p = Some t \<longleftrightarrow> (p, t) \<in> (\<lambda>e. (he_w e, he_at e)) ` set (entries (ev_timers s) (ev_timercnt s))"
    by (simp add: tmap_def)
  also have "\<dots> \<longleftrightarrow> \<lparr>he_at = t, he_w = p\<rparr> \<in> set (entries (ev_timers s) (ev_timercnt s))"
  proof -
    have "(p, t) = (he_w e, he_at e) \<longleftrightarrow> e = \<lparr>he_at = t, he_w = p\<rparr>" for e by (cases e) auto
    then show ?thesis by (simp add: image_iff)
  qed
  finally show ?thesis .
qed

lemma tmap_eqI:
  assumes "heap_sized (ev_timers s) (ev_timercnt s)" "\<And>p t. \<lparr>he_at = t, he_w = p\<rparr> \<in> set (entries (ev_timers s) (ev_timercnt s)) \<longleftrightarrow> f p = Some t"
  shows "tmap s = f"
proof
  fix p show "tmap s p = f p" using tmap_Some[OF assms(1), of p] assms(2)[where p = p] by (metis not_Some_eq)
qed

text \<open>What the heap depends on in a watcher.\<close>

definition tkey :: "watcher \<Rightarrow> nat \<times> ev_tstamp \<times> ev_tstamp \<times> int" where
  "tkey w = (w_active w, w_at w, w_repeat w, w_priority w)"

lemma tkey_pending [simp]: "tkey (w\<lparr>w_pending := n\<rparr>) = tkey w"
  by (simp add: tkey_def)

lemma tm_cong:
  assumes "\<And>e. e \<in> set (entries hp N) \<Longrightarrow> map_option tkey (ws' (he_w e)) = map_option tkey (ws (he_w e))" "heap_sized hp N"
  shows "theap hp N ws' = theap hp N ws" "timed hp N ws' = timed hp N ws"
proof -
  have a: "map_option (\<lambda>w. (w_at w, w_repeat w, ABSPRI w)) (ws' (he_w e)) = map_option (\<lambda>w. (w_at w, w_repeat w, ABSPRI w)) (ws (he_w e)) \<and>
      map_option w_active (ws' (he_w e)) = map_option w_active (ws (he_w e))" if "e \<in> set (entries hp N)" for e
    using assms(1)[OF that] by (cases "ws (he_w e)"; cases "ws' (he_w e)") (auto simp: tkey_def ABSPRI_def)
  have x: "(\<exists>w. v' = Some w \<and> w_at w = t \<and> 0 \<le> w_repeat w \<and> ABSPRI w \<noteq> None) = (\<exists>w. v = Some w \<and> w_at w = t \<and> 0 \<le> w_repeat w \<and> ABSPRI w \<noteq> None)"
    if "map_option (\<lambda>w. (w_at w, w_repeat w, ABSPRI w)) v' = map_option (\<lambda>w. (w_at w, w_repeat w, ABSPRI w)) v" for v v' t
    using that by (cases v; cases v') auto
  show "timed hp N ws' = timed hp N ws" unfolding timed_def by (intro ball_cong refl x) (use a in blast)
  have y: "(\<exists>w. v' = Some w \<and> (i \<notin> {} \<longrightarrow> w_active w = i)) = (\<exists>w. v = Some w \<and> (i \<notin> {} \<longrightarrow> w_active w = i))"
    if "map_option w_active v' = map_option w_active v" for v v' :: "watcher option" and i
    using that by (cases v; cases v') auto
  have "indexed hp N {} ws' = indexed hp N {} ws"
    unfolding indexed_def by (intro all_cong conj_cong refl y) (use a in_heap_entry[OF assms(2)] in blast)
  then show "theap hp N ws' = theap hp N ws" by (simp add: theap_def)
qed

lemma qframe_tm:
  assumes "qframe s s'"
  shows "tm_inv s' = tm_inv s" "tmap s' = tmap s"
proof -
  have k: "map_option tkey (ev_ws s' p) = map_option tkey (ev_ws s p)" for p
  proof -
    have "map_option tkey (map_option (\<lambda>w. w\<lparr>w_pending := 0\<rparr>) (ev_ws s' p)) = map_option tkey (map_option (\<lambda>w. w\<lparr>w_pending := 0\<rparr>) (ev_ws s p))"
      using assms by (simp add: tframe_def qframe_def)
    then show ?thesis by (simp add: option.map_comp comp_def)
  qed
  have t: "ev_timers s' = ev_timers s" "ev_timercnt s' = ev_timercnt s" using assms by (simp_all add: tframe_def qframe_def)
  show "tmap s' = tmap s" by (simp add: tmap_def t)
  show "tm_inv s' = tm_inv s"
  proof (cases "heap_sized (ev_timers s) (ev_timercnt s)")
    case True
    then show ?thesis unfolding tm_inv_def t using tm_cong[where ws = "ev_ws s" and ws' = "ev_ws s'", OF k True] by simp
  qed (simp add: tm_inv_def t theap_def)
qed

lemma tframe_tm: "tframe s s' \<Longrightarrow> tm_inv s' = tm_inv s" "tframe s s' \<Longrightarrow> tmap s' = tmap s"
  using qframe_tm by (auto simp: tframe_def)

text \<open>What no operation on timers changes.\<close>

definition wkeep :: "watcher \<Rightarrow> nat \<times> ev_tstamp \<times> ptr \<times> int \<times> int" where
  "wkeep w = (w_cb w, w_repeat w, w_next w, w_fd w, w_events w)"

definition keeps :: "'a evst_scheme \<Rightarrow> 'a evst_scheme \<Rightarrow> bool" where
  "keeps s s' \<longleftrightarrow> ev_mn_now s' = ev_mn_now s \<and> evst.more s' = evst.more s \<and> (\<forall>q. map_option wkeep (ev_ws s' q) = map_option wkeep (ev_ws s q))"

lemma wkeep_simps [simp]:
  "wkeep (w\<lparr>w_pending := n\<rparr>) = wkeep w" "wkeep (w\<lparr>w_active := n\<rparr>) = wkeep w" "wkeep (w\<lparr>w_at := t\<rparr>) = wkeep w" "wkeep (pri_adjust w) = wkeep w"
  by (simp_all add: wkeep_def pri_adjust_def Let_def)

lemma keeps_trans: "keeps s s' \<Longrightarrow> keeps s' s'' \<Longrightarrow> keeps s s''"
  by (simp add: keeps_def)

lemma tframe_keeps: "tframe s s' \<Longrightarrow> keeps s s'"
proof -
  assume t: "tframe s s'"
  have "map_option wkeep (ev_ws s' q) = map_option wkeep (ev_ws s q)" for q
  proof -
    have "map_option wkeep (map_option (\<lambda>w. w\<lparr>w_pending := 0\<rparr>) (ev_ws s' q)) = map_option wkeep (map_option (\<lambda>w. w\<lparr>w_pending := 0\<rparr>) (ev_ws s q))"
      using t by (simp add: tframe_def qframe_def)
    then show ?thesis by (simp add: option.map_comp comp_def)
  qed
  with t show ?thesis by (simp add: tframe_def qframe_def keeps_def)
qed

text \<open>Watchers that are not timers may at most have become pending.\<close>

definition apart :: "'a evst_scheme \<Rightarrow> 'a evst_scheme \<Rightarrow> bool" where
  "apart s s' \<longleftrightarrow> (\<forall>q. tmap s q = None \<longrightarrow> map_option (\<lambda>w. w\<lparr>w_pending := 0\<rparr>) (ev_ws s' q) = map_option (\<lambda>w. w\<lparr>w_pending := 0\<rparr>) (ev_ws s q))"

lemma apart_tframe: "tframe s s' \<Longrightarrow> apart s s'"
  by (simp add: apart_def tframe_def qframe_def)

lemma apart_trans: "apart s s' \<Longrightarrow> apart s' s'' \<Longrightarrow> (\<And>q. tmap s q = None \<Longrightarrow> tmap s' q = None) \<Longrightarrow> apart s s''"
  by (simp add: apart_def)

lemma tmap_entry:
  assumes "heap_sized (ev_timers s) (ev_timercnt s)"
  shows "q \<in> he_w ` set (entries (ev_timers s) (ev_timercnt s)) \<longleftrightarrow> tmap s q \<noteq> None"
proof
  assume "q \<in> he_w ` set (entries (ev_timers s) (ev_timercnt s))"
  then obtain e where e: "e \<in> set (entries (ev_timers s) (ev_timercnt s))" "q = he_w e" by auto
  moreover have "e = \<lparr>he_at = he_at e, he_w = he_w e\<rparr>" by simp
  ultimately have "\<lparr>he_at = he_at e, he_w = q\<rparr> \<in> set (entries (ev_timers s) (ev_timercnt s))" by metis
  then show "tmap s q \<noteq> None" using tmap_Some[OF assms, of q "he_at e"] by simp
next
  assume "tmap s q \<noteq> None"
  then obtain t where "\<lparr>he_at = t, he_w = q\<rparr> \<in> set (entries (ev_timers s) (ev_timercnt s))" using tmap_Some[OF assms, of q] by blast
  then show "q \<in> he_w ` set (entries (ev_timers s) (ev_timercnt s))" by force
qed

lemma reindexed_field:
  assumes "reindexed A ws ws'" "\<And>w k. f (w\<lparr>w_active := k\<rparr>) = f w"
  shows "map_option f (ws' q) = map_option f (ws q)"
proof -
  have "map_option f (map_option (\<lambda>w. w\<lparr>w_active := 0\<rparr>) (ws' q)) = map_option f (map_option (\<lambda>w. w\<lparr>w_active := 0\<rparr>) (ws q))"
    using assms(1) by (simp add: reindexed_def)
  then show ?thesis by (simp add: option.map_comp comp_def assms(2))
qed

lemma settled_timed:
  assumes "settled hp N ws r" "timed hp N ws"
  shows "\<exists>hp' ws'. r = Some (hp', ws') \<and> theap hp' N ws' \<and> timed hp' N ws' \<and> set (entries hp' N) = set (entries hp N) \<and>
    reindexed (he_w ` set (entries hp N)) ws ws'"
proof -
  obtain hp' ws' where r: "r = Some (hp', ws')" "theap hp' N ws'" "mset (entries hp' N) = mset (entries hp N)"
      "reindexed (he_w ` set (entries hp N)) ws ws'"
    using assms(1) by (auto simp: settled_def)
  have s: "set (entries hp' N) = set (entries hp N)" using r(3) by (rule mset_eq_setD)
  have "timed hp' N ws'"
    unfolding timed_def s
  proof
    fix e assume "e \<in> set (entries hp N)"
    then obtain w where w: "ws (he_w e) = Some w" "w_at w = he_at e" "0 \<le> w_repeat w" "ABSPRI w \<noteq> None"
      using assms(2) by (auto simp: timed_def)
    have "map_option (\<lambda>w. (w_at w, w_repeat w, ABSPRI w)) (ws' (he_w e)) = map_option (\<lambda>w. (w_at w, w_repeat w, ABSPRI w)) (ws (he_w e))"
      by (rule reindexed_field[OF r(4)]) (simp add: ABSPRI_def)
    with w show "\<exists>w. ws' (he_w e) = Some w \<and> w_at w = he_at e \<and> 0 \<le> w_repeat w \<and> ABSPRI w \<noteq> None" by auto
  qed
  with r s show ?thesis by blast
qed

text \<open>Rearranging the heap of a state.\<close>

lemma set_heap_ok:
  assumes "settled hp N (ev_ws s) r" "timed hp N (ev_ws s)" "ev_timercnt s = N" "pend_ok s"
  shows "\<exists>s'. set_heap r s = Some s' \<and> tm_inv s' \<and> pend_ok s' \<and> pview s' = pview s \<and> keeps s s' \<and> ev_activecnt s' = ev_activecnt s \<and>
    set (entries (ev_timers s') (ev_timercnt s')) = set (entries hp N) \<and> reindexed (he_w ` set (entries hp N)) (ev_ws s) (ev_ws s')"
proof -
  obtain hp' ws' where r: "r = Some (hp', ws')" "theap hp' N ws'" "timed hp' N ws'" "set (entries hp' N) = set (entries hp N)"
      "reindexed (he_w ` set (entries hp N)) (ev_ws s) ws'"
    using settled_timed[OF assms(1,2)] by blast
  let ?s' = "s\<lparr>ev_timers := hp', ev_ws := ws'\<rparr>"
  have "keys ?s' = keys s" using reindexed_field[OF r(5), of pkey] by (auto simp: keys_def pkey_def ABSPRI_def)
  then have "pend_ok ?s'" "pview ?s' = pview s" using assms(4) by (simp_all add: pend_ok_def pview_def)
  moreover have "keeps s ?s'" using reindexed_field[OF r(5), of wkeep] by (simp add: keeps_def)
  ultimately show ?thesis using r assms(3) by (simp add: set_heap_def tm_inv_def)
qed

lemma ABSPRI_adjust: "ABSPRI (pri_adjust w) \<noteq> None" "ABSPRI w \<noteq> None \<Longrightarrow> pri_adjust w = w"
  by (auto simp: ABSPRI_def pri_adjust_def Let_def EV_MINPRI_def EV_MAXPRI_def)

lemma pkey_start: "w_pending w \<noteq> 0 \<longrightarrow> ABSPRI w \<noteq> None \<Longrightarrow> pkey ((pri_adjust (w\<lparr>w_at := t\<rparr>))\<lparr>w_active := k\<rparr>) = pkey w"
  using ABSPRI_adjust(2)[of w] by (auto simp: pkey_def ABSPRI_def pri_adjust_def Let_def)

lemma start_fields:
  "w_at ((pri_adjust w)\<lparr>w_active := k\<rparr>) = w_at w" "w_repeat ((pri_adjust w)\<lparr>w_active := k\<rparr>) = w_repeat w"
  "ABSPRI ((pri_adjust w)\<lparr>w_active := k\<rparr>) \<noteq> None"
  using ABSPRI_adjust(1)[of w] by (simp_all add: pri_adjust_def ABSPRI_def Let_def split: if_splits)

lemma ANHE_two: "e\<lparr>he_w := p, he_at := t\<rparr> = \<lparr>he_at = t, he_w = p\<rparr>"
  by (cases e) simp

lemma heap_watchers:
  assumes "theap hp N ws" "e \<in> set (entries hp N)"
  shows "\<exists>w. ws (he_w e) = Some w \<and> he_w e \<noteq> NULL \<and> in_heap N (w_active w) \<and> hp ! w_active w = e"
proof -
  obtain i where i: "in_heap N i" "hp ! i = e" using entry_in_heap[of hp N e] assms by (auto simp: theap_def)
  have "indexed hp N {} ws" using assms(1) by (simp add: theap_def)
  from this[unfolded indexed_def, rule_format, OF i(1)] i show ?thesis by auto
qed

lemma ev_timer_start_ok:
  assumes inv: "tm_inv s" "pend_ok s" and p: "p \<noteq> NULL" "ev_ws s p = Some w" "w_active w = 0" "0 \<le> w_repeat w"
  shows "\<exists>s'. ev_timer_start rnd p s = Some s' \<and> tm_inv s' \<and> pend_ok s' \<and> pview s' = pview s \<and> keeps s s' \<and>
    tmap s' = (tmap s)(p \<mapsto> rnd (w_at w + ev_mn_now s)) \<and> ev_activecnt s' = ev_activecnt s + 1"
proof -
  let ?n = "ev_timercnt s" and ?t = "rnd (w_at w + ev_mn_now s)" and ?k = "ev_timercnt s + 3"
  let ?w = "(pri_adjust (w\<lparr>w_at := ?t\<rparr>))\<lparr>w_active := ?k\<rparr>"
  let ?ws = "(ev_ws s)(p \<mapsto> ?w)"
  let ?s1 = "s\<lparr>ev_timercnt := Suc ?n, ev_ws := ?ws, ev_activecnt := ev_activecnt s + 1\<rparr>"
  let ?e = "\<lparr>he_at = ?t, he_w = p\<rparr>"
  define hp where "hp = array_needsize 16 \<lparr>he_at = 0, he_w = NULL\<rparr> (?k + 1) (ev_timers s)"
  define hp2 where "hp2 = hp[?k := ?e]"
  have th: "theap (ev_timers s) ?n (ev_ws s)" and td: "timed (ev_timers s) ?n (ev_ws s)" and hs: "heap_sized (ev_timers s) ?n"
    using inv(1) by (simp_all add: tm_inv_def theap_def)
  have l: "?n = 0 \<or> ?k \<le> length (ev_timers s)" using hs by (simp add: heap_sized_def)
  have ln: "length (entries (ev_timers s) ?n) = ?n" using l by (auto simp: entries_def)
  have new: "he_w e \<noteq> p" if "e \<in> set (entries (ev_timers s) ?n)" for e
    using heap_watchers[OF th that] p(2,3) by (auto simp: in_heap_def)
  have kl: "?k < length hp"
    unfolding hp_def using array_needsize_ok(1)[where elem = 16 and n = "?k + 1" and xs = "ev_timers s" and b = "\<lparr>he_at = 0, he_w = NULL\<rparr>"] by simp
  have kl2: "?k < length hp2" and k2: "hp2 ! ?k = ?e" using kl by (simp_all add: hp2_def)
  have old: "hp2 ! i = ev_timers s ! i" if "in_heap ?n i" for i
    unfolding hp2_def hp_def using that heap_sized_length[OF hs that] array_needsize_ok(3)[where elem = 16 and n = "?k + 1" and xs = "ev_timers s" and b = "\<lparr>he_at = 0, he_w = NULL\<rparr>"] by (simp add: in_heap_def)
  have en: "entries hp2 (Suc ?n) = entries (ev_timers s) ?n @ [?e]"
  proof (rule nth_equalityI)
    fix i assume "i < length (entries hp2 (Suc ?n))"
    then show "entries hp2 (Suc ?n) ! i = (entries (ev_timers s) ?n @ [?e]) ! i"
      using kl2 l ln old[of "i + 3"] k2 by (auto simp: entries_nth length_entries nth_append less_Suc_eq in_heap_def)
  qed (use kl2 ln in \<open>simp add: length_entries\<close>)
  have hs2: "heap_sized hp2 (Suc ?n)" using hs new kl2 by (auto simp: heap_sized_def en)
  have nochild: "HPARENT j \<noteq> ?k" if "in_heap (Suc ?n) j" "4 \<le> j" for j using HPARENT_less[OF that(2)] that(1) by (auto simp: in_heap_def)
  have "settled hp2 (Suc ?n) ?ws (upheap hp2 ?k ?ws)"
  proof (rule upheap_ok[OF hs2])
    show "indexed hp2 (Suc ?n) {?k} ?ws"
      unfolding indexed_def
    proof (intro allI impI)
      fix i assume i: "in_heap (Suc ?n) i"
      show "he_w (hp2 ! i) \<noteq> NULL \<and> (\<exists>w. ?ws (he_w (hp2 ! i)) = Some w \<and> (i \<notin> {?k} \<longrightarrow> w_active w = i))"
      proof (cases "i = ?k")
        case True
        then show ?thesis using k2 p(1) by simp
      next
        case False
        then have "in_heap ?n i" "hp2 ! i = ev_timers s ! i" using i old[of i] by (auto simp: in_heap_def)
        then show ?thesis using th new in_heap_entry[OF hs, of i] by (auto simp: theap_def indexed_def)
      qed
    qed
    show "ordered hp2 (Suc ?n) (\<lambda>i. i \<noteq> ?k)"
      unfolding ordered_def
    proof (intro allI impI, elim conjE)
      fix i assume i: "in_heap (Suc ?n) i" "4 \<le> i" "i \<noteq> ?k"
      then have "in_heap ?n i" "hp2 ! i = ev_timers s ! i" "hp2 ! HPARENT i = ev_timers s ! HPARENT i"
        using old[of i] old[of "HPARENT i"] HPARENT_less[OF i(2)] by (auto simp: in_heap_def)
      then show "he_at (hp2 ! HPARENT i) \<le> he_at (hp2 ! i)" using th i(2) by (simp add: theap_def ordered_def)
    qed
    show "skips hp2 (Suc ?n) ?k" using nochild by (auto simp: skips_def)
  qed (simp add: in_heap_def)
  moreover have "timed hp2 (Suc ?n) ?ws"
    unfolding timed_def en
  proof
    fix e assume e: "e \<in> set (entries (ev_timers s) ?n @ [?e])"
    show "\<exists>w. ?ws (he_w e) = Some w \<and> w_at w = he_at e \<and> 0 \<le> w_repeat w \<and> ABSPRI w \<noteq> None"
      using e td new p(4) start_fields[where w = "w\<lparr>w_at := ?t\<rparr>" and k = ?k] by (cases "e = ?e") (auto simp: timed_def)
  qed
  moreover have "keys ?s1 = keys s"
  proof -
    have "w_pending w \<noteq> 0 \<longrightarrow> ABSPRI w \<noteq> None"
      using pend_inv_entry[OF inv(2)[unfolded pend_ok_def], of p "w_pending w - 1" "ABSPRI w"] p(2) by (auto simp: keys_def pkey_def)
    then have "pkey ?w = pkey w" by (rule pkey_start)
    then show ?thesis using p(2) by (auto simp: keys_def)
  qed
  then have pk: "pend_ok ?s1" "pview ?s1 = pview s" using inv(2) by (simp_all add: pend_ok_def pview_def)
  ultimately obtain s' where s': "set_heap (upheap hp2 ?k ?ws) ?s1 = Some s'" "tm_inv s'" "pend_ok s'" "pview s' = pview ?s1" "keeps ?s1 s'"
      "ev_activecnt s' = ev_activecnt ?s1" "set (entries (ev_timers s') (ev_timercnt s')) = set (entries hp2 (Suc ?n))"
    using set_heap_ok[of hp2 "Suc ?n" ?s1 "upheap hp2 ?k ?ws"] by auto
  have h: "?k = ev_timercnt s + HEAP0" by (simp add: heap_consts)
  have "ev_timer_start rnd p s = Some s'"
    using p kl s'(1) unfolding hp2_def hp_def h
    by (simp add: ev_timer_start_def mem_simps ev_start_def ev_ref_def at_cache_def start_fields(1) Let_def ANHE_two del: of_nat_add)
  moreover have "tmap s' = (tmap s)(p \<mapsto> ?t)"
  proof (rule tmap_eqI)
    show "heap_sized (ev_timers s') (ev_timercnt s')" using s'(2) by (simp add: tm_inv_def theap_def)
    show "\<lparr>he_at = t, he_w = q\<rparr> \<in> set (entries (ev_timers s') (ev_timercnt s')) \<longleftrightarrow> ((tmap s)(p \<mapsto> ?t)) q = Some t" for q t
      using tmap_Some[OF hs, of q t] new[of "\<lparr>he_at = t, he_w = q\<rparr>"] by (auto simp: s'(7) en)
  qed
  moreover have "keeps s s'" using s'(5) p(2) by (auto simp: keeps_def)
  ultimately show ?thesis using s' pk by simp
qed

lemma ABSPRI_simps [simp]:
  "ABSPRI (w\<lparr>w_at := t\<rparr>) = ABSPRI w" "ABSPRI (w\<lparr>w_active := k\<rparr>) = ABSPRI w" "ABSPRI (w\<lparr>w_pending := k\<rparr>) = ABSPRI w"
  by (simp_all add: ABSPRI_def)

lemma pkey_simps2 [simp]: "pkey (w\<lparr>w_at := t\<rparr>) = pkey w" "pkey (w\<lparr>w_active := k\<rparr>) = pkey w"
  by (simp_all add: pkey_def)

text \<open>An entry may be replaced by any other: all pairs that do not meet it stay in order.\<close>

lemma heap_replace:
  assumes "theap hp N ws" "in_heap N k"
  shows "ordered (hp[k := x]) N (\<lambda>i. i \<noteq> k \<and> HPARENT i \<noteq> k)" "skips (hp[k := x]) N k"
proof -
  have o: "he_at (hp ! HPARENT i) \<le> he_at (hp ! i)" if "in_heap N i" "4 \<le> i" for i using assms(1) that by (simp add: theap_def ordered_def)
  then show "ordered (hp[k := x]) N (\<lambda>i. i \<noteq> k \<and> HPARENT i \<noteq> k)" by (simp add: ordered_def)
  show "skips (hp[k := x]) N k"
    unfolding skips_def
  proof (intro allI impI, elim conjE)
    fix i assume i: "in_heap N i" "4 \<le> i" "HPARENT i = k" "4 \<le> k"
    have "HPARENT k \<noteq> k" "i \<noteq> k" using HPARENT_less[OF i(4)] HPARENT_less[OF i(2)] i(3) by auto
    moreover have "he_at (hp ! HPARENT k) \<le> he_at (hp ! k)" "he_at (hp ! k) \<le> he_at (hp ! i)" using o[OF assms(2) i(4)] o[OF i(1,2)] i(3) by auto
    ultimately show "he_at (hp[k := x] ! HPARENT k) \<le> he_at (hp[k := x] ! i)" by simp
  qed
qed

text \<open>A new time for an entry.\<close>

definition retimed :: "nat \<Rightarrow> ev_tstamp \<Rightarrow> ANHE list \<Rightarrow> ANHE list" where
  "retimed k t hp = hp[k := (hp ! k)\<lparr>he_at := t\<rparr>]"

lemma retimed_ok:
  assumes th: "theap hp N ws" and td: "timed hp N ws" and k: "in_heap N k" "he_w (hp ! k) = p" "ws p = Some w"
  shows "heap_sized (retimed k t hp) N" "indexed (retimed k t hp) N {k} (ws(p \<mapsto> w\<lparr>w_at := t\<rparr>))"
    "timed (retimed k t hp) N (ws(p \<mapsto> w\<lparr>w_at := t\<rparr>))"
    "\<lparr>he_at = u, he_w = q\<rparr> \<in> set (entries (retimed k t hp) N) \<longleftrightarrow> (if q = p then u = t else \<lparr>he_at = u, he_w = q\<rparr> \<in> set (entries hp N))"
    "at_cache k hp (ws(p \<mapsto> w\<lparr>w_at := t\<rparr>)) = Some (retimed k t hp)"
proof -
  let ?hp = "retimed k t hp" and ?ws = "ws(p \<mapsto> w\<lparr>w_at := t\<rparr>)"
  have hs: "heap_sized hp N" and ix: "indexed hp N {} ws" using th by (simp_all add: theap_def)
  have l: "N + 3 \<le> length hp" "k < length hp" using heap_sized_length[OF hs k(1)] k(1) by (auto simp: in_heap_def)
  have nth: "?hp ! i = (if i = k then (hp ! k)\<lparr>he_at := t\<rparr> else hp ! i)" for i using l by (simp add: retimed_def)
  have w: "he_w (?hp ! i) = he_w (hp ! i)" for i by (simp add: nth)
  have "map he_w (entries ?hp N) = map he_w (entries hp N)"
    by (rule nth_equalityI) (use l w in \<open>auto simp: retimed_def length_entries entries_nth\<close>)
  then show hs': "heap_sized ?hp N" using hs by (simp add: heap_sized_def retimed_def)
  show "indexed ?hp N {k} ?ws"
    using ix k unfolding indexed_def w by (auto split: if_splits)
  have pos: "he_w (hp ! i) = p \<longleftrightarrow> i = k" if "in_heap N i" for i using same_watcher[OF hs that k(1)] k(2) by simp
  have mem: "x \<in> set (entries ?hp N) \<longleftrightarrow> (if he_w x = p then x = (hp ! k)\<lparr>he_at := t\<rparr> else x \<in> set (entries hp N))" for x
  proof
    assume "x \<in> set (entries ?hp N)"
    then obtain i where i: "in_heap N i" "?hp ! i = x" using entry_in_heap[OF hs'] by blast
    then show "if he_w x = p then x = (hp ! k)\<lparr>he_at := t\<rparr> else x \<in> set (entries hp N)"
      using pos[OF i(1)] w[of i] nth[of i] in_heap_entry[OF hs i(1)] by (cases "i = k") simp_all
  next
    assume x: "if he_w x = p then x = (hp ! k)\<lparr>he_at := t\<rparr> else x \<in> set (entries hp N)"
    show "x \<in> set (entries ?hp N)"
    proof (cases "he_w x = p")
      case True
      then show ?thesis using x in_heap_entry[OF hs' k(1)] nth[of k] by simp
    next
      case False
      then obtain i where i: "in_heap N i" "hp ! i = x" using x entry_in_heap[OF hs] by auto
      then show ?thesis using False k(2) in_heap_entry[OF hs' i(1)] nth[of i] by (cases "i = k") auto
    qed
  qed
  show "timed ?hp N ?ws"
    unfolding timed_def
  proof
    fix e assume e: "e \<in> set (entries ?hp N)"
    have old: "\<exists>w. ws (he_w e) = Some w \<and> w_at w = he_at e \<and> 0 \<le> w_repeat w \<and> ABSPRI w \<noteq> None" if "e \<in> set (entries hp N)" for e
      using td that by (simp add: timed_def)
    show "\<exists>w. ?ws (he_w e) = Some w \<and> w_at w = he_at e \<and> 0 \<le> w_repeat w \<and> ABSPRI w \<noteq> None"
      using e[unfolded mem] old[of e] old[OF in_heap_entry[OF hs k(1)]] k(2,3) by (cases "he_w e = p") auto
  qed
  have "\<lparr>he_at = u, he_w = q\<rparr> = (hp ! k)\<lparr>he_at := t\<rparr> \<longleftrightarrow> q = p \<and> u = t" using k(2) by (cases "hp ! k") auto
  then show "\<lparr>he_at = u, he_w = q\<rparr> \<in> set (entries ?hp N) \<longleftrightarrow> (if q = p then u = t else \<lparr>he_at = u, he_w = q\<rparr> \<in> set (entries hp N))"
    unfolding mem by auto
  have "p \<noteq> NULL" using ix k by (auto simp: indexed_def)
  then show "at_cache k hp ?ws = Some ?hp" using l(2) k(2) by (simp add: at_cache_def mem_simps retimed_def)
qed

text \<open>Taking an entry out: the last one fills its place.\<close>

lemma entries_Suc: "n + 3 < length hp \<Longrightarrow> entries hp (Suc n) = entries hp n @ [hp ! (n + 3)]"
  by (simp add: entries_def take_Suc_conv_app_nth add.commute)

lemma remove_ok:
  assumes th: "theap hp (Suc n) ws" and td: "timed hp (Suc n) ws" and k: "in_heap (Suc n) k"
  defines "hp' \<equiv> if k < n + 3 then hp[k := hp ! (n + 3)] else hp"
  shows "set (entries hp' n) = set (entries hp (Suc n)) - {hp ! k}" "timed hp' n ws" "heap_sized hp' n"
    "k < n + 3 \<Longrightarrow> settled hp' n ws (adjustheap hp' n k ws)" "\<not> k < n + 3 \<Longrightarrow> theap hp' n ws"
proof -
  have hs: "heap_sized hp (Suc n)" and ix: "indexed hp (Suc n) {} ws" using th by (simp_all add: theap_def)
  have l: "n + 4 \<le> length hp" "k < length hp" using hs k by (auto simp: heap_sized_def in_heap_def)
  have e: "entries hp (Suc n) = entries hp n @ [hp ! (n + 3)]" using l by (simp add: entries_Suc)
  have m: "mset (entries hp (Suc n)) = add_mset (hp ! k) (mset (entries hp' n))"
  proof (cases "k < n + 3")
    case True
    then have kn: "in_heap n k" using k by (simp add: in_heap_def)
    have "k - 3 < length (entries hp n)" "entries hp n ! (k - 3) = hp ! k" using l in_heap_index[OF kn] by (auto simp: length_entries entries_nth)
    moreover have "entries hp' n = (entries hp n)[k - 3 := hp ! (n + 3)]" using True kn l by (simp add: hp'_def entries_update)
    moreover from calculation(1,2) have "hp ! k \<in># mset (entries hp n)" by (metis nth_mem set_mset_mset)
    ultimately show ?thesis unfolding e by (simp add: mset_update insert_DiffM)
  next
    case False
    then have "k = n + 3" using k by (simp add: in_heap_def)
    then show ?thesis unfolding e using False by (simp add: hp'_def)
  qed
  have d: "distinct (map he_w (hp ! k # entries hp' n))"
    using hs mset_eq_imp_distinct_iff[of "map he_w (entries hp (Suc n))" "map he_w (hp ! k # entries hp' n)"] m by (simp add: heap_sized_def)
  then show s: "set (entries hp' n) = set (entries hp (Suc n)) - {hp ! k}"
    using mset_eq_setD[of "entries hp (Suc n)" "hp ! k # entries hp' n"] m by auto
  show td': "timed hp' n ws" using td by (auto simp: timed_def s)
  have "length hp' = length hp" by (simp add: hp'_def)
  with d l show hs': "heap_sized hp' n" by (simp add: heap_sized_def)
  show "settled hp' n ws (adjustheap hp' n k ws)" if kn: "k < n + 3"
  proof -
    have kh: "in_heap n k" using kn k by (simp add: in_heap_def)
    have up: "in_heap (Suc n) i" if "in_heap n i" for i using that by (simp add: in_heap_def)
    have hp': "hp' = hp[k := hp ! (n + 3)]" using kn by (simp add: hp'_def)
    have "indexed hp' n {k} ws"
      unfolding indexed_def
    proof (intro allI impI)
      fix i assume i: "in_heap n i"
      have last: "in_heap (Suc n) (n + 3)" by (simp add: in_heap_def)
      show "he_w (hp' ! i) \<noteq> NULL \<and> (\<exists>w. ws (he_w (hp' ! i)) = Some w \<and> (i \<notin> {k} \<longrightarrow> w_active w = i))"
        using ix[unfolded indexed_def, rule_format, OF up[OF i]] ix[unfolded indexed_def, rule_format, OF last] l by (cases "i = k") (auto simp: hp')
    qed
    moreover have "ordered hp' n (\<lambda>i. i \<noteq> k \<and> HPARENT i \<noteq> k)" "skips hp' n k"
      using heap_replace[OF th k, of "hp ! (n + 3)"] up unfolding hp' by (auto simp: ordered_def skips_def)
    ultimately show ?thesis by (intro adjustheap_ok[OF hs' _ kh])
  qed
  show "theap hp' n ws" if "\<not> k < n + 3"
    using that th hs' by (auto simp: theap_def hp'_def ordered_def indexed_def in_heap_def)
qed

section \<open>The operations on timers\<close>

lemma tmap_watcher:
  assumes "tm_inv s" "tmap s p = Some t"
  obtains w where "ev_ws s p = Some w" "p \<noteq> NULL" "in_heap (ev_timercnt s) (w_active w)" "ev_timers s ! w_active w = \<lparr>he_at = t, he_w = p\<rparr>"
    "w_at w = t" "0 \<le> w_repeat w" "ABSPRI w \<noteq> None" "w_active w < length (ev_timers s)" "w_active w \<noteq> 0"
proof -
  have th: "theap (ev_timers s) (ev_timercnt s) (ev_ws s)" and hs: "heap_sized (ev_timers s) (ev_timercnt s)"
    using assms(1) by (simp_all add: tm_inv_def theap_def)
  have e: "\<lparr>he_at = t, he_w = p\<rparr> \<in> set (entries (ev_timers s) (ev_timercnt s))" using assms(2) tmap_Some[OF hs] by simp
  obtain w where w: "ev_ws s p = Some w" "p \<noteq> NULL" "in_heap (ev_timercnt s) (w_active w)" "ev_timers s ! w_active w = \<lparr>he_at = t, he_w = p\<rparr>"
    using heap_watchers[OF th e] by auto
  moreover have "w_at w = t" "0 \<le> w_repeat w" "ABSPRI w \<noteq> None" using assms(1) e w(1) by (auto simp: tm_inv_def timed_def)
  moreover have "w_active w < length (ev_timers s)" "w_active w \<noteq> 0" using w(3) heap_sized_length[OF hs w(3)] by (auto simp: in_heap_def)
  ultimately show thesis by (rule that)
qed

text \<open>A watcher that is not in the heap may change.\<close>

lemma tm_outside:
  assumes "tm_inv s" "tmap s p = None"
  shows "tm_inv (s\<lparr>ev_ws := (ev_ws s)(p \<mapsto> w)\<rparr>)" "tmap (s\<lparr>ev_ws := (ev_ws s)(p \<mapsto> w)\<rparr>) = tmap s"
proof -
  have hs: "heap_sized (ev_timers s) (ev_timercnt s)" using assms(1) by (simp add: tm_inv_def theap_def)
  have "he_w e \<noteq> p" if "e \<in> set (entries (ev_timers s) (ev_timercnt s))" for e
    using tmap_Some[OF hs, of p "he_at e"] assms(2) that by (cases e) auto
  then have "map_option tkey (((ev_ws s)(p \<mapsto> w)) (he_w e)) = map_option tkey (ev_ws s (he_w e))" if "e \<in> set (entries (ev_timers s) (ev_timercnt s))" for e
    using that by simp
  from tm_cong[where ws = "ev_ws s" and ws' = "(ev_ws s)(p \<mapsto> w)", OF this hs] assms(1) show "tm_inv (s\<lparr>ev_ws := (ev_ws s)(p \<mapsto> w)\<rparr>)" by (simp add: tm_inv_def)
  show "tmap (s\<lparr>ev_ws := (ev_ws s)(p \<mapsto> w)\<rparr>) = tmap s" by (simp add: tmap_def)
qed

lemma ev_timer_stop_ok:
  assumes inv: "tm_inv s" "pend_ok s" and p: "tmap s p = Some t"
  shows "\<exists>s'. ev_timer_stop rnd p s = Some s' \<and> tm_inv s' \<and> pend_ok s' \<and> pview s' = (pview s)(p := None) \<and> keeps s s' \<and>
    tmap s' = (tmap s)(p := None) \<and> ev_activecnt s' = ev_activecnt s - 1 \<and> (\<exists>w. ev_ws s' p = Some w \<and> w_active w = 0 \<and> ABSPRI w \<noteq> None) \<and>
    apart s s'"
proof -
  obtain w0 where w0: "ev_ws s p = Some w0" "p \<noteq> NULL" using tmap_watcher[OF inv(1) p] by blast
  obtain s1 where s1: "clear_pending p s = Some s1" "pend_ok s1" "tframe s s1" "pview s1 = (pview s)(p := None)" "ev_ws s1 p = Some (w0\<lparr>w_pending := 0\<rparr>)"
    using clear_pending_ok[OF inv(2) w0(2,1)] by blast
  have i1: "tm_inv s1" "tmap s1 = tmap s" using tframe_tm[OF s1(3)] inv(1) by simp_all
  obtain w where w: "ev_ws s1 p = Some w" "p \<noteq> NULL" "in_heap (ev_timercnt s1) (w_active w)" "ev_timers s1 ! w_active w = \<lparr>he_at = t, he_w = p\<rparr>"
      "w_at w = t" "0 \<le> w_repeat w" "ABSPRI w \<noteq> None" "w_active w < length (ev_timers s1)" "w_active w \<noteq> 0"
    using tmap_watcher[OF i1(1), of p t] p i1(2) by auto
  obtain n where n: "ev_timercnt s1 = Suc n" using w(3) by (cases "ev_timercnt s1") (auto simp: in_heap_def)
  let ?k = "w_active w" let ?s2 = "s1\<lparr>ev_timercnt := n\<rparr>"
  let ?hp = "if ?k < n + 3 then (ev_timers s1)[?k := ev_timers s1 ! (n + 3)] else ev_timers s1"
  have th: "theap (ev_timers s1) (Suc n) (ev_ws s1)" and td: "timed (ev_timers s1) (Suc n) (ev_ws s1)" and hs: "heap_sized (ev_timers s1) (Suc n)"
    using i1(1) n by (simp_all add: tm_inv_def theap_def)
  have nl: "n + 3 < length (ev_timers s1)" using hs by (simp add: heap_sized_def)
  note rm = remove_ok[OF th td w(3)[unfolded n]]
  have k2: "keys ?s2 = keys s1" by (auto simp: keys_def)
  then have pk2: "pend_ok ?s2" "pview ?s2 = pview s1" using s1(2) by (simp_all add: pend_ok_def pview_def)
  obtain s3 where s3: "(if ?k < n + 3 then set_heap (adjustheap ?hp n ?k (ev_ws ?s2)) ?s2 else Some ?s2) = Some s3" "tm_inv s3" "pend_ok s3"
      "pview s3 = pview s1" "keeps s1 s3" "ev_activecnt s3 = ev_activecnt s1"
      "set (entries (ev_timers s3) (ev_timercnt s3)) = set (entries ?hp n)" "reindexed (he_w ` set (entries ?hp n)) (ev_ws s1) (ev_ws s3)"
  proof (cases "?k < n + 3")
    case True
    obtain s3 where "set_heap (adjustheap ?hp n ?k (ev_ws ?s2)) ?s2 = Some s3" "tm_inv s3" "pend_ok s3" "pview s3 = pview ?s2" "keeps ?s2 s3"
        "ev_activecnt s3 = ev_activecnt ?s2" "set (entries (ev_timers s3) (ev_timercnt s3)) = set (entries ?hp n)"
        "reindexed (he_w ` set (entries ?hp n)) (ev_ws ?s2) (ev_ws s3)"
      using set_heap_ok[of ?hp n ?s2 "adjustheap ?hp n ?k (ev_ws ?s2)"] rm(2) rm(4)[OF True] pk2(1) by auto
    then show thesis using True pk2(2) that[of s3] by (simp add: keeps_def)
  next
    case False
    have "tm_inv ?s2" using rm(2) rm(5)[OF False] False by (simp add: tm_inv_def)
    then show thesis using False pk2 that[of ?s2] by (simp add: keeps_def reindexed_refl)
  qed
  have gone: "tmap s3 = (tmap s)(p := None)"
  proof (rule tmap_eqI)
    show "heap_sized (ev_timers s3) (ev_timercnt s3)" using s3(2) by (simp add: tm_inv_def theap_def)
    show "\<lparr>he_at = u, he_w = q\<rparr> \<in> set (entries (ev_timers s3) (ev_timercnt s3)) \<longleftrightarrow> ((tmap s)(p := None)) q = Some u" for q u
    proof -
      have "tmap s q = Some u \<longleftrightarrow> \<lparr>he_at = u, he_w = q\<rparr> \<in> set (entries (ev_timers s1) (Suc n))"
        using tmap_Some[of s1 q u] hs n i1(2) by simp
      then show ?thesis using p unfolding s3(7) rm(1) w(4) by auto
    qed
  qed
  have ent: "q \<in> he_w ` set (entries ?hp n) \<longleftrightarrow> tmap s3 q \<noteq> None" for q
    using tmap_entry[of s3 q] s3(2) unfolding s3(7) by (simp add: tm_inv_def theap_def)
  have "p \<notin> he_w ` set (entries ?hp n)" unfolding ent gone by simp
  then have p3: "ev_ws s3 p = Some w" using s3(8) w(1) by (simp add: reindexed_def)
  let ?w = "w\<lparr>w_at := rnd (w_at w - ev_mn_now s3), w_active := 0\<rparr>"
  let ?s4 = "s3\<lparr>ev_activecnt := ev_activecnt s3 - 1, ev_ws := (ev_ws s3)(p \<mapsto> ?w)\<rparr>"
  have h: "n + 3 = n + HEAP0" by (simp add: heap_consts)
  have "ev_timer_stop rnd p s = Some ?s4"
    using s1(1) w s3(1) nl p3 n unfolding h
    by (cases "w_active w < n + HEAP0") (simp_all add: ev_timer_stop_def mem_simps ev_stop_def ev_unref_def del: of_nat_add)
  moreover have "tm_inv ?s4 \<and> tmap ?s4 = tmap s3"
    using tm_outside[OF s3(2), of p ?w] gone by (simp add: tm_inv_def tmap_def)
  moreover have "pend_ok ?s4 \<and> pview ?s4 = pview s3"
  proof -
    have "keys ?s4 = keys s3" using p3 by (auto simp: keys_def)
    then show ?thesis using s3(3) by (simp add: pend_ok_def pview_def)
  qed
  moreover have "keeps s ?s4"
  proof -
    have "keeps s3 ?s4" using p3 by (simp add: keeps_def)
    with keeps_trans[OF tframe_keeps[OF s1(3)] s3(5)] show ?thesis by (rule keeps_trans)
  qed
  moreover have "apart s ?s4"
    unfolding apart_def
  proof (intro allI impI)
    fix q assume q: "tmap s q = None"
    then have "q \<noteq> p" "q \<notin> he_w ` set (entries ?hp n)" using p unfolding ent gone by auto
    then have "ev_ws ?s4 q = ev_ws s1 q" using s3(8) by (simp add: reindexed_def)
    then show "map_option (\<lambda>w. w\<lparr>w_pending := 0\<rparr>) (ev_ws ?s4 q) = map_option (\<lambda>w. w\<lparr>w_pending := 0\<rparr>) (ev_ws s q)"
      using s1(3) by (simp add: tframe_def qframe_def)
  qed
  moreover have "ev_activecnt s1 = ev_activecnt s" using s1(3) by (simp add: tframe_def qframe_def)
  ultimately show ?thesis using gone s1(4) s3(4,6) w(7) by (intro exI[of _ ?s4] conjI) (simp_all only:, simp_all)
qed

lemma tmap_index:
  assumes "tm_inv s" "tmap s p = Some u" "ev_ws s p = Some w"
  shows "in_heap (ev_timercnt s) (w_active w)" "he_w (ev_timers s ! w_active w) = p" "w_active w \<noteq> 0" "p \<noteq> NULL"
  by (rule tmap_watcher[OF assms(1,2)], use assms(3) in simp)+

lemma retime_state:
  assumes inv: "tm_inv s" "pend_ok s" and p: "tmap s p = Some u" "ev_ws s p = Some w"
    and r: "settled (retimed (w_active w) t (ev_timers s)) (ev_timercnt s) ((ev_ws s)(p \<mapsto> w\<lparr>w_at := t\<rparr>)) r"
  shows "\<exists>s'. set_heap r (s\<lparr>ev_ws := (ev_ws s)(p \<mapsto> w\<lparr>w_at := t\<rparr>)\<rparr>) = Some s' \<and> tm_inv s' \<and> pend_ok s' \<and> pview s' = pview s \<and> keeps s s' \<and>
    tmap s' = (tmap s)(p \<mapsto> t) \<and> ev_activecnt s' = ev_activecnt s \<and> apart s s'"
proof -
  let ?s1 = "s\<lparr>ev_ws := (ev_ws s)(p \<mapsto> w\<lparr>w_at := t\<rparr>)\<rparr>" and ?hp = "retimed (w_active w) t (ev_timers s)"
  have k: "in_heap (ev_timercnt s) (w_active w)" "he_w (ev_timers s ! w_active w) = p" using tmap_index[OF inv(1) p(1,2)] by simp_all
  have th: "theap (ev_timers s) (ev_timercnt s) (ev_ws s)" and td: "timed (ev_timers s) (ev_timercnt s) (ev_ws s)"
    and hs: "heap_sized (ev_timers s) (ev_timercnt s)" using inv(1) by (simp_all add: tm_inv_def theap_def)
  note rt = retimed_ok[where t = t, OF th td k p(2)]
  have "keys ?s1 = keys s" using p(2) by (auto simp: keys_def)
  then have pk: "pend_ok ?s1" "pview ?s1 = pview s" using inv(2) by (simp_all add: pend_ok_def pview_def)
  obtain s' where s': "set_heap r ?s1 = Some s'" "tm_inv s'" "pend_ok s'" "pview s' = pview ?s1" "keeps ?s1 s'" "ev_activecnt s' = ev_activecnt ?s1"
      "set (entries (ev_timers s') (ev_timercnt s')) = set (entries ?hp (ev_timercnt s))" "reindexed (he_w ` set (entries ?hp (ev_timercnt s))) (ev_ws ?s1) (ev_ws s')"
    using set_heap_ok[of ?hp "ev_timercnt s" ?s1 r] r rt(3) pk(1) by auto
  have tm: "tmap s' = (tmap s)(p \<mapsto> t)"
  proof (rule tmap_eqI)
    show "heap_sized (ev_timers s') (ev_timercnt s')" using s'(2) by (simp add: tm_inv_def theap_def)
    show "\<lparr>he_at = v, he_w = q\<rparr> \<in> set (entries (ev_timers s') (ev_timercnt s')) \<longleftrightarrow> ((tmap s)(p \<mapsto> t)) q = Some v" for q v
      unfolding s'(7) rt(4) using tmap_Some[OF hs, of q v] by auto
  qed
  moreover have "keeps s s'"
  proof -
    have "keeps s ?s1" using p(2) by (simp add: keeps_def)
    then show ?thesis using s'(5) by (rule keeps_trans)
  qed
  moreover have "apart s s'"
    unfolding apart_def
  proof (intro allI impI)
    fix q assume q: "tmap s q = None"
    then have "q \<noteq> p" using p(1) by auto
    moreover have "q \<notin> he_w ` set (entries (ev_timers s') (ev_timercnt s'))"
      using tmap_entry[of s' q] s'(2) q calculation tm by (simp add: tm_inv_def theap_def)
    ultimately have "ev_ws s' q = ev_ws s q" using s'(8) unfolding s'(7) by (simp add: reindexed_def)
    then show "map_option (\<lambda>w. w\<lparr>w_pending := 0\<rparr>) (ev_ws s' q) = map_option (\<lambda>w. w\<lparr>w_pending := 0\<rparr>) (ev_ws s q)" by simp
  qed
  ultimately show ?thesis using s' pk tm by simp
qed

lemma retimed_adjust:
  assumes inv: "tm_inv s" and p: "tmap s p = Some u" "ev_ws s p = Some w"
  shows "settled (retimed (w_active w) t (ev_timers s)) (ev_timercnt s) ((ev_ws s)(p \<mapsto> w\<lparr>w_at := t\<rparr>))
      (adjustheap (retimed (w_active w) t (ev_timers s)) (ev_timercnt s) (w_active w) ((ev_ws s)(p \<mapsto> w\<lparr>w_at := t\<rparr>)))"
    "w_active w = HEAP0 \<Longrightarrow> settled (retimed HEAP0 t (ev_timers s)) (ev_timercnt s) ((ev_ws s)(p \<mapsto> w\<lparr>w_at := t\<rparr>))
      (downheap (retimed HEAP0 t (ev_timers s)) (ev_timercnt s) HEAP0 ((ev_ws s)(p \<mapsto> w\<lparr>w_at := t\<rparr>)))"
    "at_cache (w_active w) (ev_timers s) ((ev_ws s)(p \<mapsto> w\<lparr>w_at := t\<rparr>)) = Some (retimed (w_active w) t (ev_timers s))"
proof -
  have k: "in_heap (ev_timercnt s) (w_active w)" "he_w (ev_timers s ! w_active w) = p" using tmap_index[OF inv p(1,2)] by simp_all
  have th: "theap (ev_timers s) (ev_timercnt s) (ev_ws s)" and td: "timed (ev_timers s) (ev_timercnt s) (ev_ws s)"
    using inv by (simp_all add: tm_inv_def)
  note rt = retimed_ok[where t = t, OF th td k p(2)]
  note hr = heap_replace[OF th k(1), of "(ev_timers s ! w_active w)\<lparr>he_at := t\<rparr>", folded retimed_def]
  show "settled (retimed (w_active w) t (ev_timers s)) (ev_timercnt s) ((ev_ws s)(p \<mapsto> w\<lparr>w_at := t\<rparr>))
      (adjustheap (retimed (w_active w) t (ev_timers s)) (ev_timercnt s) (w_active w) ((ev_ws s)(p \<mapsto> w\<lparr>w_at := t\<rparr>)))"
    by (rule adjustheap_ok[OF rt(1,2) k(1) hr])
  show "settled (retimed HEAP0 t (ev_timers s)) (ev_timercnt s) ((ev_ws s)(p \<mapsto> w\<lparr>w_at := t\<rparr>))
      (downheap (retimed HEAP0 t (ev_timers s)) (ev_timercnt s) HEAP0 ((ev_ws s)(p \<mapsto> w\<lparr>w_at := t\<rparr>)))" if h: "w_active w = HEAP0"
  proof (rule downheap_ok[OF rt(1,2)[unfolded h] k(1)[unfolded h]])
    show "ordered (retimed HEAP0 t (ev_timers s)) (ev_timercnt s) (\<lambda>i. HPARENT i \<noteq> HEAP0)"
      using hr(1) unfolding h ordered_def by (auto simp: HEAP0_def DHEAP_def)
    show "skips (retimed HEAP0 t (ev_timers s)) (ev_timercnt s) HEAP0" using hr(2) unfolding h .
  qed
  show "at_cache (w_active w) (ev_timers s) ((ev_ws s)(p \<mapsto> w\<lparr>w_at := t\<rparr>)) = Some (retimed (w_active w) t (ev_timers s))" by (rule rt(5))
qed

lemma ev_timer_again_ok:
  assumes inv: "tm_inv s" "pend_ok s" and p: "tmap s p = Some u" "ev_ws s p = Some w" "w_repeat w \<noteq> 0"
  shows "\<exists>s'. ev_timer_again rnd p s = Some s' \<and> tm_inv s' \<and> pend_ok s' \<and> pview s' = pview s \<and> keeps s s' \<and>
    tmap s' = (tmap s)(p \<mapsto> rnd (ev_mn_now s + w_repeat w)) \<and> ev_activecnt s' = ev_activecnt s"
proof -
  have a: "w_active w \<noteq> 0" "p \<noteq> NULL" using tmap_index[OF inv(1) p(1,2)] by simp_all
  show ?thesis
    using retime_state[OF inv p(1,2) retimed_adjust(1)[OF inv(1) p(1,2)], of "rnd (ev_mn_now s + w_repeat w)"]
      retimed_adjust(3)[OF inv(1) p(1,2), of "rnd (ev_mn_now s + w_repeat w)"] a p
    by (auto simp: ev_timer_again_def mem_simps)
qed

section \<open>Timers that are due\<close>

definition rep_of :: "'a evst_scheme \<Rightarrow> ptr \<Rightarrow> ev_tstamp" where
  "rep_of s p = (case ev_ws s p of None \<Rightarrow> 0 | Some w \<Rightarrow> w_repeat w)"

text \<open>When a timer is due next, and what is pending for it, after it was found to be due.\<close>

definition next_due :: "(rat \<Rightarrow> rat) \<Rightarrow> 'a evst_scheme \<Rightarrow> ptr \<Rightarrow> ev_tstamp \<Rightarrow> ev_tstamp option" where
  "next_due rnd s p t = (if rep_of s p = 0 then None else Some (max (ev_mn_now s) (rnd (t + rep_of s p))))"

definition fed :: "'a evst_scheme \<Rightarrow> ptr \<Rightarrow> int" where
  "fed s p = (case (rep_of s p = 0, pview s p) of (False, Some d) \<Rightarrow> d OR EV_TIMEOUT | _ \<Rightarrow> EV_TIMEOUT)"

lemma keeps_rep: "keeps s s' \<Longrightarrow> rep_of s' p = rep_of s p"
proof -
  assume "keeps s s'"
  then have "map_option wkeep (ev_ws s' p) = map_option wkeep (ev_ws s p)" by (simp add: keeps_def)
  then show ?thesis by (cases "ev_ws s p"; cases "ev_ws s' p") (auto simp: rep_of_def wkeep_def)
qed

lemma heap_root:
  assumes "theap hp N ws" "in_heap N i"
  shows "he_at (hp ! 3) \<le> he_at (hp ! i)"
  using assms(2)
proof (induction i rule: less_induct)
  case (less i)
  show ?case
  proof (cases "i = 3")
    case False
    then have i: "4 \<le> i" using less.prems by (simp add: in_heap_def)
    have "he_at (hp ! HPARENT i) \<le> he_at (hp ! i)" using assms(1) less.prems i by (simp add: theap_def ordered_def)
    moreover have "he_at (hp ! 3) \<le> he_at (hp ! HPARENT i)" using less.IH HPARENT_less[OF i] in_heap_parent[OF less.prems] by blast
    ultimately show ?thesis by simp
  qed simp
qed

lemma root_first:
  assumes "tm_inv s" "ev_timercnt s \<noteq> 0"
  obtains p t where "arr_get (ev_timers s) (int HEAP0) = Some \<lparr>he_at = t, he_w = p\<rparr>" "tmap s p = Some t" "\<And>q u. tmap s q = Some u \<Longrightarrow> t \<le> u"
    "map_option w_active (ev_ws s p) = Some HEAP0"
proof -
  have th: "theap (ev_timers s) (ev_timercnt s) (ev_ws s)" and hs: "heap_sized (ev_timers s) (ev_timercnt s)"
    using assms(1) by (simp_all add: tm_inv_def theap_def)
  obtain t p where e: "ev_timers s ! 3 = \<lparr>he_at = t, he_w = p\<rparr>" by (cases "ev_timers s ! 3") auto
  have r: "in_heap (ev_timercnt s) 3" using assms(2) by (simp add: in_heap_def)
  have 1: "arr_get (ev_timers s) (int HEAP0) = Some \<lparr>he_at = t, he_w = p\<rparr>" using hs assms(2) e by (simp add: heap_sized_def heap_consts arr_get_def)
  have 2: "tmap s p = Some t" using in_heap_entry[OF hs r] e tmap_Some[OF hs] by simp
  have 3: "t \<le> u" if "tmap s q = Some u" for q u
  proof -
    have "\<lparr>he_at = u, he_w = q\<rparr> \<in> set (entries (ev_timers s) (ev_timercnt s))" using that tmap_Some[OF hs] by simp
    from entry_in_heap[OF hs this] obtain i where "in_heap (ev_timercnt s) i" "ev_timers s ! i = \<lparr>he_at = u, he_w = q\<rparr>" by blast
    with heap_root[OF th this(1)] e show ?thesis by simp
  qed
  have "indexed (ev_timers s) (ev_timercnt s) {} (ev_ws s)" using th by (simp add: theap_def)
  from this[unfolded indexed_def, rule_format, OF r] e have 4: "map_option w_active (ev_ws s p) = Some HEAP0" by (auto simp: heap_consts)
  from 1 2 3 4 show thesis by (rule that)
qed

lemma reify_one_ok:
  assumes inv: "tm_inv s" "pend_ok s" and p: "tmap s p = Some t" "map_option w_active (ev_ws s p) = Some HEAP0"
  shows "\<exists>s'. reify_one rnd p s = Some s' \<and> tm_inv s' \<and> pend_ok s' \<and> keeps s s' \<and>
    tmap s' = (tmap s)(p := next_due rnd s p t) \<and> pview s' = (pview s)(p \<mapsto> fed s p) \<and> apart s s'"
proof -
  obtain w where w: "ev_ws s p = Some w" "p \<noteq> NULL" "w_at w = t" "0 \<le> w_repeat w" "ABSPRI w \<noteq> None"
    using tmap_watcher[OF inv(1) p(1)] by metis
  have k: "w_active w = HEAP0" using p(2) w(1) by simp
  have rep: "rep_of s p = w_repeat w" using w(1) by (simp add: rep_of_def)
  obtain s1 where s1: "(if w_repeat w \<noteq> 0 then do {
        let t = rnd (w_at w + w_repeat w);
        let t = (if t < ev_mn_now s then ev_mn_now s else t);
        if w_repeat w \<le> 0 then None
        else do {
          let s = s\<lparr>ev_ws := (ev_ws s)(p \<mapsto> w\<lparr>w_at := t\<rparr>)\<rparr>;
          hp \<leftarrow> at_cache HEAP0 (ev_timers s) (ev_ws s);
          set_heap (downheap hp (ev_timercnt s) HEAP0 (ev_ws s)) s } }
      else ev_timer_stop rnd p s) = Some s1" "tm_inv s1" "pend_ok s1" "keeps s s1" "tmap s1 = (tmap s)(p := next_due rnd s p t)"
      "pview s1 = (if w_repeat w = 0 then (pview s)(p := None) else pview s)" "\<exists>w. ev_ws s1 p = Some w \<and> ABSPRI w \<noteq> None" "apart s s1"
  proof (cases "w_repeat w = 0")
    case True
    then show thesis using ev_timer_stop_ok[OF inv p(1), of rnd] that rep by (auto simp: next_due_def)
  next
    case False
    let ?t = "if rnd (w_at w + w_repeat w) < ev_mn_now s then ev_mn_now s else rnd (w_at w + w_repeat w)"
    have m: "Some ?t = next_due rnd s p t" using False rep w(3) by (simp add: next_due_def max_def)
    obtain s1 where s1: "set_heap (downheap (retimed HEAP0 ?t (ev_timers s)) (ev_timercnt s) HEAP0 ((ev_ws s)(p \<mapsto> w\<lparr>w_at := ?t\<rparr>)))
          (s\<lparr>ev_ws := (ev_ws s)(p \<mapsto> w\<lparr>w_at := ?t\<rparr>)\<rparr>) = Some s1" "tm_inv s1" "pend_ok s1" "pview s1 = pview s" "keeps s s1" "tmap s1 = (tmap s)(p \<mapsto> ?t)" "apart s s1"
      using retime_state[OF inv p(1) w(1)] retimed_adjust(2)[OF inv(1) p(1) w(1) k, of ?t] k by metis
    have "tmap s1 p = Some ?t" using s1(6) by simp
    from tmap_watcher[OF s1(2) this] have "\<exists>w. ev_ws s1 p = Some w \<and> ABSPRI w \<noteq> None" by metis
    with s1 m retimed_adjust(3)[OF inv(1) p(1) w(1), of ?t] False w(4) k show thesis by (intro that[of s1]) simp_all
  qed
  obtain w1 pri where w1: "ev_ws s1 p = Some w1" "ABSPRI w1 = Some pri" using s1(7) by auto
  obtain s2 where s2: "ev_feed_event p EV_TIMEOUT s1 = Some s2" "pend_ok s2" "tframe s1 s2"
      "pview s2 = (pview s1)(p \<mapsto> (case pview s1 p of None \<Rightarrow> EV_TIMEOUT | Some d \<Rightarrow> d OR EV_TIMEOUT))"
    using ev_feed_event_ok[OF s1(3) w(2) w1] by blast
  have "pview s2 = (pview s)(p \<mapsto> fed s p)" using s2(4) s1(6) rep by (auto simp: fed_def split: option.splits)
  moreover have "reify_one rnd p s = Some s2" using s1(1) s2(1) w(1,2) by (simp add: reify_one_def mem_simps)
  moreover have "apart s s2" by (rule apart_trans[OF s1(8) apart_tframe[OF s2(3)]]) (use s1(5) p(1) in \<open>auto simp: fun_upd_apply\<close>)
  ultimately show ?thesis
    using s2(2) tframe_tm[OF s2(3)] s1(2,5) keeps_trans[OF s1(4) tframe_keeps[OF s2(3)]] by auto
qed

end
