(* ===== verification/Ev_Loop.thy ===== *)
theory Ev_Loop
  imports Ev_Timer
begin

text \<open>
  What the event library does with its timers and pending events in an iteration of the loop
  (\<open>src/ev.c\<close>), and what that means for the timers of the program (\<open>src/evt.c\<close>).

  One pass over the timers is compared with a function of the map from timers to times; one pass
  over the pending watchers with the list of their entries.  The locale \<open>timer_rounds\<close> is what a
  user of timers relies on.
\<close>

unbundle bit_operations_syntax

definition reified :: "(rat \<Rightarrow> rat) \<Rightarrow> 'a evst_scheme \<Rightarrow> ptr \<rightharpoonup> ev_tstamp" where
  "reified rnd s p = (case tmap s p of None \<Rightarrow> None | Some t \<Rightarrow> if t < ev_mn_now s then next_due rnd s p t else Some t)"

definition fired :: "'a evst_scheme \<Rightarrow> ptr \<rightharpoonup> int" where
  "fired s p = (case tmap s p of None \<Rightarrow> pview s p | Some t \<Rightarrow> if t < ev_mn_now s then Some (fed s p) else pview s p)"

lemma next_due_later: "next_due rnd s p t = Some u \<Longrightarrow> ev_mn_now s \<le> u"
  by (auto simp: next_due_def split: if_splits)

lemma timers_reify_ok:
  assumes "tm_inv s" "pend_ok s"
  shows "\<exists>s'. timers_reify rnd s = Some s' \<and> tm_inv s' \<and> pend_ok s' \<and> keeps s s' \<and> tmap s' = reified rnd s \<and> pview s' = fired s \<and>
    apart s s'"
  using assms
proof (induction "card {p. \<exists>t. tmap s p = Some t \<and> t < ev_mn_now s}" arbitrary: s rule: less_induct)
  case less
  note inv = less.prems
  have none: ?case if "\<And>p t. tmap s p = Some t \<Longrightarrow> ev_mn_now s \<le> t" "timers_reify rnd s = Some s"
  proof -
    have "reified rnd s = tmap s" "fired s = pview s"
      using that(1) by (force simp: reified_def fired_def fun_eq_iff not_less[symmetric] split: option.splits)+
    with that(2) inv show ?thesis by (simp add: keeps_def apart_def)
  qed
  show ?case
  proof (cases "ev_timercnt s = 0")
    case True
    then have "tmap s p = None" for p by (simp add: tmap_def entries_def)
    with True show ?thesis by (intro none) (simp_all add: timers_reify.simps)
  next
    case cnt: False
    obtain p t where r: "arr_get (ev_timers s) (int HEAP0) = Some \<lparr>he_at = t, he_w = p\<rparr>" "tmap s p = Some t" "\<And>q u. tmap s q = Some u \<Longrightarrow> t \<le> u"
        "map_option w_active (ev_ws s p) = Some HEAP0"
      using root_first[OF inv(1) cnt] by metis
    show ?thesis
    proof (cases "t < ev_mn_now s")
      case False
      then show ?thesis using r cnt by (intro none) (auto simp: timers_reify.simps dest: r(3))
    next
      case True
      obtain s1 where s1: "reify_one rnd p s = Some s1" "tm_inv s1" "pend_ok s1" "keeps s s1" "tmap s1 = (tmap s)(p := next_due rnd s p t)"
          "pview s1 = (pview s)(p \<mapsto> fed s p)" "apart s s1"
        using reify_one_ok[OF inv r(2,4)] by blast
      have now: "ev_mn_now s1 = ev_mn_now s" using s1(4) by (simp add: keeps_def)
      have rep: "rep_of s1 q = rep_of s q" for q using keeps_rep[OF s1(4)] .
      let ?D = "\<lambda>s. {p. \<exists>t. tmap s p = Some t \<and> t < ev_mn_now s}"
      have "?D s1 = ?D s - {p}" using next_due_later[of rnd s p t] by (auto simp: s1(5) now)
      moreover have "p \<in> ?D s" using r(2) True by blast
      moreover have "finite (?D s)" by (rule finite_subset[of _ "dom (tmap s)"]) (auto simp: tmap_def finite_dom_map_of)
      ultimately have "card (?D s1) < card (?D s)" using card_Diff1_less[of "?D s" p] by presburger
      from less.hyps[OF this s1(2,3)] obtain s' where s': "timers_reify rnd s1 = Some s'" "tm_inv s'" "pend_ok s'" "keeps s1 s'"
          "tmap s' = reified rnd s1" "pview s' = fired s1" "apart s1 s'" by blast
      have nd: "next_due rnd s1 q u = next_due rnd s q u" for q u by (simp add: next_due_def rep now)
      have "reified rnd s1 q = reified rnd s q" for q
        using next_due_later[of rnd s p t] r(2) True by (cases "q = p") (auto simp: reified_def s1(5) now nd split: option.splits)
      moreover have "fired s1 q = fired s q" for q
      proof (cases "q = p")
        case True': True
        have "tmap s1 p = next_due rnd s p t" using s1(5) by simp
        then have "fired s1 p = pview s1 p" using next_due_later[of rnd s p t] by (auto simp: fired_def now split: option.splits)
        then show ?thesis using True' r(2) True s1(6) by (simp add: fired_def)
      next
        case False
        then have "fed s1 q = fed s q" by (simp add: fed_def rep s1(6))
        with False show ?thesis by (simp add: fired_def s1(5,6) now split: option.splits)
      qed
      moreover have "timers_reify rnd s = Some s'" using cnt r(1) True s1(1) s'(1) by (subst timers_reify.simps) simp
      moreover have "apart s s'" by (rule apart_trans[OF s1(7) s'(7)]) (use s1(5) r(2) in \<open>auto simp: fun_upd_apply\<close>)
      ultimately show ?thesis using s' keeps_trans[OF s1(4) s'(4)] by (simp add: fun_eq_iff)
    qed
  qed
qed

section \<open>Calling what is pending\<close>

lemma pend_inv_pop:
  assumes inv: "pend_inv K P C" and n: "C pri = Suc n"
  defines "p \<equiv> pd_w (P pri ! n)"
  shows "pend_inv (if p = NULL then K else K(p \<mapsto> (0, None))) P (C(pri := n))"
    "pevents (if p = NULL then K else K(p \<mapsto> (0, None))) P = (if p = NULL then pevents K P else (pevents K P)(p := None))"
    "p \<noteq> NULL \<Longrightarrow> K p = Some (Suc n, Some pri)"
proof -
  let ?K = "if p = NULL then K else K(p \<mapsto> (0, None))"
  show kp: "p \<noteq> NULL \<Longrightarrow> K p = Some (Suc n, Some pri)" using pend_inv_free[OF inv, of n pri p] n by (simp add: p_def)
  show "pend_inv ?K P (C(pri := n))"
    unfolding pend_inv_def
  proof (intro conjI allI impI, goal_cases)
    case (1 r m q)
    then show ?case using inv by (auto simp: pend_inv_def split: if_splits)
  next
    case (2 r m q)
    then obtain i where i: "K r = Some (Suc i, q)" "m = Suc i" "r \<noteq> p \<or> p = NULL" by (cases m) (auto split: if_splits)
    obtain pr where pr: "q = Some pr" "i < C pr" "pd_w (P pr ! i) = r" "r \<noteq> NULL" using pend_inv_entry[OF inv i(1)] by blast
    then have "\<not> (pr = pri \<and> i = n)" using i(3) by (auto simp: p_def)
    then show ?case using pr i n by (intro exI[of _ pr]) auto
  next
    case (3 r)
    have "C r \<le> length (P r)" using inv by (simp add: pend_inv_def)
    then show ?case using n by auto
  next
    case (4 r i)
    then have "i < C r" "\<not> (r = pri \<and> i = n)" using n by (auto split: if_splits)
    then have k: "K (pd_w (P r ! i)) = Some (Suc i, Some r)" using pend_inv_free[OF inv] 4 by blast
    moreover have "pd_w (P r ! i) \<noteq> p \<or> p = NULL"
    proof (rule ccontr)
      assume "\<not> (pd_w (P r ! i) \<noteq> p \<or> p = NULL)"
      then show False using k kp \<open>\<not> (r = pri \<and> i = n)\<close> by simp
    qed
    ultimately show ?case by auto
  qed
  show "pevents ?K P = (if p = NULL then pevents K P else (pevents K P)(p := None))" by (auto simp: pevents_def fun_eq_iff)
qed

text \<open>A callback that leaves the event library alone: it changes the part of the program only.\<close>

definition plain_cb :: "(ptr \<Rightarrow> int \<Rightarrow> 'a \<Rightarrow> 'a) \<Rightarrow> 'a evst_scheme ev_cb" where
  "plain_cb f p e s = Some (evst.extend (evst.truncate s) (f p e (evst.more s)))"

definition agenda :: "'a evst_scheme \<Rightarrow> nat \<Rightarrow> ANPENDING list" where
  "agenda s pri = rev (filter (\<lambda>e. pd_w e \<noteq> NULL) (take (ev_pendingcnt s pri) (ev_pendings s pri)))"

definition call_all :: "(ptr \<Rightarrow> int \<Rightarrow> 'a \<Rightarrow> 'a) \<Rightarrow> ANPENDING list \<Rightarrow> 'a \<Rightarrow> 'a" where
  "call_all f = fold (\<lambda>e. f (pd_w e) (pd_events e))"

lemma extend_fields:
  fixes s :: "'a evst_scheme" and m :: 'a
  shows "ev_ws (evst.extend (evst.truncate s) m) = ev_ws s" "ev_pendings (evst.extend (evst.truncate s) m) = ev_pendings s"
    "ev_pendingcnt (evst.extend (evst.truncate s) m) = ev_pendingcnt s" "ev_timers (evst.extend (evst.truncate s) m) = ev_timers s"
    "ev_timercnt (evst.extend (evst.truncate s) m) = ev_timercnt s" "ev_activecnt (evst.extend (evst.truncate s) m) = ev_activecnt s"
    "ev_mn_now (evst.extend (evst.truncate s) m) = ev_mn_now s" "evst.more (evst.extend (evst.truncate s) m) = m"
  by (simp_all add: evst.defs)

lemma pending_loop_ok:
  fixes s :: "'a evst_scheme"
  assumes "pend_ok s"
  shows "\<exists>s'. pending_loop (plain_cb f) pri s = Some s' \<and> pend_ok s' \<and> qframe s s' \<and> evst.more s' = call_all f (agenda s pri) (evst.more s) \<and>
    ev_pendingcnt s' = (ev_pendingcnt s)(pri := 0) \<and> ev_pendings s' = ev_pendings s \<and>
    (\<forall>p. pview s' p = (if p \<in> pd_w ` set (agenda s pri) then None else pview s p))"
  using assms
proof (induction "ev_pendingcnt s pri" arbitrary: s)
  case 0
  then have "pending_loop (plain_cb f) pri s = Some s" "agenda s pri = []" "(ev_pendingcnt s)(pri := 0) = ev_pendingcnt s"
    by (simp_all add: pending_loop.simps[of _ _ s] agenda_def fun_eq_iff)
  with 0(2) show ?case by (simp add: qframe_def call_all_def)
next
  case (Suc n)
  let ?e = "ev_pendings s pri ! n" let ?p = "pd_w ?e"
  have "ev_pendingcnt s pri \<le> length (ev_pendings s pri)" using Suc.prems by (simp add: pend_ok_def pend_inv_def)
  then have n: "ev_pendingcnt s pri = Suc n" "n < length (ev_pendings s pri)" using Suc.hyps(2) by simp_all
  note pop = pend_inv_pop[OF Suc.prems[unfolded pend_ok_def] n(1)]
  have ag: "agenda s pri = (if ?p = NULL then [] else [?e]) @ rev (filter (\<lambda>e. pd_w e \<noteq> NULL) (take n (ev_pendings s pri)))"
    using n by (simp add: agenda_def take_Suc_conv_app_nth)
  show ?case
  proof (cases "?p = NULL")
    case True
    let ?s1 = "s\<lparr>ev_pendingcnt := (ev_pendingcnt s)(pri := n)\<rparr>"
    have ks: "keys ?s1 = keys s" by (auto simp: keys_def)
    have ok: "pend_ok ?s1" "pview ?s1 = pview s" using pop True by (simp_all add: pend_ok_def pview_def ks)
    have ag1: "agenda ?s1 pri = agenda s pri" using ag True by (simp add: agenda_def)
    have "n = ev_pendingcnt ?s1 pri" by simp
    from Suc.hyps(1)[OF this ok(1)] obtain s' where s': "pending_loop (plain_cb f) pri ?s1 = Some s'" "pend_ok s'" "qframe ?s1 s'"
        "evst.more s' = call_all f (agenda ?s1 pri) (evst.more ?s1)" "ev_pendingcnt s' = (ev_pendingcnt ?s1)(pri := 0)" "ev_pendings s' = ev_pendings ?s1"
        "\<forall>p. pview s' p = (if p \<in> pd_w ` set (agenda ?s1 pri) then None else pview ?s1 p)" by blast
    have "pending_loop (plain_cb f) pri s = Some s'" using n True s'(1) by (simp add: pending_loop.simps[of _ _ s])
    with s' show ?thesis unfolding ag1 ok(2) by (intro exI[of _ s']) (simp add: qframe_def)
  next
    case False
    have kp: "keys s ?p = Some (Suc n, Some pri)" using pop(3) False by simp
    then obtain w where w: "ev_ws s ?p = Some w" by (auto simp: keys_def)
    let ?s0 = "s\<lparr>ev_pendingcnt := (ev_pendingcnt s)(pri := n), ev_ws := (ev_ws s)(?p \<mapsto> w\<lparr>w_pending := 0\<rparr>)\<rparr>"
    define s1 where "s1 = evst.extend (evst.truncate ?s0) (f ?p (pd_events ?e) (evst.more s))"
    have fs: "ev_ws s1 = (ev_ws s)(?p \<mapsto> w\<lparr>w_pending := 0\<rparr>)" "ev_pendingcnt s1 = (ev_pendingcnt s)(pri := n)" "ev_pendings s1 = ev_pendings s"
        "evst.more s1 = f ?p (pd_events ?e) (evst.more s)" and q1: "qframe s s1"
      unfolding s1_def qframe_def extend_fields using w by auto
    have ks: "keys s1 = (keys s)(?p \<mapsto> (0, None))" by (auto simp: keys_def fs)
    have ok: "pend_ok s1" "pview s1 = (pview s)(?p := None)" using pop False by (simp_all add: pend_ok_def pview_def ks fs)
    have ag1: "agenda s pri = ?e # agenda s1 pri" using ag False by (simp add: agenda_def fs)
    have "n = ev_pendingcnt s1 pri" by (simp add: fs)
    from Suc.hyps(1)[OF this ok(1)] obtain s' where s': "pending_loop (plain_cb f) pri s1 = Some s'" "pend_ok s'" "qframe s1 s'"
        "evst.more s' = call_all f (agenda s1 pri) (evst.more s1)" "ev_pendingcnt s' = (ev_pendingcnt s1)(pri := 0)" "ev_pendings s' = ev_pendings s1"
        "\<forall>p. pview s' p = (if p \<in> pd_w ` set (agenda s1 pri) then None else pview s1 p)" by blast
    have "pending_loop (plain_cb f) pri s = Some s'"
      using n False s'(1) w unfolding s1_def by (simp add: pending_loop.simps[of _ _ s] plain_cb_def mem_simps)
    moreover have "qframe s s'" using q1 s'(3) by (simp add: qframe_def)
    ultimately show ?thesis using s' unfolding ag1 ok(2) by (intro exI[of _ s']) (simp add: fs call_all_def)
  qed
qed

text \<open>The entries that wait, in the order they are served.\<close>

fun agenda_below :: "nat \<Rightarrow> 'a evst_scheme \<Rightarrow> ANPENDING list" where
  "agenda_below 0 s = []"
| "agenda_below (Suc pri) s = agenda s pri @ agenda_below pri s"

lemma agenda_below_cong: "ev_pendings s' = ev_pendings s \<Longrightarrow> (\<And>r. r < n \<Longrightarrow> ev_pendingcnt s' r = ev_pendingcnt s r) \<Longrightarrow> agenda_below n s' = agenda_below n s"
  by (induction n) (simp_all add: agenda_def)

lemma agenda_below_set: "set (agenda_below n s) = (\<Union>r < n. set (agenda s r))"
  by (induction n) (auto simp: lessThan_Suc)

lemma call_all_append: "call_all f (xs @ ys) m = call_all f ys (call_all f xs m)"
  by (simp add: call_all_def)

lemma pending_pris_ok:
  fixes s :: "'a evst_scheme"
  assumes "pend_ok s"
  shows "\<exists>s'. pending_pris (plain_cb f) n s = Some s' \<and> pend_ok s' \<and> qframe s s' \<and>
    evst.more s' = call_all f (agenda_below n s) (evst.more s) \<and>
    (\<forall>p. pview s' p = (if p \<in> pd_w ` set (agenda_below n s) then None else pview s p))"
  using assms
proof (induction n arbitrary: s)
  case 0
  then show ?case by (simp add: qframe_def call_all_def)
next
  case (Suc n)
  obtain s1 where s1: "pending_loop (plain_cb f) n s = Some s1" "pend_ok s1" "qframe s s1"
      "evst.more s1 = call_all f (agenda s n) (evst.more s)" "ev_pendingcnt s1 = (ev_pendingcnt s)(n := 0)" "ev_pendings s1 = ev_pendings s"
      "\<forall>p. pview s1 p = (if p \<in> pd_w ` set (agenda s n) then None else pview s p)"
    using pending_loop_ok[OF Suc.prems] by blast
  obtain s' where s': "pending_pris (plain_cb f) n s1 = Some s'" "pend_ok s'" "qframe s1 s'"
      "evst.more s' = call_all f (agenda_below n s1) (evst.more s1)"
      "\<forall>p. pview s' p = (if p \<in> pd_w ` set (agenda_below n s1) then None else pview s1 p)"
    using Suc.IH[OF s1(2)] by blast
  have ag: "agenda_below n s1 = agenda_below n s" by (rule agenda_below_cong) (simp_all add: s1(5,6))
  have "qframe s s'" using s1(3) s'(3) by (simp add: qframe_def)
  with s1 s' show ?case unfolding ag by (simp add: call_all_append image_Un)
qed

lemma agenda_entry:
  assumes "pend_ok s" "e \<in> set (agenda s r)"
  shows "pview s (pd_w e) = Some (pd_events e)" "\<exists>i. keys s (pd_w e) = Some (Suc i, Some r) \<and> ev_pendings s r ! i = e"
proof -
  obtain i where i: "i < ev_pendingcnt s r" "ev_pendings s r ! i = e" "pd_w e \<noteq> NULL"
    using assms(2) by (auto simp: agenda_def in_set_conv_nth)
  then have k: "keys s (pd_w e) = Some (Suc i, Some r)" using pend_inv_free[OF assms(1)[unfolded pend_ok_def]] by simp
  with i(2) show "pview s (pd_w e) = Some (pd_events e)" by (simp add: pview_def pevents_def)
  from k i(2) show "\<exists>i. keys s (pd_w e) = Some (Suc i, Some r) \<and> ev_pendings s r ! i = e" by blast
qed

lemma pview_agenda:
  assumes "pend_ok s" "pview s p = Some v"
  shows "\<exists>r < NUMPRI. \<lparr>pd_w = p, pd_events = v\<rparr> \<in> set (agenda s r)"
proof -
  obtain i r where k: "keys s p = Some (Suc i, Some r)" "pd_events (ev_pendings s r ! i) = v"
    using assms(2) by (auto simp: pview_def pevents_def split: option.splits nat.splits)
  have e: "i < ev_pendingcnt s r" "i < length (ev_pendings s r)" "pd_w (ev_pendings s r ! i) = p" "p \<noteq> NULL"
    using pend_inv_entry[OF assms(1)[unfolded pend_ok_def] k(1)] by auto
  have "ev_pendings s r ! i = \<lparr>pd_w = p, pd_events = v\<rparr>" using e(3) k(2) by (cases "ev_pendings s r ! i") simp
  moreover have "ev_pendings s r ! i \<in> set (take (ev_pendingcnt s r) (ev_pendings s r))" using e by (auto simp: in_set_conv_nth)
  ultimately have "\<lparr>pd_w = p, pd_events = v\<rparr> \<in> set (agenda s r)" using e(4) by (simp add: agenda_def)
  moreover have "r < NUMPRI"
    using k(1) by (auto simp: keys_def pkey_def ABSPRI_def NUMPRI_def EV_MINPRI_def EV_MAXPRI_def split: if_splits)
  ultimately show ?thesis by blast
qed

lemma agenda_distinct:
  assumes "pend_ok s"
  shows "distinct (map pd_w (agenda s r))"
proof -
  let ?xs = "take (ev_pendingcnt s r) (ev_pendings s r)"
  have "i = j" if "i < ev_pendingcnt s r" "j < ev_pendingcnt s r" "pd_w (ev_pendings s r ! i) = pd_w (ev_pendings s r ! j)" "pd_w (ev_pendings s r ! i) \<noteq> NULL" for i j
  proof -
    note free = pend_inv_free[OF assms[unfolded pend_ok_def]]
    have "keys s (pd_w (ev_pendings s r ! i)) = Some (Suc i, Some r)" by (rule free[OF that(1) refl that(4)])
    moreover have "keys s (pd_w (ev_pendings s r ! i)) = Some (Suc j, Some r)" by (rule free[OF that(2) that(3)[symmetric] that(4)])
    ultimately show ?thesis by simp
  qed
  then have ij: "i = j" if "i < length ?xs" "j < length ?xs" "pd_w (?xs ! i) = pd_w (?xs ! j)" "pd_w (?xs ! i) \<noteq> NULL" for i j
    using that by simp
  have "distinct (map pd_w (filter (\<lambda>e. pd_w e \<noteq> NULL) xs))"
    if "\<And>i j. i < length xs \<Longrightarrow> j < length xs \<Longrightarrow> pd_w (xs ! i) = pd_w (xs ! j) \<Longrightarrow> pd_w (xs ! i) \<noteq> NULL \<Longrightarrow> i = j" for xs
    using that
  proof (induction xs)
    case (Cons x xs)
    have "distinct (map pd_w (filter (\<lambda>e. pd_w e \<noteq> NULL) xs))"
      by (rule Cons.IH) (use Cons.prems[of "Suc i" "Suc j" for i j] in force)
    moreover have "pd_w x \<notin> pd_w ` set xs" if "pd_w x \<noteq> NULL"
      using that Cons.prems[of 0 "Suc j" for j] by (force simp: in_set_conv_nth)
    ultimately show ?case by (cases "pd_w x = NULL") auto
  qed simp
  from this[of ?xs] ij have "distinct (map pd_w (filter (\<lambda>e. pd_w e \<noteq> NULL) ?xs))" by blast
  then show ?thesis by (simp add: agenda_def rev_map[symmetric])
qed

lemma agenda_below_distinct: "pend_ok s \<Longrightarrow> distinct (map pd_w (agenda_below n s))"
proof (induction n)
  case (Suc n)
  have "pd_w e \<noteq> pd_w d" if h: "e \<in> set (agenda s n)" "d \<in> set (agenda_below n s)" for e d
  proof
    assume "pd_w e = pd_w d"
    moreover obtain r where "r < n" "d \<in> set (agenda s r)" using h(2) by (auto simp: agenda_below_set)
    ultimately show False using agenda_entry(2)[OF Suc.prems h(1)] agenda_entry(2)[OF Suc.prems, of d r] by auto
  qed
  then show ?case using Suc agenda_distinct[OF Suc.prems, of n] by auto
qed simp

lemma agenda_all:
  assumes "pend_ok s"
  shows "\<lparr>pd_w = p, pd_events = v\<rparr> \<in> set (agenda_below NUMPRI s) \<longleftrightarrow> pview s p = Some v"
  using agenda_entry(1)[OF assms, of "\<lparr>pd_w = p, pd_events = v\<rparr>"] pview_agenda[OF assms, of p v] by (auto simp: agenda_below_set)

lemma call_pending_ok:
  fixes s :: "'a evst_scheme"
  assumes "pend_ok s"
  shows "\<exists>s'. call_pending (plain_cb f) s = Some s' \<and> pend_ok s' \<and> qframe s s' \<and> pview s' = Map.empty \<and>
    evst.more s' = call_all f (agenda_below NUMPRI s) (evst.more s)"
proof -
  obtain s' where s': "pending_pris (plain_cb f) NUMPRI s = Some s'" "pend_ok s'" "qframe s s'"
      "evst.more s' = call_all f (agenda_below NUMPRI s) (evst.more s)"
      "\<forall>p. pview s' p = (if p \<in> pd_w ` set (agenda_below NUMPRI s) then None else pview s p)"
    using pending_pris_ok[OF assms] by blast
  have "pview s' p = None" for p
  proof (cases "pview s p")
    case (Some v)
    then have "\<lparr>pd_w = p, pd_events = v\<rparr> \<in> set (agenda_below NUMPRI s)" using agenda_all[OF assms] by simp
    then have "p \<in> pd_w ` set (agenda_below NUMPRI s)" by (metis ANPENDING.select_convs(1) image_eqI)
    with s'(5) show ?thesis by simp
  qed (use s'(5) in simp)
  with s' show ?thesis by (simp add: call_pending_def fun_eq_iff)
qed

section \<open>Rounds of the loop\<close>

text \<open>
  What an iteration of the loop does about timers: the clock is read, what is due is fed, and
  what is pending is called.  The callbacks of the program, \<open>pkg_gc\<close> and \<open>blockheap_gc\<close>, leave
  the loop alone; here they are noted in a log.
\<close>

type_synonym loopst = "(ptr \<times> int) list evst_scheme"

definition note_call :: "ptr \<Rightarrow> int \<Rightarrow> (ptr \<times> int) list \<Rightarrow> (ptr \<times> int) list" where
  "note_call p e calls = calls @ [(p, e)]"

definition timer_round :: "(rat \<Rightarrow> rat) \<Rightarrow> ev_tstamp \<Rightarrow> loopst \<Rightarrow> loopst option" where
  "timer_round rnd t s = do { s \<leftarrow> timers_reify rnd (s\<lparr>ev_mn_now := t\<rparr>); call_pending (plain_cb note_call) s }"

definition calls_of :: "ptr \<Rightarrow> loopst \<Rightarrow> nat" where
  "calls_of p s = count_list (map fst (evst.more s)) p"

definition loop_idle :: "loopst \<Rightarrow> bool" where
  "loop_idle s \<longleftrightarrow> tm_inv s \<and> pend_ok s \<and> pview s = Map.empty"

text \<open>The times at which a timer goes off, computed from its due time alone.\<close>

definition rearm :: "(rat \<Rightarrow> rat) \<Rightarrow> ev_tstamp \<Rightarrow> ev_tstamp \<Rightarrow> ev_tstamp \<Rightarrow> ev_tstamp option" where
  "rearm rnd t r u = (if u < t then if r = 0 then None else Some (max t (rnd (u + r))) else Some u)"

fun firings :: "(rat \<Rightarrow> rat) \<Rightarrow> ev_tstamp \<Rightarrow> ev_tstamp \<Rightarrow> ev_tstamp list \<Rightarrow> nat" where
  "firings rnd r u [] = 0"
| "firings rnd r u (t # ts) = (if u < t then Suc (firings rnd r (max t (rnd (u + r))) ts) else firings rnd r u ts)"

fun rounds :: "('t \<Rightarrow> 's \<Rightarrow> 's option) \<Rightarrow> 't list \<Rightarrow> 's \<Rightarrow> 's option" where
  "rounds step [] s = Some s"
| "rounds step (t # ts) s = Option.bind (step t s) (rounds step ts)"

text \<open>Timers as a client sees them.\<close>

locale timer_rounds =
  fixes inv :: "'s \<Rightarrow> bool"
    and due :: "'s \<Rightarrow> ptr \<rightharpoonup> ev_tstamp"
    and rep :: "'s \<Rightarrow> ptr \<Rightarrow> ev_tstamp"
    and calls :: "ptr \<Rightarrow> 's \<Rightarrow> nat"
    and rnd :: "rat \<Rightarrow> rat"
    and step :: "ev_tstamp \<Rightarrow> 's \<Rightarrow> 's option"
  assumes step_ok: "inv s \<Longrightarrow> \<exists>s'. step t s = Some s' \<and> inv s' \<and> (\<forall>p. rep s' p = rep s p) \<and>
      (\<forall>p. due s' p = Option.bind (due s p) (rearm rnd t (rep s p))) \<and>
      (\<forall>p. calls p s' = calls p s + (if \<exists>u. due s p = Some u \<and> u < t then 1 else 0))"
begin

lemma periodic_fires:
  assumes "inv s" "due s p = Some u" "rep s p \<noteq> 0"
  shows "\<exists>s'. rounds step ts s = Some s' \<and> inv s' \<and> due s' p \<noteq> None \<and> calls p s' = calls p s + firings rnd (rep s p) u ts"
  using assms
proof (induction ts arbitrary: s u)
  case (Cons t ts)
  obtain s1 where s1: "step t s = Some s1" "inv s1" "\<forall>p. rep s1 p = rep s p" "\<forall>p. due s1 p = Option.bind (due s p) (rearm rnd t (rep s p))"
      "\<forall>p. calls p s1 = calls p s + (if \<exists>u. due s p = Some u \<and> u < t then 1 else 0)"
    using step_ok[OF Cons.prems(1), of t] by blast
  let ?u = "if u < t then max t (rnd (u + rep s p)) else u"
  have "due s1 p = Some ?u" using s1(4) Cons.prems(2,3) by (simp add: rearm_def)
  moreover have "rep s1 p = rep s p" using s1(3) by blast
  ultimately obtain s' where "rounds step ts s1 = Some s'" "inv s'" "due s' p \<noteq> None" "calls p s' = calls p s1 + firings rnd (rep s p) ?u ts"
    using Cons.IH[OF s1(2)] Cons.prems(3) by metis
  then show ?case using s1(1,5) Cons.prems(2) by simp
qed simp

lemma oneshot_fires_once:
  assumes "inv s" "due s p = Some u" "rep s p = 0"
  shows "\<exists>s'. rounds step ts s = Some s' \<and> inv s' \<and> calls p s' = calls p s + (if \<exists>t \<in> set ts. u < t then 1 else 0) \<and>
    due s' p = (if \<exists>t \<in> set ts. u < t then None else Some u)"
proof -
  have gone: "\<exists>s'. rounds step ts s = Some s' \<and> inv s' \<and> calls p s' = calls p s \<and> due s' p = None" if "inv s" "due s p = None" for s ts
    using that
  proof (induction ts arbitrary: s)
    case (Cons t ts)
    obtain s1 where s1: "step t s = Some s1" "inv s1" "\<forall>p. due s1 p = Option.bind (due s p) (rearm rnd t (rep s p))"
        "\<forall>p. calls p s1 = calls p s + (if \<exists>u. due s p = Some u \<and> u < t then 1 else 0)"
      using step_ok[OF Cons.prems(1), of t] by blast
    have "due s1 p = None" using s1(3) Cons.prems(2) by simp
    from Cons.IH[OF s1(2) this] show ?case using s1(1,4) Cons.prems(2) by simp
  qed simp
  show ?thesis using assms
  proof (induction ts arbitrary: s)
    case (Cons t ts)
    obtain s1 where s1: "step t s = Some s1" "inv s1" "\<forall>p. rep s1 p = rep s p" "\<forall>p. due s1 p = Option.bind (due s p) (rearm rnd t (rep s p))"
        "\<forall>p. calls p s1 = calls p s + (if \<exists>u. due s p = Some u \<and> u < t then 1 else 0)"
      using step_ok[OF Cons.prems(1), of t] by blast
    show ?case
    proof (cases "u < t")
      case True
      then have "due s1 p = None" using s1(4) Cons.prems(2,3) by (simp add: rearm_def)
      from gone[OF s1(2) this, of ts] show ?thesis using s1(1,5) Cons.prems(2) True by auto
    next
      case False
      then have "due s1 p = Some u" "rep s1 p = 0" using s1(3,4) Cons.prems(2,3) by (simp_all add: rearm_def)
      from Cons.IH[OF s1(2) this] show ?thesis using s1(1,5) Cons.prems(2) False by simp
    qed
  qed simp
qed

end

lemma note_calls: "call_all note_call es m = m @ map (\<lambda>e. (pd_w e, pd_events e)) es"
  by (induction es arbitrary: m) (simp_all add: call_all_def note_call_def)

lemma qframe_rep: "qframe s s' \<Longrightarrow> rep_of s' p = rep_of s p"
proof -
  assume "qframe s s'"
  then have "map_option w_repeat (map_option (\<lambda>w. w\<lparr>w_pending := 0\<rparr>) (ev_ws s' p)) = map_option w_repeat (map_option (\<lambda>w. w\<lparr>w_pending := 0\<rparr>) (ev_ws s p))"
    by (simp add: qframe_def)
  then show ?thesis by (cases "ev_ws s p"; cases "ev_ws s' p") (auto simp: rep_of_def)
qed

lemma clock_set:
  "tm_inv (s\<lparr>ev_mn_now := t\<rparr>) = tm_inv s" "pend_ok (s\<lparr>ev_mn_now := t\<rparr>) = pend_ok s" "tmap (s\<lparr>ev_mn_now := t\<rparr>) = tmap s"
  "pview (s\<lparr>ev_mn_now := t\<rparr>) = pview s" "rep_of (s\<lparr>ev_mn_now := t\<rparr>) p = rep_of s p"
proof -
  have "keys (s\<lparr>ev_mn_now := t\<rparr>) = keys s" by (auto simp: keys_def)
  then show "pend_ok (s\<lparr>ev_mn_now := t\<rparr>) = pend_ok s" "pview (s\<lparr>ev_mn_now := t\<rparr>) = pview s" by (simp_all add: pend_ok_def pview_def)
qed (simp_all add: tm_inv_def tmap_def rep_of_def)

lemma agenda_count:
  assumes "pend_ok s"
  shows "count_list (map pd_w (agenda_below NUMPRI s)) p = (if pview s p = None then 0 else 1)"
proof -
  have "pview s p \<noteq> None \<longleftrightarrow> p \<in> set (map pd_w (agenda_below NUMPRI s))"
  proof
    assume "pview s p \<noteq> None"
    then obtain v where "\<lparr>pd_w = p, pd_events = v\<rparr> \<in> set (agenda_below NUMPRI s)" using agenda_all[OF assms] by blast
    then show "p \<in> set (map pd_w (agenda_below NUMPRI s))" by force
  next
    assume "p \<in> set (map pd_w (agenda_below NUMPRI s))"
    then obtain e where e: "e \<in> set (agenda_below NUMPRI s)" "pd_w e = p" by auto
    then obtain r where "e \<in> set (agenda s r)" by (auto simp: agenda_below_set)
    then show "pview s p \<noteq> None" using agenda_entry(1)[OF assms, of e r] e(2) by simp
  qed
  moreover have "count_list xs p = (if p \<in> set xs then 1 else 0)" if "distinct xs" for xs :: "ptr list"
    using that by (induction xs) auto
  ultimately show ?thesis using agenda_below_distinct[OF assms, of NUMPRI] by simp
qed

lemma timer_round_ok:
  assumes "loop_idle s"
  shows "\<exists>s'. timer_round rnd t s = Some s' \<and> loop_idle s' \<and> (\<forall>p. rep_of s' p = rep_of s p) \<and>
    (\<forall>p. tmap s' p = Option.bind (tmap s p) (rearm rnd t (rep_of s p))) \<and>
    (\<forall>p. calls_of p s' = calls_of p s + (if \<exists>u. tmap s p = Some u \<and> u < t then 1 else 0))"
proof -
  let ?s = "s\<lparr>ev_mn_now := t\<rparr>"
  have inv: "tm_inv ?s" "pend_ok ?s" "pview ?s = Map.empty" using assms by (simp_all add: loop_idle_def clock_set)
  obtain s1 where s1: "timers_reify rnd ?s = Some s1" "tm_inv s1" "pend_ok s1" "keeps ?s s1" "tmap s1 = reified rnd ?s" "pview s1 = fired ?s"
    using timers_reify_ok[OF inv(1,2)] by blast
  obtain s2 where s2: "call_pending (plain_cb note_call) s1 = Some s2" "pend_ok s2" "qframe s1 s2" "pview s2 = Map.empty"
      "evst.more s2 = call_all note_call (agenda_below NUMPRI s1) (evst.more s1)"
    using call_pending_ok[OF s1(3)] by blast
  have t2: "tm_inv s2" "tmap s2 = tmap s1" using qframe_tm[OF s2(3)] s1(2) by simp_all
  have "rep_of s2 p = rep_of s p" for p using qframe_rep[OF s2(3), of p] keeps_rep[OF s1(4), of p] by (simp add: clock_set)
  moreover have "tmap s2 p = Option.bind (tmap s p) (rearm rnd t (rep_of s p))" for p
    by (cases "tmap s p") (simp_all add: t2(2) s1(5) reified_def clock_set next_due_def rearm_def)
  moreover have "calls_of p s2 = calls_of p s + (if \<exists>u. tmap s p = Some u \<and> u < t then 1 else 0)" for p
  proof -
    have "evst.more s1 = evst.more s" using s1(4) by (simp add: keeps_def)
    then have "calls_of p s2 = calls_of p s + count_list (map pd_w (agenda_below NUMPRI s1)) p"
      by (simp add: calls_of_def s2(5) note_calls comp_def count_list_append)
    moreover have "pview s1 p = None \<longleftrightarrow> \<not> (\<exists>u. tmap s p = Some u \<and> u < t)"
      using inv(3) by (cases "tmap s p") (simp_all add: s1(6) fired_def clock_set)
    ultimately show ?thesis unfolding agenda_count[OF s1(3)] by (cases "\<exists>u. tmap s p = Some u \<and> u < t") simp_all
  qed
  moreover have "timer_round rnd t s = Some s2" using s1(1) s2(1) by (simp add: timer_round_def)
  ultimately show ?thesis using t2(1) s2(2,4) by (intro exI[of _ s2]) (simp add: loop_idle_def)
qed

interpretation lt: timer_rounds loop_idle tmap rep_of calls_of rnd "timer_round rnd" for rnd
  by unfold_locales (rule timer_round_ok)

text \<open>New memory for a watcher.\<close>

lemma fresh_watcher:
  assumes "tm_inv s" "pend_ok s" "ev_ws s p = None" "p \<noteq> NULL" "w_pending w = 0"
  shows "tm_inv (s\<lparr>ev_ws := (ev_ws s)(p \<mapsto> w)\<rparr>)" "tmap (s\<lparr>ev_ws := (ev_ws s)(p \<mapsto> w)\<rparr>) = tmap s"
    "pend_ok (s\<lparr>ev_ws := (ev_ws s)(p \<mapsto> w)\<rparr>)" "pview (s\<lparr>ev_ws := (ev_ws s)(p \<mapsto> w)\<rparr>) = pview s"
proof -
  have "tmap s p = None"
  proof (rule ccontr)
    assume "tmap s p \<noteq> None"
    then obtain t where "tmap s p = Some t" by blast
    from tmap_watcher[OF assms(1) this] show False using assms(3) by simp
  qed
  from tm_outside[OF assms(1) this] show "tm_inv (s\<lparr>ev_ws := (ev_ws s)(p \<mapsto> w)\<rparr>)" "tmap (s\<lparr>ev_ws := (ev_ws s)(p \<mapsto> w)\<rparr>) = tmap s" .
  have k: "keys s p = None" using assms(3) by (simp add: keys_def)
  have ks: "keys (s\<lparr>ev_ws := (ev_ws s)(p \<mapsto> w)\<rparr>) = (keys s)(p \<mapsto> (0, None))" using assms(5) by (auto simp: keys_def pkey_def)
  have "pend_inv ((keys s)(p \<mapsto> (0, None))) (ev_pendings s) (ev_pendingcnt s)"
    unfolding pend_inv_def
  proof (intro conjI allI impI, goal_cases)
    case (1 q n x)
    then show ?case using assms(2) by (cases "q = p") (auto simp: pend_ok_def pend_inv_def)
  next
    case (2 q n x)
    then show ?case using assms(2) by (cases "q = p") (auto simp: pend_ok_def pend_inv_def)
  next
    case (3 r)
    then show ?case using assms(2) by (simp add: pend_ok_def pend_inv_def)
  next
    case (4 r i)
    then have "keys s (pd_w (ev_pendings s r ! i)) = Some (Suc i, Some r)" using pend_inv_free[OF assms(2)[unfolded pend_ok_def]] by simp
    with k show ?case by auto
  qed
  then show "pend_ok (s\<lparr>ev_ws := (ev_ws s)(p \<mapsto> w)\<rparr>)" by (simp add: pend_ok_def ks)
  show "pview (s\<lparr>ev_ws := (ev_ws s)(p \<mapsto> w)\<rparr>) = pview s" using k by (auto simp: pview_def ks pevents_def fun_eq_iff)
qed

lemma evt_timer_add_ok:
  fixes s :: loopst
  assumes idle: "loop_idle s" and p: "p \<noteq> NULL" "ev_ws s p = None" and w: "w_active w = 0" "w_pending w = 0" "0 \<le> w_repeat w"
  shows "\<exists>s'. evt_timer_add rnd p w s = Some (p, s') \<and> loop_idle s' \<and> tmap s' = (tmap s)(p \<mapsto> rnd (w_at w + ev_mn_now s)) \<and>
    rep_of s' p = w_repeat w \<and> calls_of p s' = calls_of p s"
proof -
  let ?s = "s\<lparr>ev_ws := (ev_ws s)(p \<mapsto> w)\<rparr>"
  have i: "tm_inv s" "pend_ok s" "pview s = Map.empty" using idle by (simp_all add: loop_idle_def)
  note f = fresh_watcher[OF i(1,2) p(2,1) w(2)]
  obtain s' where s': "ev_timer_start rnd p ?s = Some s'" "tm_inv s'" "pend_ok s'" "pview s' = pview ?s" "keeps ?s s'"
      "tmap s' = (tmap ?s)(p \<mapsto> rnd (w_at w + ev_mn_now ?s))"
    using ev_timer_start_ok[OF f(1,3) p(1), of w] w(1,3) by auto
  have "rep_of s' p = w_repeat w" using keeps_rep[OF s'(5), of p] by (simp add: rep_of_def)
  moreover have "evst.more s' = evst.more s" using s'(5) by (simp add: keeps_def)
  ultimately show ?thesis using s' f i(3) p(1) by (simp add: evt_timer_add_def loop_idle_def calls_of_def)
qed

text \<open>
  C14.  One pass over the timers serves exactly those that are due, whatever the rounding of times does: each timer that is due before the present time
  is pending with a timeout event, a repeating one is due again one period later (now, if that has passed too) and a one-shot
  one is gone; every other timer and every other pending event is as before.  The pass ends even when periods are shorter than the delay.
\<close>

theorem timers_reify_exact:
  assumes "tm_inv s" "pend_ok s"
  shows "\<exists>s'. timers_reify rnd s = Some s' \<and> tm_inv s' \<and> pend_ok s' \<and> tmap s' = reified rnd s \<and> pview s' = fired s"
  using timers_reify_ok[OF assms] by blast

text \<open>
  Calling the pending watchers calls every pending watcher once, with its events, and no other one: the list of the calls is
  the list of the entries, higher priorities first and the latest entry first inside a priority, names no watcher twice, and names exactly
  the pending ones.  Afterwards nothing is pending and the timers are as before.
\<close>

theorem call_pending_once:
  fixes s :: "'a evst_scheme"
  assumes "pend_ok s"
  shows "\<exists>s' es. call_pending (plain_cb f) s = Some s' \<and> evst.more s' = call_all f es (evst.more s) \<and>
    es = agenda_below NUMPRI s \<and> distinct (map pd_w es) \<and> (\<forall>p e. \<lparr>pd_w = p, pd_events = e\<rparr> \<in> set es \<longleftrightarrow> pview s p = Some e) \<and>
    pend_ok s' \<and> pview s' = Map.empty \<and> tmap s' = tmap s"
proof -
  obtain s' where "call_pending (plain_cb f) s = Some s'" "pend_ok s'" "qframe s s'" "pview s' = Map.empty"
      "evst.more s' = call_all f (agenda_below NUMPRI s) (evst.more s)"
    using call_pending_ok[OF assms] by blast
  then show ?thesis using agenda_below_distinct[OF assms] agenda_all[OF assms] qframe_tm(2)[of s s'] by (intro exI[of _ s'] exI[of _ "agenda_below NUMPRI s"]) simp
qed

text \<open>
  C12.  The periodic timers of the program (the collectors of packages and of blocks) go off for ever: started in a loop with nothing
  pending, such a timer is called in the rounds that a computation from its due time alone foretells, one call in each, and is
  still armed after any number of rounds.
\<close>

theorem evt_periodic_goes_off:
  fixes s :: loopst
  assumes "loop_idle s" "p \<noteq> NULL" "ev_ws s p = None" "0 < interval"
  shows "\<exists>s1 s'. evt_timer_add_periodic rnd p cb interval s = Some (p, s1) \<and> rounds (timer_round rnd) ts s1 = Some s' \<and> tmap s' p \<noteq> None \<and>
    calls_of p s' = calls_of p s + firings rnd (of_int interval) (rnd (ev_mn_now s)) ts"
proof -
  let ?w = "ev_timer_init cb 0 (of_int interval) zero_watcher"
  obtain s1 where s1: "evt_timer_add rnd p ?w s = Some (p, s1)" "loop_idle s1" "tmap s1 = (tmap s)(p \<mapsto> rnd (w_at ?w + ev_mn_now s))"
      "rep_of s1 p = w_repeat ?w" "calls_of p s1 = calls_of p s"
    using evt_timer_add_ok[OF assms(1-3), of ?w] assms(4) by (auto simp: ev_timer_init_def)
  have "tmap s1 p = Some (rnd (ev_mn_now s))" "rep_of s1 p = of_int interval" using s1(3,4) by (simp_all add: ev_timer_init_def)
  then have "\<exists>s'. rounds (timer_round rnd) ts s1 = Some s' \<and> loop_idle s' \<and> tmap s' p \<noteq> None \<and>
      calls_of p s' = calls_of p s1 + firings rnd (rep_of s1 p) (rnd (ev_mn_now s)) ts"
    by (intro lt.periodic_fires[OF s1(2)]) (use assms(4) in simp_all)
  then show ?thesis using \<open>rep_of s1 p = of_int interval\<close> s1(1,5) unfolding evt_timer_add_periodic_def by metis
qed

text \<open>
  A one-shot timer of the program is called once, in the first round after its time, and is then gone; before that it is not called.
\<close>

theorem evt_oneshot_goes_off_once:
  fixes s :: loopst
  assumes "loop_idle s" "p \<noteq> NULL" "ev_ws s p = None"
  shows "\<exists>s1 s'. evt_timer_add_oneshot rnd p cb timeout s = Some (p, s1) \<and> rounds (timer_round rnd) ts s1 = Some s' \<and>
    calls_of p s' = calls_of p s + (if \<exists>t \<in> set ts. rnd (of_int timeout + ev_mn_now s) < t then 1 else 0) \<and>
    tmap s' p = (if \<exists>t \<in> set ts. rnd (of_int timeout + ev_mn_now s) < t then None else Some (rnd (of_int timeout + ev_mn_now s)))"
proof -
  let ?w = "ev_timer_init cb (of_int timeout) 0 zero_watcher"
  obtain s1 where s1: "evt_timer_add rnd p ?w s = Some (p, s1)" "loop_idle s1" "tmap s1 = (tmap s)(p \<mapsto> rnd (w_at ?w + ev_mn_now s))"
      "rep_of s1 p = w_repeat ?w" "calls_of p s1 = calls_of p s"
    using evt_timer_add_ok[OF assms(1-3), of ?w] by (auto simp: ev_timer_init_def)
  have "tmap s1 p = Some (rnd (of_int timeout + ev_mn_now s))" "rep_of s1 p = 0" using s1(3,4) by (simp_all add: ev_timer_init_def)
  from lt.oneshot_fires_once[OF s1(2) this, where ts = ts and rnd = rnd] s1(1,5) show ?thesis unfolding evt_timer_add_oneshot_def by auto
qed

text \<open>
  Starting a timer and stopping it again leaves the set of timers, their times and the count of active watchers as they were; only an event that was pending for it is dropped.
\<close>

theorem ev_timer_start_stop:
  assumes "tm_inv s" "pend_ok s" "p \<noteq> NULL" "ev_ws s p = Some w" "w_active w = 0" "0 \<le> w_repeat w"
  shows "\<exists>s1 s'. ev_timer_start rnd p s = Some s1 \<and> tmap s1 = (tmap s)(p \<mapsto> rnd (w_at w + ev_mn_now s)) \<and> ev_timer_stop rnd p s1 = Some s' \<and>
    tm_inv s' \<and> pend_ok s' \<and> tmap s' = tmap s \<and> ev_activecnt s' = ev_activecnt s \<and> pview s' = (pview s)(p := None)"
proof -
  obtain s1 where s1: "ev_timer_start rnd p s = Some s1" "tm_inv s1" "pend_ok s1" "pview s1 = pview s"
      "tmap s1 = (tmap s)(p \<mapsto> rnd (w_at w + ev_mn_now s))" "ev_activecnt s1 = ev_activecnt s + 1"
    using ev_timer_start_ok[OF assms] by blast
  have "tmap s1 p = Some (rnd (w_at w + ev_mn_now s))" using s1(5) by simp
  moreover have "tmap s p = None"
  proof (rule ccontr)
    assume "tmap s p \<noteq> None"
    then obtain t where "tmap s p = Some t" by blast
    from tmap_watcher[OF assms(1) this] assms(4,5) show False by simp
  qed
  ultimately show ?thesis using ev_timer_stop_ok[OF s1(2,3), of p "rnd (w_at w + ev_mn_now s)" rnd] s1 by (auto simp: fun_upd_idem)
qed

section \<open>Examples\<close>

definition idle_loop :: loopst where
  "idle_loop = \<lparr>ev_ws = Map.empty, ev_pendings = (\<lambda>_. []), ev_pendingcnt = (\<lambda>_. 0), ev_timers = [], ev_timercnt = 0, ev_activecnt = 0,
     ev_mn_now = 100, \<dots> = []\<rparr>"

lemma idle_loop_idle: "tm_inv idle_loop" "pend_ok idle_loop" "loop_idle idle_loop"
proof -
  show "tm_inv idle_loop"
    by (simp add: idle_loop_def tm_inv_def theap_def heap_sized_def entries_def ordered_def indexed_def in_heap_def timed_def)
  show "pend_ok idle_loop" by (simp add: idle_loop_def pend_ok_def pend_inv_def keys_def)
  moreover have "pview idle_loop = Map.empty" by (simp add: idle_loop_def pview_def pevents_def keys_def fun_eq_iff)
  ultimately show "loop_idle idle_loop" using \<open>tm_inv idle_loop\<close> by (simp add: loop_idle_def)
qed

text \<open>A collector that runs every five seconds, three seconds after its start.\<close>

definition one_timer :: loopst where
  "one_timer = (case evt_timer_add_periodic id 8 1 5 idle_loop of Some (_, s) \<Rightarrow> s\<lparr>ev_mn_now := 103\<rparr> | None \<Rightarrow> idle_loop)"

lemma one_timer_ok: "loop_idle one_timer" "tmap one_timer = [8 \<mapsto> 100]" "rep_of one_timer 8 = 5" "ev_mn_now one_timer = 103"
proof -
  let ?w = "ev_timer_init 1 0 5 zero_watcher"
  have "\<exists>s'. evt_timer_add id 8 ?w idle_loop = Some (8, s') \<and> loop_idle s' \<and> tmap s' = (tmap idle_loop)(8 \<mapsto> id (w_at ?w + ev_mn_now idle_loop)) \<and>
      rep_of s' 8 = w_repeat ?w \<and> calls_of 8 s' = calls_of 8 idle_loop"
    by (rule evt_timer_add_ok[OF idle_loop_idle(3)]) (simp_all add: idle_loop_def ev_timer_init_def zero_watcher_def)
  then obtain s where s: "evt_timer_add_periodic id 8 1 5 idle_loop = Some (8, s)" "loop_idle s" "tmap s = [8 \<mapsto> 100]" "rep_of s 8 = 5"
    by (auto simp: evt_timer_add_periodic_def ev_timer_init_def idle_loop_def tmap_def entries_def)
  then show "loop_idle one_timer" "tmap one_timer = [8 \<mapsto> 100]" "rep_of one_timer 8 = 5" "ev_mn_now one_timer = 103"
    by (simp_all add: one_timer_def loop_idle_def clock_set)
qed

theorem timers_reify_exact_witness:
  "\<exists>s'. timers_reify id one_timer = Some s' \<and> tmap s' 8 = Some 105 \<and> pview s' 8 = Some EV_TIMEOUT"
proof -
  have "tm_inv one_timer" "pend_ok one_timer" "pview one_timer = Map.empty" using one_timer_ok(1) by (simp_all add: loop_idle_def)
  with timers_reify_exact[OF this(1,2), of id] one_timer_ok show ?thesis
    by (auto simp: reified_def fired_def next_due_def fed_def)
qed

lemma only_member: "(\<And>y. y \<in> set xs \<longleftrightarrow> y = x) \<Longrightarrow> distinct xs \<Longrightarrow> xs = [x]"
proof (cases xs)
  case (Cons y ys)
  assume h: "\<And>y. y \<in> set xs \<longleftrightarrow> y = x" "distinct xs"
  then have "y = x" "set ys \<subseteq> {x}" "x \<notin> set ys" using Cons by (auto, metis list.set_intros(1))
  then show ?thesis using Cons by (cases ys) auto
qed auto

theorem call_pending_once_witness:
  "\<exists>s s'. timers_reify id one_timer = Some s \<and> call_pending (plain_cb note_call) s = Some s' \<and> evst.more s' = evst.more s @ [(8, EV_TIMEOUT)] \<and>
    pview s' = Map.empty"
proof -
  have i: "tm_inv one_timer" "pend_ok one_timer" "pview one_timer = Map.empty" using one_timer_ok(1) by (simp_all add: loop_idle_def)
  obtain s where s: "timers_reify id one_timer = Some s" "pend_ok s" "pview s = fired one_timer" using timers_reify_ok[OF i(1,2), of id] by blast
  obtain s' es where e: "call_pending (plain_cb note_call) s = Some s'" "evst.more s' = call_all note_call es (evst.more s)" "distinct (map pd_w es)"
      "\<forall>p e. \<lparr>pd_w = p, pd_events = e\<rparr> \<in> set es \<longleftrightarrow> pview s p = Some e" "pview s' = Map.empty"
    using call_pending_once[OF s(2), of note_call] by blast
  let ?x = "\<lparr>pd_w = 8, pd_events = EV_TIMEOUT\<rparr>"
  have v: "pview s p = (if p = 8 then Some EV_TIMEOUT else None)" for p
    using one_timer_ok i(3) by (simp add: s(3) fired_def fed_def)
  have "y \<in> set es \<longleftrightarrow> y = ?x" for y
    using e(4)[rule_format, of "pd_w y" "pd_events y"] by (cases y) (auto simp: v split: if_splits)
  moreover have "distinct es" using e(3) by (simp add: distinct_map)
  ultimately have "es = [?x]" by (rule only_member)
  with s(1) e show ?thesis by (auto simp: note_calls)
qed

theorem evt_periodic_goes_off_witness:
  "\<exists>s1 s'. evt_timer_add_periodic id 8 1 5 idle_loop = Some (8, s1) \<and> rounds (timer_round id) [100, 101, 104, 106, 130] s1 = Some s' \<and>
    tmap s' 8 \<noteq> None \<and> calls_of 8 s' = 3"
proof -
  have "\<exists>s1 s'. evt_timer_add_periodic id 8 1 5 idle_loop = Some (8, s1) \<and> rounds (timer_round id) [100, 101, 104, 106, 130] s1 = Some s' \<and>
      tmap s' 8 \<noteq> None \<and> calls_of 8 s' = calls_of 8 idle_loop + firings id (of_int 5) (id (ev_mn_now idle_loop)) [100, 101, 104, 106, 130]"
    by (rule evt_periodic_goes_off[OF idle_loop_idle(3)]) (simp_all add: idle_loop_def)
  then show ?thesis by (auto simp: idle_loop_def calls_of_def)
qed

theorem evt_oneshot_goes_off_once_witness:
  "\<exists>s1 s'. evt_timer_add_oneshot id 8 1 5 idle_loop = Some (8, s1) \<and> rounds (timer_round id) [104, 106, 130] s1 = Some s' \<and>
    calls_of 8 s' = 1 \<and> tmap s' 8 = None"
  using evt_oneshot_goes_off_once[OF idle_loop_idle(3), of 8 id 1 5 "[104, 106, 130]"] by (simp add: idle_loop_def calls_of_def)

theorem ev_timer_start_stop_witness:
  "\<exists>s1 s'. ev_timer_start id 8 (idle_loop\<lparr>ev_ws := [8 \<mapsto> ev_timer_init 1 0 5 zero_watcher]\<rparr>) = Some s1 \<and> tmap s1 8 = Some 100 \<and>
    ev_timer_stop id 8 s1 = Some s' \<and> tmap s' = Map.empty \<and> ev_activecnt s' = 0"
proof -
  let ?w = "ev_timer_init 1 0 5 zero_watcher" let ?s = "idle_loop\<lparr>ev_ws := (ev_ws idle_loop)(8 \<mapsto> ?w)\<rparr>"
  have n: "ev_ws idle_loop 8 = None" "w_pending ?w = 0" "8 \<noteq> NULL" by (simp_all add: idle_loop_def ev_timer_init_def)
  note f = fresh_watcher[OF idle_loop_idle(1,2) n(1,3,2)]
  have "\<exists>s1 s'. ev_timer_start id 8 ?s = Some s1 \<and> tmap s1 = (tmap ?s)(8 \<mapsto> id (w_at ?w + ev_mn_now ?s)) \<and> ev_timer_stop id 8 s1 = Some s' \<and>
      tm_inv s' \<and> pend_ok s' \<and> tmap s' = tmap ?s \<and> ev_activecnt s' = ev_activecnt ?s \<and> pview s' = (pview ?s)(8 := None)"
    by (rule ev_timer_start_stop[OF f(1,3) n(3)]) (simp_all add: ev_timer_init_def)
  moreover have "tmap ?s = Map.empty" "ev_activecnt ?s = 0" "ev_mn_now ?s = 100" "w_at ?w = 0" "ev_ws idle_loop = Map.empty"
    by (simp_all add: idle_loop_def tmap_def entries_def ev_timer_init_def)
  ultimately show ?thesis by auto
qed

end
