(* ===== verification/Ev_Io.thy ===== *)
theory Ev_Io
  imports Ev_Loop
begin

text \<open>
  Watchers of file descriptors, \<open>src/ev.c\<close>.

  The watchers of a descriptor form a list through their \<open>next\<close> fields.  Starting or stopping one
  enters the descriptor into the array of changes; \<open>fd_reify\<close> tells the backend about them.  A failed
  assertion aborts the process.  The invariant \<open>io_ok\<close> extends that of the timers; the check the
  library has of its own state, \<open>ev_loop_verify\<close>, follows from it.
\<close>

unbundle bit_operations_syntax

section \<open>State\<close>

record ANFD =
  an_head :: ptr
  an_events :: int
  an_reify :: int
  an_emask :: int
  an_egen :: u32

record 'k iost = evst +
  io_anfds :: "ANFD list"
  io_fdchanges :: "int list"
  io_fdchangecnt :: nat
  io_postfork :: bool
  io_eventmax :: nat
  io_kern :: 'k

definition zero_ANFD :: ANFD where
  "zero_ANFD = \<lparr>an_head = NULL, an_events = 0, an_reify = 0, an_emask = 0, an_egen = 0\<rparr>"

definition EV_IOFDSET :: int where "EV_IOFDSET = 0x80"

text \<open>\<open>0x80000000\<close> as an \<open>int\<close>\<close>

definition EV_ERROR :: int where "EV_ERROR = - 0x80000000"

definition uchar :: "int \<Rightarrow> int" where
  "uchar i = take_bit 8 i"

definition upd_anfd :: "int \<Rightarrow> (ANFD \<Rightarrow> ANFD) \<Rightarrow> ('k, 'a) iost_scheme \<Rightarrow> ('k, 'a) iost_scheme option" where
  "upd_anfd fd f s = do {
     a \<leftarrow> arr_get (io_anfds s) fd;
     xs \<leftarrow> arr_set (io_anfds s) fd (f a);
     Some (s\<lparr>io_anfds := xs\<rparr>) }"

section \<open>Events of a descriptor\<close>

partial_function (option) fd_event_from :: "ptr \<Rightarrow> int \<Rightarrow> 'a evst_scheme \<Rightarrow> 'a evst_scheme option" where
  "fd_event_from p revents s =
     (if p = NULL then Some s
      else do {
        w \<leftarrow> deref (ev_ws s) p;
        let ev = w_events w AND revents;
        s \<leftarrow> (if ev \<noteq> 0 then ev_feed_event p ev s else Some s);
        w \<leftarrow> deref (ev_ws s) p;
        fd_event_from (w_next w) revents s })"

definition fd_event :: "int \<Rightarrow> int \<Rightarrow> ('k, 'a) iost_scheme \<Rightarrow> ('k, 'a) iost_scheme option" where
  "fd_event fd revents s = do {
     a \<leftarrow> arr_get (io_anfds s) fd;
     fd_event_from (an_head a) revents s }"

definition ev_feed_fd_event :: "int \<Rightarrow> int \<Rightarrow> ('k, 'a) iost_scheme \<Rightarrow> ('k, 'a) iost_scheme option" where
  "ev_feed_fd_event fd revents s = (if fd \<ge> 0 \<and> fd < int (length (io_anfds s)) then fd_event fd revents s else Some s)"

section \<open>Changes\<close>

partial_function (option) wlist_events :: "ptr \<Rightarrow> int \<Rightarrow> wmem \<Rightarrow> int option" where
  "wlist_events p events ws =
     (if p = NULL then Some events
      else do {
        w \<leftarrow> deref ws p;
        wlist_events (w_next w) (events OR uchar (w_events w)) ws })"

text \<open>\<open>modify fd oev nev\<close> is the backend.\<close>

definition reify_fd :: "(int \<Rightarrow> int \<Rightarrow> int \<Rightarrow> ('k, 'a) iost_scheme \<Rightarrow> ('k, 'a) iost_scheme option) \<Rightarrow> int \<Rightarrow> ('k, 'a) iost_scheme \<Rightarrow> ('k, 'a) iost_scheme option" where
  "reify_fd modify fd s = do {
     a \<leftarrow> arr_get (io_anfds s) fd;
     events \<leftarrow> wlist_events (an_head a) 0 (ev_ws s);
     let o_events = an_events a;
     let o_reify = an_reify a;
     s \<leftarrow> upd_anfd fd (\<lambda>a. a\<lparr>an_reify := 0, an_events := events\<rparr>) s;
     if o_events \<noteq> events \<or> o_reify AND EV_IOFDSET \<noteq> 0 then modify fd o_events events s else Some s }"

partial_function (option) reify_from :: "(int \<Rightarrow> int \<Rightarrow> int \<Rightarrow> ('k, 'a) iost_scheme \<Rightarrow> ('k, 'a) iost_scheme option) \<Rightarrow> nat \<Rightarrow> ('k, 'a) iost_scheme \<Rightarrow> ('k, 'a) iost_scheme option" where
  "reify_from modify i s =
     (if i < io_fdchangecnt s then do {
        fd \<leftarrow> arr_get (io_fdchanges s) (int i);
        s \<leftarrow> reify_fd modify fd s;
        reify_from modify (i + 1) s }
      else Some s)"

definition fd_reify :: "(int \<Rightarrow> int \<Rightarrow> int \<Rightarrow> ('k, 'a) iost_scheme \<Rightarrow> ('k, 'a) iost_scheme option) \<Rightarrow> ('k, 'a) iost_scheme \<Rightarrow> ('k, 'a) iost_scheme option" where
  "fd_reify modify s = do {
     s \<leftarrow> reify_from modify 0 s;
     Some (s\<lparr>io_fdchangecnt := 0\<rparr>) }"

definition fd_change :: "int \<Rightarrow> int \<Rightarrow> ('k, 'a) iost_scheme \<Rightarrow> ('k, 'a) iost_scheme option" where
  "fd_change fd flags s = do {
     a \<leftarrow> arr_get (io_anfds s) fd;
     let reify = an_reify a;
     s \<leftarrow> upd_anfd fd (\<lambda>a. a\<lparr>an_reify := uchar (an_reify a OR flags)\<rparr>) s;
     if reify = 0 then do {
       let n = io_fdchangecnt s + 1;
       xs \<leftarrow> arr_set (array_needsize 4 0 n (io_fdchanges s)) (int n - 1) fd;
       Some (s\<lparr>io_fdchangecnt := n, io_fdchanges := xs\<rparr>) }
     else Some s }"

section \<open>Starting and stopping\<close>

definition wlist_add :: "ptr \<Rightarrow> ptr \<Rightarrow> wmem \<Rightarrow> (ptr \<times> wmem) option" where
  "wlist_add head elem ws = do {
     ws \<leftarrow> upd_at elem (\<lambda>w. w\<lparr>w_next := head\<rparr>) ws;
     Some (elem, ws) }"

text \<open>\<open>loc\<close> is where \<open>head\<close> points: the head of the list or, with \<open>Some q\<close>, the \<open>next\<close> field of \<open>q\<close>.\<close>

partial_function (option) wlist_del_at :: "ptr option \<Rightarrow> ptr \<Rightarrow> ptr \<Rightarrow> wmem \<Rightarrow> (ptr \<times> wmem) option" where
  "wlist_del_at loc head elem ws = do {
     cur \<leftarrow> (case loc of None \<Rightarrow> Some head | Some q \<Rightarrow> map_option w_next (deref ws q));
     if cur = NULL then Some (head, ws)
     else if cur = elem then do {
       e \<leftarrow> deref ws elem;
       case loc of None \<Rightarrow> Some (w_next e, ws)
       | Some q \<Rightarrow> do { ws \<leftarrow> upd_at q (\<lambda>w. w\<lparr>w_next := w_next e\<rparr>) ws; Some (head, ws) } }
     else wlist_del_at (Some cur) head elem ws }"

definition wlist_del :: "ptr \<Rightarrow> ptr \<Rightarrow> wmem \<Rightarrow> (ptr \<times> wmem) option" where
  "wlist_del head elem ws = wlist_del_at None head elem ws"

definition ev_io_start :: "ptr \<Rightarrow> ('k, 'a) iost_scheme \<Rightarrow> ('k, 'a) iost_scheme option" where
  "ev_io_start p s = do {
     w \<leftarrow> deref (ev_ws s) p;
     let fd = w_fd w;
     if w_active w \<noteq> 0 then Some s
     else if \<not> fd \<ge> 0 \<or> w_events w AND NOT (EV_IOFDSET OR EV_READ OR EV_WRITE) \<noteq> 0 then None
     else do {
       s \<leftarrow> ev_start p 1 s;
       let s = s\<lparr>io_anfds := array_needsize 16 zero_ANFD (nat (fd + 1)) (io_anfds s)\<rparr>;
       a \<leftarrow> arr_get (io_anfds s) fd;
       (h, ws) \<leftarrow> wlist_add (an_head a) p (ev_ws s);
       s \<leftarrow> upd_anfd fd (\<lambda>a. a\<lparr>an_head := h\<rparr>) (s\<lparr>ev_ws := ws\<rparr>);
       s \<leftarrow> fd_change fd (w_events w AND (EV_IOFDSET OR 1)) s;
       ws \<leftarrow> upd_at p (\<lambda>w. w\<lparr>w_events := w_events w AND NOT EV_IOFDSET\<rparr>) (ev_ws s);
       Some (s\<lparr>ev_ws := ws\<rparr>) } }"

definition ev_io_stop :: "ptr \<Rightarrow> ('k, 'a) iost_scheme \<Rightarrow> ('k, 'a) iost_scheme option" where
  "ev_io_stop p s = do {
     s \<leftarrow> clear_pending p s;
     w \<leftarrow> deref (ev_ws s) p;
     if w_active w = 0 then Some s
     else do {
       a \<leftarrow> arr_get (io_anfds s) (w_fd w);
       (h, ws) \<leftarrow> wlist_del (an_head a) p (ev_ws s);
       s \<leftarrow> upd_anfd (w_fd w) (\<lambda>a. a\<lparr>an_head := h\<rparr>) (s\<lparr>ev_ws := ws\<rparr>);
       s \<leftarrow> ev_stop p s;
       w \<leftarrow> deref (ev_ws s) p;
       fd_change (w_fd w) 1 s } }"

partial_function (option) fd_kill :: "int \<Rightarrow> ('k, 'a) iost_scheme \<Rightarrow> ('k, 'a) iost_scheme option" where
  "fd_kill fd s = do {
     a \<leftarrow> arr_get (io_anfds s) fd;
     if an_head a = NULL then Some s
     else do {
       s \<leftarrow> ev_io_stop (an_head a) s;
       s \<leftarrow> ev_feed_event (an_head a) (EV_ERROR OR EV_READ OR EV_WRITE) s;
       fd_kill fd s } }"

section \<open>Lists of watchers\<close>

fun wlist :: "wmem \<Rightarrow> ptr \<Rightarrow> ptr list \<Rightarrow> bool" where
  "wlist ws p [] \<longleftrightarrow> p = NULL"
| "wlist ws p (x # xs) \<longleftrightarrow> p = x \<and> x \<noteq> NULL \<and> (\<exists>w. ws x = Some w \<and> wlist ws (w_next w) xs)"

lemma wlist_cong: "(\<And>x. x \<in> set xs \<Longrightarrow> map_option w_next (ws' x) = map_option w_next (ws x)) \<Longrightarrow> wlist ws' p xs = wlist ws p xs"
proof (induction xs arbitrary: p)
  case (Cons x xs)
  have "map_option w_next (ws' x) = map_option w_next (ws x)" using Cons.prems by simp
  then show ?case using Cons by (cases "ws x"; cases "ws' x") auto
qed simp

definition wev :: "wmem \<Rightarrow> ptr \<Rightarrow> int" where
  "wev ws x = (case ws x of None \<Rightarrow> 0 | Some w \<Rightarrow> w_events w)"

text \<open>What the watchers of a list want together.\<close>

definition want :: "wmem \<Rightarrow> ptr list \<Rightarrow> int" where
  "want ws xs = fold (\<lambda>x e. e OR uchar (wev ws x)) xs 0"

lemma want_Nil [simp]: "want ws [] = 0"
  by (simp add: want_def)

lemma want_cong: "(\<And>x. x \<in> set xs \<Longrightarrow> wev ws' x = wev ws x) \<Longrightarrow> want ws' xs = want ws xs"
  unfolding want_def by (intro fold_cong) simp_all

lemma wlist_events_ok: "wlist ws p xs \<Longrightarrow> wlist_events p e ws = Some (fold (\<lambda>x e. e OR uchar (wev ws x)) xs e)"
proof (induction xs arbitrary: p e)
  case (Cons x xs)
  then obtain w where "p = x" "x \<noteq> NULL" "ws x = Some w" "wlist ws (w_next w) xs" by auto
  then show ?case using Cons.IH[of "w_next w" "e OR uchar (w_events w)"] by (subst wlist_events.simps) (simp add: mem_simps wev_def)
qed (simp add: wlist_events.simps)

lemma wlist_head: "wlist ws p xs \<Longrightarrow> p = hdd NULL xs"
  by (cases xs) auto

text \<open>Fields that a change of pending events leaves alone.\<close>

lemma qframe_field:
  assumes "qframe s s'" "\<And>w n. f (w\<lparr>w_pending := n\<rparr>) = f w"
  shows "map_option f (ev_ws s' q) = map_option f (ev_ws s q)"
proof -
  have "map_option f (map_option (\<lambda>w. w\<lparr>w_pending := 0\<rparr>) (ev_ws s' q)) = map_option f (map_option (\<lambda>w. w\<lparr>w_pending := 0\<rparr>) (ev_ws s q))"
    using assms(1) by (simp add: qframe_def)
  then show ?thesis by (simp add: option.map_comp comp_def assms(2))
qed

lemma wev_eq: "map_option w_events (ws' q) = map_option w_events (ws q) \<Longrightarrow> wev ws' q = wev ws q"
  by (cases "ws q"; cases "ws' q") (auto simp: wev_def)

definition feed_all :: "wmem \<Rightarrow> ptr list \<Rightarrow> int \<Rightarrow> (ptr \<rightharpoonup> int) \<Rightarrow> ptr \<rightharpoonup> int" where
  "feed_all ws xs r v q = (let e = wev ws q AND r in
     if q \<in> set xs \<and> e \<noteq> 0 then Some (case v q of None \<Rightarrow> e | Some d \<Rightarrow> d OR e) else v q)"

lemma tframe_trans: "tframe s s' \<Longrightarrow> tframe s' s'' \<Longrightarrow> tframe s s''"
  by (simp add: tframe_def qframe_def)

lemma tframe_refl: "tframe s s"
  by (simp add: tframe_def qframe_def)

lemma fd_event_from_ok:
  assumes "pend_ok s" "wlist (ev_ws s) p xs" "distinct xs" "\<And>x. x \<in> set xs \<Longrightarrow> \<exists>w pri. ev_ws s x = Some w \<and> ABSPRI w = Some pri"
  shows "\<exists>s'. fd_event_from p r s = Some s' \<and> pend_ok s' \<and> tframe s s' \<and> pview s' = feed_all (ev_ws s) xs r (pview s)"
  using assms
proof (induction xs arbitrary: p s)
  case Nil
  then show ?case by (simp add: fd_event_from.simps tframe_refl feed_all_def fun_eq_iff Let_def)
next
  case (Cons x xs)
  obtain w pri where w: "p = x" "x \<noteq> NULL" "ev_ws s x = Some w" "wlist (ev_ws s) (w_next w) xs" "ABSPRI w = Some pri" using Cons.prems(2,4) by force
  let ?e = "w_events w AND r"
  obtain s1 where s1: "(if ?e \<noteq> 0 then ev_feed_event x ?e s else Some s) = Some s1" "pend_ok s1" "tframe s s1"
      "pview s1 = (if ?e \<noteq> 0 then (pview s)(x \<mapsto> (case pview s x of None \<Rightarrow> ?e | Some d \<Rightarrow> d OR ?e)) else pview s)"
    using ev_feed_event_ok[OF Cons.prems(1) w(2,3,5), of ?e] Cons.prems(1) by (cases "?e = 0") (auto simp: tframe_refl)
  have q: "qframe s s1" using s1(3) by (simp add: tframe_def)
  have nx: "map_option w_next (ev_ws s1 y) = map_option w_next (ev_ws s y)" for y by (rule qframe_field[OF q]) simp
  obtain w1 where w1: "ev_ws s1 x = Some w1" "w_next w1 = w_next w" using nx[of x] w(3) by (auto simp: map_option_eq_Some)
  have ev: "wev (ev_ws s1) y = wev (ev_ws s) y" for y by (rule wev_eq, rule qframe_field[OF q]) simp
  have l: "wlist (ev_ws s1) (w_next w) xs" using w(4) wlist_cong[where ws = "ev_ws s" and ws' = "ev_ws s1", OF nx] by simp
  have pr: "\<exists>w pri. ev_ws s1 y = Some w \<and> ABSPRI w = Some pri" if "y \<in> set xs" for y
  proof -
    have "map_option ABSPRI (ev_ws s1 y) = map_option ABSPRI (ev_ws s y)" by (rule qframe_field[OF q]) simp
    with Cons.prems(4)[of y] that show ?thesis by (auto simp: map_option_eq_Some)
  qed
  obtain s' where s': "fd_event_from (w_next w) r s1 = Some s'" "pend_ok s'" "tframe s1 s'" "pview s' = feed_all (ev_ws s1) xs r (pview s1)"
    using Cons.IH[OF s1(2) l _ pr] Cons.prems(3) by auto
  have "wev (ev_ws s) x = w_events w" using w(3) by (simp add: wev_def)
  then have "feed_all (ev_ws s1) xs r (pview s1) q = feed_all (ev_ws s) (x # xs) r (pview s) q" for q
    using Cons.prems(3) by (cases "q = x") (auto simp: feed_all_def ev s1(4) Let_def)
  moreover have "fd_event_from p r s = Some s'" using w s1(1) w1 s'(1) by (subst fd_event_from.simps) (auto simp: mem_simps Let_def split: if_splits)
  ultimately show ?case using s' tframe_trans[OF s1(3) s'(3)] by (simp add: fun_eq_iff)
qed

section \<open>The invariant\<close>

lemma iost_more:
  fixes s s' :: "('k, 'a) iost_scheme"
  assumes "evst.more s' = evst.more s"
  shows "io_anfds s' = io_anfds s" "io_fdchanges s' = io_fdchanges s" "io_fdchangecnt s' = io_fdchangecnt s" "io_postfork s' = io_postfork s"
    "io_eventmax s' = io_eventmax s" "io_kern s' = io_kern s" "iost.more s' = iost.more s"
  using assms by (cases s; cases s'; simp)+

text \<open>A watcher that waits for events of \<open>fd\<close>.\<close>

definition io_watcher :: "nat \<Rightarrow> watcher \<Rightarrow> bool" where
  "io_watcher fd w \<longleftrightarrow> w_active w = 1 \<and> w_fd w = int fd \<and> ABSPRI w \<noteq> None \<and> w_events w \<in> {0..3}"

definition io_list :: "wmem \<Rightarrow> nat \<Rightarrow> ANFD \<Rightarrow> ptr list \<Rightarrow> bool" where
  "io_list ws fd a xs \<longleftrightarrow> wlist ws (an_head a) xs \<and> distinct xs \<and> (\<forall>x \<in> set xs. \<exists>w. ws x = Some w \<and> io_watcher fd w)"

definition io_lists :: "(nat \<Rightarrow> ptr list) \<Rightarrow> ('k, 'a) iost_scheme \<Rightarrow> bool" where
  "io_lists L s \<longleftrightarrow> (\<forall>fd. if fd < length (io_anfds s) then io_list (ev_ws s) fd (io_anfds s ! fd) (L fd) else L fd = [])"

lemma fd_event_ok:
  fixes s :: "('k, 'a) iost_scheme"
  assumes "pend_ok s" "io_lists L s" "fd < length (io_anfds s)"
  shows "\<exists>s'. fd_event (int fd) r s = Some s' \<and> pend_ok s' \<and> tframe s s' \<and> pview s' = feed_all (ev_ws s) (L fd) r (pview s)"
proof -
  have "io_list (ev_ws s) fd (io_anfds s ! fd) (L fd)" using assms(2,3) by (simp add: io_lists_def split: if_splits)
  then show ?thesis using fd_event_from_ok[OF assms(1), of "an_head (io_anfds s ! fd)" "L fd" r] assms(3)
    by (force simp: fd_event_def io_list_def io_watcher_def)
qed

lemma wlist_outside: "r \<notin> set xs \<Longrightarrow> wlist (ws(r \<mapsto> w)) p xs = wlist ws p xs"
  by (rule wlist_cong) auto

text \<open>Only links were changed, and only those of \<open>xs\<close> without \<open>p\<close>.\<close>

definition relinked :: "ptr \<Rightarrow> ptr list \<Rightarrow> wmem \<Rightarrow> wmem \<Rightarrow> bool" where
  "relinked p xs ws ws' \<longleftrightarrow> ws' p = ws p \<and> (\<forall>q. q \<notin> set xs \<longrightarrow> ws' q = ws q) \<and>
     (\<forall>q. map_option (\<lambda>w. w\<lparr>w_next := 0\<rparr>) (ws' q) = map_option (\<lambda>w. w\<lparr>w_next := 0\<rparr>) (ws q))"

lemma wlist_del_at_ok:
  assumes "wlist ws (w_next wq) ys" "ws q = Some wq" "q \<noteq> NULL" "distinct (q # ys)" "p \<in> set ys"
  shows "\<exists>ws'. wlist_del_at (Some q) h p ws = Some (h, ws') \<and> wlist ws' q (q # remove1 p ys) \<and> relinked p (q # ys) ws ws'"
  using assms
proof (induction ys arbitrary: q wq)
  case (Cons y ys)
  obtain wy where y: "w_next wq = y" "y \<noteq> NULL" "ws y = Some wy" "wlist ws (w_next wy) ys" using Cons.prems(1) by auto
  have qy: "q \<noteq> y" "q \<notin> set ys" "y \<notin> set ys" "distinct ys" using Cons.prems(4) by auto
  show ?case
  proof (cases "y = p")
    case True
    let ?ws = "ws(q \<mapsto> wq\<lparr>w_next := w_next wy\<rparr>)"
    have "wlist ?ws q (q # remove1 p (y # ys))" using y(4) qy Cons.prems(3) True by (simp add: wlist_outside)
    moreover have "wlist_del_at (Some q) h p ws = Some (h, ?ws)"
      using Cons.prems(2,3) y True by (subst wlist_del_at.simps) (simp add: mem_simps)
    moreover have "relinked p (q # y # ys) ws ?ws" using Cons.prems(2) qy True by (simp add: relinked_def)
    ultimately show ?thesis by blast
  next
    case False
    have py: "p \<in> set ys" "distinct (y # ys)" using Cons.prems(4,5) False by simp_all
    obtain ws' where r: "wlist_del_at (Some y) h p ws = Some (h, ws')" "wlist ws' y (y # remove1 p ys)" "relinked p (y # ys) ws ws'"
      using Cons.IH[OF y(4,3,2) py(2,1)] by blast
    have "ws' q = Some wq" using r(3) qy Cons.prems(2) by (simp add: relinked_def)
    then have "wlist ws' q (q # remove1 p (y # ys))" using r(2) Cons.prems(3) y(1) False by simp
    moreover have "wlist_del_at (Some q) h p ws = wlist_del_at (Some y) h p ws"
      using Cons.prems(2,3) y False by (subst wlist_del_at.simps) (simp add: mem_simps)
    moreover have "relinked p (q # y # ys) ws ws'" using r(3) by (simp add: relinked_def)
    ultimately show ?thesis using r(1) by auto
  qed
qed simp

lemma wlist_del_ok:
  assumes "wlist ws h xs" "distinct xs" "p \<in> set xs"
  shows "\<exists>h' ws'. wlist_del h p ws = Some (h', ws') \<and> wlist ws' h' (remove1 p xs) \<and> relinked p xs ws ws'"
proof -
  obtain x ys where xs: "xs = x # ys" using assms(3) by (cases xs) auto
  obtain w where x: "h = x" "x \<noteq> NULL" "ws x = Some w" "wlist ws (w_next w) ys" using assms(1) xs by auto
  show ?thesis
  proof (cases "x = p")
    case True
    then show ?thesis using x xs by (simp add: wlist_del_def wlist_del_at.simps[of None] mem_simps relinked_def)
  next
    case False
    then have p: "p \<in> set ys" using assms(3) xs by simp
    obtain ws' where "wlist_del_at (Some x) h p ws = Some (h, ws')" "wlist ws' x (x # remove1 p ys)" "relinked p (x # ys) ws ws'"
      using wlist_del_at_ok[OF x(4,3,2) assms(2)[unfolded xs] p, of h] by blast
    moreover have "wlist_del h p ws = wlist_del_at (Some x) h p ws" using x(1,2) False by (simp add: wlist_del_def wlist_del_at.simps[of None])
    ultimately show ?thesis using xs x(1) False by auto
  qed
qed

section \<open>The array of changes\<close>

definition changes :: "nat \<Rightarrow> ('k, 'a) iost_scheme \<Rightarrow> int list" where
  "changes i s = drop i (take (io_fdchangecnt s) (io_fdchanges s))"

text \<open>
  Descriptors with a mark are in the array; for all others the events that the backend was told
  are those that are wanted.  A descriptor may be in the array twice.
\<close>

definition chg_ok :: "(nat \<Rightarrow> ptr list) \<Rightarrow> nat \<Rightarrow> ('k, 'a) iost_scheme \<Rightarrow> bool" where
  "chg_ok L i s \<longleftrightarrow> i \<le> io_fdchangecnt s \<and> io_fdchangecnt s \<le> length (io_fdchanges s) \<and>
     set (changes i s) \<subseteq> {0 ..< int (length (io_anfds s))} \<and>
     (\<forall>fd < length (io_anfds s). (an_reify (io_anfds s ! fd) \<noteq> 0 \<longrightarrow> int fd \<in> set (changes i s)) \<and>
        (int fd \<notin> set (changes i s) \<longrightarrow> an_events (io_anfds s ! fd) = want (ev_ws s) (L fd)))"

definition kept :: "ANFD \<Rightarrow> int \<times> int \<times> u32" where
  "kept a = (an_events a, an_emask a, an_egen a)"

lemma kept_simps [simp]: "kept (a\<lparr>an_head := h\<rparr>) = kept a" "kept (a\<lparr>an_reify := r\<rparr>) = kept a"
  by (simp_all add: kept_def)

lemma upd_anfd_ok: "fd < length (io_anfds s) \<Longrightarrow> upd_anfd (int fd) f s = Some (s\<lparr>io_anfds := (io_anfds s)[fd := f (io_anfds s ! fd)]\<rparr>)"
  by (simp add: upd_anfd_def)

lemma uchar_or_1: "uchar (r OR 1) \<noteq> 0"
proof
  assume "uchar (r OR 1) = 0"
  then have "\<not> bit (uchar (r OR 1)) 0" by simp
  then show False by (simp add: uchar_def bit_take_bit_iff bit_or_iff)
qed

lemma fd_change_ok:
  fixes s :: "('k, 'a) iost_scheme"
  assumes "fd < length (io_anfds s)" "i \<le> io_fdchangecnt s" "io_fdchangecnt s \<le> length (io_fdchanges s)"
  shows "\<exists>s'. fd_change (int fd) flags s = Some s' \<and> evst.truncate s' = evst.truncate s \<and> io_kern s' = io_kern s \<and>
    io_postfork s' = io_postfork s \<and> io_eventmax s' = io_eventmax s \<and> iost.more s' = iost.more s \<and>
    io_anfds s' = (io_anfds s)[fd := (io_anfds s ! fd)\<lparr>an_reify := uchar (an_reify (io_anfds s ! fd) OR flags)\<rparr>] \<and>
    changes i s' = changes i s @ (if an_reify (io_anfds s ! fd) = 0 then [int fd] else []) \<and>
    i \<le> io_fdchangecnt s' \<and> io_fdchangecnt s' \<le> length (io_fdchanges s')"
proof (cases "an_reify (io_anfds s ! fd) = 0")
  case False
  then show ?thesis using assms by (simp add: fd_change_def upd_anfd_ok changes_def evst.defs)
next
  case True
  let ?n = "io_fdchangecnt s" let ?xs = "array_needsize 4 0 (Suc ?n) (io_fdchanges s)"
  have a: "Suc ?n \<le> length ?xs" "\<forall>j < ?n. ?xs ! j = io_fdchanges s ! j"
    using array_needsize_ok[where elem = 4 and n = "Suc ?n" and b = 0 and xs = "io_fdchanges s"] assms(3) by auto
  then have t: "take ?n ?xs = take ?n (io_fdchanges s)" using assms(3) by (intro nth_equalityI) auto
  have "take (Suc ?n) (?xs[?n := int fd]) = take ?n (io_fdchanges s) @ [int fd]"
    using a(1) by (simp add: take_Suc_conv_app_nth t)
  moreover have "fd_change (int fd) flags s = Some (s\<lparr>io_anfds := (io_anfds s)[fd := (io_anfds s ! fd)\<lparr>an_reify := uchar (an_reify (io_anfds s ! fd) OR flags)\<rparr>],
      io_fdchangecnt := Suc ?n, io_fdchanges := ?xs[?n := int fd]\<rparr>)"
    using True assms a(1) by (simp add: fd_change_def upd_anfd_ok)
  ultimately show ?thesis using assms a True by (simp add: changes_def evst.defs)
qed

text \<open>What depends on the events part of the state only.\<close>

lemma truncate_same:
  assumes "evst.truncate s' = evst.truncate s"
  shows "ev_ws s' = ev_ws s" "ev_timers s' = ev_timers s" "ev_timercnt s' = ev_timercnt s" "ev_activecnt s' = ev_activecnt s"
    "ev_mn_now s' = ev_mn_now s" "tm_inv s' = tm_inv s" "tmap s' = tmap s" "pend_ok s' = pend_ok s" "pview s' = pview s"
proof -
  have f: "ev_ws s' = ev_ws s" "ev_timers s' = ev_timers s" "ev_timercnt s' = ev_timercnt s" "ev_activecnt s' = ev_activecnt s"
    "ev_mn_now s' = ev_mn_now s" "ev_pendings s' = ev_pendings s" "ev_pendingcnt s' = ev_pendingcnt s"
    using assms by (simp_all add: evst.defs)
  then have k: "keys s' = keys s" by (auto simp: keys_def)
  show "ev_ws s' = ev_ws s" "ev_timers s' = ev_timers s" "ev_timercnt s' = ev_timercnt s" "ev_activecnt s' = ev_activecnt s"
    "ev_mn_now s' = ev_mn_now s" by (fact f)+
  show "tm_inv s' = tm_inv s" "tmap s' = tmap s" "pend_ok s' = pend_ok s" "pview s' = pview s"
    using f k by (simp_all add: tm_inv_def tmap_def pend_ok_def pview_def)
qed

definition io_ok :: "(nat \<Rightarrow> ptr list) \<Rightarrow> nat \<Rightarrow> ('k, 'a) iost_scheme \<Rightarrow> bool" where
  "io_ok L i s \<longleftrightarrow> tm_inv s \<and> pend_ok s \<and> io_lists L s \<and> chg_ok L i s"

text \<open>What the operations on watchers of descriptors leave alone.\<close>

definition io_frame :: "('k, 'a) iost_scheme \<Rightarrow> ('k, 'a) iost_scheme \<Rightarrow> bool" where
  "io_frame s s' \<longleftrightarrow> map kept (io_anfds s') = map kept (io_anfds s) \<and> io_kern s' = io_kern s \<and> io_postfork s' = io_postfork s \<and>
     io_eventmax s' = io_eventmax s \<and> iost.more s' = iost.more s \<and> tmap s' = tmap s \<and> ev_mn_now s' = ev_mn_now s \<and> wev (ev_ws s') = wev (ev_ws s) \<and> rep_of s' = rep_of s"

lemma rep_truncate: "evst.truncate s' = evst.truncate s \<Longrightarrow> rep_of s' = rep_of s"
  using truncate_same(1)[of s' s] by (simp add: rep_of_def fun_eq_iff)

lemma io_frame_trans: "io_frame s s' \<Longrightarrow> io_frame s' s'' \<Longrightarrow> io_frame s s''"
  by (simp add: io_frame_def)

lemma io_frame_length: "io_frame s s' \<Longrightarrow> length (io_anfds s') = length (io_anfds s)"
  unfolding io_frame_def by (metis length_map)

lemma not_timer: "tm_inv s \<Longrightarrow> ev_ws s p = Some w \<Longrightarrow> w_active w < 3 \<Longrightarrow> tmap s p = None"
proof (rule ccontr)
  assume a: "tm_inv s" "ev_ws s p = Some w" "w_active w < 3" "tmap s p \<noteq> None"
  then obtain t where "tmap s p = Some t" by blast
  from tmap_watcher[OF a(1) this] a(2,3) show False by (simp add: in_heap_def)
qed

lemma tm_fields:
  assumes "tm_inv s" "ev_timers s' = ev_timers s" "ev_timercnt s' = ev_timercnt s"
    "\<And>q. tmap s q \<noteq> None \<Longrightarrow> map_option tkey (ev_ws s' q) = map_option tkey (ev_ws s q)"
  shows "tm_inv s'" "tmap s' = tmap s"
proof -
  have hs: "heap_sized (ev_timers s) (ev_timercnt s)" using assms(1) by (simp add: tm_inv_def theap_def)
  have k: "map_option tkey (ev_ws s' (he_w e)) = map_option tkey (ev_ws s (he_w e))" if "e \<in> set (entries (ev_timers s) (ev_timercnt s))" for e
  proof -
    have "tmap s (he_w e) = Some (he_at e)" using tmap_Some[OF hs, of "he_w e" "he_at e"] that by (cases e) simp
    then show ?thesis using assms(4) by simp
  qed
  from tm_cong[where ws = "ev_ws s" and ws' = "ev_ws s'", OF k hs] assms(1-3) show "tm_inv s'" by (simp add: tm_inv_def)
  show "tmap s' = tmap s" using assms(2,3) by (simp add: tmap_def)
qed

lemma relinked_field:
  assumes "relinked p xs ws ws'" "\<And>w n. f (w\<lparr>w_next := n\<rparr>) = f w"
  shows "map_option f (ws' q) = map_option f (ws q)"
proof -
  have "map_option f (map_option (\<lambda>w. w\<lparr>w_next := 0\<rparr>) (ws' q)) = map_option f (map_option (\<lambda>w. w\<lparr>w_next := 0\<rparr>) (ws q))"
    using assms(1) by (simp add: relinked_def)
  then show ?thesis by (simp add: option.map_comp comp_def assms(2))
qed

lemma io_list_watcher: "io_lists L s \<Longrightarrow> x \<in> set (L fd) \<Longrightarrow> fd < length (io_anfds s) \<and> (\<exists>w. ev_ws s x = Some w \<and> io_watcher fd w)"
  by (auto simp: io_lists_def io_list_def dest!: spec[of _ fd] split: if_splits)

lemma io_list_disjoint: "io_lists L s \<Longrightarrow> x \<in> set (L fd) \<Longrightarrow> x \<in> set (L fd') \<Longrightarrow> fd = fd'"
  using io_list_watcher[of L s x fd] io_list_watcher[of L s x fd'] by (auto simp: io_watcher_def)

lemma io_list_cong:
  assumes "an_head a' = an_head a" "\<And>x. x \<in> set xs \<Longrightarrow> ws' x = ws x"
  shows "io_list ws' fd a' xs = io_list ws fd a xs"
  unfolding io_list_def using assms wlist_cong[of xs ws' ws] by simp

text \<open>A watcher is taken off the list of its descriptor.\<close>

lemma io_lists_remove:
  assumes io: "io_lists L s" and p: "p \<in> set (L fd)" and del: "wlist ws2 h (remove1 p (L fd))" "relinked p (L fd) (ev_ws s) ws2"
    and s': "ev_ws s' = ws2(p \<mapsto> w)" "map an_head (io_anfds s') = (map an_head (io_anfds s))[fd := h]"
  shows "io_lists (L(fd := remove1 p (L fd))) s'"
  unfolding io_lists_def
proof
  fix f
  have len: "length (io_anfds s') = length (io_anfds s)" using arg_cong[OF s'(2), of length] by simp
  have hd': "an_head (io_anfds s' ! f) = (if f = fd then h else an_head (io_anfds s ! f))" if "f < length (io_anfds s)"
  proof -
    have "map an_head (io_anfds s') ! f = (map an_head (io_anfds s))[fd := h] ! f" by (simp only: s'(2))
    with that len show ?thesis by (auto simp: nth_list_update)
  qed
  have fd: "fd < length (io_anfds s)" and dist: "distinct (L fd)" using io_list_watcher[OF io p] io by (auto simp: io_lists_def io_list_def split: if_splits)
  show "if f < length (io_anfds s') then io_list (ev_ws s') f (io_anfds s' ! f) ((L(fd := remove1 p (L fd))) f) else (L(fd := remove1 p (L fd))) f = []"
  proof (cases "f = fd")
    case True
    have pn: "p \<notin> set (remove1 p (L fd))" using dist by simp
    have "\<exists>w'. (ws2(p \<mapsto> w)) x = Some w' \<and> io_watcher fd w'" if "x \<in> set (remove1 p (L fd))" for x
    proof -
      have "x \<noteq> p" "x \<in> set (L fd)" using that pn notin_set_remove1 by fastforce+
      moreover have "map_option (io_watcher fd) (ws2 x) = map_option (io_watcher fd) (ev_ws s x)"
        by (rule relinked_field[OF del(2)]) (simp add: io_watcher_def ABSPRI_def)
      ultimately show ?thesis using io_list_watcher[OF io, of x fd] by (auto simp: map_option_eq_Some)
    qed
    then have "io_list (ws2(p \<mapsto> w)) fd (io_anfds s' ! fd) (remove1 p (L fd))"
      using del(1) dist pn hd'[unfolded True, OF fd] by (simp add: io_list_def wlist_outside distinct_remove1)
    then show ?thesis using True fd len s'(1) by simp
  next
    case False
    have "(ws2(p \<mapsto> w)) x = ev_ws s x" if "x \<in> set (L f)" for x
      using io_list_disjoint[OF io that] p False del(2) by (auto simp: relinked_def)
    then have "f < length (io_anfds s) \<Longrightarrow> io_list (ev_ws s') f (io_anfds s' ! f) (L f) = io_list (ev_ws s) f (io_anfds s ! f) (L f)"
      using hd' False s'(1) by (intro io_list_cong) simp_all
    then show ?thesis using io False len by (simp add: io_lists_def)
  qed
qed

lemma map_kept_update: "fd < length xs \<Longrightarrow> kept a = kept (xs ! fd) \<Longrightarrow> map kept (xs[fd := a]) = map kept xs"
  by (metis list_update_id map_update nth_map)

lemma map_kept_nth: "map kept xs = map kept ys \<Longrightarrow> fd < length ys \<Longrightarrow> an_events (xs ! fd) = an_events (ys ! fd)"
  by (metis (no_types, lifting) fst_conv kept_def length_map nth_map)

lemma chg_ok_entered:
  assumes chg: "chg_ok L i s" and fd: "fd < length (io_anfds s)"
    and s': "changes i s' = changes i s @ (if an_reify (io_anfds s ! fd) = 0 then [int fd] else [])" "i \<le> io_fdchangecnt s'" "io_fdchangecnt s' \<le> length (io_fdchanges s')"
      "length (io_anfds s') = length (io_anfds s)" "\<And>f. f < length (io_anfds s) \<Longrightarrow> f \<noteq> fd \<Longrightarrow> an_events (io_anfds s' ! f) = an_events (io_anfds s ! f)"
      "\<And>f. f \<noteq> fd \<Longrightarrow> an_reify (io_anfds s' ! f) = an_reify (io_anfds s ! f)"
      "\<And>f. f \<noteq> fd \<Longrightarrow> want (ev_ws s') (L' f) = want (ev_ws s) (L f)"
  shows "chg_ok L' i s'"
proof -
  have c: "set (changes i s) \<subseteq> {0 ..< int (length (io_anfds s))}"
    "\<And>f. f < length (io_anfds s) \<Longrightarrow> an_reify (io_anfds s ! f) \<noteq> 0 \<Longrightarrow> int f \<in> set (changes i s)"
    "\<And>f. f < length (io_anfds s) \<Longrightarrow> int f \<notin> set (changes i s) \<Longrightarrow> an_events (io_anfds s ! f) = want (ev_ws s) (L f)"
    using chg by (simp_all add: chg_ok_def)
  have m: "set (changes i s') = insert (int fd) (set (changes i s))" using c(2)[OF fd] by (auto simp: s'(1))
  show ?thesis
    unfolding chg_ok_def s'(4) m
  proof (intro conjI allI impI s'(2,3))
    show "insert (int fd) (set (changes i s)) \<subseteq> {0..<int (length (io_anfds s))}" using c(1) fd by simp
    fix f assume f: "f < length (io_anfds s)"
    show "int f \<in> insert (int fd) (set (changes i s))" if "an_reify (io_anfds s' ! f) \<noteq> 0" using c(2)[OF f] s'(6)[of f] that by (cases "f = fd") auto
    show "an_events (io_anfds s' ! f) = want (ev_ws s') (L' f)" if "int f \<notin> insert (int fd) (set (changes i s))"
      using c(3)[OF f] s'(5)[OF f] s'(7)[of f] that by auto
  qed
qed

lemma chg_ok_marked:
  assumes "chg_ok L i s" "fd < length (io_anfds s)"
    "changes i s' = changes i s @ (if an_reify (io_anfds s ! fd) = 0 then [int fd] else [])" "i \<le> io_fdchangecnt s'" "io_fdchangecnt s' \<le> length (io_fdchanges s')"
    "map kept (io_anfds s') = map kept (io_anfds s)" "\<And>f. f \<noteq> fd \<Longrightarrow> an_reify (io_anfds s' ! f) = an_reify (io_anfds s ! f)"
    "\<And>f. f \<noteq> fd \<Longrightarrow> want (ev_ws s') (L' f) = want (ev_ws s) (L f)"
  shows "chg_ok L' i s'"
proof (rule chg_ok_entered[OF assms(1-5) _ _ assms(7,8)])
  show "length (io_anfds s') = length (io_anfds s)" using assms(6) by (metis length_map)
  show "an_events (io_anfds s' ! f) = an_events (io_anfds s ! f)" if "f < length (io_anfds s)" for f by (rule map_kept_nth[OF assms(6) that])
qed

lemma wlist_nonnull: "wlist ws p xs \<Longrightarrow> x \<in> set xs \<Longrightarrow> x \<noteq> NULL"
  by (induction xs arbitrary: p) auto

definition wio :: "watcher \<Rightarrow> ptr \<times> nat \<times> int \<times> nat option \<times> int" where
  "wio w = (w_next w, w_active w, w_fd w, ABSPRI w, w_events w)"

lemma io_lists_cong:
  fixes s s' :: "('k, 'a) iost_scheme"
  assumes "map an_head (io_anfds s') = map an_head (io_anfds s)" "\<And>x. map_option wio (ev_ws s' x) = map_option wio (ev_ws s x)"
  shows "io_lists L s' = io_lists L s"
proof -
  have len: "length (io_anfds s') = length (io_anfds s)" using assms(1) by (metis length_map)
  have "io_list (ev_ws s') fd (io_anfds s' ! fd) (L fd) = io_list (ev_ws s) fd (io_anfds s ! fd) (L fd)" if "fd < length (io_anfds s)" for fd
  proof -
    have "an_head (io_anfds s' ! fd) = an_head (io_anfds s ! fd)" using assms(1) that len by (metis nth_map)
    moreover have "map_option w_next (ev_ws s' x) = map_option w_next (ev_ws s x)" for x
      using arg_cong[OF assms(2)[of x], of "map_option fst"] by (simp add: option.map_comp comp_def wio_def)
    moreover have "(\<exists>w. ev_ws s' x = Some w \<and> io_watcher fd w) = (\<exists>w. ev_ws s x = Some w \<and> io_watcher fd w)" for x
      using assms(2)[of x] by (cases "ev_ws s x"; cases "ev_ws s' x") (auto simp: wio_def io_watcher_def)
    ultimately show ?thesis using wlist_cong[of "L fd" "ev_ws s'" "ev_ws s"] by (simp add: io_list_def)
  qed
  then show ?thesis unfolding io_lists_def len by auto
qed

lemma tframe_io:
  fixes s s' :: "('k, 'a) iost_scheme"
  assumes "tframe s s'"
  shows "io_lists L s' = io_lists L s" "wev (ev_ws s') = wev (ev_ws s)" "io_frame s s'" "changes i s' = changes i s"
    "chg_ok L i s' = chg_ok L i s" "tm_inv s' = tm_inv s" "io_anfds s' = io_anfds s" "ev_activecnt s' = ev_activecnt s"
proof -
  have q: "qframe s s'" and io: "io_anfds s' = io_anfds s" "io_fdchanges s' = io_fdchanges s" "io_fdchangecnt s' = io_fdchangecnt s" "io_postfork s' = io_postfork s"
    "io_eventmax s' = io_eventmax s" "io_kern s' = io_kern s" "iost.more s' = iost.more s"
    using assms iost_more[of s' s] by (auto simp: tframe_def)
  show "io_lists L s' = io_lists L s"
    by (rule io_lists_cong) (use io qframe_field[OF q, of wio] in \<open>auto simp: wio_def\<close>)
  have ev: "wev (ev_ws s') x = wev (ev_ws s) x" for x by (rule wev_eq, rule qframe_field[OF q]) simp
  then show w: "wev (ev_ws s') = wev (ev_ws s)" by auto
  have "rep_of s' = rep_of s" using qframe_rep[OF q] by auto
  then show "io_frame s s'" using io w tframe_tm(2)[OF assms] q by (simp add: io_frame_def qframe_def)
  show c: "changes i s' = changes i s" by (simp add: changes_def io)
  have "want (ev_ws s') xs = want (ev_ws s) xs" for xs by (simp add: want_def w)
  then show "chg_ok L i s' = chg_ok L i s" by (simp add: chg_ok_def c io)
  show "tm_inv s' = tm_inv s" by (rule tframe_tm(1)[OF assms])
  show "ev_activecnt s' = ev_activecnt s" using q by (simp add: qframe_def)
qed (use assms iost_more[of s' s] in \<open>simp add: tframe_def\<close>)

text \<open>The part of \<open>ev_io_stop\<close> after the pending event is dropped.\<close>

lemma stop_active:
  fixes s :: "('k, 'a) iost_scheme"
  assumes ok: "io_ok L i s" and p: "p \<in> set (L fd)" "ev_ws s p = Some w" "w_pending w = 0"
  shows "\<exists>h ws' s'. wlist_del (an_head (io_anfds s ! fd)) p (ev_ws s) = Some (h, ws') \<and> ws' p = Some w \<and>
    fd_change (int fd) 1 (s\<lparr>io_anfds := (io_anfds s)[fd := (io_anfds s ! fd)\<lparr>an_head := h\<rparr>], ev_activecnt := ev_activecnt s - 1, ev_ws := ws'(p \<mapsto> w\<lparr>w_active := 0\<rparr>)\<rparr>) = Some s' \<and>
    io_ok (L(fd := remove1 p (L fd))) i s' \<and> io_frame s s' \<and> pview s' = pview s \<and> ev_activecnt s' = ev_activecnt s - 1 \<and>
    ev_ws s' p = Some (w\<lparr>w_active := 0\<rparr>) \<and>
    changes i s' = changes i s @ (if an_reify (io_anfds s ! fd) = 0 then [int fd] else []) \<and> an_reify (io_anfds s' ! fd) \<noteq> 0"
proof -
  have inv: "tm_inv s" "pend_ok s" "io_lists L s" "chg_ok L i s" using ok by (simp_all add: io_ok_def)
  have fd: "fd < length (io_anfds s)" and w: "io_watcher fd w" using io_list_watcher[OF inv(3) p(1)] p(2) by auto
  have lst: "wlist (ev_ws s) (an_head (io_anfds s ! fd)) (L fd)" "distinct (L fd)" using inv(3) fd by (auto simp: io_lists_def io_list_def dest!: spec[of _ fd])
  obtain h ws' where del: "wlist_del (an_head (io_anfds s ! fd)) p (ev_ws s) = Some (h, ws')" "wlist ws' h (remove1 p (L fd))" "relinked p (L fd) (ev_ws s) ws'"
    using wlist_del_ok[OF lst p(1)] by blast
  have wp: "ws' p = Some w" using del(3) p(2) by (simp add: relinked_def)
  let ?s = "s\<lparr>io_anfds := (io_anfds s)[fd := (io_anfds s ! fd)\<lparr>an_head := h\<rparr>], ev_activecnt := ev_activecnt s - 1, ev_ws := ws'(p \<mapsto> w\<lparr>w_active := 0\<rparr>)\<rparr>"
  have i: "i \<le> io_fdchangecnt ?s" "io_fdchangecnt ?s \<le> length (io_fdchanges ?s)" "fd < length (io_anfds ?s)" using inv(4) fd by (simp_all add: chg_ok_def)
  obtain s' where s': "fd_change (int fd) 1 ?s = Some s'" "evst.truncate s' = evst.truncate ?s" "io_kern s' = io_kern s"
      "io_postfork s' = io_postfork s" "io_eventmax s' = io_eventmax s" "iost.more s' = iost.more s"
      "io_anfds s' = (io_anfds ?s)[fd := (io_anfds ?s ! fd)\<lparr>an_reify := uchar (an_reify (io_anfds ?s ! fd) OR 1)\<rparr>]"
      "changes i s' = changes i ?s @ (if an_reify (io_anfds ?s ! fd) = 0 then [int fd] else [])" "i \<le> io_fdchangecnt s'" "io_fdchangecnt s' \<le> length (io_fdchanges s')"
    using fd_change_ok[OF i(3,1,2), of 1] by auto
  note same = truncate_same[OF s'(2)]
  have ws: "ev_ws s' = ws'(p \<mapsto> w\<lparr>w_active := 0\<rparr>)" using same(1) by simp
  have kp: "map kept (io_anfds s') = map kept (io_anfds s)" using fd by (simp add: s'(7) map_update[symmetric] map_kept_update)
  have hd: "map an_head (io_anfds s') = (map an_head (io_anfds s))[fd := h]" using fd by (simp add: s'(7) map_update)
  have ev: "wev (ev_ws s') x = wev (ev_ws s) x" for x
  proof -
    have "map_option w_events (ws' x) = map_option w_events (ev_ws s x)" by (rule relinked_field[OF del(3)]) simp
    then show ?thesis using p(2) wev_eq[of ws' x "ev_ws s"] by (cases "x = p") (simp_all add: ws wev_def)
  qed
  have rp: "rep_of s' x = rep_of s x" for x
  proof -
    have "map_option w_repeat (ws' x) = map_option w_repeat (ev_ws s x)" by (rule relinked_field[OF del(3)]) simp
    then show ?thesis using p(2) by (cases "x = p"; cases "ev_ws s x"; cases "ws' x") (simp_all add: ws rep_of_def)
  qed
  have tk: "map_option tkey (ev_ws s' x) = map_option tkey (ev_ws s x)" if "tmap s x \<noteq> None" for x
  proof -
    have "x \<noteq> p" using not_timer[OF inv(1) p(2)] w that by (auto simp: io_watcher_def)
    then show ?thesis using relinked_field[OF del(3), of tkey] by (simp add: ws tkey_def)
  qed
  have "keys ?s x = keys s x" for x using relinked_field[OF del(3), of pkey] p(2) by (cases "x = p") (simp_all add: keys_def pkey_def ABSPRI_def)
  then have "keys ?s = keys s" by auto
  then have pk: "pend_ok s'" "pview s' = pview s" unfolding same using inv(2) by (simp_all add: pend_ok_def pview_def)
  have tm: "tm_inv s'" "tmap s' = tmap s" by (rule tm_fields[OF inv(1) _ _ tk]; simp add: same)+
  have io: "io_lists (L(fd := remove1 p (L fd))) s'" by (rule io_lists_remove[OF inv(3) p(1) del(2,3) ws hd])
  have "chg_ok (L(fd := remove1 p (L fd))) i s'"
  proof (rule chg_ok_marked[OF inv(4) fd _ s'(9,10) kp])
    show "changes i s' = changes i s @ (if an_reify (io_anfds s ! fd) = 0 then [int fd] else [])" using s'(8) fd by (simp add: changes_def)
    show "an_reify (io_anfds s' ! f) = an_reify (io_anfds s ! f)" if "f \<noteq> fd" for f using that by (simp add: s'(7))
    show "want (ev_ws s') ((L(fd := remove1 p (L fd))) f) = want (ev_ws s) (L f)" if "f \<noteq> fd" for f using that by (simp add: want_def ev)
  qed
  then have "io_ok (L(fd := remove1 p (L fd))) i s'" using tm pk io by (simp add: io_ok_def)
  moreover have "io_frame s s'" using kp s'(3-6) tm(2) ext[of "wev (ev_ws s')", OF ev] ext[of "rep_of s'", OF rp] same(5) unfolding io_frame_def by simp
  moreover have "changes i s' = changes i s @ (if an_reify (io_anfds s ! fd) = 0 then [int fd] else [])" using s'(8) fd by (simp add: changes_def)
  moreover have "an_reify (io_anfds s' ! fd) \<noteq> 0" using fd uchar_or_1 by (simp add: s'(7))
  ultimately show ?thesis using del(1) wp s'(1) pk(2) ws same(4) by auto
qed

lemma ev_io_stop_ok:
  fixes s :: "('k, 'a) iost_scheme"
  assumes ok: "io_ok L i s" and p: "p \<in> set (L fd)"
  shows "\<exists>s'. ev_io_stop p s = Some s' \<and> io_ok (L(fd := remove1 p (L fd))) i s' \<and> io_frame s s' \<and> pview s' = (pview s)(p := None) \<and>
    ev_activecnt s' = ev_activecnt s - 1 \<and> (\<exists>w. ev_ws s' p = Some w \<and> w_active w = 0 \<and> ABSPRI w \<noteq> None) \<and>
    changes i s' = changes i s @ (if an_reify (io_anfds s ! fd) = 0 then [int fd] else []) \<and> an_reify (io_anfds s' ! fd) \<noteq> 0"
proof -
  have inv: "tm_inv s" "pend_ok s" "io_lists L s" "chg_ok L i s" using ok by (simp_all add: io_ok_def)
  obtain w0 where fd: "fd < length (io_anfds s)" and w0: "ev_ws s p = Some w0" "io_watcher fd w0" using io_list_watcher[OF inv(3) p] by blast
  have "wlist (ev_ws s) (an_head (io_anfds s ! fd)) (L fd)" using inv(3) fd by (auto simp: io_lists_def io_list_def dest!: spec[of _ fd])
  then have pn: "p \<noteq> NULL" using wlist_nonnull p by blast
  obtain s1 where s1: "clear_pending p s = Some s1" "pend_ok s1" "tframe s s1" "pview s1 = (pview s)(p := None)" "ev_ws s1 p = Some (w0\<lparr>w_pending := 0\<rparr>)"
    using clear_pending_ok[OF inv(2) pn w0(1)] by blast
  note t = tframe_io[OF s1(3)]
  have ok1: "io_ok L i s1" using inv s1(2) by (simp add: io_ok_def t)
  obtain h ws' s' where s': "wlist_del (an_head (io_anfds s1 ! fd)) p (ev_ws s1) = Some (h, ws')" "ws' p = Some (w0\<lparr>w_pending := 0\<rparr>)"
      "fd_change (int fd) 1 (s1\<lparr>io_anfds := (io_anfds s1)[fd := (io_anfds s1 ! fd)\<lparr>an_head := h\<rparr>], ev_activecnt := ev_activecnt s1 - 1, ev_ws := ws'(p \<mapsto> w0\<lparr>w_pending := 0, w_active := 0\<rparr>)\<rparr>) = Some s'"
      "io_ok (L(fd := remove1 p (L fd))) i s'" "io_frame s1 s'" "pview s' = pview s1" "ev_activecnt s' = ev_activecnt s1 - 1"
      "ev_ws s' p = Some (w0\<lparr>w_pending := 0, w_active := 0\<rparr>)"
      "changes i s' = changes i s1 @ (if an_reify (io_anfds s1 ! fd) = 0 then [int fd] else [])" "an_reify (io_anfds s' ! fd) \<noteq> 0"
    using stop_active[OF ok1 p s1(5)] by (auto simp del: fun_upd_apply)
  have "ev_io_stop p s = Some s'"
    using s1(1,5) s'(1,2,3) fd w0(2) pn by (simp add: ev_io_stop_def mem_simps io_watcher_def t upd_anfd_def ev_stop_def ev_unref_def)
  moreover have "ABSPRI (w0\<lparr>w_pending := 0, w_active := 0\<rparr>) \<noteq> None" using w0(2) by (simp add: io_watcher_def)
  ultimately show ?thesis using s' s1(4) t io_frame_trans[OF t(3) s'(5)] by auto
qed

lemma io_events:
  assumes "e AND NOT (EV_IOFDSET OR EV_READ OR EV_WRITE) = 0"
  shows "e AND NOT EV_IOFDSET = e mod 4" "e AND NOT EV_IOFDSET \<in> {0..3}"
proof -
  have m: "EV_IOFDSET OR EV_READ OR EV_WRITE = 0x83" by (simp add: EV_IOFDSET_def EV_READ_def EV_WRITE_def)
  have split: "e = (e AND k) OR (e AND NOT k)" for k :: int by (rule bit_eqI) (auto simp: bit_or_iff bit_and_iff bit_not_iff)
  have "e = (e AND 0x83) OR (e AND NOT 0x83)" by (rule split)
  then have "e = e AND 0x83" using assms unfolding m by simp
  then have "e AND NOT EV_IOFDSET = e AND (0x83 AND NOT 0x80)" unfolding EV_IOFDSET_def by (metis and.assoc)
  also have "(0x83 :: int) AND NOT 0x80 = 3" by simp
  also have "e AND 3 = e mod 4" using take_bit_eq_mask[of 2 e] by (simp add: take_bit_eq_mod mask_eq_exp_minus_1)
  finally show "e AND NOT EV_IOFDSET = e mod 4" .
  then show "e AND NOT EV_IOFDSET \<in> {0..3}" using pos_mod_bound[of 4 e] pos_mod_sign[of 4 e] by simp
qed

text \<open>More room for descriptors.\<close>

lemma anfds_grow_ok:
  fixes s :: "('k, 'a) iost_scheme" and n :: nat
  assumes "io_ok L i s"
  defines "s' \<equiv> s\<lparr>io_anfds := array_needsize 16 zero_ANFD n (io_anfds s)\<rparr>"
  shows "io_ok L i s'" "n \<le> length (io_anfds s')" "\<exists>k. io_anfds s' = io_anfds s @ replicate k zero_ANFD"
proof -
  show n: "n \<le> length (io_anfds s')" using array_needsize_ok(1)[where elem = 16] by (simp add: s'_def)
  show "\<exists>k. io_anfds s' = io_anfds s @ replicate k zero_ANFD"
    unfolding s'_def by (cases "n > length (io_anfds s)") (auto simp: array_needsize_def intro: exI[of _ 0])
  then obtain k where k: "io_anfds s' = io_anfds s @ replicate k zero_ANFD" by blast
  have f: "ev_ws s' = ev_ws s" "io_fdchanges s' = io_fdchanges s" "io_fdchangecnt s' = io_fdchangecnt s" "evst.truncate s' = evst.truncate s"
    by (simp_all add: s'_def evst.defs)
  have inv: "tm_inv s" "pend_ok s" "io_lists L s" "chg_ok L i s" using assms(1) by (simp_all add: io_ok_def)
  have L0: "L fd = []" if "length (io_anfds s) \<le> fd" for fd using inv(3) that by (auto simp: io_lists_def dest!: spec[of _ fd])
  have nth: "io_anfds s' ! fd = (if fd < length (io_anfds s) then io_anfds s ! fd else zero_ANFD)" if "fd < length (io_anfds s')" for fd
    using that by (simp add: k nth_append)
  have lists: "io_lists L s'"
    unfolding io_lists_def
  proof
    fix fd
    have old: "fd < length (io_anfds s) \<Longrightarrow> io_list (ev_ws s) fd (io_anfds s ! fd) (L fd)" using inv(3) by (auto simp: io_lists_def dest!: spec[of _ fd])
    show "if fd < length (io_anfds s') then io_list (ev_ws s') fd (io_anfds s' ! fd) (L fd) else L fd = []"
      using old L0[of fd] nth[of fd] by (auto simp: f k zero_ANFD_def io_list_def)
  qed
  have chg: "chg_ok L i s'"
  proof -
    have c: "changes i s' = changes i s" by (simp add: changes_def f)
    have sub: "set (changes i s) \<subseteq> {0 ..< int (length (io_anfds s))}" using inv(4) by (simp add: chg_ok_def)
    have "set (changes i s) \<subseteq> {0 ..< int (length (io_anfds s'))}" by (rule subset_trans[OF sub]) (simp add: k)
    moreover have "(an_reify (io_anfds s' ! fd) \<noteq> 0 \<longrightarrow> int fd \<in> set (changes i s)) \<and> (int fd \<notin> set (changes i s) \<longrightarrow> an_events (io_anfds s' ! fd) = want (ev_ws s) (L fd))"
      if "fd < length (io_anfds s')" for fd
      using inv(4) L0[of fd] nth[OF that] by (cases "fd < length (io_anfds s)") (simp_all add: chg_ok_def zero_ANFD_def)
    ultimately show ?thesis using inv(4) by (simp add: chg_ok_def c f)
  qed
  show "io_ok L i s'" using inv lists chg truncate_same[OF f(4)] by (simp add: io_ok_def)
qed

lemma io_lists_insert:
  assumes io: "io_lists L s" and fd: "fd < length (io_anfds s)" and p: "p \<noteq> NULL" "\<And>f. p \<notin> set (L f)"
    and w: "io_watcher fd w" "w_next w = an_head (io_anfds s ! fd)"
    and s': "ev_ws s' = (ev_ws s)(p \<mapsto> w)" "map an_head (io_anfds s') = (map an_head (io_anfds s))[fd := p]"
  shows "io_lists (L(fd := p # L fd)) s'"
  unfolding io_lists_def
proof
  fix f
  have len: "length (io_anfds s') = length (io_anfds s)" using arg_cong[OF s'(2), of length] by simp
  have hd': "an_head (io_anfds s' ! f) = (if f = fd then p else an_head (io_anfds s ! f))" if "f < length (io_anfds s)"
  proof -
    have "map an_head (io_anfds s') ! f = (map an_head (io_anfds s))[fd := p] ! f" by (simp only: s'(2))
    with that len show ?thesis by (auto simp: nth_list_update)
  qed
  have old: "io_list (ev_ws s) f (io_anfds s ! f) (L f)" if "f < length (io_anfds s)" using io that by (auto simp: io_lists_def dest!: spec[of _ f])
  show "if f < length (io_anfds s') then io_list (ev_ws s') f (io_anfds s' ! f) ((L(fd := p # L fd)) f) else (L(fd := p # L fd)) f = []"
  proof (cases "f = fd")
    case True
    then show ?thesis using old hd' fd p w by (auto simp: len io_list_def s'(1) wlist_outside)
  next
    case False
    have "f < length (io_anfds s) \<Longrightarrow> io_list (ev_ws s') f (io_anfds s' ! f) (L f) = io_list (ev_ws s) f (io_anfds s ! f) (L f)"
      using hd' False s'(1) p(2)[of f] by (intro io_list_cong) auto
    then show ?thesis using io False len by (simp add: io_lists_def)
  qed
qed

text \<open>What the kernel was told about the descriptors of the table.\<close>

definition grown :: "('k, 'a) iost_scheme \<Rightarrow> ('k, 'a) iost_scheme \<Rightarrow> bool" where
  "grown s s' \<longleftrightarrow> (\<exists>k. map kept (io_anfds s') = map kept (io_anfds s) @ replicate k (kept zero_ANFD)) \<and> io_kern s' = io_kern s \<and>
     io_postfork s' = io_postfork s \<and> io_eventmax s' = io_eventmax s \<and> iost.more s' = iost.more s \<and> ev_mn_now s' = ev_mn_now s"

lemma start_inactive:
  fixes s :: "('k, 'a) iost_scheme"
  assumes ok: "io_ok L i s" and fd: "fd < length (io_anfds s)" and p: "p \<noteq> NULL" "ev_ws s p = Some w" "w_active w = 0"
    and w': "io_watcher fd w'" "w_next w' = an_head (io_anfds s ! fd)" "w_pending w' = w_pending w" "pkey w' = pkey w"
  shows "\<exists>s1. fd_change (int fd) flags (s\<lparr>ev_ws := (ev_ws s)(p \<mapsto> w1), ev_activecnt := ev_activecnt s + 1, io_anfds := (io_anfds s)[fd := (io_anfds s ! fd)\<lparr>an_head := p\<rparr>]\<rparr>) = Some s1 \<and>
    ev_ws s1 = (ev_ws s)(p \<mapsto> w1) \<and>
    (let s' = s1\<lparr>ev_ws := (ev_ws s)(p \<mapsto> w')\<rparr> in io_ok (L(fd := p # L fd)) i s' \<and> pview s' = pview s \<and> tmap s' = tmap s \<and>
      ev_activecnt s' = ev_activecnt s + 1 \<and> map kept (io_anfds s') = map kept (io_anfds s) \<and> io_kern s' = io_kern s \<and> io_postfork s' = io_postfork s \<and>
      io_eventmax s' = io_eventmax s \<and> iost.more s' = iost.more s \<and> ev_mn_now s' = ev_mn_now s)"
proof -
  have inv: "tm_inv s" "pend_ok s" "io_lists L s" "chg_ok L i s" using ok by (simp_all add: io_ok_def)
  let ?s = "s\<lparr>ev_ws := (ev_ws s)(p \<mapsto> w1), ev_activecnt := ev_activecnt s + 1, io_anfds := (io_anfds s)[fd := (io_anfds s ! fd)\<lparr>an_head := p\<rparr>]\<rparr>"
  have i: "i \<le> io_fdchangecnt ?s" "io_fdchangecnt ?s \<le> length (io_fdchanges ?s)" "fd < length (io_anfds ?s)" using inv(4) fd by (simp_all add: chg_ok_def)
  obtain s1 where s1: "fd_change (int fd) flags ?s = Some s1" "evst.truncate s1 = evst.truncate ?s" "io_kern s1 = io_kern s"
      "io_postfork s1 = io_postfork s" "io_eventmax s1 = io_eventmax s" "iost.more s1 = iost.more s"
      "io_anfds s1 = (io_anfds ?s)[fd := (io_anfds ?s ! fd)\<lparr>an_reify := uchar (an_reify (io_anfds ?s ! fd) OR flags)\<rparr>]"
      "changes i s1 = changes i ?s @ (if an_reify (io_anfds ?s ! fd) = 0 then [int fd] else [])" "i \<le> io_fdchangecnt s1" "io_fdchangecnt s1 \<le> length (io_fdchanges s1)"
    using fd_change_ok[OF i(3,1,2), of flags] by auto
  note same = truncate_same[OF s1(2)]
  have ws1: "ev_ws s1 = (ev_ws s)(p \<mapsto> w1)" using same(1) by simp
  define s' where "s' = s1\<lparr>ev_ws := (ev_ws s)(p \<mapsto> w')\<rparr>"
  have an: "io_anfds s' = io_anfds s1" "io_fdchangecnt s' = io_fdchangecnt s1" "io_fdchanges s' = io_fdchanges s1" "ev_ws s' = (ev_ws s)(p \<mapsto> w')" by (simp_all add: s'_def)
  have kp: "map kept (io_anfds s') = map kept (io_anfds s)" using fd by (simp add: an s1(7) map_update[symmetric] map_kept_update)
  have hd: "map an_head (io_anfds s') = (map an_head (io_anfds s))[fd := p]" using fd by (simp add: an s1(7) map_update)
  have pL: "p \<notin> set (L f)" for f using io_list_watcher[OF inv(3), of p f] p(2,3) by (auto simp: io_watcher_def)
  have tm0: "tmap s p = None" using not_timer[OF inv(1) p(2)] p(3) by simp
  have tm: "tm_inv s'" "tmap s' = tmap s"
    by (rule tm_fields[OF inv(1)]; use same tm0 in \<open>auto simp: s'_def\<close>)+
  have "keys s' = keys s" using p(2) w'(4) by (auto simp: keys_def s'_def)
  moreover have "ev_pendings s' = ev_pendings s" "ev_pendingcnt s' = ev_pendingcnt s" using s1(2) by (simp_all add: s'_def evst.defs)
  ultimately have pk: "pend_ok s'" "pview s' = pview s" using inv(2) by (simp_all add: pend_ok_def pview_def)
  have io: "io_lists (L(fd := p # L fd)) s'" by (rule io_lists_insert[OF inv(3) fd p(1) pL w'(1,2) an(4) hd])
  have "chg_ok (L(fd := p # L fd)) i s'"
  proof (rule chg_ok_marked[OF inv(4) fd _ _ _ kp])
    show "changes i s' = changes i s @ (if an_reify (io_anfds s ! fd) = 0 then [int fd] else [])" using s1(8) fd by (simp add: changes_def an)
    show "i \<le> io_fdchangecnt s'" "io_fdchangecnt s' \<le> length (io_fdchanges s')" using s1(9,10) by (simp_all add: an)
    show "an_reify (io_anfds s' ! f) = an_reify (io_anfds s ! f)" if "f \<noteq> fd" for f using that by (simp add: an s1(7))
    show "want (ev_ws s') ((L(fd := p # L fd)) f) = want (ev_ws s) (L f)" if "f \<noteq> fd" for f
      using that pL[of f] by (simp, intro want_cong) (auto simp: wev_def an(4))
  qed
  then have "io_ok (L(fd := p # L fd)) i s'" using tm pk io by (simp add: io_ok_def)
  then show ?thesis using s1(1,3-6) ws1 pk(2) tm(2) kp same unfolding Let_def s'_def[symmetric] by (simp add: s'_def)
qed

lemma ev_io_start_ok:
  fixes s :: "('k, 'a) iost_scheme"
  assumes ok: "io_ok L i s" and p: "p \<noteq> NULL" "ev_ws s p = Some w" "w_active w = 0" "w_fd w = int fd"
    and e: "w_events w AND NOT (EV_IOFDSET OR EV_READ OR EV_WRITE) = 0"
  shows "\<exists>s'. ev_io_start p s = Some s' \<and> io_ok (L(fd := p # L fd)) i s' \<and> pview s' = pview s \<and> tmap s' = tmap s \<and>
    ev_activecnt s' = ev_activecnt s + 1 \<and> grown s s' \<and> wev (ev_ws s') = (wev (ev_ws s))(p := w_events w AND NOT EV_IOFDSET)"
proof -
  let ?s = "s\<lparr>io_anfds := array_needsize 16 zero_ANFD (fd + 1) (io_anfds s)\<rparr>"
  note g = anfds_grow_ok[OF ok, where n = "fd + 1"]
  let ?a = "io_anfds ?s ! fd"
  define w1 where "w1 = (pri_adjust w)\<lparr>w_active := 1, w_next := an_head ?a\<rparr>"
  define w' where "w' = w1\<lparr>w_events := w_events w1 AND NOT EV_IOFDSET\<rparr>"
  have fd: "fd < length (io_anfds ?s)" using g(2) by simp
  have pa: "w_active (pri_adjust w) = 0" "w_fd (pri_adjust w) = int fd" "w_events (pri_adjust w) = w_events w" "w_pending (pri_adjust w) = w_pending w"
    using p(3,4) by (simp_all add: pri_adjust_def Let_def)
  have pr: "ABSPRI w' = ABSPRI (pri_adjust w)" by (simp add: w'_def w1_def ABSPRI_def)
  have inv2: "pend_ok s" using ok by (simp add: io_ok_def)
  have "w_pending w \<noteq> 0 \<longrightarrow> ABSPRI w \<noteq> None"
    using pend_inv_entry[OF inv2[unfolded pend_ok_def], of p "w_pending w - 1" "ABSPRI w"] p(2) by (auto simp: keys_def pkey_def)
  then have "pkey (pri_adjust w) = pkey w" using ABSPRI_adjust(2)[of w] pa(4) by (cases "w_pending w = 0") (auto simp: pkey_def)
  then have pkw: "pkey w' = pkey w" "w_pending w' = w_pending w" using pr pa(4) by (auto simp: pkey_def w'_def w1_def split: if_splits)
  have iow: "io_watcher fd w'" "w_next w' = an_head ?a"
    using io_events(2)[OF e] pa pr ABSPRI_adjust(1)[of w] by (simp_all add: io_watcher_def w'_def w1_def)
  obtain s1 where s1: "fd_change (int fd) (w_events w AND (EV_IOFDSET OR 1))
        (?s\<lparr>ev_ws := (ev_ws ?s)(p \<mapsto> w1), ev_activecnt := ev_activecnt ?s + 1, io_anfds := (io_anfds ?s)[fd := ?a\<lparr>an_head := p\<rparr>]\<rparr>) = Some s1" "ev_ws s1 = (ev_ws ?s)(p \<mapsto> w1)"
    "let s' = s1\<lparr>ev_ws := (ev_ws ?s)(p \<mapsto> w')\<rparr> in io_ok (L(fd := p # L fd)) i s' \<and> pview s' = pview ?s \<and> tmap s' = tmap ?s \<and>
      ev_activecnt s' = ev_activecnt ?s + 1 \<and> map kept (io_anfds s') = map kept (io_anfds ?s) \<and> io_kern s' = io_kern ?s \<and> io_postfork s' = io_postfork ?s \<and>
      io_eventmax s' = io_eventmax ?s \<and> iost.more s' = iost.more ?s \<and> ev_mn_now s' = ev_mn_now ?s"
    using start_inactive[OF g(1) fd p(1) _ p(3) iow pkw(2,1), of "w_events w AND (EV_IOFDSET OR 1)" w1] p(2) by auto
  let ?s' = "s1\<lparr>ev_ws := (ev_ws s)(p \<mapsto> w')\<rparr>"
  have r: "io_ok (L(fd := p # L fd)) i ?s'" "pview ?s' = pview ?s" "tmap ?s' = tmap ?s" "ev_activecnt ?s' = ev_activecnt s + 1"
      "map kept (io_anfds ?s') = map kept (io_anfds ?s)" "io_kern ?s' = io_kern s" "io_postfork ?s' = io_postfork s" "io_eventmax ?s' = io_eventmax s"
      "iost.more ?s' = iost.more s" "ev_mn_now ?s' = ev_mn_now s"
    using s1(3) by (simp_all add: Let_def)
  have same: "pview ?s = pview s" "tmap ?s = tmap s" using truncate_same[of ?s s] by (simp_all add: evst.defs)
  have order: "s\<lparr>ev_activecnt := n, ev_ws := b\<rparr> = s\<lparr>ev_ws := b, ev_activecnt := n\<rparr>" for b n
    by (cases s) simp
  have neg: "\<not> int fd < 0" "nat (int fd + 1) = fd + 1" by auto
  have "ev_io_start p s = Some ?s'"
    using p e fd s1(1,2) neg
    by (simp add: ev_io_start_def mem_simps ev_start_def ev_ref_def wlist_add_def upd_anfd_def order w1_def w'_def)
  moreover have "grown s ?s'"
  proof -
    obtain k where "io_anfds ?s = io_anfds s @ replicate k zero_ANFD" using g(3) by blast
    then have "map kept (io_anfds ?s') = map kept (io_anfds s) @ replicate k (kept zero_ANFD)" using r(5) by simp
    then show ?thesis using r unfolding grown_def by blast
  qed
  moreover have "wev (ev_ws ?s') = (wev (ev_ws s))(p := w_events w AND NOT EV_IOFDSET)"
    using pa(3) by (auto simp: wev_def w'_def w1_def)
  ultimately show ?thesis using r same by (intro exI[of _ ?s']) simp
qed

section \<open>The library's own check\<close>

text \<open>
  \<open>ev_loop_verify\<close>: a failed assertion aborts.  The arrays of other kinds of watchers, which the
  program does not use, are left out.
\<close>

definition assert :: "bool \<Rightarrow> unit option" where
  "assert b = (if b then Some () else None)"

fun each :: "(nat \<Rightarrow> unit option) \<Rightarrow> nat list \<Rightarrow> unit option" where
  "each f [] = Some ()"
| "each f (i # is) = do { f i; each f is }"

definition verify_watcher :: "ptr \<Rightarrow> 'a evst_scheme \<Rightarrow> unit option" where
  "verify_watcher p s = do {
     w \<leftarrow> deref (ev_ws s) p;
     pri \<leftarrow> ABSPRI w;
     assert (pri < NUMPRI);
     if w_pending w \<noteq> 0 then do {
       e \<leftarrow> arr_get (ev_pendings s pri) (int (w_pending w) - 1);
       assert (pd_w e = p) }
     else Some () }"

definition verify_heap :: "'a evst_scheme \<Rightarrow> unit option" where
  "verify_heap s = each (\<lambda>i. do {
     e \<leftarrow> arr_get (ev_timers s) (int i);
     w \<leftarrow> deref (ev_ws s) (he_w e);
     assert (w_active w = i);
     fits \<leftarrow> (if i = HEAP0 then Some True else do { u \<leftarrow> arr_get (ev_timers s) (int (HPARENT i)); Some (he_at u \<le> he_at e) });
     assert fits;
     assert (he_at e = w_at w);
     verify_watcher (he_w e) s }) [HEAP0 ..< ev_timercnt s + HEAP0]"

partial_function (option) verify_list :: "nat \<Rightarrow> ptr \<Rightarrow> 'a evst_scheme \<Rightarrow> unit option" where
  "verify_list fd p s =
     (if p = NULL then Some ()
      else do {
        verify_watcher p s;
        w \<leftarrow> deref (ev_ws s) p;
        assert (w_active w = 1);
        assert (w_fd w = int fd);
        verify_list fd (w_next w) s })"

definition ev_loop_verify :: "('k, 'a) iost_scheme \<Rightarrow> unit option" where
  "ev_loop_verify s = do {
     assert (ev_activecnt s \<ge> -1);
     assert (length (io_fdchanges s) \<ge> io_fdchangecnt s);
     each (\<lambda>i. do { fd \<leftarrow> arr_get (io_fdchanges s) (int i); assert (fd \<ge> 0) }) [0 ..< io_fdchangecnt s];
     each (\<lambda>i. do { a \<leftarrow> arr_get (io_anfds s) (int i); verify_list i (an_head a) s }) [0 ..< length (io_anfds s)];
     assert (length (ev_timers s) \<ge> ev_timercnt s);
     verify_heap s;
     each (\<lambda>i. assert (length (ev_pendings s i) \<ge> ev_pendingcnt s i)) (rev [0 ..< NUMPRI]) }"

lemma each_ok: "(\<And>i. i \<in> set is \<Longrightarrow> f i = Some ()) \<Longrightarrow> each f is = Some ()"
  by (induction "is") simp_all

lemma ABSPRI_less: "ABSPRI w = Some pri \<Longrightarrow> pri < NUMPRI"
  by (auto simp: ABSPRI_def NUMPRI_def EV_MINPRI_def EV_MAXPRI_def split: if_splits)

lemma verify_watcher_ok:
  assumes "pend_ok s" "ev_ws s p = Some w" "p \<noteq> NULL" "ABSPRI w \<noteq> None"
  shows "verify_watcher p s = Some ()"
proof -
  obtain pri where pri: "ABSPRI w = Some pri" using assms(4) by blast
  show ?thesis
  proof (cases "w_pending w")
    case 0
    then show ?thesis using assms(2,3) pri ABSPRI_less[OF pri] by (simp add: verify_watcher_def mem_simps assert_def)
  next
    case (Suc i)
    then have "keys s p = Some (Suc i, Some pri)" using assms(2) pri by (simp add: keys_def pkey_def)
    from pend_inv_entry[OF assms(1)[unfolded pend_ok_def] this] show ?thesis
      using assms(2,3) pri ABSPRI_less[OF pri] Suc by (simp add: verify_watcher_def mem_simps assert_def)
  qed
qed

lemma verify_heap_ok:
  assumes "tm_inv s" "pend_ok s"
  shows "verify_heap s = Some ()"
  unfolding verify_heap_def
proof (rule each_ok)
  fix i assume "i \<in> set [HEAP0 ..< ev_timercnt s + HEAP0]"
  then have i: "in_heap (ev_timercnt s) i" by (simp add: in_heap_def heap_consts)
  have th: "theap (ev_timers s) (ev_timercnt s) (ev_ws s)" and hs: "heap_sized (ev_timers s) (ev_timercnt s)"
    and td: "timed (ev_timers s) (ev_timercnt s) (ev_ws s)" using assms(1) by (simp_all add: tm_inv_def theap_def)
  let ?e = "ev_timers s ! i"
  have l: "i < length (ev_timers s)" "HPARENT i < length (ev_timers s)"
    using heap_sized_length[OF hs i] i in_heap_parent[OF i] by (simp_all add: in_heap_def)
  obtain w where w: "ev_ws s (he_w ?e) = Some w" "he_w ?e \<noteq> NULL" "w_active w = i"
    using th i by (auto simp: theap_def indexed_def)
  have t: "w_at w = he_at ?e" "ABSPRI w \<noteq> None" using td in_heap_entry[OF hs i] w(1) by (auto simp: timed_def)
  have "i = HEAP0 \<or> he_at (ev_timers s ! HPARENT i) \<le> he_at ?e"
    using th i by (auto simp: theap_def ordered_def in_heap_def heap_consts)
  then show "do {
     e \<leftarrow> arr_get (ev_timers s) (int i);
     w \<leftarrow> deref (ev_ws s) (he_w e);
     assert (w_active w = i);
     fits \<leftarrow> (if i = HEAP0 then Some True else do { u \<leftarrow> arr_get (ev_timers s) (int (HPARENT i)); Some (he_at u \<le> he_at e) });
     assert fits;
     assert (he_at e = w_at w);
     verify_watcher (he_w e) s } = Some ()"
    using l w t verify_watcher_ok[OF assms(2) w(1,2) t(2)] by (auto simp: mem_simps assert_def)
qed

lemma verify_list_ok:
  assumes "pend_ok s" "wlist (ev_ws s) p xs" "\<And>x. x \<in> set xs \<Longrightarrow> \<exists>w. ev_ws s x = Some w \<and> io_watcher fd w"
  shows "verify_list fd p s = Some ()"
  using assms(2,3)
proof (induction xs arbitrary: p)
  case (Cons x xs)
  obtain w where w: "p = x" "x \<noteq> NULL" "ev_ws s x = Some w" "wlist (ev_ws s) (w_next w) xs" "io_watcher fd w"
    using Cons.prems(1) Cons.prems(2)[of x] by auto
  have "verify_list fd (w_next w) s = Some ()" by (rule Cons.IH[OF w(4)]) (use Cons.prems(2) in simp)
  moreover have "verify_watcher x s = Some ()" using verify_watcher_ok[OF assms(1) w(3,2)] w(5) by (simp add: io_watcher_def)
  ultimately show ?case using w by (subst verify_list.simps) (simp add: mem_simps assert_def io_watcher_def)
qed (simp add: verify_list.simps)

lemma ev_loop_verify_ok:
  fixes s :: "('k, 'a) iost_scheme"
  assumes "io_ok L 0 s" "-1 \<le> ev_activecnt s"
  shows "ev_loop_verify s = Some ()"
proof -
  have inv: "tm_inv s" "pend_ok s" "io_lists L s" "chg_ok L 0 s" using assms(1) by (simp_all add: io_ok_def)
  have "each (\<lambda>i. do { fd \<leftarrow> arr_get (io_fdchanges s) (int i); assert (fd \<ge> 0) }) [0 ..< io_fdchangecnt s] = Some ()"
  proof (rule each_ok)
    fix i assume i: "i \<in> set [0 ..< io_fdchangecnt s]"
    have c: "io_fdchangecnt s \<le> length (io_fdchanges s)" "set (take (io_fdchangecnt s) (io_fdchanges s)) \<subseteq> {0 ..< int (length (io_anfds s))}"
      using inv(4) by (simp_all add: chg_ok_def changes_def)
    have "io_fdchanges s ! i \<in> set (take (io_fdchangecnt s) (io_fdchanges s))" using i c(1) by (auto simp: in_set_conv_nth)
    then have "0 \<le> io_fdchanges s ! i" using c(2) by auto
    then show "do { fd \<leftarrow> arr_get (io_fdchanges s) (int i); assert (fd \<ge> 0) } = Some ()" using i c(1) by (simp add: assert_def)
  qed
  moreover have "each (\<lambda>i. do { a \<leftarrow> arr_get (io_anfds s) (int i); verify_list i (an_head a) s }) [0 ..< length (io_anfds s)] = Some ()"
  proof (rule each_ok)
    fix i assume "i \<in> set [0 ..< length (io_anfds s)]"
    then have i: "i < length (io_anfds s)" by simp
    then have "io_list (ev_ws s) i (io_anfds s ! i) (L i)" using inv(3) by (auto simp: io_lists_def dest!: spec[of _ i])
    then have "verify_list i (an_head (io_anfds s ! i)) s = Some ()" by (intro verify_list_ok[OF inv(2), of _ "L i"]) (auto simp: io_list_def)
    then show "do { a \<leftarrow> arr_get (io_anfds s) (int i); verify_list i (an_head a) s } = Some ()" using i by simp
  qed
  moreover have "each (\<lambda>i. assert (length (ev_pendings s i) \<ge> ev_pendingcnt s i)) (rev [0 ..< NUMPRI]) = Some ()"
    by (rule each_ok) (use inv(2) in \<open>simp add: assert_def pend_ok_def pend_inv_def\<close>)
  moreover have "ev_timercnt s \<le> length (ev_timers s)" using inv(1) by (auto simp: tm_inv_def theap_def heap_sized_def)
  moreover have "io_fdchangecnt s \<le> length (io_fdchanges s)" using inv(4) by (simp add: chg_ok_def)
  ultimately show ?thesis using assms(2) verify_heap_ok[OF inv(1,2)] by (simp add: ev_loop_verify_def assert_def)
qed

end
