(* ===== verification/Ev_Epoll.thy ===== *)
theory Ev_Epoll
  imports Ev_Io
begin

text \<open>
  The backend of the event library that uses \<open>epoll\<close>, \<open>src/ev_epoll.c\<close>.

  The system calls \<open>epoll_ctl\<close> and \<open>epoll_wait\<close> are arguments: \<open>ctl op fd ev k\<close> gives an errno,
  0 for success, and the new state of the kernel.  \<open>epoll_docs\<close> is what their documentation says; \<open>kern_sync\<close> says
  that the interest list of the kernel agrees with the table of descriptors.
\<close>

unbundle bit_operations_syntax

section \<open>The epoll backend\<close>

record epoll_event =
  ee_events :: int
  ee_data :: u64

definition EPOLLIN :: int where "EPOLLIN = 0x001"
definition EPOLLOUT :: int where "EPOLLOUT = 0x004"
definition EPOLLERR :: int where "EPOLLERR = 0x008"
definition EPOLLHUP :: int where "EPOLLHUP = 0x010"
definition EPOLL_CTL_ADD :: int where "EPOLL_CTL_ADD = 1"
definition EPOLL_CTL_DEL :: int where "EPOLL_CTL_DEL = 2"
definition EPOLL_CTL_MOD :: int where "EPOLL_CTL_MOD = 3"
definition ctl_ENOENT :: int where "ctl_ENOENT = 2"
definition ctl_EEXIST :: int where "ctl_EEXIST = 17"
definition wait_EINTR :: int where "wait_EINTR = 4"

type_synonym 'k epoll_ctl = "int \<Rightarrow> int \<Rightarrow> epoll_event \<Rightarrow> 'k \<Rightarrow> int \<times> 'k"

text \<open>Generation and descriptor in one word.\<close>

definition epoll_data :: "int \<Rightarrow> u32 \<Rightarrow> u64" where
  "epoll_data fd gen = ucast (word_of_int fd :: u32) OR push_bit 32 (ucast gen)"

definition epoll_fd :: "u64 \<Rightarrow> int" where
  "epoll_fd d = sint (ucast d :: u32)"

definition epoll_gen :: "u64 \<Rightarrow> u32" where
  "epoll_gen d = ucast (drop_bit 32 d)"

definition epoll_mask :: "int \<Rightarrow> int" where
  "epoll_mask ev = (if ev AND EV_READ \<noteq> 0 then EPOLLIN else 0) OR (if ev AND EV_WRITE \<noteq> 0 then EPOLLOUT else 0)"

definition do_ctl :: "'k epoll_ctl \<Rightarrow> int \<Rightarrow> int \<Rightarrow> epoll_event \<Rightarrow> ('k, 'a) iost_scheme \<Rightarrow> int \<times> ('k, 'a) iost_scheme" where
  "do_ctl ctl opr fd ev s = (let (e, k) = ctl opr fd ev (io_kern s) in (e, s\<lparr>io_kern := k\<rparr>))"

definition dec_egen :: "int \<Rightarrow> ('k, 'a) iost_scheme \<Rightarrow> ('k, 'a) iost_scheme option" where
  "dec_egen fd s = upd_anfd fd (\<lambda>a. a\<lparr>an_egen := an_egen a - 1\<rparr>) s"

definition epoll_modify :: "'k epoll_ctl \<Rightarrow> int \<Rightarrow> int \<Rightarrow> int \<Rightarrow> ('k, 'a) iost_scheme \<Rightarrow> ('k, 'a) iost_scheme option" where
  "epoll_modify ctl fd oev nev s =
     (if nev = 0 then Some s
      else do {
        a \<leftarrow> arr_get (io_anfds s) fd;
        let oldmask = an_emask a;
        s \<leftarrow> upd_anfd fd (\<lambda>a. a\<lparr>an_emask := uchar nev, an_egen := an_egen a + 1\<rparr>) s;
        let ev = \<lparr>ee_events = epoll_mask nev, ee_data = epoll_data fd (an_egen a + 1)\<rparr>;
        let (e, s) = do_ctl ctl (if oev \<noteq> 0 then EPOLL_CTL_MOD else EPOLL_CTL_ADD) fd ev s;
        if e = 0 then Some s
        else if e = ctl_ENOENT then
          if nev = 0 then dec_egen fd s
          else do {
            let (e, s) = do_ctl ctl EPOLL_CTL_ADD fd ev s;
            if e = 0 then Some s else do { s \<leftarrow> fd_kill fd s; dec_egen fd s } }
        else if e = ctl_EEXIST then
          if oldmask = nev then dec_egen fd s
          else do {
            let (e, s) = do_ctl ctl EPOLL_CTL_MOD fd ev s;
            if e = 0 then Some s else do { s \<leftarrow> fd_kill fd s; dec_egen fd s } }
        else do { s \<leftarrow> fd_kill fd s; dec_egen fd s } })"

definition epoll_got :: "int \<Rightarrow> int" where
  "epoll_got ev = (if ev AND (EPOLLOUT OR EPOLLERR OR EPOLLHUP) \<noteq> 0 then EV_WRITE else 0) OR
     (if ev AND (EPOLLIN OR EPOLLERR OR EPOLLHUP) \<noteq> 0 then EV_READ else 0)"

definition poll_event :: "'k epoll_ctl \<Rightarrow> epoll_event \<Rightarrow> ('k, 'a) iost_scheme \<Rightarrow> ('k, 'a) iost_scheme option" where
  "poll_event ctl ev s = do {
     let fd = epoll_fd (ee_data ev);
     a \<leftarrow> arr_get (io_anfds s) fd;
     let want = an_events a;
     let got = epoll_got (ee_events ev);
     if an_egen a \<noteq> epoll_gen (ee_data ev) then Some (s\<lparr>io_postfork := True\<rparr>)
     else if got AND NOT want \<noteq> 0 then do {
       s \<leftarrow> upd_anfd fd (\<lambda>a. a\<lparr>an_emask := want\<rparr>) s;
       let (e, s) = do_ctl ctl (if want \<noteq> 0 then EPOLL_CTL_MOD else EPOLL_CTL_DEL) fd (ev\<lparr>ee_events := epoll_mask want\<rparr>) s;
       if e \<noteq> 0 then Some (s\<lparr>io_postfork := True\<rparr>) else fd_event fd got s }
     else fd_event fd got s }"

fun poll_events :: "'k epoll_ctl \<Rightarrow> epoll_event list \<Rightarrow> ('k, 'a) iost_scheme \<Rightarrow> ('k, 'a) iost_scheme option" where
  "poll_events ctl [] s = Some s"
| "poll_events ctl (ev # evs) s = do { s \<leftarrow> poll_event ctl ev s; poll_events ctl evs s }"

text \<open>
  \<open>evs\<close> is the result of \<open>epoll_wait\<close>: an errno, or the events.  An error other than an
  interruption ends the process.  \<open>struct epoll_event\<close> has 12 bytes.
\<close>

definition epoll_poll :: "'k epoll_ctl \<Rightarrow> int + epoll_event list \<Rightarrow> ('k, 'a) iost_scheme \<Rightarrow> ('k, 'a) iost_scheme option" where
  "epoll_poll ctl evs s = (case evs of
     Inl e \<Rightarrow> if e \<noteq> wait_EINTR then None else Some s
   | Inr evs \<Rightarrow> do {
       s \<leftarrow> poll_events ctl evs s;
       if length evs = io_eventmax s
       then Some (s\<lparr>io_eventmax := array_nextsize 12 (io_eventmax s) (io_eventmax s + 1)\<rparr>)
       else Some s })"

section \<open>A descriptor that fails\<close>

definition EV_FAILED :: int where
  "EV_FAILED = EV_ERROR OR EV_READ OR EV_WRITE"

definition killed :: "ptr list \<Rightarrow> (ptr \<rightharpoonup> int) \<Rightarrow> ptr \<rightharpoonup> int" where
  "killed xs v q = (if q \<in> set xs then Some EV_FAILED else v q)"

lemma io_list_head: "io_lists L s \<Longrightarrow> fd < length (io_anfds s) \<Longrightarrow> an_head (io_anfds s ! fd) = hdd NULL (L fd)"
  using wlist_head by (auto simp: io_lists_def io_list_def dest!: spec[of _ fd])

lemma io_list_nonnull: "io_lists L s \<Longrightarrow> x \<in> set (L fd) \<Longrightarrow> x \<noteq> NULL"
  using wlist_nonnull by (auto simp: io_lists_def io_list_def dest!: spec[of _ fd] split: if_splits)

lemma fd_kill_ok:
  fixes s :: "('k, 'a) iost_scheme"
  assumes "io_ok L i s" "fd < length (io_anfds s)"
  shows "\<exists>s'. fd_kill (int fd) s = Some s' \<and> io_ok (L(fd := [])) i s' \<and> io_frame s s' \<and> pview s' = killed (L fd) (pview s) \<and>
    changes i s' = changes i s @ (if L fd \<noteq> [] \<and> an_reify (io_anfds s ! fd) = 0 then [int fd] else [])"
  using assms
proof (induction "L fd" arbitrary: L s)
  case Nil
  have io: "io_lists L s" using Nil.prems(1) by (simp add: io_ok_def)
  have "an_head (io_anfds s ! fd) = NULL" using io_list_head[OF io Nil.prems(2)] Nil.hyps by simp
  moreover have "L(fd := []) = L" using Nil.hyps by auto
  ultimately show ?case using Nil.prems Nil.hyps[symmetric] by (simp add: fd_kill.simps[of _ s] io_frame_def killed_def fun_eq_iff)
next
  case (Cons x xs)
  have L: "L fd = x # xs" using Cons.hyps(2) by simp
  have io: "io_lists L s" using Cons.prems(1) by (simp add: io_ok_def)
  have hx: "an_head (io_anfds s ! fd) = x" "x \<noteq> NULL" "x \<in> set (L fd)" using io_list_head[OF io Cons.prems(2)] io_list_nonnull[OF io, of x fd] L by simp_all
  have dist: "distinct (L fd)" using io Cons.prems(2) by (auto simp: io_lists_def io_list_def dest!: spec[of _ fd])
  obtain s1 where s1: "ev_io_stop x s = Some s1" "io_ok (L(fd := xs)) i s1" "io_frame s s1" "pview s1 = (pview s)(x := None)"
      "\<exists>w. ev_ws s1 x = Some w \<and> w_active w = 0 \<and> ABSPRI w \<noteq> None"
      "changes i s1 = changes i s @ (if an_reify (io_anfds s ! fd) = 0 then [int fd] else [])" "an_reify (io_anfds s1 ! fd) \<noteq> 0"
    using ev_io_stop_ok[OF Cons.prems(1) hx(3)] L by auto
  obtain w pri where w: "ev_ws s1 x = Some w" "ABSPRI w = Some pri" using s1(5) by blast
  have p1: "pend_ok s1" using s1(2) by (simp add: io_ok_def)
  obtain s2 where s2: "ev_feed_event x EV_FAILED s1 = Some s2" "pend_ok s2" "tframe s1 s2" "pview s2 = (pview s1)(x \<mapsto> EV_FAILED)"
    using ev_feed_event_ok[OF p1 hx(2) w, of EV_FAILED] s1(4) by auto
  note t = tframe_io[OF s2(3)]
  have ok2: "io_ok (L(fd := xs)) i s2" using s1(2) s2(2) by (simp add: io_ok_def t)
  have l2: "fd < length (io_anfds s2)" using io_frame_length[OF s1(3)] Cons.prems(2) t(7) by simp
  obtain s' where s': "fd_kill (int fd) s2 = Some s'" "io_ok ((L(fd := xs))(fd := [])) i s'" "io_frame s2 s'" "pview s' = killed xs (pview s2)"
      "changes i s' = changes i s2 @ (if xs \<noteq> [] \<and> an_reify (io_anfds s2 ! fd) = 0 then [int fd] else [])"
    using Cons.hyps(1)[of "L(fd := xs)", OF _ ok2 l2] by auto
  have "fd_kill (int fd) s = Some s'" using Cons.prems(2) hx(1,2) s1(1) s2(1) s'(1) unfolding EV_FAILED_def by (subst fd_kill.simps) simp
  moreover have "pview s' = killed (L fd) (pview s)" unfolding s'(4) s2(4) s1(4) L by (auto simp: killed_def fun_eq_iff)
  moreover have "io_frame s s'" using io_frame_trans[OF io_frame_trans[OF s1(3) t(3)] s'(3)] .
  ultimately show ?case using s'(2,5) s1(6,7) t L by simp
qed

section \<open>What the kernel was told\<close>

text \<open>
  \<open>kview k\<close> is the interest list of the kernel: masks and data of the descriptors in it.  The
  documented behaviour of \<open>epoll_ctl\<close>: adding a descriptor that is there, or changing one that is not, is
  refused with its errno; adding may be refused for other reasons.
\<close>

definition epoll_docs :: "'k epoll_ctl \<Rightarrow> ('k \<Rightarrow> int \<rightharpoonup> int \<times> u64) \<Rightarrow> bool" where
  "epoll_docs ctl kview \<longleftrightarrow> (\<forall>k fd ev.
     (case ctl EPOLL_CTL_ADD fd ev k of (e, k') \<Rightarrow>
        if kview k fd \<noteq> None then e = ctl_EEXIST \<and> kview k' = kview k
        else e = 0 \<and> kview k' = (kview k)(fd \<mapsto> (ee_events ev, ee_data ev)) \<or> e \<notin> {0, ctl_ENOENT, ctl_EEXIST} \<and> kview k' = kview k) \<and>
     (case ctl EPOLL_CTL_MOD fd ev k of (e, k') \<Rightarrow>
        if kview k fd = None then e = ctl_ENOENT \<and> kview k' = kview k
        else e = 0 \<and> kview k' = (kview k)(fd \<mapsto> (ee_events ev, ee_data ev))) \<and>
     (case ctl EPOLL_CTL_DEL fd ev k of (e, k') \<Rightarrow>
        if kview k fd = None then e = ctl_ENOENT \<and> kview k' = kview k else e = 0 \<and> kview k' = (kview k)(fd := None)))"

text \<open>
  Descriptors that are watched and wanted are registered, and an entry of the kernel has the mask and the
  generation that are noted in the table.
\<close>

definition kern_ok :: "('k \<Rightarrow> int \<rightharpoonup> int \<times> u64) \<Rightarrow> (nat \<Rightarrow> ptr list) \<Rightarrow> ('k, 'a) iost_scheme \<Rightarrow> bool" where
  "kern_ok kview L s \<longleftrightarrow>
     (\<forall>fd < length (io_anfds s). an_events (io_anfds s ! fd) \<noteq> 0 \<and> L fd \<noteq> [] \<longrightarrow>
        kview (io_kern s) (int fd) = Some (epoll_mask (an_events (io_anfds s ! fd)), epoll_data (int fd) (an_egen (io_anfds s ! fd)))) \<and>
     (\<forall>fd m d. kview (io_kern s) fd = Some (m, d) \<longrightarrow> 0 \<le> fd \<and> nat fd < length (io_anfds s) \<and>
        m = epoll_mask (an_emask (io_anfds s ! nat fd)) \<and> d = epoll_data fd (an_egen (io_anfds s ! nat fd)))"

lemma kern_ok_cong:
  assumes "io_kern s' = io_kern s" "map kept (io_anfds s') = map kept (io_anfds s)"
  shows "kern_ok kview L s' = kern_ok kview L s"
proof -
  have len: "length (io_anfds s') = length (io_anfds s)" using assms(2) by (metis length_map)
  have k: "kept (io_anfds s' ! fd) = kept (io_anfds s ! fd)" if "fd < length (io_anfds s)" for fd using assms(2) that len by (metis nth_map)
  have "an_events (io_anfds s' ! fd) = an_events (io_anfds s ! fd) \<and> an_emask (io_anfds s' ! fd) = an_emask (io_anfds s ! fd) \<and> an_egen (io_anfds s' ! fd) = an_egen (io_anfds s ! fd)"
    if "fd < length (io_anfds s)" for fd
    using k[OF that] by (simp add: kept_def)
  then show ?thesis unfolding kern_ok_def len assms(1) by (simp cong: conj_cong)
qed

lemma io_ok_kern: "io_ok L i (s\<lparr>io_kern := k\<rparr>) = io_ok L i s"
proof -
  have t: "evst.truncate (s\<lparr>io_kern := k\<rparr>) = evst.truncate s" by (simp add: evst.defs)
  show ?thesis using truncate_same[OF t] by (simp add: io_ok_def io_lists_def chg_ok_def changes_def)
qed

lemma io_ok_anfd:
  fixes s :: "('k, 'a) iost_scheme"
  assumes fd: "fd < length (io_anfds s)" and anf: "io_ok L i s" "an_head a = an_head (io_anfds s ! fd)" "an_reify a = an_reify (io_anfds s ! fd)" "an_events a = an_events (io_anfds s ! fd)"
  shows "io_ok L i (s\<lparr>io_anfds := (io_anfds s)[fd := a]\<rparr>)"
proof -
  let ?s = "s\<lparr>io_anfds := (io_anfds s)[fd := a]\<rparr>"
  have t: "evst.truncate ?s = evst.truncate s" by (simp add: evst.defs)
  have n: "an_head (io_anfds ?s ! f) = an_head (io_anfds s ! f)" "an_reify (io_anfds ?s ! f) = an_reify (io_anfds s ! f)" "an_events (io_anfds ?s ! f) = an_events (io_anfds s ! f)"
    for f using anf fd by (cases "f = fd"; simp)+
  have l: "length (io_anfds ?s) = length (io_anfds s)" and c: "changes i ?s = changes i s" by (simp_all add: changes_def)
  have "map an_head (io_anfds ?s) = map an_head (io_anfds s)" by (rule nth_equalityI) (use n(1) in auto)
  then have "io_lists L ?s = io_lists L s" by (rule io_lists_cong) simp
  moreover have "chg_ok L i ?s = chg_ok L i s" unfolding chg_ok_def l c n(2,3) by simp
  ultimately show ?thesis using anf(1) truncate_same[OF t] by (simp add: io_ok_def)
qed

definition rframe :: "('k, 'a) iost_scheme \<Rightarrow> ('k, 'a) iost_scheme \<Rightarrow> bool" where
  "rframe s s' \<longleftrightarrow> length (io_anfds s') = length (io_anfds s) \<and> io_postfork s' = io_postfork s \<and> io_eventmax s' = io_eventmax s \<and>
     iost.more s' = iost.more s \<and> tmap s' = tmap s \<and> ev_mn_now s' = ev_mn_now s \<and> wev (ev_ws s') = wev (ev_ws s) \<and> rep_of s' = rep_of s"

lemma rframe_trans: "rframe s s' \<Longrightarrow> rframe s' s'' \<Longrightarrow> rframe s s''"
  by (simp add: rframe_def)

lemma rframe_table: "length xs = length (io_anfds s) \<Longrightarrow> rframe s (s\<lparr>io_anfds := xs\<rparr>)" "length xs = length (io_anfds s) \<Longrightarrow> rframe s (s\<lparr>io_anfds := xs, io_kern := k\<rparr>)"
  by (simp_all add: rframe_def tmap_def rep_of_def fun_eq_iff)

lemma io_frame_rframe: "io_frame s s' \<Longrightarrow> rframe s s'"
  using io_frame_length[of s s'] by (simp add: io_frame_def rframe_def)

lemma or_range: "a \<in> {0..3} \<Longrightarrow> b \<in> {0..3} \<Longrightarrow> a OR b \<in> {0..3::int}"
proof -
  assume "a \<in> {0..3}" "b \<in> {0..3}"
  then have "a = 0 \<or> a = 1 \<or> a = 2 \<or> a = 3" "b = 0 \<or> b = 1 \<or> b = 2 \<or> b = 3" by auto
  then show ?thesis by (elim disjE) simp_all
qed

lemma uchar_small: "e \<in> {0..3} \<Longrightarrow> uchar e = e"
  by (auto simp: uchar_def take_bit_int_eq_self_iff)

lemma want_range:
  assumes "io_lists L s"
  shows "want (ev_ws s) (L fd) \<in> {0..3}"
proof -
  have "wev (ev_ws s) x \<in> {0..3}" if "x \<in> set (L fd)" for x using io_list_watcher[OF assms that] by (auto simp: wev_def io_watcher_def)
  moreover have "fold (\<lambda>x e. e OR uchar (f x)) xs a \<in> {0..3}" if "\<And>x. x \<in> set xs \<Longrightarrow> f x \<in> {0..3}" "a \<in> {0..3}" for f xs a
    using that by (induction xs arbitrary: a) (simp_all add: or_range uchar_small del: atLeastAtMost_iff)
  ultimately show ?thesis unfolding want_def by (metis atLeastAtMost_iff order_refl zero_le_numeral)
qed

definition kern_agrees :: "('k \<Rightarrow> int \<rightharpoonup> int \<times> u64) \<Rightarrow> 'k \<Rightarrow> ANFD list \<Rightarrow> bool" where
  "kern_agrees kview k as \<longleftrightarrow> (\<forall>fd m d. kview k fd = Some (m, d) \<longrightarrow> 0 \<le> fd \<and> nat fd < length as \<and> m = epoll_mask (an_emask (as ! nat fd)) \<and> d = epoll_data fd (an_egen (as ! nat fd)))"

definition kern_has :: "('k \<Rightarrow> int \<rightharpoonup> int \<times> u64) \<Rightarrow> 'k \<Rightarrow> nat \<Rightarrow> ANFD \<Rightarrow> bool" where
  "kern_has kview k fd a \<longleftrightarrow> kview k (int fd) = Some (epoll_mask (an_events a), epoll_data (int fd) (an_egen a))"

lemma kern_ok_alt: "kern_ok kview L s \<longleftrightarrow> kern_agrees kview (io_kern s) (io_anfds s) \<and>
    (\<forall>fd < length (io_anfds s). an_events (io_anfds s ! fd) \<noteq> 0 \<and> L fd \<noteq> [] \<longrightarrow> kern_has kview (io_kern s) fd (io_anfds s ! fd))"
  by (auto simp: kern_ok_def kern_agrees_def kern_has_def)

text \<open>The kernel takes the new mask and generation of a descriptor.\<close>

lemma told_kern:
  fixes s :: "('k, 'a) iost_scheme"
  assumes fd: "fd < length (io_anfds s)" and a: "a = io_anfds s ! fd" "an_events a = nev"
    and ag: "kern_agrees kview (io_kern s) (io_anfds s)"
    and reg: "\<And>f. f < length (io_anfds s) \<Longrightarrow> f \<noteq> fd \<Longrightarrow> an_events (io_anfds s ! f) \<noteq> 0 \<Longrightarrow> L f \<noteq> [] \<Longrightarrow> kern_has kview (io_kern s) f (io_anfds s ! f)"
    and k: "kview k = (kview (io_kern s))(int fd \<mapsto> (epoll_mask nev, epoll_data (int fd) g))"
  shows "kern_ok kview L (s\<lparr>io_anfds := (io_anfds s)[fd := a\<lparr>an_emask := nev, an_egen := g\<rparr>], io_kern := k\<rparr>)"
proof -
  let ?a = "a\<lparr>an_emask := nev, an_egen := g\<rparr>"
  let ?s = "s\<lparr>io_anfds := (io_anfds s)[fd := ?a], io_kern := k\<rparr>"
  have n: "io_anfds ?s = (io_anfds s)[fd := ?a]" "io_kern ?s = k" by simp_all
  show ?thesis
    unfolding kern_ok_alt n
  proof (intro conjI allI impI)
    show "kern_agrees kview k ((io_anfds s)[fd := ?a])"
      unfolding kern_agrees_def
    proof (intro allI impI)
      fix f m d assume v: "kview k f = Some (m, d)"
      show "0 \<le> f \<and> nat f < length ((io_anfds s)[fd := ?a]) \<and> m = epoll_mask (an_emask ((io_anfds s)[fd := ?a] ! nat f)) \<and> d = epoll_data f (an_egen ((io_anfds s)[fd := ?a] ! nat f))"
      proof (cases "f = int fd")
        case True
        then show ?thesis using v fd by (simp add: k)
      next
        case False
        then have "kview (io_kern s) f = Some (m, d)" using v by (simp add: k)
        then have "0 \<le> f" "nat f < length (io_anfds s)" "m = epoll_mask (an_emask (io_anfds s ! nat f))" "d = epoll_data f (an_egen (io_anfds s ! nat f))"
          using ag by (simp_all add: kern_agrees_def)
        moreover have "nat f \<noteq> fd" using False calculation(1) by auto
        ultimately show ?thesis by simp
      qed
    qed
    show "kern_has kview k f ((io_anfds s)[fd := ?a] ! f)"
      if "f < length ((io_anfds s)[fd := ?a])" "an_events ((io_anfds s)[fd := ?a] ! f) \<noteq> 0 \<and> L f \<noteq> []" for f
      using that reg[of f] fd a(2) by (cases "f = fd") (auto simp: kern_has_def k)
  qed
qed

lemma retold_io:
  fixes s :: "('k, 'a) iost_scheme" and m :: int and g :: u32 and k :: 'k
  assumes fd: "fd < length (io_anfds s)" and ok: "io_ok L i s"
  defines "s' \<equiv> s\<lparr>io_anfds := (io_anfds s)[fd := (io_anfds s ! fd)\<lparr>an_emask := m, an_egen := g\<rparr>], io_kern := k\<rparr>"
  shows "io_ok L i s'" "rframe s s'" "pview s' = pview s" "changes i s' = changes i s"
proof -
  have "io_ok L i (s\<lparr>io_anfds := (io_anfds s)[fd := (io_anfds s ! fd)\<lparr>an_emask := m, an_egen := g\<rparr>]\<rparr>)" by (rule io_ok_anfd[OF fd ok]) simp_all
  then show "io_ok L i s'" unfolding s'_def by (simp add: io_ok_kern)
  show "rframe s s'" unfolding s'_def by (rule rframe_table) simp
  show "pview s' = pview s" using truncate_same(9)[of s' s] by (simp add: s'_def evst.defs)
  show "changes i s' = changes i s" by (simp add: s'_def changes_def)
qed

lemma told_ok:
  fixes s :: "('k, 'a) iost_scheme"
  assumes fd: "fd < length (io_anfds s)" and ok: "io_ok L i s" and a: "a = io_anfds s ! fd" "an_events a = nev"
    and ag: "kern_agrees kview (io_kern s) (io_anfds s)"
    and reg: "\<And>f. f < length (io_anfds s) \<Longrightarrow> f \<noteq> fd \<Longrightarrow> an_events (io_anfds s ! f) \<noteq> 0 \<Longrightarrow> L f \<noteq> [] \<Longrightarrow> kern_has kview (io_kern s) f (io_anfds s ! f)"
    and k: "kview k = (kview (io_kern s))(int fd \<mapsto> (epoll_mask nev, epoll_data (int fd) g))"
  defines "s' \<equiv> s\<lparr>io_anfds := (io_anfds s)[fd := a\<lparr>an_emask := nev, an_egen := g\<rparr>], io_kern := k\<rparr>"
  shows "io_ok L i s' \<and> kern_ok kview L s' \<and> rframe s s' \<and> pview s' = pview s \<and> changes i s' = changes i s"
  unfolding s'_def using told_kern[OF fd a ag reg k] retold_io[OF fd ok, where m = nev and g = g and k = k] a(1) by simp

text \<open>The kernel refuses the descriptor: its watchers are stopped and told.\<close>

lemma refused_ok:
  fixes s :: "('k, 'a) iost_scheme" and m :: int and g :: u32
  assumes fd: "fd < length (io_anfds s)" and ok: "io_ok L i s" and a: "a = io_anfds s ! fd" "an_reify a = 0" and L: "L fd \<noteq> []"
    and ag: "kern_agrees kview (io_kern s) (io_anfds s)"
    and reg: "\<And>f. f < length (io_anfds s) \<Longrightarrow> f \<noteq> fd \<Longrightarrow> an_events (io_anfds s ! f) \<noteq> 0 \<Longrightarrow> L f \<noteq> [] \<Longrightarrow> kern_has kview (io_kern s) f (io_anfds s ! f)"
    and k: "kview k = kview (io_kern s)" "kview (io_kern s) (int fd) = None"
  defines "s1 \<equiv> s\<lparr>io_anfds := (io_anfds s)[fd := a\<lparr>an_emask := m, an_egen := g\<rparr>], io_kern := k\<rparr>"
  shows "\<exists>s2 s'. fd_kill (int fd) s1 = Some s2 \<and> dec_egen (int fd) s2 = Some s' \<and> io_ok (L(fd := [])) i s' \<and> kern_ok kview (L(fd := [])) s' \<and>
    rframe s s' \<and> pview s' = killed (L fd) (pview s) \<and> changes i s' = changes i s @ [int fd]"
proof -
  let ?a = "a\<lparr>an_emask := m, an_egen := g\<rparr>"
  note rt = retold_io[OF fd ok, where m = m and g = g and k = k, folded a(1), folded s1_def]
  note ok1 = rt(1)
  have f1: "fd < length (io_anfds s1)" "an_reify (io_anfds s1 ! fd) = 0" "rframe s s1" "pview s1 = pview s" "changes i s1 = changes i s"
    using fd a(2) rt by (simp_all add: s1_def)
  obtain s2 where s2: "fd_kill (int fd) s1 = Some s2" "io_ok (L(fd := [])) i s2" "io_frame s1 s2" "pview s2 = killed (L fd) (pview s1)" "changes i s2 = changes i s1 @ [int fd]"
    using fd_kill_ok[OF ok1 f1(1)] L f1(2) by auto
  have f2: "fd < length (io_anfds s2)" using io_frame_length[OF s2(3)] f1(1) by simp
  let ?b = "(io_anfds s2 ! fd)\<lparr>an_egen := an_egen (io_anfds s2 ! fd) - 1\<rparr>"
  let ?s' = "s2\<lparr>io_anfds := (io_anfds s2)[fd := ?b]\<rparr>"
  have "dec_egen (int fd) s2 = Some ?s'" using f2 by (simp add: dec_egen_def upd_anfd_ok)
  moreover have "io_ok (L(fd := [])) i ?s'" by (rule io_ok_anfd[OF f2 s2(2)]) simp_all
  moreover have "rframe s ?s'" using rframe_trans[OF rframe_trans[OF f1(3) io_frame_rframe[OF s2(3)]] rframe_table(1)[of "(io_anfds s2)[fd := ?b]" s2]] by simp
  moreover have "pview ?s' = killed (L fd) (pview s)" using truncate_same(9)[of ?s' s2] s2(4) f1(4) by (simp add: evst.defs)
  moreover have "changes i ?s' = changes i s @ [int fd]" using s2(5) f1(5) by (simp add: changes_def)
  moreover have "kern_ok kview (L(fd := [])) ?s'"
  proof -
    have kk: "io_kern ?s' = k" using s2(3) by (simp add: io_frame_def s1_def)
    have len: "length (io_anfds ?s') = length (io_anfds s)" using io_frame_length[OF s2(3)] by (simp add: s1_def)
    have mk: "map kept (io_anfds s2) = map kept (io_anfds s1)" using s2(3) by (simp add: io_frame_def)
    have kp: "kept (io_anfds ?s' ! f) = kept (io_anfds s ! f)" if "f \<noteq> fd" "f < length (io_anfds s)" for f
    proof -
      have "kept (io_anfds s2 ! f) = kept (io_anfds s1 ! f)" using mk that(2) io_frame_length[OF s2(3)] by (metis (no_types, lifting) f1(3) nth_map rframe_def)
      then show ?thesis using that by (simp add: s1_def)
    qed
    then have same: "an_events (io_anfds ?s' ! f) = an_events (io_anfds s ! f)" "an_emask (io_anfds ?s' ! f) = an_emask (io_anfds s ! f)"
        "an_egen (io_anfds ?s' ! f) = an_egen (io_anfds s ! f)" if "f \<noteq> fd" "f < length (io_anfds s)" for f
      using that unfolding kept_def by blast+
    have "kern_agrees kview k (io_anfds ?s')"
      unfolding kern_agrees_def len
    proof (intro allI impI)
      fix f x d assume "kview k f = Some (x, d)"
      then have v: "kview (io_kern s) f = Some (x, d)" using k(1) by simp
      then have "0 \<le> f" "nat f < length (io_anfds s)" "x = epoll_mask (an_emask (io_anfds s ! nat f))" "d = epoll_data f (an_egen (io_anfds s ! nat f))"
        using ag by (simp_all add: kern_agrees_def)
      moreover have "nat f \<noteq> fd" using v k(2) calculation(1) by auto
      ultimately show "0 \<le> f \<and> nat f < length (io_anfds s) \<and> x = epoll_mask (an_emask (io_anfds ?s' ! nat f)) \<and> d = epoll_data f (an_egen (io_anfds ?s' ! nat f))"
        using same by simp
    qed
    moreover have "kern_has kview k f (io_anfds ?s' ! f)" if "f < length (io_anfds s)" "an_events (io_anfds ?s' ! f) \<noteq> 0" "(L(fd := [])) f \<noteq> []" for f
    proof -
      have "f \<noteq> fd" using that(3) by auto
      with that reg[of f] same[of f] show ?thesis by (simp add: kern_has_def k(1))
    qed
    ultimately show ?thesis unfolding kern_ok_alt kk len by blast
  qed
  ultimately show ?thesis using s2(1) by blast
qed

definition reified_as :: "('k \<Rightarrow> int \<rightharpoonup> int \<times> u64) \<Rightarrow> nat \<Rightarrow> nat \<Rightarrow> (nat \<Rightarrow> ptr list) \<Rightarrow> ('k, 'a) iost_scheme \<Rightarrow> (nat \<Rightarrow> ptr list) \<Rightarrow> ('k, 'a) iost_scheme \<Rightarrow> bool" where
  "reified_as kview i fd L s L' s' \<longleftrightarrow> io_ok L' i s' \<and> kern_ok kview L' s' \<and> rframe s s' \<and>
     (L' = L \<and> pview s' = pview s \<and> changes i s' = changes i s \<or>
      L fd \<noteq> [] \<and> L' = L(fd := []) \<and> pview s' = killed (L fd) (pview s) \<and> changes i s' = changes i s @ [int fd])"

lemma epoll_modify_ok:
  fixes s :: "('k, 'a) iost_scheme"
  assumes docs: "epoll_docs ctl kview" and fd: "fd < length (io_anfds s)" and ok: "io_ok L i s"
    and a: "an_events (io_anfds s ! fd) = nev" "nev \<in> {1..3}" "an_reify (io_anfds s ! fd) = 0" and L: "L fd \<noteq> []"
    and ag: "kern_agrees kview (io_kern s) (io_anfds s)"
    and reg: "\<And>f. f < length (io_anfds s) \<Longrightarrow> f \<noteq> fd \<Longrightarrow> an_events (io_anfds s ! f) \<noteq> 0 \<Longrightarrow> L f \<noteq> [] \<Longrightarrow> kern_has kview (io_kern s) f (io_anfds s ! f)"
    and old: "oev \<noteq> 0 \<Longrightarrow> kview (io_kern s) (int fd) \<noteq> None"
  shows "\<exists>s' L'. epoll_modify ctl (int fd) oev nev s = Some s' \<and> reified_as kview i fd L s L' s'"
proof -
  let ?a = "io_anfds s ! fd" let ?g = "an_egen ?a + 1"
  let ?ev = "\<lparr>ee_events = epoll_mask nev, ee_data = epoll_data (int fd) ?g\<rparr>"
  let ?s1 = "s\<lparr>io_anfds := (io_anfds s)[fd := ?a\<lparr>an_emask := nev, an_egen := ?g\<rparr>]\<rparr>"
  have nev: "nev \<noteq> 0" "uchar nev = nev" using a(2) uchar_small[of nev] by auto
  obtain ea ka em km where c: "ctl EPOLL_CTL_ADD (int fd) ?ev (io_kern s) = (ea, ka)" "ctl EPOLL_CTL_MOD (int fd) ?ev (io_kern s) = (em, km)" by (metis surj_pair)
  have D: "if kview (io_kern s) (int fd) \<noteq> None then ea = ctl_EEXIST \<and> kview ka = kview (io_kern s)
      else ea = 0 \<and> kview ka = (kview (io_kern s))(int fd \<mapsto> (epoll_mask nev, epoll_data (int fd) ?g)) \<or> ea \<notin> {0, ctl_ENOENT, ctl_EEXIST} \<and> kview ka = kview (io_kern s)"
    "kview (io_kern s) (int fd) \<noteq> None \<Longrightarrow> em = 0 \<and> kview km = (kview (io_kern s))(int fd \<mapsto> (epoll_mask nev, epoll_data (int fd) ?g))"
    using docs[unfolded epoll_docs_def, THEN spec, of "io_kern s", THEN spec, of "int fd", THEN spec, of ?ev] c by (auto split: if_splits)
  have told: "\<exists>s' L'. Some (?s1\<lparr>io_kern := k\<rparr>) = Some s' \<and> reified_as kview i fd L s L' s'"
    if "kview k = (kview (io_kern s))(int fd \<mapsto> (epoll_mask nev, epoll_data (int fd) ?g))" for k
    using told_ok[OF fd ok refl a(1) ag reg that] by (auto simp: reified_as_def)
  show ?thesis
  proof (cases "oev = 0")
    case False
    then have m: "em = 0" "kview km = (kview (io_kern s))(int fd \<mapsto> (epoll_mask nev, epoll_data (int fd) ?g))" using D(2) old by simp_all
    have "epoll_modify ctl (int fd) oev nev s = Some (?s1\<lparr>io_kern := km\<rparr>)"
      using False nev c(2) m(1) fd by (simp add: epoll_modify_def upd_anfd_ok do_ctl_def Let_def)
    with told[OF m(2)] show ?thesis by simp
  next
    case oev: True
    show ?thesis
    proof (cases "kview (io_kern s) (int fd)")
      case None
      show ?thesis
      proof (cases "ea = 0")
        case True
        then have "kview ka = (kview (io_kern s))(int fd \<mapsto> (epoll_mask nev, epoll_data (int fd) ?g))" using D(1) None by simp
        moreover have "epoll_modify ctl (int fd) oev nev s = Some (?s1\<lparr>io_kern := ka\<rparr>)"
          using oev nev c(1) True fd by (simp add: epoll_modify_def upd_anfd_ok do_ctl_def Let_def)
        ultimately show ?thesis using told by simp
      next
        case False
        then have e: "ea \<notin> {0, ctl_ENOENT, ctl_EEXIST}" "kview ka = kview (io_kern s)" using D(1) None by auto
        have "epoll_modify ctl (int fd) oev nev s = do { s \<leftarrow> fd_kill (int fd) (?s1\<lparr>io_kern := ka\<rparr>); dec_egen (int fd) s }"
          using oev nev c(1) e(1) fd by (simp add: epoll_modify_def upd_anfd_ok do_ctl_def Let_def)
        with refused_ok[OF fd ok refl a(3) L ag reg e(2) None, where m = nev and g = ?g] show ?thesis using L unfolding reified_as_def by force
      qed
    next
      case (Some md)
      then have e: "ea = ctl_EEXIST" "kview ka = kview (io_kern s)" using D(1) by simp_all
      obtain em' km' where c': "ctl EPOLL_CTL_MOD (int fd) ?ev ka = (em', km')" by (metis surj_pair)
      have m: "em' = 0" "kview km' = (kview (io_kern s))(int fd \<mapsto> (epoll_mask nev, epoll_data (int fd) ?g))"
        using docs[unfolded epoll_docs_def, THEN spec, of ka, THEN spec, of "int fd", THEN spec, of ?ev] c' e(2) Some by (auto split: if_splits)
      have ne: "ctl_EEXIST \<noteq> 0" "ctl_EEXIST \<noteq> ctl_ENOENT" by (simp_all add: ctl_EEXIST_def ctl_ENOENT_def)
      show ?thesis
      proof (cases "an_emask ?a = nev")
        case False
        have "epoll_modify ctl (int fd) oev nev s = Some (?s1\<lparr>io_kern := km'\<rparr>)"
          using oev nev c(1) c' e(1) m(1) ne False fd by (simp add: epoll_modify_def upd_anfd_ok do_ctl_def Let_def)
        with told[OF m(2)] show ?thesis by simp
      next
        case True
        let ?s2 = "s\<lparr>io_anfds := (io_anfds s)[fd := ?a\<lparr>an_emask := nev, an_egen := an_egen ?a\<rparr>], io_kern := ka\<rparr>"
        have "epoll_modify ctl (int fd) oev nev s = Some (?s1\<lparr>io_kern := ka, io_anfds := (io_anfds s)[fd := ?a\<lparr>an_emask := nev\<rparr>]\<rparr>)"
          using oev nev c(1) e(1) ne True fd by (simp add: epoll_modify_def upd_anfd_ok do_ctl_def Let_def dec_egen_def)
        moreover have "?s1\<lparr>io_kern := ka, io_anfds := (io_anfds s)[fd := ?a\<lparr>an_emask := nev\<rparr>]\<rparr> = ?s2" by (cases s) simp
        moreover have "kview ka = (kview (io_kern s))(int fd \<mapsto> (epoll_mask nev, epoll_data (int fd) (an_egen ?a)))"
        proof -
          obtain m d where md: "md = (m, d)" by (cases md)
          then have "m = epoll_mask (an_emask ?a)" "d = epoll_data (int fd) (an_egen ?a)" using ag[unfolded kern_agrees_def, THEN spec, of "int fd"] Some by simp_all
          then show ?thesis using Some e(2) True md by (simp add: fun_upd_idem)
        qed
        ultimately show ?thesis using told_ok[OF fd ok refl a(1) ag reg, of ka "an_egen ?a"] by (auto simp: reified_as_def)
      qed
    qed
  qed
qed

text \<open>One descriptor of the array of changes.\<close>

lemma changes_step: "i < io_fdchangecnt s \<Longrightarrow> io_fdchangecnt s \<le> length (io_fdchanges s) \<Longrightarrow> changes i s = io_fdchanges s ! i # changes (Suc i) s"
  by (simp add: changes_def Cons_nth_drop_Suc[symmetric])

lemma reset_ok:
  fixes s :: "('k, 'a) iost_scheme"
  assumes ok: "io_ok L i s" and i: "i < io_fdchangecnt s" "io_fdchanges s ! i = int fd" and fd: "fd < length (io_anfds s)"
  shows "io_ok L (Suc i) (s\<lparr>io_anfds := (io_anfds s)[fd := (io_anfds s ! fd)\<lparr>an_reify := 0, an_events := want (ev_ws s) (L fd)\<rparr>]\<rparr>)"
proof -
  let ?a = "(io_anfds s ! fd)\<lparr>an_reify := 0, an_events := want (ev_ws s) (L fd)\<rparr>"
  let ?s = "s\<lparr>io_anfds := (io_anfds s)[fd := ?a]\<rparr>"
  have inv: "tm_inv s" "pend_ok s" "io_lists L s" "chg_ok L i s" using ok by (simp_all add: io_ok_def)
  have cs: "changes i s = int fd # changes (Suc i) s" using changes_step[of i s] inv(4) i by (simp add: chg_ok_def)
  have c: "changes (Suc i) ?s = changes (Suc i) s" by (simp add: changes_def)
  have t: "evst.truncate ?s = evst.truncate s" by (simp add: evst.defs)
  have "map an_head (io_anfds ?s) = map an_head (io_anfds s)" by (rule nth_equalityI) (use fd in \<open>auto simp: nth_list_update\<close>)
  then have lists: "io_lists L ?s" using inv(3) io_lists_cong[of ?s s L] by simp
  have "chg_ok L (Suc i) ?s"
    unfolding chg_ok_def c
  proof (intro conjI allI impI)
    show "Suc i \<le> io_fdchangecnt ?s" using i(1) by simp
    show "io_fdchangecnt ?s \<le> length (io_fdchanges ?s)" using inv(4) by (simp add: chg_ok_def)
    show "set (changes (Suc i) s) \<subseteq> {0..<int (length (io_anfds ?s))}" using inv(4) cs by (simp add: chg_ok_def)
    fix f assume f: "f < length (io_anfds ?s)"
    show "int f \<in> set (changes (Suc i) s)" if "an_reify (io_anfds ?s ! f) \<noteq> 0"
      using that inv(4) f cs fd by (cases "f = fd") (auto simp: chg_ok_def)
    show "an_events (io_anfds ?s ! f) = want (ev_ws ?s) (L f)" if "int f \<notin> set (changes (Suc i) s)"
      using that inv(4) f cs fd by (cases "f = fd") (auto simp: chg_ok_def)
  qed
  then show ?thesis using inv lists truncate_same[OF t] by (simp add: io_ok_def)
qed

lemma reify_fd_ok:
  fixes s :: "('k, 'a) iost_scheme"
  assumes docs: "epoll_docs ctl kview" and ok: "io_ok L i s" and k: "kern_ok kview L s" and i: "i < io_fdchangecnt s" "io_fdchanges s ! i = int fd" and fd: "fd < length (io_anfds s)"
  shows "\<exists>s' L'. reify_fd (epoll_modify ctl) (int fd) s = Some s' \<and> reified_as kview (Suc i) fd L s L' s'"
proof -
  let ?w = "want (ev_ws s) (L fd)"
  let ?a = "(io_anfds s ! fd)\<lparr>an_reify := 0, an_events := ?w\<rparr>"
  let ?s = "s\<lparr>io_anfds := (io_anfds s)[fd := ?a]\<rparr>"
  have inv: "io_lists L s" using ok by (simp add: io_ok_def)
  have ok1: "io_ok L (Suc i) ?s" by (rule reset_ok[OF ok i fd])
  have wl: "wlist (ev_ws s) (an_head (io_anfds s ! fd)) (L fd)" using inv fd by (auto simp: io_lists_def io_list_def dest!: spec[of _ fd])
  have eq: "reify_fd (epoll_modify ctl) (int fd) s =
      (if an_events (io_anfds s ! fd) \<noteq> ?w \<or> an_reify (io_anfds s ! fd) AND EV_IOFDSET \<noteq> 0 then epoll_modify ctl (int fd) (an_events (io_anfds s ! fd)) ?w ?s else Some ?s)"
    using fd wlist_events_ok[OF wl, of 0] by (simp add: reify_fd_def upd_anfd_ok want_def)
  have same: "rframe s ?s" "pview ?s = pview s" "changes (Suc i) ?s = changes (Suc i) s" "io_kern ?s = io_kern s"
    using rframe_table(1)[of "(io_anfds s)[fd := ?a]" s] truncate_same(9)[of ?s s] by (simp_all add: evst.defs changes_def)
  have k0: "kern_agrees kview (io_kern s) (io_anfds s)"
    "\<And>f. f < length (io_anfds s) \<Longrightarrow> an_events (io_anfds s ! f) \<noteq> 0 \<Longrightarrow> L f \<noteq> [] \<Longrightarrow> kern_has kview (io_kern s) f (io_anfds s ! f)"
    using k by (auto simp: kern_ok_alt)
  have ag: "kern_agrees kview (io_kern s) ((io_anfds s)[fd := ?a])"
    using k0(1) fd by (auto simp: kern_agrees_def nth_list_update)
  have reg: "kern_has kview (io_kern s) f ((io_anfds s)[fd := ?a] ! f)"
    if "f < length (io_anfds s)" "f \<noteq> fd" "an_events ((io_anfds s)[fd := ?a] ! f) \<noteq> 0" "L f \<noteq> []" for f
    using that k0(2)[of f] by simp
  have quiet: "\<exists>s' L'. Some ?s = Some s' \<and> reified_as kview (Suc i) fd L s L' s'"
    if "?w \<noteq> 0 \<Longrightarrow> L fd \<noteq> [] \<Longrightarrow> kern_has kview (io_kern s) fd ?a"
  proof -
    have "kern_has kview (io_kern s) f ((io_anfds s)[fd := ?a] ! f)" if "f < length (io_anfds s)" "an_events ((io_anfds s)[fd := ?a] ! f) \<noteq> 0" "L f \<noteq> []" for f
      using reg[of f] that \<open>?w \<noteq> 0 \<Longrightarrow> L fd \<noteq> [] \<Longrightarrow> kern_has kview (io_kern s) fd ?a\<close> fd by (cases "f = fd") simp_all
    then have "kern_ok kview L ?s" unfolding kern_ok_alt using ag by simp
    then show ?thesis using ok1 same by (auto simp: reified_as_def)
  qed
  show ?thesis
  proof (cases "an_events (io_anfds s ! fd) \<noteq> ?w \<or> an_reify (io_anfds s ! fd) AND EV_IOFDSET \<noteq> 0")
    case False
    have "kern_has kview (io_kern s) fd ?a" if "?w \<noteq> 0" "L fd \<noteq> []" using k0(2)[OF fd] False that by (simp add: kern_has_def)
    from quiet[OF this] show ?thesis using False unfolding eq by simp
  next
    case True
    show ?thesis
    proof (cases "?w = 0")
      case z: True
      have "epoll_modify ctl (int fd) (an_events (io_anfds s ! fd)) ?w ?s = Some ?s" by (simp add: epoll_modify_def z)
      with quiet z True show ?thesis unfolding eq by simp
    next
      case False
      have L: "L fd \<noteq> []" using False by auto
      have "\<exists>s' L'. epoll_modify ctl (int fd) (an_events (io_anfds s ! fd)) ?w ?s = Some s' \<and> reified_as kview (Suc i) fd L ?s L' s'"
      proof (rule epoll_modify_ok[OF docs _ ok1 _ _ _ L])
        show "?w \<in> {1..3}" using want_range[OF inv, of fd] False by auto
        show "kview (io_kern ?s) (int fd) \<noteq> None" if "an_events (io_anfds s ! fd) \<noteq> 0" using k0(2)[OF fd that L] by (simp add: kern_has_def)
        show "kern_agrees kview (io_kern ?s) (io_anfds ?s)" using ag by simp
        show "kern_has kview (io_kern ?s) f (io_anfds ?s ! f)" if "f < length (io_anfds ?s)" "f \<noteq> fd" "an_events (io_anfds ?s ! f) \<noteq> 0" "L f \<noteq> []" for f
          using reg[of f] that by simp
      qed (use fd in simp_all)
      then obtain s' L' where "epoll_modify ctl (int fd) (an_events (io_anfds s ! fd)) ?w ?s = Some s'" "reified_as kview (Suc i) fd L ?s L' s'" by blast
      moreover from this(2) have "reified_as kview (Suc i) fd L s L' s'" using same rframe_trans[OF same(1), of s'] by (auto simp: reified_as_def)
      ultimately show ?thesis using True unfolding eq by auto
    qed
  qed
qed

definition load :: "(nat \<Rightarrow> ptr list) \<Rightarrow> int list \<Rightarrow> nat" where
  "load L fds = sum_list (map (\<lambda>fd. if L (nat fd) = [] then 1 else 2) fds)"

lemma load_less: "load (L(fd := [])) fds \<le> load L fds"
  unfolding load_def by (induction fds) auto

definition failed :: "(nat \<Rightarrow> ptr list) \<Rightarrow> (nat \<Rightarrow> ptr list) \<Rightarrow> (ptr \<rightharpoonup> int) \<Rightarrow> ptr \<rightharpoonup> int" where
  "failed L L' v q = (if \<exists>f. q \<in> set (L f) \<and> L' f = [] then Some EV_FAILED else v q)"

definition shrunk :: "(nat \<Rightarrow> ptr list) \<Rightarrow> (nat \<Rightarrow> ptr list) \<Rightarrow> bool" where
  "shrunk L L' \<longleftrightarrow> (\<forall>f. L' f = L f \<or> L' f = [])"

lemma failed_refl: "failed L L v = v"
  by (auto simp: failed_def fun_eq_iff)

lemma failed_trans:
  assumes "shrunk (L(fd := [])) L'"
  shows "failed (L(fd := [])) L' (killed (L fd) v) = failed L L' v"
proof
  fix q
  have "L' fd = []" using assms by (auto simp: shrunk_def dest!: spec[of _ fd])
  moreover have "(\<exists>f. q \<in> set ((L(fd := [])) f) \<and> L' f = []) \<longleftrightarrow> (\<exists>f. f \<noteq> fd \<and> q \<in> set (L f) \<and> L' f = [])" by (auto split: if_splits)
  ultimately show "failed (L(fd := [])) L' (killed (L fd) v) q = failed L L' v q" unfolding failed_def killed_def by metis
qed

lemma reify_from_ok:
  fixes s :: "('k, 'a) iost_scheme"
  assumes "epoll_docs ctl kview" "io_ok L i s" "kern_ok kview L s"
  shows "\<exists>s' L'. reify_from (epoll_modify ctl) i s = Some s' \<and> io_ok L' (io_fdchangecnt s') s' \<and> kern_ok kview L' s' \<and> rframe s s' \<and> shrunk L L' \<and>
    pview s' = failed L L' (pview s)"
  using assms(2,3)
proof (induction "load L (changes i s)" arbitrary: L i s rule: less_induct)
  case less
  have c: "io_fdchangecnt s \<le> length (io_fdchanges s)" "i \<le> io_fdchangecnt s" "set (changes i s) \<subseteq> {0 ..< int (length (io_anfds s))}"
    using less.prems(1) by (simp_all add: io_ok_def chg_ok_def)
  show ?case
  proof (cases "i < io_fdchangecnt s")
    case False
    then have "i = io_fdchangecnt s" using c(2) by simp
    moreover have "reify_from (epoll_modify ctl) i s = Some s" using False by (simp add: reify_from.simps[of _ i])
    ultimately show ?thesis using less.prems by (intro exI[of _ s] exI[of _ L]) (simp add: rframe_def shrunk_def failed_refl)
  next
    case True
    have ch: "changes i s = io_fdchanges s ! i # changes (Suc i) s" by (rule changes_step[OF True c(1)])
    obtain fd where fd: "io_fdchanges s ! i = int fd" "fd < length (io_anfds s)"
    proof -
      have "0 \<le> io_fdchanges s ! i" "io_fdchanges s ! i < int (length (io_anfds s))" using c(3) ch by auto
      then show thesis using that[of "nat (io_fdchanges s ! i)"] by auto
    qed
    obtain s1 L1 where s1: "reify_fd (epoll_modify ctl) (int fd) s = Some s1" "reified_as kview (Suc i) fd L s L1 s1"
      using reify_fd_ok[OF assms(1) less.prems True fd] by blast
    have ok1: "io_ok L1 (Suc i) s1" "kern_ok kview L1 s1" "rframe s s1" using s1(2) by (simp_all add: reified_as_def)
    have step: "reify_from (epoll_modify ctl) i s = reify_from (epoll_modify ctl) (Suc i) s1"
      using True c(1) fd(1) s1(1) by (subst reify_from.simps) simp
    have lch: "load L (changes i s) = (if L fd = [] then 1 else 2) + load L (changes (Suc i) s)" by (simp add: ch fd(1) load_def)
    consider (same) "L1 = L" "pview s1 = pview s" "changes (Suc i) s1 = changes (Suc i) s"
      | (gone) "L fd \<noteq> []" "L1 = L(fd := [])" "pview s1 = killed (L fd) (pview s)" "changes (Suc i) s1 = changes (Suc i) s @ [int fd]"
      using s1(2) by (auto simp: reified_as_def)
    then show ?thesis
    proof cases
      case same
      have "load L1 (changes (Suc i) s1) < load L (changes i s)" unfolding lch same by simp
      from less.hyps[OF this ok1(1,2)] show ?thesis unfolding step same(1,2) using rframe_trans[OF ok1(3)] by metis
    next
      case gone
      have "load L1 (changes (Suc i) s1) = load L1 (changes (Suc i) s) + 1" by (simp add: gone(2,4) load_def)
      also have "\<dots> < load L (changes i s)" using load_less[of L fd "changes (Suc i) s"] gone(1) unfolding lch gone(2) by simp
      finally obtain s' L' where s': "reify_from (epoll_modify ctl) (Suc i) s1 = Some s'" "io_ok L' (io_fdchangecnt s') s'" "kern_ok kview L' s'" "rframe s1 s'"
          "shrunk (L(fd := [])) L'" "pview s' = failed (L(fd := [])) L' (killed (L fd) (pview s))"
        using less.hyps[OF _ ok1(1,2)] unfolding gone(2,3) by blast
      have "shrunk L L'" using s'(5) unfolding shrunk_def by (metis fun_upd_apply)
      then show ?thesis using s' failed_trans[OF s'(5)] rframe_trans[OF ok1(3) s'(4)] unfolding step by metis
    qed
  qed
qed

text \<open>Between two passes every wanted descriptor is registered, watched or not.\<close>

definition kern_sync :: "('k \<Rightarrow> int \<rightharpoonup> int \<times> u64) \<Rightarrow> ('k, 'a) iost_scheme \<Rightarrow> bool" where
  "kern_sync kview s \<longleftrightarrow> kern_ok kview (\<lambda>_. [NULL]) s"

lemma fd_reify_ok:
  fixes s :: "('k, 'a) iost_scheme"
  assumes "epoll_docs ctl kview" "io_ok L 0 s" "kern_sync kview s"
  shows "\<exists>s' L'. fd_reify (epoll_modify ctl) s = Some s' \<and> io_ok L' 0 s' \<and> kern_sync kview s' \<and> changes 0 s' = [] \<and> rframe s s' \<and> shrunk L L' \<and>
    pview s' = failed L L' (pview s)"
proof -
  have "kern_ok kview L s" using assms(3) by (simp add: kern_sync_def kern_ok_def)
  from reify_from_ok[OF assms(1,2) this] obtain s1 L' where s1: "reify_from (epoll_modify ctl) 0 s = Some s1" "io_ok L' (io_fdchangecnt s1) s1" "kern_ok kview L' s1"
      "rframe s s1" "shrunk L L'" "pview s1 = failed L L' (pview s)" by blast
  let ?s = "s1\<lparr>io_fdchangecnt := 0\<rparr>"
  have t: "evst.truncate ?s = evst.truncate s1" by (simp add: evst.defs)
  have c: "changes (io_fdchangecnt s1) s1 = []" "changes 0 ?s = []" by (simp_all add: changes_def)
  have chg: "chg_ok L' 0 ?s" using s1(2) by (simp add: io_ok_def chg_ok_def c)
  then have "io_ok L' 0 ?s" using s1(2) truncate_same[OF t] by (simp add: io_ok_def io_lists_def)
  moreover have "an_events (io_anfds s1 ! fd) \<noteq> 0 \<Longrightarrow> L' fd \<noteq> []" if "fd < length (io_anfds s1)" for fd
    using chg that by (auto simp: chg_ok_def c)
  then have "kern_sync kview ?s" using s1(3) by (auto simp: kern_sync_def kern_ok_def)
  moreover have "rframe s ?s" using s1(4) truncate_same(7)[OF t] rep_truncate[OF t] by (simp add: rframe_def)
  moreover have "pview ?s = failed L L' (pview s)" using truncate_same(9)[OF t] s1(6) by simp
  ultimately show ?thesis using s1(1,5) c(2) by (intro exI[of _ ?s] exI[of _ L']) (simp add: fd_reify_def)
qed

lemma kern_sync_frame: "io_frame s s' \<Longrightarrow> kern_sync kview s' = kern_sync kview s"
  unfolding kern_sync_def by (rule kern_ok_cong) (simp_all add: io_frame_def)

lemma kern_sync_grown:
  fixes s s' :: "('k, 'a) iost_scheme"
  assumes "grown s s'" "kern_sync kview s"
  shows "kern_sync kview s'"
proof -
  obtain k where k: "map kept (io_anfds s') = map kept (io_anfds s) @ replicate k (kept zero_ANFD)" "io_kern s' = io_kern s" using assms(1) by (auto simp: grown_def)
  let ?t = "s\<lparr>io_anfds := io_anfds s @ replicate k zero_ANFD\<rparr>"
  have "kern_sync kview ?t"
    using assms(2) by (auto simp: kern_sync_def kern_ok_def nth_append zero_ANFD_def trans_less_add1)
  then show ?thesis using kern_ok_cong[of s' ?t kview "\<lambda>_. [NULL]"] k by (simp add: kern_sync_def)
qed

section \<open>What the kernel reports\<close>

lemma epoll_data_inverse: "epoll_data (epoll_fd d) (epoll_gen d) = d"
proof (rule bit_word_eqI)
  fix n assume n: "n < LENGTH(64)"
  have "word_of_int (sint (ucast d :: u32)) = (ucast d :: u32)" by simp
  then show "bit (epoll_data (epoll_fd d) (epoll_gen d)) n = bit d n"
    using n by (auto simp: epoll_data_def epoll_fd_def epoll_gen_def bit_simps)
qed

lemma epoll_data_parts:
  assumes "0 \<le> fd" "fd < 2 ^ 31"
  shows "epoll_fd (epoll_data fd g) = fd" "epoll_gen (epoll_data fd g) = g"
proof -
  have "ucast (epoll_data fd g) = (word_of_int fd :: u32)"
    by (rule bit_word_eqI) (auto simp: epoll_data_def bit_simps)
  moreover have "sint (word_of_int fd :: u32) = fd" using assms by (simp add: signed_of_int signed_take_bit_int_eq_self_iff)
  ultimately show "epoll_fd (epoll_data fd g) = fd" by (simp add: epoll_fd_def)
  show "epoll_gen (epoll_data fd g) = g"
    unfolding epoll_gen_def by (rule bit_word_eqI) (auto simp: epoll_data_def bit_simps)
qed

text \<open>The events of a report, for the present generation of its descriptor, go to the watchers that asked for them.\<close>

definition delivered :: "(nat \<Rightarrow> ptr list) \<Rightarrow> (ptr \<Rightarrow> int) \<Rightarrow> u32 list \<Rightarrow> epoll_event \<Rightarrow> (ptr \<rightharpoonup> int) \<Rightarrow> ptr \<rightharpoonup> int" where
  "delivered L we gens ev v q =
     (let fd = nat (epoll_fd (ee_data ev)); e = we q AND epoll_got (ee_events ev) in
      if gens ! fd = epoll_gen (ee_data ev) \<and> q \<in> set (L fd) \<and> e \<noteq> 0 then Some (case v q of None \<Rightarrow> e | Some d \<Rightarrow> d OR e) else v q)"

lemma delivered_feed:
  assumes "fd = nat (epoll_fd (ee_data ev))" "gens ! fd = epoll_gen (ee_data ev)"
  shows "delivered L (wev ws) gens ev v = feed_all ws (L fd) (epoll_got (ee_events ev)) v"
  using assms by (auto simp: delivered_def feed_all_def fun_eq_iff Let_def)

lemma delivered_stale: "gens ! nat (epoll_fd (ee_data ev)) \<noteq> epoll_gen (ee_data ev) \<Longrightarrow> delivered L we gens ev v = v"
  by (auto simp: delivered_def fun_eq_iff Let_def)

lemma fold_or_zero: "fold (\<lambda>x e. e OR uchar (f x)) zs a = 0 \<Longrightarrow> a = 0"
proof (induction zs arbitrary: a)
  case (Cons z zs)
  have "a OR uchar (f z) = 0" by (rule Cons.IH) (use Cons.prems in simp)
  then show ?case by (simp add: or_eq_0_iff)
qed simp

lemma want_zero:
  assumes "io_lists L s" "want (ev_ws s) (L fd) = 0" "x \<in> set (L fd)"
  shows "wev (ev_ws s) x = 0"
proof -
  have "uchar (f x) = 0 \<and> a = 0" if "fold (\<lambda>x e. e OR uchar (f x)) xs a = 0" "x \<in> set xs" for f :: "ptr \<Rightarrow> int" and xs a x
    using that
  proof (induction xs arbitrary: a)
    case (Cons y ys)
    have "a OR uchar (f y) = 0" using fold_or_zero[where zs = ys] Cons.prems(1) by simp
    then show ?case using Cons by (cases "x = y") (auto simp: or_eq_0_iff)
  qed simp
  from this[of "wev (ev_ws s)" "L fd" 0 x] assms(2,3) have "uchar (wev (ev_ws s) x) = 0" by (simp add: want_def)
  moreover have "wev (ev_ws s) x \<in> {0..3}" using io_list_watcher[OF assms(1,3)] by (auto simp: wev_def io_watcher_def)
  ultimately show ?thesis using uchar_small by simp
qed

definition polled :: "('k \<Rightarrow> int \<rightharpoonup> int \<times> u64) \<Rightarrow> (nat \<Rightarrow> ptr list) \<Rightarrow> ('k, 'a) iost_scheme \<Rightarrow> ('k, 'a) iost_scheme \<Rightarrow> bool" where
  "polled kview L s s' \<longleftrightarrow> io_ok L 0 s' \<and> kern_sync kview s' \<and> changes 0 s' = [] \<and> map an_egen (io_anfds s') = map an_egen (io_anfds s) \<and>
     io_eventmax s' = io_eventmax s \<and> iost.more s' = iost.more s \<and> tmap s' = tmap s \<and> ev_mn_now s' = ev_mn_now s \<and> wev (ev_ws s') = wev (ev_ws s) \<and> rep_of s' = rep_of s"

lemma polled_trans: "polled kview L s s' \<Longrightarrow> polled kview L s' s'' \<Longrightarrow> polled kview L s s''"
  by (simp add: polled_def)

lemma postfork_ok:
  assumes "polled kview L s s'"
  shows "polled kview L s (s'\<lparr>io_postfork := b\<rparr>)" "pview (s'\<lparr>io_postfork := b\<rparr>) = pview s'"
proof -
  let ?s = "s'\<lparr>io_postfork := b\<rparr>"
  have t: "evst.truncate ?s = evst.truncate s'" by (simp add: evst.defs)
  show "pview ?s = pview s'" by (rule truncate_same(9)[OF t])
  show "polled kview L s ?s" using assms truncate_same[OF t] rep_truncate[OF t]
    by (simp add: polled_def io_ok_def io_lists_def chg_ok_def changes_def kern_sync_def kern_ok_def)
qed

lemma polled_event:
  fixes s s1 :: "('k, 'a) iost_scheme"
  assumes "polled kview L s s1" "fd < length (io_anfds s1)"
  shows "\<exists>s'. fd_event (int fd) r s1 = Some s' \<and> polled kview L s s' \<and> pview s' = feed_all (ev_ws s1) (L fd) r (pview s1)"
proof -
  have ok: "io_ok L 0 s1" using assms(1) by (simp add: polled_def)
  obtain s' where s': "fd_event (int fd) r s1 = Some s'" "pend_ok s'" "tframe s1 s'" "pview s' = feed_all (ev_ws s1) (L fd) r (pview s1)"
    using fd_event_ok[of s1 L fd r] ok assms(2) by (auto simp: io_ok_def)
  note t = tframe_io[OF s'(3)]
  have "kern_sync kview s' = kern_sync kview s1" by (rule kern_sync_frame[OF t(3)])
  moreover have "io_eventmax s' = io_eventmax s1" "iost.more s' = iost.more s1" "tmap s' = tmap s1" "ev_mn_now s' = ev_mn_now s1" "rep_of s' = rep_of s1" using t(3) by (simp_all add: io_frame_def)
  ultimately have "polled kview L s s'" using assms(1) s'(2) by (simp add: polled_def io_ok_def t)
  with s' show ?thesis by blast
qed

text \<open>A report of something that is not wanted: the mask of the kernel is set right.\<close>

lemma mask_corrected:
  fixes s :: "('k, 'a) iost_scheme"
  assumes docs: "epoll_docs ctl kview" and p: "polled kview L s s" and fd: "fd < length (io_anfds s)"
    and a: "an_events (io_anfds s ! fd) = w" and d: "ee_data ev = epoll_data (int fd) (an_egen (io_anfds s ! fd))"
  shows "\<exists>e s1. do_ctl ctl (if w \<noteq> 0 then EPOLL_CTL_MOD else EPOLL_CTL_DEL) (int fd) (ev\<lparr>ee_events := epoll_mask w\<rparr>)
      (s\<lparr>io_anfds := (io_anfds s)[fd := (io_anfds s ! fd)\<lparr>an_emask := w\<rparr>]\<rparr>) = (e, s1) \<and>
    polled kview L s s1 \<and> pview s1 = pview s \<and> ev_ws s1 = ev_ws s \<and> (e = 0 \<or> w = 0)"
proof -
  let ?a = "io_anfds s ! fd" let ?ev = "ev\<lparr>ee_events := epoll_mask w\<rparr>"
  let ?as = "(io_anfds s)[fd := ?a\<lparr>an_emask := w, an_egen := an_egen ?a\<rparr>]"
  obtain e k where c: "ctl (if w \<noteq> 0 then EPOLL_CTL_MOD else EPOLL_CTL_DEL) (int fd) ?ev (io_kern s) = (e, k)" by (metis surj_pair)
  let ?s1 = "s\<lparr>io_anfds := ?as, io_kern := k\<rparr>"
  have io: "io_ok L 0 s" "kern_sync kview s" "changes 0 s = []" using p by (simp_all add: polled_def)
  note rt = retold_io[OF fd io(1), where m = w and g = "an_egen ?a" and k = k]
  have ks: "kern_agrees kview (io_kern s) (io_anfds s)"
    "\<And>f. f < length (io_anfds s) \<Longrightarrow> an_events (io_anfds s ! f) \<noteq> 0 \<Longrightarrow> kern_has kview (io_kern s) f (io_anfds s ! f)"
    using io(2) by (auto simp: kern_sync_def kern_ok_alt)
  note D = docs[unfolded epoll_docs_def, THEN spec, of "io_kern s", THEN spec, of "int fd", THEN spec, of ?ev]
  have "kern_sync kview ?s1 \<and> (e = 0 \<or> w = 0)"
  proof (cases "w = 0")
    case False
    have "kview (io_kern s) (int fd) \<noteq> None" using ks(2)[OF fd] a False by (simp add: kern_has_def)
    then have "e = 0" "kview k = (kview (io_kern s))(int fd \<mapsto> (epoll_mask w, epoll_data (int fd) (an_egen ?a)))"
      using D c False d by (auto split: if_splits)
    then show ?thesis using told_kern[OF fd refl a ks(1), of "\<lambda>_. [NULL]" k "an_egen ?a"] ks(2) by (simp add: kern_sync_def)
  next
    case True
    have v: "kview k f = Some x \<Longrightarrow> kview (io_kern s) f = Some x \<and> f \<noteq> int fd" for f x
      using D c True by (auto split: if_splits)
    have other: "kview k f = kview (io_kern s) f" if "f \<noteq> int fd" for f using D c True that by (auto split: if_splits)
    have "kern_agrees kview k ?as"
      unfolding kern_agrees_def
    proof (intro allI impI)
      fix f m d' assume "kview k f = Some (m, d')"
      from v[OF this] have f: "kview (io_kern s) f = Some (m, d')" "f \<noteq> int fd" by simp_all
      then have "0 \<le> f" "nat f < length (io_anfds s)" "m = epoll_mask (an_emask (io_anfds s ! nat f))" "d' = epoll_data f (an_egen (io_anfds s ! nat f))"
        using ks(1) by (simp_all add: kern_agrees_def)
      moreover have "nat f \<noteq> fd" using f(2) calculation(1) by auto
      ultimately show "0 \<le> f \<and> nat f < length ?as \<and> m = epoll_mask (an_emask (?as ! nat f)) \<and> d' = epoll_data f (an_egen (?as ! nat f))" by simp
    qed
    moreover have "kern_has kview k f (?as ! f)" if "f < length ?as" "an_events (?as ! f) \<noteq> 0" for f
    proof -
      have "f \<noteq> fd" using that(2) a True fd by auto
      then show ?thesis using ks(2)[of f] that other[of "int f"] by (simp add: kern_has_def)
    qed
    ultimately show ?thesis using True by (simp add: kern_sync_def kern_ok_alt)
  qed
  moreover have "map an_egen ?as = map an_egen (io_anfds s)" by (rule nth_equalityI) (use fd in \<open>auto simp: nth_list_update\<close>)
  ultimately have "polled kview L s ?s1" using rt io(3) by (simp add: polled_def rframe_def)
  moreover have "do_ctl ctl (if w \<noteq> 0 then EPOLL_CTL_MOD else EPOLL_CTL_DEL) (int fd) ?ev (s\<lparr>io_anfds := (io_anfds s)[fd := ?a\<lparr>an_emask := w\<rparr>]\<rparr>) = (e, ?s1)"
    using c by (simp add: do_ctl_def)
  ultimately show ?thesis using rt(3) \<open>kern_sync kview ?s1 \<and> (e = 0 \<or> w = 0)\<close> by (intro exI[of _ e] exI[of _ ?s1]) simp
qed

lemma poll_event_ok:
  fixes s :: "('k, 'a) iost_scheme"
  assumes docs: "epoll_docs ctl kview" and p: "polled kview L s s" and r: "0 \<le> epoll_fd (ee_data ev)" "epoll_fd (ee_data ev) < int (length (io_anfds s))"
  shows "\<exists>s'. poll_event ctl ev s = Some s' \<and> polled kview L s s' \<and> pview s' = delivered L (wev (ev_ws s)) (map an_egen (io_anfds s)) ev (pview s)"
proof -
  let ?fd = "nat (epoll_fd (ee_data ev))" let ?got = "epoll_got (ee_events ev)"
  have fd: "epoll_fd (ee_data ev) = int ?fd" "?fd < length (io_anfds s)" using r by simp_all
  define a where "a = io_anfds s ! ?fd"
  have io: "io_ok L 0 s" "changes 0 s = []" using p by (simp_all add: polled_def)
  have w: "an_events a = want (ev_ws s) (L ?fd)" using io fd(2) by (simp add: io_ok_def chg_ok_def a_def)
  have ar: "arr_get (io_anfds s) (epoll_fd (ee_data ev)) = Some a" using arr_get_nat[OF fd(2)] fd(1) by (simp add: a_def)
  show ?thesis
  proof (cases "an_egen a = epoll_gen (ee_data ev)")
    case False
    then have "poll_event ctl ev s = Some (s\<lparr>io_postfork := True\<rparr>)" using ar by (simp add: poll_event_def)
    moreover have "delivered L (wev (ev_ws s)) (map an_egen (io_anfds s)) ev (pview s) = pview s" by (rule delivered_stale) (use False fd(2) in \<open>simp add: a_def\<close>)
    ultimately show ?thesis using postfork_ok[OF p, of True] by simp
  next
    case gen: True
    have dl: "delivered L (wev (ev_ws s)) (map an_egen (io_anfds s)) ev (pview s) = feed_all (ev_ws s) (L ?fd) ?got (pview s)"
      by (rule delivered_feed) (use gen fd(2) in \<open>simp_all add: a_def\<close>)
    have d: "ee_data ev = epoll_data (int ?fd) (an_egen (io_anfds s ! ?fd))" using epoll_data_inverse[of "ee_data ev"] gen fd(1) by (simp add: a_def)
    show ?thesis
    proof (cases "?got AND NOT (an_events a) = 0")
      case True
      then have "poll_event ctl ev s = fd_event (int ?fd) ?got s" using ar gen fd(1) by (simp add: poll_event_def)
      then show ?thesis using polled_event[OF p fd(2)] unfolding dl by simp
    next
      case False
      obtain e s1 where s1: "do_ctl ctl (if an_events a \<noteq> 0 then EPOLL_CTL_MOD else EPOLL_CTL_DEL) (int ?fd) (ev\<lparr>ee_events := epoll_mask (an_events a)\<rparr>)
          (s\<lparr>io_anfds := (io_anfds s)[?fd := (io_anfds s ! ?fd)\<lparr>an_emask := an_events a\<rparr>]\<rparr>) = (e, s1)"
          "polled kview L s s1" "pview s1 = pview s" "ev_ws s1 = ev_ws s" "e = 0 \<or> an_events a = 0"
        using mask_corrected[OF docs p fd(2) _ d, of "an_events a"] by (auto simp: a_def)
      have len: "?fd < length (io_anfds s1)" using s1(2) fd(2) unfolding polled_def by (metis length_map)
      have eq: "poll_event ctl ev s = (if e \<noteq> 0 then Some (s1\<lparr>io_postfork := True\<rparr>) else fd_event (int ?fd) ?got s1)"
        using ar gen False s1(1) fd upd_anfd_ok[OF fd(2), of "\<lambda>b. b\<lparr>an_emask := an_events a\<rparr>"] by (simp add: poll_event_def)
      show ?thesis
      proof (cases "e = 0")
        case True
        then show ?thesis using polled_event[OF s1(2) len] s1(3,4) unfolding eq dl by simp
      next
        case False
        then have "want (ev_ws s) (L ?fd) = 0" using s1(5) w by simp
        moreover have "io_lists L s" using io(1) by (simp add: io_ok_def)
        ultimately have z: "wev (ev_ws s) x = 0" if "x \<in> set (L ?fd)" for x using want_zero[of L s ?fd x] that by simp
        have "feed_all (ev_ws s) (L ?fd) ?got (pview s) = pview s" using z by (auto simp: feed_all_def fun_eq_iff Let_def)
        then show ?thesis using False postfork_ok[OF s1(2), of True] s1(3) unfolding eq dl by simp
      qed
    qed
  qed
qed

lemma poll_events_ok:
  fixes s :: "('k, 'a) iost_scheme"
  assumes docs: "epoll_docs ctl kview" and "polled kview L s s" "\<And>ev. ev \<in> set evs \<Longrightarrow> 0 \<le> epoll_fd (ee_data ev) \<and> epoll_fd (ee_data ev) < int (length (io_anfds s))"
  shows "\<exists>s'. poll_events ctl evs s = Some s' \<and> polled kview L s s' \<and> pview s' = fold (delivered L (wev (ev_ws s)) (map an_egen (io_anfds s))) evs (pview s)"
  using assms(2,3)
proof (induction evs arbitrary: s)
  case (Cons ev evs)
  obtain s1 where s1: "poll_event ctl ev s = Some s1" "polled kview L s s1" "pview s1 = delivered L (wev (ev_ws s)) (map an_egen (io_anfds s)) ev (pview s)"
    using poll_event_ok[OF docs Cons.prems(1), of ev] Cons.prems(2) by auto
  have f: "map an_egen (io_anfds s1) = map an_egen (io_anfds s)" "wev (ev_ws s1) = wev (ev_ws s)" "polled kview L s1 s1" using s1(2) by (simp_all add: polled_def)
  have l: "length (io_anfds s1) = length (io_anfds s)" using f(1) by (metis length_map)
  obtain s' where "poll_events ctl evs s1 = Some s'" "polled kview L s1 s'" "pview s' = fold (delivered L (wev (ev_ws s1)) (map an_egen (io_anfds s1))) evs (pview s1)"
    using Cons.IH[OF f(3)] Cons.prems(2) l by auto
  then show ?case using s1 f polled_trans[OF s1(2)] by simp
qed simp

lemma epoll_poll_ok:
  fixes s :: "('k, 'a) iost_scheme"
  assumes "epoll_docs ctl kview" "io_ok L 0 s" "kern_sync kview s" "changes 0 s = []"
    "\<And>ev. ev \<in> set evs \<Longrightarrow> 0 \<le> epoll_fd (ee_data ev) \<and> epoll_fd (ee_data ev) < int (length (io_anfds s))"
  shows "\<exists>s'. epoll_poll ctl (Inr evs) s = Some s' \<and> io_ok L 0 s' \<and> kern_sync kview s' \<and> changes 0 s' = [] \<and> tmap s' = tmap s \<and> iost.more s' = iost.more s \<and>
    map an_egen (io_anfds s') = map an_egen (io_anfds s) \<and> rep_of s' = rep_of s \<and> wev (ev_ws s') = wev (ev_ws s) \<and> io_eventmax s \<le> io_eventmax s' \<and> pview s' = fold (delivered L (wev (ev_ws s)) (map an_egen (io_anfds s))) evs (pview s)"
proof -
  have "polled kview L s s" using assms by (simp add: polled_def)
  from poll_events_ok[OF assms(1) this assms(5)] obtain s1 where s1: "poll_events ctl evs s = Some s1" "polled kview L s s1"
      "pview s1 = fold (delivered L (wev (ev_ws s)) (map an_egen (io_anfds s))) evs (pview s)" by blast
  let ?s = "s1\<lparr>io_eventmax := array_nextsize 12 (io_eventmax s1) (io_eventmax s1 + 1)\<rparr>"
  have t: "evst.truncate ?s = evst.truncate s1" by (simp add: evst.defs)
  have big: "io_ok L 0 ?s" "kern_sync kview ?s" "changes 0 ?s = []" "tmap ?s = tmap s" "iost.more ?s = iost.more s" "map an_egen (io_anfds ?s) = map an_egen (io_anfds s)"
      "rep_of ?s = rep_of s" "wev (ev_ws ?s) = wev (ev_ws s)" "io_eventmax s \<le> io_eventmax ?s" "pview ?s = pview s1"
    using s1(2) truncate_same[OF t] rep_truncate[OF t] array_nextsize_enough[of 12 "io_eventmax s1 + 1" "io_eventmax s1"]
    by (simp_all add: polled_def io_ok_def io_lists_def chg_ok_def changes_def kern_sync_def kern_ok_def)
  show ?thesis
  proof (cases "length evs = io_eventmax s1")
    case True
    then have "epoll_poll ctl (Inr evs) s = Some ?s" using s1(1) by (simp add: epoll_poll_def)
    then show ?thesis using big s1(3) by (intro exI[of _ ?s]) simp
  next
    case False
    then have "epoll_poll ctl (Inr evs) s = Some s1" using s1(1) by (simp add: epoll_poll_def)
    then show ?thesis using s1(2,3) by (simp add: polled_def)
  qed
qed

lemma registered:
  fixes s :: "('k, 'a) iost_scheme"
  assumes "io_ok L 0 s" "kern_sync kview s" "changes 0 s = []" "want (ev_ws s) (L fd) \<noteq> 0"
  shows "kview (io_kern s) (int fd) = Some (epoll_mask (want (ev_ws s) (L fd)), epoll_data (int fd) (an_egen (io_anfds s ! fd)))"
proof -
  have io: "io_lists L s" "chg_ok L 0 s" using assms(1) by (simp_all add: io_ok_def)
  have "L fd \<noteq> []" using assms(4) by auto
  then have fd: "fd < length (io_anfds s)" using io(1) by (auto simp: io_lists_def dest!: spec[of _ fd] split: if_splits)
  then have "an_events (io_anfds s ! fd) = want (ev_ws s) (L fd)" using io(2) assms(3) by (simp add: chg_ok_def)
  then show ?thesis using assms(2,4) fd by (simp add: kern_sync_def kern_ok_def)
qed


text \<open>
  Starting a watcher of a descriptor and stopping it again leaves the lists of watchers, the count of active ones,
  the timers and the agreement with the kernel as they were; only an event pending for it is dropped.
\<close>

theorem ev_io_start_stop:
  fixes s :: "('k, 'a) iost_scheme"
  assumes "io_ok L 0 s" "kern_sync kview s" "p \<noteq> NULL" "ev_ws s p = Some w" "w_active w = 0" "w_fd w = int fd"
    "w_events w AND NOT (EV_IOFDSET OR EV_READ OR EV_WRITE) = 0"
  shows "\<exists>s1 s'. ev_io_start p s = Some s1 \<and> io_ok (L(fd := p # L fd)) 0 s1 \<and> kern_sync kview s1 \<and> ev_io_stop p s1 = Some s' \<and>
    io_ok L 0 s' \<and> kern_sync kview s' \<and> ev_activecnt s' = ev_activecnt s \<and> tmap s' = tmap s \<and> pview s' = (pview s)(p := None)"
proof -
  obtain s1 where s1: "ev_io_start p s = Some s1" "io_ok (L(fd := p # L fd)) 0 s1" "pview s1 = pview s" "tmap s1 = tmap s" "ev_activecnt s1 = ev_activecnt s + 1" "grown s s1"
    using ev_io_start_ok[OF assms(1,3-7)] by blast
  have k1: "kern_sync kview s1" by (rule kern_sync_grown[OF s1(6) assms(2)])
  obtain s' where s': "ev_io_stop p s1 = Some s'" "io_ok ((L(fd := p # L fd))(fd := remove1 p (p # L fd))) 0 s'" "io_frame s1 s'" "pview s' = (pview s1)(p := None)" "ev_activecnt s' = ev_activecnt s1 - 1"
    using ev_io_stop_ok[OF s1(2), of p fd] by auto
  have "io_ok L 0 s'" using s'(2) by simp
  moreover have "kern_sync kview s'" using kern_sync_frame[OF s'(3)] k1 by simp
  moreover have "tmap s' = tmap s" using s'(3) s1(4) by (simp add: io_frame_def)
  ultimately show ?thesis using s1 s' k1 by auto
qed

text \<open>
  What the kernel reports goes to the watchers that asked for it and to no others: each watcher of a reported
  descriptor gets the reported events it wants added to what is pending for it, a report of a former generation of the descriptor
  (one closed and opened anew in between) reaches nobody, and timers are not touched.
\<close>

theorem epoll_poll_delivers:
  fixes s :: "('k, 'a) iost_scheme"
  assumes "epoll_docs ctl kview" "io_ok L 0 s" "kern_sync kview s" "changes 0 s = []"
    "\<And>ev. ev \<in> set evs \<Longrightarrow> 0 \<le> epoll_fd (ee_data ev) \<and> epoll_fd (ee_data ev) < int (length (io_anfds s))"
  shows "\<exists>s'. epoll_poll ctl (Inr evs) s = Some s' \<and> io_ok L 0 s' \<and> kern_sync kview s' \<and> tmap s' = tmap s \<and>
    pview s' = fold (delivered L (wev (ev_ws s)) (map an_egen (io_anfds s))) evs (pview s)"
  using epoll_poll_ok[OF assms] by blast



section \<open>Examples\<close>

text \<open>A kernel that refuses nothing it need not refuse.\<close>

definition plain_ctl :: "(int \<rightharpoonup> int \<times> u64) epoll_ctl" where
  "plain_ctl opr fd ev k =
     (if opr = EPOLL_CTL_ADD then if k fd \<noteq> None then (ctl_EEXIST, k) else (0, k(fd \<mapsto> (ee_events ev, ee_data ev)))
      else if k fd = None then (ctl_ENOENT, k)
      else if opr = EPOLL_CTL_MOD then (0, k(fd \<mapsto> (ee_events ev, ee_data ev))) else (0, k(fd := None)))"

lemma plain_ctl_docs: "epoll_docs plain_ctl (\<lambda>k. k)"
  by (auto simp: epoll_docs_def plain_ctl_def EPOLL_CTL_ADD_def EPOLL_CTL_MOD_def EPOLL_CTL_DEL_def)

text \<open>A loop in which nothing was started, and a watcher for reading from descriptor 3.\<close>

definition read_watcher :: watcher where
  "read_watcher = zero_watcher\<lparr>w_fd := 3, w_events := EV_READ OR EV_IOFDSET\<rparr>"

definition quiet_loop :: "(int \<rightharpoonup> int \<times> u64) iost" where
  "quiet_loop = \<lparr>ev_ws = [8 \<mapsto> read_watcher], ev_pendings = (\<lambda>_. []), ev_pendingcnt = (\<lambda>_. 0), ev_timers = [], ev_timercnt = 0, ev_activecnt = 0,
     ev_mn_now = 100, io_anfds = [zero_ANFD], io_fdchanges = [], io_fdchangecnt = 0, io_postfork = False, io_eventmax = 64, io_kern = Map.empty\<rparr>"

lemma quiet_loop_ok: "io_ok (\<lambda>_. []) 0 quiet_loop" "kern_sync (\<lambda>k. k) quiet_loop" "pview quiet_loop = Map.empty" "changes 0 quiet_loop = []"
proof -
  have k: "keys quiet_loop = [8 \<mapsto> (0, None)]" by (auto simp: keys_def quiet_loop_def read_watcher_def zero_watcher_def pkey_def)
  have "tm_inv quiet_loop"
    by (simp add: quiet_loop_def tm_inv_def theap_def heap_sized_def entries_def ordered_def indexed_def in_heap_def timed_def)
  moreover have "pend_ok quiet_loop" unfolding pend_ok_def k by (simp add: pend_inv_def quiet_loop_def)
  moreover have "io_lists (\<lambda>_. []) quiet_loop" by (simp add: quiet_loop_def io_lists_def io_list_def zero_ANFD_def)
  moreover have "chg_ok (\<lambda>_. []) 0 quiet_loop" by (simp add: quiet_loop_def chg_ok_def changes_def zero_ANFD_def)
  ultimately show "io_ok (\<lambda>_. []) 0 quiet_loop" by (simp add: io_ok_def)
  show "kern_sync (\<lambda>k. k) quiet_loop" by (simp add: quiet_loop_def kern_sync_def kern_ok_def zero_ANFD_def)
  show "pview quiet_loop = Map.empty" by (auto simp: pview_def k pevents_def fun_eq_iff)
  show "changes 0 quiet_loop = []" by (simp add: quiet_loop_def changes_def)
qed

lemma read_watcher_ok: "ev_ws quiet_loop 8 = Some read_watcher" "w_active read_watcher = 0" "w_fd read_watcher = int 3"
  "w_events read_watcher AND NOT (EV_IOFDSET OR EV_READ OR EV_WRITE) = 0" "w_events read_watcher mod 4 = 1"
  by (simp_all add: quiet_loop_def read_watcher_def zero_watcher_def EV_IOFDSET_def EV_READ_def EV_WRITE_def)

theorem ev_io_start_stop_witness:
  "\<exists>s1 s'. ev_io_start 8 quiet_loop = Some s1 \<and> ev_io_stop 8 s1 = Some s' \<and> io_ok (\<lambda>_. []) 0 s' \<and> ev_activecnt s' = 0 \<and> pview s' = Map.empty"
  using ev_io_start_stop[OF quiet_loop_ok(1,2) _ read_watcher_ok(1-4)] quiet_loop_ok(3) by (auto simp: quiet_loop_def)


theorem epoll_poll_delivers_witness:
  "\<exists>s'. epoll_poll plain_ctl (Inr [\<lparr>ee_events = EPOLLIN, ee_data = epoll_data 0 0\<rparr>]) quiet_loop = Some s' \<and> io_ok (\<lambda>_. []) 0 s' \<and> pview s' = Map.empty"
proof -
  have r: "0 \<le> epoll_fd (ee_data ev) \<and> epoll_fd (ee_data ev) < int (length (io_anfds quiet_loop))" if "ev \<in> set [\<lparr>ee_events = EPOLLIN, ee_data = epoll_data 0 0\<rparr>]" for ev
    using that epoll_data_parts(1)[of 0 0] by (simp add: quiet_loop_def)
  have d: "delivered (\<lambda>_. []) we gens ev v = v" for we gens ev v by (auto simp: delivered_def fun_eq_iff Let_def)
  from epoll_poll_delivers[OF plain_ctl_docs quiet_loop_ok(1,2,4), of "[\<lparr>ee_events = EPOLLIN, ee_data = epoll_data 0 0\<rparr>]"] r show ?thesis
    by (auto simp: quiet_loop_ok(3) d)
qed



end
