(* ===== verification/Ev_Pass.thy ===== *)
theory Ev_Pass
  imports Ev_Epoll
begin

text \<open>
  One iteration of the event loop, \<open>ev_loop\<close> of \<open>src/ev.c\<close>, and the renewal of the kernel's state
  after a fork (\<open>src/ev_epoll.c\<close>).

  The parts are composed as the loop does it: the kernel is told about changed descriptors, the time to wait is
  computed, the reports of the kernel and the due timers become pending, and what is pending is called.  The clock and
  \<open>epoll_wait\<close> are arguments; the clock is the monotonic one, so that reading it only sets the present time.  Periodic, idle and check
  watchers, of which the program starts none, and the counter of iterations are left out.
\<close>

unbundle bit_operations_syntax

section \<open>After a fork\<close>

fun rearm_fds :: "int list \<Rightarrow> ('k, 'a) iost_scheme \<Rightarrow> ('k, 'a) iost_scheme option" where
  "rearm_fds [] s = Some s"
| "rearm_fds (fd # fds) s = do {
     a \<leftarrow> arr_get (io_anfds s) fd;
     s \<leftarrow> (if an_events a \<noteq> 0 then do {
         s \<leftarrow> upd_anfd fd (\<lambda>a. a\<lparr>an_events := 0, an_emask := 0\<rparr>) s;
         fd_change fd (EV_IOFDSET OR 1) s }
       else Some s);
     rearm_fds fds s }"

definition fd_rearm_all :: "('k, 'a) iost_scheme \<Rightarrow> ('k, 'a) iost_scheme option" where
  "fd_rearm_all s = rearm_fds (map int [0 ..< length (io_anfds s)]) s"

text \<open>\<open>k\<close> is the state of the kernel after the old descriptor was closed and a new one was created; when that fails the process ends.\<close>

definition epoll_fork :: "'k option \<Rightarrow> ('k, 'a) iost_scheme \<Rightarrow> ('k, 'a) iost_scheme option" where
  "epoll_fork k s = do { k \<leftarrow> k; fd_rearm_all (s\<lparr>io_kern := k\<rparr>) }"

section \<open>An iteration\<close>

definition EVLOOP_NONBLOCK :: int where "EVLOOP_NONBLOCK = 1"

definition MAX_BLOCKTIME :: "(rat \<Rightarrow> rat) \<Rightarrow> ev_tstamp" where
  "MAX_BLOCKTIME rnd = rnd (59743 / 1000)"

text \<open>The program does not set these, and the backend for \<open>epoll\<close> sets the last one.\<close>

definition timeout_blocktime :: ev_tstamp where "timeout_blocktime = 0"
definition io_blocktime :: ev_tstamp where "io_blocktime = 0"
definition backend_fudge :: ev_tstamp where "backend_fudge = 0"

text \<open>The times to wait for the backend and to sleep before.\<close>

definition block_time :: "(rat \<Rightarrow> rat) \<Rightarrow> 'a evst_scheme \<Rightarrow> (ev_tstamp \<times> ev_tstamp) option" where
  "block_time rnd s = do {
     let waittime = MAX_BLOCKTIME rnd;
     waittime \<leftarrow> (if ev_timercnt s \<noteq> 0 then do {
         e \<leftarrow> arr_get (ev_timers s) (int HEAP0);
         let to = rnd (rnd (he_at e - ev_mn_now s) + backend_fudge);
         Some (if waittime > to then to else waittime) }
       else Some waittime);
     let waittime = (if waittime < timeout_blocktime then timeout_blocktime else waittime);
     let sleeptime = rnd (waittime - backend_fudge);
     let sleeptime = (if sleeptime > io_blocktime then io_blocktime else sleeptime);
     Some (if sleeptime \<noteq> 0 then (rnd (waittime - sleeptime), sleeptime) else (waittime, sleeptime)) }"

definition millis :: "(rat \<Rightarrow> rat) \<Rightarrow> ev_tstamp \<Rightarrow> int" where
  "millis rnd timeout = \<lceil>rnd (timeout * 1000)\<rceil>"

text \<open>
  \<open>t1\<close> and \<open>t2\<close> are the readings of the clock, \<open>wait\<close> is \<open>epoll_wait\<close> with the timeout and the number of
  events there is room for.
\<close>

type_synonym 'k epoll_wait = "int \<Rightarrow> nat \<Rightarrow> 'k \<Rightarrow> int + epoll_event list"

definition loop_round :: "(rat \<Rightarrow> rat) \<Rightarrow> int \<Rightarrow> 'k epoll_ctl \<Rightarrow> 'k epoll_wait \<Rightarrow> ev_tstamp \<Rightarrow> ev_tstamp \<Rightarrow> ('k, 'a) iost_scheme ev_cb \<Rightarrow>
    ('k, 'a) iost_scheme \<Rightarrow> ('k, 'a) iost_scheme option" where
  "loop_round rnd flags ctl wait t1 t2 cb s = do {
     s \<leftarrow> fd_reify (epoll_modify ctl) s;
     (waittime, s) \<leftarrow> (if \<not> (flags AND EVLOOP_NONBLOCK \<noteq> 0 \<or> ev_activecnt s = 0) then do {
         let s = s\<lparr>ev_mn_now := t1\<rparr>;
         (waittime, sleeptime) \<leftarrow> block_time rnd s;
         Some (waittime, s) }
       else Some (0, s));
     s \<leftarrow> epoll_poll ctl (wait (millis rnd waittime) (io_eventmax s) (io_kern s)) s;
     s \<leftarrow> timers_reify rnd (s\<lparr>ev_mn_now := t2\<rparr>);
     call_pending cb s }"

section \<open>Parts of an iteration\<close>

lemma io_clock:
  "io_ok L i (s\<lparr>ev_mn_now := t\<rparr>) = io_ok L i s" "kern_sync kview (s\<lparr>ev_mn_now := t\<rparr>) = kern_sync kview s" "changes i (s\<lparr>ev_mn_now := t\<rparr>) = changes i s"
  by (simp_all add: io_ok_def clock_set io_lists_def chg_ok_def changes_def kern_sync_def kern_ok_def)

lemma block_time_ok:
  assumes "tm_inv s"
  shows "\<exists>w sl. block_time rnd s = Some (w, sl)"
proof (cases "ev_timercnt s = 0")
  case False
  obtain p t where "arr_get (ev_timers s) (int HEAP0) = Some \<lparr>he_at = t, he_w = p\<rparr>" using root_first[OF assms False] by metis
  then show ?thesis using False by (simp add: block_time_def Let_def)
qed (simp add: block_time_def Let_def)

text \<open>The timers and the watchers of descriptors do not meet.\<close>

lemma keeps_events: "keeps s s' \<Longrightarrow> wev (ev_ws s') = wev (ev_ws s)"
proof
  fix q assume "keeps s s'"
  then have "map_option wkeep (ev_ws s' q) = map_option wkeep (ev_ws s q)" by (simp add: keeps_def)
  then show "wev (ev_ws s') q = wev (ev_ws s) q" by (cases "ev_ws s q"; cases "ev_ws s' q") (auto simp: wev_def wkeep_def)
qed

lemma apart_lists:
  fixes s s' :: "('k, 'a) iost_scheme"
  assumes "tm_inv s" "io_lists L s" "apart s s'" "io_anfds s' = io_anfds s"
  shows "io_lists L s'"
proof -
  have same: "map_option (\<lambda>w. w\<lparr>w_pending := 0\<rparr>) (ev_ws s' x) = map_option (\<lambda>w. w\<lparr>w_pending := 0\<rparr>) (ev_ws s x)" if xL: "x \<in> set (L fd)" for x fd
  proof -
    obtain w where "ev_ws s x = Some w" "w_active w = 1" using io_list_watcher[OF assms(2) xL] by (auto simp: io_watcher_def)
    then have "tmap s x = None" using not_timer[OF assms(1)] by simp
    then show ?thesis using assms(3) by (simp add: apart_def)
  qed
  have "io_list (ev_ws s') fd a (L fd)" if l: "io_list (ev_ws s) fd a (L fd)" for fd a
  proof -
    have f: "map_option g (ev_ws s' x) = map_option g (ev_ws s x)" if "x \<in> set (L fd)" "\<And>w n. g (w\<lparr>w_pending := n\<rparr>) = g w" for x and g :: "watcher \<Rightarrow> 'b"
      using arg_cong[OF same[OF that(1)], of "map_option g"] by (simp add: option.map_comp comp_def that(2))
    have "wlist (ev_ws s') (an_head a) (L fd)" using l wlist_cong[of "L fd" "ev_ws s'" "ev_ws s"] f[of _ w_next] by (simp add: io_list_def)
    moreover have "\<exists>w. ev_ws s' x = Some w \<and> io_watcher fd w" if xL: "x \<in> set (L fd)" for x
    proof -
      have "map_option (io_watcher fd) (ev_ws s' x) = map_option (io_watcher fd) (ev_ws s x)" by (rule f[OF xL]) (simp add: io_watcher_def)
      moreover obtain w where "ev_ws s x = Some w" "io_watcher fd w" using l xL by (auto simp: io_list_def)
      ultimately show ?thesis by (auto simp: map_option_eq_Some)
    qed
    ultimately show ?thesis using l by (simp add: io_list_def)
  qed
  then show ?thesis using assms(2,4) by (simp add: io_lists_def)
qed

lemma timers_io:
  fixes s :: "('k, 'a) iost_scheme"
  assumes "io_ok L 0 s" "kern_sync kview s"
  shows "\<exists>s'. timers_reify rnd s = Some s' \<and> io_ok L 0 s' \<and> kern_sync kview s' \<and> changes 0 s' = changes 0 s \<and> io_anfds s' = io_anfds s \<and>
    iost.more s' = iost.more s \<and> rep_of s' = rep_of s \<and> wev (ev_ws s') = wev (ev_ws s) \<and> tmap s' = reified rnd s \<and> pview s' = fired s"
proof -
  have inv: "tm_inv s" "pend_ok s" "io_lists L s" "chg_ok L 0 s" using assms(1) by (simp_all add: io_ok_def)
  obtain s' where s': "timers_reify rnd s = Some s'" "tm_inv s'" "pend_ok s'" "keeps s s'" "tmap s' = reified rnd s" "pview s' = fired s" "apart s s'"
    using timers_reify_ok[OF inv(1,2)] by blast
  have "evst.more s' = evst.more s" using s'(4) by (simp add: keeps_def)
  note io = iost_more[OF this]
  have ev: "wev (ev_ws s') = wev (ev_ws s)" by (rule keeps_events[OF s'(4)])
  have "chg_ok L 0 s'" using inv(4) by (simp add: chg_ok_def changes_def io want_def ev)
  moreover have "io_lists L s'" by (rule apart_lists[OF inv(1,3) s'(7) io(1)])
  moreover have "rep_of s' = rep_of s" using keeps_rep[OF s'(4)] by auto
  ultimately show ?thesis using s' ev assms(2) by (simp add: io_ok_def io changes_def kern_sync_def kern_ok_def)
qed

section \<open>Callbacks of the program\<close>

text \<open>A callback that leaves the event library and its descriptors alone.\<close>

definition io_cb :: "(ptr \<Rightarrow> int \<Rightarrow> 'a \<Rightarrow> 'a) \<Rightarrow> ('k, 'a) iost_scheme ev_cb" where
  "io_cb f p e s = Some (iost.extend (iost.truncate s) (f p e (iost.more s)))"

definition blank_evst :: evst where
  "blank_evst = \<lparr>ev_ws = Map.empty, ev_pendings = (\<lambda>_. []), ev_pendingcnt = (\<lambda>_. 0), ev_timers = [], ev_timercnt = 0, ev_activecnt = 0, ev_mn_now = 0\<rparr>"

definition lift_cb :: "(ptr \<Rightarrow> int \<Rightarrow> 'a \<Rightarrow> 'a) \<Rightarrow> ptr \<Rightarrow> int \<Rightarrow> ('k, 'a) iost_ext \<Rightarrow> ('k, 'a) iost_ext" where
  "lift_cb f p e m = (let s = evst.extend blank_evst m in evst.more (iost.extend (iost.truncate s) (f p e (iost.more s))))"

lemma io_cb_plain: "(io_cb f :: ('k, 'a) iost_scheme ev_cb) = plain_cb (lift_cb f)"
proof (intro ext)
  fix p e and s :: "('k, 'a) iost_scheme"
  show "io_cb f p e s = plain_cb (lift_cb f) p e s" by (cases s) (simp add: io_cb_def plain_cb_def lift_cb_def Let_def evst.defs iost.defs blank_evst_def)
qed

lemma lift_calls:
  fixes s s' :: "('k, 'a) iost_scheme"
  assumes "evst.more s' = call_all (lift_cb f) es (evst.more s)"
  shows "evst.more (iost.extend (iost.truncate s') (iost.more s)) = evst.more s" "iost.more s' = call_all f es (iost.more s)"
proof -
  have "evst.more (iost.extend (iost.truncate s') (iost.more s)) = evst.more s \<and> iost.more s' = call_all f es (iost.more s)"
    using assms
  proof (induction es arbitrary: s)
    case Nil
    then show ?case using iost_more[of s' s] by (cases s; cases s') (simp add: call_all_def evst.defs iost.defs)
  next
    case (Cons e es)
    let ?s = "iost.extend (iost.truncate s) (f (pd_w e) (pd_events e) (iost.more s))"
    have "evst.more ?s = lift_cb f (pd_w e) (pd_events e) (evst.more s)" by (cases s) (simp add: lift_cb_def Let_def evst.defs iost.defs blank_evst_def)
    then have "evst.more s' = call_all (lift_cb f) es (evst.more ?s)" using Cons.prems by (simp add: call_all_def)
    from Cons.IH[OF this] show ?case by (cases s; cases s') (simp add: call_all_def evst.defs iost.defs)
  qed
  then show "evst.more (iost.extend (iost.truncate s') (iost.more s)) = evst.more s" "iost.more s' = call_all f es (iost.more s)" by auto
qed

lemma io_more:
  fixes s :: "('k, 'a) iost_scheme"
  shows "io_ok L i (iost.extend (iost.truncate s) m) = io_ok L i s" "kern_sync kview (iost.extend (iost.truncate s) m) = kern_sync kview s"
    "changes i (iost.extend (iost.truncate s) m) = changes i s" "io_anfds (iost.extend (iost.truncate s) m) = io_anfds s"
    "evst.truncate (iost.extend (iost.truncate s) m) = evst.truncate s"
proof -
  show t: "evst.truncate (iost.extend (iost.truncate s) m) = evst.truncate s" by (simp add: evst.defs iost.defs)
  note same = truncate_same[OF t]
  have f: "io_anfds (iost.extend (iost.truncate s) m) = io_anfds s" "io_fdchanges (iost.extend (iost.truncate s) m) = io_fdchanges s"
      "io_fdchangecnt (iost.extend (iost.truncate s) m) = io_fdchangecnt s" "io_kern (iost.extend (iost.truncate s) m) = io_kern s"
    by (simp_all add: iost.defs)
  show "io_ok L i (iost.extend (iost.truncate s) m) = io_ok L i s" "kern_sync kview (iost.extend (iost.truncate s) m) = kern_sync kview s"
    "changes i (iost.extend (iost.truncate s) m) = changes i s" "io_anfds (iost.extend (iost.truncate s) m) = io_anfds s"
    by (simp_all add: io_ok_def same io_lists_def chg_ok_def changes_def f kern_sync_def kern_ok_def)
qed

lemma calls_io:
  fixes s :: "('k, 'a) iost_scheme"
  assumes "io_ok L 0 s" "kern_sync kview s"
  shows "\<exists>s'. call_pending (io_cb f) s = Some s' \<and> io_ok L 0 s' \<and> kern_sync kview s' \<and> changes 0 s' = changes 0 s \<and> io_anfds s' = io_anfds s \<and>
    iost.more s' = call_all f (agenda_below NUMPRI s) (iost.more s) \<and> rep_of s' = rep_of s \<and> wev (ev_ws s') = wev (ev_ws s) \<and> tmap s' = tmap s \<and> pview s' = Map.empty"
proof -
  have pk: "pend_ok s" using assms(1) by (simp add: io_ok_def)
  obtain s' where s': "call_pending (io_cb f) s = Some s'" "pend_ok s'" "qframe s s'" "pview s' = Map.empty"
      "evst.more s' = call_all (lift_cb f) (agenda_below NUMPRI s) (evst.more s)"
    using call_pending_ok[OF pk, of "lift_cb f"] unfolding io_cb_plain by blast
  let ?t = "iost.extend (iost.truncate s') (iost.more s)"
  note same = truncate_same[OF io_more(5)[of s' "iost.more s"]]
  have fs: "ev_timers ?t = ev_timers s'" "ev_timercnt ?t = ev_timercnt s'" "ev_activecnt ?t = ev_activecnt s'" "ev_mn_now ?t = ev_mn_now s'" "ev_ws ?t = ev_ws s'"
    by (simp_all add: iost.defs)
  have t: "tframe s ?t" using s'(3) lift_calls(1)[OF s'(5)] by (simp add: tframe_def qframe_def fs)
  note tf = tframe_io[OF t]
  have "io_ok L 0 ?t" using assms(1) s'(2) by (simp add: io_ok_def tf same)
  moreover have "kern_sync kview ?t" using kern_sync_frame[OF tf(3)] assms(2) by simp
  moreover have "changes 0 ?t = changes 0 s" "io_anfds ?t = io_anfds s" by (rule tf)+
  moreover have "rep_of ?t = rep_of s" "tmap ?t = tmap s" using tf(3) by (simp_all add: io_frame_def)
  moreover have "rep_of ?t = rep_of s'" by (rule rep_truncate[OF io_more(5)])
  ultimately show ?thesis using s'(1,4) lift_calls(2)[OF s'(5)] tf(2) by (simp add: io_more same fs)
qed

section \<open>What an iteration calls\<close>

text \<open>The documented behaviour of \<open>epoll_wait\<close>: it fails only when interrupted, and reports carry data of registered descriptors.\<close>

definition wait_docs :: "nat \<Rightarrow> 'k epoll_wait \<Rightarrow> bool" where
  "wait_docs n wait \<longleftrightarrow> (\<forall>t m k. case wait t m k of Inl e \<Rightarrow> e = wait_EINTR
     | Inr evs \<Rightarrow> \<forall>ev \<in> set evs. 0 \<le> epoll_fd (ee_data ev) \<and> epoll_fd (ee_data ev) < int n)"

definition reports :: "int + epoll_event list \<Rightarrow> epoll_event list" where
  "reports r = (case r of Inl e \<Rightarrow> [] | Inr evs \<Rightarrow> evs)"

text \<open>What becomes pending in an iteration that begins with nothing pending.\<close>

definition served :: "(nat \<Rightarrow> ptr list) \<Rightarrow> (nat \<Rightarrow> ptr list) \<Rightarrow> epoll_event list \<Rightarrow> ev_tstamp \<Rightarrow> (ptr \<rightharpoonup> ev_tstamp) \<Rightarrow> ('k, 'a) iost_scheme \<Rightarrow> ptr \<rightharpoonup> int" where
  "served L L' evs t tm s p =
     (if \<exists>u. tm p = Some u \<and> u < t then Some EV_TIMEOUT
      else fold (delivered L' (wev (ev_ws s)) (map an_egen (io_anfds s))) evs (failed L L' Map.empty) p)"

lemma poll_io:
  fixes s :: "('k, 'a) iost_scheme"
  assumes "epoll_docs ctl kview" "wait_docs (length (io_anfds s)) wait" "io_ok L 0 s" "kern_sync kview s" "changes 0 s = []"
  shows "\<exists>s'. epoll_poll ctl (wait t m k) s = Some s' \<and> io_ok L 0 s' \<and> kern_sync kview s' \<and> changes 0 s' = [] \<and> tmap s' = tmap s \<and> iost.more s' = iost.more s \<and>
    map an_egen (io_anfds s') = map an_egen (io_anfds s) \<and> rep_of s' = rep_of s \<and> wev (ev_ws s') = wev (ev_ws s) \<and>
    pview s' = fold (delivered L (wev (ev_ws s)) (map an_egen (io_anfds s))) (reports (wait t m k)) (pview s)"
proof (cases "wait t m k")
  case (Inl e)
  then have "e = wait_EINTR" using assms(2) by (auto simp: wait_docs_def dest!: spec[of _ t] spec[of _ m] spec[of _ k])
  then show ?thesis using Inl assms(3-5) by (simp add: epoll_poll_def reports_def)
next
  case (Inr evs)
  have r: "0 \<le> epoll_fd (ee_data ev) \<and> epoll_fd (ee_data ev) < int (length (io_anfds s))" if "ev \<in> set evs" for ev
    using assms(2) Inr that by (auto simp: wait_docs_def dest!: spec[of _ t] spec[of _ m] spec[of _ k])
  show ?thesis using epoll_poll_ok[OF assms(1,3-5), of evs] r unfolding Inr reports_def by auto
qed

lemma delivered_other: "(\<And>fd. p \<notin> set (L fd)) \<Longrightarrow> fold (delivered L we gens) evs v p = v p"
  by (induction evs arbitrary: v) (simp_all add: delivered_def)

lemma fired_served:
  assumes "pview s = fold (delivered L' (wev (ev_ws s)) (map an_egen (io_anfds s))) evs (failed L L' Map.empty)" "\<And>p u fd. tmap s p = Some u \<Longrightarrow> p \<notin> set (L fd)" "shrunk L L'"
  shows "fired s = served L L' evs (ev_mn_now s) (tmap s) s"
proof
  fix p
  show "fired s p = served L L' evs (ev_mn_now s) (tmap s) s p"
  proof (cases "tmap s p")
    case (Some u)
    have "p \<notin> set (L' fd)" "p \<notin> set (L fd)" for fd using assms(2)[OF Some, of fd] assms(3) by (auto simp: shrunk_def dest!: spec[of _ fd])
    then have "pview s p = None" unfolding assms(1) by (simp add: delivered_other failed_def)
    then show ?thesis using Some assms(1) by (auto simp: fired_def served_def fed_def split: bool.splits)
  qed (simp add: fired_def served_def assms(1))
qed

lemma served_cong:
  "wev (ev_ws s') = wev (ev_ws s) \<Longrightarrow> map an_egen (io_anfds s') = map an_egen (io_anfds s) \<Longrightarrow> served L L' evs t tm s' = served L L' evs t tm s"
  by (rule ext) (simp only: served_def)

definition round_result :: "('k \<Rightarrow> int \<rightharpoonup> int \<times> u64) \<Rightarrow> (rat \<Rightarrow> rat) \<Rightarrow> ev_tstamp \<Rightarrow> (nat \<Rightarrow> ptr list) \<Rightarrow> ('k, 'a) iost_scheme \<Rightarrow> (nat \<Rightarrow> ptr list) \<Rightarrow> ('k, 'a) iost_scheme \<Rightarrow> bool" where
  "round_result kview rnd t L s L' s' \<longleftrightarrow> io_ok L' 0 s' \<and> kern_sync kview s' \<and> pview s' = Map.empty \<and> shrunk L L' \<and> rep_of s' = rep_of s \<and> wev (ev_ws s') = wev (ev_ws s) \<and>
     (\<forall>p. tmap s' p = Option.bind (tmap s p) (rearm rnd t (rep_of s p)))"

lemma waiting_ok:
  fixes s :: "('k, 'a) iost_scheme"
  assumes "tm_inv s"
  shows "\<exists>w u. (if \<not> b then do { let s = s\<lparr>ev_mn_now := t1\<rparr>; (waittime, sleeptime) \<leftarrow> block_time rnd s; Some (waittime, s) } else Some (0, s)) =
    Some (w, s\<lparr>ev_mn_now := u\<rparr>)"
proof (cases b)
  case True
  then show ?thesis by (intro exI[of _ 0] exI[of _ "ev_mn_now s"]) simp
next
  case False
  have "tm_inv (s\<lparr>ev_mn_now := t1\<rparr>)" using assms by (simp add: clock_set)
  from block_time_ok[OF this, of rnd] False show ?thesis by auto
qed

lemma loop_round_ok:
  fixes s :: "('k, 'a) iost_scheme"
  assumes "epoll_docs ctl kview" "wait_docs (length (io_anfds s)) wait" "io_ok L 0 s" "kern_sync kview s" "pview s = Map.empty"
  shows "\<exists>s' L' timeout k es. loop_round rnd flags ctl wait t1 t2 (io_cb f) s = Some s' \<and> round_result kview rnd t2 L s L' s' \<and>
    iost.more s' = call_all f es (iost.more s) \<and> distinct (map pd_w es) \<and>
    (\<forall>fd. want (ev_ws s') (L' fd) \<noteq> 0 \<longrightarrow> kview k (int fd) = Some (epoll_mask (want (ev_ws s') (L' fd)), epoll_data (int fd) (an_egen (io_anfds s' ! fd)))) \<and>
    (\<forall>p e. \<lparr>pd_w = p, pd_events = e\<rparr> \<in> set es \<longleftrightarrow> served L L' (reports (wait timeout (io_eventmax s) k)) t2 (tmap s) s' p = Some e)"
proof -
  obtain s1 L' where s1: "fd_reify (epoll_modify ctl) s = Some s1" "io_ok L' 0 s1" "kern_sync kview s1" "changes 0 s1 = []" "rframe s s1" "shrunk L L'"
      "pview s1 = failed L L' (pview s)"
    using fd_reify_ok[OF assms(1,3,4)] by blast
  have r: "length (io_anfds s1) = length (io_anfds s)" "io_eventmax s1 = io_eventmax s" "iost.more s1 = iost.more s" "tmap s1 = tmap s"
      "wev (ev_ws s1) = wev (ev_ws s)" "rep_of s1 = rep_of s" using s1(5) by (simp_all add: rframe_def)
  let ?b = "flags AND EVLOOP_NONBLOCK \<noteq> 0 \<or> ev_activecnt s1 = 0"
  have "tm_inv s1" using s1(2) by (simp add: io_ok_def)
  then obtain w u where w: "(if \<not> ?b then do { let s = s1\<lparr>ev_mn_now := t1\<rparr>; (waittime, sleeptime) \<leftarrow> block_time rnd s; Some (waittime, s) } else Some (0, s1)) =
      Some (w, s1\<lparr>ev_mn_now := u\<rparr>)" using waiting_ok by blast
  let ?s2 = "s1\<lparr>ev_mn_now := u\<rparr>" let ?evs = "reports (wait (millis rnd w) (io_eventmax s) (io_kern s1))"
  have f2: "ev_ws ?s2 = ev_ws s1" "io_anfds ?s2 = io_anfds s1" "iost.more ?s2 = iost.more s1" "rep_of ?s2 = rep_of s1" by (simp_all add: rep_of_def fun_eq_iff)
  obtain s3 where s3: "epoll_poll ctl (wait (millis rnd w) (io_eventmax s) (io_kern s1)) ?s2 = Some s3" "io_ok L' 0 s3" "kern_sync kview s3" "tmap s3 = tmap s"
      "iost.more s3 = iost.more s" "map an_egen (io_anfds s3) = map an_egen (io_anfds s1)" "rep_of s3 = rep_of s" "wev (ev_ws s3) = wev (ev_ws s)"
      "pview s3 = fold (delivered L' (wev (ev_ws s)) (map an_egen (io_anfds s1))) ?evs (failed L L' Map.empty)"
    using poll_io[of ctl kview ?s2 wait L' "millis rnd w" "io_eventmax s" "io_kern s1"] assms(1,2) s1(2-4,7)
    unfolding io_clock clock_set f2 r assms(5) by auto
  let ?s4 = "s3\<lparr>ev_mn_now := t2\<rparr>"
  have f4: "ev_ws ?s4 = ev_ws s3" "io_anfds ?s4 = io_anfds s3" "iost.more ?s4 = iost.more s3" "rep_of ?s4 = rep_of s3" "ev_mn_now ?s4 = t2" by (simp_all add: rep_of_def fun_eq_iff)
  obtain s5 where s5: "timers_reify rnd ?s4 = Some s5" "io_ok L' 0 s5" "kern_sync kview s5" "io_anfds s5 = io_anfds s3" "iost.more s5 = iost.more s" "rep_of s5 = rep_of s"
      "wev (ev_ws s5) = wev (ev_ws s)" "tmap s5 = reified rnd ?s4" "pview s5 = fired ?s4"
    using timers_io[of L' ?s4 kview rnd] s3(2,3) unfolding io_clock f4 s3(5,7,8) by blast
  obtain s6 where s6: "call_pending (io_cb f) s5 = Some s6" "io_ok L' 0 s6" "kern_sync kview s6" "io_anfds s6 = io_anfds s3" "iost.more s6 = call_all f (agenda_below NUMPRI s5) (iost.more s)"
      "rep_of s6 = rep_of s" "wev (ev_ws s6) = wev (ev_ws s)" "tmap s6 = reified rnd ?s4" "pview s6 = Map.empty"
    using calls_io[OF s5(2,3), of f] unfolding s5(4-8) by blast
  have run: "loop_round rnd flags ctl wait t1 t2 (io_cb f) s = Some s6"
    using s1(1) w s3(1) s5(1) s6(1) r(2) by (simp add: loop_round_def Let_def)
  have io: "tm_inv s" "io_lists L s" using assms(3) by (simp_all add: io_ok_def)
  have apart: "p \<notin> set (L fd)" if "tmap s p = Some u" for p u fd
  proof
    assume "p \<in> set (L fd)"
    then obtain v where "ev_ws s p = Some v" "w_active v = 1" using io_list_watcher[OF io(2)] by (auto simp: io_watcher_def)
    then show False using not_timer[OF io(1)] that by simp
  qed
  have sv: "fired ?s4 = served L L' ?evs t2 (tmap s) s6"
  proof -
    have "fired ?s4 = served L L' ?evs (ev_mn_now ?s4) (tmap ?s4) ?s4"
      by (rule fired_served) (use s3 apart s1(6) in \<open>simp_all add: clock_set\<close>)
    also have "\<dots> = served L L' ?evs t2 (tmap s) ?s4" by (simp add: clock_set s3(4))
    also have "\<dots> = served L L' ?evs t2 (tmap s) s6" by (rule served_cong) (simp_all add: s3(8) s6(4,7))
    finally show ?thesis .
  qed
  have pk: "pend_ok s5" using s5(2) by (simp add: io_ok_def)
  have "tmap s6 p = Option.bind (tmap s p) (rearm rnd t2 (rep_of s p))" for p
    by (cases "tmap s p") (simp_all add: s6(8) reified_def clock_set s3(4,7) next_due_def rearm_def)
  then have res: "round_result kview rnd t2 L s L' s6" using s6(2,3,6,7,9) s1(6) by (simp add: round_result_def)
  have wn: "want (ev_ws s6) xs = want (ev_ws s1) xs" for xs by (simp add: want_def s6(7) r(5))
  have reg: "kview (io_kern s1) (int fd) = Some (epoll_mask (want (ev_ws s6) (L' fd)), epoll_data (int fd) (an_egen (io_anfds s6 ! fd)))"
    if "want (ev_ws s6) (L' fd) \<noteq> 0" for fd
  proof -
    have "L' fd \<noteq> []" using that by auto
    then have "fd < length (io_anfds s1)" using s1(2) by (auto simp: io_ok_def io_lists_def dest!: spec[of _ fd] split: if_splits)
    moreover have "length (io_anfds s3) = length (io_anfds s1)" using s3(6) by (metis length_map)
    ultimately have "an_egen (io_anfds s6 ! fd) = an_egen (io_anfds s1 ! fd)" using s3(6) unfolding s6(4) by (metis nth_map)
    then show ?thesis using registered[OF s1(2-4), of fd] that unfolding wn by simp
  qed
  have "\<lparr>pd_w = p, pd_events = e\<rparr> \<in> set (agenda_below NUMPRI s5) \<longleftrightarrow> served L L' ?evs t2 (tmap s) s6 p = Some e" for p e
    using agenda_all[OF pk] by (simp add: s5(9) sv)
  then show ?thesis using run res s6(5) agenda_below_distinct[OF pk] reg by blast
qed

section \<open>Rearming all descriptors\<close>

lemma rearm_one:
  fixes s :: "('k, 'a) iost_scheme"
  assumes "io_ok L 0 s" "fd < length (io_anfds s)"
  shows "\<exists>s'. do { s \<leftarrow> upd_anfd (int fd) (\<lambda>a. a\<lparr>an_events := 0, an_emask := 0\<rparr>) s; fd_change (int fd) (EV_IOFDSET OR 1) s } = Some s' \<and>
    io_ok L 0 s' \<and> evst.truncate s' = evst.truncate s \<and> io_kern s' = io_kern s \<and> io_postfork s' = io_postfork s \<and> io_eventmax s' = io_eventmax s \<and>
    iost.more s' = iost.more s \<and> length (io_anfds s') = length (io_anfds s) \<and>
    map an_events (io_anfds s') = (map an_events (io_anfds s))[fd := 0]"
proof -
  have inv: "tm_inv s" "pend_ok s" "io_lists L s" "chg_ok L 0 s" using assms(1) by (simp_all add: io_ok_def)
  let ?a = "(io_anfds s ! fd)\<lparr>an_events := 0, an_emask := 0\<rparr>"
  let ?s = "s\<lparr>io_anfds := (io_anfds s)[fd := ?a]\<rparr>"
  have i: "fd < length (io_anfds ?s)" "0 \<le> io_fdchangecnt ?s" "io_fdchangecnt ?s \<le> length (io_fdchanges ?s)" using inv(4) assms(2) by (simp_all add: chg_ok_def)
  obtain s' where s': "fd_change (int fd) (EV_IOFDSET OR 1) ?s = Some s'" "evst.truncate s' = evst.truncate ?s" "io_kern s' = io_kern ?s"
      "io_postfork s' = io_postfork ?s" "io_eventmax s' = io_eventmax ?s" "iost.more s' = iost.more ?s"
      "io_anfds s' = (io_anfds ?s)[fd := (io_anfds ?s ! fd)\<lparr>an_reify := uchar (an_reify (io_anfds ?s ! fd) OR (EV_IOFDSET OR 1))\<rparr>]"
      "changes 0 s' = changes 0 ?s @ (if an_reify (io_anfds ?s ! fd) = 0 then [int fd] else [])" "0 \<le> io_fdchangecnt s'" "io_fdchangecnt s' \<le> length (io_fdchanges s')"
    using fd_change_ok[OF i, of "EV_IOFDSET OR 1"] by blast
  have t: "evst.truncate s' = evst.truncate s" using s'(2) by (simp add: evst.defs)
  note same = truncate_same[OF t]
  define r where "r = uchar (an_reify (io_anfds s ! fd) OR (EV_IOFDSET OR 1))"
  have an: "io_anfds s' = (io_anfds s)[fd := ?a\<lparr>an_reify := r\<rparr>]" using s'(7) assms(2) by (simp add: r_def)
  have "map an_head (io_anfds s') = map an_head (io_anfds s)" unfolding an map_update by (simp add: list_update_same_conv assms(2))
  then have "io_lists L s'" using io_lists_cong[of s' s L] inv(3) same(1) by simp
  moreover have "chg_ok L 0 s'"
  proof (rule chg_ok_entered[OF inv(4) assms(2) _ s'(9,10)])
    show "changes 0 s' = changes 0 s @ (if an_reify (io_anfds s ! fd) = 0 then [int fd] else [])" using s'(8) assms(2) by (simp add: changes_def)
  qed (simp_all add: an same(1))
  ultimately have "io_ok L 0 s'" using inv same by (simp add: io_ok_def)
  moreover have "map an_events (io_anfds s') = (map an_events (io_anfds s))[fd := 0]" unfolding an map_update by simp
  ultimately show ?thesis using s'(1,3-6) assms(2) t an by (simp add: upd_anfd_ok)
qed

lemma rearm_fds_ok:
  fixes s :: "('k, 'a) iost_scheme"
  assumes "io_ok L 0 s" "\<And>fd. fd \<in> set fds \<Longrightarrow> fd < length (io_anfds s)"
  shows "\<exists>s'. rearm_fds (map int fds) s = Some s' \<and>
    io_ok L 0 s' \<and> evst.truncate s' = evst.truncate s \<and> io_kern s' = io_kern s \<and> io_postfork s' = io_postfork s \<and> io_eventmax s' = io_eventmax s \<and>
    iost.more s' = iost.more s \<and> length (io_anfds s') = length (io_anfds s) \<and>
    (\<forall>fd. map an_events (io_anfds s') ! fd = (if fd \<in> set fds then 0 else map an_events (io_anfds s) ! fd))"
  using assms
proof (induction fds arbitrary: s)
  case (Cons fd fds)
  have fd: "fd < length (io_anfds s)" using Cons.prems(2) by simp
  let ?step = "if an_events (io_anfds s ! fd) \<noteq> 0 then do { s \<leftarrow> upd_anfd (int fd) (\<lambda>a. a\<lparr>an_events := 0, an_emask := 0\<rparr>) s; fd_change (int fd) (EV_IOFDSET OR 1) s } else Some s"
  obtain s1 where s1: "?step = Some s1" "io_ok L 0 s1" "evst.truncate s1 = evst.truncate s" "io_kern s1 = io_kern s" "io_postfork s1 = io_postfork s" "io_eventmax s1 = io_eventmax s"
      "iost.more s1 = iost.more s" "length (io_anfds s1) = length (io_anfds s)" "map an_events (io_anfds s1) = (map an_events (io_anfds s))[fd := 0]"
  proof (cases "an_events (io_anfds s ! fd) = 0")
    case True
    have "(map an_events (io_anfds s))[fd := 0] = map an_events (io_anfds s)" using True fd by (simp add: list_update_same_conv)
    then show thesis using that[of s] True Cons.prems(1) by simp
  qed (use rearm_one[OF Cons.prems(1) fd] that in auto)
  obtain s' where s': "rearm_fds (map int fds) s1 = Some s'" "io_ok L 0 s'" "evst.truncate s' = evst.truncate s1" "io_kern s' = io_kern s1" "io_postfork s' = io_postfork s1" "io_eventmax s' = io_eventmax s1"
      "iost.more s' = iost.more s1" "length (io_anfds s') = length (io_anfds s1)"
      "\<forall>f. map an_events (io_anfds s') ! f = (if f \<in> set fds then 0 else map an_events (io_anfds s1) ! f)"
    using Cons.IH[OF s1(2)] Cons.prems(2) s1(8) by auto
  have "rearm_fds (map int (fd # fds)) s = Some s'" using fd s1(1) s'(1) by simp
  moreover have "map an_events (io_anfds s') ! f = (if f \<in> set (fd # fds) then 0 else map an_events (io_anfds s) ! f)" for f
    using s'(9) s1(9) fd by (cases "f = fd") auto
  ultimately show ?case using s' s1 by simp
qed simp

lemma epoll_fork_ok:
  fixes s :: "('k, 'a) iost_scheme"
  assumes "io_ok L 0 s" "kview k = Map.empty"
  shows "\<exists>s'. epoll_fork (Some k) s = Some s' \<and> io_ok L 0 s' \<and> kern_sync kview s' \<and> evst.truncate s' = evst.truncate s \<and> iost.more s' = iost.more s"
proof -
  let ?s = "s\<lparr>io_kern := k\<rparr>"
  have ok: "io_ok L 0 ?s" using assms(1) by (simp add: io_ok_kern)
  obtain s' where s': "rearm_fds (map int [0 ..< length (io_anfds ?s)]) ?s = Some s'" "io_ok L 0 s'" "evst.truncate s' = evst.truncate ?s" "io_kern s' = k" "iost.more s' = iost.more s"
      "length (io_anfds s') = length (io_anfds s)" "\<forall>fd. map an_events (io_anfds s') ! fd = (if fd \<in> set [0 ..< length (io_anfds ?s)] then 0 else map an_events (io_anfds ?s) ! fd)"
    using rearm_fds_ok[OF ok, of "[0 ..< length (io_anfds ?s)]"] by auto
  have "an_events (io_anfds s' ! fd) = 0" if "fd < length (io_anfds s')" for fd using spec[OF s'(7), of fd] that s'(6) by simp
  then have "kern_sync kview s'" using assms(2) s'(4) by (simp add: kern_sync_def kern_ok_def)
  moreover have "evst.truncate s' = evst.truncate s" using s'(3) by (simp add: evst.defs)
  ultimately show ?thesis using s' by (simp add: epoll_fork_def fd_rearm_all_def)
qed

section \<open>Properties\<close>


text \<open>
  C37.  The loop never sleeps too long: whatever the rounding of times, if it keeps order and zero, the time to wait is computed without
  a fault, is not negative (a negative one would mean to wait for ever), is at most the constant of the library, and does not pass the time of any
  timer; there is no separate sleep.  So with a timer that is due it does not wait at all.
\<close>

theorem block_time_bounds:
  assumes "tm_inv s" "mono rnd" "rnd 0 = 0"
  shows "\<exists>w. block_time rnd s = Some (w, 0) \<and> 0 \<le> w \<and> w \<le> MAX_BLOCKTIME rnd \<and> 0 \<le> millis rnd w \<and>
    (\<forall>p u. tmap s p = Some u \<longrightarrow> w \<le> max 0 (rnd (rnd (u - ev_mn_now s))) \<and> (u \<le> ev_mn_now s \<longrightarrow> millis rnd w = 0))"
proof -
  have pos: "0 \<le> rnd x" if "0 \<le> x" for x using monoD[OF assms(2) that] assms(3) by simp
  have neg: "rnd x \<le> 0" if "x \<le> 0" for x using monoD[OF assms(2) that] assms(3) by simp
  have max0: "0 \<le> MAX_BLOCKTIME rnd" unfolding MAX_BLOCKTIME_def by (rule pos) simp
  have ms: "0 \<le> millis rnd w" if "0 \<le> w" for w
  proof -
    have "0 \<le> rnd (w * 1000)" by (rule pos) (use that in simp)
    then show ?thesis by (simp add: millis_def)
  qed
  have ms0: "millis rnd 0 = 0" using assms(3) by (simp add: millis_def)
  show ?thesis
  proof (cases "ev_timercnt s = 0")
    case True
    then have "tmap s p = None" for p by (simp add: tmap_def entries_def)
    moreover have "block_time rnd s = Some (MAX_BLOCKTIME rnd, 0)"
      using True max0 pos[OF max0] by (auto simp: block_time_def Let_def timeout_blocktime_def io_blocktime_def backend_fudge_def)
    ultimately show ?thesis using max0 ms[OF max0] by auto
  next
    case False
    obtain p t where root: "arr_get (ev_timers s) (int HEAP0) = Some \<lparr>he_at = t, he_w = p\<rparr>" "\<And>q u. tmap s q = Some u \<Longrightarrow> t \<le> u"
      using root_first[OF assms(1) False] by metis
    define d where "d = rnd (rnd (t - ev_mn_now s))"
    define w where "w = max 0 (min (MAX_BLOCKTIME rnd) d)"
    have w: "0 \<le> w" "w \<le> MAX_BLOCKTIME rnd" using max0 by (simp_all add: w_def)
    have "block_time rnd s = Some (w, 0)"
      using False root(1) pos[OF w(1)]
      by (auto simp: block_time_def Let_def timeout_blocktime_def io_blocktime_def backend_fudge_def d_def[symmetric] w_def min_def max_def)
    moreover have "w \<le> max 0 (rnd (rnd (u - ev_mn_now s)))" if "tmap s q = Some u" for q u
    proof -
      have "d \<le> rnd (rnd (u - ev_mn_now s))" unfolding d_def by (intro monoD[OF assms(2)]) (use root(2)[OF that] in simp)
      then show ?thesis by (auto simp: w_def)
    qed
    moreover have "millis rnd w = 0" if "tmap s q = Some u" "u \<le> ev_mn_now s" for q u
    proof -
      have "rnd (rnd (u - ev_mn_now s)) \<le> 0" using that(2) by (intro neg) simp
      then have "w = 0" using calculation(2)[OF that(1)] w(1) by simp
      then show ?thesis by (simp add: ms0)
    qed
    ultimately show ?thesis using w ms[OF w(1)] by blast
  qed
qed


section \<open>Examples of iterations\<close>

text \<open>A kernel that always finds descriptor 3 readable.\<close>

definition ready :: "(int \<rightharpoonup> int \<times> u64) epoll_wait" where
  "ready t n k = (case k 3 of None \<Rightarrow> Inr [] | Some (m, d) \<Rightarrow> Inr (if epoll_fd d = 3 then [\<lparr>ee_events = EPOLLIN, ee_data = d\<rparr>] else []))"

lemma ready_docs: "3 < n \<Longrightarrow> wait_docs n ready"
  by (auto simp: wait_docs_def ready_def split: option.splits)

lemma quiet_started:
  obtains s where "ev_io_start 8 quiet_loop = Some s" "io_ok ((\<lambda>_. [])(3 := [8])) 0 s" "kern_sync (\<lambda>k. k) s" "pview s = Map.empty" "3 < length (io_anfds s)"
    "tmap s = Map.empty" "wev (ev_ws s) 8 = 1"
proof -
  obtain s where s: "ev_io_start 8 quiet_loop = Some s" "io_ok ((\<lambda>_. [])(3 := [8])) 0 s" "pview s = pview quiet_loop" "tmap s = tmap quiet_loop" "grown quiet_loop s"
      "wev (ev_ws s) = (wev (ev_ws quiet_loop))(8 := w_events read_watcher AND NOT EV_IOFDSET)"
    using ev_io_start_ok[OF quiet_loop_ok(1) _ read_watcher_ok(1-4)] by auto
  show thesis
  proof (rule that[OF s(1,2)])
    show "kern_sync (\<lambda>k. k) s" by (rule kern_sync_grown[OF s(5) quiet_loop_ok(2)])
    show "pview s = Map.empty" using s(3) quiet_loop_ok(3) by simp
    have io: "io_lists ((\<lambda>_. [])(3 := [8])) s" using s(2) by (simp add: io_ok_def)
    show "3 < length (io_anfds s)" using io_list_watcher[OF io, of 8 3] by simp
    show "tmap s = Map.empty" using s(4) by (simp add: tmap_def entries_def quiet_loop_def fun_eq_iff)
    show "wev (ev_ws s) 8 = 1" using s(6) by (simp add: read_watcher_def zero_watcher_def EV_IOFDSET_def EV_READ_def)
  qed
qed


theorem block_time_bounds_witness: "\<exists>w. block_time (\<lambda>x. x) one_timer = Some (w, 0) \<and> millis (\<lambda>x. x) w = 0"
proof -
  have "tm_inv one_timer" using one_timer_ok(1) by (simp add: loop_idle_def)
  then obtain w where w: "block_time (\<lambda>x. x) one_timer = Some (w, 0)" "\<forall>p u. tmap one_timer p = Some u \<longrightarrow> u \<le> ev_mn_now one_timer \<longrightarrow> millis (\<lambda>x. x) w = 0"
    using block_time_bounds[of one_timer "\<lambda>x. x"] by (auto simp: mono_def)
  have "millis (\<lambda>x. x) w = 0" using w(2)[rule_format, of 8 100] one_timer_ok(2,4) by simp
  with w(1) show ?thesis by blast
qed


end
