(* ===== verification/Spec2Isabelle.thy ===== *)
theory Spec2Isabelle
  imports Balloc_Pool Dictionary Str Timestr Conf Dlink_Pool Toc Fuse_Mount Ev_Pass
begin

text \<open>
  Verification of fs-pkg, a FUSE file system whose files come from package archives.

  \<^bold>\<open>The program.\<close>  \<open>main\<close> (\<open>src/main.c\<close>) reads a configuration file into a string dictionary,
  creates the block heaps, mounts the file system, opens the database, and walks the package
  directories.  Every package found is opened as a xar archive and its files are stored in an
  SQLite table (\<open>src/pkg_toc.c\<close>, \<open>src/db_sqlite.c\<close>).  From then on the program reacts to
  events: a message of the kernel on the FUSE device (\<open>src/vfs_fuse.c\<close> and the bundled FUSE
  library), a change in a package directory (\<open>src/vfs_inotify.c\<close>), and timers that collect
  unused blocks and unused packages.

  \<^bold>\<open>Conventions.\<close>  A C run is a function of the state with an \<open>option\<close> result.  \<open>None\<close> is a run
  that the code cannot complete: a NULL or freed pointer is used, an array is accessed out of
  range, an assertion fails, the process is ended by a signal it does not handle, or a loop never
  ends (loops without an obvious measure are \<open>partial_function (option)\<close>, so that not returning
  is None as well; that they do return is part of the theorems).  Structs are records, memory is a
  map from addresses to structs, arrays and C strings that are changed in place are lists with
  checked access.  Integers have their C width as words where they can wrap.  What the program
  asks of the system (memory, descriptors, results of system calls, SQL, decompression) is an
  argument of the function that asks; theorems that need something of it say so as a hypothesis.
  There is no fuel in the models; \<open>room\<close> in the option parser counts the allocations before the
  first one that fails, and every number is allowed there.

  \<^bold>\<open>Theories.\<close>
  \<^item> \<open>Fs_Prelude\<close>: pointers, memory, checked arrays, C conversions, collections of rewrite rules.
  \<^item> \<open>Dlink\<close>, \<open>Dlink_Pool\<close>: \<open>src/dlink.c\<close>.  Pointer operations against the sequences they
    represent (locale \<open>node_list\<close>), and the pool of nodes.
  \<^item> \<open>Balloc\<close>, \<open>Balloc_Inv\<close>, \<open>Balloc_Pool\<close>: \<open>src/balloc.c\<close>.  The allocator, its
    invariant \<open>heap_inv\<close>, and the contract of its clients (locale \<open>elem_pool\<close>): allocation returns
    cleared memory not in use, the collector unmaps exactly the empty blocks.
  \<^item> \<open>Dictionary\<close>: \<open>src/dictionary.c\<close>, a refinement of finite maps (locale \<open>string_map\<close>).
  \<^item> \<open>Str\<close>: \<open>src/str.c\<close>, \<open>src/support.c\<close>.  In-place tokenizers and bounded copies.
  \<^item> \<open>Timestr\<close>: \<open>src/timestr.c\<close>, durations as text, both ways.
  \<^item> \<open>Conf\<close>: \<open>src/conf.c\<close>, \<open>src/logger.c\<close>.  The reader of the configuration file gives back
    what was written.
  \<^item> \<open>Obj_List\<close>: a list whose nodes and objects come from two block heaps, as three components
    of the program have it.
  \<^item> \<open>Pkg\<close>: \<open>src/pkg.c\<close>.  The cache of open packages (locale \<open>handle_cache\<close>): reference counts
    and the collector.
  \<^item> \<open>Xar_Tree\<close>, \<open>Xar_Iter\<close>: \<open>src/xar/filetree.c\<close>, \<open>src/xar/util.c\<close>.  Properties by path
    (locale \<open>path_store\<close>) and the iterators as a preorder of the tree (locale \<open>ordered_tree\<close>).
  \<^item> \<open>Db\<close>: \<open>src/db_sqlite.c\<close>, \<open>src/inode.c\<close>, import and removal of packages as transactions.
  \<^item> \<open>Toc\<close>: the direct reader of the table of contents in \<open>src/pkg_toc.c\<close>, \<open>src/pkg_map.c\<close>.
  \<^item> \<open>Vfs\<close>, \<open>Inotify\<close>: \<open>src/vfs.c\<close>, \<open>src/vfs_inotify.c\<close>.  The walk over the directories and
    the callback on changes, down to the bytes of the event buffer.
  \<^item> \<open>Fuse_Ll\<close>, \<open>Fuse_Session\<close>: \<open>src/fuse/fuse_lowlevel.c\<close>, \<open>src/fuse/fuse_session.c\<close>,
    \<open>src/fuse/fuse_kern_chan.c\<close>.  Requests, replies, interrupts and the dispatch of messages to a
    table of operations; the locale \<open>fuse_filesystem\<close> says what a table has to guarantee for every
    message to be answered once.
  \<^item> \<open>Vfs_Fuse\<close>: \<open>src/vfs_fuse.c\<close>, \<open>src/vfs_pkg.h\<close>, \<open>src/vfs_spill.h\<close>.  The table of the
    program meets that contract.
  \<^item> \<open>Fuse_Opt\<close>, \<open>Fuse_Mount\<close>: \<open>src/fuse/fuse_opt.c\<close> and its users in \<open>src/fuse/mount.c\<close>,
    \<open>src/fuse/fuse_lowlevel.c\<close>, \<open>src/fuse/helper.c\<close>, and the start of the session (locale
    \<open>opt_client\<close>: what a processing function guarantees for every parse to end).
  \<^item> \<open>Ev_Heap\<close>, \<open>Ev_Timer\<close>, \<open>Ev_Loop\<close>: \<open>src/ev.c\<close>, \<open>src/evt.c\<close>.  The heap of timers with the indices
    its watchers hold, the timers as a map from watchers to times, the arrays of pending events as a
    map from watchers to events, and the rounds of the loop (locale \<open>timer_rounds\<close>): a periodic timer of
    the program goes off in exactly the rounds its due time foretells.  Times are rational numbers and
    their sums are rounded by an arbitrary function.
  \<^item> \<open>Ev_Io\<close>, \<open>Ev_Epoll\<close>: \<open>src/ev.c\<close>, \<open>src/ev_epoll.c\<close>.  The lists of watchers of descriptors, the
    array of changes, and the epoll backend on a kernel that behaves as documented: its interest list
    agrees with what the watchers want, and its reports reach those that asked for them.
  \<^item> \<open>Ev_Pass\<close>: an iteration of \<open>ev_loop\<close> in \<open>src/ev.c\<close>, composed of the parts above from the call of
    \<open>fd_reify\<close> to the call of what is pending, the time it waits, and \<open>epoll_fork\<close>.  The clock is monotonic.

  Each theory states its operations first, in the order of the code, then its invariant and the
  lemmas about each operation, then the properties.  Several properties state what the code does
  where it does not do what it means to: an event with a hidden name is never passed, a walk stops
  at the first file that is not a package, opening a missing file replies twice.

  \<^bold>\<open>Not modelled.\<close>  The path based interface, the loops and threads of the FUSE library and the
  reading and writing of archives with their compression and attributes, which the program calls
  only through what is modelled or not at all; text written to the log or to stderr; the mutexes,
  since the daemon is a single thread; the parts of the event library for kinds of watchers and for
  systems the program does not use, and the pipe on which it takes signals; and the system calls themselves.
\<close>

end
